(* ===== verification/Prelude.thy ===== *)
theory Prelude
  imports Complex_Main "HOL-Library.AList" "HOL-Library.List_Lexorder" "HOL-Library.Char_ord"
    "HOL-Library.Product_Lexorder" "HOL-Library.Multiset"
begin

section \<open>Prelude: types, dictionaries, tables and transition systems\<close>

text \<open>
  What every component theory shares.

  \<^item> Names of the model's base types. A Python \<^verbatim>\<open>str\<close> is a \<open>string\<close>; a clock reading
    (\<^verbatim>\<open>time.time()\<close>, \<^verbatim>\<open>time.monotonic()\<close>, floats of seconds) is a rational, so the rounding of
    the floats is not modelled. A function of the code that reads the clock takes the reading as
    an argument: one reading stands for all the readings of one call.
  \<^item> Insertion-ordered dictionaries: association lists with the library's \<^const>\<open>AList.update\<close>
    (replaces in place or appends, as \<^verbatim>\<open>d[k] = v\<close> does) and \<^const>\<open>AList.delete\<close>
    (\<^verbatim>\<open>d.pop(k, None)\<close>).
  \<^item> SQL tables: lists of rows in rowid order; an \<^verbatim>\<open>UPDATE ... WHERE\<close> maps over the rows that
    match, its \<^verbatim>\<open>rowcount\<close> is the number of matching rows.
  \<^item> The locale of transition systems with an invariant, interpreted by every component whose
    safety is stated over its reachable states.
\<close>

type_synonym time = rat
type_synonym text_id = string

named_theorems row_simps \<open>facts about rows selected and updated in a table\<close>
named_theorems inv_simps \<open>facts that unfold the components' invariants\<close>

subsection \<open>Options read the way Python's \<open>or\<close> and truthiness read them\<close>

text \<open>\<^verbatim>\<open>bool(s)\<close> of an optional string: \<^verbatim>\<open>None\<close> and the empty string are false.\<close>

fun truthy_text :: "string option \<Rightarrow> bool" where
  "truthy_text None = False"
| "truthy_text (Some s) = (s \<noteq> [])"

text \<open>\<^verbatim>\<open>bool(t)\<close> of an optional clock reading: \<^verbatim>\<open>None\<close> and \<open>0.0\<close> are false.\<close>

fun truthy_time :: "time option \<Rightarrow> bool" where
  "truthy_time None = False"
| "truthy_time (Some t) = (t \<noteq> 0)"

text \<open>\<^verbatim>\<open>a or b\<close> on optional strings.\<close>

definition or_text :: "string option \<Rightarrow> string option \<Rightarrow> string option" where
  "or_text a b = (if truthy_text a then a else b)"

definition or_time :: "time option \<Rightarrow> time option \<Rightarrow> time option" where
  "or_time a b = (if truthy_time a then a else b)"

lemma truthy_text_Some: "truthy_text a \<Longrightarrow> \<exists>s. a = Some s \<and> s \<noteq> []"
  by (cases a) auto

lemma truthy_time_Some: "truthy_time a \<Longrightarrow> \<exists>t. a = Some t \<and> t \<noteq> 0"
  by (cases a) auto

subsection \<open>Dictionaries\<close>

abbreviation dict_get :: "('k \<times> 'v) list \<Rightarrow> 'k \<Rightarrow> 'v option" where
  "dict_get d k \<equiv> map_of d k"

abbreviation dict_set :: "'k \<Rightarrow> 'v \<Rightarrow> ('k \<times> 'v) list \<Rightarrow> ('k \<times> 'v) list" where
  "dict_set k v d \<equiv> AList.update k v d"

abbreviation dict_pop :: "'k \<Rightarrow> ('k \<times> 'v) list \<Rightarrow> ('k \<times> 'v) list" where
  "dict_pop k d \<equiv> AList.delete k d"

definition dict_ok :: "('k \<times> 'v) list \<Rightarrow> bool" where
  "dict_ok d = distinct (map fst d)"

text \<open>\<^verbatim>\<open>d.get(k, 0)\<close> on a counter.\<close>

definition get_count :: "('k \<times> nat) list \<Rightarrow> 'k \<Rightarrow> nat" where
  "get_count d k = (case dict_get d k of None \<Rightarrow> 0 | Some n \<Rightarrow> n)"

lemma dict_get_set [simp]: "dict_get (dict_set k v d) j = (if j = k then Some v else dict_get d j)"
  by (simp add: update_conv)

lemma dict_get_pop [simp]: "dict_get (dict_pop k d) j = (if j = k then None else dict_get d j)"
  by (simp add: delete_conv)

lemma dict_ok_set [intro, simp]: "dict_ok d \<Longrightarrow> dict_ok (dict_set k v d)"
  by (simp add: dict_ok_def distinct_update)

lemma dict_ok_pop [intro, simp]: "dict_ok d \<Longrightarrow> dict_ok (dict_pop k d)"
  by (simp add: dict_ok_def distinct_delete)

lemma dict_ok_Nil [simp]: "dict_ok []"
  by (simp add: dict_ok_def)

lemma get_count_set [simp]:
  "get_count (dict_set k n d) j = (if j = k then n else get_count d j)"
  by (simp add: get_count_def)

lemma get_count_pop [simp]:
  "get_count (dict_pop k d) j = (if j = k then 0 else get_count d j)"
  by (simp add: get_count_def)

lemma get_count_Nil [simp]: "get_count [] k = 0"
  by (simp add: get_count_def)

lemma set_dict_pop: "set (dict_pop k d) = {p \<in> set d. fst p \<noteq> k}"
  by (auto simp: AList.delete_eq)

lemma dict_get_in_values: "dict_get d k = Some v \<Longrightarrow> v \<in> snd ` set d"
  by (metis map_of_SomeD rev_image_eqI snd_conv)

lemma dict_okD: "dict_ok d \<Longrightarrow> (k, v) \<in> set d \<Longrightarrow> dict_get d k = Some v"
  by (simp add: dict_ok_def)

lemma length_dict_pop: "dict_ok d \<Longrightarrow> dict_get d k = Some v \<Longrightarrow> length d = Suc (length (dict_pop k d))"
proof (induction d)
  case (Cons p d)
  obtain j w where p: "p = (j, w)" by (cases p)
  show ?case
  proof (cases "j = k")
    case True
    with Cons.prems(1) p have "k \<notin> fst ` set d" by (simp add: dict_ok_def)
    then have "dict_pop k d = d" by (simp add: delete_id)
    with p True show ?thesis by simp
  next
    case False
    with Cons.prems p have "dict_ok d" and "dict_get d k = Some v" by (simp_all add: dict_ok_def)
    with Cons.IH p False show ?thesis by simp
  qed
qed simp

subsection \<open>Tables\<close>

definition count_where :: "('r \<Rightarrow> bool) \<Rightarrow> 'r list \<Rightarrow> nat" where
  "count_where P rows = length (filter P rows)"

definition update_where :: "('r \<Rightarrow> bool) \<Rightarrow> ('r \<Rightarrow> 'r) \<Rightarrow> 'r list \<Rightarrow> 'r list" where
  "update_where P f rows = map (\<lambda>r. if P r then f r else r) rows"

definition first_where :: "('r \<Rightarrow> bool) \<Rightarrow> 'r list \<Rightarrow> 'r option" where
  "first_where P rows = find P rows"

lemma count_where_Nil [simp]: "count_where P [] = 0"
  by (simp add: count_where_def)

lemma count_where_Cons [simp]:
  "count_where P (r # rows) = (if P r then Suc (count_where P rows) else count_where P rows)"
  by (simp add: count_where_def)

lemma count_where_append [simp]: "count_where P (xs @ ys) = count_where P xs + count_where P ys"
  by (simp add: count_where_def)

lemma count_where_pos: "0 < count_where P rows \<longleftrightarrow> (\<exists>r \<in> set rows. P r)"
  by (auto simp: count_where_def filter_empty_conv)

lemma count_where_0: "count_where P rows = 0 \<longleftrightarrow> (\<forall>r \<in> set rows. \<not> P r)"
  by (auto simp: count_where_def filter_empty_conv)

lemma count_where_le_length: "count_where P rows \<le> length rows"
  by (simp add: count_where_def)

lemma count_where_mono:
  "(\<And>r. r \<in> set rows \<Longrightarrow> P r \<Longrightarrow> Q r) \<Longrightarrow> count_where P rows \<le> count_where Q rows"
  by (induction rows) (auto simp: le_SucI)

lemma count_where_cong:
  "(\<And>r. r \<in> set rows \<Longrightarrow> P r = Q r) \<Longrightarrow> count_where P rows = count_where Q rows"
  by (induction rows) auto

lemma count_where_map: "count_where P (map f rows) = count_where (P \<circ> f) rows"
  by (induction rows) auto

lemma length_update_where [simp]: "length (update_where P f rows) = length rows"
  by (simp add: update_where_def)

lemma update_where_Nil [simp]: "update_where P f [] = []"
  by (simp add: update_where_def)

lemma update_where_Cons [simp]:
  "update_where P f (r # rows) = (if P r then f r else r) # update_where P f rows"
  by (simp add: update_where_def)

lemma update_where_append [simp]:
  "update_where P f (xs @ ys) = update_where P f xs @ update_where P f ys"
  by (simp add: update_where_def)

lemma set_update_where [row_simps]:
  "set (update_where P f rows) = (\<lambda>r. if P r then f r else r) ` set rows"
  by (simp add: update_where_def)

lemma update_where_none: "(\<And>r. r \<in> set rows \<Longrightarrow> \<not> P r) \<Longrightarrow> update_where P f rows = rows"
  by (induction rows) auto

lemma count_where_update_where [row_simps]:
  "count_where Q (update_where P f rows) =
     count_where (\<lambda>r. P r \<and> Q (f r)) rows + count_where (\<lambda>r. \<not> P r \<and> Q r) rows"
  by (induction rows) auto

lemma count_where_update_le:
  "(\<And>r. P r \<Longrightarrow> Q (f r) \<Longrightarrow> Q r) \<Longrightarrow> count_where Q (update_where P f rows) \<le> count_where Q rows"
  by (induction rows) (auto intro: le_SucI)

lemma count_where_filter_le: "count_where Q (filter P rows) \<le> count_where Q rows"
  by (induction rows) (auto intro: le_SucI)

lemma map_update_where_frame:
  "(\<And>r. P r \<Longrightarrow> g (f r) = g r) \<Longrightarrow> map g (update_where P f rows) = map g rows"
  by (induction rows) auto

subsection \<open>Rows addressed by a unique key\<close>

definition keyed :: "('r \<Rightarrow> 'k) \<Rightarrow> 'r list \<Rightarrow> bool" where
  "keyed key rows = distinct (map key rows)"

definition row_at :: "('r \<Rightarrow> 'k) \<Rightarrow> 'k \<Rightarrow> 'r list \<Rightarrow> 'r option" where
  "row_at key k rows = find (\<lambda>r. key r = k) rows"

lemma keyed_Nil [simp]: "keyed key []"
  by (simp add: keyed_def)

lemma keyed_Cons [simp]: "keyed key (r # rows) \<longleftrightarrow> key r \<notin> key ` set rows \<and> keyed key rows"
  by (auto simp: keyed_def)

lemma keyed_snoc: "keyed key (rows @ [r]) \<longleftrightarrow> key r \<notin> key ` set rows \<and> keyed key rows"
  by (auto simp: keyed_def)

lemma keyed_inj: "keyed key rows \<Longrightarrow> r \<in> set rows \<Longrightarrow> q \<in> set rows \<Longrightarrow> key r = key q \<Longrightarrow> r = q"
  by (auto simp: keyed_def distinct_map inj_on_def)

lemma keyed_filter [intro]: "keyed key rows \<Longrightarrow> keyed key (filter P rows)"
  by (induction rows) auto

lemma keyed_update_where [intro]:
  assumes "keyed key rows" and "\<And>r. P r \<Longrightarrow> key (f r) = key r"
  shows "keyed key (update_where P f rows)"
  using assms by (simp add: keyed_def map_update_where_frame)

lemma row_at_Some: "row_at key k rows = Some r \<Longrightarrow> r \<in> set rows \<and> key r = k"
  by (auto simp: row_at_def find_Some_iff)

lemma row_at_None: "row_at key k rows = None \<longleftrightarrow> (\<forall>r \<in> set rows. key r \<noteq> k)"
  by (auto simp: row_at_def find_None_iff)

lemma row_at_unique: "keyed key rows \<Longrightarrow> r \<in> set rows \<Longrightarrow> row_at key (key r) rows = Some r"
  by (cases "row_at key (key r) rows") (auto dest: row_at_Some keyed_inj simp: row_at_None)

lemma row_at_iff:
  "keyed key rows \<Longrightarrow> row_at key k rows = Some r \<longleftrightarrow> r \<in> set rows \<and> key r = k"
  by (auto dest: row_at_Some row_at_unique)

lemma row_at_Nil [simp]: "row_at key k [] = None"
  by (simp add: row_at_def)

lemma row_at_Cons [simp]:
  "row_at key k (r # rows) = (if key r = k then Some r else row_at key k rows)"
  by (simp add: row_at_def)

lemma row_at_append:
  "row_at key k (xs @ ys) = (case row_at key k xs of None \<Rightarrow> row_at key k ys | Some r \<Rightarrow> Some r)"
  by (induction xs) auto

lemma row_at_update_where [row_simps]:
  assumes "\<And>r. P r \<Longrightarrow> key (f r) = key r"
  shows "row_at key k (update_where P f rows) =
    map_option (\<lambda>r. if P r then f r else r) (row_at key k rows)"
  using assms by (induction rows) auto

lemma row_at_filter:
  assumes "keyed key rows"
  shows "row_at key k (filter P rows) =
    (case row_at key k rows of None \<Rightarrow> None | Some r \<Rightarrow> if P r then Some r else None)"
proof (cases "row_at key k rows")
  case None
  then have "row_at key k (filter P rows) = None" by (simp add: row_at_None)
  with None show ?thesis by simp
next
  case (Some r)
  then have r: "r \<in> set rows" "key r = k" by (simp_all add: row_at_iff assms)
  show ?thesis
  proof (cases "P r")
    case True
    with r have "row_at key k (filter P rows) = Some r"
      by (simp add: row_at_iff keyed_filter assms)
    with Some True show ?thesis by simp
  next
    case False
    have "key q \<noteq> k" if "q \<in> set (filter P rows)" for q
    proof
      assume "key q = k"
      moreover from that have "q \<in> set rows" "P q" by simp_all
      ultimately have "q = r" using keyed_inj [OF assms, of q r] r by simp
      with \<open>P q\<close> False show False by simp
    qed
    then have "row_at key k (filter P rows) = None" by (simp add: row_at_None)
    with Some False show ?thesis by simp
  qed
qed

lemma count_where_key_le_1: "keyed key rows \<Longrightarrow> count_where (\<lambda>r. key r = k \<and> P r) rows \<le> 1"
proof (induction rows)
  case (Cons r rows)
  show ?case
  proof (cases "key r = k \<and> P r")
    case True
    with Cons.prems have "count_where (\<lambda>r. key r = k \<and> P r) rows = 0" by (force simp: image_iff count_where_0)
    with True show ?thesis by simp
  next
    case False
    with Cons show ?thesis by auto
  qed
qed simp

text \<open>In a list sorted by distinct keys, counting the keys up to an element's gives its place.\<close>

lemma rank_in_sorted:
  fixes f :: "'a \<Rightarrow> 'b :: linorder"
  assumes "sorted (map f w)" and "distinct (map f w)" and "i < length w"
  shows "count_where (\<lambda>x. f x \<le> f (w ! i)) w = Suc i"
  using assms
proof (induction w arbitrary: i)
  case (Cons x w)
  show ?case
  proof (cases i)
    case 0
    from Cons.prems have "\<forall>y \<in> set w. f x < f y" by (force simp: less_le)
    then have "count_where (\<lambda>y. f y \<le> f x) w = 0" by (auto simp: count_where_0 not_le)
    with 0 show ?thesis by simp
  next
    case (Suc j)
    with Cons.prems have "f x \<le> f (w ! j)" by simp
    with Suc Cons show ?thesis by simp
  qed
qed simp

lemma count_where_mset: "mset xs = mset ys \<Longrightarrow> count_where P xs = count_where P ys"
  unfolding count_where_def by (metis mset_filter size_mset)

subsection \<open>Transition systems with an invariant\<close>

text \<open>
  The contract of a component whose operations are steps of one state: the invariant holds
  initially and every step keeps it. The client's lemmas, proved once: the invariant holds in
  every state reached by any number of steps, in any order.
\<close>

locale inv_system =
  fixes init :: "'s \<Rightarrow> bool"
    and step :: "'s \<Rightarrow> 's \<Rightarrow> bool"
    and inv :: "'s \<Rightarrow> bool"
  assumes init_inv: "init s \<Longrightarrow> inv s"
    and step_inv: "inv s \<Longrightarrow> step s t \<Longrightarrow> inv t"
begin

lemma steps_inv:
  assumes "inv s" and "step\<^sup>*\<^sup>* s t"
  shows "inv t"
  using assms(2,1) by (induction rule: rtranclp_induct) (auto intro: step_inv)

lemma reachable_inv: "init s \<Longrightarrow> step\<^sup>*\<^sup>* s t \<Longrightarrow> inv t"
  by (rule steps_inv [OF init_inv])

end

text \<open>
  A refinement: each step of the detailed system is matched by steps of an abstract one between the
  abstractions of its states.
\<close>

locale refinement = inv_system init step inv
  for init :: "'s \<Rightarrow> bool" and step :: "'s \<Rightarrow> 's \<Rightarrow> bool" and inv :: "'s \<Rightarrow> bool" +
  fixes abs_of :: "'s \<Rightarrow> 'a"
    and spec :: "'a \<Rightarrow> 'a \<Rightarrow> bool"
  assumes step_refines: "inv s \<Longrightarrow> step s t \<Longrightarrow> spec\<^sup>*\<^sup>* (abs_of s) (abs_of t)"
begin

lemma steps_refine: "inv s \<Longrightarrow> step\<^sup>*\<^sup>* s t \<Longrightarrow> spec\<^sup>*\<^sup>* (abs_of s) (abs_of t)"
proof (rotate_tac 1, induction rule: rtranclp_induct)
  case (step u v)
  have "inv u" using steps_inv [OF step.prems step.hyps(1)] .
  then show ?case using step.IH [OF step.prems] step_refines [OF _ step.hyps(2)] by simp
qed simp

lemma reachable_refines: "init s \<Longrightarrow> step\<^sup>*\<^sup>* s t \<Longrightarrow> spec\<^sup>*\<^sup>* (abs_of s) (abs_of t)"
  by (rule steps_refine [OF init_inv])

end

subsection \<open>Queues that are drained one claim at a time\<close>

text \<open>
  The loop of every consumer: claim until the queue has nothing to give, at most \<open>n\<close> times.
\<close>

fun drain :: "('s \<Rightarrow> 'k option \<times> 's) \<Rightarrow> nat \<Rightarrow> 's \<Rightarrow> 'k list \<times> 's" where
  "drain claim 0 s = ([], s)"
| "drain claim (Suc n) s =
    (case claim s of
       (None, s') \<Rightarrow> ([], s')
     | (Some k, s') \<Rightarrow> (let (ks, s'') = drain claim n s' in (k # ks, s'')))"

text \<open>
  The contract: \<open>waiting\<close> lists what is waiting in claim order, a claim takes the head and
  leaves the rest, and an empty queue is left alone.
\<close>

locale claim_queue =
  fixes ok :: "'s \<Rightarrow> bool"
    and waiting :: "'s \<Rightarrow> 'k list"
    and claim :: "'s \<Rightarrow> 'k option \<times> 's"
  assumes claim_ok: "ok s \<Longrightarrow> ok (snd (claim s))"
    and claim_empty: "ok s \<Longrightarrow> waiting s = [] \<Longrightarrow> claim s = (None, s)"
    and claim_head: "ok s \<Longrightarrow> waiting s = k # ks \<Longrightarrow> fst (claim s) = Some k \<and> waiting (snd (claim s)) = ks"
begin

lemma drain_take: "ok s \<Longrightarrow> fst (drain claim n s) = take n (waiting s)"
proof (induction n arbitrary: s)
  case (Suc n)
  show ?case
  proof (cases "waiting s")
    case Nil
    with Suc.prems show ?thesis by (simp add: claim_empty)
  next
    case (Cons k ks)
    with claim_head [OF Suc.prems Cons] obtain s' where "claim s = (Some k, s')" "waiting s' = ks"
      by (cases "claim s") auto
    with Cons Suc.IH [of s'] claim_ok [OF Suc.prems] show ?thesis by (simp add: case_prod_unfold)
  qed
qed simp

lemma drain_waiting: "ok s \<Longrightarrow> waiting (snd (drain claim n s)) = drop n (waiting s)"
proof (induction n arbitrary: s)
  case (Suc n)
  show ?case
  proof (cases "waiting s")
    case Nil
    with Suc.prems show ?thesis by (simp add: claim_empty)
  next
    case (Cons k ks)
    with claim_head [OF Suc.prems Cons] obtain s' where "claim s = (Some k, s')" "waiting s' = ks"
      by (cases "claim s") auto
    with Cons Suc.IH [of s'] claim_ok [OF Suc.prems] show ?thesis by (simp add: case_prod_unfold Let_def)
  qed
qed simp

lemma drain_all: "ok s \<Longrightarrow> length (waiting s) \<le> n \<Longrightarrow> fst (drain claim n s) = waiting s"
  by (simp add: drain_take)

end

end
