(* ===== verification/Input_Queue.thy ===== *)
theory Input_Queue
  imports Prelude
begin

section \<open>The durable per-session user-input queue\<close>

text \<open>
  Models \<^verbatim>\<open>src/server/queue/user_input_queue.py\<close>: the table \<^verbatim>\<open>user_input_queue\<close> as a list of
  rows in rowid order, one definition per method of \<^verbatim>\<open>QueueRepository\<close> and \<^verbatim>\<open>UserInputQueue\<close>.
  Every mutating method runs in one \<^verbatim>\<open>BEGIN IMMEDIATE\<close> transaction under the writer lock, so
  its model is one state transformer; a raised exception rolls the transaction back, so an
  \<^const>\<open>Inl\<close> result comes with the unchanged table. The clock reading and the fresh
  \<^verbatim>\<open>uuid4().hex\<close> of a call are its arguments; a primary key or the partial UNIQUE index that an
  insert would violate is an \<^verbatim>\<open>IntegrityError\<close>. Connections, WAL setup, schema creation and
  logging are not modelled.
\<close>

subsection \<open>Rows and statuses\<close>

datatype queue_status = QUEUED | CLAIMED | DELIVERED | FAILED | VOIDED

record queue_row =
  q_id :: text_id
  q_session :: text_id
  q_payload :: string
  q_source :: string
  q_reply_target :: "string option"
  q_client_msg_id :: "string option"
  q_status :: queue_status
  q_created_at :: time
  q_updated_at :: time
  q_expires_at :: time
  q_priority :: int

type_synonym queue_table = "queue_row list"

datatype queue_error =
  Queue_Full
| Bad_Source
| Bad_Status
| Integrity_Error
| Row_Vanished

definition MAX_ACTIVE_PER_SESSION :: nat where
  "MAX_ACTIVE_PER_SESSION = 20"

definition EXPIRY_SECONDS :: time where
  "EXPIRY_SECONDS = 86400"

fun active_status :: "queue_status \<Rightarrow> bool" where
  "active_status QUEUED = True"
| "active_status CLAIMED = True"
| "active_status _ = False"

definition terminal_status :: "queue_status \<Rightarrow> bool" where
  "terminal_status s = (s \<in> {DELIVERED, FAILED, VOIDED})"

text \<open>\<^verbatim>\<open>UserInputQueueStatus(status)\<close>: the enum of a plain string, \<open>None\<close> for a \<^verbatim>\<open>ValueError\<close>.\<close>

definition parse_status :: "string \<Rightarrow> queue_status option" where
  "parse_status s =
    (if s = ''QUEUED'' then Some QUEUED
     else if s = ''CLAIMED'' then Some CLAIMED
     else if s = ''DELIVERED'' then Some DELIVERED
     else if s = ''FAILED'' then Some FAILED
     else if s = ''VOIDED'' then Some VOIDED
     else None)"

definition valid_source :: "string \<Rightarrow> bool" where
  "valid_source s = (s = ''user'' \<or> s = ''cron'')"

text \<open>The \<^verbatim>\<open>ORDER BY priority DESC, created_at ASC, id ASC\<close> of the claim and of the listing.\<close>

definition claim_key :: "queue_row \<Rightarrow> int \<times> time \<times> text_id" where
  "claim_key r = (- q_priority r, q_created_at r, q_id r)"

subsection \<open>The repository's statements\<close>

definition find_active_by_client_msg :: "string \<Rightarrow> queue_table \<Rightarrow> queue_row option" where
  "find_active_by_client_msg m t =
    (case sort_key q_created_at
            (filter (\<lambda>r. q_client_msg_id r = Some m \<and> active_status (q_status r)) t) of
       [] \<Rightarrow> None
     | r # _ \<Rightarrow> Some r)"

text \<open>\<^verbatim>\<open>ORDER BY updated_at DESC, id DESC LIMIT 1\<close>: the last row in the ascending order.\<close>

definition find_delivered_by_client_msg :: "string \<Rightarrow> time \<Rightarrow> queue_table \<Rightarrow> queue_row option" where
  "find_delivered_by_client_msg m since t =
    (case rev (sort_key (\<lambda>r. (q_updated_at r, q_id r))
            (filter (\<lambda>r. q_client_msg_id r = Some m \<and> q_status r = DELIVERED
                         \<and> since \<le> q_updated_at r) t)) of
       [] \<Rightarrow> None
     | r # _ \<Rightarrow> Some r)"

definition session_active :: "text_id \<Rightarrow> queue_row \<Rightarrow> bool" where
  "session_active sid r = (q_session r = sid \<and> active_status (q_status r))"

definition count_active :: "text_id \<Rightarrow> queue_table \<Rightarrow> nat" where
  "count_active sid t = count_where (session_active sid) t"

definition count_all_queued :: "queue_table \<Rightarrow> nat" where
  "count_all_queued t = count_where (\<lambda>r. q_status r = QUEUED) t"

text \<open>
  The two constraints an \<^verbatim>\<open>INSERT\<close> checks: the primary key, and the partial UNIQUE index on
  \<^verbatim>\<open>client_msg_id\<close> over the active rows.
\<close>

definition insert_violates :: "queue_row \<Rightarrow> queue_table \<Rightarrow> bool" where
  "insert_violates r t =
    (\<exists>q \<in> set t. q_id q = q_id r \<or>
       (active_status (q_status r) \<and> active_status (q_status q)
        \<and> q_client_msg_id r \<noteq> None \<and> q_client_msg_id q = q_client_msg_id r))"

definition insert_row :: "queue_row \<Rightarrow> queue_table \<Rightarrow> queue_error + queue_table" where
  "insert_row r t = (if insert_violates r t then Inl Integrity_Error else Inr (t @ [r]))"

definition fetch_by_id :: "text_id \<Rightarrow> queue_table \<Rightarrow> queue_error + queue_row" where
  "fetch_by_id i t = (case row_at q_id i t of None \<Rightarrow> Inl Row_Vanished | Some r \<Rightarrow> Inr r)"

definition queued_position :: "queue_row \<Rightarrow> queue_table \<Rightarrow> nat" where
  "queued_position row t =
    (if q_status row \<noteq> QUEUED then 0
     else count_where
       (\<lambda>r. q_session r = q_session row \<and> q_status r = QUEUED \<and>
            (q_priority row < q_priority r \<or>
             (q_priority r = q_priority row \<and>
              (q_created_at r < q_created_at row \<or>
               (q_created_at r = q_created_at row \<and> q_id r \<le> q_id row))))) t)"

definition claimable :: "text_id \<Rightarrow> time \<Rightarrow> queue_row \<Rightarrow> bool" where
  "claimable sid now r = (q_session r = sid \<and> q_status r = QUEUED \<and> now < q_expires_at r)"

definition claim_order :: "text_id \<Rightarrow> time \<Rightarrow> queue_table \<Rightarrow> queue_row list" where
  "claim_order sid now t = sort_key claim_key (filter (claimable sid now) t)"

text \<open>
  \<^verbatim>\<open>UPDATE ... WHERE id = (SELECT ... LIMIT 1) RETURNING ...\<close>: one statement selects the row and
  flips it; \<^verbatim>\<open>RETURNING\<close> gives the row as updated.
\<close>

definition claim_next :: "text_id \<Rightarrow> time \<Rightarrow> queue_table \<Rightarrow> queue_row option \<times> queue_table" where
  "claim_next sid now t =
    (case claim_order sid now t of
       [] \<Rightarrow> (None, t)
     | c # _ \<Rightarrow>
         (let t' = update_where (\<lambda>r. q_id r = q_id c)
                     (\<lambda>r. r\<lparr>q_status := CLAIMED, q_updated_at := now\<rparr>) t
          in (row_at q_id (q_id c) t', t')))"

definition cancel_queued :: "text_id \<Rightarrow> time \<Rightarrow> queue_table \<Rightarrow> bool \<times> queue_table" where
  "cancel_queued i now t =
    (let P = (\<lambda>r. q_id r = i \<and> q_status r = QUEUED)
     in (0 < count_where P t,
         update_where P (\<lambda>r. r\<lparr>q_status := VOIDED, q_updated_at := now\<rparr>) t))"

definition update_payload ::
    "text_id \<Rightarrow> string \<Rightarrow> time \<Rightarrow> queue_table \<Rightarrow> queue_row option \<times> queue_table" where
  "update_payload i p now t =
    (let P = (\<lambda>r. q_id r = i \<and> q_status r = QUEUED);
         f = (\<lambda>r. r\<lparr>q_payload := p, q_updated_at := now\<rparr>)
     in (map_option f (first_where P t), update_where P f t))"

definition prioritize ::
    "text_id \<Rightarrow> text_id \<Rightarrow> time \<Rightarrow> queue_table \<Rightarrow> bool \<times> queue_table" where
  "prioritize sid i now t =
    (let P = (\<lambda>r. q_id r = i \<and> q_session r = sid \<and> q_status r = QUEUED)
     in (0 < count_where P t,
         update_where P (\<lambda>r. r\<lparr>q_priority := 1, q_updated_at := now\<rparr>) t))"

text \<open>
  \<^verbatim>\<open>UserInputQueue.mark_terminal\<close> with its repository statement: a non-terminal status (or a
  string that names no status) is refused before the transaction starts.
\<close>

definition mark_terminal ::
    "text_id \<Rightarrow> string \<Rightarrow> time \<Rightarrow> queue_table \<Rightarrow> (queue_error + bool) \<times> queue_table" where
  "mark_terminal i status now t =
    (case parse_status status of
       None \<Rightarrow> (Inl Bad_Status, t)
     | Some s \<Rightarrow>
         if \<not> terminal_status s then (Inl Bad_Status, t)
         else
           (let P = (\<lambda>r. q_id r = i \<and> active_status (q_status r))
            in (Inr (0 < count_where P t),
                update_where P (\<lambda>r. r\<lparr>q_status := s, q_updated_at := now\<rparr>) t)))"

definition recover :: "text_id \<Rightarrow> time \<Rightarrow> queue_table \<Rightarrow> nat \<times> queue_table" where
  "recover sid now t =
    (let P = (\<lambda>r. session_active sid r \<and> q_expires_at r \<le> now)
     in (count_where P t,
         update_where P (\<lambda>r. r\<lparr>q_status := VOIDED, q_updated_at := now\<rparr>) t))"

definition requeue_claimed :: "text_id \<Rightarrow> time \<Rightarrow> queue_table \<Rightarrow> nat \<times> queue_table" where
  "requeue_claimed sid now t =
    (let P = (\<lambda>r. q_session r = sid \<and> q_status r = CLAIMED)
     in (count_where P t,
         update_where P (\<lambda>r. r\<lparr>q_status := QUEUED, q_updated_at := now\<rparr>) t))"

definition delete_session :: "text_id \<Rightarrow> queue_table \<Rightarrow> nat \<times> queue_table" where
  "delete_session sid t =
    (count_where (\<lambda>r. q_session r = sid) t, filter (\<lambda>r. q_session r \<noteq> sid) t)"

definition list_active :: "text_id \<Rightarrow> queue_table \<Rightarrow> queue_row list" where
  "list_active sid t = sort_key claim_key (filter (session_active sid) t)"

subsection \<open>Submitting\<close>

definition new_queue_row ::
    "text_id \<Rightarrow> text_id \<Rightarrow> string \<Rightarrow> string \<Rightarrow> string option \<Rightarrow> string option \<Rightarrow> queue_status
     \<Rightarrow> time \<Rightarrow> queue_row" where
  "new_queue_row i sid payload source reply cmid status now =
    \<lparr>q_id = i, q_session = sid, q_payload = payload, q_source = source, q_reply_target = reply,
     q_client_msg_id = cmid, q_status = status, q_created_at = now, q_updated_at = now,
     q_expires_at = now + EXPIRY_SECONDS, q_priority = 0\<rparr>"

definition enqueue ::
    "text_id \<Rightarrow> time \<Rightarrow> text_id \<Rightarrow> string \<Rightarrow> string \<Rightarrow> string option \<Rightarrow> string option
     \<Rightarrow> queue_table \<Rightarrow> (queue_error + queue_row \<times> nat) \<times> queue_table" where
  "enqueue i now sid payload source reply cmid t =
    (if \<not> valid_source source then (Inl Bad_Source, t)
     else
       case (case cmid of None \<Rightarrow> None | Some m \<Rightarrow> find_active_by_client_msg m t) of
         Some r \<Rightarrow> (Inr (r, queued_position r t), t)
       | None \<Rightarrow>
           if MAX_ACTIVE_PER_SESSION \<le> count_active sid t then (Inl Queue_Full, t)
           else
             (case insert_row (new_queue_row i sid payload source reply cmid QUEUED now) t of
                Inl e \<Rightarrow> (Inl e, t)
              | Inr t' \<Rightarrow>
                  (case fetch_by_id i t' of
                     Inl e \<Rightarrow> (Inl e, t)
                   | Inr r \<Rightarrow> (Inr (r, queued_position r t'), t'))))"

text \<open>The idle-branch placeholder: a row that starts life claimed; dedup is the caller's.\<close>

definition insert_claimed ::
    "text_id \<Rightarrow> time \<Rightarrow> text_id \<Rightarrow> string \<Rightarrow> string \<Rightarrow> string option \<Rightarrow> string option
     \<Rightarrow> queue_table \<Rightarrow> (queue_error + queue_row) \<times> queue_table" where
  "insert_claimed i now sid payload source reply cmid t =
    (if \<not> valid_source source then (Inl Bad_Source, t)
     else if MAX_ACTIVE_PER_SESSION \<le> count_active sid t then (Inl Queue_Full, t)
     else
       (case insert_row (new_queue_row i sid payload source reply cmid CLAIMED now) t of
          Inl e \<Rightarrow> (Inl e, t)
        | Inr t' \<Rightarrow>
            (case fetch_by_id i t' of
               Inl e \<Rightarrow> (Inl e, t)
             | Inr r \<Rightarrow> (Inr r, t'))))"

definition find_active_by_client_msg_id :: "string \<Rightarrow> queue_table \<Rightarrow> queue_row option" where
  "find_active_by_client_msg_id m t = find_active_by_client_msg m t"

definition find_delivered_by_client_msg_id ::
    "string \<Rightarrow> time \<Rightarrow> time \<Rightarrow> queue_table \<Rightarrow> queue_row option" where
  "find_delivered_by_client_msg_id m within_seconds now t =
    find_delivered_by_client_msg m (now - max 0 within_seconds) t"

subsection \<open>The invariant of the table\<close>

definition keyed_active :: "string \<Rightarrow> queue_row \<Rightarrow> bool" where
  "keyed_active m r = (active_status (q_status r) \<and> q_client_msg_id r = Some m)"

definition row_ok :: "queue_row \<Rightarrow> bool" where
  "row_ok r = (q_expires_at r = q_created_at r + EXPIRY_SECONDS
     \<and> q_priority r \<in> {0, 1} \<and> valid_source (q_source r))"

text \<open>
  Ids are unique; at most one active row carries a given client message id; no session holds
  more active rows than the cap; every row is well formed.
\<close>

definition queue_inv :: "queue_table \<Rightarrow> bool" where
  "queue_inv t = (keyed q_id t \<and> (\<forall>m. count_where (keyed_active m) t \<le> 1)
     \<and> (\<forall>sid. count_active sid t \<le> MAX_ACTIVE_PER_SESSION) \<and> list_all row_ok t)"

inductive queue_step :: "queue_table \<Rightarrow> queue_table \<Rightarrow> bool" where
  step_enqueue: "queue_step t (snd (enqueue i now sid p src rep cmid t))"
| step_insert_claimed: "queue_step t (snd (insert_claimed i now sid p src rep cmid t))"
| step_claim_next: "queue_step t (snd (claim_next sid now t))"
| step_cancel: "queue_step t (snd (cancel_queued i now t))"
| step_update_payload: "queue_step t (snd (update_payload i p now t))"
| step_prioritize: "queue_step t (snd (prioritize sid i now t))"
| step_mark_terminal: "queue_step t (snd (mark_terminal i st now t))"
| step_recover: "queue_step t (snd (recover sid now t))"
| step_requeue: "queue_step t (snd (requeue_claimed sid now t))"
| step_delete_session: "queue_step t (snd (delete_session sid t))"

inductive_cases queue_stepE: "queue_step t t'"

lemma queue_inv_Nil: "queue_inv []"
  by (simp add: queue_inv_def count_active_def)

text \<open>An update keeps the invariant when it only leaves the active states or stays in them.\<close>

lemma queue_inv_update:
  assumes inv: "queue_inv t"
    and frame: "\<And>r. P r \<Longrightarrow> q_id (f r) = q_id r \<and> q_session (f r) = q_session r \<and>
      q_client_msg_id (f r) = q_client_msg_id r"
    and ok: "\<And>r. P r \<Longrightarrow> row_ok r \<Longrightarrow> row_ok (f r)"
    and act: "\<And>r. P r \<Longrightarrow> active_status (q_status (f r)) \<Longrightarrow> active_status (q_status r)"
  shows "queue_inv (update_where P f t)"
proof -
  have "keyed q_id (update_where P f t)"
    using inv frame by (auto simp: queue_inv_def)
  moreover have "count_where (keyed_active m) (update_where P f t) \<le> 1" for m
    using count_where_update_le [of P "keyed_active m" f t] frame act inv
    by (fastforce simp: queue_inv_def keyed_active_def intro: order_trans)
  moreover have "count_active sid (update_where P f t) \<le> MAX_ACTIVE_PER_SESSION" for sid
    using count_where_update_le [of P "session_active sid" f t] frame act inv
    by (fastforce simp: queue_inv_def session_active_def count_active_def intro: order_trans)
  moreover have "list_all row_ok (update_where P f t)"
    using inv ok by (auto simp: queue_inv_def list_all_iff set_update_where)
  ultimately show ?thesis by (simp add: queue_inv_def)
qed

lemma queue_inv_filter: "queue_inv t \<Longrightarrow> queue_inv (filter P t)"
  unfolding queue_inv_def count_active_def
  by (auto simp: list_all_iff intro: order_trans [OF count_where_filter_le])

lemma insert_row_inv:
  assumes "queue_inv t" and "insert_row r t = Inr t'" and "row_ok r"
    and "count_active (q_session r) t < MAX_ACTIVE_PER_SESSION"
  shows "queue_inv t'"
proof -
  from assms(2) have t': "t' = t @ [r]" and v: "\<not> insert_violates r t"
    by (simp_all add: insert_row_def split: if_splits)
  from v have "q_id r \<notin> q_id ` set t" by (auto simp: insert_violates_def)
  moreover have "count_where (keyed_active m) (t @ [r]) \<le> 1" for m
  proof (cases "keyed_active m r")
    case True
    with v have "count_where (keyed_active m) t = 0"
      by (auto simp: insert_violates_def keyed_active_def count_where_0)
    then show ?thesis by simp
  next
    case False
    with assms(1) show ?thesis by (simp add: queue_inv_def)
  qed
  moreover have "count_active sid (t @ [r]) \<le> MAX_ACTIVE_PER_SESSION" for sid
    using assms(1,4) by (auto simp: queue_inv_def count_active_def session_active_def)
  ultimately show ?thesis
    using assms(1,3) by (simp add: queue_inv_def t' keyed_snoc)
qed

lemma new_queue_row_ok: "valid_source src \<Longrightarrow> row_ok (new_queue_row i sid p src rep cmid st now)"
  by (simp add: row_ok_def new_queue_row_def)

lemma new_queue_row_sel [simp]:
  "q_id (new_queue_row i sid p src rep cmid st now) = i"
  "q_session (new_queue_row i sid p src rep cmid st now) = sid"
  "q_client_msg_id (new_queue_row i sid p src rep cmid st now) = cmid"
  "q_status (new_queue_row i sid p src rep cmid st now) = st"
  "q_priority (new_queue_row i sid p src rep cmid st now) = 0"
  "q_created_at (new_queue_row i sid p src rep cmid st now) = now"
  by (simp_all add: new_queue_row_def)

subsection \<open>Every operation keeps the invariant\<close>

lemma enqueue_inv: "queue_inv t \<Longrightarrow> queue_inv (snd (enqueue i now sid p src rep cmid t))"
  by (auto simp: enqueue_def new_queue_row_ok split: option.splits sum.splits
      elim!: insert_row_inv)

lemma insert_claimed_inv: "queue_inv t \<Longrightarrow> queue_inv (snd (insert_claimed i now sid p src rep cmid t))"
  by (auto simp: insert_claimed_def new_queue_row_ok split: option.splits sum.splits
      elim!: insert_row_inv)

lemma claim_order_mem: "r \<in> set (claim_order sid now t) \<longleftrightarrow> r \<in> set t \<and> claimable sid now r"
  by (auto simp: claim_order_def)

lemma claim_candidate:
  assumes "claim_order sid now t = c # rest"
  shows "c \<in> set t" and "claimable sid now c"
  using claim_order_mem [of c sid now t] assms by auto

text \<open>The claim is the update of the head of the claim order, written over the rows by id.\<close>

definition claim_row :: "time \<Rightarrow> queue_row \<Rightarrow> queue_row" where
  "claim_row now r = r\<lparr>q_status := CLAIMED, q_updated_at := now\<rparr>"

lemma claim_row_sel [simp]:
  "q_id (claim_row now r) = q_id r" "q_session (claim_row now r) = q_session r"
  "q_client_msg_id (claim_row now r) = q_client_msg_id r"
  "q_status (claim_row now r) = CLAIMED" "row_ok (claim_row now r) = row_ok r"
  by (simp_all add: claim_row_def row_ok_def)

lemma claim_next_Cons:
  assumes inv: "queue_inv t" and c: "claim_order sid now t = c # rest"
  shows "claim_next sid now t =
    (Some (claim_row now c), update_where (\<lambda>r. r = c) (claim_row now) t)"
proof -
  from inv have k: "keyed q_id t" by (simp add: queue_inv_def)
  have "update_where (\<lambda>r. q_id r = q_id c) (claim_row now) t = update_where (\<lambda>r. r = c) (claim_row now) t"
    using keyed_inj [OF k _ claim_candidate(1) [OF c]] by (auto simp: update_where_def)
  moreover have "row_at q_id (q_id c) (update_where (\<lambda>r. q_id r = q_id c) (claim_row now) t)
      = Some (claim_row now c)"
    by (simp add: row_at_update_where row_at_unique [OF k claim_candidate(1) [OF c]])
  ultimately show ?thesis
    by (simp add: claim_next_def c Let_def claim_row_def [abs_def])
qed

lemma claim_next_Nil: "claim_order sid now t = [] \<Longrightarrow> claim_next sid now t = (None, t)"
  by (simp add: claim_next_def)

lemma claim_next_inv: "queue_inv t \<Longrightarrow> queue_inv (snd (claim_next sid now t))"
proof (cases "claim_order sid now t")
  case (Cons c rest)
  assume inv: "queue_inv t"
  have "active_status (q_status c)"
    using claim_candidate(2) [OF Cons] by (simp add: claimable_def)
  with inv show ?thesis
    by (auto simp: claim_next_Cons [OF inv Cons] intro!: queue_inv_update)
qed (simp add: claim_next_Nil)

lemma claim_order_after:
  assumes inv: "queue_inv t" and c: "claim_order sid now t = c # rest"
  shows "claim_order sid now (update_where (\<lambda>r. r = c) (claim_row now) t) = rest"
proof -
  have k: "keyed q_id t" using inv by (simp add: queue_inv_def)
  have "filter (claimable sid now) (update_where (\<lambda>r. r = c) (claim_row now) t) =
      filter (\<lambda>r. r \<noteq> c) (filter (claimable sid now) t)"
    by (induction t) (auto simp: claimable_def)
  then have "claim_order sid now (update_where (\<lambda>r. r = c) (claim_row now) t) =
      filter (\<lambda>r. r \<noteq> c) (claim_order sid now t)"
    by (simp add: claim_order_def filter_sort)
  moreover have "distinct (claim_order sid now t)"
    using k by (auto simp: claim_order_def keyed_def distinct_map)
  ultimately show ?thesis using c by (auto simp: filter_id_conv)
qed

lemma cancel_queued_inv: "queue_inv t \<Longrightarrow> queue_inv (snd (cancel_queued i now t))"
  by (auto simp: cancel_queued_def Let_def row_ok_def intro!: queue_inv_update)

lemma update_payload_inv: "queue_inv t \<Longrightarrow> queue_inv (snd (update_payload i p now t))"
  by (auto simp: update_payload_def Let_def row_ok_def intro!: queue_inv_update)

lemma prioritize_inv: "queue_inv t \<Longrightarrow> queue_inv (snd (prioritize sid i now t))"
  by (auto simp: prioritize_def Let_def row_ok_def intro!: queue_inv_update)

lemma mark_terminal_inv: "queue_inv t \<Longrightarrow> queue_inv (snd (mark_terminal i st now t))"
  by (auto simp: mark_terminal_def Let_def row_ok_def split: option.split intro!: queue_inv_update)

lemma recover_inv: "queue_inv t \<Longrightarrow> queue_inv (snd (recover sid now t))"
  by (auto simp: recover_def Let_def row_ok_def intro!: queue_inv_update)

lemma requeue_claimed_inv: "queue_inv t \<Longrightarrow> queue_inv (snd (requeue_claimed sid now t))"
  by (auto simp: requeue_claimed_def Let_def row_ok_def intro!: queue_inv_update)

lemma delete_session_inv: "queue_inv t \<Longrightarrow> queue_inv (snd (delete_session sid t))"
  by (simp add: delete_session_def queue_inv_filter)

lemmas queue_op_invs = enqueue_inv insert_claimed_inv claim_next_inv cancel_queued_inv
  update_payload_inv prioritize_inv mark_terminal_inv recover_inv requeue_claimed_inv
  delete_session_inv

interpretation iq_safety: inv_system "\<lambda>t. t = []" queue_step queue_inv
  by unfold_locales (auto simp: queue_inv_Nil queue_op_invs elim!: queue_stepE)

interpretation iq_claims: claim_queue queue_inv
  "\<lambda>t. map q_id (claim_order sid now t)"
  "\<lambda>t. (map_option q_id (fst (claim_next sid now t)), snd (claim_next sid now t))" for sid now
  by unfold_locales
    (auto simp: claim_next_inv claim_next_Nil claim_next_Cons claim_order_after)

subsection \<open>Places in the line\<close>

definition waiting_line :: "text_id \<Rightarrow> queue_table \<Rightarrow> queue_row list" where
  "waiting_line sid t = sort_key claim_key (filter (\<lambda>r. q_session r = sid \<and> q_status r = QUEUED) t)"

lemma claim_key_le:
  "claim_key q \<le> claim_key r \<longleftrightarrow> q_priority r < q_priority q \<or> (q_priority q = q_priority r \<and>
     (q_created_at q < q_created_at r \<or> (q_created_at q = q_created_at r \<and> q_id q \<le> q_id r)))"
  by (auto simp: claim_key_def less_eq_prod_def)

lemma waiting_line_distinct:
  assumes "queue_inv t"
  shows "distinct (map claim_key (waiting_line sid t))"
proof -
  from assms have "inj_on q_id (set t)" "distinct t"
    by (auto simp: queue_inv_def keyed_def distinct_map)
  then show ?thesis
    by (auto simp: waiting_line_def distinct_map inj_on_def claim_key_def)
qed

lemma queued_position_rank:
  assumes inv: "queue_inv t" and r: "r \<in> set t" "q_status r = QUEUED"
  shows "\<exists>i < length (waiting_line (q_session r) t).
    waiting_line (q_session r) t ! i = r \<and> queued_position r t = Suc i"
proof -
  let ?w = "waiting_line (q_session r) t"
  from r have "r \<in> set ?w" by (simp add: waiting_line_def)
  then obtain i where i: "i < length ?w" "?w ! i = r" by (auto simp: in_set_conv_nth)
  have "count_where (\<lambda>q. claim_key q \<le> claim_key r) ?w = Suc i"
    using rank_in_sorted [OF _ waiting_line_distinct [OF inv] i(1)] i(2)
    by (simp add: waiting_line_def)
  also have "count_where (\<lambda>q. claim_key q \<le> claim_key r) ?w =
      count_where (\<lambda>q. claim_key q \<le> claim_key r) (filter (\<lambda>q. q_session q = q_session r \<and> q_status q = QUEUED) t)"
    by (rule count_where_mset) (simp add: waiting_line_def)
  also have "\<dots> = queued_position r t"
    using r(2) by (simp add: queued_position_def claim_key_le count_where_def conj_ac eq_commute)
  finally show ?thesis using i by auto
qed

lemma claim_order_line: "claim_order sid now t = filter (\<lambda>r. now < q_expires_at r) (waiting_line sid t)"
  by (simp add: claim_order_def waiting_line_def filter_sort claimable_def[abs_def] conj_ac)

subsection \<open>Claims by concurrent callers\<close>

text \<open>
  The claims of any number of callers, each with its session and clock reading, in the order in
  which the write lock admits them: the ids they were given.
\<close>

fun claim_seq :: "(text_id \<times> time) list \<Rightarrow> queue_table \<Rightarrow> text_id list \<times> queue_table" where
  "claim_seq [] t = ([], t)"
| "claim_seq ((sid, now) # cs) t =
    (case claim_next sid now t of
       (None, t') \<Rightarrow> claim_seq cs t'
     | (Some r, t') \<Rightarrow> (let (ids, t'') = claim_seq cs t' in (q_id r # ids, t'')))"

definition queued_ids :: "queue_table \<Rightarrow> text_id set" where
  "queued_ids t = q_id ` {r \<in> set t. q_status r = QUEUED}"

lemma queued_ids_claim:
  assumes "queue_inv t" and c: "claim_order sid now t = c # rest"
  shows "queued_ids (update_where (\<lambda>r. r = c) (claim_row now) t) = queued_ids t - {q_id c}"
proof -
  have "keyed q_id t" using assms(1) by (simp add: queue_inv_def)
  moreover have "c \<in> set t" "q_status c = QUEUED"
    using claim_candidate [OF c] by (simp_all add: claimable_def)
  ultimately show ?thesis
    by (force simp: queued_ids_def set_update_where dest: keyed_inj)
qed

lemma claim_seq_ids:
  "queue_inv t \<Longrightarrow> distinct (fst (claim_seq cs t)) \<and> set (fst (claim_seq cs t)) \<subseteq> queued_ids t"
proof (induction cs t rule: claim_seq.induct)
  case (2 sid now cs t)
  show ?case
  proof (cases "claim_order sid now t")
    case Nil
    with 2 show ?thesis by (simp add: claim_next_Nil)
  next
    case (Cons c rest)
    let ?t = "update_where (\<lambda>r. r = c) (claim_row now) t"
    have step: "claim_next sid now t = (Some (claim_row now c), ?t)"
      by (rule claim_next_Cons [OF 2(3) Cons])
    with claim_next_inv [OF 2(3), of sid now] have "queue_inv ?t" by simp
    from 2(2) [OF step [symmetric] refl this] have
      "distinct (fst (claim_seq cs ?t)) \<and> set (fst (claim_seq cs ?t)) \<subseteq> queued_ids t - {q_id c}"
      by (simp add: queued_ids_claim [OF 2(3) Cons])
    moreover have "q_id c \<in> queued_ids t"
      using claim_candidate [OF Cons] by (auto simp: queued_ids_def claimable_def)
    ultimately show ?thesis by (auto simp: step case_prod_unfold Let_def)
  qed
qed simp

subsection \<open>The life of one row\<close>

text \<open>
  The abstract life cycle: what one operation may do to a row's status. Terminal statuses have
  no way out; only the boot pass takes a claimed row back to the queue.
\<close>

fun life_cycle :: "queue_status \<Rightarrow> queue_status \<Rightarrow> bool" where
  "life_cycle QUEUED s = True"
| "life_cycle CLAIMED s = True"
| "life_cycle DELIVERED s = (s = DELIVERED)"
| "life_cycle FAILED s = (s = FAILED)"
| "life_cycle VOIDED s = (s = VOIDED)"

lemma life_cycle_refl [simp]: "life_cycle s s"
  by (cases s) auto

lemma life_cycle_active: "active_status s \<Longrightarrow> life_cycle s s'"
  by (cases s) auto

text \<open>What an operation may change of a row that stays: never its identity or its place in time.\<close>

definition row_evolves :: "queue_row \<Rightarrow> queue_row \<Rightarrow> bool" where
  "row_evolves r r' = (q_id r' = q_id r \<and> q_session r' = q_session r \<and> q_source r' = q_source r
     \<and> q_client_msg_id r' = q_client_msg_id r \<and> q_created_at r' = q_created_at r
     \<and> q_expires_at r' = q_expires_at r \<and> life_cycle (q_status r) (q_status r')
     \<and> (terminal_status (q_status r) \<longrightarrow> r' = r)
     \<and> (q_status r \<noteq> QUEUED \<longrightarrow> q_payload r' = q_payload r))"

definition table_evolves :: "queue_table \<Rightarrow> queue_table \<Rightarrow> bool" where
  "table_evolves t t' = (\<forall>r \<in> set t. \<exists>r' \<in> set t'. row_evolves r r')"

lemma row_evolves_refl [simp]: "row_evolves r r"
  by (simp add: row_evolves_def)

lemma table_evolves_refl [simp]: "table_evolves t t"
  by (auto simp: table_evolves_def intro: row_evolves_refl)

lemma table_evolves_snoc [simp]: "table_evolves t (t @ [r])"
  by (auto simp: table_evolves_def intro: row_evolves_refl)

lemma table_evolves_update:
  assumes "\<And>r. P r \<Longrightarrow> row_evolves r (f r)"
  shows "table_evolves t (update_where P f t)"
  unfolding table_evolves_def
proof
  fix r
  assume "r \<in> set t"
  then have "(if P r then f r else r) \<in> set (update_where P f t)"
    by (simp add: set_update_where)
  moreover have "row_evolves r (if P r then f r else r)" using assms by simp
  ultimately show "\<exists>r' \<in> set (update_where P f t). row_evolves r r'" by blast
qed

lemma active_not_terminal: "active_status s \<Longrightarrow> \<not> terminal_status s"
  by (cases s) (auto simp: terminal_status_def)

lemma insert_row_evolves: "insert_row r t = Inr t' \<Longrightarrow> table_evolves t t'"
  by (auto simp: insert_row_def split: if_splits)

lemma active_row_evolves:
  "active_status (q_status r) \<Longrightarrow> row_evolves r (r\<lparr>q_status := s, q_updated_at := now\<rparr>)"
  by (auto simp: row_evolves_def life_cycle_active active_not_terminal)

lemma claim_next_evolves: "queue_inv t \<Longrightarrow> table_evolves t (snd (claim_next sid now t))"
proof (cases "claim_order sid now t")
  case (Cons c rest)
  assume "queue_inv t"
  moreover have "active_status (q_status c)"
    using claim_candidate [OF Cons] by (simp add: claimable_def)
  ultimately show ?thesis
    by (auto simp: claim_next_Cons Cons claim_row_def intro!: table_evolves_update active_row_evolves)
qed (simp add: claim_next_Nil)

lemma queue_step_evolves:
  assumes "queue_inv t" and "queue_step t t'"
  shows "table_evolves t t' \<or> (\<exists>sid. t' = snd (delete_session sid t))"
  using assms(2)
proof (cases rule: queue_step.cases)
  case (step_enqueue i now sid p src rep cmid)
  then show ?thesis
    by (auto simp: enqueue_def split: option.splits sum.splits elim!: insert_row_evolves)
next
  case (step_insert_claimed i now sid p src rep cmid)
  then show ?thesis
    by (auto simp: insert_claimed_def split: option.splits sum.splits elim!: insert_row_evolves)
next
  case (step_claim_next sid now)
  then show ?thesis using claim_next_evolves assms(1) by blast
next
  case (step_cancel i now)
  then show ?thesis
    by (auto simp: cancel_queued_def Let_def intro!: table_evolves_update active_row_evolves)
next
  case (step_update_payload i p now)
  then show ?thesis
    by (auto simp: update_payload_def Let_def row_evolves_def terminal_status_def
        intro!: table_evolves_update)
next
  case (step_prioritize sid i now)
  then show ?thesis
    by (auto simp: prioritize_def Let_def row_evolves_def terminal_status_def
        intro!: table_evolves_update)
next
  case (step_mark_terminal i st now)
  then show ?thesis
    by (auto simp: mark_terminal_def Let_def split: option.split
        intro!: table_evolves_update active_row_evolves)
next
  case (step_recover sid now)
  then show ?thesis
    by (auto simp: recover_def Let_def session_active_def
        intro!: table_evolves_update active_row_evolves)
next
  case (step_requeue sid now)
  then show ?thesis
    by (auto simp: requeue_claimed_def Let_def intro!: table_evolves_update active_row_evolves)
next
  case (step_delete_session sid)
  then show ?thesis by blast
qed

lemma find_active_Some:
  "find_active_by_client_msg m t = Some r \<Longrightarrow> r \<in> set t \<and> keyed_active m r"
proof -
  assume "find_active_by_client_msg m t = Some r"
  then obtain rs where
    "sort_key q_created_at (filter (\<lambda>r. q_client_msg_id r = Some m \<and> active_status (q_status r)) t) = r # rs"
    by (auto simp: find_active_by_client_msg_def split: list.splits)
  then have "r \<in> set (filter (\<lambda>r. q_client_msg_id r = Some m \<and> active_status (q_status r)) t)"
    by (metis list.set_intros(1) set_sort)
  then show ?thesis by (simp add: keyed_active_def)
qed

lemma find_active_None:
  "find_active_by_client_msg m t = None \<longleftrightarrow> (\<forall>r \<in> set t. \<not> keyed_active m r)"
proof -
  have "find_active_by_client_msg m t = None \<longleftrightarrow>
      filter (\<lambda>r. q_client_msg_id r = Some m \<and> active_status (q_status r)) t = []"
    by (auto simp: find_active_by_client_msg_def split: list.splits)
      (metis set_empty set_sort)
  then show ?thesis by (auto simp: filter_empty_conv keyed_active_def)
qed

lemma fetch_inserted: "i \<notin> q_id ` set t \<Longrightarrow> q_id r = i \<Longrightarrow> fetch_by_id i (t @ [r]) = Inr r"
proof -
  assume "i \<notin> q_id ` set t" "q_id r = i"
  then have "row_at q_id i t = None" unfolding row_at_None by blast
  with \<open>q_id r = i\<close> show ?thesis by (simp add: fetch_by_id_def row_at_append)
qed

lemma insert_new_row:
  assumes "\<And>m. cmid = Some m \<Longrightarrow> find_active_by_client_msg m t = None"
  shows "insert_row (new_queue_row i sid p src rep cmid st now) t =
    (if i \<in> q_id ` set t then Inl Integrity_Error
     else Inr (t @ [new_queue_row i sid p src rep cmid st now]))"
  using assms by (cases cmid) (auto simp: insert_row_def insert_violates_def find_active_None keyed_active_def)

subsection \<open>Properties\<close>

definition demo_queue :: queue_table where
  "demo_queue = snd (enqueue ''b'' 5 ''s'' ''second'' ''user'' None (Some ''m'')
     (snd (enqueue ''a'' 3 ''s'' ''first'' ''user'' None None [])))"

lemma demo_queue_inv: "queue_inv demo_queue"
  by (simp add: demo_queue_def queue_inv_Nil enqueue_inv)

text \<open>C1: In every state the queue's operations can reach from the empty table, ids are unique,
  at most one active row carries a given client message id (the partial UNIQUE index is never
  violated), no session holds more than 20 active rows, and every row expires 24 hours after it
  was created.\<close>

theorem queue_reachable_inv:
  assumes "queue_step\<^sup>*\<^sup>* [] t"
  shows "queue_inv t"
  by (rule iq_safety.reachable_inv [OF refl assms])

theorem queue_reachable_inv_witness: "queue_inv (snd (enqueue ''a'' 3 ''s'' ''p'' ''user'' None None []))"
  by (rule queue_reachable_inv [OF r_into_rtranclp, OF step_enqueue])

text \<open>Enqueueing with a valid source either returns an existing active row of the same
  client message id with the table unchanged, or appends the new queued row when the session is
  below the cap and no active row has the key, or fails without a change: with the queue-full
  error exactly at the cap, with an integrity error only for a reused id. The reported position
  is that of the returned row in the resulting table.\<close>

theorem enqueue_spec:
  assumes "valid_source src"
  shows "case enqueue i now sid p src rep cmid t of
      (Inl e, t') \<Rightarrow> t' = t \<and>
        ((e = Queue_Full \<and> MAX_ACTIVE_PER_SESSION \<le> count_active sid t) \<or>
         (e = Integrity_Error \<and> i \<in> q_id ` set t))
    | (Inr (r, pos), t') \<Rightarrow> pos = queued_position r t' \<and>
        ((t' = t \<and> r \<in> set t \<and> active_status (q_status r) \<and> cmid \<noteq> None \<and> q_client_msg_id r = cmid) \<or>
         (t' = t @ [r] \<and> r = new_queue_row i sid p src rep cmid QUEUED now \<and>
          count_active sid t < MAX_ACTIVE_PER_SESSION \<and>
          \<not> (\<exists>q \<in> set t. cmid \<noteq> None \<and> active_status (q_status q) \<and> q_client_msg_id q = cmid)))"
proof (cases "case cmid of None \<Rightarrow> None | Some m \<Rightarrow> find_active_by_client_msg m t")
  case None
  then have dup: "\<And>m. cmid = Some m \<Longrightarrow> find_active_by_client_msg m t = None" by auto
  then have "\<not> (\<exists>q \<in> set t. cmid \<noteq> None \<and> active_status (q_status q) \<and> q_client_msg_id q = cmid)"
    by (cases cmid) (auto simp: find_active_None keyed_active_def)
  with None assms dup show ?thesis
    by (auto simp: enqueue_def insert_new_row fetch_inserted)
next
  case (Some r)
  then show ?thesis
    using assms by (auto simp: enqueue_def keyed_active_def dest: find_active_Some split: option.splits)
qed

theorem enqueue_spec_witness:
  "enqueue ''c'' 9 ''s'' ''again'' ''user'' None (Some ''m'') demo_queue =
     (Inr (demo_queue ! 1, 2), demo_queue) \<and> queued_position (demo_queue ! 1) demo_queue = 2"
proof -
  have e: "enqueue ''c'' 9 ''s'' ''again'' ''user'' None (Some ''m'') demo_queue =
      (Inr (demo_queue ! 1, 2), demo_queue)" by code_simp
  have "valid_source ''user''" by code_simp
  from enqueue_spec [OF this, where i = "''c''" and now = 9 and sid = "''s''" and p = "''again''"
      and rep = None and cmid = "Some ''m''" and t = demo_queue]
  show ?thesis by (simp add: e)
qed

text \<open>The position reported for a queued row is its 1-based rank in its session's line in
  claim order (priority first, then creation time, then id): position \<open>n\<close> means that exactly
  \<open>n - 1\<close> queued rows of the session stand before it.\<close>

theorem queued_position_is_rank:
  assumes "queue_inv t" and "r \<in> set t" and "q_status r = QUEUED"
  shows "\<exists>i < length (waiting_line (q_session r) t).
    waiting_line (q_session r) t ! i = r \<and> queued_position r t = Suc i"
  by (rule queued_position_rank [OF assms])

theorem queued_position_is_rank_witness:
  "\<exists>i < length (waiting_line ''s'' demo_queue).
     waiting_line ''s'' demo_queue ! i = demo_queue ! 1 \<and> queued_position (demo_queue ! 1) demo_queue = Suc i"
proof -
  have "demo_queue ! 1 \<in> set demo_queue" "q_status (demo_queue ! 1) = QUEUED"
    "q_session (demo_queue ! 1) = ''s''" by code_simp+
  with queued_position_is_rank [OF demo_queue_inv] show ?thesis by metis
qed

text \<open>A consumer that claims \<open>n\<close> times from a session gets the first \<open>n\<close> non-expired queued
  rows in claim order, and the rest of the line is left waiting in the same order.\<close>

theorem drain_is_fifo:
  assumes "queue_inv t"
  shows "fst (drain (\<lambda>t. (map_option q_id (fst (claim_next sid now t)), snd (claim_next sid now t))) n t)
      = take n (map q_id (claim_order sid now t))
    \<and> map q_id (claim_order sid now
        (snd (drain (\<lambda>t. (map_option q_id (fst (claim_next sid now t)), snd (claim_next sid now t))) n t)))
      = drop n (map q_id (claim_order sid now t))"
  by (simp add: iq_claims.drain_take [OF assms] iq_claims.drain_waiting [OF assms])

theorem drain_is_fifo_witness:
  "fst (drain (\<lambda>t. (map_option q_id (fst (claim_next ''s'' 9 t)), snd (claim_next ''s'' 9 t))) 2 demo_queue)
      = [''a'', ''b'']"
proof -
  have "take 2 (map q_id (claim_order ''s'' 9 demo_queue)) = [''a'', ''b'']" by code_simp
  with drain_is_fifo [OF demo_queue_inv, of "''s''" 9 2] show ?thesis by simp
qed

text \<open>C4: However many callers claim, from whatever sessions and at whatever times, and in
  whatever order the write lock admits them, no row is handed out twice, and only rows that were
  queued are handed out.\<close>

theorem concurrent_claims_distinct:
  assumes "queue_inv t"
  shows "distinct (fst (claim_seq callers t)) \<and> set (fst (claim_seq callers t)) \<subseteq> queued_ids t"
  by (rule claim_seq_ids [OF assms])

theorem concurrent_claims_distinct_witness:
  "fst (claim_seq [(''s'', 9), (''s'', 9), (''s'', 10)] demo_queue) = [''a'', ''b''] \<and>
   distinct (fst (claim_seq [(''s'', 9), (''s'', 9), (''s'', 10)] demo_queue))"
  using concurrent_claims_distinct [OF demo_queue_inv, of "[(''s'', 9), (''s'', 9), (''s'', 10)]"]
  by (intro conjI, code_simp) simp

text \<open>One operation either purges a whole session or keeps every row, with its id, session,
  source, message id and times; a delivered, failed or voided row is not changed at all, and the
  payload of a row that has left the queue is frozen.\<close>

theorem queue_row_life_cycle:
  assumes "queue_inv t" and "queue_step t t'"
  shows "table_evolves t t' \<or> (\<exists>sid. t' = snd (delete_session sid t))"
  by (rule queue_step_evolves [OF assms])

theorem queue_row_life_cycle_witness:
  "table_evolves demo_queue (snd (claim_next ''s'' 9 demo_queue)) \<or>
   (\<exists>sid. snd (claim_next ''s'' 9 demo_queue) = snd (delete_session sid demo_queue))"
  by (rule queue_row_life_cycle [OF demo_queue_inv step_claim_next])

end
