(* ===== verification/Py_Text.thy ===== *)
theory Py_Text
  imports Prelude
begin

section \<open>Python's strings and JSON values\<close>

text \<open>
  The operations on \<^verbatim>\<open>str\<close> and on JSON values that the components use. A \<open>char\<close> is a code
  point below 256, so texts are Latin-1: \<^verbatim>\<open>str.strip\<close> removes the whitespace code points of that
  range, \<^verbatim>\<open>str.lower\<close> maps its capitals. Numbers are printed in decimal.
\<close>

subsection \<open>Stripping, case, prefixes\<close>

definition py_space :: "char \<Rightarrow> bool" where
  "py_space c = (let n = (of_char c :: nat) in
     (9 \<le> n \<and> n \<le> 13) \<or> (28 \<le> n \<and> n \<le> 32) \<or> n = 133 \<or> n = 160)"

definition lstrip :: "string \<Rightarrow> string" where
  "lstrip s = dropWhile py_space s"

definition rstrip :: "string \<Rightarrow> string" where
  "rstrip s = rev (dropWhile py_space (rev s))"

definition strip :: "string \<Rightarrow> string" where
  "strip s = rstrip (lstrip s)"

definition lower_char :: "char \<Rightarrow> char" where
  "lower_char c = (let n = (of_char c :: nat) in
     if (65 \<le> n \<and> n \<le> 90) \<or> (192 \<le> n \<and> n \<le> 222 \<and> n \<noteq> 215) then char_of (n + 32) else c)"

definition lower :: "string \<Rightarrow> string" where
  "lower s = map lower_char s"

definition starts_with :: "string \<Rightarrow> string \<Rightarrow> bool" where
  "starts_with p s = (take (length p) s = p)"

text \<open>\<^verbatim>\<open>s.index(pat)\<close>, \<open>None\<close> when \<^verbatim>\<open>pat\<close> does not occur.\<close>

fun find_sub :: "string \<Rightarrow> string \<Rightarrow> nat option" where
  "find_sub pat [] = (if pat = [] then Some 0 else None)"
| "find_sub pat (c # s) =
    (if starts_with pat (c # s) then Some 0 else map_option Suc (find_sub pat s))"

definition has_sub :: "string \<Rightarrow> string \<Rightarrow> bool" where
  "has_sub pat s = (find_sub pat s \<noteq> None)"

text \<open>\<^verbatim>\<open>s.split(c)\<close> for a one-character separator.\<close>

fun split_on :: "char \<Rightarrow> string \<Rightarrow> string list" where
  "split_on c [] = [[]]"
| "split_on c (d # s) =
    (if d = c then [] # split_on c s
     else (case split_on c s of [] \<Rightarrow> [[d]] | w # ws \<Rightarrow> (d # w) # ws))"

fun join :: "string \<Rightarrow> string list \<Rightarrow> string" where
  "join sep [] = []"
| "join sep [w] = w"
| "join sep (w # v # ws) = w @ sep @ join sep (v # ws)"

text \<open>\<^verbatim>\<open>f"{n}"\<close> of a natural number and of an integer.\<close>

fun show_nat :: "nat \<Rightarrow> string" where
  "show_nat n = (if n < 10 then [char_of (48 + n)]
     else show_nat (n div 10) @ [char_of (48 + n mod 10)])"

declare show_nat.simps [simp del]

definition show_int :: "int \<Rightarrow> string" where
  "show_int i = (if i < 0 then ''-'' @ show_nat (nat (- i)) else show_nat (nat i))"

text \<open>\<^verbatim>\<open>round(q)\<close>: to the nearest integer, ties to the even one.\<close>

definition py_round :: "rat \<Rightarrow> int" where
  "py_round q =
    (let f = \<lfloor>q\<rfloor>; d = q - of_int f
     in if d < 1 / 2 then f else if 1 / 2 < d then f + 1 else if even f then f else f + 1)"

lemma lstrip_Nil [simp]: "lstrip [] = []"
  by (simp add: lstrip_def)

lemma strip_Nil [simp]: "strip [] = []"
  by (simp add: strip_def rstrip_def)

lemma lstrip_idem: "lstrip (lstrip s) = lstrip s"
  by (simp add: lstrip_def dropWhile_idem)

lemma rstrip_prefix: "\<exists>ws. s = rstrip s @ ws \<and> list_all py_space ws"
proof -
  have "rev s = takeWhile py_space (rev s) @ dropWhile py_space (rev s)" by simp
  then have "s = rstrip s @ rev (takeWhile py_space (rev s))"
    by (metis rev_append rev_rev_ident rstrip_def)
  then show ?thesis by (metis list_all_iff set_rev set_takeWhileD)
qed

lemma lstrip_rstrip: "lstrip s = s \<Longrightarrow> lstrip (rstrip s) = rstrip s"
proof (cases "rstrip s")
  case (Cons c r)
  assume "lstrip s = s"
  moreover obtain ws where "s = rstrip s @ ws" using rstrip_prefix by blast
  ultimately have "\<not> py_space c"
    using Cons by (metis append_Cons dropWhile_eq_self_iff list.sel(1) list.simps(3) lstrip_def)
  with Cons show ?thesis by (simp add: lstrip_def)
qed simp

lemma rstrip_idem: "rstrip (rstrip s) = rstrip s"
  by (simp add: rstrip_def dropWhile_idem)

lemma strip_idem [simp]: "strip (strip s) = strip s"
  by (simp add: strip_def lstrip_rstrip lstrip_idem rstrip_idem)

lemma starts_with_append [simp]: "starts_with p (p @ s)"
  by (simp add: starts_with_def)

lemma starts_with_iff: "starts_with p s \<longleftrightarrow> (\<exists>t. s = p @ t)"
  unfolding starts_with_def by (metis append_take_drop_id append_eq_conv_conj)

lemma find_sub_Some: "find_sub pat s = Some i \<Longrightarrow> i \<le> length s \<and> (\<exists>u v. s = u @ pat @ v \<and> length u = i)"
proof (induction pat s arbitrary: i rule: find_sub.induct)
  case (2 pat c s)
  show ?case
  proof (cases "starts_with pat (c # s)")
    case True
    with 2(2) show ?thesis by (auto simp: starts_with_iff)
  next
    case False
    with 2(2) obtain j where j: "find_sub pat s = Some j" "i = Suc j" by auto
    with 2(1) [OF False j(1)] obtain u v where "s = u @ pat @ v" "length u = j" "j \<le> length s" by blast
    then have "c # s = (c # u) @ pat @ v" "length (c # u) = i" "i \<le> length (c # s)" by (simp_all add: j)
    then show ?thesis by blast
  qed
qed (auto split: if_splits)

lemma find_sub_append: "find_sub pat (u @ pat @ v) \<noteq> None"
proof (induction u)
  case Nil
  have "find_sub pat w \<noteq> None" if "starts_with pat w" for w
    using that by (cases w) (auto simp: starts_with_def)
  then show ?case by simp
next
  case (Cons c u)
  then show ?case by auto
qed

lemma has_sub_iff: "has_sub pat s \<longleftrightarrow> (\<exists>u v. s = u @ pat @ v)"
  unfolding has_sub_def using find_sub_Some find_sub_append by blast

subsection \<open>JSON values\<close>

text \<open>
  What \<^verbatim>\<open>json.loads\<close> returns. A JSON object is a Python dictionary: its entries in insertion
  order.
\<close>

datatype json =
  JNull
| JBool bool
| JInt int
| JFloat rat
| JStr string
| JList "json list"
| JDict "(string \<times> json) list"

text \<open>\<^verbatim>\<open>bool(v)\<close>.\<close>

fun truthy :: "json \<Rightarrow> bool" where
  "truthy JNull = False"
| "truthy (JBool b) = b"
| "truthy (JInt i) = (i \<noteq> 0)"
| "truthy (JFloat q) = (q \<noteq> 0)"
| "truthy (JStr s) = (s \<noteq> [])"
| "truthy (JList xs) = (xs \<noteq> [])"
| "truthy (JDict d) = (d \<noteq> [])"

text \<open>\<^verbatim>\<open>d.get(k)\<close> of a dictionary: \<^const>\<open>JNull\<close> when the key is absent.\<close>

definition jget :: "string \<Rightarrow> (string \<times> json) list \<Rightarrow> json" where
  "jget k d = (case dict_get d k of None \<Rightarrow> JNull | Some v \<Rightarrow> v)"

fun is_jdict :: "json \<Rightarrow> bool" where
  "is_jdict (JDict _) = True"
| "is_jdict _ = False"

fun is_jlist :: "json \<Rightarrow> bool" where
  "is_jlist (JList _) = True"
| "is_jlist _ = False"

fun is_jstr :: "json \<Rightarrow> bool" where
  "is_jstr (JStr _) = True"
| "is_jstr _ = False"

lemma jget_set [simp]: "jget j (dict_set k v d) = (if j = k then v else jget j d)"
  by (simp add: jget_def)

lemma jget_Nil [simp]: "jget k [] = JNull"
  by (simp add: jget_def)

subsection \<open>Numbers\<close>

text \<open>\<^verbatim>\<open>int(v)\<close>; \<^const>\<open>None\<close> when it raises.\<close>

fun int_digits :: "nat \<Rightarrow> bool \<Rightarrow> string \<Rightarrow> nat option" where
  "int_digits n after_digit [] = (if after_digit then Some n else None)"
| "int_digits n after_digit (c # cs) =
    (let d = (of_char c :: nat)
     in if 48 \<le> d \<and> d \<le> 57 then int_digits (10 * n + (d - 48)) True cs
        else if c = CHR ''_'' \<and> after_digit then int_digits n False cs
        else None)"

definition text_int :: "string \<Rightarrow> int option" where
  "text_int s =
    (case strip s of
       [] \<Rightarrow> None
     | c # cs \<Rightarrow>
         if c = CHR ''-'' then map_option (\<lambda>n. - int n) (int_digits 0 False cs)
         else if c = CHR ''+'' then map_option int (int_digits 0 False cs)
         else map_option int (int_digits 0 False (c # cs)))"

definition py_int :: "json \<Rightarrow> int option" where
  "py_int v =
    (case v of
       JInt n \<Rightarrow> Some n
     | JBool b \<Rightarrow> Some (if b then 1 else 0)
     | JFloat q \<Rightarrow> Some (if q < 0 then \<lceil>q\<rceil> else \<lfloor>q\<rfloor>)
     | JStr s \<Rightarrow> text_int s
     | _ \<Rightarrow> None)"

text \<open>\<^verbatim>\<open>int(v or 0)\<close>.\<close>

definition int_or_zero :: "json option \<Rightarrow> int option" where
  "int_or_zero v = (case v of None \<Rightarrow> Some 0 | Some j \<Rightarrow> if truthy j then py_int j else Some 0)"

definition round6 :: "rat \<Rightarrow> rat" where
  "round6 q = of_int (py_round (q * 1000000)) / 1000000"

text \<open>
  \<^verbatim>\<open>float(v)\<close>; \<^const>\<open>None\<close> when it raises. Floats are exact rationals, so of the special values
  only what \<^verbatim>\<open>max(0.0, v)\<close> makes of them matters: infinity is \<open>Inr True\<close>, and \<open>Inr False\<close> stands for
  minus infinity and not-a-number.
\<close>

text \<open>The digits of \<open>s\<close> (underscores only between two of them), their number, and the rest.\<close>

fun read_digits :: "nat \<Rightarrow> nat \<Rightarrow> string \<Rightarrow> nat \<times> nat \<times> string" where
  "read_digits n k [] = (n, k, [])"
| "read_digits n k (c # cs) =
    (let d = (of_char c :: nat)
     in if 48 \<le> d \<and> d \<le> 57 then read_digits (10 * n + (d - 48)) (k + 1) cs
        else if c = CHR ''_'' \<and> 0 < k
        then (case cs of
                e # _ \<Rightarrow> if 48 \<le> (of_char e :: nat) \<and> (of_char e :: nat) \<le> 57 then read_digits n k cs else (n, k, c # cs)
              | [] \<Rightarrow> (n, k, c # cs))
        else (n, k, c # cs))"

definition read_exponent :: "string \<Rightarrow> int option" where
  "read_exponent s =
    (case s of
       [] \<Rightarrow> Some 0
     | c # cs \<Rightarrow>
         if c \<noteq> CHR ''e'' \<and> c \<noteq> CHR ''E'' then None
         else
           (let (neg, ds) = (case cs of [] \<Rightarrow> (False, [])
                             | d # ds' \<Rightarrow> if d = CHR ''-'' then (True, ds') else if d = CHR ''+'' then (False, ds') else (False, cs));
                (n, k, rest) = read_digits 0 0 ds
            in if k = 0 \<or> rest \<noteq> [] then None else Some (if neg then - int n else int n)))"

definition read_float :: "string \<Rightarrow> (rat + bool) option" where
  "read_float s =
    (if lower s \<in> {''inf'', ''infinity''} then Some (Inr True)
     else if lower s = ''nan'' then Some (Inr False)
     else
       (let (n, k, r1) = read_digits 0 0 s;
            (m, j, r2) = (case r1 of [] \<Rightarrow> (0, 0, []) | c # cs \<Rightarrow> if c = CHR ''.'' then read_digits 0 0 cs else (0, 0, r1))
        in if k + j = 0 then None
           else (case read_exponent r2 of
                   None \<Rightarrow> None
                 | Some e \<Rightarrow>
                     (let q = of_nat n + of_nat m / 10 ^ j
                      in Some (Inl (if 0 \<le> e then q * 10 ^ nat e else q / 10 ^ nat (- e)))))))"

definition text_float :: "string \<Rightarrow> (rat + bool) option" where
  "text_float s =
    (case strip s of
       [] \<Rightarrow> None
     | c # cs \<Rightarrow>
         if c = CHR ''-''
         then map_option (\<lambda>v. case v of Inl q \<Rightarrow> Inl (- q) | Inr _ \<Rightarrow> Inr False) (read_float cs)
         else if c = CHR ''+'' then read_float cs
         else read_float (c # cs))"

definition py_float :: "json \<Rightarrow> (rat + bool) option" where
  "py_float v =
    (case v of
       JInt n \<Rightarrow> Some (Inl (of_int n))
     | JBool b \<Rightarrow> Some (Inl (if b then 1 else 0))
     | JFloat q \<Rightarrow> Some (Inl q)
     | JStr s \<Rightarrow> text_float s
     | _ \<Rightarrow> None)"

text \<open>\<^verbatim>\<open>s.replace(pat, new)\<close> for a pattern that is not empty.\<close>

function replace_all :: "string \<Rightarrow> string \<Rightarrow> string \<Rightarrow> string" where
  "replace_all pat new [] = []"
| "replace_all pat new (c # s) =
    (if pat \<noteq> [] \<and> starts_with pat (c # s) then new @ replace_all pat new (drop (length pat) (c # s))
     else c # replace_all pat new s)"
  by pat_completeness auto
termination by (relation "measure (\<lambda>(pat, new, s). length s)") (auto simp: less_Suc_eq_le neq_Nil_conv)

end
