(* ===== verification/Run_Types.thy ===== *)
theory Run_Types
  imports Py_Text
begin

section \<open>Sub-agent runs: records, roles, configuration\<close>

text \<open>
  The data of the sub-agent subsystem: \<^verbatim>\<open>types/registry.py\<close> (the run record and its three
  state machines), \<^verbatim>\<open>types/lifecycle.py\<close>, \<^verbatim>\<open>types/capability.py\<close>, \<^verbatim>\<open>types/functional_role.py\<close>
  and the defaults of \<^verbatim>\<open>config.py\<close>, all under \<^verbatim>\<open>src/agent/tools/subagent/\<close>. A pydantic model
  is a record with the same fields; \<^verbatim>\<open>model_copy(update=...)\<close> is a record update.
\<close>

datatype execution_status = EX_PENDING | EX_RUNNING | EX_INTERRUPTED | EX_TERMINAL

datatype delivery_status =
  DL_NOT_REQUIRED
| DL_PENDING
| DL_IN_PROGRESS
| DL_DELIVERED
| DL_FAILED
| DL_SUSPENDED
| DL_DISCARDED

datatype outcome_status = OC_OK | OC_ERROR | OC_TIMEOUT | OC_KILLED | OC_UNKNOWN

record run_outcome =
  oc_status :: outcome_status
  oc_error :: "string option"

record execution_state =
  ex_status :: execution_status
  ex_started_at :: "time option"
  ex_ended_at :: "time option"
  ex_outcome :: "run_outcome option"
  ex_transcript_target :: "string option"

record completion_state =
  cp_required :: bool
  cp_result_text :: "string option"
  cp_handoff :: "json option"
  cp_captured_at :: "time option"

record delivery_state =
  dl_status :: delivery_status
  dl_payload :: "string option"
  dl_attempt_count :: nat
  dl_last_error :: "string option"
  dl_last_attempt_at :: "time option"
  dl_suspended_at :: "time option"
  dl_discard_reason :: "string option"
  dl_delivered_at :: "time option"
  dl_announced_at :: "time option"

record kill_reconciliation =
  kr_snapshot_execution :: execution_state
  kr_snapshot_delivery :: delivery_state
  kr_killed_at :: time
  kr_reconciled :: bool

datatype session_role = R_MAIN | R_ORCHESTRATOR | R_LEAF

datatype control_scope = S_CHILDREN | S_NONE

datatype functional_role = F_GENERAL | F_RESEARCHER | F_EXECUTOR | F_REVIEWER | F_LIBRARIAN

datatype cleanup_mode = CL_DELETE | CL_KEEP

record run =
  r_run_id :: text_id
  r_task_run_id :: "text_id option"
  r_child_session_key :: text_id
  r_requester_session_key :: text_id
  r_task :: string
  r_task_name :: "string option"
  r_cleanup :: cleanup_mode
  r_agent_id :: string
  r_thinking :: "string option"
  r_max_output_tokens :: "nat option"
  r_depth :: nat
  r_role :: session_role
  r_control_scope :: control_scope
  r_functional_role :: functional_role
  r_generation :: nat
  r_controller_session_key :: "text_id option"
  r_completion_owner_session_key :: "text_id option"
  r_expects_completion_message :: bool
  r_ended_reason :: "string option"
  r_pause_reason :: "string option"
  r_wake_on_descendant_settle :: bool
  r_archive_at :: "time option"
  r_cleanup_completed_at :: "time option"
  r_accumulated_runtime_ms :: rat
  r_ended_hook_emitted :: bool
  r_kill_reconciliation :: "kill_reconciliation option"
  r_suppress_announce_reason :: "string option"
  r_terminal_owner :: "string option"
  r_aborted_last_run :: bool
  r_recovery_attempts_persisted :: nat
  r_step_id :: "text_id option"
  r_flow_id :: "text_id option"
  r_swarm_group_id :: "text_id option"
  r_swarm_run_state :: "string option"
  r_launch_fingerprint :: "string option"
  r_output_schema :: "json option"
  r_suppress_completion_delivery :: bool
  r_retain_attachments_on_keep :: bool
  r_execution :: execution_state
  r_completion :: completion_state
  r_delivery :: delivery_state
  r_attachments_dir :: "string option"
  r_attachments_root_dir :: "string option"
  r_inherited_tool_allow :: "string list"
  r_inherited_tool_deny :: "string list"
  r_inherited_tool_policy_version :: nat
  r_scopes :: "string list"
  r_spawned_by :: "text_id option"
  r_spawned_cwd :: "string option"
  r_label :: "string option"

subsection \<open>Defaults\<close>

definition new_execution_state :: "execution_status \<Rightarrow> execution_state" where
  "new_execution_state st =
    \<lparr>ex_status = st, ex_started_at = None, ex_ended_at = None, ex_outcome = None,
     ex_transcript_target = None\<rparr>"

definition new_completion_state :: "bool \<Rightarrow> completion_state" where
  "new_completion_state required =
    \<lparr>cp_required = required, cp_result_text = None, cp_handoff = None, cp_captured_at = None\<rparr>"

definition new_delivery_state :: "delivery_status \<Rightarrow> delivery_state" where
  "new_delivery_state st =
    \<lparr>dl_status = st, dl_payload = None, dl_attempt_count = 0, dl_last_error = None,
     dl_last_attempt_at = None, dl_suspended_at = None, dl_discard_reason = None,
     dl_delivered_at = None, dl_announced_at = None\<rparr>"

text \<open>The limits of \<^verbatim>\<open>SubagentConfig\<close> that the modelled code reads; the rest tune I/O.\<close>

record subagent_config =
  cf_max_spawn_depth :: nat
  cf_max_concurrent :: nat
  cf_max_children_per_agent :: nat
  cf_max_total_spawns :: nat
  cf_allow_agents :: "string list"
  cf_announce_expiry_ms :: rat
  cf_announce_hard_expiry_ms :: rat
  cf_max_announce_retry_count :: nat
  cf_suspend_soft_cap :: nat
  cf_suspend_hard_cap :: nat
  cf_suspend_target :: nat
  cf_stale_unended_threshold :: rat
  cf_recent_ended_window :: rat
  cf_archive_after_minutes :: nat

definition MAX_SPAWN_DEPTH_CAP :: nat where
  "MAX_SPAWN_DEPTH_CAP = 2"

definition default_config :: subagent_config where
  "default_config =
    \<lparr>cf_max_spawn_depth = 2, cf_max_concurrent = 8, cf_max_children_per_agent = 5,
     cf_max_total_spawns = 50, cf_allow_agents = [''*''], cf_announce_expiry_ms = 7200000,
     cf_announce_hard_expiry_ms = 86400000, cf_max_announce_retry_count = 10,
     cf_suspend_soft_cap = 25, cf_suspend_hard_cap = 50, cf_suspend_target = 10,
     cf_stale_unended_threshold = 7200, cf_recent_ended_window = 1800,
     cf_archive_after_minutes = 60\<rparr>"

text \<open>The field validator, run at construction and on assignment.\<close>

definition enforce_spawn_depth_cap :: "subagent_config \<Rightarrow> string + subagent_config" where
  "enforce_spawn_depth_cap c =
    (if MAX_SPAWN_DEPTH_CAP < cf_max_spawn_depth c
     then Inl (''max_spawn_depth cannot exceed '' @ show_nat MAX_SPAWN_DEPTH_CAP) else Inr c)"

subsection \<open>Lifecycle reasons\<close>

datatype ended_reason = ER_COMPLETE | ER_ERROR | ER_KILLED | ER_TIMEOUT | ER_ORPHANED

fun ended_reason_value :: "ended_reason \<Rightarrow> string" where
  "ended_reason_value ER_COMPLETE = ''complete''"
| "ended_reason_value ER_ERROR = ''error''"
| "ended_reason_value ER_KILLED = ''killed''"
| "ended_reason_value ER_TIMEOUT = ''timeout''"
| "ended_reason_value ER_ORPHANED = ''orphaned''"

fun outcome_to_ended_reason :: "outcome_status \<Rightarrow> ended_reason" where
  "outcome_to_ended_reason OC_OK = ER_COMPLETE"
| "outcome_to_ended_reason OC_TIMEOUT = ER_TIMEOUT"
| "outcome_to_ended_reason OC_KILLED = ER_KILLED"
| "outcome_to_ended_reason _ = ER_ERROR"

subsection \<open>Roles by depth\<close>

definition resolve_subagent_capabilities :: "nat \<Rightarrow> nat \<Rightarrow> session_role \<times> control_scope" where
  "resolve_subagent_capabilities depth max_depth =
    (if depth = 0 then (R_MAIN, S_CHILDREN)
     else if max_depth \<le> depth then (R_LEAF, S_NONE)
     else (R_ORCHESTRATOR, S_CHILDREN))"

definition can_spawn_children :: "session_role \<Rightarrow> bool" where
  "can_spawn_children r = (r \<in> {R_MAIN, R_ORCHESTRATOR})"

definition SUBAGENT_MARK :: string where
  "SUBAGENT_MARK = '':subagent:''"

definition is_subagent_session :: "string \<Rightarrow> bool" where
  "is_subagent_session key = has_sub SUBAGENT_MARK key"

text \<open>The loop that cuts the key behind each marker; each round makes the key shorter.\<close>

function extract_depth :: "string \<Rightarrow> nat" where
  "extract_depth key =
    (case find_sub SUBAGENT_MARK key of
       None \<Rightarrow> 0
     | Some i \<Rightarrow> Suc (extract_depth (drop (i + length SUBAGENT_MARK) key)))"
  by pat_completeness auto

termination
proof (relation "measure length")
  fix key :: string and i
  assume "find_sub SUBAGENT_MARK key = Some i"
  from find_sub_Some [OF this] obtain u v where "key = u @ SUBAGENT_MARK @ v" by blast
  then show "(drop (i + length SUBAGENT_MARK) key, key) \<in> measure length"
    by (simp add: SUBAGENT_MARK_def)
qed simp

declare extract_depth.simps [simp del]

subsection \<open>Session keys\<close>

definition SESSION_KEY_PREFIX :: string where
  "SESSION_KEY_PREFIX = ''agent:main:session:''"

definition normalize_session_key :: "string \<Rightarrow> string" where
  "normalize_session_key raw =
    (if raw = [] then []
     else
       (let trimmed = strip raw
        in if starts_with SESSION_KEY_PREFIX (lower trimmed)
           then drop (length SESSION_KEY_PREFIX) trimmed else trimmed))"

definition denormalize_session_key :: "string \<Rightarrow> string" where
  "denormalize_session_key bare =
    (if bare = [] then []
     else
       (let trimmed = strip bare
        in if trimmed = [] then []
           else if starts_with SESSION_KEY_PREFIX (lower trimmed) then trimmed
           else SESSION_KEY_PREFIX @ trimmed))"

subsection \<open>Basic facts\<close>

lemma new_state_sel [simp]:
  "ex_status (new_execution_state st) = st" "ex_started_at (new_execution_state st) = None"
  "ex_ended_at (new_execution_state st) = None" "ex_outcome (new_execution_state st) = None"
  "cp_required (new_completion_state q) = q" "cp_result_text (new_completion_state q) = None"
  "dl_status (new_delivery_state d) = d" "dl_attempt_count (new_delivery_state d) = 0"
  "dl_delivered_at (new_delivery_state d) = None" "dl_last_attempt_at (new_delivery_state d) = None"
  by (simp_all add: new_execution_state_def new_completion_state_def new_delivery_state_def)

text \<open>The markers of a nested child key count its depth.\<close>

lemma extract_depth_no_mark: "\<not> is_subagent_session key \<Longrightarrow> extract_depth key = 0"
  by (subst extract_depth.simps) (simp add: is_subagent_session_def has_sub_def)

lemma lower_append: "lower (s @ t) = lower s @ lower t"
  by (simp add: lower_def)

lemma lower_prefix: "lower SESSION_KEY_PREFIX = SESSION_KEY_PREFIX"
  by code_simp

lemma rstrip_append: "t \<noteq> [] \<Longrightarrow> strip t = t \<Longrightarrow> rstrip (p @ t) = p @ t"
proof -
  assume t: "t \<noteq> []" "strip t = t"
  have "rstrip t = t" by (metis rstrip_idem strip_def t(2))
  then have "\<not> py_space (last t)"
    using t(1) by (metis dropWhile_eq_self_iff hd_rev rev_is_Nil_conv rev_rev_ident rstrip_def)
  moreover have "hd (rev (p @ t)) = last t" using t(1) by (metis hd_rev last_appendR)
  ultimately have "dropWhile py_space (rev (p @ t)) = rev (p @ t)"
    unfolding dropWhile_eq_self_iff by simp
  then show ?thesis by (simp only: rstrip_def rev_rev_ident)
qed

lemma strip_prefix_append: "t \<noteq> [] \<Longrightarrow> strip t = t \<Longrightarrow> strip (SESSION_KEY_PREFIX @ t) = SESSION_KEY_PREFIX @ t"
proof -
  assume t: "t \<noteq> []" "strip t = t"
  have "\<not> py_space (hd (SESSION_KEY_PREFIX @ t))" by (simp add: SESSION_KEY_PREFIX_def py_space_def)
  then have "lstrip (SESSION_KEY_PREFIX @ t) = SESSION_KEY_PREFIX @ t"
    by (simp add: lstrip_def dropWhile_eq_self_iff)
  with rstrip_append [OF t] show ?thesis by (simp add: strip_def)
qed

subsection \<open>Properties\<close>

text \<open>The two forms of a main-session key convert into each other: a bare id without
  surrounding whitespace and without the prefix survives being prefixed and stripped again, and
  prefixing twice is prefixing once.\<close>

theorem session_key_roundtrip:
  assumes "bare \<noteq> []" and "strip bare = bare" and "\<not> starts_with SESSION_KEY_PREFIX (lower bare)"
  shows "normalize_session_key (denormalize_session_key bare) = bare \<and>
    denormalize_session_key (denormalize_session_key bare) = denormalize_session_key bare"
proof -
  have d: "denormalize_session_key bare = SESSION_KEY_PREFIX @ bare"
    using assms by (simp add: denormalize_session_key_def Let_def)
  have s: "strip (SESSION_KEY_PREFIX @ bare) = SESSION_KEY_PREFIX @ bare"
    by (rule strip_prefix_append [OF assms(1,2)])
  have p: "starts_with SESSION_KEY_PREFIX (lower (SESSION_KEY_PREFIX @ bare))"
    by (simp add: lower_append lower_prefix)
  have "normalize_session_key (SESSION_KEY_PREFIX @ bare) = bare"
    using assms(1) p by (simp add: normalize_session_key_def s)
  moreover have "denormalize_session_key (SESSION_KEY_PREFIX @ bare) = SESSION_KEY_PREFIX @ bare"
    using assms(1) p by (simp add: denormalize_session_key_def s)
  ultimately show ?thesis by (simp only: d simp_thms)
qed

theorem session_key_roundtrip_witness:
  "normalize_session_key (denormalize_session_key ''u 1'') = ''u 1''"
proof -
  have "''u 1'' \<noteq> []" "strip ''u 1'' = ''u 1''" "\<not> starts_with SESSION_KEY_PREFIX (lower ''u 1'')"
    by code_simp+
  from session_key_roundtrip [OF this] show ?thesis by blast
qed

end
