(* ===== verification/Registry.thy ===== *)
theory Registry
  imports Run_Types
begin

section \<open>The sub-agent registry: memory, queries, generations, budget\<close>

text \<open>
  Models, under \<^verbatim>\<open>src/agent/tools/subagent/registry/\<close>: \<^verbatim>\<open>memory.py\<close> (the insertion-ordered
  in-memory store with its eviction), \<^verbatim>\<open>queries.py\<close>, \<^verbatim>\<open>generation.py\<close>, \<^verbatim>\<open>terminal_gen.py\<close>,
  \<^verbatim>\<open>spawn_budget.py\<close> and the table \<^verbatim>\<open>subagent_runs\<close> of \<^verbatim>\<open>store_sqlite.py\<close>. Every critical
  section is synchronous under one lock, so an operation is one state transformer. A row of the
  table holds the serialized run; the model keeps the run itself, so (de)serialization and
  failed disk writes (which the code swallows) are not modelled.
\<close>

record registry =
  rg_cap :: nat
  rg_runs :: "(text_id \<times> run) list"
  rg_disk :: "(text_id \<times> run) list"
  rg_spawns :: "(text_id \<times> nat) list"

definition MAX_RETAINED_RUNS :: nat where
  "MAX_RETAINED_RUNS = 2000"

definition empty_registry :: "nat \<Rightarrow> registry" where
  "empty_registry cap = \<lparr>rg_cap = cap, rg_runs = [], rg_disk = [], rg_spawns = []\<rparr>"

subsection \<open>The in-memory store\<close>

definition is_terminal :: "run \<Rightarrow> bool" where
  "is_terminal r = (ex_status (r_execution r) = EX_TERMINAL)"

text \<open>\<^verbatim>\<open>d[k] = v; d.move_to_end(k)\<close>, and what \<^verbatim>\<open>INSERT OR REPLACE\<close> does to the row order.\<close>

definition put_last :: "'k \<Rightarrow> 'v \<Rightarrow> ('k \<times> 'v) list \<Rightarrow> ('k \<times> 'v) list" where
  "put_last k v d = dict_pop k d @ [(k, v)]"

text \<open>The eviction loop over the keys in insertion order, oldest first.\<close>

fun evict_keys :: "nat \<Rightarrow> text_id list \<Rightarrow> (text_id \<times> run) list \<Rightarrow> (text_id \<times> run) list" where
  "evict_keys cap [] d = d"
| "evict_keys cap (k # ks) d =
    (if length d \<le> cap then d
     else if (case dict_get d k of None \<Rightarrow> False | Some r \<Rightarrow> is_terminal r)
     then evict_keys cap ks (dict_pop k d)
     else evict_keys cap ks d)"

definition evict_overflow :: "nat \<Rightarrow> (text_id \<times> run) list \<Rightarrow> (text_id \<times> run) list" where
  "evict_overflow cap d = (if length d \<le> cap then d else evict_keys cap (map fst d) d)"

definition mem_get :: "text_id \<Rightarrow> registry \<Rightarrow> run option" where
  "mem_get i s = dict_get (rg_runs s) i"

definition set_run :: "run \<Rightarrow> registry \<Rightarrow> registry" where
  "set_run r s = s\<lparr>rg_runs := evict_overflow (rg_cap s) (put_last (r_run_id r) r (rg_runs s))\<rparr>"

definition upsert_run_sync :: "run \<Rightarrow> registry \<Rightarrow> registry" where
  "upsert_run_sync r s = s\<lparr>rg_disk := put_last (r_run_id r) r (rg_disk s)\<rparr>"

definition set_run_durable :: "run \<Rightarrow> registry \<Rightarrow> registry" where
  "set_run_durable r s = upsert_run_sync r (set_run r s)"

definition mem_delete :: "text_id \<Rightarrow> registry \<Rightarrow> run option \<times> registry" where
  "mem_delete i s = (mem_get i s, s\<lparr>rg_runs := dict_pop i (rg_runs s)\<rparr>)"

text \<open>\<^verbatim>\<open>memory.update\<close>: the keyword arguments are the record update \<open>f\<close>; the place is kept.\<close>

definition mem_update :: "text_id \<Rightarrow> (run \<Rightarrow> run) \<Rightarrow> registry \<Rightarrow> run option \<times> registry" where
  "mem_update i f s =
    (case mem_get i s of
       None \<Rightarrow> (None, s)
     | Some r \<Rightarrow> (Some (f r), s\<lparr>rg_runs := dict_set i (f r) (rg_runs s)\<rparr>))"

definition mem_values :: "registry \<Rightarrow> run list" where
  "mem_values s = map snd (rg_runs s)"

definition mem_size :: "registry \<Rightarrow> nat" where
  "mem_size s = length (rg_runs s)"

definition mem_clear :: "registry \<Rightarrow> registry" where
  "mem_clear s = s\<lparr>rg_runs := [], rg_spawns := []\<rparr>"

definition find_by_child_session_key :: "text_id \<Rightarrow> registry \<Rightarrow> run option" where
  "find_by_child_session_key k s = find (\<lambda>r. r_child_session_key r = k) (mem_values s)"

subsection \<open>The spawn budget\<close>

definition increment_spawn_count :: "text_id \<Rightarrow> registry \<Rightarrow> nat \<times> registry" where
  "increment_spawn_count k s =
    (let n = get_count (rg_spawns s) k + 1 in (n, s\<lparr>rg_spawns := dict_set k n (rg_spawns s)\<rparr>))"

definition total_spawns :: "text_id \<Rightarrow> registry \<Rightarrow> nat" where
  "total_spawns k s = get_count (rg_spawns s) k"

definition reset_spawn_count :: "text_id \<Rightarrow> registry \<Rightarrow> registry" where
  "reset_spawn_count k s = s\<lparr>rg_spawns := dict_pop k (rg_spawns s)\<rparr>"

subsection \<open>Queries\<close>

definition list_runs_for_requester :: "text_id \<Rightarrow> registry \<Rightarrow> run list" where
  "list_runs_for_requester k s = filter (\<lambda>r. r_requester_session_key r = k) (mem_values s)"

text \<open>
  \<^verbatim>\<open>build_read_index\<close>: requester key to its runs, in the order of the store.
  \<^verbatim>\<open>index.setdefault(key, []).append(run)\<close> per run.
\<close>

definition build_read_index :: "run list \<Rightarrow> (text_id \<times> run list) list" where
  "build_read_index rs =
    fold (\<lambda>r ix. dict_set (r_requester_session_key r)
            ((case dict_get ix (r_requester_session_key r) of None \<Rightarrow> [] | Some l \<Rightarrow> l) @ [r]) ix) rs []"

definition index_get :: "(text_id \<times> run list) list \<Rightarrow> text_id \<Rightarrow> run list" where
  "index_get ix k = (case dict_get ix k of None \<Rightarrow> [] | Some l \<Rightarrow> l)"

text \<open>
  The breadth-first collection: the queue, the visited keys, and the children of a key are
  appended in the order in which the keys are dequeued. Each round either drops a visited or
  childless key from the queue or visits a new key of the index.
\<close>

function bfs :: "(text_id \<times> run list) list \<Rightarrow> text_id list \<Rightarrow> text_id list \<Rightarrow> run list" where
  "bfs ix [] visited = []"
| "bfs ix (k # queue) visited =
    (if k \<in> set visited then bfs ix queue visited
     else
       (let cs = index_get ix k
        in cs @ bfs ix (queue @ map r_child_session_key cs) (k # visited)))"
  by pat_completeness auto

lemma index_get_key: "index_get ix k \<noteq> [] \<Longrightarrow> k \<in> fst ` set ix"
  unfolding index_get_def by (metis map_of_eq_None_iff option.simps(4))

termination bfs
proof (relation "measures [\<lambda>(ix, q, v). card (fst ` set ix - set v), \<lambda>(ix, q, v). length q]")
  fix ix :: "(text_id \<times> run list) list" and k queue visited cs
  assume new: "k \<notin> set visited" and cs: "cs = index_get ix k"
  show "((ix, queue @ map r_child_session_key cs, k # visited), ix, k # queue, visited)
    \<in> measures [\<lambda>(ix, q, v). card (fst ` set ix - set v), \<lambda>(ix, q, v). length q]"
  proof (cases "k \<in> fst ` set ix")
    case True
    with new have "fst ` set ix - set (k # visited) \<subset> fst ` set ix - set visited" by auto
    then show ?thesis by (simp add: psubset_card_mono)
  next
    case False
    then have "fst ` set ix - set (k # visited) = fst ` set ix - set visited" by auto
    moreover have "cs = []" using index_get_key [of ix k] False cs by blast
    ultimately show ?thesis by (simp del: set_simps)
  qed
qed simp_all

definition list_descendant_runs :: "text_id \<Rightarrow> registry \<Rightarrow> run list" where
  "list_descendant_runs k s = bfs (build_read_index (mem_values s)) [k] []"

definition is_active_status :: "execution_status \<Rightarrow> bool" where
  "is_active_status st = (st \<in> {EX_RUNNING, EX_PENDING})"

definition count_active_runs_for_session :: "text_id \<Rightarrow> registry \<Rightarrow> nat" where
  "count_active_runs_for_session k s =
    count_where (\<lambda>r. r_requester_session_key r = k \<and> is_active_status (ex_status (r_execution r)))
      (mem_values s)"

definition count_active_descendant_runs :: "text_id \<Rightarrow> registry \<Rightarrow> nat" where
  "count_active_descendant_runs k s =
    count_where (\<lambda>r. is_active_status (ex_status (r_execution r))) (list_descendant_runs k s)"

definition count_pending_descendant_runs :: "text_id \<Rightarrow> registry \<Rightarrow> nat" where
  "count_pending_descendant_runs k s =
    count_where (\<lambda>r. dl_status (r_delivery r) \<in> {DL_PENDING, DL_IN_PROGRESS}) (list_descendant_runs k s)"

definition find_run_by_task_name :: "text_id \<Rightarrow> string \<Rightarrow> registry \<Rightarrow> run option" where
  "find_run_by_task_name k n s =
    find (\<lambda>r. r_requester_session_key r = k \<and> r_task_name r = Some n) (mem_values s)"

definition list_runs_for_controller :: "text_id \<Rightarrow> registry \<Rightarrow> run list" where
  "list_runs_for_controller k s =
    filter (\<lambda>r. r_requester_session_key r = k \<or> r_child_session_key r = k) (mem_values s)"

definition count_all_active_runs :: "registry \<Rightarrow> nat" where
  "count_all_active_runs s =
    count_where (\<lambda>r. is_active_status (ex_status (r_execution r))) (mem_values s)"

definition is_live_unended_run :: "run \<Rightarrow> bool" where
  "is_live_unended_run r = (ex_status (r_execution r) \<in> {EX_PENDING, EX_RUNNING, EX_INTERRUPTED})"

definition has_live_run_for_session :: "text_id \<Rightarrow> registry \<Rightarrow> bool" where
  "has_live_run_for_session key s =
    (let bare = normalize_session_key key
     in bare \<noteq> [] \<and>
        list_ex (\<lambda>r. is_live_unended_run r \<and>
          (normalize_session_key (r_requester_session_key r) = bare \<or>
           normalize_session_key (r_child_session_key r) = bare)) (mem_values s))"

subsection \<open>Generations\<close>

definition next_generation :: "text_id \<Rightarrow> registry \<Rightarrow> nat" where
  "next_generation k s =
    fold (\<lambda>r m. if r_child_session_key r = k \<and> m < r_generation r then r_generation r else m)
      (mem_values s) 0 + 1"

definition is_superseded_run :: "run \<Rightarrow> registry \<Rightarrow> bool" where
  "is_superseded_run r s =
    (\<not> is_terminal r \<and>
     list_ex (\<lambda>q. r_child_session_key q = r_child_session_key r \<and> r_run_id q \<noteq> r_run_id r \<and>
        r_generation r < r_generation q \<and> \<not> is_terminal q) (mem_values s))"

definition latest_run :: "text_id \<Rightarrow> registry \<Rightarrow> run option" where
  "latest_run k s =
    fold (\<lambda>r best. if r_child_session_key r \<noteq> k then best
            else (case best of None \<Rightarrow> Some r
                  | Some b \<Rightarrow> if r_generation b < r_generation r then Some r else Some b))
      (mem_values s) None"

text \<open>The terminal-generation tracker: expected generations by run id.\<close>

type_synonym gen_tracker = "(text_id \<times> nat) list"

definition register_expected :: "text_id \<Rightarrow> nat \<Rightarrow> gen_tracker \<Rightarrow> gen_tracker" where
  "register_expected i g t = dict_set i g t"

definition is_callback_current :: "text_id \<Rightarrow> nat \<Rightarrow> gen_tracker \<Rightarrow> bool" where
  "is_callback_current i g t = (case dict_get t i of None \<Rightarrow> True | Some e \<Rightarrow> e \<le> g)"

definition is_older_equivalent :: "text_id \<Rightarrow> nat \<Rightarrow> gen_tracker \<Rightarrow> bool" where
  "is_older_equivalent i g t = (case dict_get t i of None \<Rightarrow> False | Some e \<Rightarrow> g < e)"

definition retire_generation :: "text_id \<Rightarrow> gen_tracker \<Rightarrow> gen_tracker" where
  "retire_generation i t = dict_pop i t"

subsection \<open>The eviction drops the oldest terminal runs\<close>

text \<open>The reference: drop the first \<open>n\<close> entries that satisfy \<open>P\<close>, keep the order of the rest.\<close>

fun drop_first :: "nat \<Rightarrow> ('a \<Rightarrow> bool) \<Rightarrow> 'a list \<Rightarrow> 'a list" where
  "drop_first n P [] = []"
| "drop_first n P (x # xs) =
    (if P x then (case n of 0 \<Rightarrow> x # xs | Suc m \<Rightarrow> drop_first m P xs) else x # drop_first n P xs)"

lemma drop_first_0 [simp]: "drop_first 0 P xs = xs"
  by (induction xs) auto

lemma filter_drop_first: "filter (\<lambda>x. \<not> P x) (drop_first n P xs) = filter (\<lambda>x. \<not> P x) xs"
  by (induction n P xs rule: drop_first.induct) (auto split: nat.splits)

lemma length_drop_first: "length (drop_first n P xs) = length xs - min n (count_where P xs)"
proof (induction n P xs rule: drop_first.induct)
  case (2 n P x xs)
  then show ?case
    using count_where_le_length [of P xs] by (cases n) (auto simp: Suc_diff_le min_def)
qed simp

lemma set_drop_first: "set (drop_first n P xs) \<subseteq> set xs"
  by (induction n P xs rule: drop_first.induct) (auto split: nat.splits)

lemma keyed_drop_first: "keyed f xs \<Longrightarrow> keyed f (drop_first n P xs)"
  by (induction n P xs rule: drop_first.induct) (use set_drop_first in \<open>force split: nat.splits\<close>)+

lemma dict_pop_middle:
  "k \<notin> fst ` set a \<Longrightarrow> k \<notin> fst ` set b \<Longrightarrow> dict_pop k (a @ (k, v) # b) = a @ b"
  by (induction a) (auto simp: delete_id)

lemma dict_get_middle: "k \<notin> fst ` set a \<Longrightarrow> dict_get (a @ (k, v) # b) k = Some v"
  by (induction a) auto

lemma evict_keys_eq:
  assumes "dict_ok (a @ b)"
  shows "evict_keys cap (map fst b) (a @ b) =
    a @ drop_first (length (a @ b) - cap) (is_terminal \<circ> snd) b"
  using assms
proof (induction b arbitrary: a)
  case (Cons x b)
  obtain k r where x: "x = (k, r)" by (cases x)
  from Cons.prems x have k: "k \<notin> fst ` set a" "k \<notin> fst ` set b" by (auto simp: dict_ok_def)
  have get: "dict_get (a @ (k, r) # b) k = Some r" by (rule dict_get_middle [OF k(1)])
  show ?case
  proof (cases "length (a @ x # b) \<le> cap")
    case True
    then show ?thesis by simp
  next
    case over: False
    then obtain m where m: "length (a @ x # b) - cap = Suc m" "length (a @ b) - cap = m"
      by (cases "length (a @ x # b) - cap") auto
    show ?thesis
    proof (cases "is_terminal r")
      case True
      have "dict_ok (a @ b)" using Cons.prems x by (auto simp: dict_ok_def)
      from Cons.IH [OF this] True over m x show ?thesis
        by (simp add: get dict_pop_middle [OF k] del: map_of_append)
    next
      case False
      have "dict_ok ((a @ [x]) @ b)" using Cons.prems by simp
      from Cons.IH [OF this] False over m x show ?thesis by (simp add: get del: map_of_append)
    qed
  qed
qed simp

lemma evict_overflow_eq:
  "dict_ok d \<Longrightarrow> evict_overflow cap d = drop_first (length d - cap) (is_terminal \<circ> snd) d"
  using evict_keys_eq [of "[]" d cap] by (simp add: evict_overflow_def)

subsection \<open>The invariant of the store\<close>

definition registry_inv :: "registry \<Rightarrow> bool" where
  "registry_inv s = (dict_ok (rg_runs s) \<and> dict_ok (rg_disk s) \<and> dict_ok (rg_spawns s) \<and>
     list_all (\<lambda>(k, r). r_run_id r = k) (rg_runs s) \<and>
     list_all (\<lambda>(k, r). r_run_id r = k) (rg_disk s))"

lemma registry_inv_empty [simp]: "registry_inv (empty_registry cap)"
  by (simp add: registry_inv_def empty_registry_def)

lemma dict_ok_put_last [simp]: "dict_ok d \<Longrightarrow> dict_ok (put_last k v d)"
  by (auto simp: dict_ok_def put_last_def distinct_delete set_dict_pop)

lemma dict_get_put_last [simp]: "dict_get (put_last k v d) j = (if j = k then Some v else dict_get d j)"
  by (auto simp: put_last_def map_add_def split: option.splits)

lemma put_last_all: "list_all P d \<Longrightarrow> P (k, v) \<Longrightarrow> list_all P (put_last k v d)"
  by (auto simp: put_last_def list_all_iff set_dict_pop)

lemma dict_ok_keyed: "dict_ok d = keyed fst d"
  by (simp add: dict_ok_def keyed_def)

lemma dict_ok_evict [simp]: "dict_ok d \<Longrightarrow> dict_ok (evict_overflow cap d)"
  by (simp add: evict_overflow_eq) (simp add: dict_ok_keyed keyed_drop_first)

lemma evict_subset: "dict_ok d \<Longrightarrow> set (evict_overflow cap d) \<subseteq> set d"
  using set_drop_first by (fastforce simp: evict_overflow_eq)

lemma evict_all: "dict_ok d \<Longrightarrow> list_all P d \<Longrightarrow> list_all P (evict_overflow cap d)"
  using evict_subset by (fastforce simp: list_all_iff)

lemma set_run_inv [simp]: "registry_inv s \<Longrightarrow> registry_inv (set_run r s)"
  by (simp add: registry_inv_def set_run_def evict_all put_last_all)

lemma upsert_run_inv [simp]: "registry_inv s \<Longrightarrow> registry_inv (upsert_run_sync r s)"
  by (simp add: registry_inv_def upsert_run_sync_def put_last_all)

lemma increment_spawn_inv [simp]: "registry_inv s \<Longrightarrow> registry_inv (snd (increment_spawn_count k s))"
  by (simp add: registry_inv_def increment_spawn_count_def Let_def)

text \<open>A live run is never evicted; whatever is still there is as it was.\<close>

lemma evict_get_live:
  assumes "dict_ok d" and "dict_get d k = Some r" and "\<not> is_terminal r"
  shows "dict_get (evict_overflow cap d) k = Some r"
proof -
  let ?P = "is_terminal \<circ> snd"
  have "(k, r) \<in> set (filter (\<lambda>x. \<not> ?P x) d)"
    using assms(2,3) by (simp add: map_of_SomeD)
  then have "(k, r) \<in> set (filter (\<lambda>x. \<not> ?P x) (evict_overflow cap d))"
    by (simp only: evict_overflow_eq [OF assms(1)] filter_drop_first)
  with assms(1) show ?thesis by (simp add: dict_okD)
qed

lemma evict_get_Some:
  "dict_ok d \<Longrightarrow> dict_get (evict_overflow cap d) k = Some r \<Longrightarrow> dict_get d k = Some r"
  using evict_subset by (meson dict_okD map_of_SomeD subsetD)

lemma set_run_get_live:
  "registry_inv s \<Longrightarrow> \<not> is_terminal r \<Longrightarrow> mem_get (r_run_id r) (set_run r s) = Some r"
  by (auto simp: mem_get_def set_run_def registry_inv_def intro!: evict_get_live)

lemma set_run_get_other:
  "registry_inv s \<Longrightarrow> mem_get i s = Some q \<Longrightarrow> i \<noteq> r_run_id r \<Longrightarrow> \<not> is_terminal q \<Longrightarrow>
     mem_get i (set_run r s) = Some q"
  by (auto simp: mem_get_def set_run_def registry_inv_def intro!: evict_get_live)

subsection \<open>The breadth-first collection finds exactly the descendants\<close>

lemma index_fold_get:
  "index_get (fold (\<lambda>r ix. dict_set (r_requester_session_key r)
      ((case dict_get ix (r_requester_session_key r) of None \<Rightarrow> [] | Some l \<Rightarrow> l) @ [r]) ix) rs ix) k
   = index_get ix k @ filter (\<lambda>r. r_requester_session_key r = k) rs"
  by (induction rs arbitrary: ix) (auto simp: index_get_def split: option.splits)

lemma index_get_build: "index_get (build_read_index rs) k = filter (\<lambda>r. r_requester_session_key r = k) rs"
  by (simp add: build_read_index_def index_fold_get) (simp add: index_get_def)

text \<open>The spawn edges: from the session that requested a run to the session the run is.\<close>

definition spawn_edges :: "run list \<Rightarrow> (text_id \<times> text_id) set" where
  "spawn_edges rs = {(r_requester_session_key r, r_child_session_key r) | r. r \<in> set rs}"

inductive path_avoid :: "run list \<Rightarrow> text_id set \<Rightarrow> text_id \<Rightarrow> text_id \<Rightarrow> bool"
  for rs A where
  avoid_refl: "a \<notin> A \<Longrightarrow> path_avoid rs A a a"
| avoid_step: "path_avoid rs A a b \<Longrightarrow> (b, c) \<in> spawn_edges rs \<Longrightarrow> c \<notin> A \<Longrightarrow> path_avoid rs A a c"

lemma path_avoid_end: "path_avoid rs A a b \<Longrightarrow> b \<notin> A"
  by (induction rule: path_avoid.induct) auto

lemma path_avoid_start: "path_avoid rs A a b \<Longrightarrow> a \<notin> A"
  by (induction rule: path_avoid.induct) auto

text \<open>A path that may pass through \<open>k\<close> avoids it, or leaves it a last time.\<close>

lemma path_avoid_split:
  "path_avoid rs A a b \<Longrightarrow> b = k \<or> path_avoid rs (insert k A) a b \<or>
     (\<exists>c. (k, c) \<in> spawn_edges rs \<and> path_avoid rs (insert k A) c b)"
proof (induction rule: path_avoid.induct)
  case (avoid_refl a)
  then show ?case by (auto intro: path_avoid.avoid_refl)
next
  case (avoid_step a b c)
  show ?case
  proof (cases "c = k")
    case False
    with avoid_step have c: "c \<notin> insert k A" by simp
    from avoid_step.IH show ?thesis
    proof (elim disjE exE conjE)
      assume "b = k"
      with avoid_step.hyps c show ?thesis by (blast intro: path_avoid.avoid_refl)
    next
      assume "path_avoid rs (insert k A) a b"
      with avoid_step.hyps c show ?thesis by (blast intro: path_avoid.avoid_step)
    next
      fix d
      assume "(k, d) \<in> spawn_edges rs" "path_avoid rs (insert k A) d b"
      with avoid_step.hyps c show ?thesis by (blast intro: path_avoid.avoid_step)
    qed
  qed simp
qed

lemma bfs_sound:
  "r \<in> set (bfs (build_read_index rs) q v) \<Longrightarrow>
     r \<in> set rs \<and> (\<exists>k \<in> set q. (k, r_requester_session_key r) \<in> (spawn_edges rs)\<^sup>*)"
proof (induction "build_read_index rs" q v rule: bfs.induct)
  case step: (2 k q v)
  show ?case
  proof (cases "k \<in> set v")
    case True
    with step show ?thesis by auto
  next
    case False
    let ?cs = "index_get (build_read_index rs) k"
    from False step(3) consider "r \<in> set ?cs"
      | "r \<in> set (bfs (build_read_index rs) (q @ map r_child_session_key ?cs) (k # v))"
      by (auto simp: Let_def)
    then show ?thesis
    proof cases
      case 1
      then show ?thesis by (auto simp: index_get_build)
    next
      case 2
      with step(2) [OF False refl] obtain j where r: "r \<in> set rs"
        and j: "j \<in> set (q @ map r_child_session_key ?cs)" "(j, r_requester_session_key r) \<in> (spawn_edges rs)\<^sup>*"
        by blast
      show ?thesis
      proof (cases "j \<in> set q")
        case True
        with r j show ?thesis by auto
      next
        case False
        with j(1) have "(k, j) \<in> spawn_edges rs"
          by (auto simp: index_get_build spawn_edges_def)
        with r j(2) show ?thesis by (auto intro: converse_rtrancl_into_rtrancl)
      qed
    qed
  qed
qed simp

lemma bfs_complete:
  "r \<in> set rs \<Longrightarrow> k \<in> set q \<Longrightarrow> path_avoid rs (set v) k (r_requester_session_key r) \<Longrightarrow>
     r \<in> set (bfs (build_read_index rs) q v)"
proof (induction "build_read_index rs" q v arbitrary: k rule: bfs.induct)
  case (2 j q v)
  show ?case
  proof (cases "j \<in> set v")
    case True
    with path_avoid_start [OF 2(5)] have "k \<noteq> j" by auto
    with 2(1) [OF True 2(3) _ 2(5)] 2(4) True show ?thesis by simp
  next
    case False
    let ?cs = "index_get (build_read_index rs) j"
    let ?q = "q @ map r_child_session_key ?cs"
    from path_avoid_split [OF 2(5), of j] show ?thesis
    proof (elim disjE exE conjE)
      assume "r_requester_session_key r = j"
      with 2(3) False show ?thesis by (simp add: Let_def index_get_build)
    next
      assume path: "path_avoid rs (insert j (set v)) k (r_requester_session_key r)"
      from path_avoid_start [OF this] 2(4) have "k \<in> set ?q" by auto
      with 2(2) [OF False refl 2(3), of k] path False show ?thesis by (simp add: Let_def)
    next
      fix c
      assume "(j, c) \<in> spawn_edges rs"
        and path: "path_avoid rs (insert j (set v)) c (r_requester_session_key r)"
      then have "c \<in> set ?q" by (auto simp: spawn_edges_def index_get_build)
      with 2(2) [OF False refl 2(3), of c] path False show ?thesis by (simp add: Let_def)
    qed
  qed
qed simp

lemma path_avoid_empty: "(a, b) \<in> (spawn_edges rs)\<^sup>* \<Longrightarrow> path_avoid rs {} a b"
  by (induction rule: rtrancl_induct) (auto intro: path_avoid.intros)

lemma bfs_distinct:
  "distinct rs \<Longrightarrow> distinct (bfs (build_read_index rs) q v) \<and>
     (\<forall>r \<in> set (bfs (build_read_index rs) q v). r_requester_session_key r \<notin> set v)"
proof (induction "build_read_index rs" q v rule: bfs.induct)
  case (2 k q v)
  show ?case
  proof (cases "k \<in> set v")
    case True
    with 2 show ?thesis by simp
  next
    case False
    let ?cs = "filter (\<lambda>r. r_requester_session_key r = k) rs"
    let ?rest = "bfs (build_read_index rs) (q @ map r_child_session_key ?cs) (k # v)"
    have eq: "bfs (build_read_index rs) (k # q) v = ?cs @ ?rest"
      using False by (simp add: Let_def index_get_build)
    have rest: "distinct ?rest" "\<forall>r \<in> set ?rest. r_requester_session_key r \<notin> set (k # v)"
      using 2(2) [OF False refl 2(3)] unfolding index_get_build by blast+
    have cs: "distinct ?cs" "\<forall>r \<in> set ?cs. r_requester_session_key r = k" using 2(3) by simp_all
    have "set ?cs \<inter> set ?rest = {}" using rest(2) cs(2) by (metis disjoint_iff list.set_intros(1))
    then have "distinct (?cs @ ?rest)" using rest(1) cs(1) by (simp only: distinct_append)
    moreover have "r_requester_session_key r \<notin> set v" if "r \<in> set (?cs @ ?rest)" for r
      using that rest(2) cs(2) False by (metis Un_iff list.set_intros(2) set_append)
    ultimately show ?thesis unfolding eq by blast
  qed
qed simp

lemma descendants_iff:
  "r \<in> set (list_descendant_runs k s) \<longleftrightarrow>
     r \<in> set (mem_values s) \<and> (k, r_requester_session_key r) \<in> (spawn_edges (mem_values s))\<^sup>*"
proof
  assume "r \<in> set (list_descendant_runs k s)"
  from bfs_sound [OF this [unfolded list_descendant_runs_def]]
  show "r \<in> set (mem_values s) \<and> (k, r_requester_session_key r) \<in> (spawn_edges (mem_values s))\<^sup>*" by simp
next
  assume r: "r \<in> set (mem_values s) \<and> (k, r_requester_session_key r) \<in> (spawn_edges (mem_values s))\<^sup>*"
  then have "path_avoid (mem_values s) (set []) k (r_requester_session_key r)"
    by (simp add: path_avoid_empty)
  with r show "r \<in> set (list_descendant_runs k s)"
    unfolding list_descendant_runs_def by (intro bfs_complete [of _ _ k]) auto
qed

lemma mem_ids: "registry_inv s \<Longrightarrow> map r_run_id (mem_values s) = map fst (rg_runs s)"
  by (auto simp: registry_inv_def mem_values_def list_all_iff)

lemma mem_values_distinct: "registry_inv s \<Longrightarrow> distinct (mem_values s)"
proof -
  assume "registry_inv s"
  then have "distinct (map r_run_id (mem_values s))"
    using mem_ids by (simp add: registry_inv_def dict_ok_def)
  then show ?thesis by (simp add: distinct_map)
qed

subsection \<open>Generations grow\<close>

lemma gen_fold_ge:
  "m \<le> fold (\<lambda>r m. if r_child_session_key r = k \<and> m < r_generation r then r_generation r else m) rs m"
proof (induction rs arbitrary: m)
  case (Cons r rs)
  show ?case
    using Cons.IH [of m] Cons.IH [of "r_generation r"] by auto
qed simp

lemma gen_fold_max:
  "r \<in> set rs \<Longrightarrow> r_child_session_key r = k \<Longrightarrow>
   r_generation r \<le> fold (\<lambda>r m. if r_child_session_key r = k \<and> m < r_generation r then r_generation r else m) rs m"
proof (induction rs arbitrary: m)
  case (Cons q rs)
  show ?case
  proof (cases "r = q")
    case True
    with Cons.prems(2) show ?thesis
      using gen_fold_ge [of "r_generation q" k rs] gen_fold_ge [of m k rs] by auto
  next
    case False
    with Cons.prems Cons.IH show ?thesis by simp
  qed
qed simp

lemma next_generation_fresh:
  "r \<in> set (mem_values s) \<Longrightarrow> r_child_session_key r = k \<Longrightarrow> r_generation r < next_generation k s"
  unfolding next_generation_def using gen_fold_max [of r "mem_values s" k 0] by simp

text \<open>\<^const>\<open>latest_run\<close> is a run of the highest generation.\<close>

lemma latest_fold:
  assumes "fold (\<lambda>r best. if r_child_session_key r \<noteq> k then best
            else (case best of None \<Rightarrow> Some r
                  | Some b \<Rightarrow> if r_generation b < r_generation r then Some r else Some b)) rs best = Some x"
  shows "(best = Some x \<or> (x \<in> set rs \<and> r_child_session_key x = k)) \<and>
    (\<forall>b. best = Some b \<longrightarrow> r_generation b \<le> r_generation x) \<and>
    (\<forall>r \<in> set rs. r_child_session_key r = k \<longrightarrow> r_generation r \<le> r_generation x)"
  using assms
proof (induction rs arbitrary: best)
  case (Cons r rs)
  show ?case
  proof (cases "r_child_session_key r = k")
    case False
    with Cons.prems Cons.IH [of best] show ?thesis by auto
  next
    case True
    let ?b = "case best of None \<Rightarrow> Some r
                  | Some b \<Rightarrow> if r_generation b < r_generation r then Some r else Some b"
    from True Cons.prems Cons.IH [of ?b] have IH:
      "(?b = Some x \<or> (x \<in> set rs \<and> r_child_session_key x = k)) \<and>
       (\<forall>b. ?b = Some b \<longrightarrow> r_generation b \<le> r_generation x) \<and>
       (\<forall>r \<in> set rs. r_child_session_key r = k \<longrightarrow> r_generation r \<le> r_generation x)" by simp
    then show ?thesis
      using True by (cases best) (auto split: if_splits)
  qed
qed auto

lemma latest_run_max:
  "latest_run k s = Some x \<Longrightarrow> x \<in> set (mem_values s) \<and> r_child_session_key x = k \<and>
     (\<forall>r \<in> set (mem_values s). r_child_session_key r = k \<longrightarrow> r_generation r \<le> r_generation x)"
  unfolding latest_run_def by (drule latest_fold) auto

text \<open>The tracker's two tests are each other's negation.\<close>

lemma tracker_dichotomy: "is_older_equivalent i g t \<longleftrightarrow> \<not> is_callback_current i g t"
  by (auto simp: is_older_equivalent_def is_callback_current_def split: option.splits)

lemma tracker_retired: "is_callback_current i g (retire_generation i t)"
  by (simp add: is_callback_current_def retire_generation_def)

subsection \<open>Properties\<close>

definition demo_run :: "text_id \<Rightarrow> text_id \<Rightarrow> text_id \<Rightarrow> execution_status \<Rightarrow> run" where
  "demo_run i requester child st =
    \<lparr>r_run_id = i, r_task_run_id = None, r_child_session_key = child,
     r_requester_session_key = requester, r_task = [], r_task_name = None, r_cleanup = CL_DELETE,
     r_agent_id = ''main'', r_thinking = None, r_max_output_tokens = None, r_depth = 1,
     r_role = R_LEAF, r_control_scope = S_NONE, r_functional_role = F_GENERAL, r_generation = 1,
     r_controller_session_key = None, r_completion_owner_session_key = None,
     r_expects_completion_message = True, r_ended_reason = Some ''complete'', r_pause_reason = None,
     r_wake_on_descendant_settle = False, r_archive_at = None, r_cleanup_completed_at = None,
     r_accumulated_runtime_ms = 0, r_ended_hook_emitted = False, r_kill_reconciliation = None,
     r_suppress_announce_reason = None, r_terminal_owner = None, r_aborted_last_run = False,
     r_recovery_attempts_persisted = 0, r_step_id = None, r_flow_id = None,
     r_swarm_group_id = None, r_swarm_run_state = None, r_launch_fingerprint = None,
     r_output_schema = None, r_suppress_completion_delivery = False,
     r_retain_attachments_on_keep = False,
     r_execution = (new_execution_state st)\<lparr>ex_ended_at := Some 1\<rparr>,
     r_completion = new_completion_state True,
     r_delivery = new_delivery_state DL_PENDING,
     r_attachments_dir = None, r_attachments_root_dir = None, r_inherited_tool_allow = [],
     r_inherited_tool_deny = [], r_inherited_tool_policy_version = 1, r_scopes = [],
     r_spawned_by = None, r_spawned_cwd = None, r_label = None\<rparr>"

text \<open>The eviction loop drops exactly the oldest terminal runs, as many as the store is over
  its cap, keeps every live run and keeps the order of what remains.\<close>

theorem eviction_drops_oldest_terminal:
  assumes "dict_ok d"
  shows "evict_overflow cap d = drop_first (length d - cap) (is_terminal \<circ> snd) d"
  by (rule evict_overflow_eq [OF assms])

theorem eviction_drops_oldest_terminal_witness:
  "map fst (evict_overflow 1 [(''a'', demo_run ''a'' ''m'' ''x'' EX_RUNNING), (''b'', demo_run ''b'' ''m'' ''y'' EX_TERMINAL)])
   = [''a'']"
proof -
  let ?d = "[(''a'', demo_run ''a'' ''m'' ''x'' EX_RUNNING), (''b'', demo_run ''b'' ''m'' ''y'' EX_TERMINAL)]"
  have "dict_ok ?d" by (simp add: dict_ok_def)
  moreover have "map fst (drop_first (length ?d - 1) (is_terminal \<circ> snd) ?d) = [''a'']" by code_simp
  ultimately show ?thesis using eviction_drops_oldest_terminal [of ?d 1] by simp
qed

text \<open>The breadth-first collection of a session's descendants, over any spawn graph, cyclic
  or not, lists every run whose requester is reachable from the session through spawn edges,
  nothing else, and each once.\<close>

theorem descendants_exact:
  assumes "registry_inv s"
  shows "distinct (list_descendant_runs k s) \<and>
    set (list_descendant_runs k s) =
      {r \<in> set (mem_values s). (k, r_requester_session_key r) \<in> (spawn_edges (mem_values s))\<^sup>*}"
  using bfs_distinct [OF mem_values_distinct [OF assms], of "[k]" "[]"] descendants_iff [of _ k s]
  by (auto simp: list_descendant_runs_def)

definition demo_tree :: registry where
  "demo_tree = fold set_run
     [demo_run ''1'' ''m'' ''x'' EX_RUNNING, demo_run ''2'' ''x'' ''y'' EX_RUNNING,
      demo_run ''3'' ''z'' ''w'' EX_RUNNING, demo_run ''4'' ''y'' ''m'' EX_RUNNING] (empty_registry 9)"

theorem descendants_exact_witness:
  "map r_run_id (list_descendant_runs ''m'' demo_tree) = [''1'', ''2'', ''4''] \<and>
   distinct (list_descendant_runs ''m'' demo_tree)"
proof -
  have "registry_inv demo_tree" by (simp add: demo_tree_def)
  moreover have "map r_run_id (list_descendant_runs ''m'' demo_tree) = [''1'', ''2'', ''4'']"
    by code_simp
  ultimately show ?thesis using descendants_exact by blast
qed

end
