(* ===== verification/Delivery.thy ===== *)
theory Delivery
  imports Registry
begin

section \<open>Completion delivery: its state machine, expiry and pruning\<close>

text \<open>
  Models, under \<^verbatim>\<open>src/agent/tools/subagent/registry/\<close>: \<^verbatim>\<open>delivery_state.py\<close>,
  \<^verbatim>\<open>completion.py\<close> (outcome arbitration), \<^verbatim>\<open>helpers.py\<close> (staleness, result cap, retry delay),
  \<^verbatim>\<open>reconciliation.py\<close>, \<^verbatim>\<open>cleanup.py\<close>, and the two passes of the sweeper that discard suspended
  deliveries: \<^verbatim>\<open>pressure_prune_suspended_deliveries\<close> of \<^verbatim>\<open>lifecycle.py\<close> and
  \<^verbatim>\<open>_expire_suspended_by_requester_type\<close> of \<^verbatim>\<open>sweeper.py\<close>. \<^verbatim>\<open>now\<close> is \<^verbatim>\<open>time.monotonic()\<close>.
\<close>

subsection \<open>Transitions of the delivery state\<close>

definition is_delivery_pending :: "run \<Rightarrow> bool" where
  "is_delivery_pending r = (dl_status (r_delivery r) = DL_PENDING)"

definition is_delivery_delivered :: "run \<Rightarrow> bool" where
  "is_delivery_delivered r = (dl_status (r_delivery r) = DL_DELIVERED)"

definition is_delivery_failed :: "run \<Rightarrow> bool" where
  "is_delivery_failed r = (dl_status (r_delivery r) = DL_FAILED)"

definition is_delivery_suspended :: "run \<Rightarrow> bool" where
  "is_delivery_suspended r = (dl_status (r_delivery r) = DL_SUSPENDED)"

definition is_delivery_terminal :: "run \<Rightarrow> bool" where
  "is_delivery_terminal r = (dl_status (r_delivery r) \<in> {DL_DELIVERED, DL_DISCARDED})"

definition mark_delivery_pending :: "run \<Rightarrow> run" where
  "mark_delivery_pending r = r\<lparr>r_delivery := (r_delivery r)\<lparr>dl_status := DL_PENDING\<rparr>\<rparr>"

definition mark_delivery_in_progress :: "time \<Rightarrow> run \<Rightarrow> run" where
  "mark_delivery_in_progress now r =
    r\<lparr>r_delivery := (r_delivery r)\<lparr>dl_status := DL_IN_PROGRESS, dl_last_attempt_at := Some now\<rparr>\<rparr>"

definition mark_delivery_delivered :: "time \<Rightarrow> run \<Rightarrow> run" where
  "mark_delivery_delivered now r =
    r\<lparr>r_delivery := (r_delivery r)\<lparr>dl_status := DL_DELIVERED, dl_delivered_at := Some now,
                                  dl_announced_at := Some now\<rparr>\<rparr>"

definition mark_delivery_failed :: "time \<Rightarrow> string \<Rightarrow> run \<Rightarrow> run" where
  "mark_delivery_failed now err r =
    r\<lparr>r_delivery := (r_delivery r)\<lparr>dl_status := DL_FAILED, dl_last_error := Some err,
                                  dl_attempt_count := dl_attempt_count (r_delivery r) + 1,
                                  dl_last_attempt_at := Some now\<rparr>\<rparr>"

definition mark_delivery_suspended :: "time \<Rightarrow> run \<Rightarrow> run" where
  "mark_delivery_suspended now r =
    r\<lparr>r_delivery := (r_delivery r)\<lparr>dl_status := DL_SUSPENDED, dl_suspended_at := Some now\<rparr>\<rparr>"

definition mark_delivery_discarded :: "string \<Rightarrow> run \<Rightarrow> run" where
  "mark_delivery_discarded reason r =
    r\<lparr>r_delivery := (r_delivery r)\<lparr>dl_status := DL_DISCARDED, dl_discard_reason := Some reason\<rparr>\<rparr>"

definition should_retry_delivery :: "nat \<Rightarrow> run \<Rightarrow> bool" where
  "should_retry_delivery max_attempts r =
    (dl_status (r_delivery r) \<in> {DL_FAILED, DL_SUSPENDED} \<and> dl_attempt_count (r_delivery r) < max_attempts)"

text \<open>\<^verbatim>\<open>now = now or time.monotonic()\<close>: an absent or zero argument reads the clock.\<close>

definition now_or_clock :: "time option \<Rightarrow> time \<Rightarrow> time" where
  "now_or_clock now clock = (case or_time now (Some clock) of Some t \<Rightarrow> t | None \<Rightarrow> clock)"

definition is_delivery_expired :: "rat \<Rightarrow> time option \<Rightarrow> time \<Rightarrow> run \<Rightarrow> bool" where
  "is_delivery_expired expiry_ms now clock r =
    (case dl_last_attempt_at (r_delivery r) of
       None \<Rightarrow> False
     | Some t \<Rightarrow> expiry_ms < (now_or_clock now clock - t) * 1000)"

definition should_discard_delivery :: "nat \<Rightarrow> rat \<Rightarrow> time option \<Rightarrow> time \<Rightarrow> run \<Rightarrow> bool" where
  "should_discard_delivery max_retries hard_expiry_ms now clock r =
    (max_retries \<le> dl_attempt_count (r_delivery r) \<or>
     (case ex_ended_at (r_execution r) of
        None \<Rightarrow> False
      | Some t \<Rightarrow> hard_expiry_ms < (now_or_clock now clock - t) * 1000))"

subsection \<open>Outcomes\<close>

definition should_update_run_outcome :: "run_outcome option \<Rightarrow> run_outcome \<Rightarrow> bool" where
  "should_update_run_outcome current new =
    (case current of
       None \<Rightarrow> True
     | Some c \<Rightarrow>
         if oc_status c = OC_UNKNOWN \<and> oc_status new \<noteq> OC_UNKNOWN then True
         else if oc_status c = OC_OK \<and> oc_status new \<in> {OC_ERROR, OC_TIMEOUT} then True
         else False)"

record finalized_task_state =
  fs_ended_reason :: ended_reason
  fs_terminal_state :: string
  fs_progress_summary :: "string option"
  fs_terminal_summary :: string

definition or_else :: "string option \<Rightarrow> string \<Rightarrow> string" where
  "or_else a b = (case or_text a None of Some s \<Rightarrow> s | None \<Rightarrow> b)"

definition resolve_finalized_task_state :: "run \<Rightarrow> finalized_task_state" where
  "resolve_finalized_task_state r =
    (case ex_outcome (r_execution r) of
       None \<Rightarrow>
         \<lparr>fs_ended_reason = ER_ORPHANED, fs_terminal_state = ''failed'', fs_progress_summary = None,
          fs_terminal_summary = or_else (cp_result_text (r_completion r)) ''no outcome recorded''\<rparr>
     | Some oc \<Rightarrow>
         \<lparr>fs_ended_reason = outcome_to_ended_reason (oc_status oc),
          fs_terminal_state =
            (case oc_status oc of OC_OK \<Rightarrow> ''succeeded'' | OC_ERROR \<Rightarrow> ''failed''
             | OC_TIMEOUT \<Rightarrow> ''timed_out'' | OC_KILLED \<Rightarrow> ''cancelled'' | OC_UNKNOWN \<Rightarrow> ''failed''),
          fs_progress_summary =
            (if truthy_text (cp_result_text (r_completion r))
             then map_option (take 200) (cp_result_text (r_completion r)) else None),
          fs_terminal_summary =
            or_else (cp_result_text (r_completion r)) (or_else (oc_error oc) ''no result'')\<rparr>)"

definition resolve_lifecycle_outcome :: "run \<Rightarrow> outcome_status" where
  "resolve_lifecycle_outcome r =
    (case ex_outcome (r_execution r) of Some oc \<Rightarrow> oc_status oc | None \<Rightarrow> OC_UNKNOWN)"

subsection \<open>Helpers\<close>

text \<open>
  UTF-8: a code point from 128 takes two bytes. A cut between them leaves a lead byte that
  \<^verbatim>\<open>errors="replace"\<close> turns into U+FFFD; that code point lies outside the model's characters, so
  the model writes the ASCII substitute character for it.
\<close>

definition utf8_len_char :: "char \<Rightarrow> nat" where
  "utf8_len_char c = (if (of_char c :: nat) < 128 then 1 else 2)"

definition utf8_len :: "string \<Rightarrow> nat" where
  "utf8_len s = sum_list (map utf8_len_char s)"

definition replacement_char :: char where
  "replacement_char = char_of (26 :: nat)"

fun utf8_cut :: "nat \<Rightarrow> string \<Rightarrow> string" where
  "utf8_cut n [] = []"
| "utf8_cut n (c # s) =
    (if n = 0 then []
     else if utf8_len_char c \<le> n then c # utf8_cut (n - utf8_len_char c) s
     else [replacement_char])"

definition cap_frozen_result_text :: "nat \<Rightarrow> string option \<Rightarrow> string option" where
  "cap_frozen_result_text max_bytes text =
    (case text of
       None \<Rightarrow> None
     | Some t \<Rightarrow>
         if utf8_len t \<le> max_bytes then Some t
         else Some (utf8_cut max_bytes t @
                [char_of (10 :: nat)] @ ''... [truncated, '' @ show_nat (utf8_len t) @ '' bytes total]''))"

definition resolve_announce_retry_delay_ms :: "nat \<Rightarrow> nat \<Rightarrow> nat" where
  "resolve_announce_retry_delay_ms attempt base_ms = min (base_ms * 2 ^ attempt) 8000"

definition is_stale_unended_run :: "subagent_config \<Rightarrow> time \<Rightarrow> run \<Rightarrow> bool" where
  "is_stale_unended_run cfg now r =
    (is_live_unended_run r \<and>
     (case ex_started_at (r_execution r) of
        None \<Rightarrow> False | Some t \<Rightarrow> cf_stale_unended_threshold cfg < now - t))"

definition should_keep_child_link :: "rat \<Rightarrow> time \<Rightarrow> registry \<Rightarrow> run \<Rightarrow> bool" where
  "should_keep_child_link window now s r =
    (is_live_unended_run r \<or> 0 < count_active_descendant_runs (r_child_session_key r) s \<or>
     (case ex_ended_at (r_execution r) of None \<Rightarrow> False | Some t \<Rightarrow> now - t < window))"

definition accumulated_runtime :: "time \<Rightarrow> run \<Rightarrow> rat" where
  "accumulated_runtime now r =
    (if truthy_time (ex_started_at (r_execution r)) \<and> ex_status (r_execution r) = EX_RUNNING
     then r_accumulated_runtime_ms r + (now - the (ex_started_at (r_execution r))) * 1000
     else r_accumulated_runtime_ms r)"

definition reconcile_orphaned_run :: "subagent_config \<Rightarrow> time \<Rightarrow> run \<Rightarrow> run option" where
  "reconcile_orphaned_run cfg now r =
    (if \<not> is_live_unended_run r then None
     else
       case ex_started_at (r_execution r) of
         None \<Rightarrow> None
       | Some t \<Rightarrow>
           if now - t < 3600 \<and> \<not> is_stale_unended_run cfg now r then None
           else Some (r\<lparr>r_execution :=
                  \<lparr>ex_status = EX_TERMINAL, ex_started_at = Some t, ex_ended_at = Some now,
                   ex_outcome = Some \<lparr>oc_status = OC_TIMEOUT, oc_error = Some ''orphaned''\<rparr>,
                   ex_transcript_target = None\<rparr>,
                r_accumulated_runtime_ms := accumulated_runtime now r,
                r_ended_reason := Some ''orphaned''\<rparr>))"

subsection \<open>Reconciliation with the session's state\<close>

record session_completion =
  sc_started_at :: "time option"
  sc_ended_at :: time
  sc_outcome :: run_outcome
  sc_reason :: string

definition resolve_run_orphan_reason :: "time \<Rightarrow> bool option \<Rightarrow> run \<Rightarrow> string option" where
  "resolve_run_orphan_reason now session_exists r =
    (if ex_status (r_execution r) \<noteq> EX_RUNNING then None
     else if session_exists = Some False then Some ''session_missing_while_running''
     else
       case ex_started_at (r_execution r) of
         None \<Rightarrow> Some ''no_started_at''
       | Some t \<Rightarrow>
           if 3600 < now - t
           then Some (''running_too_long ('' @ show_int (py_round (now - t)) @ ''s)'')
           else None)"

definition resolve_completion_from_session :: "time \<Rightarrow> bool \<Rightarrow> run \<Rightarrow> session_completion option" where
  "resolve_completion_from_session now session_exists r =
    (if session_exists then None
     else if ex_status (r_execution r) \<noteq> EX_RUNNING then None
     else Some \<lparr>sc_started_at = None, sc_ended_at = now,
        sc_outcome = \<lparr>oc_status = OC_ERROR, oc_error = Some ''session_missing_while_running''\<rparr>,
        sc_reason = ''error''\<rparr>)"

definition resolve_completion_from_session_entry ::
    "string option \<Rightarrow> time option \<Rightarrow> time option \<Rightarrow> time \<Rightarrow> session_completion option" where
  "resolve_completion_from_session_entry status ended updated fallback =
    (let t_end = (case or_time ended (or_time updated (Some fallback)) of Some t \<Rightarrow> t | None \<Rightarrow> fallback);
         done_with = (\<lambda>oc err reason. Some \<lparr>sc_started_at = None, sc_ended_at = t_end,
            sc_outcome = \<lparr>oc_status = oc, oc_error = err\<rparr>, sc_reason = reason\<rparr>)
     in if status = Some ''done'' then done_with OC_OK None ''complete''
        else if status = Some ''timeout'' then done_with OC_TIMEOUT None ''complete''
        else if status = Some ''failed''
        then done_with OC_ERROR (Some ''session completed before registry settled'') ''error''
        else if status = Some ''killed''
        then done_with OC_KILLED (Some ''subagent run terminated'') ''killed''
        else None)"

subsection \<open>Cleanup decisions\<close>

fun delivery_status_value :: "delivery_status \<Rightarrow> string" where
  "delivery_status_value DL_NOT_REQUIRED = ''not_required''"
| "delivery_status_value DL_PENDING = ''pending''"
| "delivery_status_value DL_IN_PROGRESS = ''in_progress''"
| "delivery_status_value DL_DELIVERED = ''delivered''"
| "delivery_status_value DL_FAILED = ''failed''"
| "delivery_status_value DL_SUSPENDED = ''suspended''"
| "delivery_status_value DL_DISCARDED = ''discarded''"

definition resolve_cleanup_completion_reason :: "run \<Rightarrow> string option" where
  "resolve_cleanup_completion_reason r =
    (case dl_status (r_delivery r) of
       DL_DELIVERED \<Rightarrow> Some ''delivered''
     | DL_DISCARDED \<Rightarrow> Some ''discarded''
     | DL_NOT_REQUIRED \<Rightarrow> Some ''not_required''
     | _ \<Rightarrow> None)"

definition resolve_deferred_cleanup_decision ::
    "subagent_config \<Rightarrow> time \<Rightarrow> registry \<Rightarrow> run \<Rightarrow> bool \<times> string" where
  "resolve_deferred_cleanup_decision cfg now s r =
    (if r_cleanup r = CL_KEEP then (False, ''cleanup=keep'')
     else
       case resolve_cleanup_completion_reason r of
         Some reason \<Rightarrow> (True, reason)
       | None \<Rightarrow>
           if 0 < count_active_descendant_runs (r_child_session_key r) s
           then (False, ''defer_descendants'')
           else if cf_max_announce_retry_count cfg \<le> dl_attempt_count (r_delivery r)
                   \<and> dl_status (r_delivery r) \<in> {DL_FAILED, DL_SUSPENDED}
           then (True, ''give_up_max_retries'')
           else if (case ex_ended_at (r_execution r) of
                      None \<Rightarrow> False
                    | Some t \<Rightarrow> cf_announce_hard_expiry_ms cfg < (now - t) * 1000)
           then (True, ''give_up_hard_expiry'')
           else (False, ''delivery_status='' @ delivery_status_value (dl_status (r_delivery r))))"

definition should_cleanup_run :: "subagent_config \<Rightarrow> time \<Rightarrow> registry \<Rightarrow> run \<Rightarrow> bool" where
  "should_cleanup_run cfg now s r =
    (r_cleanup_completed_at r = None \<and> ex_status (r_execution r) = EX_TERMINAL \<and>
     fst (resolve_deferred_cleanup_decision cfg now s r))"

subsection \<open>Discarding suspended deliveries\<close>

definition suspended_runs :: "registry \<Rightarrow> run list" where
  "suspended_runs s = filter (\<lambda>r. is_terminal r \<and> is_delivery_suspended r) (mem_values s)"

definition prune_target :: "subagent_config \<Rightarrow> nat \<Rightarrow> nat" where
  "prune_target cfg n = max (cf_suspend_target cfg) (n - cf_suspend_soft_cap cfg)"

definition suspended_since :: "run \<Rightarrow> time" where
  "suspended_since r = (case or_time (dl_suspended_at (r_delivery r)) (Some 0) of Some t \<Rightarrow> t | None \<Rightarrow> 0)"

definition pressure_prune :: "subagent_config \<Rightarrow> registry \<Rightarrow> nat \<times> registry" where
  "pressure_prune cfg s =
    (let suspended = suspended_runs s; n = length suspended
     in if n \<le> cf_suspend_soft_cap cfg then (0, s)
        else
          (let to_prune = n - prune_target cfg n;
               victims = take to_prune (sort_key suspended_since suspended)
           in (length victims,
               fold (\<lambda>r. set_run (mark_delivery_discarded ''pressure_prune'' r)) victims s)))"

definition requester_type_expiry_ms :: "string \<Rightarrow> rat" where
  "requester_type_expiry_ms key =
    (if has_sub '':cron:'' key then 2 * 3600 * 1000
     else if has_sub '':subagent:'' key then 6 * 3600 * 1000
     else 24 * 3600 * 1000)"

definition suspension_expired :: "time \<Rightarrow> run \<Rightarrow> bool" where
  "suspension_expired now r =
    (is_delivery_suspended r \<and> truthy_time (dl_suspended_at (r_delivery r)) \<and>
     requester_type_expiry_ms (r_requester_session_key r)
       < (now - the (dl_suspended_at (r_delivery r))) * 1000)"

definition expire_suspended :: "time \<Rightarrow> registry \<Rightarrow> nat \<times> registry" where
  "expire_suspended now s =
    (let victims = filter (suspension_expired now) (mem_values s)
     in (length victims,
         fold (\<lambda>r. set_run (mark_delivery_discarded ''requester_type_expiry'' r)) victims s))"

subsection \<open>Facts about the transitions\<close>

lemma mark_delivery_frame [simp]:
  "r_run_id (mark_delivery_pending r) = r_run_id r" "r_execution (mark_delivery_pending r) = r_execution r"
  "r_run_id (mark_delivery_in_progress now r) = r_run_id r"
  "r_execution (mark_delivery_in_progress now r) = r_execution r"
  "r_run_id (mark_delivery_delivered now r) = r_run_id r"
  "r_execution (mark_delivery_delivered now r) = r_execution r"
  "r_run_id (mark_delivery_failed now err r) = r_run_id r"
  "r_execution (mark_delivery_failed now err r) = r_execution r"
  "r_run_id (mark_delivery_suspended now r) = r_run_id r"
  "r_execution (mark_delivery_suspended now r) = r_execution r"
  "r_run_id (mark_delivery_discarded reason r) = r_run_id r"
  "r_execution (mark_delivery_discarded reason r) = r_execution r"
  by (simp_all add: mark_delivery_pending_def mark_delivery_in_progress_def mark_delivery_delivered_def
      mark_delivery_failed_def mark_delivery_suspended_def mark_delivery_discarded_def)

lemma discarded_not_suspended [simp]: "\<not> is_delivery_suspended (mark_delivery_discarded reason r)"
  by (simp add: is_delivery_suspended_def mark_delivery_discarded_def)

lemma utf8_cut_fits: "utf8_len (utf8_cut n s) \<le> n"
  by (induction n s rule: utf8_cut.induct)
    (auto simp: utf8_len_def utf8_len_char_def replacement_char_def)

lemma retry_delay_bounds: "resolve_announce_retry_delay_ms a b \<le> 8000"
  by (simp add: resolve_announce_retry_delay_ms_def)

lemma retry_delay_mono: "a \<le> b \<Longrightarrow>
    resolve_announce_retry_delay_ms a base \<le> resolve_announce_retry_delay_ms b base"
  unfolding resolve_announce_retry_delay_ms_def
  by (intro min.mono mult_le_mono2 power_increasing) auto

subsection \<open>Counting over the store\<close>

lemma count_dict_pop:
  assumes "dict_ok d" and "dict_get d k = Some v"
  shows "count_where Q d = count_where Q (dict_pop k d) + (if Q (k, v) then 1 else 0)"
  using assms
proof (induction d)
  case (Cons p d)
  obtain j w where p: "p = (j, w)" by (cases p)
  show ?case
  proof (cases "j = k")
    case True
    with Cons.prems p have "k \<notin> fst ` set d" "w = v" by (auto simp: dict_ok_def)
    with p True show ?thesis by (simp add: delete_id)
  next
    case False
    with Cons p show ?thesis by (simp add: dict_ok_def)
  qed
qed simp

lemma count_put_last:
  assumes "dict_ok d" and "dict_get d k = Some w"
  shows "count_where Q (put_last k v d) + (if Q (k, w) then 1 else 0) =
    count_where Q d + (if Q (k, v) then 1 else 0)"
  using count_dict_pop [OF assms, of Q] by (simp add: put_last_def)

lemma length_put_last_old:
  "dict_ok d \<Longrightarrow> dict_get d k = Some w \<Longrightarrow> length (put_last k v d) = length d"
  by (simp add: put_last_def length_dict_pop)

text \<open>Replacing a run that is there never evicts when the store fits its cap.\<close>

lemma set_run_replace:
  assumes "registry_inv s" and "mem_get (r_run_id r) s = Some q" and "mem_size s \<le> rg_cap s"
  shows "rg_runs (set_run r s) = put_last (r_run_id r) r (rg_runs s)"
    and "rg_cap (set_run r s) = rg_cap s"
    and "mem_size (set_run r s) = mem_size s"
  using assms length_put_last_old [of "rg_runs s" "r_run_id r" q r]
  by (simp_all add: set_run_def evict_overflow_def registry_inv_def mem_get_def mem_size_def)

lemma count_values_replace:
  assumes "registry_inv s" and "mem_get (r_run_id r) s = Some q" and "mem_size s \<le> rg_cap s"
    and "P q" and "\<not> P r"
  shows "Suc (count_where P (mem_values (set_run r s))) = count_where P (mem_values s)"
  using count_put_last [of "rg_runs s" "r_run_id r" q "P \<circ> snd" r] assms
  by (simp add: mem_values_def set_run_replace [OF assms(1-3)] registry_inv_def mem_get_def
      count_where_map)

lemma mem_get_replace:
  assumes "registry_inv s" and "mem_get (r_run_id r) s = Some q" and "mem_size s \<le> rg_cap s"
  shows "mem_get i (set_run r s) = (if i = r_run_id r then Some r else mem_get i s)"
  by (simp add: mem_get_def set_run_replace [OF assms])

text \<open>A pass that discards a list of distinct suspended runs discards exactly those.\<close>

lemma discard_fold:
  assumes "registry_inv s" and "mem_size s \<le> rg_cap s" and "distinct (map r_run_id vs)"
    and "\<And>r. r \<in> set vs \<Longrightarrow> mem_get (r_run_id r) s = Some r \<and> P r"
    and "\<And>r. \<not> P (mark_delivery_discarded reason r)"
  shows "count_where P (mem_values (fold (\<lambda>r. set_run (mark_delivery_discarded reason r)) vs s)) + length vs
      = count_where P (mem_values s)"
  using assms(1-4)
proof (induction vs arbitrary: s)
  case (Cons v vs)
  let ?v = "mark_delivery_discarded reason v"
  let ?s = "set_run ?v s"
  have v: "mem_get (r_run_id ?v) s = Some v" "P v" using Cons.prems(4) [of v] by simp_all
  have c: "Suc (count_where P (mem_values ?s)) = count_where P (mem_values s)"
    by (rule count_values_replace [OF Cons.prems(1) v(1) Cons.prems(2) v(2) assms(5)])
  have "mem_get (r_run_id r) ?s = Some r \<and> P r" if "r \<in> set vs" for r
  proof -
    from that have "r_run_id r \<in> r_run_id ` set vs" by simp
    moreover from Cons.prems(3) have "r_run_id v \<notin> r_run_id ` set vs" by simp
    ultimately have "r_run_id r \<noteq> r_run_id ?v" by auto
    with that Cons.prems(4) [of r] show ?thesis
      by (simp add: mem_get_replace [OF Cons.prems(1) v(1) Cons.prems(2)])
  qed
  moreover have "mem_size ?s \<le> rg_cap ?s"
    using Cons.prems(2) by (simp add: set_run_replace [OF Cons.prems(1) v(1) Cons.prems(2)])
  ultimately have "count_where P (mem_values (fold (\<lambda>r. set_run (mark_delivery_discarded reason r)) vs ?s))
      + length vs = count_where P (mem_values ?s)"
    using Cons.prems(1,3) by (intro Cons.IH) simp_all
  with c show ?case by simp
qed simp

lemma mem_get_value: "registry_inv s \<Longrightarrow> r \<in> set (mem_values s) \<Longrightarrow> mem_get (r_run_id r) s = Some r"
  by (auto simp: registry_inv_def mem_values_def mem_get_def list_all_iff dict_okD)

lemma distinct_ids_filter: "registry_inv s \<Longrightarrow> distinct (map r_run_id (filter P (mem_values s)))"
  using mem_ids [of s] by (simp add: registry_inv_def dict_ok_def distinct_map_filter)

lemma pressure_prune_count:
  assumes "registry_inv s" and "mem_size s \<le> rg_cap s" and "cf_suspend_soft_cap cfg < length (suspended_runs s)"
  shows "length (suspended_runs (snd (pressure_prune cfg s))) =
    min (length (suspended_runs s)) (prune_target cfg (length (suspended_runs s)))"
proof -
  let ?P = "\<lambda>r. is_terminal r \<and> is_delivery_suspended r"
  let ?n = "length (suspended_runs s)"
  let ?vs = "take (?n - prune_target cfg ?n) (sort_key suspended_since (suspended_runs s))"
  have count: "length (suspended_runs t) = count_where ?P (mem_values t)" for t
    by (simp add: suspended_runs_def count_where_def)
  have "distinct (map r_run_id (suspended_runs s))"
    unfolding suspended_runs_def by (rule distinct_ids_filter [OF assms(1)])
  then have "distinct (map r_run_id (sort_key suspended_since (suspended_runs s)))"
    by (simp add: distinct_map)
  then have d: "distinct (map r_run_id ?vs)" by (simp add: distinct_take flip: take_map)
  have "mem_get (r_run_id r) s = Some r \<and> ?P r" if "r \<in> set ?vs" for r
  proof -
    from set_take_subset that have "r \<in> set (suspended_runs s)" by fastforce
    with mem_get_value [OF assms(1)] show ?thesis by (simp add: suspended_runs_def)
  qed
  from discard_fold [where P = ?P and reason = "''pressure_prune''", OF assms(1,2) d this]
  have "count_where ?P (mem_values (fold (\<lambda>r. set_run (mark_delivery_discarded ''pressure_prune'' r)) ?vs s))
      + length ?vs = ?n"
    by (simp add: count)
  moreover have "length ?vs = ?n - prune_target cfg ?n" by simp
  ultimately have "count_where ?P (mem_values (snd (pressure_prune cfg s))) + (?n - prune_target cfg ?n) = ?n"
    using assms(3) by (simp add: pressure_prune_def Let_def)
  then show ?thesis unfolding count by linarith
qed

subsection \<open>Properties\<close>

text \<open>When the soft cap of suspended deliveries is exceeded and the store fits its cap, the
  pressure prune leaves exactly \<open>max (target, n - soft cap)\<close> of the \<open>n\<close> suspended deliveries: it
  discards at most soft-cap many per pass, so a backlog above twice the soft cap stays above it.\<close>

theorem pressure_prune_leaves:
  assumes "registry_inv s" and "mem_size s \<le> rg_cap s" and "cf_suspend_soft_cap cfg < length (suspended_runs s)"
  shows "length (suspended_runs (snd (pressure_prune cfg s))) =
    min (length (suspended_runs s)) (max (cf_suspend_target cfg) (length (suspended_runs s) - cf_suspend_soft_cap cfg))"
  using pressure_prune_count [OF assms] by (simp add: prune_target_def)

definition demo_suspended :: "nat \<Rightarrow> run" where
  "demo_suspended n =
    (demo_run (show_nat n) ''main'' ''c'' EX_TERMINAL)\<lparr>r_cleanup := CL_KEEP,
      r_delivery := (new_delivery_state DL_SUSPENDED)\<lparr>dl_suspended_at := Some (of_nat n)\<rparr>\<rparr>"

definition demo_backlog :: registry where
  "demo_backlog = fold (\<lambda>n. set_run (demo_suspended n)) [1, 2, 3, 4, 5] (empty_registry 9)"

definition demo_small_caps :: subagent_config where
  "demo_small_caps = default_config\<lparr>cf_suspend_soft_cap := 2, cf_suspend_target := 1\<rparr>"

lemma demo_backlog_inv: "registry_inv demo_backlog"
  by (simp add: demo_backlog_def)

theorem pressure_prune_leaves_witness:
  "length (suspended_runs (snd (pressure_prune demo_small_caps demo_backlog))) = 3"
proof -
  have "length (suspended_runs demo_backlog) = 5" by code_simp
  moreover have "mem_size demo_backlog \<le> rg_cap demo_backlog" by code_simp
  moreover have "cf_suspend_soft_cap demo_small_caps = 2" "cf_suspend_target demo_small_caps = 1"
    by code_simp+
  ultimately show ?thesis
    using pressure_prune_leaves [OF demo_backlog_inv, of demo_small_caps] by simp
qed

text \<open>A run that the cleanup may remove is terminal, in delete mode and not yet cleaned; either
  its delivery is finished, or no descendant of it is pending or running and its delivery was
  given up after the retries or after the hard expiry.\<close>

theorem cleanup_is_safe:
  assumes "should_cleanup_run cfg now s r"
  shows "is_terminal r \<and> r_cleanup r = CL_DELETE \<and> r_cleanup_completed_at r = None \<and>
    (dl_status (r_delivery r) \<in> {DL_DELIVERED, DL_DISCARDED, DL_NOT_REQUIRED} \<or>
     (\<not> (\<exists>q. q \<in> set (mem_values s) \<and>
         (r_child_session_key r, r_requester_session_key q) \<in> (spawn_edges (mem_values s))\<^sup>* \<and>
         ex_status (r_execution q) \<in> {EX_RUNNING, EX_PENDING}) \<and>
      (cf_max_announce_retry_count cfg \<le> dl_attempt_count (r_delivery r) \<or>
       (\<exists>t. ex_ended_at (r_execution r) = Some t \<and> cf_announce_hard_expiry_ms cfg < (now - t) * 1000))))"
proof -
  have base: "is_terminal r" "r_cleanup_completed_at r = None"
    and d: "fst (resolve_deferred_cleanup_decision cfg now s r)"
    using assms by (simp_all add: should_cleanup_run_def is_terminal_def)
  from d have "r_cleanup r \<noteq> CL_KEEP" by (auto simp: resolve_deferred_cleanup_decision_def)
  then have mode: "r_cleanup r = CL_DELETE" by (cases "r_cleanup r") simp_all
  show ?thesis
  proof (cases "dl_status (r_delivery r) \<in> {DL_DELIVERED, DL_DISCARDED, DL_NOT_REQUIRED}")
    case True
    with base mode show ?thesis by blast
  next
    case False
    then have "resolve_cleanup_completion_reason r = None"
      by (cases "dl_status (r_delivery r)") (simp_all add: resolve_cleanup_completion_reason_def)
    with d mode have none: "count_active_descendant_runs (r_child_session_key r) s = 0"
      and gave_up: "cf_max_announce_retry_count cfg \<le> dl_attempt_count (r_delivery r) \<or>
        (\<exists>t. ex_ended_at (r_execution r) = Some t \<and> cf_announce_hard_expiry_ms cfg < (now - t) * 1000)"
      by (auto simp: resolve_deferred_cleanup_decision_def split: if_splits option.splits)
    from none have "\<not> (\<exists>q. q \<in> set (list_descendant_runs (r_child_session_key r) s) \<and>
        ex_status (r_execution q) \<in> {EX_RUNNING, EX_PENDING})"
      by (auto simp: count_active_descendant_runs_def count_where_0 is_active_status_def)
    with base mode gave_up show ?thesis by (auto simp: descendants_iff)
  qed
qed

theorem cleanup_is_safe_witness:
  "is_terminal ((demo_suspended 1)\<lparr>r_cleanup := CL_DELETE\<rparr>) \<and>
   fst (resolve_deferred_cleanup_decision default_config 90000 demo_backlog
     ((demo_suspended 1)\<lparr>r_cleanup := CL_DELETE\<rparr>))"
proof -
  have "should_cleanup_run default_config 90000 demo_backlog ((demo_suspended 1)\<lparr>r_cleanup := CL_DELETE\<rparr>)"
    by code_simp
  with cleanup_is_safe [OF this] show ?thesis by (simp add: should_cleanup_run_def)
qed

end
