(* ===== verification/Run_Manager.thy ===== *)
theory Run_Manager
  imports Delivery
begin

section \<open>The write layer of the registry, persistence and restart\<close>

text \<open>
  Models \<^verbatim>\<open>registry/run_manager.py\<close> (registration, pause, run, completion, steering, kill
  snapshots), \<^verbatim>\<open>output_caps.py\<close>, the full-sync save of \<^verbatim>\<open>registry/store_sqlite.py\<close> and the
  restore of \<^verbatim>\<open>registry/state.py\<close>, all under \<^verbatim>\<open>src/agent/tools/subagent/\<close>. An operation that
  the code returns \<^verbatim>\<open>None\<close> from leaves the registry unchanged. The fresh run id and the clock
  reading are arguments.
\<close>

subsection \<open>Result caps\<close>

record output_caps =
  oc_stored_bytes :: nat
  oc_delivery_chars :: nat
  oc_summary_chars :: nat
  oc_judge_chars :: nat
  oc_transcript_tokens :: nat
  oc_per_message_tokens :: nat

definition LEGACY_OUTPUT_WINDOW :: nat where
  "LEGACY_OUTPUT_WINDOW = 8000"

definition scaled_cap :: "nat option \<Rightarrow> nat \<Rightarrow> nat" where
  "scaled_cap max_tokens legacy =
    (case max_tokens of
       None \<Rightarrow> legacy
     | Some m \<Rightarrow>
         if m = 0 then legacy
         else max 1 (nat (py_round (of_nat (legacy * m) / of_nat LEGACY_OUTPUT_WINDOW))))"

definition resolve_subagent_output_caps :: "nat option \<Rightarrow> output_caps" where
  "resolve_subagent_output_caps m =
    \<lparr>oc_stored_bytes = scaled_cap m 24000, oc_delivery_chars = scaled_cap m 4000,
     oc_summary_chars = scaled_cap m 2000, oc_judge_chars = scaled_cap m 8000,
     oc_transcript_tokens = scaled_cap m 4000, oc_per_message_tokens = scaled_cap m 500\<rparr>"

subsection \<open>Registration\<close>

text \<open>The keyword arguments of \<^verbatim>\<open>register_run\<close>.\<close>

record run_request =
  q_child :: text_id
  q_requester :: text_id
  q_task :: string
  q_task_name :: "string option"
  q_cleanup :: cleanup_mode
  q_agent_id :: string
  q_thinking :: "string option"
  q_max_output_tokens :: "nat option"
  q_depth :: nat
  q_label :: "string option"
  q_functional_role :: functional_role
  q_tool_allow :: "string list option"
  q_tool_deny :: "string list option"
  q_scopes :: "string list option"
  q_output_schema :: "json option"
  q_step_id :: "text_id option"
  q_flow_id :: "text_id option"
  q_attachments_dir :: "string option"
  q_attachments_root_dir :: "string option"
  q_controller :: "text_id option"
  q_completion_owner :: "text_id option"
  q_spawned_by :: "text_id option"
  q_spawned_cwd :: "string option"
  q_expects_completion :: bool
  q_wake_on_settle :: bool

definition default_request :: "text_id \<Rightarrow> text_id \<Rightarrow> string \<Rightarrow> run_request" where
  "default_request child requester task =
    \<lparr>q_child = child, q_requester = requester, q_task = task, q_task_name = None,
     q_cleanup = CL_DELETE, q_agent_id = ''main'', q_thinking = None, q_max_output_tokens = None,
     q_depth = 1, q_label = None, q_functional_role = F_GENERAL, q_tool_allow = None,
     q_tool_deny = None, q_scopes = None, q_output_schema = None, q_step_id = None,
     q_flow_id = None, q_attachments_dir = None, q_attachments_root_dir = None,
     q_controller = None, q_completion_owner = None, q_spawned_by = None, q_spawned_cwd = None,
     q_expects_completion = True, q_wake_on_settle = False\<rparr>"

definition resolve_role :: "nat \<Rightarrow> nat \<Rightarrow> session_role \<times> control_scope" where
  "resolve_role depth max_depth =
    (if depth = 0 then (R_MAIN, S_CHILDREN)
     else if max_depth \<le> depth then (R_LEAF, S_NONE)
     else (R_ORCHESTRATOR, S_CHILDREN))"

definition new_run :: "subagent_config \<Rightarrow> text_id \<Rightarrow> nat \<Rightarrow> run_request \<Rightarrow> run" where
  "new_run cfg i gen q =
    \<lparr>r_run_id = i, r_task_run_id = Some i, r_child_session_key = q_child q,
     r_requester_session_key = q_requester q, r_task = q_task q, r_task_name = q_task_name q,
     r_cleanup = q_cleanup q, r_agent_id = q_agent_id q, r_thinking = q_thinking q,
     r_max_output_tokens = q_max_output_tokens q, r_depth = q_depth q,
     r_role = fst (resolve_role (q_depth q) (cf_max_spawn_depth cfg)),
     r_control_scope = snd (resolve_role (q_depth q) (cf_max_spawn_depth cfg)),
     r_functional_role = q_functional_role q, r_generation = gen,
     r_controller_session_key = or_text (q_controller q) (Some (q_requester q)),
     r_completion_owner_session_key = q_completion_owner q,
     r_expects_completion_message = q_expects_completion q, r_ended_reason = None,
     r_pause_reason = None, r_wake_on_descendant_settle = q_wake_on_settle q,
     r_archive_at = None, r_cleanup_completed_at = None, r_accumulated_runtime_ms = 0,
     r_ended_hook_emitted = False, r_kill_reconciliation = None,
     r_suppress_announce_reason = None, r_terminal_owner = None, r_aborted_last_run = False,
     r_recovery_attempts_persisted = 0, r_step_id = q_step_id q, r_flow_id = q_flow_id q,
     r_swarm_group_id = None, r_swarm_run_state = None, r_launch_fingerprint = None,
     r_output_schema = q_output_schema q, r_suppress_completion_delivery = False,
     r_retain_attachments_on_keep = False, r_execution = new_execution_state EX_PENDING,
     r_completion = new_completion_state True, r_delivery = new_delivery_state DL_PENDING,
     r_attachments_dir = q_attachments_dir q, r_attachments_root_dir = q_attachments_root_dir q,
     r_inherited_tool_allow = (case q_tool_allow q of None \<Rightarrow> [] | Some l \<Rightarrow> l),
     r_inherited_tool_deny = (case q_tool_deny q of None \<Rightarrow> [] | Some l \<Rightarrow> l),
     r_inherited_tool_policy_version = 1,
     r_scopes = (case q_scopes q of None \<Rightarrow> [] | Some l \<Rightarrow> l),
     r_spawned_by = q_spawned_by q, r_spawned_cwd = q_spawned_cwd q, r_label = q_label q\<rparr>"

text \<open>Count the accepted spawn against the initiator, store the run, mirror it to disk.\<close>

definition register_run ::
    "subagent_config \<Rightarrow> text_id \<Rightarrow> run_request \<Rightarrow> registry \<Rightarrow> run \<times> registry" where
  "register_run cfg i q s =
    (let r = new_run cfg i (next_generation (q_child q) s) q;
         initiator = (case or_text (q_spawned_by q) (Some (q_requester q)) of
                        Some k \<Rightarrow> k | None \<Rightarrow> q_requester q);
         s1 = snd (increment_spawn_count initiator s)
     in (r, upsert_run_sync r (set_run r s1)))"

subsection \<open>Transitions of the execution state\<close>

definition mark_run_paused_after_yield ::
    "time \<Rightarrow> text_id \<Rightarrow> registry \<Rightarrow> run option \<times> registry" where
  "mark_run_paused_after_yield now i s =
    (case mem_get i s of
       None \<Rightarrow> (None, s)
     | Some r \<Rightarrow>
         (let u = r\<lparr>r_execution := (r_execution r)\<lparr>ex_status := EX_INTERRUPTED\<rparr>,
                    r_accumulated_runtime_ms := accumulated_runtime now r,
                    r_pause_reason := Some ''yield'', r_ended_reason := None\<rparr>
          in (Some u, set_run u s)))"

definition mark_run_running :: "time \<Rightarrow> text_id \<Rightarrow> registry \<Rightarrow> run option \<times> registry" where
  "mark_run_running now i s =
    (case mem_get i s of
       None \<Rightarrow> (None, s)
     | Some r \<Rightarrow>
         if ex_status (r_execution r) \<notin> {EX_PENDING, EX_INTERRUPTED} then (Some r, s)
         else
           (let u = r\<lparr>r_execution := (r_execution r)\<lparr>ex_status := EX_RUNNING, ex_started_at := Some now\<rparr>,
                      r_pause_reason := None\<rparr>
            in (Some u, set_run u s)))"

definition complete_record ::
    "subagent_config \<Rightarrow> time \<Rightarrow> run_outcome \<Rightarrow> string option \<Rightarrow> json option \<Rightarrow> run \<Rightarrow> run" where
  "complete_record cfg now oc text handoff r =
    r\<lparr>r_execution := (r_execution r)\<lparr>ex_status := EX_TERMINAL, ex_ended_at := Some now,
                                    ex_outcome := Some oc\<rparr>,
      r_completion := (r_completion r)\<lparr>
         cp_result_text := cap_frozen_result_text
            (oc_stored_bytes (resolve_subagent_output_caps (r_max_output_tokens r))) text,
         cp_handoff := handoff, cp_captured_at := Some now\<rparr>,
      r_accumulated_runtime_ms := accumulated_runtime now r,
      r_ended_reason := Some (ended_reason_value (outcome_to_ended_reason (oc_status oc))),
      r_archive_at := Some (now + of_nat (cf_archive_after_minutes cfg) * 60)\<rparr>"

definition complete_run ::
    "subagent_config \<Rightarrow> time \<Rightarrow> text_id \<Rightarrow> run_outcome \<Rightarrow> string option \<Rightarrow> json option \<Rightarrow> registry
     \<Rightarrow> run option \<times> registry" where
  "complete_run cfg now i oc text handoff s =
    (case mem_get i s of
       None \<Rightarrow> (None, s)
     | Some r \<Rightarrow>
         if ex_status (r_execution r) = EX_TERMINAL then (Some r, s)
         else
           (let u = complete_record cfg now oc text handoff r
            in (Some u, upsert_run_sync u (set_run u s))))"

definition replace_record :: "time \<Rightarrow> string option \<Rightarrow> run \<Rightarrow> run" where
  "replace_record now new_task r =
    r\<lparr>r_generation := r_generation r + 1,
      r_accumulated_runtime_ms := accumulated_runtime now r,
      r_task := (case or_text new_task None of Some t \<Rightarrow> t | None \<Rightarrow> r_task r),
      r_execution := (r_execution r)\<lparr>ex_status := EX_INTERRUPTED, ex_outcome := None, ex_ended_at := None\<rparr>,
      r_completion := (r_completion r)\<lparr>cp_result_text := None, cp_handoff := None, cp_captured_at := None\<rparr>,
      r_delivery := new_delivery_state
         (if cp_required (r_completion r) then DL_PENDING else DL_NOT_REQUIRED),
      r_ended_reason := None, r_pause_reason := Some ''steer'', r_cleanup_completed_at := None,
      r_archive_at := None, r_ended_hook_emitted := False\<rparr>"

definition replace_run_after_steer ::
    "time \<Rightarrow> text_id \<Rightarrow> string option \<Rightarrow> registry \<Rightarrow> run option \<times> registry" where
  "replace_run_after_steer now i new_task s =
    (case mem_get i s of
       None \<Rightarrow> (None, s)
     | Some r \<Rightarrow> (let u = replace_record now new_task r in (Some u, set_run u s)))"

definition update_run :: "text_id \<Rightarrow> (run \<Rightarrow> run) \<Rightarrow> registry \<Rightarrow> run option \<times> registry" where
  "update_run i f s =
    (case mem_get i s of
       None \<Rightarrow> (None, s)
     | Some r \<Rightarrow> (Some (f r), set_run (f r) s))"

definition delete_run_from_sqlite :: "text_id \<Rightarrow> registry \<Rightarrow> registry" where
  "delete_run_from_sqlite i s = s\<lparr>rg_disk := dict_pop i (rg_disk s)\<rparr>"

definition remove_run :: "text_id \<Rightarrow> registry \<Rightarrow> run option \<times> registry" where
  "remove_run i s =
    (let (r, s1) = mem_delete i s
     in (r, if r \<noteq> None then delete_run_from_sqlite i s1 else s1))"

definition save_kill_reconciliation :: "time \<Rightarrow> text_id \<Rightarrow> registry \<Rightarrow> run option \<times> registry" where
  "save_kill_reconciliation now i s =
    update_run i (\<lambda>r. r\<lparr>r_kill_reconciliation :=
      Some \<lparr>kr_snapshot_execution = r_execution r, kr_snapshot_delivery = r_delivery r,
            kr_killed_at = now, kr_reconciled = False\<rparr>\<rparr>) s"

definition clear_kill_reconciliation :: "text_id \<Rightarrow> registry \<Rightarrow> run option \<times> registry" where
  "clear_kill_reconciliation i s = update_run i (\<lambda>r. r\<lparr>r_kill_reconciliation := None\<rparr>) s"

subsection \<open>Persistence and restart\<close>

text \<open>
  \<^verbatim>\<open>save_runs_to_sqlite\<close>: upsert every run of the snapshot, then delete the rows whose id is not
  in it.
\<close>

definition save_runs_to_sqlite :: "(text_id \<times> run) list \<Rightarrow> (text_id \<times> run) list \<Rightarrow> (text_id \<times> run) list" where
  "save_runs_to_sqlite runs disk =
    (let disk1 = fold (\<lambda>(k, r) d. put_last k r d) runs disk
     in if runs = [] then [] else filter (\<lambda>(k, r). k \<in> set (map fst runs)) disk1)"

definition persist_runs_to_disk :: "registry \<Rightarrow> registry" where
  "persist_runs_to_disk s = s\<lparr>rg_disk := save_runs_to_sqlite (rg_runs s) (rg_disk s)\<rparr>"

definition finalize_restored_pending :: "time \<Rightarrow> run \<Rightarrow> run" where
  "finalize_restored_pending now r =
    r\<lparr>r_execution := \<lparr>ex_status = EX_TERMINAL, ex_started_at = None, ex_ended_at = Some now,
         ex_outcome = Some \<lparr>oc_status = OC_TIMEOUT, oc_error = Some ''pending orphaned''\<rparr>,
         ex_transcript_target = None\<rparr>,
      r_ended_reason := Some ''pending_orphaned''\<rparr>"

definition mark_restored_running_terminal :: "time \<Rightarrow> run \<Rightarrow> run" where
  "mark_restored_running_terminal now r =
    r\<lparr>r_execution := \<lparr>ex_status = EX_TERMINAL, ex_started_at = ex_started_at (r_execution r),
         ex_ended_at = Some now,
         ex_outcome = Some \<lparr>oc_status = OC_TIMEOUT,
                           oc_error = Some ''interrupted by a process restart''\<rparr>,
         ex_transcript_target = None\<rparr>,
      r_pause_reason := Some ''process_restart'', r_ended_reason := Some ''process_restarted''\<rparr>"

definition rebase_at :: "time \<Rightarrow> time option \<Rightarrow> time option" where
  "rebase_at now v = (case v of None \<Rightarrow> None | Some _ \<Rightarrow> Some now)"

definition rebase_restored_clock :: "subagent_config \<Rightarrow> time \<Rightarrow> run \<Rightarrow> run" where
  "rebase_restored_clock cfg now r =
    r\<lparr>r_execution := (r_execution r)\<lparr>ex_started_at := rebase_at now (ex_started_at (r_execution r)),
                                    ex_ended_at := rebase_at now (ex_ended_at (r_execution r))\<rparr>,
      r_completion := (r_completion r)\<lparr>cp_captured_at := rebase_at now (cp_captured_at (r_completion r))\<rparr>,
      r_delivery := (r_delivery r)\<lparr>
         dl_last_attempt_at := rebase_at now (dl_last_attempt_at (r_delivery r)),
         dl_suspended_at := rebase_at now (dl_suspended_at (r_delivery r)),
         dl_delivered_at := rebase_at now (dl_delivered_at (r_delivery r)),
         dl_announced_at := rebase_at now (dl_announced_at (r_delivery r))\<rparr>,
      r_kill_reconciliation := map_option (\<lambda>kr. kr\<lparr>kr_killed_at := now\<rparr>) (r_kill_reconciliation r),
      r_archive_at := (case r_archive_at r of
         None \<Rightarrow> None | Some _ \<Rightarrow> Some (now + of_nat (cf_archive_after_minutes cfg) * 60)),
      r_cleanup_completed_at := rebase_at now (r_cleanup_completed_at r)\<rparr>"

definition restore_record :: "subagent_config \<Rightarrow> time \<Rightarrow> run \<Rightarrow> run" where
  "restore_record cfg now r =
    rebase_restored_clock cfg now
      (case ex_status (r_execution r) of
         EX_PENDING \<Rightarrow> finalize_restored_pending now r
       | EX_RUNNING \<Rightarrow> mark_restored_running_terminal now r
       | _ \<Rightarrow> r)"

definition restore_runs_from_disk :: "subagent_config \<Rightarrow> time \<Rightarrow> registry \<Rightarrow> registry" where
  "restore_runs_from_disk cfg now s =
    fold (\<lambda>(k, r) t. if mem_get k t \<noteq> None then t else set_run (restore_record cfg now r) t)
      (rg_disk s) s"

subsection \<open>The full save makes the disk the snapshot\<close>

lemma fold_put_last_get:
  "dict_ok runs \<Longrightarrow> dict_get (fold (\<lambda>(k, r) d. put_last k r d) runs disk) j =
     (case dict_get runs j of None \<Rightarrow> dict_get disk j | Some r \<Rightarrow> Some r)"
proof (induction runs arbitrary: disk)
  case (Cons p runs)
  obtain k r where p: "p = (k, r)" by (cases p)
  from Cons.prems p have "dict_ok runs" and k: "k \<notin> fst ` set runs" by (auto simp: dict_ok_def)
  from k have "dict_get runs k = None" by (simp add: map_of_eq_None_iff)
  then show ?case by (simp add: p Cons.IH [OF \<open>dict_ok runs\<close>] split: option.split)
qed simp

lemma fold_put_last_ok: "dict_ok disk \<Longrightarrow> dict_ok (fold (\<lambda>(k, r) d. put_last k r d) runs disk)"
  by (induction runs arbitrary: disk) (simp_all add: case_prod_beta)

lemma dict_get_filter_keys:
  "dict_get (filter (\<lambda>(k, r). k \<in> A) d) j = (if j \<in> A then dict_get d j else None)"
  by (induction d) auto

lemma save_runs_get:
  assumes "dict_ok runs"
  shows "dict_get (save_runs_to_sqlite runs disk) j = dict_get runs j"
proof (cases "dict_get runs j")
  case None
  then have "j \<notin> set (map fst runs)" by (simp add: map_of_eq_None_iff)
  with None show ?thesis by (simp add: save_runs_to_sqlite_def Let_def dict_get_filter_keys)
next
  case (Some r)
  then have "j \<in> set (map fst runs)" by (metis map_of_eq_None_iff option.simps(3) set_map)
  with Some assms show ?thesis
    by (auto simp: save_runs_to_sqlite_def Let_def dict_get_filter_keys fold_put_last_get)
qed

subsection \<open>Consistent execution states\<close>

text \<open>
  A terminal run has an outcome and an end, a run that is not terminal has neither, and a run
  that waits for its lane slot has not started.
\<close>

definition exec_wf :: "run \<Rightarrow> bool" where
  "exec_wf r = ((ex_status (r_execution r) = EX_TERMINAL \<longleftrightarrow> ex_outcome (r_execution r) \<noteq> None) \<and>
     (ex_status (r_execution r) = EX_TERMINAL \<longleftrightarrow> ex_ended_at (r_execution r) \<noteq> None) \<and>
     (ex_status (r_execution r) = EX_PENDING \<longrightarrow> ex_started_at (r_execution r) = None) \<and>
     (ex_status (r_execution r) = EX_RUNNING \<longrightarrow> ex_started_at (r_execution r) \<noteq> None))"

definition registry_wf :: "registry \<Rightarrow> bool" where
  "registry_wf s = (registry_inv s \<and> list_all (exec_wf \<circ> snd) (rg_runs s) \<and>
     list_all (exec_wf \<circ> snd) (rg_disk s))"

lemma registry_wf_inv: "registry_wf s \<Longrightarrow> registry_inv s"
  by (simp add: registry_wf_def)

lemma registry_wf_get: "registry_wf s \<Longrightarrow> mem_get i s = Some r \<Longrightarrow> exec_wf r \<and> r_run_id r = i"
  by (auto simp: registry_wf_def registry_inv_def mem_get_def list_all_iff dest!: map_of_SomeD)

lemma registry_wf_set_run: "registry_wf s \<Longrightarrow> exec_wf r \<Longrightarrow> registry_wf (set_run r s)"
  by (auto simp: registry_wf_def set_run_def registry_inv_def intro!: evict_all put_last_all)

lemma registry_wf_upsert: "registry_wf s \<Longrightarrow> exec_wf r \<Longrightarrow> registry_wf (upsert_run_sync r s)"
  by (auto simp: registry_wf_def upsert_run_sync_def registry_inv_def intro!: put_last_all)

lemma registry_wf_spawn: "registry_wf s \<Longrightarrow> registry_wf (snd (increment_spawn_count k s))"
  by (simp add: registry_wf_def) (simp add: increment_spawn_count_def Let_def)

lemma new_run_wf [simp]: "exec_wf (new_run cfg i g q)"
  by (simp add: exec_wf_def new_run_def)

lemma new_run_sel [simp]:
  "r_run_id (new_run cfg i g q) = i" "r_generation (new_run cfg i g q) = g"
  "r_child_session_key (new_run cfg i g q) = q_child q"
  "r_requester_session_key (new_run cfg i g q) = q_requester q"
  "r_execution (new_run cfg i g q) = new_execution_state EX_PENDING"
  "r_delivery (new_run cfg i g q) = new_delivery_state DL_PENDING"
  by (simp_all add: new_run_def)

lemma register_run_wf: "registry_wf s \<Longrightarrow> registry_wf (snd (register_run cfg i q s))"
  by (simp add: register_run_def Let_def registry_wf_upsert registry_wf_set_run registry_wf_spawn)

lemma mark_run_running_wf: "registry_wf s \<Longrightarrow> registry_wf (snd (mark_run_running now i s))"
  by (auto simp: mark_run_running_def Let_def exec_wf_def split: option.split
      intro!: registry_wf_set_run dest: registry_wf_get)

lemma complete_record_wf: "exec_wf (complete_record cfg now oc text handoff r)"
  by (simp add: exec_wf_def complete_record_def)

lemma complete_run_wf: "registry_wf s \<Longrightarrow> registry_wf (snd (complete_run cfg now i oc text h s))"
  by (auto simp: complete_run_def Let_def complete_record_wf split: option.split
      intro!: registry_wf_set_run registry_wf_upsert)

lemma replace_run_wf: "registry_wf s \<Longrightarrow> registry_wf (snd (replace_run_after_steer now i t s))"
  by (auto simp: replace_run_after_steer_def Let_def exec_wf_def replace_record_def split: option.split
      intro!: registry_wf_set_run)

lemma pause_run_wf:
  "registry_wf s \<Longrightarrow> (\<And>r. mem_get i s = Some r \<Longrightarrow> \<not> is_terminal r) \<Longrightarrow>
     registry_wf (snd (mark_run_paused_after_yield now i s))"
  by (auto simp: mark_run_paused_after_yield_def Let_def exec_wf_def is_terminal_def split: option.split
      intro!: registry_wf_set_run dest: registry_wf_get)

lemma update_run_wf:
  "registry_wf s \<Longrightarrow> (\<And>r. exec_wf r \<Longrightarrow> exec_wf (f r)) \<Longrightarrow> registry_wf (snd (update_run i f s))"
  by (auto simp: update_run_def split: option.split intro!: registry_wf_set_run dest: registry_wf_get)

lemma exec_wf_frame:
  assumes "exec_wf r" and e: "r_execution r' = r_execution r"
  shows "exec_wf r'"
  using assms(1) unfolding exec_wf_def e .

lemma save_kill_wf: "registry_wf s \<Longrightarrow> registry_wf (snd (save_kill_reconciliation now i s))"
  unfolding save_kill_reconciliation_def by (erule update_run_wf, erule exec_wf_frame) simp

lemma clear_kill_wf: "registry_wf s \<Longrightarrow> registry_wf (snd (clear_kill_reconciliation i s))"
  unfolding clear_kill_reconciliation_def by (erule update_run_wf, erule exec_wf_frame) simp

lemma list_all_pop: "list_all P d \<Longrightarrow> list_all P (dict_pop k d)"
  by (auto simp: list_all_iff set_dict_pop)

lemma remove_run_wf: "registry_wf s \<Longrightarrow> registry_wf (snd (remove_run i s))"
  by (auto simp: remove_run_def mem_delete_def delete_run_from_sqlite_def registry_wf_def
      registry_inv_def list_all_pop split: option.split)

lemma save_runs_all:
  "list_all P runs \<Longrightarrow> list_all P disk \<Longrightarrow> list_all P (save_runs_to_sqlite runs disk)"
proof -
  assume r: "list_all P runs" and d: "list_all P disk"
  from r d have "list_all P (fold (\<lambda>(k, r) d. put_last k r d) runs disk)"
    by (induction runs arbitrary: disk) (auto intro: put_last_all)
  then show ?thesis by (auto simp: save_runs_to_sqlite_def Let_def list_all_iff)
qed

lemma save_runs_ok: "dict_ok disk \<Longrightarrow> dict_ok (save_runs_to_sqlite runs disk)"
  using fold_put_last_ok [of disk runs]
  by (auto simp: save_runs_to_sqlite_def Let_def dict_ok_keyed intro: keyed_filter)

lemma persist_wf: "registry_wf s \<Longrightarrow> registry_wf (persist_runs_to_disk s)"
  by (simp add: registry_wf_def persist_runs_to_disk_def registry_inv_def save_runs_all save_runs_ok)

lemma restore_record_sel [simp]: "r_run_id (restore_record cfg now r) = r_run_id r"
  by (simp add: restore_record_def rebase_restored_clock_def finalize_restored_pending_def
      mark_restored_running_terminal_def split: execution_status.split)

lemma rebase_at_None [simp]: "rebase_at now v = None \<longleftrightarrow> v = None"
  by (simp add: rebase_at_def split: option.split)

lemma rebase_execution:
  "r_execution (rebase_restored_clock cfg now r) = (r_execution r)\<lparr>
     ex_started_at := rebase_at now (ex_started_at (r_execution r)),
     ex_ended_at := rebase_at now (ex_ended_at (r_execution r))\<rparr>"
  by (simp add: rebase_restored_clock_def)

lemma rebase_wf: "exec_wf r \<Longrightarrow> exec_wf (rebase_restored_clock cfg now r)"
  unfolding exec_wf_def rebase_execution by auto

lemma finalize_restored_wf: "exec_wf (finalize_restored_pending now r)"
  by (simp add: exec_wf_def finalize_restored_pending_def)

lemma mark_restored_wf: "exec_wf (mark_restored_running_terminal now r)"
  by (simp add: exec_wf_def mark_restored_running_terminal_def)

lemma restore_record_wf: "exec_wf r \<Longrightarrow> exec_wf (restore_record cfg now r)"
  unfolding restore_record_def
  by (cases "ex_status (r_execution r)")
    (simp_all add: rebase_wf finalize_restored_wf mark_restored_wf)

lemma restore_fold_wf:
  "registry_wf s \<Longrightarrow> list_all (exec_wf \<circ> snd) d \<Longrightarrow>
   registry_wf (fold (\<lambda>(k, r) t. if mem_get k t \<noteq> None then t else set_run (restore_record cfg now r) t) d s)"
  by (induction d arbitrary: s) (auto simp: restore_record_wf registry_wf_set_run)

lemma restore_wf: "registry_wf s \<Longrightarrow> registry_wf (restore_runs_from_disk cfg now s)"
  unfolding restore_runs_from_disk_def by (rule restore_fold_wf) (simp_all add: registry_wf_def)

subsection \<open>The registry as a transition system\<close>

text \<open>
  Every operation of the write layer, in any order. The pause is a step only for a run that is
  not terminal: see \<open>pause_reopens_terminal\<close> below for what it does to a terminal one.
\<close>

inductive registry_step :: "registry \<Rightarrow> registry \<Rightarrow> bool" where
  rs_register: "registry_step s (snd (register_run cfg i q s))"
| rs_running: "registry_step s (snd (mark_run_running now i s))"
| rs_complete: "registry_step s (snd (complete_run cfg now i oc text h s))"
| rs_steer: "registry_step s (snd (replace_run_after_steer now i t s))"
| rs_pause: "(case mem_get i s of None \<Rightarrow> True | Some r \<Rightarrow> \<not> is_terminal r) \<Longrightarrow>
    registry_step s (snd (mark_run_paused_after_yield now i s))"
| rs_kill_snapshot: "registry_step s (snd (save_kill_reconciliation now i s))"
| rs_kill_clear: "registry_step s (snd (clear_kill_reconciliation i s))"
| rs_remove: "registry_step s (snd (remove_run i s))"
| rs_persist: "registry_step s (persist_runs_to_disk s)"
| rs_restart: "registry_step s (restore_runs_from_disk cfg now (mem_clear s))"

inductive_cases registry_stepE: "registry_step s t"

lemma mem_clear_wf: "registry_wf s \<Longrightarrow> registry_wf (mem_clear s)"
  by (simp add: registry_wf_def registry_inv_def mem_clear_def)

lemma pause_step_wf:
  "registry_wf s \<Longrightarrow> (case mem_get i s of None \<Rightarrow> True | Some r \<Rightarrow> \<not> is_terminal r) \<Longrightarrow>
     registry_wf (snd (mark_run_paused_after_yield now i s))"
  by (erule pause_run_wf) simp

lemma registry_step_wf:
  assumes "registry_wf s" and "registry_step s t"
  shows "registry_wf t"
  using assms(2)
proof (cases rule: registry_step.cases)
  case (rs_pause i now)
  from pause_step_wf [OF assms(1) rs_pause(2)] rs_pause(1) show ?thesis by simp
qed (simp_all only: register_run_wf mark_run_running_wf complete_run_wf replace_run_wf save_kill_wf
  clear_kill_wf remove_run_wf persist_wf restore_wf mem_clear_wf assms(1))

lemma empty_registry_wf: "registry_wf (empty_registry cap)"
  by (simp add: registry_wf_def) (simp add: empty_registry_def)

interpretation registry_safety: inv_system "\<lambda>s. \<exists>cap. s = empty_registry cap" registry_step registry_wf
  by unfold_locales (auto simp: empty_registry_wf registry_step_wf)

subsection \<open>Facts about the operations\<close>

lemma increment_spawn_frame [simp]:
  "mem_get i (snd (increment_spawn_count k s)) = mem_get i s"
  "rg_disk (snd (increment_spawn_count k s)) = rg_disk s"
  "total_spawns k (snd (increment_spawn_count k s)) = Suc (total_spawns k s)"
  by (simp_all add: increment_spawn_count_def Let_def mem_get_def total_spawns_def)

lemma set_run_frame [simp]:
  "rg_disk (set_run r s) = rg_disk s" "rg_spawns (set_run r s) = rg_spawns s"
  "total_spawns k (set_run r s) = total_spawns k s"
  by (simp_all add: set_run_def total_spawns_def)

lemma upsert_frame [simp]:
  "mem_get i (upsert_run_sync r s) = mem_get i s"
  "total_spawns k (upsert_run_sync r s) = total_spawns k s"
  "rg_runs (upsert_run_sync r s) = rg_runs s"
  "rg_disk (upsert_run_sync r s) = put_last (r_run_id r) r (rg_disk s)"
  by (simp_all add: upsert_run_sync_def mem_get_def total_spawns_def)

definition spawn_initiator :: "run_request \<Rightarrow> text_id" where
  "spawn_initiator q =
    (case or_text (q_spawned_by q) (Some (q_requester q)) of Some k \<Rightarrow> k | None \<Rightarrow> q_requester q)"

lemma register_run_eq:
  "register_run cfg i q s =
    (let r = new_run cfg i (next_generation (q_child q) s) q
     in (r, upsert_run_sync r (set_run r (snd (increment_spawn_count (spawn_initiator q) s)))))"
  by (simp add: register_run_def spawn_initiator_def Let_def)

text \<open>Registering keeps every other live run, stores the new one, mirrors it, counts the spawn.\<close>

lemma register_run_effect:
  assumes "registry_inv s"
  shows "mem_get i (snd (register_run cfg i q s)) = Some (fst (register_run cfg i q s))"
    and "dict_get (rg_disk (snd (register_run cfg i q s))) i = Some (fst (register_run cfg i q s))"
    and "total_spawns (spawn_initiator q) (snd (register_run cfg i q s)) =
      Suc (total_spawns (spawn_initiator q) s)"
    and "j \<noteq> i \<Longrightarrow> mem_get j s = Some p \<Longrightarrow> \<not> is_terminal p \<Longrightarrow>
      mem_get j (snd (register_run cfg i q s)) = Some p"
proof -
  let ?r = "new_run cfg i (next_generation (q_child q) s) q"
  let ?s = "snd (increment_spawn_count (spawn_initiator q) s)"
  have inv: "registry_inv ?s" using assms by simp
  have live: "\<not> is_terminal ?r" by (simp add: is_terminal_def)
  show "mem_get i (snd (register_run cfg i q s)) = Some (fst (register_run cfg i q s))"
    using set_run_get_live [OF inv live] by (simp add: register_run_eq Let_def)
  show "dict_get (rg_disk (snd (register_run cfg i q s))) i = Some (fst (register_run cfg i q s))"
    by (simp add: register_run_eq Let_def)
  show "total_spawns (spawn_initiator q) (snd (register_run cfg i q s)) =
      Suc (total_spawns (spawn_initiator q) s)"
    by (simp add: register_run_eq Let_def)
  show "mem_get j (snd (register_run cfg i q s)) = Some p"
    if "j \<noteq> i" "mem_get j s = Some p" "\<not> is_terminal p"
    using set_run_get_other [OF inv, of j p ?r] that by (simp add: register_run_eq Let_def)
qed

lemma complete_run_again:
  assumes "registry_inv s" and "mem_get i (snd (complete_run cfg now i oc text h s)) = Some u"
  shows "complete_run cfg' now' i oc' text' h' (snd (complete_run cfg now i oc text h s)) =
    (Some u, snd (complete_run cfg now i oc text h s))"
proof (cases "mem_get i s")
  case None
  with assms show ?thesis by (simp add: complete_run_def)
next
  case (Some r)
  show ?thesis
  proof (cases "ex_status (r_execution r) = EX_TERMINAL")
    case True
    with Some assms(2) show ?thesis by (auto simp: complete_run_def)
  next
    case False
    let ?u = "complete_record cfg now oc text h r"
    from Some assms(1) have i: "r_run_id r = i"
      by (auto simp: registry_inv_def mem_get_def list_all_iff dest!: map_of_SomeD)
    have s': "snd (complete_run cfg now i oc text h s) = upsert_run_sync ?u (set_run ?u s)"
      using Some False by (simp add: complete_run_def Let_def)
    have "dict_get (evict_overflow (rg_cap s) (put_last (r_run_id ?u) ?u (rg_runs s))) i = Some u"
      using assms(2) by (simp add: s' mem_get_def set_run_def)
    moreover have "dict_ok (put_last (r_run_id ?u) ?u (rg_runs s))"
      using assms(1) by (simp add: registry_inv_def)
    ultimately have "dict_get (put_last (r_run_id ?u) ?u (rg_runs s)) i = Some u"
      using evict_get_Some by blast
    with i have "u = ?u" by (simp add: complete_record_def)
    then have "ex_status (r_execution u) = EX_TERMINAL" by (simp add: complete_record_def)
    with assms(2) show ?thesis by (simp add: complete_run_def)
  qed
qed

subsection \<open>What a restart restores\<close>

lemma set_run_fits:
  assumes "registry_inv s" and "mem_size s < rg_cap s"
  shows "rg_runs (set_run r s) = put_last (r_run_id r) r (rg_runs s)"
    and "mem_size (set_run r s) \<le> Suc (mem_size s)"
    and "rg_cap (set_run r s) = rg_cap s"
proof -
  have l: "length (put_last (r_run_id r) r (rg_runs s)) \<le> Suc (length (rg_runs s))"
    using length_delete_le [of "r_run_id r" "rg_runs s"] by (simp add: put_last_def)
  with assms show "rg_runs (set_run r s) = put_last (r_run_id r) r (rg_runs s)"
    by (simp add: set_run_def evict_overflow_def mem_size_def)
  with l show "mem_size (set_run r s) \<le> Suc (mem_size s)" by (simp add: mem_size_def)
qed (simp add: set_run_def)

definition restore_one :: "subagent_config \<Rightarrow> time \<Rightarrow> text_id \<times> run \<Rightarrow> registry \<Rightarrow> registry" where
  "restore_one cfg now p t =
    (if mem_get (fst p) t \<noteq> None then t else set_run (restore_record cfg now (snd p)) t)"

lemma restore_runs_fold: "restore_runs_from_disk cfg now s = fold (restore_one cfg now) (rg_disk s) s"
  by (simp add: restore_runs_from_disk_def restore_one_def [abs_def] case_prod_unfold)

lemma restore_one_None:
  "mem_get k t = None \<Longrightarrow> restore_one cfg now (k, r) t = set_run (restore_record cfg now r) t"
  by (simp add: restore_one_def)

lemma restore_one_Some: "mem_get k t = Some q \<Longrightarrow> restore_one cfg now (k, r) t = t"
  by (simp add: restore_one_def)

lemma restore_fold_get:
  assumes "registry_inv s" and "dict_ok d" and "list_all (\<lambda>(k, r). r_run_id r = k) d"
    and "mem_size s + length d \<le> rg_cap s"
  shows "mem_get j (fold (restore_one cfg now) d s) =
    (case mem_get j s of None \<Rightarrow> map_option (restore_record cfg now) (dict_get d j) | Some r \<Rightarrow> Some r)"
  using assms
proof (induction d arbitrary: s)
  case Nil
  then show ?case by (simp split: option.split)
next
  case (Cons p d)
  obtain k r where p: "p = (k, r)" by (cases p)
  from Cons.prems p have d: "dict_ok d" "list_all (\<lambda>(k, r). r_run_id r = k) d" "r_run_id r = k"
      "k \<notin> fst ` set d" by (simp_all add: dict_ok_def)
  from d(4) have none: "dict_get d k = None" by (simp add: map_of_eq_None_iff)
  show ?case
  proof (cases "mem_get k s")
    case None
    let ?s = "set_run (restore_record cfg now r) s"
    have fits: "mem_size s < rg_cap s" using Cons.prems(4) by simp
    note new = set_run_fits [OF Cons.prems(1) fits, of "restore_record cfg now r"]
    have get: "mem_get i ?s = (if i = k then Some (restore_record cfg now r) else mem_get i s)" for i
      using d(3) by (simp add: mem_get_def new)
    have "mem_get j (fold (restore_one cfg now) d ?s) =
      (case mem_get j ?s of None \<Rightarrow> map_option (restore_record cfg now) (dict_get d j) | Some r \<Rightarrow> Some r)"
      using Cons.prems(1,4) new(2,3) by (intro Cons.IH d) simp_all
    then show ?thesis using None none by (simp add: p restore_one_None get split: option.split)
  next
    case (Some q)
    have "mem_get j (fold (restore_one cfg now) d s) =
      (case mem_get j s of None \<Rightarrow> map_option (restore_record cfg now) (dict_get d j) | Some r \<Rightarrow> Some r)"
      using Cons.prems(1,4) by (intro Cons.IH d) simp_all
    then show ?thesis using Some by (auto simp: p restore_one_Some split: option.split)
  qed
qed

lemma mem_clear_inv: "registry_inv s \<Longrightarrow> registry_inv (mem_clear s)"
  by (simp add: registry_inv_def mem_clear_def)

lemma restart_get:
  assumes "registry_inv s" and "length (rg_disk s) \<le> rg_cap s"
  shows "mem_get j (restore_runs_from_disk cfg now (mem_clear s)) =
    map_option (restore_record cfg now) (dict_get (rg_disk s) j)"
proof -
  have "mem_get j (fold (restore_one cfg now) (rg_disk (mem_clear s)) (mem_clear s)) =
      (case mem_get j (mem_clear s) of
         None \<Rightarrow> map_option (restore_record cfg now) (dict_get (rg_disk (mem_clear s)) j)
       | Some r \<Rightarrow> Some r)"
    using assms mem_clear_inv [OF assms(1)]
    by (intro restore_fold_get) (simp_all add: registry_inv_def mem_clear_def mem_size_def)
  then show ?thesis by (simp add: restore_runs_fold mem_get_def mem_clear_def)
qed

lemma restore_record_status:
  "ex_status (r_execution (restore_record cfg now r)) =
    (if ex_status (r_execution r) = EX_INTERRUPTED then EX_INTERRUPTED else EX_TERMINAL)"
  by (cases "ex_status (r_execution r)")
    (simp_all add: restore_record_def rebase_execution finalize_restored_pending_def
      mark_restored_running_terminal_def)

lemma restore_record_ended:
  "ex_ended_at (r_execution (restore_record cfg now r)) \<in> {None, Some now}"
  by (simp add: restore_record_def rebase_execution rebase_at_def split: option.split)

subsection \<open>Properties\<close>

definition demo_cfg :: subagent_config where
  "demo_cfg = default_config"

definition demo_registry :: registry where
  "demo_registry = snd (register_run demo_cfg ''r2'' (default_request ''c2'' ''c1'' ''t2'')
     (snd (register_run demo_cfg ''r1'' (default_request ''c1'' ''main'' ''t1'') (empty_registry 5))))"

lemma demo_registry_wf: "registry_wf demo_registry"
  by (simp add: demo_registry_def register_run_wf empty_registry_wf)

lemma demo_registry_inv: "registry_inv demo_registry"
  by (rule registry_wf_inv [OF demo_registry_wf])



text \<open>Registering a run returns the record it stores: retrievable from memory and from disk,
  pending with its delivery pending, of a generation above every earlier run of the same child
  session; the initiator's spawn count grows by one and no other live run is lost, even when the
  registration evicts.\<close>

theorem register_run_spec:
  assumes "registry_inv s" and "register_run cfg i q s = (r, s')"
  shows "mem_get i s' = Some r \<and> dict_get (rg_disk s') i = Some r \<and>
    ex_status (r_execution r) = EX_PENDING \<and> dl_status (r_delivery r) = DL_PENDING \<and>
    \<not> (\<exists>p. p \<in> set (mem_values s) \<and> r_child_session_key p = q_child q \<and> r_generation r \<le> r_generation p) \<and>
    total_spawns (spawn_initiator q) s' = Suc (total_spawns (spawn_initiator q) s) \<and>
    \<not> (\<exists>j p. j \<noteq> i \<and> mem_get j s = Some p \<and> \<not> is_terminal p \<and> mem_get j s' \<noteq> Some p)"
proof -
  have r: "r = new_run cfg i (next_generation (q_child q) s) q" and s': "s' = snd (register_run cfg i q s)"
    using assms(2) by (auto simp: register_run_eq Let_def)
  have f: "fst (register_run cfg i q s) = r" by (simp add: assms(2))
  note eff = register_run_effect [OF assms(1), where i = i and cfg = cfg and q = q, folded s', unfolded f]
  have "\<not> (\<exists>p. p \<in> set (mem_values s) \<and> r_child_session_key p = q_child q \<and> r_generation r \<le> r_generation p)"
    using next_generation_fresh [of _ s "q_child q"] by (force simp: r)
  moreover have "\<not> (\<exists>j p. j \<noteq> i \<and> mem_get j s = Some p \<and> \<not> is_terminal p \<and> mem_get j s' \<noteq> Some p)"
    using eff(4) by blast
  ultimately show ?thesis using eff(1-3) by (simp add: r)
qed

theorem register_run_spec_witness:
  "mem_get ''r3'' (snd (register_run demo_cfg ''r3'' (default_request ''c1'' ''main'' ''again'') demo_registry)) =
   Some (fst (register_run demo_cfg ''r3'' (default_request ''c1'' ''main'' ''again'') demo_registry))"
  using register_run_spec [OF demo_registry_inv prod.collapse [symmetric]] by blast

text \<open>A run completes once: whatever completion arrives later, with whatever outcome, text
  and time, returns the stored terminal record and changes nothing.\<close>

theorem complete_run_idempotent:
  assumes "registry_inv s" and "mem_get i (snd (complete_run cfg now i oc text h s)) = Some u"
  shows "complete_run cfg' now' i oc' text' h' (snd (complete_run cfg now i oc text h s)) =
    (Some u, snd (complete_run cfg now i oc text h s))"
  by (rule complete_run_again [OF assms])

theorem complete_run_idempotent_witness:
  "snd (complete_run demo_cfg 9 ''r1'' \<lparr>oc_status = OC_KILLED, oc_error = None\<rparr> None None
      (snd (complete_run demo_cfg 7 ''r1'' \<lparr>oc_status = OC_OK, oc_error = None\<rparr> (Some ''done'') None demo_registry)))
   = snd (complete_run demo_cfg 7 ''r1'' \<lparr>oc_status = OC_OK, oc_error = None\<rparr> (Some ''done'') None demo_registry)"
proof -
  let ?t = "snd (complete_run demo_cfg 7 ''r1'' \<lparr>oc_status = OC_OK, oc_error = None\<rparr> (Some ''done'') None demo_registry)"
  have "mem_get ''r1'' ?t \<noteq> None" by code_simp
  then obtain u where "mem_get ''r1'' ?t = Some u" by blast
  from complete_run_idempotent [OF demo_registry_inv this] show ?thesis by simp
qed

text \<open>The periodic save makes the disk exactly the in-memory snapshot: a run evicted from
  memory loses its row too, so it is not left on disk for the readers that miss.\<close>

theorem persist_is_snapshot:
  assumes "registry_inv s"
  shows "dict_get (rg_disk (persist_runs_to_disk s)) i = mem_get i s"
  using assms by (simp add: persist_runs_to_disk_def registry_inv_def save_runs_get mem_get_def)

theorem persist_is_snapshot_witness:
  "dict_get (rg_disk (persist_runs_to_disk (snd (mem_delete ''r1'' demo_registry)))) ''r1'' = None"
proof -
  have "registry_inv (snd (mem_delete ''r1'' demo_registry))"
    using demo_registry_inv by (simp add: registry_inv_def mem_delete_def list_all_pop)
  from persist_is_snapshot [OF this, of "''r1''"] show ?thesis
    by (simp add: mem_delete_def mem_get_def)
qed

text \<open>After a restart from a disk that fits the cap, the memory holds exactly the rows of the
  disk, each as the restore rewrites it: no run is pending or running, an interrupted one stays
  interrupted, every other is terminal, and its end, if any, is stamped with the restart time.\<close>

theorem restart_restores_all:
  assumes "registry_inv s" and "length (rg_disk s) \<le> rg_cap s"
  shows "mem_get i (restore_runs_from_disk cfg now (mem_clear s)) =
      map_option (restore_record cfg now) (dict_get (rg_disk s) i) \<and>
    ex_status (r_execution (restore_record cfg now r)) =
      (if ex_status (r_execution r) = EX_INTERRUPTED then EX_INTERRUPTED else EX_TERMINAL) \<and>
    ex_ended_at (r_execution (restore_record cfg now r)) \<in> {None, Some now}"
  using restart_get [OF assms] restore_record_status restore_record_ended by blast

theorem restart_restores_all_witness:
  "mem_get ''r2'' (restore_runs_from_disk demo_cfg 3 (mem_clear demo_registry)) =
     map_option (restore_record demo_cfg 3) (dict_get (rg_disk demo_registry) ''r2'')"
proof -
  have "length (rg_disk demo_registry) \<le> rg_cap demo_registry" by code_simp
  from restart_restores_all [OF demo_registry_inv this] show ?thesis by blast
qed

text \<open>Pausing after a yield has no guard: it turns a terminal run back into an interrupted one
  that still carries its outcome and its end.\<close>

theorem pause_reopens_terminal:
  assumes "registry_inv s" and "mem_get i s = Some r" and "ex_status (r_execution r) = EX_TERMINAL"
  shows "\<exists>u. mem_get i (snd (mark_run_paused_after_yield now i s)) = Some u \<and>
    ex_status (r_execution u) = EX_INTERRUPTED \<and>
    ex_outcome (r_execution u) = ex_outcome (r_execution r) \<and>
    ex_ended_at (r_execution u) = ex_ended_at (r_execution r)"
proof -
  let ?u = "r\<lparr>r_execution := (r_execution r)\<lparr>ex_status := EX_INTERRUPTED\<rparr>,
              r_accumulated_runtime_ms := accumulated_runtime now r,
              r_pause_reason := Some ''yield'', r_ended_reason := None\<rparr>"
  have s': "snd (mark_run_paused_after_yield now i s) = set_run ?u s"
    using assms(2) by (simp add: mark_run_paused_after_yield_def Let_def)
  have "r_run_id r = i"
    using assms(1,2) by (auto simp: registry_inv_def mem_get_def list_all_iff dest!: map_of_SomeD)
  then have "mem_get i (set_run ?u s) = Some ?u"
    using set_run_get_live [OF assms(1), of ?u] by (simp add: is_terminal_def)
  then show ?thesis unfolding s' by (intro exI [of _ ?u]) simp
qed

theorem pause_reopens_terminal_witness:
  "\<exists>s u. mem_get ''r1'' (snd (mark_run_paused_after_yield 8 ''r1'' s)) = Some u \<and>
     ex_status (r_execution u) = EX_INTERRUPTED"
proof -
  let ?t = "snd (complete_run demo_cfg 7 ''r1'' \<lparr>oc_status = OC_OK, oc_error = None\<rparr> (Some ''done'') None demo_registry)"
  have "map_option (\<lambda>r. ex_status (r_execution r)) (mem_get ''r1'' ?t) = Some EX_TERMINAL" by code_simp
  then obtain r where "mem_get ''r1'' ?t = Some r" "ex_status (r_execution r) = EX_TERMINAL" by auto
  moreover have "registry_inv ?t" by (rule registry_wf_inv [OF complete_run_wf [OF demo_registry_wf]])
  ultimately show ?thesis using pause_reopens_terminal by blast
qed

end
