(* ===== verification/Spawn_Policy.thy ===== *)
theory Spawn_Policy
  imports Run_Manager
begin

section \<open>Who may spawn what: admission, roles, tools, control\<close>

text \<open>
  Models, under \<^verbatim>\<open>src/agent/tools/subagent/\<close>: the admission gate and the tool policy of
  \<^verbatim>\<open>spawn/core.py\<close>, \<^verbatim>\<open>spawn/depth.py\<close>, \<^verbatim>\<open>spawn/target_policy.py\<close>, \<^verbatim>\<open>spawn/privilege.py\<close>,
  \<^verbatim>\<open>spawn/ownership.py\<close>, \<^verbatim>\<open>spawn/inherited_tool_policy.py\<close>, \<^verbatim>\<open>spawn/gateway_dispatch.py\<close>,
  \<^verbatim>\<open>spawn/task_name.py\<close>, the role containment of \<^verbatim>\<open>types/functional_role.py\<close>, and the control
  checks of \<^verbatim>\<open>control/controller.py\<close> and \<^verbatim>\<open>control/kill.py\<close>. A check returns \<open>None\<close> when it
  allows and the reason when it refuses.
\<close>

subsection \<open>Depth, concurrency and budget\<close>

definition get_subagent_depth :: "registry \<Rightarrow> text_id \<Rightarrow> nat" where
  "get_subagent_depth s key =
    (case find_by_child_session_key key s of
       Some r \<Rightarrow>
         if 0 < r_depth r then r_depth r
         else if \<not> is_subagent_session key then 0 else extract_depth key
     | None \<Rightarrow> if \<not> is_subagent_session key then 0 else extract_depth key)"

text \<open>The refusal texts, as constructors over the values that the texts interpolate.\<close>

datatype spawn_reason =
  Task_Required
| Invalid_Agent_Id string
| Agent_Id_Required
| Target_Not_Allowed string
| Depth_Exceeds nat nat
| Children_At_Max nat nat
| Spawns_At_Max nat nat
| Not_Contained functional_role functional_role

definition validate_spawn_depth :: "subagent_config \<Rightarrow> nat \<Rightarrow> spawn_reason option" where
  "validate_spawn_depth cfg parent_depth =
    (let child_depth = parent_depth + 1
     in if cf_max_spawn_depth cfg < child_depth
        then Some (Depth_Exceeds child_depth (cf_max_spawn_depth cfg)) else None)"

definition validate_concurrent_children :: "subagent_config \<Rightarrow> nat \<Rightarrow> spawn_reason option" where
  "validate_concurrent_children cfg n =
    (if cf_max_children_per_agent cfg \<le> n
     then Some (Children_At_Max n (cf_max_children_per_agent cfg)) else None)"

definition validate_total_spawns :: "subagent_config \<Rightarrow> nat \<Rightarrow> spawn_reason option" where
  "validate_total_spawns cfg n =
    (if cf_max_total_spawns cfg \<le> n
     then Some (Spawns_At_Max n (cf_max_total_spawns cfg)) else None)"

definition is_target_allowed :: "string list \<Rightarrow> string \<Rightarrow> bool" where
  "is_target_allowed allow target = (''*'' \<in> set allow \<or> target \<in> set allow)"

text \<open>
  \<^verbatim>\<open>re.compile(r"^[a-zA-Z0-9_-]+$").match\<close>: \<^verbatim>\<open>$\<close> also matches before a final newline.
\<close>

definition agent_id_char :: "char \<Rightarrow> bool" where
  "agent_id_char c = (let n = (of_char c :: nat) in
     (97 \<le> n \<and> n \<le> 122) \<or> (65 \<le> n \<and> n \<le> 90) \<or> (48 \<le> n \<and> n \<le> 57) \<or> n = 95 \<or> n = 45)"

definition valid_agent_id :: "string \<Rightarrow> bool" where
  "valid_agent_id s =
    (let body = (if s \<noteq> [] \<and> of_char (last s) = (10 :: nat) then butlast s else s)
     in body \<noteq> [] \<and> list_all agent_id_char body)"

text \<open>The status of a refusal: \<^verbatim>\<open>"error"\<close> or \<^verbatim>\<open>"forbidden"\<close>.\<close>

datatype spawn_refusal = Refused_Error spawn_reason | Refused_Forbidden spawn_reason

text \<open>The gate of phases 1 and 2: the child depth and the refusal, if any, in the code's order.\<close>

definition validate_spawn_request ::
    "subagent_config \<Rightarrow> bool \<Rightarrow> registry \<Rightarrow> string \<Rightarrow> string \<Rightarrow> text_id \<Rightarrow> nat \<times> spawn_refusal option" where
  "validate_spawn_request cfg require_agent_id s task agent_id requester =
    (if task = [] \<or> strip task = [] then (0, Some (Refused_Error Task_Required))
     else if \<not> valid_agent_id agent_id then (0, Some (Refused_Forbidden (Invalid_Agent_Id agent_id)))
     else if require_agent_id \<and> agent_id = ''main'' then (0, Some (Refused_Forbidden Agent_Id_Required))
     else if \<not> is_target_allowed (cf_allow_agents cfg) agent_id
     then (0, Some (Refused_Forbidden (Target_Not_Allowed agent_id)))
     else
       (let parent_depth = get_subagent_depth s requester
        in (parent_depth + 1,
            case validate_spawn_depth cfg parent_depth of
              Some e \<Rightarrow> Some (Refused_Forbidden e)
            | None \<Rightarrow>
                (case validate_concurrent_children cfg (count_active_runs_for_session requester s) of
                   Some e \<Rightarrow> Some (Refused_Forbidden e)
                 | None \<Rightarrow>
                     map_option Refused_Forbidden
                       (validate_total_spawns cfg (total_spawns requester s))))))"

subsection \<open>Role containment\<close>

text \<open>\<^verbatim>\<open>SPAWN_ALLOWED_CHILD_ROLES.get(parent, {parent})\<close>.\<close>

fun allowed_child_roles :: "functional_role \<Rightarrow> functional_role list" where
  "allowed_child_roles F_EXECUTOR = [F_EXECUTOR, F_RESEARCHER, F_LIBRARIAN]"
| "allowed_child_roles F_RESEARCHER = [F_RESEARCHER, F_LIBRARIAN]"
| "allowed_child_roles F_LIBRARIAN = [F_LIBRARIAN, F_RESEARCHER]"
| "allowed_child_roles r = [r]"

fun functional_role_value :: "functional_role \<Rightarrow> string" where
  "functional_role_value F_GENERAL = ''general''"
| "functional_role_value F_RESEARCHER = ''researcher''"
| "functional_role_value F_EXECUTOR = ''executor''"
| "functional_role_value F_REVIEWER = ''reviewer''"
| "functional_role_value F_LIBRARIAN = ''librarian''"

definition parse_functional_role :: "string \<Rightarrow> functional_role option" where
  "parse_functional_role v =
    find (\<lambda>r. functional_role_value r = v) [F_GENERAL, F_RESEARCHER, F_EXECUTOR, F_REVIEWER, F_LIBRARIAN]"

definition resolve_functional_role :: "string \<Rightarrow> string option \<Rightarrow> string \<Rightarrow> functional_role" where
  "resolve_functional_role default_role hint agent_id =
    (case (if truthy_text hint then parse_functional_role (the hint) else None) of
       Some r \<Rightarrow> r
     | None \<Rightarrow>
         (case parse_functional_role agent_id of
            Some r \<Rightarrow> r
          | None \<Rightarrow>
              (case parse_functional_role default_role of Some r \<Rightarrow> r | None \<Rightarrow> F_GENERAL)))"

definition check_role_containment :: "registry \<Rightarrow> text_id \<Rightarrow> functional_role \<Rightarrow> spawn_reason option" where
  "check_role_containment s requester child_role =
    (case find_by_child_session_key requester s of
       None \<Rightarrow> None
     | Some p \<Rightarrow>
         if r_functional_role p = F_GENERAL then None
         else if child_role \<in> set (allowed_child_roles (r_functional_role p)) then None
         else Some (Not_Contained (r_functional_role p) child_role))"

subsection \<open>Tool policy\<close>

definition SPAWN_CONTROL_TOOLS :: "string list" where
  "SPAWN_CONTROL_TOOLS = [''sessions_spawn'', ''sessions_yield'', ''subagents_list'', ''sessions_send'']"

definition DEFAULT_BLOCKED_TOOLS :: "string list" where
  "DEFAULT_BLOCKED_TOOLS = [''sessions_spawn'', ''sessions_yield'', ''subagents_list'', ''sessions_send'']"

record tool =
  t_name :: string
  t_metadata :: "(string \<times> json) list option"

text \<open>\<^verbatim>\<open>list(dict.fromkeys(xs))\<close>: the first occurrence of each name, in order.\<close>

fun dedup_first :: "'a list \<Rightarrow> 'a list" where
  "dedup_first [] = []"
| "dedup_first (x # xs) = x # filter (\<lambda>y. y \<noteq> x) (dedup_first xs)"

definition append_new :: "string list \<Rightarrow> string list \<Rightarrow> string list" where
  "append_new base names = fold (\<lambda>n acc. if n \<in> set acc then acc else acc @ [n]) names base"

text \<open>\<open>role_tools\<close>: the role definition's tool list, \<open>None\<close> without one.\<close>

definition resolve_child_tool_policy ::
    "string list option \<Rightarrow> session_role \<Rightarrow> string list \<Rightarrow> string list \<times> string list" where
  "resolve_child_tool_policy role_tools role extra =
    (let allow0 = (case role_tools of None \<Rightarrow> [] | Some l \<Rightarrow> l);
         deny0 = (case role_tools of None \<Rightarrow> DEFAULT_BLOCKED_TOOLS | Some _ \<Rightarrow> []);
         (allow1, deny1) =
           (if role = R_ORCHESTRATOR
            then (if allow0 \<noteq> [] then (append_new allow0 SPAWN_CONTROL_TOOLS, deny0)
                  else (allow0, filter (\<lambda>t. t \<notin> set SPAWN_CONTROL_TOOLS) deny0))
            else (allow0, deny0));
         allow2 = (if allow1 \<noteq> [] then append_new allow1 (dedup_first extra) else allow1);
         allow3 = (if can_spawn_children role then allow2
                   else filter (\<lambda>t. t \<notin> set SPAWN_CONTROL_TOOLS) allow2)
     in (allow3, deny1))"

definition resolve_least_privilege_scopes :: "session_role \<Rightarrow> string list" where
  "resolve_least_privilege_scopes role =
    ''subagent:read'' #
    (case role of
       R_ORCHESTRATOR \<Rightarrow> [''subagent:spawn'', ''subagent:kill'', ''subagent:yield'', ''subagent:send'']
     | R_LEAF \<Rightarrow> [''subagent:yield'']
     | R_MAIN \<Rightarrow> [])"

definition SCOPE_TOOL_MAP :: "(string \<times> string) list" where
  "SCOPE_TOOL_MAP =
    [(''subagent:spawn'', ''sessions_spawn''), (''subagent:kill'', ''sessions_kill''),
     (''subagent:yield'', ''sessions_yield''), (''subagent:send'', ''sessions_send'')]"

definition effective_child_deny :: "string list \<Rightarrow> string list \<Rightarrow> string list" where
  "effective_child_deny inherited scopes =
    (if scopes = [] then inherited
     else fold (\<lambda>(scope, name) acc. if scope \<notin> set scopes \<and> name \<notin> set acc then acc @ [name] else acc)
            SCOPE_TOOL_MAP inherited)"

definition main_only :: "tool \<Rightarrow> bool" where
  "main_only t = (case t_metadata t of None \<Rightarrow> False | Some m \<Rightarrow> jget ''scope'' m = JStr ''main_only'')"

definition stamp_caller :: "tool \<Rightarrow> tool" where
  "stamp_caller t =
    t\<lparr>t_metadata := Some (case t_metadata t of
        None \<Rightarrow> [(''caller_scope'', JStr ''subagent'')]
      | Some m \<Rightarrow> if dict_get m ''caller_scope'' = None
                   then dict_set ''caller_scope'' (JStr ''subagent'') m else m)\<rparr>"

definition apply_tool_policy ::
    "tool list \<Rightarrow> string list \<Rightarrow> string list option \<Rightarrow> string list \<Rightarrow> tool list" where
  "apply_tool_policy tools allow deny blocked =
    (let deny_set = set (dedup_first (case deny of None \<Rightarrow> [] | Some d \<Rightarrow> d)) \<union> set blocked
           \<union> (if deny = None then set DEFAULT_BLOCKED_TOOLS else {});
         allow_set = set (dedup_first allow)
     in map stamp_caller
          (filter (\<lambda>t. \<not> main_only t \<and> t_name t \<notin> deny_set \<and> (allow_set = {} \<or> t_name t \<in> allow_set)) tools))"

text \<open>
  The policy part of \<^verbatim>\<open>_assemble_child_tools\<close>: the per-spawn extra tools join the allow list
  once more. The role-gated families it appends are other packages' builders.
\<close>

definition child_policy_tools ::
    "tool list \<Rightarrow> string list \<Rightarrow> string list \<Rightarrow> string list \<Rightarrow> tool list" where
  "child_policy_tools tools allow deny extra =
    (let effective = (if extra \<noteq> [] \<and> allow \<noteq> [] then append_new allow extra else allow)
     in apply_tool_policy tools effective (Some deny) [])"

text \<open>What a child is given: the spawn-time policy, the scopes of its role, the run-time filter.\<close>

definition child_tools ::
    "tool list \<Rightarrow> string list option \<Rightarrow> session_role \<Rightarrow> string list \<Rightarrow> tool list" where
  "child_tools tools role_tools role extra =
    (let (allow, deny) = resolve_child_tool_policy role_tools role extra
     in child_policy_tools tools allow
          (effective_child_deny deny (resolve_least_privilege_scopes role)) (dedup_first extra))"

subsection \<open>Privilege, ownership, task names\<close>

definition SWARM_MARK :: string where
  "SWARM_MARK = '':swarm:''"

definition resolve_caller_session_key :: "string \<Rightarrow> string" where
  "resolve_caller_session_key session_id =
    (let raw = strip session_id
     in if raw = [] then []
        else if starts_with SESSION_KEY_PREFIX (lower raw)
        then
          (let rest = drop (length SESSION_KEY_PREFIX) raw
           in if is_subagent_session rest \<or> has_sub SWARM_MARK rest then rest else raw)
        else if is_subagent_session raw \<or> has_sub SWARM_MARK raw then raw
        else SESSION_KEY_PREFIX @ raw)"

text \<open>\<open>None\<close> when the call is allowed, otherwise the role and depth of the refusal text.\<close>

definition check_spawn_permission ::
    "subagent_config \<Rightarrow> registry \<Rightarrow> string \<Rightarrow> (session_role \<times> nat) option" where
  "check_spawn_permission cfg s session_id =
    (let key = resolve_caller_session_key session_id
     in if key = [] then None
        else
          (let depth = get_subagent_depth s key;
               role = fst (resolve_subagent_capabilities depth (cf_max_spawn_depth cfg))
           in if \<not> can_spawn_children role then Some (role, depth) else None))"

record spawn_ownership =
  ow_controller :: text_id
  ow_completion_requester :: text_id
  ow_display :: text_id

definition resolve_canonical_alias :: "string \<Rightarrow> string \<Rightarrow> string" where
  "resolve_canonical_alias key alias =
    (if has_sub '':main:'' key
     then
       (let parts = split_on (CHR '':'') key
        in if 4 \<le> length parts then ''agent:main:session:'' @ last parts else alias)
     else alias)"

definition resolve_internal_key :: "string option \<Rightarrow> string \<Rightarrow> string" where
  "resolve_internal_key key alias =
    (case key of None \<Rightarrow> alias | Some k \<Rightarrow> if strip k = [] then alias else strip k)"

definition resolve_spawn_ownership :: "string \<Rightarrow> string option \<Rightarrow> string \<Rightarrow> spawn_ownership" where
  "resolve_spawn_ownership requester owner alias =
    (let raw = strip requester;
         (canon, controller) =
           (if raw \<noteq> [] \<and> (is_subagent_session raw \<or> has_sub SWARM_MARK raw) then (alias, raw)
            else
              (let canon = resolve_canonical_alias raw alias;
                   eff = (if raw \<noteq> [] then raw else canon)
               in (canon, if has_sub '':main:'' eff \<and> \<not> has_sub '':session:'' eff then canon else eff)));
         trimmed = (if truthy_text owner then Some (strip (the owner)) else None);
         completion = (if truthy_text trimmed then resolve_internal_key trimmed canon else controller)
     in \<lparr>ow_controller = controller, ow_completion_requester = completion,
         ow_display = (if completion = canon then canon else completion)\<rparr>)"

text \<open>Replace illegal characters, collapse underscores, strip them at the ends, cut at 64.\<close>

fun collapse_underscores :: "string \<Rightarrow> string" where
  "collapse_underscores (c # d # s) =
    (if c = CHR ''_'' \<and> d = CHR ''_'' then collapse_underscores (d # s)
     else c # collapse_underscores (d # s))"
| "collapse_underscores s = s"

definition strip_underscores :: "string \<Rightarrow> string" where
  "strip_underscores s =
    rev (dropWhile (\<lambda>c. c = CHR ''_'') (rev (dropWhile (\<lambda>c. c = CHR ''_'') s)))"

definition normalize_subagent_task_name :: "string option \<Rightarrow> string option" where
  "normalize_subagent_task_name name =
    (case name of
       None \<Rightarrow> None
     | Some n \<Rightarrow>
         (let t = strip n
          in if t = [] then None
             else
               (let u = take 64 (strip_underscores (collapse_underscores
                          (map (\<lambda>c. if agent_id_char c then c else CHR ''_'') t)))
                in if u = [] then None else Some u)))"

subsection \<open>Control\<close>

definition run_controller :: "run \<Rightarrow> text_id" where
  "run_controller r =
    (case or_text (r_controller_session_key r) (Some (r_requester_session_key r)) of
       Some k \<Rightarrow> k | None \<Rightarrow> r_requester_session_key r)"

definition is_run_controllable_by :: "run \<Rightarrow> text_id \<Rightarrow> bool" where
  "is_run_controllable_by r key = (key = run_controller r)"

definition can_control_run :: "run \<Rightarrow> text_id \<Rightarrow> bool" where
  "can_control_run r key = (r_control_scope r \<noteq> S_NONE \<and> key = run_controller r)"

datatype kill_target = KT_TERMINAL | KT_FINALIZING | KT_KILLABLE

definition resolve_kill_target_state :: "run \<Rightarrow> kill_target" where
  "resolve_kill_target_state r =
    (if ex_status (r_execution r) = EX_TERMINAL then KT_TERMINAL
     else case r_kill_reconciliation r of
            Some k \<Rightarrow> if \<not> kr_reconciled k then KT_FINALIZING else KT_KILLABLE
          | None \<Rightarrow> KT_KILLABLE)"

text \<open>
  The loop of \<^verbatim>\<open>kill_subagent_run_with_cascade\<close> over the children of the killed run: the runs it
  recurses into. \<open>seen\<close> is the set \<^verbatim>\<open>seen_keys\<close>.
\<close>

fun cascade_children :: "run \<Rightarrow> registry \<Rightarrow> text_id list \<Rightarrow> run list \<Rightarrow> run list" where
  "cascade_children r s seen [] = []"
| "cascade_children r s seen (c # cs) =
    (if r_child_session_key c \<in> set seen then cascade_children r s seen cs
     else if (case latest_run (r_child_session_key c) s of
                None \<Rightarrow> True | Some l \<Rightarrow> r_run_id l \<noteq> r_run_id c)
     then cascade_children r s seen cs
     else
       (let seen' = r_child_session_key c # seen
        in if ex_status (r_execution c) = EX_TERMINAL then cascade_children r s seen' cs
           else if \<not> can_control_run c (r_child_session_key r) then cascade_children r s seen' cs
           else c # cascade_children r s seen' cs))"

definition cascade_targets :: "run \<Rightarrow> registry \<Rightarrow> run list" where
  "cascade_targets r s = cascade_children r s [] (list_runs_for_requester (r_child_session_key r) s)"

definition list_killable_children :: "text_id \<Rightarrow> registry \<Rightarrow> run list" where
  "list_killable_children key s = filter is_live_unended_run (list_runs_for_requester key s)"

subsection \<open>Spawning\<close>

text \<open>The arguments of \<^verbatim>\<open>spawn_subagent_direct\<close> that decide what is registered.\<close>

record spawn_args =
  sa_task :: string
  sa_requester :: text_id
  sa_agent_id :: string
  sa_task_name :: "string option"
  sa_label :: "string option"
  sa_thinking :: "string option"
  sa_cleanup :: cleanup_mode
  sa_cwd :: "string option"
  sa_completion_owner :: "text_id option"
  sa_expects_completion :: bool
  sa_output_schema :: "json option"
  sa_role_hint :: "string option"
  sa_extra_tools :: "string list"
  sa_flow_id :: "text_id option"
  sa_step_id :: "text_id option"

definition CANONICAL_ALIAS :: string where
  "CANONICAL_ALIAS = ''agent:main:session:default''"

definition child_session_key_of :: "string \<Rightarrow> string \<Rightarrow> text_id" where
  "child_session_key_of agent_id uuid = ''agent:'' @ agent_id @ '':subagent:'' @ uuid"

definition spawn_request_of ::
    "subagent_config \<Rightarrow> nat \<Rightarrow> string list option \<Rightarrow> functional_role \<Rightarrow> string \<Rightarrow> nat option \<Rightarrow> spawn_args
     \<Rightarrow> run_request" where
  "spawn_request_of cfg depth role_tools frole uuid max_tokens a =
    (let own = resolve_spawn_ownership (sa_requester a) (sa_completion_owner a) CANONICAL_ALIAS;
         role = fst (resolve_subagent_capabilities depth (cf_max_spawn_depth cfg));
         (allow, deny) = resolve_child_tool_policy role_tools role (sa_extra_tools a)
     in \<lparr>q_child = child_session_key_of (sa_agent_id a) uuid, q_requester = ow_completion_requester own,
         q_task = sa_task a, q_task_name = normalize_subagent_task_name (sa_task_name a),
         q_cleanup = sa_cleanup a, q_agent_id = sa_agent_id a, q_thinking = sa_thinking a,
         q_max_output_tokens = max_tokens, q_depth = depth, q_label = sa_label a,
         q_functional_role = frole, q_tool_allow = Some allow, q_tool_deny = Some deny,
         q_scopes = Some (resolve_least_privilege_scopes role),
         q_output_schema = sa_output_schema a, q_step_id = sa_step_id a, q_flow_id = sa_flow_id a,
         q_attachments_dir = None, q_attachments_root_dir = None,
         q_controller = Some (ow_controller own),
         q_completion_owner = Some (ow_completion_requester own),
         q_spawned_by = Some (sa_requester a), q_spawned_cwd = sa_cwd a,
         q_expects_completion = sa_expects_completion a, q_wake_on_settle = True\<rparr>)"

text \<open>
  The spawn: the gate, the containment check, the tool policy, the registration, the expected
  generation. Not modelled: the checks against the file system (working directory, isolated copy,
  attachments), the model plan and the background task; \<open>role_tools\<close> gives the tool list of a
  functional role's definition file, \<open>max_tokens\<close> the output budget of the model plan.
\<close>

definition spawn_subagent ::
    "subagent_config \<Rightarrow> bool \<Rightarrow> (functional_role \<Rightarrow> string list option) \<Rightarrow> string \<Rightarrow> nat option
     \<Rightarrow> text_id \<Rightarrow> string \<Rightarrow> spawn_args \<Rightarrow> registry \<times> gen_tracker
     \<Rightarrow> (spawn_refusal + run) \<times> registry \<times> gen_tracker" where
  "spawn_subagent cfg require_id role_tools default_role max_tokens i uuid a st =
    (let (s, g) = st
     in case validate_spawn_request cfg require_id s (sa_task a) (sa_agent_id a) (sa_requester a) of
          (depth, Some e) \<Rightarrow> (Inl e, s, g)
        | (depth, None) \<Rightarrow>
            (let frole = resolve_functional_role default_role (sa_role_hint a) (sa_agent_id a)
             in case check_role_containment s (sa_requester a) frole of
                  Some e \<Rightarrow> (Inl (Refused_Forbidden e), s, g)
                | None \<Rightarrow>
                    (let tools = (if frole = F_GENERAL then None else role_tools frole);
                         (r, s') = register_run cfg i
                           (spawn_request_of cfg depth tools frole uuid max_tokens a) s
                     in (Inr r, s', register_expected (r_run_id r) (r_generation r) g))))"

subsection \<open>Facts about the gate and the policy\<close>

lemma admission_sound:
  assumes "validate_spawn_request cfg rq s task agent requester = (d, None)"
  shows "d = get_subagent_depth s requester + 1 \<and> d \<le> cf_max_spawn_depth cfg \<and>
    count_active_runs_for_session requester s < cf_max_children_per_agent cfg \<and>
    total_spawns requester s < cf_max_total_spawns cfg \<and>
    strip task \<noteq> [] \<and> valid_agent_id agent \<and> is_target_allowed (cf_allow_agents cfg) agent"
  using assms
  by (auto simp: validate_spawn_request_def Let_def validate_spawn_depth_def
      validate_concurrent_children_def validate_total_spawns_def split: if_splits option.splits)

lemma append_new_set: "set (append_new base names) = set base \<union> set names"
  unfolding append_new_def by (induction names arbitrary: base) auto

lemma append_new_Nil: "append_new base names = [] \<longleftrightarrow> base = [] \<and> names = []"
  using append_new_set [of base names] by auto

lemma dedup_first_set [simp]: "set (dedup_first xs) = set xs"
  by (induction xs) auto

lemma stamp_caller_name [simp]: "t_name (stamp_caller t) = t_name t"
  by (simp add: stamp_caller_def)

lemma apply_tool_policy_mem:
  "u \<in> set (apply_tool_policy tools allow (Some deny) blocked) \<longleftrightarrow>
    (\<exists>t \<in> set tools. u = stamp_caller t \<and> \<not> main_only t \<and> t_name t \<notin> set deny \<and> t_name t \<notin> set blocked \<and>
       (allow = [] \<or> t_name t \<in> set allow))"
  by (auto simp: apply_tool_policy_def Let_def)

lemma effective_deny_leaf:
  "set (effective_child_deny deny (resolve_least_privilege_scopes R_LEAF)) =
     set deny \<union> {''sessions_spawn'', ''sessions_kill'', ''sessions_send''}"
  by (auto simp: effective_child_deny_def resolve_least_privilege_scopes_def SCOPE_TOOL_MAP_def)

lemma child_tools_mem:
  "u \<in> set (child_tools tools rt role extra) \<Longrightarrow>
    \<exists>t \<in> set tools. u = stamp_caller t \<and> \<not> main_only t \<and>
      t_name t \<notin> set (effective_child_deny (snd (resolve_child_tool_policy rt role extra))
                       (resolve_least_privilege_scopes role))"
  by (auto simp: child_tools_def child_policy_tools_def case_prod_beta apply_tool_policy_mem)

definition read_only_role :: "functional_role \<Rightarrow> bool" where
  "read_only_role r = (r \<in> {F_RESEARCHER, F_REVIEWER, F_LIBRARIAN})"

text \<open>A run of role \<open>p\<close> is let spawn a child of role \<open>c\<close>, in some state of the registry.\<close>

definition role_hires :: "functional_role \<Rightarrow> functional_role \<Rightarrow> bool" where
  "role_hires p c = (\<exists>s requester q. find_by_child_session_key requester s = Some q \<and>
     r_functional_role q = p \<and> check_role_containment s requester c = None)"

lemma role_hires_read_only: "role_hires p c \<Longrightarrow> read_only_role p \<Longrightarrow> read_only_role c"
  by (cases p) (auto simp: role_hires_def check_role_containment_def read_only_role_def
      split: if_splits)

lemma cascade_children_control:
  "c \<in> set (cascade_children r s seen cs) \<Longrightarrow>
     c \<in> set cs \<and> can_control_run c (r_child_session_key r) \<and> \<not> is_terminal c"
  by (induction r s seen cs rule: cascade_children.induct)
    (auto simp: Let_def is_terminal_def split: if_splits option.splits)

lemma cascade_children_distinct:
  "distinct (map r_child_session_key (cascade_children r s seen cs)) \<and>
   set (map r_child_session_key (cascade_children r s seen cs)) \<inter> set seen = {}"
  by (induction r s seen cs rule: cascade_children.induct)
    (auto simp: Let_def split: option.splits)

lemma collapse_chars: "list_all P s \<Longrightarrow> list_all P (collapse_underscores s)"
  by (induction s rule: collapse_underscores.induct) auto

lemma dropWhile_all: "list_all P s \<Longrightarrow> list_all P (dropWhile Q s)"
  by (auto simp: list_all_iff dest: set_dropWhileD)

lemma strip_underscores_chars: "list_all P s \<Longrightarrow> list_all P (strip_underscores s)"
  by (simp add: strip_underscores_def dropWhile_all)

lemma take_all_chars: "list_all P s \<Longrightarrow> list_all P (take n s)"
  by (auto simp: list_all_iff dest: in_set_takeD)

subsection \<open>The lifetime budget as an invariant\<close>

text \<open>
  The spawns, with a non-empty requester key, and every other operation of the registry (which
  either leaves the spawn counts alone or, at a restart, drops them).
\<close>

inductive spawn_system :: "subagent_config \<Rightarrow> registry \<times> gen_tracker \<Rightarrow> registry \<times> gen_tracker \<Rightarrow> bool"
  for cfg where
  sp_spawn: "sa_requester a \<noteq> [] \<Longrightarrow>
    spawn_system cfg st (snd (spawn_subagent cfg rq role_tools dr mt i uuid a st))"
| sp_other: "registry_step s t \<Longrightarrow> rg_spawns t = rg_spawns s \<or> rg_spawns t = [] \<Longrightarrow>
    spawn_system cfg (s, g) (t, g')"

definition budget_inv :: "subagent_config \<Rightarrow> registry \<times> gen_tracker \<Rightarrow> bool" where
  "budget_inv cfg st = (registry_wf (fst st) \<and> (\<forall>k. total_spawns k (fst st) \<le> cf_max_total_spawns cfg))"

lemma spawn_request_initiator:
  "sa_requester a \<noteq> [] \<Longrightarrow> spawn_initiator (spawn_request_of cfg d rt fr u mt a) = sa_requester a"
  by (simp add: spawn_initiator_def spawn_request_of_def Let_def case_prod_beta or_text_def)

lemma register_total_spawns:
  "total_spawns k (snd (register_run cfg i q s)) =
     (if k = spawn_initiator q then Suc (total_spawns k s) else total_spawns k s)"
  by (simp add: register_run_eq Let_def) (simp add: total_spawns_def increment_spawn_count_def Let_def)

text \<open>What a spawn does to the registry: nothing, or the registration of an admitted request.\<close>

lemma spawn_cases:
  assumes "spawn_subagent cfg rq role_tools dr mt i uuid a (s, g) = (res, s', g')"
  shows "(s' = s \<and> (\<exists>e. res = Inl e)) \<or>
    (\<exists>d fr rt r. validate_spawn_request cfg rq s (sa_task a) (sa_agent_id a) (sa_requester a) = (d, None) \<and>
       fr = resolve_functional_role dr (sa_role_hint a) (sa_agent_id a) \<and>
       check_role_containment s (sa_requester a) fr = None \<and>
       register_run cfg i (spawn_request_of cfg d rt fr uuid mt a) s = (r, s') \<and> res = Inr r)"
  using assms
  by (auto simp: spawn_subagent_def Let_def case_prod_beta prod_eq_iff split: option.splits prod.splits)

lemma spawn_budget_inv:
  assumes "budget_inv cfg (s, g)" and "sa_requester a \<noteq> []"
  shows "budget_inv cfg (snd (spawn_subagent cfg rq role_tools dr mt i uuid a (s, g)))"
proof -
  obtain res s' g' where e: "spawn_subagent cfg rq role_tools dr mt i uuid a (s, g) = (res, s', g')"
    by (cases "spawn_subagent cfg rq role_tools dr mt i uuid a (s, g)") auto
  from spawn_cases [OF e] consider "s' = s"
    | d fr rt r where "validate_spawn_request cfg rq s (sa_task a) (sa_agent_id a) (sa_requester a) = (d, None)"
        "register_run cfg i (spawn_request_of cfg d rt fr uuid mt a) s = (r, s')" by blast
  then show ?thesis
  proof cases
    case 1
    with assms(1) e show ?thesis by (simp add: budget_inv_def)
  next
    case 2
    let ?q = "spawn_request_of cfg d rt fr uuid mt a"
    have s': "s' = snd (register_run cfg i ?q s)" by (simp add: 2(2))
    have "total_spawns (sa_requester a) s < cf_max_total_spawns cfg"
      using admission_sound [OF 2(1)] by simp
    then have "total_spawns k s' \<le> cf_max_total_spawns cfg" for k
      using assms(1) by (simp add: s' register_total_spawns spawn_request_initiator [OF assms(2)] budget_inv_def)
    moreover have "registry_wf s'" using assms(1) by (simp add: s' register_run_wf budget_inv_def)
    ultimately show ?thesis using e by (simp add: budget_inv_def)
  qed
qed

lemma spawn_system_inv:
  assumes "budget_inv cfg st" and "spawn_system cfg st st'"
  shows "budget_inv cfg st'"
  using assms(2)
proof (cases rule: spawn_system.cases)
  case (sp_spawn a rq role_tools dr mt i uuid)
  with spawn_budget_inv assms(1) show ?thesis by (cases st) simp
next
  case (sp_other s t g g')
  from assms(1) sp_other(1) have inv: "registry_wf s" "\<forall>k. total_spawns k s \<le> cf_max_total_spawns cfg"
    by (simp_all add: budget_inv_def)
  from sp_other(4) have "total_spawns k t \<le> total_spawns k s" for k
    by (auto simp: total_spawns_def)
  with inv(2) have "\<forall>k. total_spawns k t \<le> cf_max_total_spawns cfg" by (meson order_trans)
  with registry_step_wf [OF inv(1) sp_other(3)] sp_other(2) show ?thesis by (simp add: budget_inv_def)
qed

lemma budget_init: "budget_inv cfg (empty_registry cap, [])"
  by (simp add: budget_inv_def empty_registry_wf) (simp add: total_spawns_def empty_registry_def)

interpretation spawn_safety: inv_system "\<lambda>st. \<exists>cap. st = (empty_registry cap, [])" "spawn_system cfg" "budget_inv cfg"
  for cfg
  by unfold_locales (auto simp: budget_init intro: spawn_system_inv)

subsection \<open>Properties\<close>

definition demo_args :: "text_id \<Rightarrow> spawn_args" where
  "demo_args requester =
    \<lparr>sa_task = ''do it'', sa_requester = requester, sa_agent_id = ''main'', sa_task_name = None,
     sa_label = None, sa_thinking = None, sa_cleanup = CL_DELETE, sa_cwd = None,
     sa_completion_owner = None, sa_expects_completion = True, sa_output_schema = None,
     sa_role_hint = Some ''executor'', sa_extra_tools = [], sa_flow_id = None, sa_step_id = None\<rparr>"



text \<open>An accepted spawn registers a run one level below its requester, not beyond the depth
  limit; the requester had a free child slot and budget left, and the child's role is one the
  requester's run may hire.\<close>

theorem accepted_spawn_sound:
  assumes "spawn_subagent cfg rq role_tools dr mt i uuid a (s, g) = (Inr r, s', g')"
  shows "r_depth r = get_subagent_depth s (sa_requester a) + 1 \<and> r_depth r \<le> cf_max_spawn_depth cfg \<and>
    count_active_runs_for_session (sa_requester a) s < cf_max_children_per_agent cfg \<and>
    total_spawns (sa_requester a) s < cf_max_total_spawns cfg \<and>
    check_role_containment s (sa_requester a) (r_functional_role r) = None"
proof -
  from spawn_cases [OF assms] obtain d fr rt where
      v: "validate_spawn_request cfg rq s (sa_task a) (sa_agent_id a) (sa_requester a) = (d, None)"
    and c: "check_role_containment s (sa_requester a) fr = None"
    and r: "register_run cfg i (spawn_request_of cfg d rt fr uuid mt a) s = (r, s')" by auto
  from r have "r_depth r = d" "r_functional_role r = fr"
    by (auto simp: register_run_def Let_def new_run_def spawn_request_of_def case_prod_beta)
  with admission_sound [OF v] c show ?thesis by simp
qed

theorem accepted_spawn_sound_witness:
  "\<exists>r s' g'. spawn_subagent default_config False (\<lambda>_. None) ''general'' None
      ''r1'' ''u1'' (demo_args ''agent:main:session:u'') (empty_registry 9, []) = (Inr r, s', g') \<and> r_depth r = 1"
proof -
  let ?x = "spawn_subagent default_config False (\<lambda>_. None) ''general'' None
      ''r1'' ''u1'' (demo_args ''agent:main:session:u'') (empty_registry 9, [])"
  have "(case fst ?x of Inl e \<Rightarrow> False | Inr r \<Rightarrow> True)" by code_simp
  then obtain r s' g' where x: "?x = (Inr r, s', g')" by (cases ?x) (auto split: sum.splits)
  have "get_subagent_depth (empty_registry 9) ''agent:main:session:u'' = 0" by code_simp
  with accepted_spawn_sound [OF x] have "r_depth r = 1" by (simp add: demo_args_def)
  with x show ?thesis by blast
qed

text \<open>Containment is transitive: along any chain of permitted spawns, through whatever states
  of the registry, a read-only role (researcher, reviewer, librarian) only ever leads to read-only
  roles, never to a role that can write.\<close>

theorem containment_no_escalation:
  assumes "role_hires\<^sup>*\<^sup>* p c" and "read_only_role p"
  shows "read_only_role c"
  using assms by (induction rule: rtranclp_induct) (auto dest: role_hires_read_only)

theorem containment_no_escalation_witness: "read_only_role F_LIBRARIAN"
proof -
  let ?s = "set_run ((demo_run ''r'' ''m'' ''x'' EX_RUNNING)\<lparr>r_functional_role := F_RESEARCHER\<rparr>) (empty_registry 5)"
  have "map_option r_functional_role (find_by_child_session_key ''x'' ?s) = Some F_RESEARCHER" by code_simp
  moreover have "check_role_containment ?s ''x'' F_LIBRARIAN = None" by code_simp
  ultimately have "role_hires F_RESEARCHER F_LIBRARIAN" by (auto simp: role_hires_def)
  moreover have "read_only_role F_RESEARCHER" by (simp add: read_only_role_def)
  ultimately show ?thesis using containment_no_escalation by blast
qed

text \<open>Whatever a role's definition lists and whatever extra tools a spawn names, no child is
  given a tool reserved to the main agent, and a leaf is never given the tools that spawn, kill
  or send to sub-agents: a leaf cannot start the recursion again.\<close>

theorem leaf_cannot_recurse:
  assumes "u \<in> set (child_tools tools role_tools role extra)"
  shows "(\<exists>t \<in> set tools. u = stamp_caller t \<and> \<not> main_only t) \<and>
    \<not> (role = R_LEAF \<and> t_name u \<in> {''sessions_spawn'', ''sessions_kill'', ''sessions_send''})"
proof -
  from child_tools_mem [OF assms] obtain t where t: "t \<in> set tools" "u = stamp_caller t" "\<not> main_only t"
    and deny: "t_name t \<notin> set (effective_child_deny (snd (resolve_child_tool_policy role_tools role extra))
                       (resolve_least_privilege_scopes role))" by blast
  from deny have "\<not> (role = R_LEAF \<and> t_name t \<in> {''sessions_spawn'', ''sessions_kill'', ''sessions_send''})"
    by (auto simp: effective_deny_leaf)
  with t show ?thesis by auto
qed

theorem leaf_cannot_recurse_witness:
  "map t_name (child_tools [\<lparr>t_name = ''sessions_spawn'', t_metadata = None\<rparr>, \<lparr>t_name = ''read_file'', t_metadata = None\<rparr>]
      (Some [''read_file'', ''sessions_spawn'']) R_LEAF [''sessions_spawn'']) = [''read_file''] \<and>
   \<not> main_only \<lparr>t_name = ''read_file'', t_metadata = None\<rparr>"
proof -
  let ?ts = "[\<lparr>t_name = ''sessions_spawn'', t_metadata = None\<rparr>, \<lparr>t_name = ''read_file'', t_metadata = None\<rparr>]"
  let ?u = "stamp_caller \<lparr>t_name = ''read_file'', t_metadata = None\<rparr>"
  have names: "map t_name (child_tools ?ts (Some [''read_file'', ''sessions_spawn'']) R_LEAF [''sessions_spawn''])
      = [''read_file'']" by code_simp
  have "?u \<in> set (child_tools ?ts (Some [''read_file'', ''sessions_spawn'']) R_LEAF [''sessions_spawn''])"
    by code_simp
  from leaf_cannot_recurse [OF this] names show ?thesis by (auto simp: main_only_def)
qed

text \<open>A functional role whose definition lists no tool at all is not confined: its leaf child is
  given every tool of the main face that is not reserved to the main agent, except the three that
  its scopes deny.\<close>

theorem empty_whitelist_grants_all:
  assumes "t \<in> set tools" and "\<not> main_only t"
    and "t_name t \<notin> {''sessions_spawn'', ''sessions_kill'', ''sessions_send''}"
  shows "stamp_caller t \<in> set (child_tools tools (Some []) R_LEAF [])"
proof -
  have "resolve_child_tool_policy (Some []) R_LEAF [] = ([], [])"
    by (simp add: resolve_child_tool_policy_def Let_def)
  then show ?thesis
    using assms by (auto simp: child_tools_def child_policy_tools_def apply_tool_policy_mem effective_deny_leaf)
qed

theorem empty_whitelist_grants_all_witness:
  "stamp_caller \<lparr>t_name = ''terminal'', t_metadata = None\<rparr> \<in>
     set (child_tools [\<lparr>t_name = ''terminal'', t_metadata = None\<rparr>] (Some []) R_LEAF [])"
  by (rule empty_whitelist_grants_all) (simp_all add: main_only_def)

text \<open>A run registered at the depth limit is controlled by no session, its own parent included,
  and a cascade kill of any run never recurses into it: the leaves of a killed tree keep running.\<close>

theorem cascade_never_reaches_leaf:
  assumes "0 < q_depth q" and "cf_max_spawn_depth cfg \<le> q_depth q"
  shows "\<not> can_control_run (new_run cfg i gen q) key \<and> new_run cfg i gen q \<notin> set (cascade_targets r s)"
proof -
  have "r_control_scope (new_run cfg i gen q) = S_NONE"
    using assms by (simp add: new_run_def resolve_role_def)
  then have n: "\<not> can_control_run (new_run cfg i gen q) k" for k by (simp add: can_control_run_def)
  then show ?thesis by (auto simp: cascade_targets_def dest: cascade_children_control)
qed

theorem cascade_never_reaches_leaf_witness:
  "cascade_targets (demo_run ''p'' ''m'' ''x'' EX_RUNNING)
     (set_run (new_run default_config ''l'' 1 ((default_request ''y'' ''x'' ''t'')\<lparr>q_depth := 2\<rparr>)) (empty_registry 5)) = [] \<and>
   \<not> can_control_run (new_run default_config ''l'' 1 ((default_request ''y'' ''x'' ''t'')\<lparr>q_depth := 2\<rparr>)) ''x''"
  using cascade_never_reaches_leaf [of "(default_request ''y'' ''x'' ''t'')\<lparr>q_depth := 2\<rparr>" default_config "''l''" 1 "''x''"]
  by (intro conjI, code_simp) (simp add: default_config_def default_request_def)

text \<open>A normalized task name is non-empty, at most 64 characters long and made of letters,
  digits, hyphens and underscores only.\<close>

theorem task_name_normalized:
  assumes "normalize_subagent_task_name name = Some u"
  shows "u \<noteq> [] \<and> length u \<le> 64 \<and> list_all agent_id_char u"
proof -
  have "agent_id_char (CHR ''_'')" by code_simp
  then have "list_all agent_id_char (map (\<lambda>c. if agent_id_char c then c else CHR ''_'') t)" for t
    by (auto simp: list_all_iff)
  then have "list_all agent_id_char (take 64 (strip_underscores (collapse_underscores
      (map (\<lambda>c. if agent_id_char c then c else CHR ''_'') t))))" for t
    by (intro take_all_chars strip_underscores_chars collapse_chars)
  with assms show ?thesis
    by (auto simp: normalize_subagent_task_name_def Let_def split: option.splits if_splits)
qed

theorem task_name_normalized_witness:
  "normalize_subagent_task_name (Some ''  fix: the bug! '') = Some ''fix_the_bug'' \<and> length ''fix_the_bug'' \<le> 64"
proof -
  have n: "normalize_subagent_task_name (Some ''  fix: the bug! '') = Some ''fix_the_bug''" by code_simp
  from task_name_normalized [OF n] n show ?thesis by simp
qed

end
