(* ===== verification/Lane.thy ===== *)
theory Lane
  imports Py_Text
begin

section \<open>Concurrency lanes\<close>

text \<open>
  Models \<^verbatim>\<open>src/runtime/lane/core.py\<close> and the limits of
  \<^verbatim>\<open>src/config/features/infra_side/lane_system.py\<close>. A lane is a semaphore with counters. The
  semaphore is the standard library's \<^verbatim>\<open>asyncio.Semaphore\<close> (Python 3.13), modelled with what
  the lane observes of it: its value, the waiting tasks in order of arrival, and the tasks that
  were granted a permit and have not run again yet. A task that is cancelled while it waits
  leaves in one step. All calls come from one event loop: the rebinding to a foreign loop, the
  wait-time warnings and the polling of \<^verbatim>\<open>drain\<close> are not modelled.
\<close>

subsection \<open>The semaphore\<close>

record 'a sem =
  sm_value :: nat
  sm_waiting :: "'a list"
  sm_granted :: "'a list"

definition new_sem :: "nat \<Rightarrow> 'a sem" where
  "new_sem n = \<lparr>sm_value = n, sm_waiting = [], sm_granted = []\<rparr>"

definition sem_locked :: "'a sem \<Rightarrow> bool" where
  "sem_locked s = (sm_value s = 0 \<or> sm_waiting s \<noteq> [] \<or> sm_granted s \<noteq> [])"

definition wake_up_next :: "'a sem \<Rightarrow> 'a sem" where
  "wake_up_next s =
    (case sm_waiting s of
       [] \<Rightarrow> s
     | t # ts \<Rightarrow> s\<lparr>sm_value := sm_value s - 1, sm_waiting := ts, sm_granted := sm_granted s @ [t]\<rparr>)"

text \<open>\<^verbatim>\<open>while self._value > 0: if not self._wake_up_next(): break\<close>.\<close>

fun wake_loop :: "nat \<Rightarrow> 'a list \<Rightarrow> 'a list \<Rightarrow> nat \<times> 'a list \<times> 'a list" where
  "wake_loop 0 ws gs = (0, ws, gs)"
| "wake_loop (Suc v) [] gs = (Suc v, [], gs)"
| "wake_loop (Suc v) (w # ws) gs = wake_loop v ws (gs @ [w])"

definition wake_all :: "'a sem \<Rightarrow> 'a sem" where
  "wake_all s =
    (let (v, ws, gs) = wake_loop (sm_value s) (sm_waiting s) (sm_granted s)
     in \<lparr>sm_value = v, sm_waiting = ws, sm_granted = gs\<rparr>)"

definition sem_release :: "'a sem \<Rightarrow> 'a sem" where
  "sem_release s = wake_up_next (s\<lparr>sm_value := sm_value s + 1\<rparr>)"

subsection \<open>The lane\<close>

record 'a lane =
  ln_max :: nat
  ln_active :: nat
  ln_queued :: nat
  ln_rebind_pending :: bool
  ln_sem :: "'a sem option"

datatype lane_error = Bad_Limit | Draining

definition new_lane :: "nat \<Rightarrow> lane_error + 'a lane" where
  "new_lane n =
    (if n < 1 then Inl Bad_Limit
     else Inr \<lparr>ln_max = n, ln_active = 0, ln_queued = 0, ln_rebind_pending = False, ln_sem = None\<rparr>)"

definition rebind :: "'a lane \<Rightarrow> 'a lane" where
  "rebind l = l\<lparr>ln_sem := Some (new_sem (max 1 (ln_max l - ln_active l)))\<rparr>"

definition apply_pending_rebind :: "'a lane \<Rightarrow> 'a lane" where
  "apply_pending_rebind l =
    (if \<not> ln_rebind_pending l \<or> 0 < ln_queued l \<or> ln_sem l = None then l
     else rebind (l\<lparr>ln_rebind_pending := False\<rparr>))"

definition ensure_sem :: "'a lane \<Rightarrow> 'a sem" where
  "ensure_sem l = (case ln_sem l of None \<Rightarrow> new_sem (ln_max l) | Some s \<Rightarrow> s)"

text \<open>
  \<^verbatim>\<open>acquire\<close> up to its first suspension: it takes a free permit and goes on at once, or it parks.
\<close>

definition lane_acquire :: "bool \<Rightarrow> 'a \<Rightarrow> 'a lane \<Rightarrow> lane_error + 'a lane" where
  "lane_acquire draining t l =
    (if draining then Inl Draining
     else
       (let l1 = apply_pending_rebind l; s = ensure_sem l1
        in Inr (if \<not> sem_locked s
                then l1\<lparr>ln_sem := Some (s\<lparr>sm_value := sm_value s - 1\<rparr>), ln_active := ln_active l1 + 1\<rparr>
                else l1\<lparr>ln_sem := Some (s\<lparr>sm_waiting := sm_waiting s @ [t]\<rparr>),
                        ln_queued := ln_queued l1 + 1\<rparr>)))"

text \<open>A granted task runs again: the rest of \<^verbatim>\<open>acquire\<close>.\<close>

definition lane_resume :: "'a \<Rightarrow> 'a lane \<Rightarrow> 'a lane" where
  "lane_resume t l =
    (case ln_sem l of
       None \<Rightarrow> l
     | Some s \<Rightarrow>
         if t \<notin> set (sm_granted s) then l
         else l\<lparr>ln_sem := Some (wake_all (s\<lparr>sm_granted := remove1 t (sm_granted s)\<rparr>)),
                ln_queued := ln_queued l - 1, ln_active := ln_active l + 1\<rparr>)"

text \<open>A parked task is cancelled, before or after it was granted a permit.\<close>

definition lane_cancel :: "'a \<Rightarrow> 'a lane \<Rightarrow> 'a lane" where
  "lane_cancel t l =
    (case ln_sem l of
       None \<Rightarrow> l
     | Some s \<Rightarrow>
         if t \<in> set (sm_waiting s)
         then l\<lparr>ln_sem := Some (wake_all (s\<lparr>sm_waiting := remove1 t (sm_waiting s)\<rparr>)),
                ln_queued := ln_queued l - 1\<rparr>
         else if t \<in> set (sm_granted s)
         then l\<lparr>ln_sem := Some (wake_all (s\<lparr>sm_granted := remove1 t (sm_granted s),
                                          sm_value := sm_value s + 1\<rparr>)),
                ln_queued := ln_queued l - 1\<rparr>
         else l)"

definition lane_release :: "'a lane \<Rightarrow> 'a lane" where
  "lane_release l =
    (if ln_active l = 0 then l
     else apply_pending_rebind
       (l\<lparr>ln_active := ln_active l - 1, ln_sem := map_option sem_release (ln_sem l)\<rparr>))"

definition set_max :: "nat \<Rightarrow> 'a lane \<Rightarrow> lane_error + 'a lane" where
  "set_max n l =
    (if n < 1 then Inl Bad_Limit
     else
       (let l1 = l\<lparr>ln_max := n\<rparr>
        in Inr (if ln_sem l1 = None then l1
                else if 0 < ln_queued l1 then l1\<lparr>ln_rebind_pending := True\<rparr>
                else rebind l1)))"

record lane_snapshot =
  ls_max :: nat
  ls_active :: nat
  ls_queued :: nat

definition lane_snap :: "'a lane \<Rightarrow> lane_snapshot" where
  "lane_snap l = \<lparr>ls_max = ln_max l, ls_active = ln_active l, ls_queued = ln_queued l\<rparr>"

subsection \<open>The manager's limits\<close>

definition DEFAULT_SUBAGENT_MAX :: nat where
  "DEFAULT_SUBAGENT_MAX = 8"

definition DEFAULT_REVIEW_MAX :: nat where
  "DEFAULT_REVIEW_MAX = 4"

text \<open>\<^verbatim>\<open>os.cpu_count()\<close> is the argument; \<open>None\<close> and zero fall back to 8.\<close>

definition resolve_main_concurrency :: "nat option \<Rightarrow> nat" where
  "resolve_main_concurrency cpu_count =
    (let cpu = (case cpu_count of None \<Rightarrow> 8 | Some n \<Rightarrow> if n = 0 then 8 else n);
         cpu_scaled = min 16 (max 8 cpu);
         invariant_floor = DEFAULT_SUBAGENT_MAX + DEFAULT_REVIEW_MAX
     in min 16 (max cpu_scaled invariant_floor))"

record lane_config =
  lc_main :: nat
  lc_subagent :: nat
  lc_review :: nat
  lc_nested :: nat

definition lane_system :: "nat option \<Rightarrow> lane_config" where
  "lane_system cpu_count =
    \<lparr>lc_main = resolve_main_concurrency cpu_count, lc_subagent = DEFAULT_SUBAGENT_MAX,
     lc_review = DEFAULT_REVIEW_MAX, lc_nested = 1\<rparr>"

datatype lane_config_error = Main_Too_Small | Subagent_Too_Small | Review_Too_Small | Nested_Too_Small

definition validate_lane_config :: "lane_config \<Rightarrow> lane_config_error option" where
  "validate_lane_config c =
    (if lc_main c < lc_subagent c + lc_review c then Some Main_Too_Small
     else if lc_subagent c < 1 then Some Subagent_Too_Small
     else if lc_review c < 1 then Some Review_Too_Small
     else if lc_nested c < 1 then Some Nested_Too_Small
     else None)"

subsection \<open>The invariant\<close>

text \<open>
  The permits in circulation: those of the semaphore, those granted and not yet taken up, and
  the active slots.
\<close>

definition lane_permits :: "'a lane \<Rightarrow> nat" where
  "lane_permits l =
    (case ln_sem l of None \<Rightarrow> ln_max l | Some s \<Rightarrow> sm_value s + length (sm_granted s) + ln_active l)"

text \<open>
  The queue counter counts the parked tasks; a parked task is waiting only while no permit is
  free or a granted task is about to wake the rest; before its first use the lane is idle.
\<close>

definition lane_inv :: "'a lane \<Rightarrow> bool" where
  "lane_inv l =
    (case ln_sem l of
       None \<Rightarrow> ln_active l = 0 \<and> ln_queued l = 0
     | Some s \<Rightarrow> ln_queued l = length (sm_waiting s) + length (sm_granted s) \<and>
         (sm_waiting s \<noteq> [] \<and> 0 < sm_value s \<longrightarrow> sm_granted s \<noteq> []))"

lemma wake_loop_spec:
  "wake_loop v ws gs = (v - length ws, drop v ws, gs @ take v ws)"
  by (induction v ws gs rule: wake_loop.induct) auto

lemma wake_all_sel:
  "sm_value (wake_all s) = sm_value s - length (sm_waiting s)"
  "sm_waiting (wake_all s) = drop (sm_value s) (sm_waiting s)"
  "sm_granted (wake_all s) = sm_granted s @ take (sm_value s) (sm_waiting s)"
  by (simp_all add: wake_all_def wake_loop_spec)

lemma wake_all_permits:
  "sm_value (wake_all s) + length (sm_granted (wake_all s)) = sm_value s + length (sm_granted s)"
  by (simp add: wake_all_sel min_def)

lemma wake_up_next_sel:
  "sm_value (wake_up_next s) = (if sm_waiting s = [] then sm_value s else sm_value s - 1)"
  "sm_waiting (wake_up_next s) = tl (sm_waiting s)"
  "sm_granted (wake_up_next s) = sm_granted s @ take 1 (sm_waiting s)"
  by (simp_all add: wake_up_next_def split: list.split)

lemma rebind_inv: "ln_queued l = 0 \<Longrightarrow> lane_inv (rebind l)"
  by (simp add: rebind_def lane_inv_def new_sem_def)

lemma apply_pending_inv: "lane_inv l \<Longrightarrow> lane_inv (apply_pending_rebind l)"
  by (simp add: apply_pending_rebind_def rebind_inv)

lemma acquire_inv: "lane_inv l \<Longrightarrow> lane_acquire d t l = Inr l' \<Longrightarrow> lane_inv l'"
proof -
  assume "lane_inv l" and a: "lane_acquire d t l = Inr l'"
  then have inv: "lane_inv (apply_pending_rebind l)" by (simp add: apply_pending_inv)
  from a show ?thesis
    using inv
    by (auto simp: lane_acquire_def Let_def lane_inv_def ensure_sem_def sem_locked_def new_sem_def
        split: if_splits option.splits)
qed

lemma resume_inv:
  assumes "lane_inv l"
  shows "lane_inv (lane_resume t l)"
proof (cases "ln_sem l")
  case (Some s)
  show ?thesis
  proof (cases "t \<in> set (sm_granted s)")
    case True
    then obtain n where "length (sm_granted s) = Suc n" by (cases "sm_granted s") auto
    with True Some assms show ?thesis
      by (auto simp: lane_resume_def lane_inv_def wake_all_sel length_remove1)
  qed (use Some assms in \<open>simp add: lane_resume_def\<close>)
qed (use assms in \<open>simp add: lane_resume_def\<close>)

lemma cancel_inv:
  assumes "lane_inv l"
  shows "lane_inv (lane_cancel t l)"
proof (cases "ln_sem l")
  case (Some s)
  consider (w) "t \<in> set (sm_waiting s)" | (g) "t \<notin> set (sm_waiting s)" "t \<in> set (sm_granted s)"
    | (n) "t \<notin> set (sm_waiting s)" "t \<notin> set (sm_granted s)" by blast
  then show ?thesis
  proof cases
    case w
    then obtain n where "length (sm_waiting s) = Suc n" by (cases "sm_waiting s") auto
    with w Some assms show ?thesis
      by (auto simp: lane_cancel_def lane_inv_def wake_all_sel length_remove1)
  next
    case g
    then obtain n where "length (sm_granted s) = Suc n" by (cases "sm_granted s") auto
    with g Some assms show ?thesis
      by (auto simp: lane_cancel_def lane_inv_def wake_all_sel length_remove1)
  qed (use Some assms in \<open>simp add: lane_cancel_def\<close>)
qed (use assms in \<open>simp add: lane_cancel_def\<close>)

lemma sem_release_inv:
  assumes "lane_inv l" and "0 < ln_active l"
  shows "lane_inv (l\<lparr>ln_active := ln_active l - 1, ln_sem := map_option sem_release (ln_sem l)\<rparr>)"
proof (cases "ln_sem l")
  case (Some s)
  with assms show ?thesis
    by (cases "sm_waiting s") (simp_all add: lane_inv_def sem_release_def wake_up_next_sel)
qed (use assms in \<open>simp add: lane_inv_def\<close>)

lemma release_inv: "lane_inv l \<Longrightarrow> lane_inv (lane_release l)"
  using sem_release_inv [of l] by (simp add: lane_release_def apply_pending_inv)

lemma set_max_inv: "lane_inv l \<Longrightarrow> set_max n l = Inr l' \<Longrightarrow> lane_inv l'"
proof -
  assume inv: "lane_inv l" and s: "set_max n l = Inr l'"
  then consider "l' = l\<lparr>ln_max := n\<rparr>" | "l' = l\<lparr>ln_max := n, ln_rebind_pending := True\<rparr>"
    | "ln_queued l = 0" "l' = rebind (l\<lparr>ln_max := n\<rparr>)"
    by (auto simp: set_max_def Let_def split: if_splits)
  then show ?thesis
    by cases (use inv in \<open>simp_all add: lane_inv_def rebind_inv [unfolded lane_inv_def] split: option.splits\<close>)
qed

subsection \<open>Use of a lane whose limit is not changed\<close>

inductive lane_use :: "'a lane \<Rightarrow> 'a lane \<Rightarrow> bool" where
  use_acquire: "lane_acquire d t l = Inr l' \<Longrightarrow> lane_use l l'"
| use_resume: "lane_use l (lane_resume t l)"
| use_cancel: "lane_use l (lane_cancel t l)"
| use_release: "lane_use l (lane_release l)"

definition lane_exact :: "nat \<Rightarrow> 'a lane \<Rightarrow> bool" where
  "lane_exact n l = (lane_inv l \<and> ln_max l = n \<and> lane_permits l = n \<and> \<not> ln_rebind_pending l)"

lemma exact_pending [simp]: "\<not> ln_rebind_pending l \<Longrightarrow> apply_pending_rebind l = l"
  by (simp add: apply_pending_rebind_def)

lemma acquire_exact:
  assumes "lane_exact n l" and "lane_acquire d t l = Inr l'"
  shows "lane_exact n l'"
proof -
  from assms have inv: "lane_inv l'" by (auto simp: lane_exact_def intro: acquire_inv)
  with assms show ?thesis
    by (auto simp: lane_exact_def lane_acquire_def Let_def lane_permits_def lane_inv_def ensure_sem_def
        sem_locked_def new_sem_def split: if_splits option.splits)
qed

lemma resume_exact:
  assumes "lane_exact n l"
  shows "lane_exact n (lane_resume t l)"
proof -
  have inv: "lane_inv (lane_resume t l)" using assms by (simp add: lane_exact_def resume_inv)
  show ?thesis
  proof (cases "ln_sem l")
    case (Some s)
    show ?thesis
    proof (cases "t \<in> set (sm_granted s)")
      case True
      then obtain m where "length (sm_granted s) = Suc m" by (cases "sm_granted s") auto
      with True Some assms inv show ?thesis
        by (simp add: lane_exact_def lane_resume_def lane_permits_def wake_all_permits length_remove1)
    qed (use Some assms in \<open>simp add: lane_resume_def\<close>)
  qed (use assms in \<open>simp add: lane_resume_def\<close>)
qed

lemma cancel_exact:
  assumes "lane_exact n l"
  shows "lane_exact n (lane_cancel t l)"
proof -
  have inv: "lane_inv (lane_cancel t l)" using assms by (simp add: lane_exact_def cancel_inv)
  show ?thesis
  proof (cases "ln_sem l")
    case (Some s)
    consider (w) "t \<in> set (sm_waiting s)" | (g) "t \<notin> set (sm_waiting s)" "t \<in> set (sm_granted s)"
      | (n) "t \<notin> set (sm_waiting s)" "t \<notin> set (sm_granted s)" by blast
    then show ?thesis
    proof cases
      case w
      with Some assms inv show ?thesis
        by (simp add: lane_exact_def lane_cancel_def lane_permits_def wake_all_permits length_remove1)
    next
      case g
      then obtain m where "length (sm_granted s) = Suc m" by (cases "sm_granted s") auto
      with g Some assms inv show ?thesis
        by (simp add: lane_exact_def lane_cancel_def lane_permits_def wake_all_permits length_remove1)
    qed (use Some assms in \<open>simp add: lane_cancel_def\<close>)
  qed (use assms in \<open>simp add: lane_cancel_def\<close>)
qed

lemma release_exact:
  assumes "lane_exact n l"
  shows "lane_exact n (lane_release l)"
proof (cases "ln_active l = 0")
  case False
  have inv: "lane_inv (lane_release l)" using assms by (simp add: lane_exact_def release_inv)
  obtain s where s: "ln_sem l = Some s"
    using assms False by (cases "ln_sem l") (simp_all add: lane_exact_def lane_inv_def)
  obtain m where "ln_active l = Suc m" using False by (cases "ln_active l") simp_all
  with assms inv s show ?thesis
    by (cases "sm_waiting s")
      (simp_all add: lane_exact_def lane_release_def lane_permits_def sem_release_def wake_up_next_sel)
qed (use assms in \<open>simp add: lane_release_def\<close>)

interpretation lane_safety: inv_system "\<lambda>l. new_lane n = Inr l" lane_use "lane_exact n" for n
proof
  show "new_lane n = Inr l \<Longrightarrow> lane_exact n l" for l :: "'a lane"
    by (auto simp: new_lane_def lane_exact_def lane_inv_def lane_permits_def split: if_splits)
  show "lane_exact n l \<Longrightarrow> lane_use l l' \<Longrightarrow> lane_exact n l'" for l l' :: "'a lane"
    by (erule lane_use.cases) (auto intro: acquire_exact resume_exact cancel_exact release_exact)
qed

subsection \<open>Permits are granted in order of arrival\<close>

text \<open>The next grant: a release hands its permit to the task that waits longest.\<close>

definition next_grant :: "'a sem \<Rightarrow> 'a option \<times> 'a sem" where
  "next_grant s = (case sm_waiting s of [] \<Rightarrow> (None, s) | t # _ \<Rightarrow> (Some t, sem_release s))"

interpretation lane_grants: claim_queue "\<lambda>s. True" sm_waiting next_grant
  by unfold_locales (auto simp: next_grant_def sem_release_def wake_up_next_sel split: list.splits)

lemma grants_append:
  "sm_granted (snd (drain next_grant n s)) = sm_granted s @ fst (drain next_grant n s)"
proof (induction n arbitrary: s)
  case (Suc n)
  show ?case
  proof (cases "sm_waiting s")
    case Nil
    then show ?thesis by (simp add: next_grant_def)
  next
    case (Cons t ts)
    then have "sm_granted (sem_release s) = sm_granted s @ [t]"
      by (simp add: sem_release_def wake_up_next_sel)
    with Cons Suc.IH [of "sem_release s"] show ?thesis
      by (simp add: next_grant_def case_prod_beta Let_def)
  qed
qed simp

subsection \<open>Changing the limit\<close>

fun release_times :: "nat \<Rightarrow> 'a lane \<Rightarrow> 'a lane" where
  "release_times 0 l = l"
| "release_times (Suc n) l = release_times n (lane_release l)"

lemma release_idle_permits:
  assumes "ln_sem l = Some s" and "sm_waiting s = []" and "sm_granted s = []" and "\<not> ln_rebind_pending l"
    and "k \<le> ln_active l"
  shows "\<exists>s'. ln_sem (release_times k l) = Some s' \<and> sm_value s' = sm_value s + k \<and>
    ln_active (release_times k l) = ln_active l - k"
  using assms
proof (induction k arbitrary: l s)
  case (Suc k)
  have l': "lane_release l = l\<lparr>ln_active := ln_active l - 1, ln_sem := Some (s\<lparr>sm_value := sm_value s + 1\<rparr>)\<rparr>"
    using Suc.prems by (simp add: lane_release_def sem_release_def wake_up_next_def)
  have "\<exists>s'. ln_sem (release_times k (lane_release l)) = Some s' \<and>
      sm_value s' = sm_value (s\<lparr>sm_value := sm_value s + 1\<rparr>) + k \<and>
      ln_active (release_times k (lane_release l)) = ln_active (lane_release l) - k"
    using Suc.prems by (intro Suc.IH) (simp_all add: l')
  then show ?case using Suc.prems(5) by (auto simp: l')
qed simp

lemma set_max_full:
  assumes "ln_sem l = Some s" and "ln_queued l = 0" and "0 < m" and "m \<le> ln_active l"
  shows "set_max m l = Inr (rebind (l\<lparr>ln_max := m\<rparr>))"
    and "ln_sem (rebind (l\<lparr>ln_max := m\<rparr>)) = Some (new_sem 1)"
  using assms by (simp_all add: set_max_def Let_def rebind_def)

subsection \<open>Properties\<close>

definition demo_lane :: "string lane" where
  "demo_lane = \<lparr>ln_max = 2, ln_active = 2, ln_queued = 0, ln_rebind_pending = False, ln_sem = Some (new_sem 0)\<rparr>"

text \<open>C5: As long as the limit is not changed, in every state that acquires, cancellations,
  resumptions and releases can reach, at most the configured number of slots is active, every
  permit is accounted for, the queue counter is exact, and no wakeup is lost: a task waits while a
  permit is free only when a granted task is about to run and wake it.\<close>

theorem lane_never_over_limit:
  assumes "new_lane n = Inr l0" and "lane_use\<^sup>*\<^sup>* l0 l"
  shows "ln_active l \<le> n \<and> lane_permits l = n \<and>
    (case ln_sem l of None \<Rightarrow> ln_queued l = 0
     | Some s \<Rightarrow> ln_queued l = length (sm_waiting s) + length (sm_granted s) \<and>
         (sm_waiting s = [] \<or> sm_value s = 0 \<or> sm_granted s \<noteq> []))"
proof -
  from lane_safety.reachable_inv [OF assms] have e: "lane_exact n l" .
  then show ?thesis
    by (cases "ln_sem l") (auto simp: lane_exact_def lane_inv_def lane_permits_def)
qed

theorem lane_never_over_limit_witness:
  "ln_active (lane_release \<lparr>ln_max = 2, ln_active = 0, ln_queued = 0, ln_rebind_pending = False,
     ln_sem = None :: string sem option\<rparr>) \<le> 2"
proof -
  have n: "new_lane 2 = Inr \<lparr>ln_max = 2, ln_active = 0, ln_queued = 0, ln_rebind_pending = False,
     ln_sem = None :: string sem option\<rparr>" by (simp add: new_lane_def)
  from lane_never_over_limit [OF n r_into_rtranclp [where r = lane_use, OF use_release]]
  show ?thesis by blast
qed

text \<open>Permits go to the waiting tasks in their order of arrival: \<open>n\<close> releases grant exactly
  the first \<open>n\<close> of the queue, appended in order to the granted tasks, and leave the rest queued.\<close>

theorem lane_grants_fifo:
  "fst (drain next_grant n s) = take n (sm_waiting s) \<and>
   sm_waiting (snd (drain next_grant n s)) = drop n (sm_waiting s) \<and>
   sm_granted (snd (drain next_grant n s)) = sm_granted s @ take n (sm_waiting s)"
  by (simp add: grants_append lane_grants.drain_take lane_grants.drain_waiting)

text \<open>Lowering the limit of a full lane raises it: with \<open>n\<close> active slots and nobody queued,
  setting any limit up to \<open>n\<close> leaves \<open>n + 1\<close> permits in circulation, and once the old slots are
  released all \<open>n + 1\<close> are free at the same time.\<close>

theorem lowering_full_lane_raises_capacity:
  assumes "ln_sem l = Some s" and "ln_queued l = 0" and "0 < m" and "m \<le> ln_active l"
    and "\<not> ln_rebind_pending l"
  shows "\<exists>l'. set_max m l = Inr l' \<and> ln_max l' = m \<and> lane_permits l' = ln_active l + 1 \<and>
    (\<exists>s'. ln_sem (release_times (ln_active l) l') = Some s' \<and> sm_value s' = ln_active l + 1)"
proof -
  let ?l = "rebind (l\<lparr>ln_max := m\<rparr>)"
  note full = set_max_full [OF assms(1-4)]
  have sel: "ln_active ?l = ln_active l" "\<not> ln_rebind_pending ?l" "ln_max ?l = m"
    using assms(5) by (simp_all add: rebind_def)
  from release_idle_permits [OF full(2), of "ln_active l"] sel
  obtain s' where "ln_sem (release_times (ln_active l) ?l) = Some s'" "sm_value s' = ln_active l + 1"
    by (auto simp: new_sem_def)
  moreover have "lane_permits ?l = ln_active l + 1"
    using full(2) sel by (simp add: lane_permits_def new_sem_def)
  ultimately show ?thesis using full(1) sel by blast
qed

theorem lowering_full_lane_raises_capacity_witness:
  "\<exists>l'. set_max 1 demo_lane = Inr l' \<and> lane_permits l' = 3"
proof -
  have "ln_sem demo_lane = Some (new_sem 0)" "ln_queued demo_lane = 0" "0 < (1 :: nat)"
    "1 \<le> ln_active demo_lane" "\<not> ln_rebind_pending demo_lane" "ln_active demo_lane = 2"
    by (simp_all add: demo_lane_def)
  with lowering_full_lane_raises_capacity [of demo_lane "new_sem 0" 1] show ?thesis by auto
qed

text \<open>On every machine, whatever number of CPUs it reports or fails to report, the shipped
  limits pass the start-up validation, and the main lane has between 12 and 16 slots.\<close>

theorem shipped_lane_limits_valid:
  "validate_lane_config (lane_system cpus) = None \<and>
   12 \<le> lc_main (lane_system cpus) \<and> lc_main (lane_system cpus) \<le> 16"
  by (simp add: validate_lane_config_def lane_system_def resolve_main_concurrency_def Let_def
      DEFAULT_SUBAGENT_MAX_def DEFAULT_REVIEW_MAX_def)

end
