(* ===== verification/Boot_Backoff.thy ===== *)
theory Boot_Backoff
  imports Py_Text
begin

section \<open>Boot lifecycle, periodic backoff, retry delays\<close>

text \<open>
  Models \<^verbatim>\<open>src/runtime/process/crash_loop_breaker.py\<close> (the state file as a value),
  \<^verbatim>\<open>src/runtime/process/periodic_backoff.py\<close> and \<^verbatim>\<open>compute_retry_delay\<close> of
  \<^verbatim>\<open>src/pub/func/retry_policy.py\<close>. The parsing of HTTP headers is not modelled.
\<close>

subsection \<open>The crash-loop breaker\<close>

definition WINDOW_S :: time where
  "WINDOW_S = 300"

definition TRIP_THRESHOLD :: nat where
  "TRIP_THRESHOLD = 3"

definition RETENTION_S :: time where
  "RETENTION_S = 3600"

definition REASON_MAX_LEN :: nat where
  "REASON_MAX_LEN = 200"

text \<open>The state file: absent, not readable as JSON, or a JSON value.\<close>

datatype state_file = No_File | Corrupt_File | File_Content json

definition empty_state :: "(string \<times> json) list" where
  "empty_state = [(''boots'', JList []), (''last_exit_clean'', JBool False)]"

definition read_state :: "state_file \<Rightarrow> (string \<times> json) list" where
  "read_state f = (case f of File_Content (JDict d) \<Rightarrow> d | _ \<Rightarrow> empty_state)"

text \<open>A decimal literal, as \<^verbatim>\<open>float(text)\<close> reads it (without exponents, infinities and underscores).\<close>

fun digits_value :: "string \<Rightarrow> nat \<Rightarrow> nat option" where
  "digits_value [] n = Some n"
| "digits_value (c # s) n =
    (let k = (of_char c :: nat) in if 48 \<le> k \<and> k \<le> 57 then digits_value s (10 * n + (k - 48)) else None)"

definition float_text :: "string \<Rightarrow> rat option" where
  "float_text raw =
    (let t = strip raw;
         neg = (t \<noteq> [] \<and> hd t = CHR ''-'');
         u = (if t \<noteq> [] \<and> hd t \<in> {CHR ''-'', CHR ''+''} then tl t else t);
         w = takeWhile (\<lambda>c. c \<noteq> CHR ''.'') u;
         frac = drop (Suc (length w)) u
     in if w = [] \<and> frac = [] then None
        else
          (case (digits_value w 0, digits_value frac 0) of
             (Some a, Some b) \<Rightarrow>
               (let q = of_nat a + of_nat b / 10 ^ length frac in Some (if neg then - q else q))
           | _ \<Rightarrow> None))"

definition ts_of :: "json \<Rightarrow> time option" where
  "ts_of record =
    (case record of
       JDict d \<Rightarrow>
         (case dict_get d ''ts'' of
            Some (JInt i) \<Rightarrow> Some (of_int i)
          | Some (JFloat q) \<Rightarrow> Some q
          | Some (JBool b) \<Rightarrow> Some (if b then 1 else 0)
          | Some (JStr s) \<Rightarrow> float_text s
          | _ \<Rightarrow> None)
     | _ \<Rightarrow> None)"

text \<open>\<^verbatim>\<open>(ts := _ts_of(r)) is not None and now - ts < limit\<close>.\<close>

definition recent_record :: "time \<Rightarrow> time \<Rightarrow> json \<Rightarrow> bool" where
  "recent_record now limit r = (case ts_of r of None \<Rightarrow> False | Some t \<Rightarrow> now - t < limit)"

definition record_clean :: "json \<Rightarrow> bool" where
  "record_clean r = (case r of JDict d \<Rightarrow> truthy (jget ''clean'' d) | _ \<Rightarrow> False)"

definition is_tripped :: "time \<Rightarrow> state_file \<Rightarrow> bool" where
  "is_tripped now f =
    (case dict_get (read_state f) ''boots'' of
       Some (JList boots) \<Rightarrow>
         TRIP_THRESHOLD \<le> length (filter (\<lambda>r. recent_record now WINDOW_S r \<and> \<not> record_clean r) boots)
     | _ \<Rightarrow> False)"

definition boot_record :: "time \<Rightarrow> bool \<Rightarrow> string \<Rightarrow> json" where
  "boot_record now clean reason =
    JDict [(''ts'', JFloat now), (''clean'', JBool clean), (''reason'', JStr (take REASON_MAX_LEN reason))]"

text \<open>\<open>writable\<close>: a failed write is logged and swallowed, the file stays as it was.\<close>

definition record_boot ::
    "bool \<Rightarrow> time \<Rightarrow> bool \<Rightarrow> string \<Rightarrow> state_file \<Rightarrow> bool \<times> state_file" where
  "record_boot writable now clean reason f =
    (let state = read_state f;
         old = (case dict_get state ''boots'' of Some (JList bs) \<Rightarrow> bs | _ \<Rightarrow> []);
         boots = filter (recent_record now RETENTION_S) old @ [boot_record now clean reason];
         state' = dict_set ''last_exit_clean'' (JBool False) (dict_set ''boots'' (JList boots) state);
         f' = (if writable then File_Content (JDict state') else f)
     in (is_tripped now f', f'))"

definition clear_state :: "state_file \<Rightarrow> state_file" where
  "clear_state f = No_File"

definition mark_clean_exit :: "bool \<Rightarrow> state_file \<Rightarrow> state_file" where
  "mark_clean_exit writable f =
    (if writable then File_Content (JDict (dict_set ''last_exit_clean'' (JBool True) (read_state f))) else f)"

definition was_last_exit_clean :: "state_file \<Rightarrow> bool" where
  "was_last_exit_clean f = truthy (jget ''last_exit_clean'' (read_state f))"

subsection \<open>Periodic backoff\<close>

record backoff =
  bo_base :: rat
  bo_factor :: rat
  bo_max :: rat
  bo_max_failures :: nat
  bo_current :: rat
  bo_failures :: nat
  bo_reason :: string
  bo_exhausted :: bool

definition new_backoff :: "rat \<Rightarrow> backoff" where
  "new_backoff base =
    \<lparr>bo_base = base, bo_factor = 2, bo_max = 7200, bo_max_failures = 5, bo_current = base,
     bo_failures = 0, bo_reason = [], bo_exhausted = False\<rparr>"

definition record_failure :: "string \<Rightarrow> backoff \<Rightarrow> backoff" where
  "record_failure reason b =
    (let n = bo_failures b + 1
     in b\<lparr>bo_failures := n, bo_current := min (bo_base b * bo_factor b ^ n) (bo_max b),
          bo_reason := reason,
          bo_exhausted := (if bo_max_failures b \<le> n then True else bo_exhausted b)\<rparr>)"

definition record_success :: "backoff \<Rightarrow> backoff" where
  "record_success b =
    b\<lparr>bo_failures := 0, bo_current := bo_base b, bo_exhausted := False, bo_reason := []\<rparr>"

subsection \<open>Retry delays\<close>

datatype jitter_mode = Jitter_None | Jitter_Symmetric | Jitter_Full

record retry_params =
  rp_base :: rat
  rp_factor :: rat
  rp_max :: rat
  rp_mode :: jitter_mode
  rp_jitter :: rat
  rp_retry_after :: "rat option"
  rp_retry_after_cap :: rat
  rp_respect :: bool

definition round3 :: "rat \<Rightarrow> rat" where
  "round3 q = of_int (py_round (q * 1000)) / 1000"

definition capped_delay :: "nat \<Rightarrow> retry_params \<Rightarrow> rat" where
  "capped_delay attempt p =
    min (max 0 (rp_base p) * max 1 (rp_factor p) ^ (attempt - 1)) (max 0 (rp_max p))"

text \<open>\<open>rnd\<close> is \<^verbatim>\<open>random.random()\<close>, in the half-open unit interval.\<close>

definition local_delay :: "rat \<Rightarrow> nat \<Rightarrow> retry_params \<Rightarrow> rat" where
  "local_delay rnd attempt p =
    (let capped = capped_delay attempt p
     in if capped \<le> 0 then 0
        else case rp_mode p of
               Jitter_None \<Rightarrow> round3 capped
             | Jitter_Symmetric \<Rightarrow>
                 max 0 (min (rp_max p) (capped + capped * max 0 (rp_jitter p) * (rnd * 2 - 1)))
             | Jitter_Full \<Rightarrow> round3 (capped * (1 / 2 + rnd * (1 / 2))))"

definition compute_retry_delay :: "rat \<Rightarrow> nat \<Rightarrow> retry_params \<Rightarrow> rat" where
  "compute_retry_delay rnd attempt p =
    (case (if rp_respect p then rp_retry_after p else None) of
       Some h \<Rightarrow> if 0 < h \<and> h \<le> max 0 (rp_retry_after_cap p) then h else local_delay rnd attempt p
     | None \<Rightarrow> local_delay rnd attempt p)"

subsection \<open>A history of boots\<close>

text \<open>The boots of a machine, each with its time, whether the last exit was clean, and a reason.\<close>

definition run_boots :: "(time \<times> bool \<times> string) list \<Rightarrow> state_file \<Rightarrow> state_file" where
  "run_boots bs f = fold (\<lambda>(t, c, r) f. snd (record_boot True t c r f)) bs f"

definition stored_boots :: "state_file \<Rightarrow> json list" where
  "stored_boots f = (case dict_get (read_state f) ''boots'' of Some (JList bs) \<Rightarrow> bs | _ \<Rightarrow> [])"

lemma ts_of_boot [simp]: "ts_of (boot_record t c r) = Some t"
  by (simp add: ts_of_def boot_record_def)

lemma clean_boot [simp]: "record_clean (boot_record t c r) = c"
  by (simp add: record_clean_def boot_record_def jget_def)

lemma recent_boot [simp]: "recent_record now limit (boot_record t c r) = (now - t < limit)"
  by (simp add: recent_record_def)

lemma stored_record_boot:
  "stored_boots (snd (record_boot True now c r f)) =
     filter (recent_record now RETENTION_S) (stored_boots f) @ [boot_record now c r]"
  by (simp add: record_boot_def Let_def stored_boots_def read_state_def)

lemma record_boot_shape:
  "dict_get (read_state (snd (record_boot True now c r f))) ''boots'' =
     Some (JList (stored_boots (snd (record_boot True now c r f))))"
  by (simp add: record_boot_def Let_def stored_boots_def read_state_def)

lemma fst_record_boot: "fst (record_boot w now c r f) = is_tripped now (snd (record_boot w now c r f))"
  by (simp add: record_boot_def Let_def)

lemma stored_boots_run:
  assumes "sorted (map fst bs)" and "bs \<noteq> []"
  shows "stored_boots (run_boots bs No_File) =
    map (\<lambda>(t, c, r). boot_record t c r) (filter (\<lambda>b. fst (last bs) - fst b < RETENTION_S) bs)"
  using assms
proof (induction bs rule: rev_induct)
  case (snoc b bs)
  obtain t c r where b: "b = (t, c, r)" by (cases b)
  have step: "stored_boots (run_boots (bs @ [b]) No_File) =
      filter (recent_record t RETENTION_S) (stored_boots (run_boots bs No_File)) @ [boot_record t c r]"
    by (simp add: run_boots_def b stored_record_boot)
  show ?case
  proof (cases "bs = []")
    case True
    have "stored_boots (run_boots [] No_File) = []"
      by (simp add: run_boots_def stored_boots_def read_state_def empty_state_def)
    then show ?thesis unfolding step by (simp add: True b RETENTION_S_def)
  next
    case False
    from snoc.prems have sorted: "sorted (map fst bs)" by (simp add: sorted_append)
    have "fst (last bs) \<le> t" using snoc.prems False b by (simp add: sorted_append)
    then have "t - fst x < RETENTION_S \<Longrightarrow> fst (last bs) - fst x < RETENTION_S" for x :: "time \<times> bool \<times> string"
      by simp
    then have "filter (\<lambda>x. fst (last bs) - fst x < RETENTION_S \<and> t - fst x < RETENTION_S) bs
        = filter (\<lambda>x. t - fst x < RETENTION_S) bs"
      by (intro filter_cong) auto
    then show ?thesis
      unfolding step using snoc.IH [OF sorted False]
      by (simp add: b filter_map comp_def case_prod_beta RETENTION_S_def)
  qed
qed simp

lemma length_filter_map_boot:
  "length (filter P (map f xs)) = length (filter (P \<circ> f) xs)"
  by (simp add: filter_map)

lemma run_boots_shape:
  "bs \<noteq> [] \<Longrightarrow> dict_get (read_state (run_boots bs f)) ''boots'' = Some (JList (stored_boots (run_boots bs f)))"
  by (induction bs rule: rev_induct) (auto simp: run_boots_def record_boot_shape)

lemma is_tripped_stored:
  "dict_get (read_state f) ''boots'' = Some (JList (stored_boots f)) \<Longrightarrow>
   is_tripped now f = (TRIP_THRESHOLD \<le>
     length (filter (\<lambda>r. recent_record now WINDOW_S r \<and> \<not> record_clean r) (stored_boots f)))"
  by (simp add: is_tripped_def)

lemma tripped_run:
  assumes "sorted (map fst bs)" and "bs \<noteq> []" and "fst (last bs) \<le> now"
  shows "is_tripped now (run_boots bs No_File) \<longleftrightarrow>
    3 \<le> length (filter (\<lambda>(t, c, r). now - t < 300 \<and> \<not> c) bs)"
proof -
  have "now - t < 300 \<Longrightarrow> fst (last bs) - t < 3600" for t using assms(3) by simp
  then have "filter (\<lambda>x. fst (last bs) - fst x < 3600 \<and> now - fst x < 300 \<and> \<not> fst (snd x)) bs
      = filter (\<lambda>x. now - fst x < 300 \<and> \<not> fst (snd x)) bs"
    by (intro filter_cong) auto
  then show ?thesis
    by (simp add: is_tripped_stored run_boots_shape assms stored_boots_run filter_map comp_def
        case_prod_unfold TRIP_THRESHOLD_def WINDOW_S_def RETENTION_S_def)
qed

subsection \<open>A history of outcomes\<close>

datatype outcome_event = Ev_Failure string | Ev_Success

fun backoff_event :: "outcome_event \<Rightarrow> backoff \<Rightarrow> backoff" where
  "backoff_event (Ev_Failure r) b = record_failure r b"
| "backoff_event Ev_Success b = record_success b"

fun is_failure :: "outcome_event \<Rightarrow> bool" where
  "is_failure (Ev_Failure _) = True"
| "is_failure Ev_Success = False"

text \<open>The failures since the last success.\<close>

definition trailing_failures :: "outcome_event list \<Rightarrow> nat" where
  "trailing_failures es = length (takeWhile is_failure (rev es))"

lemma trailing_snoc:
  "trailing_failures (es @ [e]) = (if is_failure e then Suc (trailing_failures es) else 0)"
  by (simp add: trailing_failures_def)

lemma backoff_closed_form:
  "fold backoff_event es (new_backoff base) =
    (let n = trailing_failures es
     in (new_backoff base)\<lparr>bo_failures := n,
          bo_current := (if n = 0 then base else min (base * 2 ^ n) 7200),
          bo_reason := bo_reason (fold backoff_event es (new_backoff base)),
          bo_exhausted := (5 \<le> n)\<rparr>)"
proof (induction es rule: rev_induct)
  case Nil
  then show ?case by (simp add: trailing_failures_def new_backoff_def)
next
  case (snoc e es)
  show ?case
  proof (cases e)
    case (Ev_Failure r)
    then show ?thesis
      by (subst (1) fold_append, subst (1) comp_apply, subst snoc.IH)
        (auto simp: trailing_snoc record_failure_def new_backoff_def Let_def)
  next
    case Ev_Success
    then show ?thesis
      by (subst (1) fold_append, subst (1) comp_apply, subst snoc.IH)
        (simp add: trailing_snoc record_success_def new_backoff_def Let_def)
  qed
qed

lemma py_round_near: "\<bar>of_int (py_round q) - q\<bar> \<le> 1 / 2"
proof -
  obtain f where f: "f = \<lfloor>q\<rfloor>" "of_int f \<le> q" "q < of_int f + 1"
    by (rule that [OF refl]) linarith+
  then show ?thesis by (auto simp: py_round_def Let_def abs_if f(1) [symmetric])
qed

lemma round3_near: "\<bar>round3 q - q\<bar> \<le> 1 / 2000"
  using py_round_near [of "q * 1000"] by (simp add: round3_def abs_if split: if_splits)

lemma capped_delay_bounds: "0 \<le> capped_delay a p" "capped_delay a p \<le> max 0 (rp_max p)"
  by (simp_all add: capped_delay_def)

subsection \<open>Properties\<close>

text \<open>After any non-empty history of boots with a clock that does not run backwards, starting
  without a state file, the breaker is tripped exactly when at least three boots of the last five
  minutes followed an unclean exit: pruning never hides one of them and clean boots never reset
  the count.\<close>

theorem breaker_trips_iff:
  assumes "sorted (map fst bs)" and "bs \<noteq> []" and "fst (last bs) \<le> now"
  shows "is_tripped now (run_boots bs No_File) \<longleftrightarrow>
    3 \<le> length (filter (\<lambda>(t, c, r). now - t < 300 \<and> \<not> c) bs)"
  by (rule tripped_run [OF assms])

theorem breaker_trips_iff_witness:
  "is_tripped 450 (run_boots [(10, False, []), (200, False, []), (210, True, []), (300, False, []), (440, False, [])] No_File)"
proof -
  let ?bs = "[(10, False, []), (200, False, []), (210, True, []), (300, False, []), (440, False, [])] :: (time \<times> bool \<times> string) list"
  have "sorted (map fst ?bs)" "?bs \<noteq> []" "fst (last ?bs) \<le> 450" by simp_all
  moreover have "3 \<le> length (filter (\<lambda>(t, c, r). 450 - t < 300 \<and> \<not> c) ?bs)" by simp
  ultimately show ?thesis using breaker_trips_iff by blast
qed

text \<open>The clean-exit marker is one-shot: writing it is seen by the next reader, and recording a
  boot consumes it whatever the boot was.\<close>

theorem clean_exit_one_shot:
  "was_last_exit_clean (mark_clean_exit True f) \<and>
   \<not> was_last_exit_clean (snd (record_boot True now clean reason f))"
  by (simp add: was_last_exit_clean_def mark_clean_exit_def record_boot_def read_state_def Let_def jget_def)

text \<open>After any sequence of successes and failures the backoff depends only on the number
  \<open>n\<close> of failures since the last success: the interval is the base doubled \<open>n\<close> times and capped at
  two hours (exactly the base after a success), and it is exhausted exactly from the fifth one.\<close>

theorem backoff_depends_on_trailing_failures:
  "bo_failures (fold backoff_event es (new_backoff base)) = trailing_failures es \<and>
   bo_current (fold backoff_event es (new_backoff base)) =
     (if trailing_failures es = 0 then base else min (base * 2 ^ trailing_failures es) 7200) \<and>
   bo_exhausted (fold backoff_event es (new_backoff base)) = (5 \<le> trailing_failures es)"
  by (subst (1 2 3) backoff_closed_form) (simp add: Let_def)

text \<open>A retry never waits a negative time, and never longer than the provider's accepted hint
  or the configured maximum, up to the rounding to milliseconds, whatever the attempt, the jitter
  mode and the random draw.\<close>

theorem retry_delay_bounded:
  assumes "0 \<le> rnd" and "rnd < 1"
  shows "0 \<le> compute_retry_delay rnd attempt p \<and>
    compute_retry_delay rnd attempt p \<le>
      max (max 0 (rp_retry_after_cap p)) (max 0 (rp_max p) + 1 / 2000)"
proof -
  let ?c = "capped_delay attempt p"
  have c: "0 \<le> ?c" "?c \<le> max 0 (rp_max p)" by (rule capped_delay_bounds)+
  have nonneg: "0 \<le> round3 x" if "0 \<le> x" for x
  proof -
    from that have "0 \<le> \<lfloor>x * 1000\<rfloor>" by simp
    then have "0 \<le> py_round (x * 1000)" by (simp add: py_round_def Let_def)
    then show ?thesis by (simp add: round3_def)
  qed
  have near: "round3 x \<le> x + 1 / 2000" for x using round3_near [of x] by linarith
  have full: "0 \<le> ?c * (1 / 2 + rnd * (1 / 2))" "?c * (1 / 2 + rnd * (1 / 2)) \<le> ?c"
    using assms c(1) by (simp_all add: mult_left_le)
  have "0 \<le> local_delay rnd attempt p \<and> local_delay rnd attempt p \<le> max 0 (rp_max p) + 1 / 2000"
  proof (cases "rp_mode p")
    case Jitter_None
    with c nonneg [of ?c] near [of ?c] show ?thesis by (auto simp: local_delay_def Let_def)
  next
    case Jitter_Symmetric
    with c show ?thesis by (auto simp: local_delay_def Let_def)
  next
    case Jitter_Full
    obtain x where x: "x = ?c * (1 / 2 + rnd * (1 / 2))" by blast
    with Jitter_Full have "local_delay rnd attempt p = (if ?c \<le> 0 then 0 else round3 x)"
      by (simp add: local_delay_def Let_def)
    moreover have "0 \<le> round3 x" "round3 x \<le> max 0 (rp_max p) + 1 / 2000"
      using full [folded x] c(2) nonneg [of x] near [of x] by linarith+
    ultimately show ?thesis by simp
  qed
  then show ?thesis by (auto simp: compute_retry_delay_def split: option.splits)
qed

theorem retry_delay_bounded_witness:
  "compute_retry_delay (1 / 2) 3
     \<lparr>rp_base = 1, rp_factor = 2, rp_max = 60, rp_mode = Jitter_Full, rp_jitter = 0, rp_retry_after = Some 900,
      rp_retry_after_cap = 300, rp_respect = True\<rparr> \<le> 300"
  using retry_delay_bounded [of "1 / 2" 3 "\<lparr>rp_base = 1, rp_factor = 2, rp_max = 60, rp_mode = Jitter_Full,
      rp_jitter = 0, rp_retry_after = Some 900, rp_retry_after_cap = 300, rp_respect = True\<rparr>"]
  by simp

end
