(* ===== verification/Cas_Store.thy ===== *)
theory Cas_Store
  imports Prelude
begin

text \<open>
  The contract of a store with optimistic locking, and what its clients get from it. A value
  carries a revision; a write names the revision it was computed from, and wins exactly when the
  stored value still has it. The interface is a locale: the store's own theory interprets it.
\<close>

text \<open>
  Requests from any number of writers, in the order in which the store serves them; the winners
  with the revisions they named.
\<close>

fun serve ::
    "('k \<Rightarrow> int \<Rightarrow> 'u \<Rightarrow> 's \<Rightarrow> 'r \<times> 's) \<Rightarrow> ('r \<Rightarrow> bool) \<Rightarrow> ('k \<times> int \<times> 'u) list \<Rightarrow> 's
     \<Rightarrow> ('k \<times> int) list \<times> 's" where
  "serve put won [] s = ([], s)"
| "serve put won ((k, n, u) # reqs) s =
    (let (r, s') = put k n u s; (ws, s'') = serve put won reqs s'
     in ((if won r then [(k, n)] else []) @ ws, s''))"

lemma fst_serve_Cons:
  "fst (serve put won ((k, n, u) # reqs) s) =
     (if won (fst (put k n u s)) then [(k, n)] else []) @ fst (serve put won reqs (snd (put k n u s)))"
  by (simp add: case_prod_unfold Let_def)

lemma snd_serve_Cons:
  "snd (serve put won ((k, n, u) # reqs) s) = snd (serve put won reqs (snd (put k n u s)))"
  by (simp add: case_prod_unfold Let_def)

definition wins_of :: "'k \<Rightarrow> ('k \<times> int) list \<Rightarrow> int list" where
  "wins_of k ws = map snd (filter (\<lambda>w. fst w = k) ws)"

lemma wins_of_Nil [simp]: "wins_of k [] = []"
  by (simp add: wins_of_def)

lemma wins_of_Cons [simp]: "wins_of k ((j, n) # ws) = (if j = k then n # wins_of k ws else wins_of k ws)"
  by (simp add: wins_of_def)

text \<open>Consecutive revisions.\<close>

definition run_up :: "int \<Rightarrow> nat \<Rightarrow> int list" where
  "run_up n m = map (\<lambda>j. n + int j) [0 ..< m]"

lemma run_up_0 [simp]: "run_up n 0 = []"
  by (simp add: run_up_def)

lemma run_up_Suc: "run_up n (Suc m) = n # run_up (n + 1) m"
  by (simp add: run_up_def upt_rec [of 0 "Suc m"] map_Suc_upt [symmetric] del: upt_Suc map_Suc_upt)

lemma length_run_up [simp]: "length (run_up n m) = m"
  by (simp add: run_up_def)

lemma distinct_run_up: "distinct (run_up n m)"
  by (simp add: run_up_def distinct_map inj_on_def)

locale cas_store =
  fixes ok :: "'s \<Rightarrow> bool"
    and valid :: "'u \<Rightarrow> bool"
    and read :: "'k \<Rightarrow> 's \<Rightarrow> 'v option"
    and rev_of :: "'v \<Rightarrow> int"
    and put :: "'k \<Rightarrow> int \<Rightarrow> 'u \<Rightarrow> 's \<Rightarrow> 'r \<times> 's"
    and won :: "'r \<Rightarrow> bool"
  assumes put_ok: "ok s \<Longrightarrow> ok (snd (put k n u s))"
    and put_wins: "ok s \<Longrightarrow> valid u \<Longrightarrow>
          won (fst (put k n u s)) \<longleftrightarrow> (\<exists>v. read k s = Some v \<and> rev_of v = n)"
    and put_bumps: "ok s \<Longrightarrow> valid u \<Longrightarrow> won (fst (put k n u s)) \<Longrightarrow>
          \<exists>v. read k (snd (put k n u s)) = Some v \<and> rev_of v = n + 1"
    and put_loses: "ok s \<Longrightarrow> \<not> won (fst (put k n u s)) \<Longrightarrow> snd (put k n u s) = s"
    and put_frame: "ok s \<Longrightarrow> j \<noteq> k \<Longrightarrow> read j (snd (put k n u s)) = read j s"
begin

text \<open>
  The accepted writes of one key name consecutive revisions, whatever is requested in between on
  whatever keys: no put is accepted that did not see all accepted writes before it.
\<close>

lemma winners_consecutive:
  assumes "ok s" and "read k s = Some v" and "\<And>q. q \<in> set reqs \<Longrightarrow> valid (snd (snd q))"
  shows "\<exists>v' m. read k (snd (serve put won reqs s)) = Some v' \<and>
           wins_of k (fst (serve put won reqs s)) = run_up (rev_of v) m \<and>
           rev_of v' = rev_of v + int m"
  using assms
proof (induction reqs arbitrary: s v)
  case (Cons q reqs)
  obtain j n u where q: "q = (j, n, u)" by (cases q) auto
  let ?s' = "snd (put j n u s)" and ?won = "won (fst (put j n u s))"
  have ok': "ok ?s'" using Cons.prems(1) by (rule put_ok)
  have u: "valid u" using Cons.prems(3) [of q] q by simp
  have rest: "\<And>q. q \<in> set reqs \<Longrightarrow> valid (snd (snd q))" using Cons.prems(3) by simp
  show ?case
  proof (cases "j = k \<and> ?won")
    case True
    then have jk: "j = k" and won: "won (fst (put j n u s))" by blast+
    from put_bumps [OF Cons.prems(1) u won] obtain w where w: "read k ?s' = Some w" "rev_of w = n + 1"
      unfolding jk by blast
    have "\<exists>v. read k s = Some v \<and> rev_of v = n"
      using put_wins [OF Cons.prems(1) u, of j n] won unfolding jk by blast
    with Cons.prems(2) have n: "n = rev_of v" by simp
    have wins: "wins_of k (fst (serve put won (q # reqs) s)) = n # wins_of k (fst (serve put won reqs ?s'))"
      using won jk by (simp add: q fst_serve_Cons del: serve.simps)
    have "snd (serve put won (q # reqs) s) = snd (serve put won reqs ?s')"
      by (simp only: q snd_serve_Cons)
    moreover obtain v' m where "read k (snd (serve put won reqs ?s')) = Some v'"
      "wins_of k (fst (serve put won reqs ?s')) = run_up (rev_of w) m" "rev_of v' = rev_of w + int m"
      using Cons.IH [OF ok' w(1) rest] by blast
    ultimately show ?thesis
      unfolding wins using w(2) n by (intro exI [of _ v'] exI [of _ "Suc m"]) (simp add: run_up_Suc)
  next
    case False
    have read': "read k ?s' = Some v"
      using False put_frame [OF Cons.prems(1), of k j n u] put_loses [OF Cons.prems(1), of j n u]
        Cons.prems(2) by metis
    have wins: "wins_of k (fst (serve put won (q # reqs) s)) = wins_of k (fst (serve put won reqs ?s'))"
      using False by (simp only: q fst_serve_Cons) auto
    from Cons.IH [OF ok' read' rest] show ?thesis
      unfolding wins by (simp only: q snd_serve_Cons)
  qed
qed (simp add: exI [of _ 0])

text \<open>Of all writers that start from one revision of a key, at most one wins.\<close>

lemma one_winner_per_revision:
  assumes "ok s" and "read k s = Some v" and "\<And>q. q \<in> set reqs \<Longrightarrow> valid (snd (snd q))"
  shows "distinct (wins_of k (fst (serve put won reqs s)))"
  using winners_consecutive [OF assms] by (metis distinct_run_up)

end

end
