(* ===== verification/TaskFlow_Store.thy ===== *)
theory TaskFlow_Store
  imports Py_Text Cas_Store
begin

text \<open>
  The task-flow table of \<^verbatim>\<open>src/agent/tools/taskflow/registry/store_sqlite.py\<close>, the status
  constants of \<^verbatim>\<open>config.py\<close> and the conflict retry of \<^verbatim>\<open>tools/_shared.py\<close>. A row is addressed by its
  flow id and the session that owns it, and every mutation is a compare-and-swap on its revision:
  the write names the revision it was computed from and matches no row when another writer was
  faster. One statement of SQLite is one step. A JSON column is its parsed value: storing and
  reading it back is the identity on what the flow keeps there.
\<close>

subsection \<open>Statuses\<close>

definition INITIAL_REVISION :: int where
  "INITIAL_REVISION = 1"

definition TERMINAL_STATUSES :: "string list" where
  "TERMINAL_STATUSES = [''cancelled'', ''done'', ''failed'']"

definition flow_terminal :: "string \<Rightarrow> bool" where
  "flow_terminal status = (status \<in> set TERMINAL_STATUSES)"

definition STEP_STATUSES :: "string list" where
  "STEP_STATUSES =
    [''blocked'', ''ready'', ''dispatched'', ''done'', ''failed'', ''skipped'', ''cancelled'']"

definition SETTLED_STEP_STATUSES :: "string list" where
  "SETTLED_STEP_STATUSES = [''done'', ''failed'', ''skipped'', ''cancelled'']"

subsection \<open>Rows\<close>

type_synonym jdict = "(string \<times> json) list"

record flow =
  fl_id :: text_id
  fl_state :: jdict
  fl_wait :: "jdict option"
  fl_revision :: int
  fl_status :: string
  fl_child :: "string option"
  fl_total_tokens :: int
  fl_total_cost :: rat
  fl_token_budget :: int
  fl_deadline :: "time option"
  fl_session :: text_id
  fl_resumed_from :: "text_id option"
  fl_superseded_by :: "text_id option"
  fl_updated_at :: "time option"
  fl_terminal_reason :: "string option"

type_synonym flow_table = "flow list"

datatype flow_error =
  Empty_Flow_Id
| Empty_Session_Id
| Flow_Exists text_id
| Flow_Not_Found text_id
| Flow_Conflict text_id int int
| Nothing_To_Update

text \<open>The reading view: an empty text in an optional column reads as \<^verbatim>\<open>None\<close>.\<close>

definition row_to_flow :: "flow \<Rightarrow> flow" where
  "row_to_flow r =
    r\<lparr>fl_resumed_from := or_text (fl_resumed_from r) None,
      fl_superseded_by := or_text (fl_superseded_by r) None,
      fl_terminal_reason := or_text (fl_terminal_reason r) None\<rparr>"

definition owned :: "text_id \<Rightarrow> text_id \<Rightarrow> flow \<Rightarrow> bool" where
  "owned i sess r = (fl_id r = i \<and> fl_session r = sess)"

definition get_flow :: "text_id \<Rightarrow> text_id \<Rightarrow> flow_table \<Rightarrow> flow option" where
  "get_flow i sess t = map_option row_to_flow (first_where (owned i sess) t)"

definition new_flow ::
    "time \<Rightarrow> text_id \<Rightarrow> jdict \<Rightarrow> text_id \<Rightarrow> string \<Rightarrow> string option \<Rightarrow> time option \<Rightarrow> text_id option \<Rightarrow> flow" where
  "new_flow now i state sess status child deadline resumed =
    \<lparr>fl_id = i, fl_state = state, fl_wait = None, fl_revision = INITIAL_REVISION, fl_status = status,
     fl_child = child, fl_total_tokens = 0, fl_total_cost = 0, fl_token_budget = 0,
     fl_deadline = deadline, fl_session = sess, fl_resumed_from = or_text resumed None,
     fl_superseded_by = None, fl_updated_at = Some now, fl_terminal_reason = None\<rparr>"

definition create_flow ::
    "time \<Rightarrow> text_id \<Rightarrow> jdict \<Rightarrow> text_id \<Rightarrow> string \<Rightarrow> string option \<Rightarrow> time option \<Rightarrow> text_id option
     \<Rightarrow> flow_table \<Rightarrow> (flow_error + flow) \<times> flow_table" where
  "create_flow now i state sess status child deadline resumed t =
    (let i = strip i; sess = strip sess
     in if i = [] then (Inl Empty_Flow_Id, t)
        else if sess = [] then (Inl Empty_Session_Id, t)
        else if \<exists>r \<in> set t. fl_id r = i then (Inl (Flow_Exists i), t)
        else
          (let t' = t @ [new_flow now i state sess status child deadline resumed]
           in case get_flow i sess t' of
                None \<Rightarrow> (Inl (Flow_Not_Found i), t')
              | Some f \<Rightarrow> (Inr f, t')))"

definition mark_flow_superseded ::
    "time \<Rightarrow> text_id \<Rightarrow> text_id \<Rightarrow> text_id \<Rightarrow> flow_table \<Rightarrow> bool \<times> flow_table" where
  "mark_flow_superseded now i by_id sess t =
    (0 < count_where (owned i sess) t,
     update_where (owned i sess)
       (\<lambda>r. r\<lparr>fl_superseded_by := Some by_id, fl_updated_at := Some now,
             fl_revision := fl_revision r + 1,
             fl_status := (if flow_terminal (fl_status r) then fl_status r else ''cancelled''),
             fl_terminal_reason :=
               (if flow_terminal (fl_status r) then fl_terminal_reason r else Some ''superseded'')\<rparr>) t)"

subsection \<open>The compare-and-swap\<close>

text \<open>
  The keyword arguments of \<^verbatim>\<open>update_flow\<close>. \<^const>\<open>None\<close> leaves a column alone; where \<^verbatim>\<open>UNSET\<close> and
  \<^verbatim>\<open>None\<close> differ (wait, child key, terminal reason) the inner option is what is written.
\<close>

record flow_update =
  up_state :: "jdict option"
  up_wait :: "jdict option option"
  up_status :: "string option"
  up_child :: "string option option"
  up_total_tokens :: "int option"
  up_total_cost :: "rat option"
  up_token_budget :: "int option"
  up_deadline :: "time option"
  up_terminal_reason :: "string option option"
  up_touch :: bool

definition no_update :: flow_update where
  "no_update = \<lparr>up_state = None, up_wait = None, up_status = None, up_child = None,
     up_total_tokens = None, up_total_cost = None, up_token_budget = None, up_deadline = None,
     up_terminal_reason = None, up_touch = True\<rparr>"

definition assigns :: "flow_update \<Rightarrow> bool" where
  "assigns u \<longleftrightarrow> up_state u \<noteq> None \<or> up_wait u \<noteq> None \<or> up_status u \<noteq> None \<or> up_child u \<noteq> None \<or>
     up_total_tokens u \<noteq> None \<or> up_total_cost u \<noteq> None \<or> up_token_budget u \<noteq> None \<or>
     up_deadline u \<noteq> None \<or> up_terminal_reason u \<noteq> None"

definition or_keep :: "'a option \<Rightarrow> 'a \<Rightarrow> 'a" where
  "or_keep u v = (case u of None \<Rightarrow> v | Some w \<Rightarrow> w)"

definition apply_update :: "time \<Rightarrow> int \<Rightarrow> flow_update \<Rightarrow> flow \<Rightarrow> flow" where
  "apply_update now new_revision u r =
    r\<lparr>fl_state := or_keep (up_state u) (fl_state r),
      fl_wait := or_keep (up_wait u) (fl_wait r),
      fl_status := or_keep (up_status u) (fl_status r),
      fl_child := or_keep (up_child u) (fl_child r),
      fl_total_tokens := or_keep (up_total_tokens u) (fl_total_tokens r),
      fl_total_cost := or_keep (up_total_cost u) (fl_total_cost r),
      fl_token_budget := or_keep (up_token_budget u) (fl_token_budget r),
      fl_deadline := (case up_deadline u of None \<Rightarrow> fl_deadline r | Some d \<Rightarrow> Some d),
      fl_terminal_reason := or_keep (up_terminal_reason u) (fl_terminal_reason r),
      fl_updated_at := (if up_touch u then Some now else fl_updated_at r),
      fl_revision := new_revision\<rparr>"

definition at_revision :: "text_id \<Rightarrow> int \<Rightarrow> text_id \<Rightarrow> flow \<Rightarrow> bool" where
  "at_revision i n sess r = (fl_id r = i \<and> fl_revision r = n \<and> fl_session r = sess)"

definition update_flow ::
    "time \<Rightarrow> text_id \<Rightarrow> int \<Rightarrow> text_id \<Rightarrow> flow_update \<Rightarrow> flow_table \<Rightarrow> (flow_error + flow) \<times> flow_table" where
  "update_flow now i n sess u t =
    (if \<not> assigns u then (Inl Nothing_To_Update, t)
     else if count_where (at_revision i n sess) t = 0
     then (case first_where (owned i sess) t of
             None \<Rightarrow> (Inl (Flow_Not_Found i), t)
           | Some r \<Rightarrow> (Inl (Flow_Conflict i n (fl_revision r)), t))
     else
       (let t' = update_where (at_revision i n sess) (apply_update now (n + 1) u) t
        in case get_flow i sess t' of
             None \<Rightarrow> (Inl (Flow_Not_Found i), t')
           | Some f \<Rightarrow> (Inr f, t')))"

subsection \<open>Scans\<close>

definition get_overdue_flows :: "time \<Rightarrow> flow_table \<Rightarrow> flow list" where
  "get_overdue_flows now t =
    map row_to_flow (filter (\<lambda>r. (case fl_deadline r of None \<Rightarrow> False | Some d \<Rightarrow> d < now) \<and>
                                 \<not> flow_terminal (fl_status r)) t)"

definition flow_active :: "flow \<Rightarrow> bool" where
  "flow_active r = (\<not> flow_terminal (fl_status r) \<and> fl_superseded_by r = None)"

definition get_non_terminal_flows :: "text_id option \<Rightarrow> flow_table \<Rightarrow> flow list" where
  "get_non_terminal_flows sess t =
    map row_to_flow (filter (\<lambda>r. flow_active r \<and>
       (case or_text sess None of None \<Rightarrow> True | Some s \<Rightarrow> fl_session r = s)) t)"

definition distinct_values :: "'a list \<Rightarrow> 'a list" where
  "distinct_values xs = rev (remdups (rev xs))"

definition get_non_terminal_session_ids :: "flow_table \<Rightarrow> text_id list" where
  "get_non_terminal_session_ids t =
    filter (\<lambda>s. strip s \<noteq> []) (distinct_values (map fl_session (filter flow_active t)))"

definition flow_zombie :: "flow \<Rightarrow> bool" where
  "flow_zombie r = (fl_status r = ''failed'' \<or> fl_status r = ''cancelled'')"

definition get_zombie_flow_ids :: "text_id \<Rightarrow> flow_table \<Rightarrow> text_id list" where
  "get_zombie_flow_ids sess t = map fl_id (filter (\<lambda>r. fl_session r = sess \<and> flow_zombie r) t)"

definition get_failed_flow_session_ids :: "flow_table \<Rightarrow> text_id list" where
  "get_failed_flow_session_ids t =
    filter (\<lambda>s. strip s \<noteq> []) (distinct_values (map fl_session (filter flow_zombie t)))"

definition count_total_flows_for_session :: "text_id \<Rightarrow> flow_table \<Rightarrow> nat" where
  "count_total_flows_for_session sess t = count_where (\<lambda>r. fl_session r = sess) t"

definition get_waiting_flows :: "flow_table \<Rightarrow> flow list" where
  "get_waiting_flows t = map row_to_flow (filter (\<lambda>r. fl_status r = ''waiting'') t)"

definition get_active_flows_sync :: "text_id \<Rightarrow> flow_table \<Rightarrow> flow list" where
  "get_active_flows_sync sess t =
    map row_to_flow (sort_key (\<lambda>r. - fl_revision r)
      (filter (\<lambda>r. fl_session r = sess \<and> fl_status r \<in> {''running'', ''waiting''} \<and>
                   fl_superseded_by r = None) t))"

definition get_all_flows_sync :: "text_id \<Rightarrow> string \<Rightarrow> flow_table \<Rightarrow> flow list" where
  "get_all_flows_sync sess status_filter t =
    (if status_filter = ''active'' then get_active_flows_sync sess t
     else if status_filter = ''all''
     then map row_to_flow (sort_key (\<lambda>r. - fl_revision r) (filter (\<lambda>r. fl_session r = sess) t))
     else map row_to_flow (sort_key (\<lambda>r. - fl_revision r)
            (filter (\<lambda>r. fl_session r = sess \<and> fl_status r = status_filter) t)))"

subsection \<open>Removal\<close>

definition prunable :: "text_id \<Rightarrow> flow \<Rightarrow> bool" where
  "prunable sess r = (fl_session r = sess \<and> (flow_terminal (fl_status r) \<or> fl_superseded_by r \<noteq> None))"

definition last_touch :: "flow \<Rightarrow> time" where
  "last_touch r = (case fl_updated_at r of None \<Rightarrow> 0 | Some x \<Rightarrow> x)"

definition prune_session_flows :: "int \<Rightarrow> text_id \<Rightarrow> flow_table \<Rightarrow> nat \<times> flow_table" where
  "prune_session_flows keep sess t =
    (if keep \<le> 0 then (0, t)
     else
       (let excess = int (count_total_flows_for_session sess t) - keep
        in if excess \<le> 0 then (0, t)
           else
             (let victims = take (nat excess) (sort_key last_touch (filter (prunable sess) t))
              in (length victims, filter (\<lambda>r. fl_id r \<notin> fl_id ` set victims) t))))"

definition delete_flows_by_session :: "text_id \<Rightarrow> flow_table \<Rightarrow> (flow_error + nat) \<times> flow_table" where
  "delete_flows_by_session sess t =
    (let sess = strip sess
     in if sess = [] then (Inl Empty_Session_Id, t)
        else (Inr (count_where (\<lambda>r. fl_session r = sess) t), filter (\<lambda>r. fl_session r \<noteq> sess) t))"

subsection \<open>Steps inside a flow's state\<close>

text \<open>
  \<^verbatim>\<open>str(v or "")\<close> on a field that holds a text or nothing; \<^verbatim>\<open>list(v or [])\<close> on one that holds a
  list or nothing.
\<close>

definition text_of :: "json \<Rightarrow> string" where
  "text_of v = (case v of JStr s \<Rightarrow> s | _ \<Rightarrow> [])"

definition list_of :: "json \<Rightarrow> json list" where
  "list_of v = (case v of JList xs \<Rightarrow> xs | _ \<Rightarrow> [])"

definition steps_of :: "jdict \<Rightarrow> json list" where
  "steps_of state = list_of (jget ''steps'' state)"

definition child_key_of :: "jdict \<Rightarrow> string" where
  "child_key_of step = strip (text_of (jget ''child_session_key'' step))"

definition append_key :: "string \<Rightarrow> string list \<Rightarrow> string list" where
  "append_key key keys = (if key \<noteq> [] \<and> key \<notin> set keys then keys @ [key] else keys)"

definition gc_step :: "string \<Rightarrow> json \<Rightarrow> string list \<times> json list \<Rightarrow> string list \<times> json list" where
  "gc_step reason v acc =
    (let (detached, out) = acc
     in case v of
          JDict step \<Rightarrow>
            if text_of (jget ''status'' step) \<in> set SETTLED_STEP_STATUSES then (detached, out @ [v])
            else (append_key (child_key_of step) detached,
                  out @ [JDict (dict_set ''fail_reason'' (JStr reason)
                                  (dict_set ''status'' (JStr ''failed'') step))])
        | _ \<Rightarrow> (detached, out @ [v]))"

definition gc_state :: "string \<Rightarrow> jdict \<Rightarrow> jdict" where
  "gc_state reason state =
    (let state1 = dict_set ''failure_reason'' (JStr reason) state;
         (detached, steps) = fold (gc_step reason) (steps_of state1) ([], []);
         state2 = dict_set ''steps'' (JList steps) state1
     in if detached = [] then state2
        else dict_set ''detached_child_session_keys'' (JList (map JStr detached)) state2)"

definition finalize_gc_flow :: "time \<Rightarrow> string \<Rightarrow> flow \<Rightarrow> flow_table \<Rightarrow> bool \<times> flow_table" where
  "finalize_gc_flow now reason f t =
    (if fl_id f = [] \<or> fl_session f = [] then (False, t)
     else
       (let u = no_update\<lparr>up_state := Some (gc_state reason (fl_state f)), up_wait := Some None,
                          up_status := Some ''failed'', up_terminal_reason := Some (Some reason)\<rparr>
        in case update_flow now (fl_id f) (fl_revision f) (fl_session f) u t of
             (Inl _, t') \<Rightarrow> (False, t')
           | (Inr _, t') \<Rightarrow> (True, t')))"

definition has_child_step :: "string \<Rightarrow> flow \<Rightarrow> bool" where
  "has_child_step key f =
    list_ex (\<lambda>v. case v of JDict step \<Rightarrow> text_of (jget ''child_session_key'' step) = key | _ \<Rightarrow> False)
      (steps_of (fl_state f))"

definition get_flow_for_child_session :: "string \<Rightarrow> flow_table \<Rightarrow> flow option" where
  "get_flow_for_child_session child t =
    (let key = strip child
     in if key = [] then None
        else find (has_child_step key)
               (map row_to_flow (filter (\<lambda>r. \<not> flow_terminal (fl_status r)) t)))"

subsection \<open>The conflict retry\<close>

text \<open>
  \<^verbatim>\<open>update_flow_with_conflict_retry\<close>. Every \<^verbatim>\<open>await\<close> lets other writers run: \<open>env k t\<close> is what they
  make of the table before the \<open>k\<close>-th statement this call issues (its writes and its re-reads, in
  order). \<open>build\<close> is the state callback, \<open>u\<close> the further columns. The result is the updated flow or
  the number of attempts reported with the child keys that could not be recorded.
\<close>

fun retry_write ::
    "(nat \<Rightarrow> flow_table \<Rightarrow> flow_table) \<Rightarrow> time \<Rightarrow> text_id \<Rightarrow> text_id \<Rightarrow> (flow \<Rightarrow> nat \<Rightarrow> jdict) \<Rightarrow> flow_update
     \<Rightarrow> nat \<Rightarrow> nat \<Rightarrow> flow \<Rightarrow> int \<Rightarrow> flow_table \<Rightarrow> (nat + flow) \<times> flow_table" where
  "retry_write env now i sess build u 0 attempt cur n t = (Inl (attempt - 1), t)"
| "retry_write env now i sess build u (Suc left) attempt cur n t =
    (let t1 = env (2 * attempt) t
     in case update_flow now i n sess (u\<lparr>up_state := Some (build cur attempt)\<rparr>) t1 of
          (Inr f, t2) \<Rightarrow> (Inr f, t2)
        | (Inl (Flow_Conflict _ _ _), t2) \<Rightarrow>
            if left = 0 then (Inl attempt, t2)
            else
              (let t3 = env (2 * attempt + 1) t2
               in case get_flow i sess t3 of
                    None \<Rightarrow> (Inl attempt, t3)
                  | Some fresh \<Rightarrow>
                      if flow_terminal (fl_status fresh) then (Inl attempt, t3)
                      else retry_write env now i sess build u left (attempt + 1) fresh (fl_revision fresh) t3)
        | (Inl _, t2) \<Rightarrow> (Inl attempt, t2))"

definition update_flow_with_conflict_retry ::
    "(nat \<Rightarrow> flow_table \<Rightarrow> flow_table) \<Rightarrow> time \<Rightarrow> text_id \<Rightarrow> int \<Rightarrow> flow \<Rightarrow> (flow \<Rightarrow> nat \<Rightarrow> jdict) \<Rightarrow> text_id
     \<Rightarrow> nat \<Rightarrow> flow_update \<Rightarrow> flow_table \<Rightarrow> (nat + flow) \<times> flow_table" where
  "update_flow_with_conflict_retry env now i n origin build sess max_attempts u t =
    retry_write env now i sess build u max_attempts 1 origin n t"

definition PERSIST_MAX_ATTEMPTS :: nat where
  "PERSIST_MAX_ATTEMPTS = 3"

subsection \<open>What one statement does\<close>

definition table_ok :: "flow_table \<Rightarrow> bool" where
  "table_ok t = keyed fl_id t"

lemma view_frame [simp]:
  "fl_id (row_to_flow r) = fl_id r" "fl_revision (row_to_flow r) = fl_revision r"
  "fl_session (row_to_flow r) = fl_session r" "fl_status (row_to_flow r) = fl_status r"
  "fl_state (row_to_flow r) = fl_state r" "fl_wait (row_to_flow r) = fl_wait r"
  by (simp_all add: row_to_flow_def)

lemma apply_update_frame [simp]:
  "fl_id (apply_update now n u r) = fl_id r" "fl_session (apply_update now n u r) = fl_session r"
  "fl_revision (apply_update now n u r) = n"
  "fl_superseded_by (apply_update now n u r) = fl_superseded_by r"
  by (simp_all add: apply_update_def)

lemma first_owned:
  assumes "table_ok t"
  shows "first_where (owned i sess) t = Some r \<longleftrightarrow> r \<in> set t \<and> fl_id r = i \<and> fl_session r = sess"
  using assms by (induction t) (auto simp: first_where_def owned_def table_ok_def)

lemma first_owned_None:
  "first_where (owned i sess) t = None \<longleftrightarrow> (\<forall>r \<in> set t. fl_id r = i \<longrightarrow> fl_session r \<noteq> sess)"
  by (auto simp: first_where_def owned_def find_None_iff)

lemma get_flow_Some:
  assumes "table_ok t"
  shows "get_flow i sess t = Some f \<longleftrightarrow>
    (\<exists>r \<in> set t. fl_id r = i \<and> fl_session r = sess \<and> f = row_to_flow r)"
  using first_owned [OF assms] by (auto simp: get_flow_def)

lemma get_flow_row: "table_ok t \<Longrightarrow> r \<in> set t \<Longrightarrow> get_flow (fl_id r) (fl_session r) t = Some (row_to_flow r)"
  by (auto simp: get_flow_Some)

lemma table_ok_update: "table_ok t \<Longrightarrow> (\<And>r. fl_id (f r) = fl_id r) \<Longrightarrow> table_ok (update_where P f t)"
  by (auto simp: table_ok_def)

lemma update_flow_wins:
  assumes "table_ok t" and "assigns u" and "r \<in> set t" and "fl_id r = i" and "fl_session r = sess"
    and "fl_revision r = n"
  shows "update_flow now i n sess u t =
    (Inr (row_to_flow (apply_update now (n + 1) u r)),
     update_where (at_revision i n sess) (apply_update now (n + 1) u) t)"
proof -
  let ?t' = "update_where (at_revision i n sess) (apply_update now (n + 1) u) t"
  have ok': "table_ok ?t'" using assms(1) by (simp add: table_ok_update)
  have at: "at_revision i n sess r" using assms(4-6) by (simp add: at_revision_def)
  then have "count_where (at_revision i n sess) t \<noteq> 0"
    using assms(3) by (auto simp: count_where_0)
  moreover have "apply_update now (n + 1) u r \<in> set ?t'"
    using assms(3) at by (auto simp: set_update_where)
  then have "get_flow i sess ?t' = Some (row_to_flow (apply_update now (n + 1) u r))"
    using get_flow_row [OF ok', of "apply_update now (n + 1) u r"] assms(4,5) by simp
  ultimately show ?thesis using assms(2) by (simp add: update_flow_def)
qed

lemma update_flow_conflicts:
  assumes "table_ok t" and "assigns u" and "r \<in> set t" and "fl_id r = i" and "fl_session r = sess"
    and "fl_revision r \<noteq> n"
  shows "update_flow now i n sess u t = (Inl (Flow_Conflict i n (fl_revision r)), t)"
proof -
  have "count_where (at_revision i n sess) t = 0"
    using assms(1,3-6) by (auto simp: count_where_0 at_revision_def table_ok_def dest: keyed_inj)
  moreover have "first_where (owned i sess) t = Some r"
    using assms by (simp add: first_owned)
  ultimately show ?thesis using assms(2) by (simp add: update_flow_def)
qed

lemma update_flow_misses:
  assumes "assigns u" and "\<And>r. r \<in> set t \<Longrightarrow> fl_id r = i \<Longrightarrow> fl_session r \<noteq> sess"
  shows "update_flow now i n sess u t = (Inl (Flow_Not_Found i), t)"
proof -
  have "count_where (at_revision i n sess) t = 0"
    using assms(2) by (auto simp: count_where_0 at_revision_def)
  moreover have "first_where (owned i sess) t = None"
    using assms(2) by (simp add: first_owned_None)
  ultimately show ?thesis using assms(1) by (simp add: update_flow_def)
qed

lemma update_flow_cases:
  assumes "table_ok t" and "assigns u"
  obtains (wins) r where "r \<in> set t" "fl_id r = i" "fl_session r = sess" "fl_revision r = n"
      "update_flow now i n sess u t =
        (Inr (row_to_flow (apply_update now (n + 1) u r)),
         update_where (at_revision i n sess) (apply_update now (n + 1) u) t)"
  | (conflicts) r where "r \<in> set t" "fl_id r = i" "fl_session r = sess" "fl_revision r \<noteq> n"
      "update_flow now i n sess u t = (Inl (Flow_Conflict i n (fl_revision r)), t)"
  | (misses) "\<And>r. r \<in> set t \<Longrightarrow> fl_id r = i \<Longrightarrow> fl_session r \<noteq> sess"
      "update_flow now i n sess u t = (Inl (Flow_Not_Found i), t)"
proof (cases "\<exists>r \<in> set t. fl_id r = i \<and> fl_session r = sess")
  case True
  then obtain r where r: "r \<in> set t" "fl_id r = i" "fl_session r = sess" by blast
  show ?thesis
  proof (cases "fl_revision r = n")
    case True
    show ?thesis by (rule wins [OF r True update_flow_wins [OF assms r True]])
  next
    case False
    show ?thesis by (rule conflicts [OF r False update_flow_conflicts [OF assms r False]])
  qed
next
  case False
  then have none: "\<And>r. r \<in> set t \<Longrightarrow> fl_id r = i \<Longrightarrow> fl_session r \<noteq> sess" by blast
  show ?thesis by (rule misses [OF none update_flow_misses [OF assms(2) none]])
qed

lemma update_flow_ok: "table_ok t \<Longrightarrow> table_ok (snd (update_flow now i n sess u t))"
  by (auto simp: update_flow_def Let_def table_ok_update split: option.splits)

lemma update_flow_Inr:
  assumes "table_ok t" and "assigns u" and put: "update_flow now i n sess u t = (Inr g, t')"
  shows "\<exists>r \<in> set t. fl_id r = i \<and> fl_session r = sess \<and> fl_revision r = n \<and>
    g = row_to_flow (apply_update now (n + 1) u r) \<and> get_flow i sess t' = Some g"
proof (rule update_flow_cases [OF assms(1,2), of i sess n now])
  fix r
  assume r: "r \<in> set t" "fl_id r = i" "fl_session r = sess" "fl_revision r = n"
    and wins: "update_flow now i n sess u t =
      (Inr (row_to_flow (apply_update now (n + 1) u r)),
       update_where (at_revision i n sess) (apply_update now (n + 1) u) t)"
  have g: "g = row_to_flow (apply_update now (n + 1) u r)"
    and t': "t' = update_where (at_revision i n sess) (apply_update now (n + 1) u) t"
    using put wins by simp_all
  have ok': "table_ok t'" using update_flow_ok [OF assms(1), of now i n sess u] put by simp
  have "at_revision i n sess r" using r by (simp add: at_revision_def)
  then have "apply_update now (n + 1) u r \<in> set t'" using r(1) by (auto simp: t' set_update_where)
  from get_flow_row [OF ok' this] have "get_flow i sess t' = Some g" using r(2,3) by (simp add: g)
  with r g show ?thesis by blast
next
  fix r
  assume "update_flow now i n sess u t = (Inl (Flow_Conflict i n (fl_revision r)), t)"
  with put show ?thesis by simp
next
  assume "update_flow now i n sess u t = (Inl (Flow_Not_Found i), t)"
  with put show ?thesis by simp
qed

subsection \<open>The table as an optimistic store\<close>

definition read_flow :: "text_id \<times> text_id \<Rightarrow> flow_table \<Rightarrow> flow option" where
  "read_flow k t = get_flow (fst k) (snd k) t"

definition put_flow ::
    "text_id \<times> text_id \<Rightarrow> int \<Rightarrow> time \<times> flow_update \<Rightarrow> flow_table \<Rightarrow> (flow_error + flow) \<times> flow_table" where
  "put_flow k n q t = update_flow (fst q) (fst k) n (snd k) (snd q) t"

definition accepted :: "flow_error + flow \<Rightarrow> bool" where
  "accepted r = (case r of Inl _ \<Rightarrow> False | Inr _ \<Rightarrow> True)"

lemma accepted_simps [simp]: "\<not> accepted (Inl e)" "accepted (Inr f)"
  by (simp_all add: accepted_def)

lemma put_flow_ok: "table_ok t \<Longrightarrow> table_ok (snd (put_flow k n q t))"
  by (simp add: put_flow_def update_flow_ok)

lemma put_flow_wins:
  assumes "table_ok t" and "assigns (snd q)"
  shows "accepted (fst (put_flow k n q t)) \<longleftrightarrow> (\<exists>f. read_flow k t = Some f \<and> fl_revision f = n)"
  by (rule update_flow_cases [OF assms, where i = "fst k" and n = n and sess = "snd k" and now = "fst q"])
    (auto simp: put_flow_def read_flow_def get_flow_Some [OF assms(1)]
      dest: keyed_inj [OF assms(1) [unfolded table_ok_def]])

lemma put_flow_bumps:
  assumes "table_ok t" and "assigns (snd q)" and "accepted (fst (put_flow k n q t))"
  shows "\<exists>f. read_flow k (snd (put_flow k n q t)) = Some f \<and> fl_revision f = n + 1"
proof (rule update_flow_cases [OF assms(1,2), where i = "fst k" and n = n and sess = "snd k" and now = "fst q"])
  fix r
  assume r: "r \<in> set t" "fl_id r = fst k" "fl_session r = snd k" "fl_revision r = n"
    and res: "update_flow (fst q) (fst k) n (snd k) (snd q) t =
      (Inr (row_to_flow (apply_update (fst q) (n + 1) (snd q) r)),
       update_where (at_revision (fst k) n (snd k)) (apply_update (fst q) (n + 1) (snd q)) t)"
  have "at_revision (fst k) n (snd k) r" using r by (simp add: at_revision_def)
  then have "apply_update (fst q) (n + 1) (snd q) r
      \<in> set (update_where (at_revision (fst k) n (snd k)) (apply_update (fst q) (n + 1) (snd q)) t)"
    using r(1) by (auto simp: set_update_where)
  from get_flow_row [OF _ this] show ?thesis
    using r res put_flow_ok [OF assms(1), of k n q]
    by (auto simp: put_flow_def read_flow_def)
qed (use assms(3) in \<open>auto simp: put_flow_def\<close>)

lemma put_flow_loses: "table_ok t \<Longrightarrow> \<not> accepted (fst (put_flow k n q t)) \<Longrightarrow> snd (put_flow k n q t) = t"
  unfolding put_flow_def
  by (cases "assigns (snd q)")
    (erule update_flow_cases [where i = "fst k" and n = n and sess = "snd k" and now = "fst q"],
      auto simp: update_flow_def)

lemma first_owned_update:
  assumes "\<And>r. P r \<Longrightarrow> owned i sess r \<longleftrightarrow> False" and "\<And>r. owned i sess (f r) = owned i sess r"
  shows "first_where (owned i sess) (update_where P f t) = first_where (owned i sess) t"
  using assms by (induction t) (auto simp: first_where_def)

lemma update_flow_table:
  "snd (update_flow now i n sess u t) = t \<or>
   snd (update_flow now i n sess u t) = update_where (at_revision i n sess) (apply_update now (n + 1) u) t"
  by (auto simp: update_flow_def Let_def split: option.splits)

lemma put_flow_frame:
  assumes "table_ok t" and "j \<noteq> k"
  shows "read_flow j (snd (put_flow k n q t)) = read_flow j t"
proof -
  have frame: "get_flow (fst j) (snd j) (update_where (at_revision (fst k) n (snd k)) (apply_update (fst q) m (snd q)) t)
      = get_flow (fst j) (snd j) t" for m
    unfolding get_flow_def using assms(2)
    by (subst first_owned_update) (auto simp: owned_def at_revision_def prod_eq_iff)
  show ?thesis
    unfolding put_flow_def read_flow_def
    using update_flow_table [of "fst q" "fst k" n "snd k" "snd q" t] frame [of "n + 1"] by auto
qed

interpretation flow_cas: cas_store table_ok "assigns \<circ> snd" read_flow fl_revision put_flow accepted
  by unfold_locales
    (auto simp: put_flow_ok put_flow_wins put_flow_loses put_flow_frame intro: put_flow_bumps)

subsection \<open>Tables that only move forward\<close>

definition moves :: "flow_table \<Rightarrow> flow_table \<Rightarrow> bool" where
  "moves t t' \<longleftrightarrow> table_ok t' \<and>
     (\<forall>r' \<in> set t'. r' \<in> set t \<or> (\<exists>r \<in> set t. fl_id r = fl_id r' \<and> fl_revision r < fl_revision r'))"

lemma moves_refl: "table_ok t \<Longrightarrow> moves t t"
  by (simp add: moves_def)

lemma moves_trans: "moves t1 t2 \<Longrightarrow> moves t2 t3 \<Longrightarrow> moves t1 t3"
  by (fastforce simp: moves_def)

lemma moves_update_where:
  assumes "table_ok t" and "\<And>r. fl_id (f r) = fl_id r" and "\<And>r. P r \<Longrightarrow> fl_revision r < fl_revision (f r)"
  shows "moves t (update_where P f t)"
  using assms by (auto simp: moves_def table_ok_update set_update_where)

lemma moves_filter: "table_ok t \<Longrightarrow> moves t (filter P t)"
  by (auto simp: moves_def table_ok_def)

lemma update_flow_moves: "table_ok t \<Longrightarrow> moves t (snd (update_flow now i n sess u t))"
  using update_flow_table [of now i n sess u t]
  by (auto intro!: moves_update_where simp: moves_refl at_revision_def)

lemma supersede_moves: "table_ok t \<Longrightarrow> moves t (snd (mark_flow_superseded now i j sess t))"
  unfolding mark_flow_superseded_def by (auto intro!: moves_update_where)

lemma gc_table:
  "snd (finalize_gc_flow now reason f t) =
    (if fl_id f = [] \<or> fl_session f = [] then t
     else snd (update_flow now (fl_id f) (fl_revision f) (fl_session f)
       (no_update\<lparr>up_state := Some (gc_state reason (fl_state f)), up_wait := Some None,
          up_status := Some ''failed'', up_terminal_reason := Some (Some reason)\<rparr>) t))"
  unfolding finalize_gc_flow_def Let_def
  by (cases "update_flow now (fl_id f) (fl_revision f) (fl_session f)
       (no_update\<lparr>up_state := Some (gc_state reason (fl_state f)), up_wait := Some None,
          up_status := Some ''failed'', up_terminal_reason := Some (Some reason)\<rparr>) t")
    (simp split: sum.split)

lemma gc_moves: "table_ok t \<Longrightarrow> moves t (snd (finalize_gc_flow now reason f t))"
  by (simp add: gc_table moves_refl update_flow_moves)

lemma prune_moves: "table_ok t \<Longrightarrow> moves t (snd (prune_session_flows keep sess t))"
  by (auto simp: prune_session_flows_def Let_def moves_refl moves_filter)

lemma delete_moves: "table_ok t \<Longrightarrow> moves t (snd (delete_flows_by_session sess t))"
  by (auto simp: delete_flows_by_session_def Let_def moves_refl moves_filter)

text \<open>
  A snapshot a writer holds is behind the stored row or equal to what is read now: a revision
  determines what the row held.
\<close>

definition snapshot_ok :: "flow_table \<Rightarrow> flow \<Rightarrow> bool" where
  "snapshot_ok t f \<longleftrightarrow>
     (\<forall>r \<in> set t. fl_id r = fl_id f \<longrightarrow>
        fl_revision f \<le> fl_revision r \<and> (fl_revision f = fl_revision r \<longrightarrow> row_to_flow r = f))"

lemma snapshot_okD:
  "snapshot_ok t f \<Longrightarrow> r \<in> set t \<Longrightarrow> fl_id r = fl_id f \<Longrightarrow>
     fl_revision f \<le> fl_revision r \<and> (fl_revision f = fl_revision r \<longrightarrow> row_to_flow r = f)"
  unfolding snapshot_ok_def by blast

lemma snapshot_moves:
  assumes "snapshot_ok t f" and "moves t t'"
  shows "snapshot_ok t' f"
  unfolding snapshot_ok_def
proof (intro ballI impI)
  fix r'
  assume r': "r' \<in> set t'" "fl_id r' = fl_id f"
  consider "r' \<in> set t" | r where "r \<in> set t" "fl_id r = fl_id r'" "fl_revision r < fl_revision r'"
    using assms(2) r'(1) unfolding moves_def by blast
  then show "fl_revision f \<le> fl_revision r' \<and> (fl_revision f = fl_revision r' \<longrightarrow> row_to_flow r' = f)"
  proof cases
    case 1
    then show ?thesis using snapshot_okD [OF assms(1) _ r'(2)] by blast
  next
    case (2 r)
    have "fl_revision f \<le> fl_revision r"
      using snapshot_okD [OF assms(1) 2(1)] 2(2) r'(2) by simp
    with 2(3) show ?thesis by simp
  qed
qed

lemma snapshot_read: "table_ok t \<Longrightarrow> get_flow i sess t = Some f \<Longrightarrow> snapshot_ok t f"
  by (auto simp: snapshot_ok_def get_flow_Some table_ok_def dest: keyed_inj)

subsection \<open>Writers with snapshots\<close>

text \<open>
  The table and the flows its users have read. The tools read a flow, refuse a terminal one, and
  write back with the revision they read; the collector does the same. An id is not created a
  second time after it was deleted: a revision starts at one again, and a snapshot of the deleted
  flow could match it.
\<close>

definition created :: "(flow_error + flow) \<times> flow_table \<Rightarrow> flow list \<Rightarrow> flow_table \<times> flow list" where
  "created res seen = (case fst res of Inl _ \<Rightarrow> (snd res, seen) | Inr f \<Rightarrow> (snd res, f # seen))"

inductive flow_step :: "flow_table \<times> flow list \<Rightarrow> flow_table \<times> flow list \<Rightarrow> bool" where
  FS_Create: "(\<forall>f \<in> set seen. fl_id f \<noteq> strip i) \<Longrightarrow>
    flow_step (t, seen) (created (create_flow now i state sess status child deadline resumed t) seen)"
| FS_Read: "get_flow i sess t = Some f \<Longrightarrow> flow_step (t, seen) (t, f # seen)"
| FS_Write: "f \<in> set seen \<Longrightarrow> \<not> flow_terminal (fl_status f) \<Longrightarrow>
    flow_step (t, seen) (snd (update_flow now (fl_id f) (fl_revision f) (fl_session f) u t), seen)"
| FS_Collect: "f \<in> set seen \<Longrightarrow> \<not> flow_terminal (fl_status f) \<Longrightarrow>
    flow_step (t, seen) (snd (finalize_gc_flow now reason f t), seen)"
| FS_Supersede: "flow_step (t, seen) (snd (mark_flow_superseded now i j sess t), seen)"
| FS_Prune: "flow_step (t, seen) (snd (prune_session_flows keep sess t), seen)"
| FS_Delete: "flow_step (t, seen) (snd (delete_flows_by_session sess t), seen)"

definition flow_inv :: "flow_table \<times> flow list \<Rightarrow> bool" where
  "flow_inv s \<longleftrightarrow> table_ok (fst s) \<and> (\<forall>f \<in> set (snd s). snapshot_ok (fst s) f) \<and>
     (\<forall>r \<in> set (fst s). \<exists>f \<in> set (snd s). fl_id f = fl_id r)"

lemma flow_inv_moves: "flow_inv (t, seen) \<Longrightarrow> moves t t' \<Longrightarrow> flow_inv (t', seen)"
  unfolding flow_inv_def by (auto intro: snapshot_moves) (auto simp: moves_def, metis)

lemma flow_inv_read: "flow_inv (t, seen) \<Longrightarrow> get_flow i sess t = Some f \<Longrightarrow> flow_inv (t, f # seen)"
  by (auto simp: flow_inv_def intro: snapshot_read)

lemma create_flow_cases:
  assumes "table_ok t"
  obtains (refused) e where "create_flow now i state sess status child deadline resumed t = (Inl e, t)"
  | (stored) r where "create_flow now i state sess status child deadline resumed t =
        (Inr (row_to_flow r), t @ [r])"
      "r = new_flow now (strip i) state (strip sess) status child deadline resumed"
      "\<forall>q \<in> set t. fl_id q \<noteq> strip i"
proof (cases "strip i = [] \<or> strip sess = [] \<or> (\<exists>r \<in> set t. fl_id r = strip i)")
  case True
  then have "\<exists>e. create_flow now i state sess status child deadline resumed t = (Inl e, t)"
    unfolding create_flow_def Let_def by (auto split: if_splits)
  then show ?thesis using refused by blast
next
  case False
  let ?r = "new_flow now (strip i) state (strip sess) status child deadline resumed"
  have "table_ok (t @ [?r])"
    using assms False by (auto simp: table_ok_def keyed_snoc new_flow_def)
  from get_flow_row [OF this, of ?r]
  have "get_flow (strip i) (strip sess) (t @ [?r]) = Some (row_to_flow ?r)"
    by (simp add: new_flow_def)
  with False have "create_flow now i state sess status child deadline resumed t =
      (Inr (row_to_flow ?r), t @ [?r])"
    by (simp add: create_flow_def Let_def)
  then show ?thesis using False by (intro stored) auto
qed

lemma new_row_view: "row_to_flow (new_flow now i state sess status child deadline resumed) =
    new_flow now i state sess status child deadline resumed"
  by (simp add: row_to_flow_def new_flow_def or_text_def)

lemma flow_inv_create:
  assumes "flow_inv (t, seen)" and "\<forall>f \<in> set seen. fl_id f \<noteq> strip i"
  shows "flow_inv (created (create_flow now i state sess status child deadline resumed t) seen)"
proof -
  have ok: "table_ok t" using assms(1) by (simp add: flow_inv_def)
  show ?thesis
  proof (rule create_flow_cases [OF ok, of now i state sess status child deadline resumed])
    fix e
    assume "create_flow now i state sess status child deadline resumed t = (Inl e, t)"
    then show ?thesis using assms(1) by (simp add: created_def)
  next
    fix r
    assume res: "create_flow now i state sess status child deadline resumed t = (Inr (row_to_flow r), t @ [r])"
      and r: "r = new_flow now (strip i) state (strip sess) status child deadline resumed"
      and fresh: "\<forall>q \<in> set t. fl_id q \<noteq> strip i"
    have r_id: "fl_id r = strip i" by (simp add: r new_flow_def)
    have tab: "table_ok (t @ [r])"
      using ok fresh r_id by (auto simp: table_ok_def keyed_snoc)
    have old: "snapshot_ok (t @ [r]) f" if "f \<in> set seen" for f
      using assms that r_id by (auto simp: flow_inv_def snapshot_ok_def)
    have new: "snapshot_ok (t @ [r]) (row_to_flow r)"
      using fresh r_id by (auto simp: snapshot_ok_def)
    have known: "\<exists>f \<in> set (row_to_flow r # seen). fl_id f = fl_id q" if "q \<in> set (t @ [r])" for q
      using assms(1) that by (auto simp: flow_inv_def)
    show ?thesis
      using tab old new known unfolding res created_def flow_inv_def by auto
  qed
qed

lemma flow_inv_ok: "flow_inv (t, seen) \<Longrightarrow> table_ok t"
  by (simp add: flow_inv_def)

lemmas statement_moves = update_flow_moves gc_moves supersede_moves prune_moves delete_moves

lemma flow_inv_step: "flow_step s s' \<Longrightarrow> flow_inv s \<Longrightarrow> flow_inv s'"
  by (induction rule: flow_step.induct)
    (blast intro: flow_inv_create flow_inv_read flow_inv_moves statement_moves flow_inv_ok)+

interpretation flow_safety: inv_system "\<lambda>s. s = ([], [])" flow_step flow_inv
proof
  show "flow_inv s" if "s = ([], [])" for s using that by (simp add: flow_inv_def table_ok_def)
  show "flow_inv s'" if "flow_inv s" "flow_step s s'" for s s' using flow_inv_step that by blast
qed

text \<open>What a terminal flow keeps for good.\<close>

definition same_outcome :: "flow \<Rightarrow> flow \<Rightarrow> bool" where
  "same_outcome r q \<longleftrightarrow> fl_status r = fl_status q \<and> fl_state r = fl_state q \<and> fl_wait r = fl_wait q \<and>
     fl_child r = fl_child q \<and> fl_total_tokens r = fl_total_tokens q \<and>
     fl_total_cost r = fl_total_cost q \<and> fl_terminal_reason r = fl_terminal_reason q"

definition stays_final :: "flow \<Rightarrow> flow_table \<times> flow list \<Rightarrow> bool" where
  "stays_final q s \<longleftrightarrow> flow_inv s \<and> flow_terminal (fl_status q) \<and>
     (\<exists>f \<in> set (snd s). fl_id f = fl_id q) \<and>
     (\<forall>r \<in> set (fst s). fl_id r = fl_id q \<longrightarrow> same_outcome r q)"

lemma stale_write_keeps:
  assumes "flow_inv (t, seen)" and "f \<in> set seen" and "\<not> flow_terminal (fl_status f)"
    and "r' \<in> set (snd (update_flow now (fl_id f) (fl_revision f) (fl_session f) u t))"
  shows "r' \<in> set t \<or> (\<exists>r \<in> set t. fl_id r = fl_id r' \<and> \<not> flow_terminal (fl_status r))"
proof (cases "r' \<in> set t")
  case False
  then obtain r where r: "r \<in> set t" "r' = apply_update now (fl_revision f + 1) u r"
      and at: "at_revision (fl_id f) (fl_revision f) (fl_session f) r"
    using assms(4) update_flow_table [of now "fl_id f" "fl_revision f" "fl_session f" u t]
    by (auto simp: set_update_where split: if_splits)
  have "row_to_flow r = f"
    using snapshot_okD [of t f r] assms(1,2) r(1) at by (simp add: flow_inv_def at_revision_def)
  then have "fl_status r = fl_status f" using view_frame(4) [of r] by simp
  then show ?thesis using r assms(3) by auto
qed simp

lemma final_step: "flow_step s s' \<Longrightarrow> stays_final q s \<Longrightarrow> stays_final q s'"
proof (induction rule: flow_step.induct)
  case (FS_Create seen i t now state sess status child deadline resumed)
  have inv: "flow_inv (t, seen)" using FS_Create.prems by (simp add: stays_final_def)
  from flow_inv_create [OF inv FS_Create.hyps]
  have "flow_inv (created (create_flow now i state sess status child deadline resumed t) seen)" .
  moreover have "fl_id q \<noteq> strip i"
    using FS_Create.prems FS_Create.hyps by (auto simp: stays_final_def)
  ultimately show ?case
    using FS_Create.prems
    by (rule_tac create_flow_cases [OF flow_inv_ok [OF inv], of now i state sess status child deadline resumed])
      (auto simp: stays_final_def created_def new_flow_def)
next
  case (FS_Read i sess t f seen)
  then show ?case by (auto simp: stays_final_def intro: flow_inv_read)
next
  case (FS_Write f seen t now u)
  have inv: "flow_inv (t, seen)" using FS_Write.prems by (simp add: stays_final_def)
  have "same_outcome r' q"
    if "r' \<in> set (snd (update_flow now (fl_id f) (fl_revision f) (fl_session f) u t))"
      and "fl_id r' = fl_id q" for r'
    using stale_write_keeps [OF inv FS_Write.hyps that(1)] FS_Write.prems that(2)
    by (fastforce simp: stays_final_def same_outcome_def)
  then show ?case
    using FS_Write.prems flow_inv_moves [OF inv update_flow_moves [OF flow_inv_ok [OF inv]]]
    by (simp add: stays_final_def)
next
  case (FS_Collect f seen t now reason)
  have inv: "flow_inv (t, seen)" using FS_Collect.prems by (simp add: stays_final_def)
  have "same_outcome r' q"
    if "r' \<in> set (snd (finalize_gc_flow now reason f t))" and "fl_id r' = fl_id q" for r'
    using stale_write_keeps [OF inv FS_Collect.hyps, of r'] FS_Collect.prems that
    by (fastforce simp: stays_final_def same_outcome_def gc_table split: if_splits)
  then show ?case
    using FS_Collect.prems flow_inv_moves [OF inv gc_moves [OF flow_inv_ok [OF inv]]]
    by (simp add: stays_final_def)
next
  case (FS_Supersede t seen now i j sess)
  have inv: "flow_inv (t, seen)" using FS_Supersede.prems by (simp add: stays_final_def)
  have "same_outcome r' q"
    if r': "r' \<in> set (snd (mark_flow_superseded now i j sess t))" and i: "fl_id r' = fl_id q" for r'
  proof -
    obtain r where "r \<in> set t" "fl_id r = fl_id r'"
        "r' = r \<or> (flow_terminal (fl_status r) \<longrightarrow> same_outcome r' r)"
      using r' by (auto simp: mark_flow_superseded_def set_update_where same_outcome_def)
    then show ?thesis
      using FS_Supersede.prems i by (fastforce simp: stays_final_def same_outcome_def)
  qed
  then show ?case
    using FS_Supersede.prems flow_inv_moves [OF inv supersede_moves [OF flow_inv_ok [OF inv]]]
    by (simp add: stays_final_def)
next
  case (FS_Prune t seen keep sess)
  have inv: "flow_inv (t, seen)" using FS_Prune.prems by (simp add: stays_final_def)
  then show ?case
    using FS_Prune.prems flow_inv_moves [OF inv prune_moves [OF flow_inv_ok [OF inv]]]
    by (auto simp: stays_final_def prune_session_flows_def Let_def)
next
  case (FS_Delete t seen sess)
  have inv: "flow_inv (t, seen)" using FS_Delete.prems by (simp add: stays_final_def)
  then show ?case
    using FS_Delete.prems flow_inv_moves [OF inv delete_moves [OF flow_inv_ok [OF inv]]]
    by (auto simp: stays_final_def delete_flows_by_session_def Let_def)
qed

interpretation flow_final: inv_system "stays_final q" flow_step "stays_final q" for q
  by unfold_locales (auto intro: final_step)

subsection \<open>The retry against other writers\<close>

definition forward_env :: "(nat \<Rightarrow> flow_table \<Rightarrow> flow_table) \<Rightarrow> bool" where
  "forward_env env \<longleftrightarrow> (\<forall>k t. table_ok t \<longrightarrow> moves t (env k t))"

lemma forward_envD: "forward_env env \<Longrightarrow> table_ok t \<Longrightarrow> moves t (env k t)"
  by (simp add: forward_env_def)

lemma moves_ok: "moves t t' \<Longrightarrow> table_ok t'"
  by (simp add: moves_def)

lemma assigns_state [simp]: "assigns (u\<lparr>up_state := Some st\<rparr>)"
  by (simp add: assigns_def)

text \<open>The write that was accepted, if any: it was built from the flow stored at that moment.\<close>

definition built_from_latest ::
    "text_id \<Rightarrow> text_id \<Rightarrow> time \<Rightarrow> (flow \<Rightarrow> nat \<Rightarrow> jdict) \<Rightarrow> flow_update \<Rightarrow> flow_table \<Rightarrow> flow \<Rightarrow> flow_table \<Rightarrow> bool" where
  "built_from_latest i sess now build u t f t' \<longleftrightarrow>
     (\<exists>t1 g a. moves t t1 \<and> get_flow i sess t1 = Some g \<and> fl_state f = build g a \<and>
        update_flow now i (fl_revision g) sess (u\<lparr>up_state := Some (build g a)\<rparr>) t1 = (Inr f, t'))"

lemma retry_write_sound:
  assumes "forward_env env" and "table_ok t" and "snapshot_ok t cur" and "fl_id cur = i"
  shows "case retry_write env now i sess build u left attempt cur (fl_revision cur) t of
           (Inr f, t') \<Rightarrow> built_from_latest i sess now build u t f t'
         | (Inl _, t') \<Rightarrow> moves t t'"
  using assms(2-4)
proof (induction left arbitrary: attempt cur t)
  case 0
  then show ?case by (simp add: moves_refl)
next
  case (Suc left)
  let ?t1 = "env (2 * attempt) t" and ?u = "u\<lparr>up_state := Some (build cur attempt)\<rparr>"
  have m1: "moves t ?t1" by (rule forward_envD [OF assms(1) Suc.prems(1)])
  have ok1: "table_ok ?t1" by (rule moves_ok [OF m1])
  show ?case
  proof (rule update_flow_cases [OF ok1 assigns_state, where i = i and n = "fl_revision cur" and sess = sess
        and now = now and st1 = "build cur attempt" and u1 = u])
    fix r
    assume r: "r \<in> set ?t1" "fl_id r = i" "fl_session r = sess" "fl_revision r = fl_revision cur"
      and res: "update_flow now i (fl_revision cur) sess ?u ?t1 =
        (Inr (row_to_flow (apply_update now (fl_revision cur + 1) ?u r)),
         update_where (at_revision i (fl_revision cur) sess) (apply_update now (fl_revision cur + 1) ?u) ?t1)"
    have "row_to_flow r = cur"
      using snapshot_okD [OF snapshot_moves [OF Suc.prems(2) m1] r(1)] r(2,4) Suc.prems(3) by simp
    then have g: "get_flow i sess ?t1 = Some cur"
      using get_flow_row [OF ok1 r(1)] r(2,3) by simp
    have st: "fl_state (row_to_flow (apply_update now (fl_revision cur + 1) ?u r)) = build cur attempt"
      by (simp add: apply_update_def or_keep_def)
    have "built_from_latest i sess now build u t
        (row_to_flow (apply_update now (fl_revision cur + 1) ?u r))
        (update_where (at_revision i (fl_revision cur) sess) (apply_update now (fl_revision cur + 1) ?u) ?t1)"
      unfolding built_from_latest_def
      by (rule exI [of _ ?t1], rule exI [of _ cur], rule exI [of _ attempt])
        (simp only: m1 g st res simp_thms)
    with res show ?thesis by (simp add: Let_def)
  next
    fix r
    assume res: "update_flow now i (fl_revision cur) sess ?u ?t1 =
      (Inl (Flow_Conflict i (fl_revision cur) (fl_revision r)), ?t1)"
    let ?t3 = "env (2 * attempt + 1) ?t1"
    have m3: "moves t ?t3" by (rule moves_trans [OF m1 forward_envD [OF assms(1) ok1]])
    have ok3: "table_ok ?t3" by (rule moves_ok [OF m3])
    show ?thesis
    proof (cases "left = 0 \<or> get_flow i sess ?t3 = None \<or> flow_terminal (fl_status (the (get_flow i sess ?t3)))")
      case True
      then show ?thesis using res m1 m3 by (auto simp: Let_def split: option.splits)
    next
      case False
      then obtain fresh where fresh: "get_flow i sess ?t3 = Some fresh" "\<not> flow_terminal (fl_status fresh)"
        by auto
      have id: "fl_id fresh = i" using fresh(1) unfolding get_flow_Some [OF ok3] by auto
      have step: "retry_write env now i sess build u (Suc left) attempt cur (fl_revision cur) t =
          retry_write env now i sess build u left (attempt + 1) fresh (fl_revision fresh) ?t3"
        using False fresh res by (simp add: Let_def)
      have lift: "built_from_latest i sess now build u ?t3 f t' \<Longrightarrow> built_from_latest i sess now build u t f t'" for f t'
        unfolding built_from_latest_def using moves_trans [OF m3] by blast
      from Suc.IH [OF ok3 snapshot_read [OF ok3 fresh(1)] id, of "attempt + 1"] show ?thesis
        unfolding step by (auto split: prod.splits sum.splits intro: lift moves_trans [OF m3])
    qed
  next
    assume "update_flow now i (fl_revision cur) sess ?u ?t1 = (Inl (Flow_Not_Found i), ?t1)"
    then show ?thesis using m1 by (simp add: Let_def)
  qed
qed

definition gone :: "text_id \<Rightarrow> text_id \<Rightarrow> flow_table \<Rightarrow> bool" where
  "gone i sess t = (case get_flow i sess t of None \<Rightarrow> True | Some f \<Rightarrow> flow_terminal (fl_status f))"

lemma retry_write_lands:
  assumes "forward_env env" and "table_ok t" and "attempt \<le> a" and "a < attempt + left"
    and "\<And>t. env (2 * a) t = t" and "a = attempt \<Longrightarrow> get_flow i sess t = Some cur"
  shows "case retry_write env now i sess build u left attempt cur (fl_revision cur) t of
           (Inr f, t') \<Rightarrow> True | (Inl _, t') \<Rightarrow> gone i sess t'"
  using assms(2-4,6)
proof (induction left arbitrary: attempt cur t)
  case (Suc left)
  let ?t1 = "env (2 * attempt) t" and ?u = "u\<lparr>up_state := Some (build cur attempt)\<rparr>"
  have ok1: "table_ok ?t1" by (rule moves_ok [OF forward_envD [OF assms(1) Suc.prems(1)]])
  show ?case
  proof (rule update_flow_cases [OF ok1 assigns_state, where i = i and n = "fl_revision cur" and sess = sess
        and now = now and st1 = "build cur attempt" and u1 = u])
    fix r
    assume "update_flow now i (fl_revision cur) sess ?u ?t1 =
        (Inr (row_to_flow (apply_update now (fl_revision cur + 1) ?u r)),
         update_where (at_revision i (fl_revision cur) sess) (apply_update now (fl_revision cur + 1) ?u) ?t1)"
    then show ?thesis by (simp add: Let_def)
  next
    fix r
    assume r: "r \<in> set ?t1" "fl_id r = i" "fl_session r = sess" "fl_revision r \<noteq> fl_revision cur"
      and res: "update_flow now i (fl_revision cur) sess ?u ?t1 =
      (Inl (Flow_Conflict i (fl_revision cur) (fl_revision r)), ?t1)"
    have later: "a \<noteq> attempt"
    proof
      assume a: "a = attempt"
      then have "get_flow i sess ?t1 = Some cur" using Suc.prems(4) assms(5) by simp
      moreover have "get_flow i sess ?t1 = Some (row_to_flow r)"
        using get_flow_row [OF ok1 r(1)] r(2,3) by simp
      ultimately show False using r(4) by auto
    qed
    let ?t3 = "env (2 * attempt + 1) ?t1"
    have ok3: "table_ok ?t3" by (rule moves_ok [OF forward_envD [OF assms(1) ok1]])
    have left: "left \<noteq> 0" using later Suc.prems(2,3) by simp
    show ?thesis
    proof (cases "gone i sess ?t3")
      case True
      then show ?thesis using res left by (auto simp: Let_def gone_def split: option.splits)
    next
      case False
      then obtain fresh where fresh: "get_flow i sess ?t3 = Some fresh" "\<not> flow_terminal (fl_status fresh)"
        by (auto simp: gone_def split: option.splits)
      have step: "retry_write env now i sess build u (Suc left) attempt cur (fl_revision cur) t =
          retry_write env now i sess build u left (attempt + 1) fresh (fl_revision fresh) ?t3"
        using left fresh res by (simp add: Let_def)
      show ?thesis
        unfolding step using later Suc.prems(2,3) fresh(1) by (intro Suc.IH [OF ok3]) auto
    qed
  next
    assume none: "\<And>r. r \<in> set ?t1 \<Longrightarrow> fl_id r = i \<Longrightarrow> fl_session r \<noteq> sess"
      and "update_flow now i (fl_revision cur) sess ?u ?t1 = (Inl (Flow_Not_Found i), ?t1)"
    moreover have "get_flow i sess ?t1 = None"
      using none by (auto simp: get_flow_def first_owned_None)
    ultimately show ?thesis by (simp add: Let_def gone_def)
  qed
qed simp

subsection \<open>A concrete table\<close>

definition demo_flow :: "text_id \<Rightarrow> string \<Rightarrow> flow" where
  "demo_flow i status = new_flow 5 i [(''steps'', JList [])] ''s1'' status None None None"

definition demo_flows :: flow_table where
  "demo_flows = [demo_flow ''f1'' ''running'', demo_flow ''f2'' ''done'']"

definition demo_write :: "string \<Rightarrow> time \<times> flow_update" where
  "demo_write status = (7, no_update\<lparr>up_status := Some status\<rparr>)"

definition rival :: "nat \<Rightarrow> flow_table \<Rightarrow> flow_table" where
  "rival k t = (if k = 2 then snd (update_flow 6 ''f1'' 1 ''s1''
     (no_update\<lparr>up_state := Some [(''rival'', JBool True)]\<rparr>) t) else t)"

lemma rival_forward: "forward_env rival"
  by (simp add: forward_env_def rival_def update_flow_moves moves_refl)

subsection \<open>Properties\<close>

text \<open>Whatever compare-and-swap requests are served, on whatever flows and from whatever
  snapshots, the accepted writes of one flow name consecutive revisions starting with the stored
  one, and the flow ends that many revisions later: no accepted write misses an earlier one, and of
  the writers that read the same revision at most one succeeds.\<close>

theorem flow_writes_serialized:
  assumes "table_ok t" and "get_flow i sess t = Some f"
    and "\<And>q. q \<in> set reqs \<Longrightarrow> assigns (snd (snd (snd q)))"
  shows "\<exists>g m. get_flow i sess (snd (serve put_flow accepted reqs t)) = Some g \<and>
      wins_of (i, sess) (fst (serve put_flow accepted reqs t)) = run_up (fl_revision f) m \<and>
      fl_revision g = fl_revision f + int m"
  using flow_cas.winners_consecutive [OF assms(1), of "(i, sess)" f reqs] assms(2,3)
  by (simp add: read_flow_def)

theorem flow_writes_serialized_witness:
  "(\<exists>g m. get_flow ''f1'' ''s1'' (snd (serve put_flow accepted
        [((''f1'', ''s1''), 1, demo_write ''waiting''), ((''f1'', ''s1''), 1, demo_write ''failed''),
         ((''f1'', ''s1''), 2, demo_write ''running'')] demo_flows)) = Some g \<and>
      wins_of (''f1'', ''s1'') (fst (serve put_flow accepted
        [((''f1'', ''s1''), 1, demo_write ''waiting''), ((''f1'', ''s1''), 1, demo_write ''failed''),
         ((''f1'', ''s1''), 2, demo_write ''running'')] demo_flows)) =
        run_up (fl_revision (demo_flow ''f1'' ''running'')) m \<and>
      fl_revision g = fl_revision (demo_flow ''f1'' ''running'') + int m) \<and>
   wins_of (''f1'', ''s1'') (fst (serve put_flow accepted
        [((''f1'', ''s1''), 1, demo_write ''waiting''), ((''f1'', ''s1''), 1, demo_write ''failed''),
         ((''f1'', ''s1''), 2, demo_write ''running'')] demo_flows)) = [1, 2]"
proof (rule conjI)
  show "\<exists>g m. get_flow ''f1'' ''s1'' (snd (serve put_flow accepted
        [((''f1'', ''s1''), 1, demo_write ''waiting''), ((''f1'', ''s1''), 1, demo_write ''failed''),
         ((''f1'', ''s1''), 2, demo_write ''running'')] demo_flows)) = Some g \<and>
      wins_of (''f1'', ''s1'') (fst (serve put_flow accepted
        [((''f1'', ''s1''), 1, demo_write ''waiting''), ((''f1'', ''s1''), 1, demo_write ''failed''),
         ((''f1'', ''s1''), 2, demo_write ''running'')] demo_flows)) =
        run_up (fl_revision (demo_flow ''f1'' ''running'')) m \<and>
      fl_revision g = fl_revision (demo_flow ''f1'' ''running'') + int m"
    by (rule flow_writes_serialized)
      (auto simp: demo_flows_def demo_flow_def new_flow_def table_ok_def get_flow_def first_where_def
        owned_def row_to_flow_def or_text_def demo_write_def assigns_def no_update_def)
qed code_simp

text \<open>A terminal flow is final: whatever creations, reads, writes and collections from earlier
  reads, supersessions, prunings and deletions follow, a row of its id that is still there has the
  same status, state, wait record, child, token totals and reason. A writer that read the flow
  while it was running cannot bring it back.\<close>

theorem terminal_flow_is_final:
  assumes "flow_step\<^sup>*\<^sup>* ([], []) (t, seen)" and "r \<in> set t" and "flow_terminal (fl_status r)"
    and "flow_step\<^sup>*\<^sup>* (t, seen) (t', seen')" and "r' \<in> set t'" and "fl_id r' = fl_id r"
  shows "same_outcome r' r"
proof -
  have inv: "flow_inv (t, seen)" by (rule flow_safety.reachable_inv [OF refl assms(1)])
  then have "stays_final r (t, seen)"
    using assms(2,3) by (auto simp: stays_final_def flow_inv_def same_outcome_def table_ok_def dest: keyed_inj)
  from flow_final.steps_inv [OF this assms(4)] assms(5,6) show ?thesis by (simp add: stays_final_def)
qed

definition demo_create :: "(flow_error + flow) \<times> flow_table" where
  "demo_create = create_flow 5 ''f1'' [] ''s1'' ''running'' None None None []"

definition demo_start :: flow where
  "demo_start = new_flow 5 ''f1'' [] ''s1'' ''running'' None None None"

definition demo_cancelled :: flow_table where
  "demo_cancelled = snd (mark_flow_superseded 6 ''f1'' ''f2'' ''s1'' [demo_start])"

lemma demo_trace: "flow_step\<^sup>*\<^sup>* ([], []) (demo_cancelled, [demo_start])"
proof -
  have "created demo_create [] = ([demo_start], [demo_start])"
    unfolding demo_create_def demo_start_def by code_simp
  then have "flow_step ([], []) ([demo_start], [demo_start])"
    unfolding demo_create_def using FS_Create [of "[]"] by (metis empty_iff empty_set)
  moreover have "flow_step ([demo_start], [demo_start]) (demo_cancelled, [demo_start])"
    unfolding demo_cancelled_def by (rule FS_Supersede)
  ultimately show ?thesis by (meson converse_rtranclp_into_rtranclp rtranclp.rtrancl_refl)
qed

definition demo_late :: flow_table where
  "demo_late = snd (update_flow 7 (fl_id demo_start) (fl_revision demo_start) (fl_session demo_start)
     (no_update\<lparr>up_status := Some ''done''\<rparr>) demo_cancelled)"

lemma demo_late_step: "flow_step\<^sup>*\<^sup>* (demo_cancelled, [demo_start]) (demo_late, [demo_start])"
  unfolding demo_late_def by (rule r_into_rtranclp, rule FS_Write) (simp, code_simp)

theorem terminal_flow_is_final_witness:
  "same_outcome (hd demo_late) (hd demo_cancelled) \<and> fl_status (hd demo_late) = ''cancelled''"
proof (rule conjI)
  have "hd demo_cancelled \<in> set demo_cancelled" "flow_terminal (fl_status (hd demo_cancelled))"
    "hd demo_late \<in> set demo_late" "fl_id (hd demo_late) = fl_id (hd demo_cancelled)"
    by code_simp+
  then show "same_outcome (hd demo_late) (hd demo_cancelled)"
    by (rule terminal_flow_is_final [OF demo_trace _ _ demo_late_step])
qed code_simp

text \<open>The conflict retry, run against other writers that only move flows forward, merges onto
  the latest state: when it succeeds, the state it stored was built from the flow as it was stored
  at the moment of the write; when it reports an error, it has changed nothing. It does succeed
  if one of its later attempts meets no other writer, unless the flow is gone or terminal.\<close>

theorem conflict_retry_merges:
  assumes "forward_env env" and "table_ok t" and "snapshot_ok t snap" and "fl_id snap = i"
  shows "(case update_flow_with_conflict_retry env now i (fl_revision snap) snap build sess k u t of
            (Inr f, t') \<Rightarrow> built_from_latest i sess now build u t f t'
          | (Inl _, t') \<Rightarrow> moves t t') \<and>
         (\<forall>a \<in> {2 .. k}. (\<forall>q. env (2 * a) q = q) \<longrightarrow>
           (case update_flow_with_conflict_retry env now i (fl_revision snap) snap build sess k u t of
              (Inr f, t') \<Rightarrow> True | (Inl _, t') \<Rightarrow> gone i sess t'))"
proof (intro conjI ballI impI)
  show "case update_flow_with_conflict_retry env now i (fl_revision snap) snap build sess k u t of
            (Inr f, t') \<Rightarrow> built_from_latest i sess now build u t f t'
          | (Inl _, t') \<Rightarrow> moves t t'"
    unfolding update_flow_with_conflict_retry_def by (rule retry_write_sound [OF assms])
next
  fix a
  assume "a \<in> {2 .. k}" and "\<forall>q. env (2 * a) q = q"
  then show "case update_flow_with_conflict_retry env now i (fl_revision snap) snap build sess k u t of
              (Inr f, t') \<Rightarrow> True | (Inl _, t') \<Rightarrow> gone i sess t'"
    unfolding update_flow_with_conflict_retry_def
    by (intro retry_write_lands [OF assms(1,2), where a = a]) auto
qed

definition demo_retry :: "(nat + flow) \<times> flow_table" where
  "demo_retry = update_flow_with_conflict_retry rival 9 ''f1'' (fl_revision (demo_flow ''f1'' ''running''))
     (demo_flow ''f1'' ''running'') (\<lambda>f _. dict_set ''child'' (JStr ''c'') (fl_state f)) ''s1''
     PERSIST_MAX_ATTEMPTS no_update demo_flows"

theorem conflict_retry_merges_witness:
  "(case demo_retry of
      (Inr f, t') \<Rightarrow> built_from_latest ''f1'' ''s1'' 9
        (\<lambda>f _. dict_set ''child'' (JStr ''c'') (fl_state f)) no_update demo_flows f t'
    | (Inl _, t') \<Rightarrow> moves demo_flows t') \<and>
   (case demo_retry of
      (Inr f, t') \<Rightarrow> fl_state f = [(''rival'', JBool True), (''child'', JStr ''c'')] \<and> fl_revision f = 3
    | (Inl _, t') \<Rightarrow> False)"
proof (rule conjI)
  have "table_ok demo_flows" "snapshot_ok demo_flows (demo_flow ''f1'' ''running'')"
    "fl_id (demo_flow ''f1'' ''running'') = ''f1''"
    by code_simp+
  from conflict_retry_merges [where sess = "''s1''" and now = 9 and k = PERSIST_MAX_ATTEMPTS
      and u = no_update and build = "\<lambda>f _. dict_set ''child'' (JStr ''c'') (fl_state f)",
      OF rival_forward this, THEN conjunct1]
  show "case demo_retry of
      (Inr f, t') \<Rightarrow> built_from_latest ''f1'' ''s1'' 9
        (\<lambda>f _. dict_set ''child'' (JStr ''c'') (fl_state f)) no_update demo_flows f t'
    | (Inl _, t') \<Rightarrow> moves demo_flows t'"
    by (simp only: demo_retry_def)
qed code_simp

end
