(* ===== verification/Dep_Cycle.thy ===== *)
theory Dep_Cycle
  imports Prelude
begin

text \<open>
  The cycle search of \<^verbatim>\<open>_find_dependency_cycle\<close> in \<^verbatim>\<open>src/agent/tools/taskflow/tools/_shared.py\<close>: a
  depth-first search over the dependency graph with three colours and the current path. The
  recursion of \<^verbatim>\<open>_visit\<close> is bounded by the number of white nodes, which the fuel stands for; the
  search is given one more than the number of nodes, and that is shown to be enough. It finds a
  cycle exactly when there is one.
\<close>

subsection \<open>The search\<close>

type_synonym graph = "(string \<times> string list) list"

definition adj :: "graph \<Rightarrow> string \<Rightarrow> string list" where
  "adj g n = (case dict_get g n of None \<Rightarrow> [] | Some ds \<Rightarrow> ds)"

datatype colour = White | Grey | Black

datatype visited = Out_Of_Fuel | Found "string list" | Visited "string \<Rightarrow> colour" "string list"

text \<open>\<^verbatim>\<open>path[path.index(d):] + [d]\<close>.\<close>

definition close_path :: "string \<Rightarrow> string list \<Rightarrow> string list" where
  "close_path d path = dropWhile (\<lambda>n. n \<noteq> d) path @ [d]"

function visit :: "nat \<Rightarrow> graph \<Rightarrow> string \<Rightarrow> (string \<Rightarrow> colour) \<Rightarrow> string list \<Rightarrow> visited"
  and visit_deps :: "nat \<Rightarrow> graph \<Rightarrow> string list \<Rightarrow> (string \<Rightarrow> colour) \<Rightarrow> string list \<Rightarrow> visited" where
  "visit 0 g n col path = Out_Of_Fuel"
| "visit (Suc k) g n col path =
    (case visit_deps k g (adj g n) (col(n := Grey)) (path @ [n]) of
       Out_Of_Fuel \<Rightarrow> Out_Of_Fuel
     | Found c \<Rightarrow> Found c
     | Visited col' path' \<Rightarrow> Visited (col'(n := Black)) (butlast path'))"
| "visit_deps k g [] col path = Visited col path"
| "visit_deps k g (d # ds) col path =
    (if col d = Grey then Found (close_path d path)
     else if col d = White
     then (case visit k g d col path of
             Out_Of_Fuel \<Rightarrow> Out_Of_Fuel
           | Found c \<Rightarrow> Found c
           | Visited col' path' \<Rightarrow> visit_deps k g ds col' path')
     else visit_deps k g ds col path)"
  by pat_completeness auto

termination
  by (relation "measures [\<lambda>q. case q of Inl (k, _) \<Rightarrow> k | Inr (k, _) \<Rightarrow> k,
        \<lambda>q. case q of Inl _ \<Rightarrow> 0 | Inr (k, g, ds, _) \<Rightarrow> Suc (length ds)]") auto

text \<open>The loop \<^verbatim>\<open>for node in graph\<close>.\<close>

fun search :: "nat \<Rightarrow> graph \<Rightarrow> string list \<Rightarrow> (string \<Rightarrow> colour) \<Rightarrow> string list \<Rightarrow> visited" where
  "search k g [] col path = Visited col path"
| "search k g (n # ns) col path =
    (if col n = White
     then (case visit k g n col path of
             Out_Of_Fuel \<Rightarrow> Out_Of_Fuel
           | Found c \<Rightarrow> Found c
           | Visited col' path' \<Rightarrow> search k g ns col' path')
     else search k g ns col path)"

definition graph_nodes :: "graph \<Rightarrow> string list" where
  "graph_nodes g = map fst g @ concat (map snd g)"

text \<open>\<^const>\<open>None\<close>: the search has not ended. \<^term>\<open>Some None\<close>: no cycle.\<close>

definition find_cycle :: "graph \<Rightarrow> string list option option" where
  "find_cycle g =
    (case search (Suc (length (graph_nodes g))) g (map fst g) (\<lambda>_. White) [] of
       Out_Of_Fuel \<Rightarrow> None
     | Found c \<Rightarrow> Some (Some c)
     | Visited _ _ \<Rightarrow> Some None)"

subsection \<open>What it looks for\<close>

definition edges :: "graph \<Rightarrow> (string \<times> string) set" where
  "edges g = {(n, d). d \<in> set (adj g n)}"

definition is_cycle :: "graph \<Rightarrow> string list \<Rightarrow> bool" where
  "is_cycle g c \<longleftrightarrow> 2 \<le> length c \<and> hd c = last c \<and> successively (\<lambda>a b. (a, b) \<in> edges g) c"

lemma edgesI: "d \<in> set (adj g n) \<Longrightarrow> (n, d) \<in> edges g"
  by (simp add: edges_def)

lemma successively_trancl:
  "successively (\<lambda>a b. (a, b) \<in> r) c \<Longrightarrow> 2 \<le> length c \<Longrightarrow> (hd c, last c) \<in> r\<^sup>+"
proof (induction c rule: induct_list012)
  case (3 a b c)
  show ?case
  proof (cases c)
    case Nil
    with 3(3) show ?thesis by auto
  next
    case (Cons x xs)
    with 3 have "(hd (b # c), last (b # c)) \<in> r\<^sup>+" by simp
    with 3(3) show ?thesis by (auto intro: trancl_into_trancl2)
  qed
qed auto

lemma is_cycle_not_acyclic: "is_cycle g c \<Longrightarrow> \<not> acyclic (edges g)"
  unfolding is_cycle_def acyclic_def using successively_trancl [of "edges g" c] by metis

text \<open>An order in which every node stands after all its dependencies.\<close>

definition settled :: "graph \<Rightarrow> string list \<Rightarrow> bool" where
  "settled g ord \<longleftrightarrow> distinct ord \<and>
     (\<forall>i < length ord. \<forall>d \<in> set (adj g (ord ! i)). \<exists>j < i. ord ! j = d)"

lemma settled_Nil [simp]: "settled g []"
  by (simp add: settled_def)

lemma settled_snoc:
  assumes "settled g ord" and "n \<notin> set ord" and "set (adj g n) \<subseteq> set ord"
  shows "settled g (ord @ [n])"
proof -
  have "\<exists>j < i. (ord @ [n]) ! j = d"
    if "i < length (ord @ [n])" and "d \<in> set (adj g ((ord @ [n]) ! i))" for i d
  proof (cases "i < length ord")
    case True
    with that assms(1) obtain j where "j < i" "ord ! j = d" by (auto simp: settled_def nth_append)
    with True show ?thesis by (intro exI [of _ j]) (simp add: nth_append)
  next
    case False
    with that have "i = length ord" "d \<in> set (adj g n)" by (auto simp: nth_append)
    with assms(3) obtain j where "j < length ord" "ord ! j = d" by (metis in_set_conv_nth subsetD)
    with \<open>i = length ord\<close> show ?thesis by (intro exI [of _ j]) (simp add: nth_append)
  qed
  with assms(1,2) show ?thesis by (simp add: settled_def)
qed

lemma settled_acyclic:
  assumes "settled g ord" and "\<And>n d. (n, d) \<in> edges g \<Longrightarrow> n \<in> set ord"
  shows "acyclic (edges g)"
proof -
  define pos where "pos n = (LEAST i. i < length ord \<and> ord ! i = n)" for n
  have pos: "pos (ord ! i) = i" if "i < length ord" for i
    unfolding pos_def
    by (rule Least_equality) (use that assms(1) in \<open>auto simp: settled_def nth_eq_iff_index_eq\<close>)
  have "pos d < pos n" if "(n, d) \<in> edges g" for n d
  proof -
    from assms(2) [OF that] obtain i where i: "i < length ord" "n = ord ! i"
      by (metis in_set_conv_nth)
    with that assms(1) obtain j where j: "j < i" "ord ! j = d"
      by (auto simp: settled_def edges_def)
    with i have "pos d = j" using pos [of j] by auto
    with i j pos [of i] show ?thesis by simp
  qed
  then have "(edges g)\<inverse> \<subseteq> measure pos" by (auto simp: edges_def)
  then have "wf ((edges g)\<inverse>)" using wf_subset [OF wf_measure] by blast
  then show ?thesis using wf_acyclic acyclic_converse by blast
qed

subsection \<open>Soundness\<close>

definition search_ok :: "graph \<Rightarrow> (string \<Rightarrow> colour) \<Rightarrow> string list \<Rightarrow> bool" where
  "search_ok g col path \<longleftrightarrow> distinct path \<and> set path = {n. col n = Grey} \<and>
     successively (\<lambda>a b. (a, b) \<in> edges g) path \<and>
     (\<exists>ord. settled g ord \<and> set ord = {n. col n = Black})"

lemma search_ok_start: "search_ok g (\<lambda>_. White) []"
  unfolding search_ok_def by (auto intro: exI [of _ "[]"])

lemma search_ok_enter:
  assumes "search_ok g col path" and "col n = White" and "path = [] \<or> (last path, n) \<in> edges g"
  shows "search_ok g (col(n := Grey)) (path @ [n])"
proof -
  have "n \<notin> set path" using assms(1,2) by (auto simp: search_ok_def)
  moreover have "{m. (col(n := Grey)) m = Black} = {m. col m = Black}" using assms(2) by auto
  moreover have "{m. (col(n := Grey)) m = Grey} = insert n {m. col m = Grey}" by auto
  ultimately show ?thesis
    using assms by (auto simp: search_ok_def successively_append_iff)
qed

lemma search_ok_leave:
  assumes "search_ok g col (path @ [n])" and "\<And>d. d \<in> set (adj g n) \<Longrightarrow> col d = Black"
  shows "search_ok g (col(n := Black)) path"
proof -
  obtain ord where ord: "settled g ord" "set ord = {m. col m = Black}"
    using assms(1) by (auto simp: search_ok_def)
  have n: "col n = Grey" "n \<notin> set path" using assms(1) by (auto simp: search_ok_def)
  have "settled g (ord @ [n])"
    using settled_snoc [OF ord(1), of n] ord(2) n assms(2) by auto
  moreover have "set (ord @ [n]) = {m. (col(n := Black)) m = Black}"
    using ord(2) by auto
  moreover have "{m. (col(n := Black)) m = Grey} = set path"
    using assms(1) n by (auto simp: search_ok_def)
  moreover have "distinct path \<and> successively (\<lambda>a b. (a, b) \<in> edges g) path"
    using assms(1) by (simp add: search_ok_def successively_append_iff)
  ultimately show ?thesis unfolding search_ok_def by blast
qed

lemma close_path_cycle:
  assumes "search_ok g col path" and "col d = Grey" and "(last path, d) \<in> edges g"
  shows "is_cycle g (close_path d path)"
proof -
  let ?tail = "dropWhile (\<lambda>n. n \<noteq> d) path"
  have d: "d \<in> set path" using assms(1,2) by (auto simp: search_ok_def)
  then have ne: "?tail \<noteq> []" by (auto simp: dropWhile_eq_Nil_conv)
  have hd: "hd ?tail = d" using hd_dropWhile [OF ne] by simp
  have "last ?tail = last path" using ne by (metis last_appendR takeWhile_dropWhile_id)
  moreover have "successively (\<lambda>a b. (a, b) \<in> edges g) ?tail"
    using assms(1) unfolding search_ok_def
    by (metis successively_append_iff takeWhile_dropWhile_id)
  ultimately show ?thesis
    using ne hd assms(3) unfolding is_cycle_def close_path_def
    by (simp add: successively_append_iff Suc_le_eq)
qed

definition keeps_black :: "(string \<Rightarrow> colour) \<Rightarrow> (string \<Rightarrow> colour) \<Rightarrow> bool" where
  "keeps_black col col' \<longleftrightarrow> (\<forall>n. col n = Black \<longrightarrow> col' n = Black)"

definition good_result :: "graph \<Rightarrow> (string \<Rightarrow> colour) \<Rightarrow> string list \<Rightarrow> string list \<Rightarrow> visited \<Rightarrow> bool" where
  "good_result g col path ns res =
    (case res of
       Out_Of_Fuel \<Rightarrow> True
     | Found c \<Rightarrow> is_cycle g c
     | Visited col' path' \<Rightarrow> path' = path \<and> search_ok g col' path \<and> keeps_black col col' \<and>
         (\<forall>n \<in> set ns. col' n = Black))"

lemma visit_sound:
  "search_ok g col path \<Longrightarrow> col n = White \<Longrightarrow> path = [] \<or> (last path, n) \<in> edges g \<Longrightarrow>
     good_result g col path [n] (visit k g n col path)"
  "search_ok g col path \<Longrightarrow> path \<noteq> [] \<Longrightarrow> \<forall>d \<in> set ds. (last path, d) \<in> edges g \<Longrightarrow>
     good_result g col path ds (visit_deps k g ds col path)"
proof (induction k g n col path and k g ds col path rule: visit_visit_deps.induct)
  case (2 k g n col path)
  have ok: "search_ok g (col(n := Grey)) (path @ [n])" by (rule search_ok_enter [OF 2(2-4)])
  have "\<forall>d \<in> set (adj g n). (last (path @ [n]), d) \<in> edges g" by (simp add: edgesI)
  have res: "good_result g (col(n := Grey)) (path @ [n]) (adj g n)
      (visit_deps k g (adj g n) (col(n := Grey)) (path @ [n]))"
    by (rule 2(1) [OF ok _ \<open>\<forall>d \<in> set (adj g n). (last (path @ [n]), d) \<in> edges g\<close>]) simp
  show ?case
  proof (cases "visit_deps k g (adj g n) (col(n := Grey)) (path @ [n])")
    case (Visited col' path')
    with res have r: "path' = path @ [n]" "search_ok g col' (path @ [n])" "keeps_black (col(n := Grey)) col'"
      "\<And>d. d \<in> set (adj g n) \<Longrightarrow> col' d = Black" by (auto simp: good_result_def)
    have "keeps_black col (col'(n := Black))"
      using r(3) \<open>col n = White\<close> by (auto simp: keeps_black_def)
    with r search_ok_leave [OF r(2,4)] Visited show ?thesis by (simp add: good_result_def)
  qed (use res in \<open>auto simp: good_result_def\<close>)
next
  case (4 k g d ds col path)
  have edge: "(last path, d) \<in> edges g" using 4 by simp
  have ds: "\<forall>d \<in> set ds. (last path, d) \<in> edges g" using 4 by simp
  show ?case
  proof (cases "col d")
    case Grey
    with close_path_cycle [OF 4(4) Grey edge] show ?thesis by (simp add: good_result_def)
  next
    case Black
    with 4(3) [of] 4(4,5) ds show ?thesis by (auto simp: good_result_def keeps_black_def split: visited.splits)
  next
    case White
    have res: "good_result g col path [d] (visit k g d col path)"
      using 4(1) White 4(4) edge by simp
    show ?thesis
    proof (cases "visit k g d col path")
      case (Visited col' path')
      with res have r: "path' = path" "search_ok g col' path" "keeps_black col col'" "col' d = Black"
        by (auto simp: good_result_def)
      have "good_result g col' path ds (visit_deps k g ds col' path)"
        using 4(2) [OF _ White Visited] White r(1,2) 4(5) ds by simp
      with r White Visited show ?thesis
        by (auto simp: good_result_def keeps_black_def split: visited.splits)
    qed (use res White in \<open>auto simp: good_result_def\<close>)
  qed
qed (auto simp: good_result_def keeps_black_def)

lemma search_sound:
  "search_ok g col [] \<Longrightarrow>
    (case search k g ns col [] of
       Out_Of_Fuel \<Rightarrow> True
     | Found c \<Rightarrow> is_cycle g c
     | Visited col' _ \<Rightarrow> search_ok g col' [] \<and> keeps_black col col' \<and> (\<forall>n \<in> set ns. col' n = Black))"
proof (induction ns arbitrary: col)
  case Nil
  then show ?case by (simp add: keeps_black_def)
next
  case (Cons n ns)
  show ?case
  proof (cases "col n = White")
    case True
    from visit_sound(1) [OF Cons.prems True, of k] have res: "good_result g col [] [n] (visit k g n col [])"
      by simp
    show ?thesis
    proof (cases "visit k g n col []")
      case (Visited col' path')
      with res have r: "path' = []" "search_ok g col' []" "keeps_black col col'" "col' n = Black"
        by (auto simp: good_result_def)
      from Cons.IH [OF r(2)] r True Visited show ?thesis
        by (auto simp: keeps_black_def split: visited.splits)
    qed (use res True in \<open>auto simp: good_result_def\<close>)
  next
    case False
    moreover have "col n \<noteq> Grey" using Cons.prems by (auto simp: search_ok_def)
    ultimately have "col n = Black" by (cases "col n") auto
    with Cons.IH [OF Cons.prems] False show ?thesis
      by (auto simp: keeps_black_def split: visited.splits)
  qed
qed

subsection \<open>The fuel is enough\<close>

definition whites :: "graph \<Rightarrow> (string \<Rightarrow> colour) \<Rightarrow> string set" where
  "whites g col = {n \<in> set (graph_nodes g). col n = White}"

lemma finite_whites [simp]: "finite (whites g col)"
  by (simp add: whites_def)

lemma adj_entry: "d \<in> set (adj g n) \<Longrightarrow> \<exists>ds. (n, ds) \<in> set g \<and> d \<in> set ds"
  by (cases "dict_get g n") (auto simp: adj_def dest: map_of_SomeD)

lemma adj_nodes: "d \<in> set (adj g n) \<Longrightarrow> d \<in> set (graph_nodes g)"
  by (drule adj_entry) (force simp: graph_nodes_def)

lemma whites_enter:
  assumes "n \<in> whites g col"
  shows "card (whites g (col(n := Grey))) < card (whites g col)"
proof (rule psubset_card_mono)
  show "whites g (col(n := Grey)) \<subset> whites g col" using assms by (auto simp: whites_def)
qed simp

definition fuel_result :: "graph \<Rightarrow> (string \<Rightarrow> colour) \<Rightarrow> visited \<Rightarrow> bool" where
  "fuel_result g col res =
    (case res of Out_Of_Fuel \<Rightarrow> False | Found _ \<Rightarrow> True | Visited col' _ \<Rightarrow> whites g col' \<subseteq> whites g col)"

lemma visit_fuel:
  "n \<in> whites g col \<Longrightarrow> card (whites g col) \<le> k \<Longrightarrow> fuel_result g col (visit k g n col path)"
  "set ds \<subseteq> set (graph_nodes g) \<Longrightarrow> card (whites g col) \<le> k \<Longrightarrow>
     fuel_result g col (visit_deps k g ds col path)"
proof (induction k g n col path and k g ds col path rule: visit_visit_deps.induct)
  case (1 g n col path)
  then show ?case by (auto simp: card_eq_0_iff)
next
  case (2 k g n col path)
  have sub: "set (adj g n) \<subseteq> set (graph_nodes g)" using adj_nodes by blast
  have "card (whites g (col(n := Grey))) \<le> k" using whites_enter [OF 2(2)] 2(3) by linarith
  from 2(1) [OF sub this]
  have res: "fuel_result g (col(n := Grey)) (visit_deps k g (adj g n) (col(n := Grey)) (path @ [n]))" .
  have less: "whites g (col'(n := Black)) \<subseteq> whites g col" if "whites g col' \<subseteq> whites g (col(n := Grey))" for col'
    using that by (auto simp: whites_def split: if_splits)
  show ?case
    using res less by (auto simp: fuel_result_def split: visited.splits)
next
  case (3 k g col path)
  then show ?case by (simp add: fuel_result_def)
next
  case (4 k g d ds col path)
  show ?case
  proof (cases "col d")
    case White
    have res: "fuel_result g col (visit k g d col path)"
      using 4(1) White 4(4,5) by (simp add: whites_def)
    show ?thesis
    proof (cases "visit k g d col path")
      case (Visited col' path')
      with res have sub: "whites g col' \<subseteq> whites g col" by (simp add: fuel_result_def)
      then have "card (whites g col') \<le> k" using card_mono [OF finite_whites sub] 4(5) by linarith
      then have "fuel_result g col' (visit_deps k g ds col' path')"
        using 4(2) [OF _ White Visited] White 4(4) by simp
      with sub White Visited show ?thesis by (auto simp: fuel_result_def split: visited.splits)
    qed (use res White in \<open>auto simp: fuel_result_def\<close>)
  next
    case Grey
    then show ?thesis by (simp add: fuel_result_def)
  next
    case Black
    with 4(3) 4(4,5) show ?thesis by (simp add: fuel_result_def)
  qed
qed

lemma search_fuel:
  "set ns \<subseteq> set (graph_nodes g) \<Longrightarrow> card (whites g col) \<le> k \<Longrightarrow> search k g ns col path \<noteq> Out_Of_Fuel"
proof (induction ns arbitrary: col path)
  case (Cons n ns)
  show ?case
  proof (cases "col n = White")
    case True
    then have n: "n \<in> whites g col" using Cons.prems(1) by (simp add: whites_def)
    from visit_fuel(1) [OF n Cons.prems(2), of path]
    have res: "fuel_result g col (visit k g n col path)" .
    show ?thesis
    proof (cases "visit k g n col path")
      case (Visited col' path')
      with res have sub: "whites g col' \<subseteq> whites g col" by (simp add: fuel_result_def)
      then have "card (whites g col') \<le> k"
        using card_mono [OF finite_whites sub] Cons.prems(2) by linarith
      with Cons.IH Cons.prems(1) True Visited show ?thesis by simp
    qed (use res True in \<open>auto simp: fuel_result_def\<close>)
  next
    case False
    with Cons show ?thesis by simp
  qed
qed simp

subsection \<open>The answer is exact\<close>

lemma find_cycle_ends: "find_cycle g \<noteq> None"
proof -
  have "card (whites g (\<lambda>_. White)) \<le> card (set (graph_nodes g))"
    by (rule card_mono) (auto simp: whites_def)
  also have "\<dots> \<le> length (graph_nodes g)" by (rule card_length)
  finally have "search (Suc (length (graph_nodes g))) g (map fst g) (\<lambda>_. White) [] \<noteq> Out_Of_Fuel"
    by (intro search_fuel) (auto simp: graph_nodes_def)
  then show ?thesis by (auto simp: find_cycle_def split: visited.splits)
qed

lemma edge_source: "(n, d) \<in> edges g \<Longrightarrow> n \<in> set (map fst g)"
  by (force simp: edges_def dest: adj_entry)

lemma find_cycle_exact:
  "(case find_cycle g of
      None \<Rightarrow> False | Some (Some c) \<Rightarrow> is_cycle g c | Some None \<Rightarrow> acyclic (edges g))"
proof -
  let ?res = "search (Suc (length (graph_nodes g))) g (map fst g) (\<lambda>_. White) []"
  note sound = search_sound [OF search_ok_start, where g = g and k = "Suc (length (graph_nodes g))" and ns = "map fst g"]
  show ?thesis
  proof (cases ?res)
    case Out_Of_Fuel
    then show ?thesis using find_cycle_ends [of g] by (simp add: find_cycle_def)
  next
    case (Found c)
    then show ?thesis using sound by (simp add: find_cycle_def)
  next
    case (Visited col path)
    then have ok: "search_ok g col []" and black: "\<forall>n \<in> set (map fst g). col n = Black"
      using sound by auto
    then obtain ord where ord: "settled g ord" "set ord = {n. col n = Black}"
      by (auto simp: search_ok_def)
    have "acyclic (edges g)"
      by (rule settled_acyclic [OF ord(1)]) (use edge_source black ord(2) in auto)
    then show ?thesis using Visited by (simp add: find_cycle_def)
  qed
qed

lemma find_cycle_None: "find_cycle g = Some None \<longleftrightarrow> acyclic (edges g)"
  using find_cycle_exact [of g] is_cycle_not_acyclic by (auto split: option.splits)

lemma find_cycle_Some: "find_cycle g = Some (Some c) \<Longrightarrow> is_cycle g c"
  using find_cycle_exact [of g] by simp

text \<open>In an acyclic finite graph, a non-empty set of nodes has one with no dependency in it.\<close>

lemma acyclic_has_source:
  assumes "acyclic (edges g)" and "n \<in> S"
  shows "\<exists>m \<in> S. \<forall>d \<in> set (adj g m). d \<notin> S"
proof -
  have "edges g \<subseteq> set (map fst g) \<times> set (graph_nodes g)"
    using edge_source adj_nodes by (fastforce simp: edges_def)
  then have "finite (edges g)" by (rule finite_subset) simp
  then have "finite ((edges g)\<inverse>)" by simp
  moreover have "acyclic ((edges g)\<inverse>)" using assms(1) by (simp add: acyclic_converse)
  ultimately have "wf ((edges g)\<inverse>)" by (rule finite_acyclic_wf)
  then obtain m where "m \<in> S" "\<And>d. (d, m) \<in> (edges g)\<inverse> \<Longrightarrow> d \<notin> S"
    using wfE_min [OF _ assms(2)] by metis
  then show ?thesis by (auto simp: edges_def)
qed

end
