(* ===== verification/TaskFlow_Dag.thy ===== *)
theory TaskFlow_Dag
  imports TaskFlow_Store Dep_Cycle
begin

text \<open>
  The steps of a task flow: \<^verbatim>\<open>src/agent/tools/taskflow/tools/_shared.py\<close> (statuses, dependencies,
  unlocking, the merge of dispatched steps, the validation of a step list) and the full replacement
  of \<^verbatim>\<open>tools/taskflow_update_steps.py\<close>. A step is a dictionary; its identifiers, texts and statuses
  are strings or absent, its dependencies a list or absent. The loops change the step dictionaries
  in place, so the model passes the list along and each iteration sees what the earlier ones
  changed.
\<close>

subsection \<open>Reading a step\<close>

definition step_id_of :: "jdict \<Rightarrow> json" where
  "step_id_of s = jget ''step_id'' s"

definition step_status :: "jdict \<Rightarrow> string" where
  "step_status s =
    (if truthy (jget ''status'' s) then text_of (jget ''status'' s)
     else if truthy (jget ''child_session_key'' s) then ''dispatched'' else ''ready'')"

definition set_status :: "string \<Rightarrow> jdict \<Rightarrow> jdict" where
  "set_status x s = dict_set ''status'' (JStr x) s"

definition deps_of :: "jdict \<Rightarrow> json list" where
  "deps_of s = list_of (jget ''depends_on'' s)"

text \<open>\<^verbatim>\<open>{s.get("step_id"): s for s in steps}\<close>: of two steps with one id the later stays.\<close>

definition by_id :: "jdict list \<Rightarrow> json \<Rightarrow> jdict option" where
  "by_id steps i = find (\<lambda>s. step_id_of s = i) (rev steps)"

definition deps_satisfied :: "jdict \<Rightarrow> jdict list \<Rightarrow> bool" where
  "deps_satisfied s steps =
    list_all (\<lambda>d. d \<noteq> step_id_of s \<and>
        (case by_id steps d of None \<Rightarrow> False | Some q \<Rightarrow> step_status q = ''done'')) (deps_of s)"

fun dep_statuses_of :: "json \<Rightarrow> jdict list \<Rightarrow> json list \<Rightarrow> string list option" where
  "dep_statuses_of i steps [] = Some []"
| "dep_statuses_of i steps (d # ds) =
    (if d = i then None
     else case by_id steps d of
            None \<Rightarrow> None
          | Some q \<Rightarrow> map_option (\<lambda>xs. step_status q # xs) (dep_statuses_of i steps ds))"

definition dep_statuses :: "jdict \<Rightarrow> jdict list \<Rightarrow> string list option" where
  "dep_statuses s steps = dep_statuses_of (step_id_of s) steps (deps_of s)"

definition CASCADING_DEP_STATUSES :: "string list" where
  "CASCADING_DEP_STATUSES = [''skipped'', ''cancelled'']"

fun mark_step_done :: "jdict list \<Rightarrow> string \<Rightarrow> json \<times> jdict list" where
  "mark_step_done [] key = (JNull, [])"
| "mark_step_done (s # steps) key =
    (if key = [] then (JNull, s # steps)
     else if jget ''child_session_key'' s = JStr key then (step_id_of s, set_status ''done'' s # steps)
     else (let (i, out) = mark_step_done steps key in (i, s # out)))"

definition detached_child_keys :: "jdict list \<Rightarrow> string list" where
  "detached_child_keys steps =
    fold (\<lambda>s keys. if step_status s \<in> set SETTLED_STEP_STATUSES then keys
                     else append_key (child_key_of s) keys) steps []"

subsection \<open>Unlocking\<close>

text \<open>One iteration: the step's new form and its id when it became ready.\<close>

definition unlock_step :: "jdict list \<Rightarrow> jdict \<Rightarrow> json list \<times> jdict" where
  "unlock_step steps s =
    (if step_status s \<noteq> ''blocked'' \<or> \<not> truthy (jget ''depends_on'' s) then ([], s)
     else
       case dep_statuses s steps of
         None \<Rightarrow> ([], s)
       | Some xs \<Rightarrow>
           if list_ex (\<lambda>x. x \<in> set CASCADING_DEP_STATUSES) xs
           then ([], dict_set ''skip_reason'' (JStr ''dependency skipped or cancelled'')
                       (set_status ''skipped'' s))
           else if list_all (\<lambda>x. x = ''done'') xs
           then ((if step_id_of s = JNull then [] else [step_id_of s]), set_status ''ready'' s)
           else ([], s))"

fun unlock_from :: "jdict list \<Rightarrow> jdict list \<Rightarrow> json list \<times> jdict list" where
  "unlock_from seen [] = ([], seen)"
| "unlock_from seen (s # rest) =
    (let (ids, s') = unlock_step (seen @ s # rest) s;
         (ids', out) = unlock_from (seen @ [s']) rest
     in (ids @ ids', out))"

definition unlock_dependents :: "jdict list \<Rightarrow> json list \<times> jdict list" where
  "unlock_dependents steps = unlock_from [] steps"

subsection \<open>Merging dispatched steps\<close>

definition last_pos :: "('a \<Rightarrow> bool) \<Rightarrow> 'a list \<Rightarrow> nat option" where
  "last_pos P xs = find (\<lambda>i. P (xs ! i)) (rev [0 ..< length xs])"

definition record_dispatch :: "jdict \<Rightarrow> jdict \<Rightarrow> jdict" where
  "record_dispatch r s =
    dict_pop ''judge_feedback''
      (dict_set ''dispatched_at'' (jget ''dispatched_at'' r)
        (dict_set ''child_session_key'' (jget ''child_session_key'' r)
          (dict_set ''status'' (jget ''status'' r) s)))"

text \<open>
  The targets are the steps of the fresh list, whose ids the loop does not change: the first \<open>n\<close>
  of the merged list.
\<close>

definition merge_record :: "nat \<Rightarrow> jdict \<Rightarrow> jdict list \<Rightarrow> jdict list" where
  "merge_record n r merged =
    (case (if step_id_of r = JNull then None
           else last_pos (\<lambda>s. step_id_of s = step_id_of r) (take n merged)) of
       None \<Rightarrow> merged @ [r]
     | Some i \<Rightarrow> merged[i := record_dispatch r (merged ! i)])"

definition apply_dispatched_steps :: "jdict list \<Rightarrow> jdict list \<Rightarrow> jdict list" where
  "apply_dispatched_steps fresh records = fold (merge_record (length fresh)) records fresh"

definition steps_summary :: "jdict list \<Rightarrow> (string \<times> nat) list" where
  "steps_summary steps =
    fold (\<lambda>s c. dict_set (step_status s) (get_count c (step_status s) + 1) c) steps
      (map (\<lambda>x. (x, 0)) STEP_STATUSES)"

subsection \<open>Nested values\<close>

definition all_digits :: "string \<Rightarrow> bool" where
  "all_digits s = (s \<noteq> [] \<and> list_all (\<lambda>c. c \<in> set ''0123456789'') s)"

definition digits_nat :: "string \<Rightarrow> nat" where
  "digits_nat s = fold (\<lambda>c n. 10 * n + (of_char c - 48)) s 0"

fun walk :: "string list \<Rightarrow> json \<Rightarrow> json" where
  "walk [] v = v"
| "walk (p # ps) (JDict d) = walk ps (jget p d)"
| "walk (p # ps) (JList xs) =
    (if all_digits p
     then walk ps (if digits_nat p < length xs then xs ! digits_nat p else JNull)
     else JNull)"
| "walk (p # ps) _ = JNull"

definition extract_nested :: "json \<Rightarrow> string \<Rightarrow> json" where
  "extract_nested v path = (if path = [] then v else walk (split_on CHR ''.'' path) v)"

subsection \<open>Validating a step list\<close>

datatype steps_error =
  Not_A_List
| Step_Not_Object nat
| Step_Id_Required nat
| Duplicate_Step_Id string
| Task_Required string
| Invalid_Status string json
| Deps_Not_List string
| Invalid_Dep string
| Self_Dep string
| File_Deps_Not_List string
| Invalid_File_Dep string
| Unknown_Dep string string
| Dependency_Cycle "string list"

text \<open>\<^verbatim>\<open>isinstance(v, str) and v.strip()\<close>.\<close>

definition nonblank :: "json \<Rightarrow> bool" where
  "nonblank v = (case v of JStr s \<Rightarrow> strip s \<noteq> [] | _ \<Rightarrow> False)"

definition key_of :: "json \<Rightarrow> string" where
  "key_of v = strip (text_of v)"

definition step_key :: "jdict \<Rightarrow> string" where
  "step_key s = key_of (step_id_of s)"

definition dep_keys :: "jdict \<Rightarrow> string list" where
  "dep_keys s = map key_of (deps_of s)"

fun check_deps :: "string \<Rightarrow> json list \<Rightarrow> steps_error option" where
  "check_deps sid [] = None"
| "check_deps sid (d # ds) =
    (if \<not> nonblank d then Some (Invalid_Dep sid)
     else if key_of d = sid then Some (Self_Dep sid)
     else check_deps sid ds)"

definition check_file_deps :: "string \<Rightarrow> jdict \<Rightarrow> steps_error option" where
  "check_file_deps sid s =
    (case dict_get s ''file_deps'' of
       None \<Rightarrow> None
     | Some (JList fs) \<Rightarrow> if list_all nonblank fs then None else Some (Invalid_File_Dep sid)
     | Some _ \<Rightarrow> Some (File_Deps_Not_List sid))"

text \<open>
  The body of the first loop; the result is the step's id. A status that is a list or an object
  makes Python's membership test raise instead: a rejection too.
\<close>

definition check_step :: "nat \<Rightarrow> string list \<Rightarrow> json \<Rightarrow> steps_error + string" where
  "check_step k seen v =
    (case v of
       JDict s \<Rightarrow>
         (let sid = step_key s
          in if \<not> nonblank (step_id_of s) then Inl (Step_Id_Required k)
             else if sid \<in> set seen then Inl (Duplicate_Step_Id sid)
             else if \<not> nonblank (jget ''task'' s) then Inl (Task_Required sid)
             else if jget ''status'' s \<notin> JStr ` set STEP_STATUSES
             then Inl (Invalid_Status sid (jget ''status'' s))
             else if \<not> is_jlist (jget ''depends_on'' s) then Inl (Deps_Not_List sid)
             else case check_deps sid (deps_of s) of
                    Some e \<Rightarrow> Inl e
                  | None \<Rightarrow> (case check_file_deps sid s of Some e \<Rightarrow> Inl e | None \<Rightarrow> Inr sid))
     | _ \<Rightarrow> Inl (Step_Not_Object k))"

fun check_steps :: "nat \<Rightarrow> string list \<Rightarrow> json list \<Rightarrow> steps_error + string list" where
  "check_steps k seen [] = Inr seen"
| "check_steps k seen (v # vs) =
    (case check_step k seen v of
       Inl e \<Rightarrow> Inl e
     | Inr sid \<Rightarrow> check_steps (k + 1) (seen @ [sid]) vs)"

definition as_dicts :: "json list \<Rightarrow> jdict list" where
  "as_dicts vs = map (\<lambda>v. case v of JDict s \<Rightarrow> s | _ \<Rightarrow> []) vs"

fun check_refs :: "string list \<Rightarrow> jdict list \<Rightarrow> steps_error option" where
  "check_refs seen [] = None"
| "check_refs seen (s # steps) =
    (case find (\<lambda>d. d \<notin> set seen) (dep_keys s) of
       Some d \<Rightarrow> Some (Unknown_Dep (step_key s) d)
     | None \<Rightarrow> check_refs seen steps)"

definition plan_graph :: "jdict list \<Rightarrow> graph" where
  "plan_graph steps = fold (\<lambda>s g. dict_set (step_key s) (dep_keys s) g) steps []"

definition find_dependency_cycle :: "jdict list \<Rightarrow> string list option option" where
  "find_dependency_cycle steps = find_cycle (plan_graph steps)"

definition validate_steps_list :: "json \<Rightarrow> steps_error option" where
  "validate_steps_list v =
    (case v of
       JList vs \<Rightarrow>
         (case check_steps 0 [] vs of
            Inl e \<Rightarrow> Some e
          | Inr seen \<Rightarrow>
              (case check_refs seen (as_dicts vs) of
                 Some e \<Rightarrow> Some e
               | None \<Rightarrow>
                   (case find_dependency_cycle (as_dicts vs) of
                      Some (Some c) \<Rightarrow> Some (Dependency_Cycle c)
                    | _ \<Rightarrow> None)))
     | _ \<Rightarrow> Some Not_A_List)"

subsection \<open>Replacing the step list\<close>

definition normalize_step :: "jdict \<Rightarrow> jdict" where
  "normalize_step s =
    dict_set ''status'' (JStr (text_of (jget ''status'' s)))
      (dict_set ''depends_on'' (JList (map (JStr \<circ> key_of) (deps_of s)))
        (dict_set ''task'' (JStr (key_of (jget ''task'' s)))
          (dict_set ''step_id'' (JStr (step_key s)) s)))"

definition normalize_steps :: "jdict list \<Rightarrow> jdict list" where
  "normalize_steps steps = map normalize_step steps"

datatype merge_error =
  New_Step_Not_Structural string
| Dispatched_Downgrade string
| Done_Status string
| Done_Task string
| Done_Deps string
| Illegal_Transition string
| Child_Key_Immutable string
| Child_Key_Missing string

definition STRUCTURAL_STATUSES :: "string list" where
  "STRUCTURAL_STATUSES = [''ready'', ''blocked'']"

definition retain_child :: "jdict \<Rightarrow> jdict \<Rightarrow> merge_error + jdict" where
  "retain_child old new =
    (let sid = text_of (step_id_of new); old_key = child_key_of old; given = child_key_of new
     in if given \<noteq> [] \<and> given \<noteq> old_key then Inl (Child_Key_Immutable sid)
        else if old_key = [] then Inl (Child_Key_Missing sid)
        else
          (let new1 = dict_set ''child_session_key'' (JStr old_key) new
           in Inr (if jget ''dispatched_at'' new1 = JNull \<and> jget ''dispatched_at'' old \<noteq> JNull
                   then dict_set ''dispatched_at'' (jget ''dispatched_at'' old) new1 else new1)))"

definition merge_step :: "jdict list \<Rightarrow> jdict \<Rightarrow> merge_error + jdict" where
  "merge_step existing new =
    (let sid = text_of (step_id_of new); new_status = text_of (jget ''status'' new)
     in case by_id existing (step_id_of new) of
          None \<Rightarrow>
            if new_status \<notin> set STRUCTURAL_STATUSES then Inl (New_Step_Not_Structural sid) else Inr new
        | Some old \<Rightarrow>
            if step_status old = ''dispatched''
            then (if new_status \<in> set STRUCTURAL_STATUSES then Inl (Dispatched_Downgrade sid)
                  else retain_child old new)
            else if step_status old = ''done''
            then (if new_status \<noteq> ''done'' then Inl (Done_Status sid)
                  else if text_of (jget ''task'' new) \<noteq> key_of (jget ''task'' old) then Inl (Done_Task sid)
                  else if sort (map text_of (deps_of new)) \<noteq> sort (dep_keys old) then Inl (Done_Deps sid)
                  else retain_child old new)
            else if new_status \<notin> set STRUCTURAL_STATUSES then Inl (Illegal_Transition sid)
            else Inr new)"

fun merge_steps :: "jdict list \<Rightarrow> jdict list \<Rightarrow> merge_error + jdict list" where
  "merge_steps existing [] = Inr []"
| "merge_steps existing (s # steps) =
    (case merge_step existing s of
       Inl e \<Rightarrow> Inl e
     | Inr s' \<Rightarrow> (case merge_steps existing steps of Inl e \<Rightarrow> Inl e | Inr out \<Rightarrow> Inr (s' # out)))"

text \<open>The tool: validate, read, refuse a terminal flow, merge, write with the revision read or given.\<close>

datatype update_error =
  Flow_Id_Required
| Bad_Steps steps_error
| No_Such_Flow text_id
| Flow_Is_Terminal text_id string
| Merge_Rejected merge_error
| Store_Refused flow_error

definition taskflow_update_steps ::
    "time \<Rightarrow> text_id \<Rightarrow> json \<Rightarrow> int option \<Rightarrow> text_id \<Rightarrow> flow_table \<Rightarrow> (update_error + flow) \<times> flow_table" where
  "taskflow_update_steps now flow_id v expected sess t =
    (let i = strip flow_id
     in if i = [] then (Inl Flow_Id_Required, t)
        else case validate_steps_list v of
          Some e \<Rightarrow> (Inl (Bad_Steps e), t)
        | None \<Rightarrow>
            (case get_flow i sess t of
               None \<Rightarrow> (Inl (No_Such_Flow i), t)
             | Some f \<Rightarrow>
                 if flow_terminal (fl_status f) then (Inl (Flow_Is_Terminal i (fl_status f)), t)
                 else
                   (case merge_steps (as_dicts (steps_of (fl_state f)))
                           (normalize_steps (as_dicts (list_of v))) of
                      Inl e \<Rightarrow> (Inl (Merge_Rejected e), t)
                    | Inr merged \<Rightarrow>
                        (case update_flow now i
                                (case expected of Some n \<Rightarrow> n | None \<Rightarrow> fl_revision f) sess
                                (no_update\<lparr>up_state :=
                                   Some (dict_set ''steps'' (JList (map JDict merged)) (fl_state f))\<rparr>) t of
                           (Inl e, t') \<Rightarrow> (Inl (Store_Refused e), t')
                         | (Inr g, t') \<Rightarrow> (Inr g, t')))))"

subsection \<open>The accepted plans\<close>

definition file_deps_wf :: "jdict \<Rightarrow> bool" where
  "file_deps_wf s \<longleftrightarrow>
    (case dict_get s ''file_deps'' of None \<Rightarrow> True | Some (JList fs) \<Rightarrow> list_all nonblank fs | Some _ \<Rightarrow> False)"

definition step_wf :: "jdict \<Rightarrow> bool" where
  "step_wf s \<longleftrightarrow> nonblank (step_id_of s) \<and> nonblank (jget ''task'' s) \<and>
     jget ''status'' s \<in> JStr ` set STEP_STATUSES \<and> is_jlist (jget ''depends_on'' s) \<and>
     (\<forall>d \<in> set (deps_of s). nonblank d \<and> key_of d \<noteq> step_key s) \<and> file_deps_wf s"

definition plan_edges :: "jdict list \<Rightarrow> (string \<times> string) set" where
  "plan_edges steps = {(step_key s, d) | s d. s \<in> set steps \<and> d \<in> set (dep_keys s)}"

definition plan_wf :: "jdict list \<Rightarrow> bool" where
  "plan_wf steps \<longleftrightarrow> (\<forall>s \<in> set steps. step_wf s) \<and> distinct (map step_key steps) \<and>
     (\<forall>s \<in> set steps. set (dep_keys s) \<subseteq> step_key ` set steps) \<and> acyclic (plan_edges steps)"

lemma check_deps_None: "check_deps sid ds = None \<longleftrightarrow> (\<forall>d \<in> set ds. nonblank d \<and> key_of d \<noteq> sid)"
  by (induction ds) auto

lemma check_file_deps_None: "check_file_deps sid s = None \<longleftrightarrow> file_deps_wf s"
  by (auto simp: check_file_deps_def file_deps_wf_def split: option.splits json.splits)

lemma check_step_Inr:
  "check_step k seen v = Inr sid \<longleftrightarrow> (\<exists>s. v = JDict s \<and> step_wf s \<and> sid = step_key s \<and> sid \<notin> set seen)"
proof (cases "\<exists>s. v = JDict s")
  case True
  then obtain s where v: "v = JDict s" by blast
  show ?thesis
    using check_deps_None [of "step_key s" "deps_of s"] check_file_deps_None [of "step_key s" s]
    by (auto simp: v check_step_def step_wf_def Let_def split: option.splits)
qed (auto simp: check_step_def split: json.splits)

lemma map_JDict_eq [simp]: "map JDict xs = map JDict ys \<longleftrightarrow> xs = ys"
  by (rule inj_map_eq_map) (simp add: inj_def)

lemma check_steps_Inr:
  "check_steps k seen vs = Inr out \<longleftrightarrow>
    (\<exists>steps. vs = map JDict steps \<and> (\<forall>s \<in> set steps. step_wf s) \<and> distinct (map step_key steps) \<and>
       set (map step_key steps) \<inter> set seen = {} \<and> out = seen @ map step_key steps)"
proof (induction vs arbitrary: k seen)
  case (Cons v vs)
  show ?case
  proof (cases "check_step k seen v")
    case (Inl e)
    then have "\<nexists>s. v = JDict s \<and> step_wf s \<and> step_key s \<notin> set seen"
      using check_step_Inr [of k seen v] by auto
    with Inl show ?thesis by (auto simp: Cons_eq_map_conv)
  next
    case (Inr sid)
    then obtain s where "v = JDict s" "step_wf s" "sid = step_key s" "sid \<notin> set seen"
      by (auto simp: check_step_Inr)
    with Inr Cons.IH [of "k + 1" "seen @ [sid]"] show ?thesis
      by (auto simp: Cons_eq_map_conv)
  qed
qed auto

lemma check_refs_None: "check_refs seen steps = None \<longleftrightarrow> (\<forall>s \<in> set steps. set (dep_keys s) \<subseteq> set seen)"
proof (induction steps)
  case (Cons s steps)
  have "find (\<lambda>d. d \<notin> set seen) (dep_keys s) = None \<longleftrightarrow> set (dep_keys s) \<subseteq> set seen"
    by (auto simp: find_None_iff)
  with Cons show ?case by (auto split: option.splits)
qed simp

lemma as_dicts_map [simp]: "as_dicts (map JDict steps) = steps"
  by (induction steps) (auto simp: as_dicts_def)

lemma plan_graph_get:
  assumes "distinct (map step_key steps)"
  shows "dict_get (fold (\<lambda>s g. dict_set (step_key s) (dep_keys s) g) steps g) n =
    (case map_of (map (\<lambda>s. (step_key s, dep_keys s)) steps) n of Some ds \<Rightarrow> Some ds | None \<Rightarrow> dict_get g n)"
  using assms
proof (induction steps arbitrary: g)
  case (Cons s steps)
  have "map_of (map (\<lambda>s. (step_key s, dep_keys s)) steps) (step_key s) = None"
    using Cons.prems by (auto simp: map_of_eq_None_iff)
  with Cons show ?case by (auto split: option.splits)
qed simp

lemma plan_graph_edges:
  assumes "distinct (map step_key steps)"
  shows "edges (plan_graph steps) = plan_edges steps"
proof -
  let ?m = "map_of (map (\<lambda>s. (step_key s, dep_keys s)) steps)"
  have m: "?m n = Some ds \<longleftrightarrow> (\<exists>s \<in> set steps. n = step_key s \<and> ds = dep_keys s)" for n ds
    using assms by (subst map_of_eq_Some_iff) (auto simp: comp_def)
  have "dict_get (plan_graph steps) n = ?m n" for n
    unfolding plan_graph_def plan_graph_get [OF assms] by (simp split: option.splits)
  then have "(n, d) \<in> edges (plan_graph steps) \<longleftrightarrow> (\<exists>ds. ?m n = Some ds \<and> d \<in> set ds)" for n d
    by (cases "?m n") (auto simp: edges_def adj_def)
  then show ?thesis unfolding plan_edges_def by (auto simp: m)
qed

lemma cycle_check: "distinct (map step_key steps) \<Longrightarrow>
    find_dependency_cycle steps = Some None \<longleftrightarrow> acyclic (plan_edges steps)"
  by (simp add: find_dependency_cycle_def find_cycle_None plan_graph_edges)

lemma validate_accepts:
  "validate_steps_list v = None \<longleftrightarrow> (\<exists>steps. v = JList (map JDict steps) \<and> plan_wf steps)"
proof (cases "\<exists>vs. v = JList vs")
  case True
  then obtain vs where v: "v = JList vs" by blast
  show ?thesis
  proof (cases "check_steps 0 [] vs")
    case (Inl e)
    then have "\<nexists>steps. vs = map JDict steps \<and> plan_wf steps"
      using check_steps_Inr [of 0 "[]" vs] by (auto simp: plan_wf_def)
    with v Inl show ?thesis by (auto simp: validate_steps_list_def)
  next
    case (Inr seen)
    then obtain steps where steps: "vs = map JDict steps" "\<forall>s \<in> set steps. step_wf s"
        "distinct (map step_key steps)" "seen = map step_key steps"
      using check_steps_Inr [of 0 "[]" vs] by auto
    have "validate_steps_list v = None \<longleftrightarrow>
        check_refs seen steps = None \<and> find_dependency_cycle steps = Some None"
      using v Inr steps(1) find_cycle_ends [of "plan_graph steps"]
      by (auto simp: validate_steps_list_def find_dependency_cycle_def split: option.splits)
    also have "\<dots> \<longleftrightarrow> plan_wf steps"
      using steps by (auto simp: check_refs_None cycle_check plan_wf_def)
    finally show ?thesis using v steps(1) by (auto dest: map_injective simp: inj_def)
  qed
qed (auto simp: validate_steps_list_def split: json.splits)

subsection \<open>Steps by id\<close>

lemma by_id_row: "by_id steps i = row_at step_id_of i (rev steps)"
  by (simp add: by_id_def row_at_def)

lemma by_id_iff:
  assumes "distinct (map step_id_of steps)"
  shows "by_id steps i = Some s \<longleftrightarrow> s \<in> set steps \<and> step_id_of s = i"
  unfolding by_id_row using assms by (subst row_at_iff) (auto simp: keyed_def rev_map [symmetric])

lemma by_id_None: "by_id steps i = None \<longleftrightarrow> (\<forall>s \<in> set steps. step_id_of s \<noteq> i)"
  by (simp add: by_id_row row_at_None)

lemma by_id_Some: "by_id steps i = Some s \<Longrightarrow> s \<in> set steps \<and> step_id_of s = i"
  unfolding by_id_row by (auto dest: row_at_Some)

text \<open>What the dependency test sees of a list: the ids, and which of them are done.\<close>

definition done_view :: "jdict \<Rightarrow> json \<times> bool" where
  "done_view s = (step_id_of s, step_status s = ''done'')"

lemma find_map_view: "find (\<lambda>q. fst q = d) (map done_view xs) = map_option done_view (find (\<lambda>s. step_id_of s = d) xs)"
  by (induction xs) (auto simp: done_view_def)

lemma by_id_view: "map_option done_view (by_id steps d) = find (\<lambda>q. fst q = d) (rev (map done_view steps))"
  by (simp add: by_id_def rev_map find_map_view)

lemma dep_done_view:
  "(case by_id steps d of None \<Rightarrow> False | Some q \<Rightarrow> step_status q = ''done'') \<longleftrightarrow>
   find (\<lambda>q. fst q = d) (rev (map done_view steps)) = Some (d, True)"
  unfolding by_id_view [symmetric]
  by (auto simp: done_view_def dest: by_id_Some split: option.splits)

lemma deps_satisfied_view:
  assumes "map done_view steps = map done_view steps'"
  shows "deps_satisfied s steps = deps_satisfied s steps'"
  unfolding deps_satisfied_def dep_done_view assms by (rule refl)

lemma dep_statuses_done:
  "(case dep_statuses_of i steps ds of None \<Rightarrow> False | Some xs \<Rightarrow> list_all (\<lambda>x. x = ''done'') xs) \<longleftrightarrow>
   list_all (\<lambda>d. d \<noteq> i \<and> (case by_id steps d of None \<Rightarrow> False | Some q \<Rightarrow> step_status q = ''done'')) ds"
  by (induction ds) (auto split: option.splits)

lemma deps_satisfied_statuses:
  "deps_satisfied s steps \<longleftrightarrow> (\<exists>xs. dep_statuses s steps = Some xs \<and> list_all (\<lambda>x. x = ''done'') xs)"
  unfolding deps_satisfied_def dep_statuses_def dep_statuses_done [symmetric] by (simp split: option.splits)

subsection \<open>One unlocking pass\<close>

lemma status_set [simp]: "x \<noteq> [] \<Longrightarrow> step_status (set_status x s) = x"
  by (simp add: step_status_def set_status_def text_of_def)

lemma id_set_status [simp]: "step_id_of (set_status x s) = step_id_of s"
  by (simp add: step_id_of_def set_status_def)

lemma skip_reason_frame [simp]:
  "step_id_of (dict_set ''skip_reason'' v s) = step_id_of s"
  "step_status (dict_set ''skip_reason'' v s) = step_status s"
  by (simp_all add: step_id_of_def step_status_def)

definition waits :: "jdict \<Rightarrow> bool" where
  "waits s \<longleftrightarrow> step_status s = ''blocked'' \<and> truthy (jget ''depends_on'' s)"

definition dead_dep :: "jdict list \<Rightarrow> jdict \<Rightarrow> bool" where
  "dead_dep steps s \<longleftrightarrow>
     (case dep_statuses s steps of
        None \<Rightarrow> False | Some xs \<Rightarrow> list_ex (\<lambda>x. x \<in> set CASCADING_DEP_STATUSES) xs)"

lemma dead_not_satisfied: "dead_dep steps s \<Longrightarrow> \<not> deps_satisfied s steps"
proof
  assume dead: "dead_dep steps s" and "deps_satisfied s steps"
  then obtain xs where xs: "dep_statuses s steps = Some xs" "\<And>x. x \<in> set xs \<Longrightarrow> x = ''done''"
    by (auto simp: deps_satisfied_statuses list_all_iff)
  with dead obtain x where x: "x \<in> set xs" "x \<in> set CASCADING_DEP_STATUSES"
    by (auto simp: dead_dep_def list_ex_iff)
  from xs(2) [OF x(1)] x(2) show False by (simp add: CASCADING_DEP_STATUSES_def)
qed

lemma unlock_step_eq:
  "unlock_step steps s =
    (if \<not> waits s then ([], s)
     else if deps_satisfied s steps
     then ((if step_id_of s = JNull then [] else [step_id_of s]), set_status ''ready'' s)
     else if dead_dep steps s
     then ([], dict_set ''skip_reason'' (JStr ''dependency skipped or cancelled'') (set_status ''skipped'' s))
     else ([], s))"
  using dead_not_satisfied [of steps s]
  by (auto simp: unlock_step_def waits_def dead_dep_def deps_satisfied_statuses split: option.splits)

lemma unlock_step_view: "done_view (snd (unlock_step steps s)) = done_view s"
  by (auto simp: unlock_step_eq done_view_def waits_def)

lemma unlock_step_id [simp]: "step_id_of (snd (unlock_step steps s)) = step_id_of s"
  using unlock_step_view [of steps s] by (simp add: done_view_def)

text \<open>The list that the iteration at position \<open>i\<close> sees.\<close>

definition mixed :: "jdict list \<Rightarrow> jdict list \<Rightarrow> nat \<Rightarrow> jdict list" where
  "mixed steps out i = take i out @ drop i steps"

lemma unlock_from_spec:
  "unlock_from seen rest = (ids, out) \<Longrightarrow>
    length out = length seen + length rest \<and> take (length seen) out = seen \<and>
    (\<forall>i < length rest. out ! (length seen + i) =
       snd (unlock_step (take (length seen + i) out @ drop i rest) (rest ! i))) \<and>
    ids = concat (map (\<lambda>i. fst (unlock_step (take (length seen + i) out @ drop i rest) (rest ! i)))
                    [0 ..< length rest])"
proof (induction rest arbitrary: seen ids out)
  case (Cons s rest)
  obtain ids1 s' where one: "unlock_step (seen @ s # rest) s = (ids1, s')"
    by (cases "unlock_step (seen @ s # rest) s")
  obtain ids2 where more: "unlock_from (seen @ [s']) rest = (ids2, out)" and ids: "ids = ids1 @ ids2"
    using Cons.prems one by (auto split: prod.splits)
  note IH = Cons.IH [OF more]
  have take: "take (length seen) out = seen" "out ! length seen = s'"
    using IH by (auto simp: take_Suc_conv_app_nth append_eq_append_conv)
  have len: "length out = length seen + length (s # rest)" using IH by simp
  have nth: "out ! (length seen + i) =
      snd (unlock_step (take (length seen + i) out @ drop i (s # rest)) ((s # rest) ! i))"
    if "i < length (s # rest)" for i
  proof (cases i)
    case 0
    then show ?thesis using take one by simp
  next
    case (Suc j)
    with that IH show ?thesis by simp
  qed
  have "ids2 = concat (map (\<lambda>i. fst (unlock_step (take (length seen + i) out @ drop i (s # rest)) ((s # rest) ! i)))
      [Suc 0 ..< Suc (length rest)])"
    using IH by (simp add: map_Suc_upt [symmetric] comp_def del: map_Suc_upt upt_Suc)
  moreover have "ids1 = fst (unlock_step (take (length seen) out @ s # rest) s)"
    using take one by simp
  ultimately have "ids = concat (map (\<lambda>i. fst (unlock_step (take (length seen + i) out @ drop i (s # rest)) ((s # rest) ! i)))
      [0 ..< length (s # rest)])"
    using ids by (simp add: upt_rec [of 0 "Suc (length rest)"] del: upt_Suc)
  with take len nth show ?case by blast
qed simp

lemma unlock_spec:
  assumes "unlock_dependents steps = (ids, out)"
  shows "length out = length steps"
    and "\<And>i. i < length steps \<Longrightarrow> out ! i = snd (unlock_step (mixed steps out i) (steps ! i))"
    and "ids = concat (map (\<lambda>i. fst (unlock_step (mixed steps out i) (steps ! i))) [0 ..< length steps])"
  using unlock_from_spec [of "[]" steps ids out] assms by (simp_all add: unlock_dependents_def mixed_def)

lemma unlock_view:
  assumes "unlock_dependents steps = (ids, out)"
  shows "map done_view out = map done_view steps"
  by (rule nth_equalityI) (use unlock_spec(1,2) [OF assms] unlock_step_view in auto)

lemma mixed_view:
  assumes "unlock_dependents steps = (ids, out)" and "i < length steps"
  shows "map done_view (mixed steps out i) = map done_view steps"
proof -
  have "map done_view (mixed steps out i) = take i (map done_view out) @ drop i (map done_view steps)"
    by (simp add: mixed_def take_map drop_map)
  then show ?thesis unfolding unlock_view [OF assms(1)] by simp
qed

text \<open>Which steps a pass readies does not depend on the order of the list.\<close>

lemma unlock_nth:
  assumes "unlock_dependents steps = (ids, out)" and "i < length steps"
  shows "deps_satisfied (steps ! i) (mixed steps out i) = deps_satisfied (steps ! i) steps"
    and "\<not> waits (steps ! i) \<Longrightarrow> out ! i = steps ! i"
    and "waits (steps ! i) \<Longrightarrow> step_status (out ! i) =
      (if deps_satisfied (steps ! i) steps then ''ready''
       else if dead_dep (mixed steps out i) (steps ! i) then ''skipped'' else ''blocked'')"
proof -
  show sat: "deps_satisfied (steps ! i) (mixed steps out i) = deps_satisfied (steps ! i) steps"
    by (rule deps_satisfied_view [OF mixed_view [OF assms]])
  note nth = unlock_spec(2) [OF assms]
  show "\<not> waits (steps ! i) \<Longrightarrow> out ! i = steps ! i"
    unfolding nth by (simp add: unlock_step_eq)
  show "waits (steps ! i) \<Longrightarrow> step_status (out ! i) =
      (if deps_satisfied (steps ! i) steps then ''ready''
       else if dead_dep (mixed steps out i) (steps ! i) then ''skipped'' else ''blocked'')"
    unfolding nth by (simp add: unlock_step_eq sat) (simp add: waits_def)
qed

definition readied :: "jdict list \<Rightarrow> jdict \<Rightarrow> bool" where
  "readied steps s \<longleftrightarrow> waits s \<and> deps_satisfied s steps \<and> step_id_of s \<noteq> JNull"

lemma concat_if_single: "concat (map (\<lambda>x. if P x then [f x] else []) xs) = map f (filter P xs)"
  by (induction xs) auto

lemma unlock_ids:
  assumes "unlock_dependents steps = (ids, out)"
  shows "ids = map step_id_of (filter (readied steps) steps)"
proof -
  have "ids = concat (map (\<lambda>i. if readied steps (steps ! i) then [step_id_of (steps ! i)] else []) [0 ..< length steps])"
    unfolding unlock_spec(3) [OF assms]
    by (rule arg_cong [where f = concat], rule map_cong)
      (auto simp: unlock_step_eq unlock_nth(1) [OF assms] readied_def)
  also have "\<dots> = concat (map (\<lambda>s. if readied steps s then [step_id_of s] else []) (map ((!) steps) [0 ..< length steps]))"
    by (simp add: comp_def)
  also have "map ((!) steps) [0 ..< length steps] = steps" by (rule map_nth)
  finally show ?thesis by (simp add: concat_if_single)
qed

subsection \<open>A pass over an ordered list\<close>

definition deps_before :: "jdict list \<Rightarrow> bool" where
  "deps_before steps \<longleftrightarrow> distinct (map step_id_of steps) \<and>
     (\<forall>i < length steps. \<forall>d \<in> set (deps_of (steps ! i)). \<exists>j < i. step_id_of (steps ! j) = d)"

lemma view_ids: "map done_view xs = map done_view ys \<Longrightarrow> map step_id_of xs = map step_id_of ys"
proof -
  assume "map done_view xs = map done_view ys"
  then have "map fst (map done_view xs) = map fst (map done_view ys)" by simp
  then show ?thesis by (simp add: done_view_def comp_def)
qed

lemma mixed_lookup:
  assumes "unlock_dependents steps = (ids, out)" and "deps_before steps" and "i < length steps"
    and "d \<in> set (deps_of (steps ! i))"
  shows "by_id (mixed steps out i) d = by_id out d" and "by_id out d \<noteq> None" and "d \<noteq> step_id_of (steps ! i)"
proof -
  obtain j where j: "j < i" "step_id_of (steps ! j) = d"
    using assms(2-4) unfolding deps_before_def by blast
  have ids: "map step_id_of out = map step_id_of steps"
    by (rule view_ids [OF unlock_view [OF assms(1)]])
  have ids': "map step_id_of (mixed steps out i) = map step_id_of steps"
    by (rule view_ids [OF mixed_view [OF assms(1,3)]])
  have dist: "distinct (map step_id_of out)" "distinct (map step_id_of (mixed steps out i))"
    using assms(2) unfolding ids ids' by (auto simp: deps_before_def)
  have len: "length out = length steps" by (rule unlock_spec(1) [OF assms(1)])
  have id: "step_id_of (out ! j) = d"
    using arg_cong [OF ids, of "\<lambda>xs. xs ! j"] j assms(3) len by simp
  have "out ! j \<in> set out" using j(1) assms(3) len by simp
  then have o: "by_id out d = Some (out ! j)" by (simp add: by_id_iff [OF dist(1)] id)
  have "out ! j \<in> set (mixed steps out i)"
    using j(1) assms(3) len by (auto simp: mixed_def in_set_conv_nth intro!: exI [of _ j])
  then have m: "by_id (mixed steps out i) d = Some (out ! j)" by (simp add: by_id_iff [OF dist(2)] id)
  show "by_id (mixed steps out i) d = by_id out d" "by_id out d \<noteq> None" using o m by simp_all
  have "map step_id_of steps ! j \<noteq> map step_id_of steps ! i"
    using assms(2,3) j(1) unfolding deps_before_def by (subst nth_eq_iff_index_eq) auto
  then have "step_id_of (steps ! j) \<noteq> step_id_of (steps ! i)" using assms(3) j(1) by simp
  then show "d \<noteq> step_id_of (steps ! i)" using j(2) by simp
qed

lemma dep_statuses_of_all:
  assumes "\<And>d. d \<in> set ds \<Longrightarrow> d \<noteq> i \<and> by_id steps d \<noteq> None"
  shows "dep_statuses_of i steps ds = Some (map (\<lambda>d. step_status (the (by_id steps d))) ds)"
  using assms by (induction ds) (auto split: option.splits)

lemma ordered_dead:
  assumes "unlock_dependents steps = (ids, out)" and "deps_before steps" and "i < length steps"
  shows "dead_dep (mixed steps out i) (steps ! i) \<longleftrightarrow>
    (\<exists>d \<in> set (deps_of (steps ! i)). step_status (the (by_id out d)) \<in> set CASCADING_DEP_STATUSES)"
proof -
  note look = mixed_lookup [OF assms]
  have "dep_statuses (steps ! i) (mixed steps out i) =
      Some (map (\<lambda>d. step_status (the (by_id (mixed steps out i) d))) (deps_of (steps ! i)))"
    unfolding dep_statuses_def by (rule dep_statuses_of_all) (use look in auto)
  then show ?thesis using look(1) by (auto simp: dead_dep_def list_ex_iff)
qed

subsection \<open>A plan that waits only on itself goes on\<close>

lemma text_of_JStr [simp]: "text_of (JStr x) = x"
  by (simp add: text_of_def)

lemma list_of_JList [simp]: "list_of (JList xs) = xs"
  by (simp add: list_of_def)

lemma normalize_step_fields:
  "step_id_of (normalize_step s) = JStr (step_key s)"
  "deps_of (normalize_step s) = map (JStr \<circ> key_of) (deps_of s)"
  "jget ''status'' (normalize_step s) = JStr (text_of (jget ''status'' s))"
  by (simp_all add: normalize_step_def step_id_of_def deps_of_def)

lemma step_wf_status: "step_wf s \<Longrightarrow> step_status (normalize_step s) = text_of (jget ''status'' s)"
  by (auto simp: step_status_def normalize_step_fields step_wf_def STEP_STATUSES_def)

lemma normalize_ids: "map step_id_of (normalize_steps steps) = map (JStr \<circ> step_key) steps"
  by (simp add: normalize_steps_def normalize_step_fields)

lemma normalize_distinct:
  assumes "plan_wf steps"
  shows "distinct (map step_id_of (normalize_steps steps))"
proof -
  have "distinct (map JStr (map step_key steps))"
    using assms by (subst distinct_map) (simp add: plan_wf_def inj_on_def)
  then show ?thesis by (simp add: normalize_ids)
qed

lemma normalized_lookup:
  assumes "plan_wf steps" and "s \<in> set steps"
  shows "by_id (normalize_steps steps) (JStr (step_key s)) = Some (normalize_step s)"
  using assms(2) by (simp add: by_id_iff [OF normalize_distinct [OF assms(1)]] normalize_step_fields)
    (simp add: normalize_steps_def)

lemma unfinished_has_ready:
  assumes "plan_wf steps" and "s \<in> set steps" and "step_status (normalize_step s) \<noteq> ''done''"
  shows "\<exists>q \<in> set steps. step_status (normalize_step q) \<noteq> ''done'' \<and>
    deps_satisfied (normalize_step q) (normalize_steps steps)"
proof -
  let ?g = "plan_graph steps"
  let ?S = "{step_key q | q. q \<in> set steps \<and> step_status (normalize_step q) \<noteq> ''done''}"
  have dist: "distinct (map step_key steps)" using assms(1) by (simp add: plan_wf_def)
  have acyc: "acyclic (edges ?g)"
    using assms(1) by (simp add: plan_graph_edges [OF dist] plan_wf_def)
  have "step_key s \<in> ?S" using assms(2,3) by blast
  from acyclic_has_source [OF acyc this] obtain q where
    q: "q \<in> set steps" "step_status (normalize_step q) \<noteq> ''done''"
    and src: "\<And>d. d \<in> set (adj ?g (step_key q)) \<Longrightarrow> d \<notin> ?S" by blast
  have "x \<noteq> step_id_of (normalize_step q) \<and>
      (case by_id (normalize_steps steps) x of None \<Rightarrow> False | Some p \<Rightarrow> step_status p = ''done'')"
    if "x \<in> set (deps_of (normalize_step q))" for x
  proof -
    from that obtain d where d: "d \<in> set (deps_of q)" "x = JStr (key_of d)"
      by (auto simp: normalize_step_fields)
    then have k: "key_of d \<in> set (dep_keys q)" by (simp add: dep_keys_def)
    then have "(step_key q, key_of d) \<in> edges ?g"
      unfolding plan_graph_edges [OF dist] plan_edges_def using q(1) by blast
    then have notin: "key_of d \<notin> ?S" using src by (simp add: edges_def)
    have "key_of d \<in> step_key ` set steps"
      using assms(1) q(1) k unfolding plan_wf_def by blast
    then obtain p where p: "p \<in> set steps" "step_key p = key_of d" by fastforce
    have "step_status (normalize_step p) = ''done''"
    proof (rule ccontr)
      assume "step_status (normalize_step p) \<noteq> ''done''"
      with p(1) have "step_key p \<in> ?S" by blast
      then have "key_of d \<in> ?S" unfolding p(2) .
      with notin show False by (rule notE)
    qed
    moreover have "key_of d \<noteq> step_key q" using assms(1) q(1) d(1) by (auto simp: plan_wf_def step_wf_def)
    ultimately show ?thesis
      using normalized_lookup [OF assms(1) p(1)] p(2) d(2) by (simp add: normalize_step_fields)
  qed
  then have "deps_satisfied (normalize_step q) (normalize_steps steps)"
    by (simp add: deps_satisfied_def list_all_iff)
  with q show ?thesis by blast
qed

subsection \<open>What a replacement keeps\<close>

definition keeps_child :: "jdict \<Rightarrow> jdict \<Rightarrow> bool" where
  "keeps_child old new \<longleftrightarrow> child_key_of old \<noteq> [] \<and> jget ''child_session_key'' new = JStr (child_key_of old)"

text \<open>The contract of the replacement, step by step.\<close>

definition legal_change :: "jdict list \<Rightarrow> jdict \<Rightarrow> bool" where
  "legal_change existing new \<longleftrightarrow>
     (case by_id existing (step_id_of new) of
        None \<Rightarrow> text_of (jget ''status'' new) \<in> set STRUCTURAL_STATUSES
      | Some old \<Rightarrow>
          if step_status old = ''done''
          then text_of (jget ''status'' new) = ''done'' \<and>
               text_of (jget ''task'' new) = key_of (jget ''task'' old) \<and>
               mset (map text_of (deps_of new)) = mset (dep_keys old) \<and> keeps_child old new
          else if step_status old = ''dispatched''
          then text_of (jget ''status'' new) \<notin> set STRUCTURAL_STATUSES \<and> keeps_child old new
          else text_of (jget ''status'' new) \<in> set STRUCTURAL_STATUSES)"

lemma retain_child_Inr:
  assumes "retain_child old new = Inr m"
  shows "keeps_child old m" and "step_id_of m = step_id_of new" and "jget ''status'' m = jget ''status'' new"
    and "jget ''task'' m = jget ''task'' new" and "deps_of m = deps_of new"
  using assms by (auto simp: retain_child_def Let_def keeps_child_def step_id_of_def deps_of_def split: if_splits)

lemma merge_step_legal:
  assumes "merge_step existing new = Inr m"
  shows "legal_change existing m" and "step_id_of m = step_id_of new"
proof -
  have sorted_mset: "mset xs = mset ys" if "sort xs = sort ys" for xs ys :: "string list"
    using that by (metis mset_sort)
  have both: "legal_change existing m \<and> step_id_of m = step_id_of new"
  proof (cases "by_id existing (step_id_of new)")
    case None
    with assms show ?thesis by (auto simp: merge_step_def legal_change_def Let_def split: if_splits)
  next
    case (Some old)
    show ?thesis
    proof (cases "step_status old \<in> {''dispatched'', ''done''}")
      case True
      then have "retain_child old new = Inr m"
        using assms Some by (auto simp: merge_step_def Let_def split: if_splits)
      note keep = retain_child_Inr [OF this]
      show ?thesis
        using assms Some True keep
        by (auto simp: merge_step_def legal_change_def Let_def dest: sorted_mset split: if_splits)
    next
      case False
      with assms Some show ?thesis
        by (auto simp: merge_step_def legal_change_def Let_def split: if_splits)
    qed
  qed
  then show "legal_change existing m" "step_id_of m = step_id_of new" by simp_all
qed

lemma merge_steps_legal:
  "merge_steps existing steps = Inr out \<Longrightarrow>
    map step_id_of out = map step_id_of steps \<and> (\<forall>m \<in> set out. legal_change existing m)"
  by (induction steps arbitrary: out) (auto split: sum.splits dest: merge_step_legal)

lemma update_steps_Inr:
  assumes "taskflow_update_steps now flow_id v expected sess t = (Inr g, t')"
  shows "\<exists>f merged. validate_steps_list v = None \<and> get_flow (strip flow_id) sess t = Some f \<and>
    \<not> flow_terminal (fl_status f) \<and>
    merge_steps (as_dicts (steps_of (fl_state f))) (normalize_steps (as_dicts (list_of v))) = Inr merged \<and>
    update_flow now (strip flow_id) (case expected of Some n \<Rightarrow> n | None \<Rightarrow> fl_revision f) sess
      (no_update\<lparr>up_state := Some (dict_set ''steps'' (JList (map JDict merged)) (fl_state f))\<rparr>) t = (Inr g, t')"
proof -
  note def = taskflow_update_steps_def Let_def
  have id: "strip flow_id \<noteq> []" using assms by (cases "strip flow_id = []") (simp_all add: def)
  show ?thesis
  proof (cases "validate_steps_list v")
    case (Some e)
    then show ?thesis using assms id by (simp add: def)
  next
    case valid: None
    show ?thesis
    proof (cases "get_flow (strip flow_id) sess t")
      case None
      then show ?thesis using assms id valid by (simp add: def)
    next
      case (Some f)
      have live: "\<not> flow_terminal (fl_status f)"
        using assms id valid Some by (cases "flow_terminal (fl_status f)") (simp_all add: def)
      show ?thesis
      proof (cases "merge_steps (as_dicts (steps_of (fl_state f))) (normalize_steps (as_dicts (list_of v)))")
        case (Inl e)
        then show ?thesis using assms id valid Some live by (simp add: def)
      next
        case (Inr merged)
        let ?w = "update_flow now (strip flow_id) (case expected of Some n \<Rightarrow> n | None \<Rightarrow> fl_revision f) sess
          (no_update\<lparr>up_state := Some (dict_set ''steps'' (JList (map JDict merged)) (fl_state f))\<rparr>) t"
        have "?w = (Inr g, t')"
        proof (cases ?w)
          case (Pair r t1)
          then show ?thesis using assms id valid Some live Inr by (cases r) (simp_all add: def)
        qed
        with valid Some live Inr show ?thesis by blast
      qed
    qed
  qed
qed

subsection \<open>What the dispatch merge keeps\<close>

definition dispatch_fields :: "string list" where
  "dispatch_fields = [''status'', ''child_session_key'', ''dispatched_at'', ''judge_feedback'']"

lemma jget_pop: "jget j (dict_pop k d) = (if j = k then JNull else jget j d)"
  by (simp add: jget_def delete_conv')

lemma record_dispatch_fields:
  "k \<notin> set dispatch_fields \<Longrightarrow> jget k (record_dispatch r s) = jget k s"
  "jget ''status'' (record_dispatch r s) = jget ''status'' r"
  "jget ''child_session_key'' (record_dispatch r s) = jget ''child_session_key'' r"
  by (auto simp: record_dispatch_def dispatch_fields_def jget_pop)

lemma record_dispatch_id [simp]: "step_id_of (record_dispatch r s) = step_id_of s"
  unfolding step_id_of_def by (rule record_dispatch_fields) (simp add: dispatch_fields_def)

lemma last_pos_Some: "last_pos P xs = Some i \<Longrightarrow> i < length xs \<and> P (xs ! i)"
  by (auto simp: last_pos_def find_Some_iff) (metis add.left_neutral diff_zero length_rev length_upt nth_mem set_rev set_upt atLeastLessThan_iff)

lemma merge_record_cases:
  obtains (appended) "merge_record n r merged = merged @ [r]"
  | (updated) i where "i < length merged" "i < n" "step_id_of (merged ! i) = step_id_of r"
      "merge_record n r merged = merged[i := record_dispatch r (merged ! i)]"
proof (cases "if step_id_of r = JNull then None
           else last_pos (\<lambda>s. step_id_of s = step_id_of r) (take n merged)")
  case None
  then show ?thesis by (intro appended) (simp add: merge_record_def)
next
  case (Some i)
  then have "last_pos (\<lambda>s. step_id_of s = step_id_of r) (take n merged) = Some i"
    by (simp split: if_splits)
  from last_pos_Some [OF this] Some show ?thesis
    by (intro updated [of i]) (auto simp: merge_record_def)
qed

definition kept_fields :: "jdict list \<Rightarrow> jdict list \<Rightarrow> bool" where
  "kept_fields fresh out \<longleftrightarrow> length fresh \<le> length out \<and>
     (\<forall>i < length fresh. \<forall>k. k \<notin> set dispatch_fields \<longrightarrow> jget k (out ! i) = jget k (fresh ! i))"

lemma merge_record_keeps: "kept_fields fresh merged \<Longrightarrow> kept_fields fresh (merge_record n r merged)"
  by (rule merge_record_cases [of n r merged])
    (auto simp: kept_fields_def nth_append nth_list_update record_dispatch_fields)

lemma apply_dispatched_keeps: "kept_fields fresh (apply_dispatched_steps fresh records)"
proof -
  have "kept_fields fresh merged \<Longrightarrow> kept_fields fresh (fold (merge_record n) records merged)" for n merged
    by (induction records arbitrary: merged) (auto simp: merge_record_keeps)
  then show ?thesis unfolding apply_dispatched_steps_def by (simp add: kept_fields_def)
qed

definition records_child :: "jdict \<Rightarrow> jdict \<Rightarrow> bool" where
  "records_child r s \<longleftrightarrow> step_id_of s = step_id_of r \<and> jget ''status'' s = jget ''status'' r \<and>
     jget ''child_session_key'' s = jget ''child_session_key'' r"

lemma merge_record_records: "\<exists>s \<in> set (merge_record n r merged). records_child r s"
  by (rule merge_record_cases [of n r merged])
    (auto simp: records_child_def record_dispatch_fields set_update_memI
      intro!: bexI [OF _ set_update_memI])

lemma merge_record_other:
  assumes "s \<in> set merged" and "step_id_of s \<noteq> step_id_of r"
  shows "s \<in> set (merge_record n r merged)"
proof (rule merge_record_cases [of n r merged])
  fix i
  assume i: "step_id_of (merged ! i) = step_id_of r"
    and res: "merge_record n r merged = merged[i := record_dispatch r (merged ! i)]"
  obtain j where "j < length merged" "s = merged ! j" using assms(1) by (metis in_set_conv_nth)
  moreover then have "j \<noteq> i" using i assms(2) by metis
  ultimately show ?thesis unfolding res by (metis length_list_update nth_list_update_neq nth_mem)
qed (use assms(1) in simp)

lemma apply_dispatched_records:
  assumes "distinct (map step_id_of records)" and "r \<in> set records"
  shows "\<exists>s \<in> set (apply_dispatched_steps fresh records). records_child r s"
proof -
  have "\<exists>s \<in> set (fold (merge_record n) records fresh). records_child r s" for n
    using assms
  proof (induction records rule: rev_induct)
    case (snoc q records)
    show ?case
    proof (cases "r = q")
      case True
      then show ?thesis using merge_record_records [of n q] by simp
    next
      case False
      with snoc have "r \<in> set records" by simp
      with snoc obtain s where s: "s \<in> set (fold (merge_record n) records fresh)" "records_child r s"
        by auto
      have "step_id_of r \<in> step_id_of ` set records" using \<open>r \<in> set records\<close> by simp
      with s(2) snoc.prems(1) have "step_id_of s \<noteq> step_id_of q" by (auto simp: records_child_def)
      with s show ?thesis using merge_record_other [of s _ q n] by auto
    qed
  qed simp
  then show ?thesis by (simp add: apply_dispatched_steps_def)
qed

subsection \<open>Concrete steps\<close>

definition demo_step :: "string \<Rightarrow> string list \<Rightarrow> string \<Rightarrow> jdict" where
  "demo_step i ds status =
    [(''step_id'', JStr i), (''task'', JStr ''work''), (''depends_on'', JList (map JStr ds)),
     (''status'', JStr status)]"

definition demo_chain :: "jdict list" where
  "demo_chain = [demo_step ''a'' [] ''done'', demo_step ''b'' [''a''] ''blocked'',
     demo_step ''c'' [''b''] ''blocked'']"

definition demo_dead :: "jdict list" where
  "demo_dead = [demo_step ''a'' [] ''cancelled'', demo_step ''b'' [''a''] ''blocked'',
     demo_step ''c'' [''b''] ''blocked'']"

definition demo_loop :: "jdict list" where
  "demo_loop = [demo_step ''a'' [''c''] ''blocked'', demo_step ''b'' [''a''] ''blocked'',
     demo_step ''c'' [''b''] ''blocked'']"

definition demo_running :: jdict where
  "demo_running = dict_set ''child_session_key'' (JStr ''k1'') (demo_step ''b'' [''a''] ''dispatched'')"

definition demo_plan :: "jdict list" where
  "demo_plan = [demo_step ''a'' [] ''done'', demo_step ''b'' [''a''] ''dispatched'', demo_step ''c'' [''b''] ''blocked'']"

definition demo_plan_flow :: flow where
  "demo_plan_flow = new_flow 5 ''f1''
     [(''steps'', JList [JDict (dict_set ''child_session_key'' (JStr ''k0'') (demo_step ''a'' [] ''done'')),
        JDict demo_running])] ''s1'' ''running'' None None None"

definition demo_update :: "(update_error + flow) \<times> flow_table" where
  "demo_update = taskflow_update_steps 7 ''f1'' (JList (map JDict demo_plan)) None ''s1'' [demo_plan_flow]"

lemma demo_update_works: "(case fst demo_update of Inr g \<Rightarrow> fl_revision g = 2 | Inl _ \<Rightarrow> False)"
  by code_simp

subsection \<open>Properties\<close>

text \<open>C6: The validation accepts exactly the well-formed plans: a list of step objects with non-blank,
  pairwise distinct ids and non-blank tasks, known statuses, dependency lists that name steps of
  the list and never the step itself, well-formed file dependencies, and no dependency cycle. The
  cycle it reports for a rejected plan is a real one.\<close>

theorem plan_validation_exact:
  "(validate_steps_list v = None \<longleftrightarrow> (\<exists>steps. v = JList (map JDict steps) \<and> plan_wf steps)) \<and>
   (validate_steps_list v = Some (Dependency_Cycle c) \<longrightarrow> is_cycle (plan_graph (as_dicts (list_of v))) c)"
proof (intro conjI impI)
  show "validate_steps_list v = None \<longleftrightarrow> (\<exists>steps. v = JList (map JDict steps) \<and> plan_wf steps)"
    by (rule validate_accepts)
next
  assume rej: "validate_steps_list v = Some (Dependency_Cycle c)"
  have steps: "\<And>k seen vs. check_steps k seen vs \<noteq> Inl (Dependency_Cycle c)"
  proof -
    have one: "check_step k seen x \<noteq> Inl (Dependency_Cycle c)" for k seen x
    proof -
      have "check_deps sid ds \<noteq> Some (Dependency_Cycle c)" for sid ds by (induction ds) auto
      moreover have "check_file_deps sid s \<noteq> Some (Dependency_Cycle c)" for sid s
        by (auto simp: check_file_deps_def split: option.splits json.splits)
      ultimately show ?thesis
        by (auto simp: check_step_def Let_def split: json.splits option.splits if_splits)
    qed
    fix k seen vs
    show "check_steps k seen vs \<noteq> Inl (Dependency_Cycle c)"
      by (induction vs arbitrary: k seen) (use one in \<open>auto split: sum.splits\<close>)
  qed
  have refs: "check_refs seen ss \<noteq> Some (Dependency_Cycle c)" for seen ss
    by (induction ss) (auto split: option.splits)
  obtain vs where v: "v = JList vs"
    using rej by (cases v) (auto simp: validate_steps_list_def)
  have "find_dependency_cycle (as_dicts vs) = Some (Some c)"
    using rej steps refs by (auto simp: v validate_steps_list_def split: sum.splits option.splits)
  then show "is_cycle (plan_graph (as_dicts (list_of v))) c"
    using find_cycle_Some by (simp add: v find_dependency_cycle_def)
qed

theorem plan_validation_exact_witness:
  "is_cycle (plan_graph demo_loop) [''a'', ''c'', ''b'', ''a''] \<and>
   validate_steps_list (JList (map JDict demo_chain)) = None"
proof (rule conjI)
  have "validate_steps_list (JList (map JDict demo_loop)) = Some (Dependency_Cycle [''a'', ''c'', ''b'', ''a''])"
    by code_simp
  with plan_validation_exact [of "JList (map JDict demo_loop)" "[''a'', ''c'', ''b'', ''a'']"]
  show "is_cycle (plan_graph demo_loop) [''a'', ''c'', ''b'', ''a'']" by simp
qed code_simp



text \<open>One unlocking pass, in whatever order the list is, readies exactly the steps that are blocked
  on dependencies which are all done, and returns their ids in list order; it changes no other
  step than to skip some blocked ones, and no step becomes or ceases to be done.\<close>

theorem unlock_readies_exactly:
  assumes "unlock_dependents steps = (ids, out)" and "i < length steps"
  shows "length out = length steps \<and>
    ids = map step_id_of (filter (readied steps) steps) \<and>
    (\<not> waits (steps ! i) \<longrightarrow> out ! i = steps ! i) \<and>
    (waits (steps ! i) \<longrightarrow>
       (step_status (out ! i) = ''ready'' \<longleftrightarrow> deps_satisfied (steps ! i) steps) \<and>
       step_status (out ! i) \<in> {''ready'', ''skipped'', ''blocked''}) \<and>
    (step_status (out ! i) = ''done'' \<longleftrightarrow> step_status (steps ! i) = ''done'')"
proof -
  have "done_view (out ! i) = done_view (steps ! i)"
    using unlock_spec(2) [OF assms] by (simp add: unlock_step_view)
  then show ?thesis
    using unlock_spec(1) [OF assms(1)] unlock_ids [OF assms(1)] unlock_nth(2,3) [OF assms]
    by (auto simp: done_view_def)
qed

theorem unlock_readies_exactly_witness:
  "fst (unlock_dependents demo_chain) = map step_id_of (filter (readied demo_chain) demo_chain) \<and>
   map step_id_of (filter (readied demo_chain) demo_chain) = [JStr ''b'']"
proof (rule conjI)
  have "unlock_dependents demo_chain = (fst (unlock_dependents demo_chain), snd (unlock_dependents demo_chain))"
    by simp
  moreover have "2 < length demo_chain" by code_simp
  ultimately show "fst (unlock_dependents demo_chain) = map step_id_of (filter (readied demo_chain) demo_chain)"
    by (rule unlock_readies_exactly [THEN conjunct2, THEN conjunct1])
qed code_simp

text \<open>In a list where every step stands after its dependencies, one pass settles a whole dead
  branch: a step blocked on dependencies is skipped as soon as one of them is skipped or cancelled
  in the resulting list, however far up the branch died. The skipping is followed within the pass.\<close>

theorem unlock_cascades_in_order:
  assumes "deps_before steps" and "unlock_dependents steps = (ids, out)" and "i < length steps"
    and "waits (steps ! i)" and "d \<in> set (deps_of (steps ! i))" and "by_id out d = Some q"
    and "step_status q = ''skipped'' \<or> step_status q = ''cancelled''"
  shows "step_status (out ! i) = ''skipped''"
proof -
  have "step_status (the (by_id out d)) \<in> set CASCADING_DEP_STATUSES"
    using assms(6,7) by (auto simp: CASCADING_DEP_STATUSES_def)
  then have "dead_dep (mixed steps out i) (steps ! i)"
    using assms(5) unfolding ordered_dead [OF assms(2,1,3)] by blast
  then show ?thesis
    using unlock_nth(3) [OF assms(2,3,4)] dead_not_satisfied unlock_nth(1) [OF assms(2,3)] by auto
qed

theorem unlock_cascades_in_order_witness:
  "step_status (snd (unlock_dependents demo_dead) ! 2) = ''skipped''"
proof -
  have ord: "deps_before demo_dead" by code_simp
  have u: "unlock_dependents demo_dead = (fst (unlock_dependents demo_dead), snd (unlock_dependents demo_dead))"
    by simp
  have i: "2 < length demo_dead" "waits (demo_dead ! 2)" "JStr ''b'' \<in> set (deps_of (demo_dead ! 2))"
    by code_simp+
  obtain q where q: "by_id (snd (unlock_dependents demo_dead)) (JStr ''b'') = Some q"
    "step_status q = ''skipped''"
  proof -
    have "by_id (snd (unlock_dependents demo_dead)) (JStr ''b'') = Some (snd (unlock_dependents demo_dead) ! 1)"
      "step_status (snd (unlock_dependents demo_dead) ! 1) = ''skipped''" by code_simp+
    then show ?thesis by (rule that)
  qed
  show ?thesis by (rule unlock_cascades_in_order [OF ord u i q(1)]) (simp add: q(2))
qed

text \<open>A successful replacement of the step list stores a well-formed plan with the ids asked for,
  one revision later, on a flow that was not terminal, and respects the work done: a done step stays
  done with its task, its dependencies and its child; a dispatched step keeps its child and is not
  moved back; every other step, new ones included, is ready or blocked. The rest of the flow's state
  is kept.\<close>

theorem update_steps_protects:
  assumes "table_ok t" and "taskflow_update_steps now flow_id v expected sess t = (Inr g, t')"
  shows "\<exists>f steps merged. get_flow (strip flow_id) sess t = Some f \<and> \<not> flow_terminal (fl_status f) \<and>
    v = JList (map JDict steps) \<and> plan_wf steps \<and>
    fl_state g = dict_set ''steps'' (JList (map JDict merged)) (fl_state f) \<and>
    map step_id_of merged = map (JStr \<circ> step_key) steps \<and>
    (\<forall>m \<in> set merged. legal_change (as_dicts (steps_of (fl_state f))) m) \<and>
    fl_revision g = fl_revision f + 1 \<and> fl_status g = fl_status f \<and>
    get_flow (strip flow_id) sess t' = Some g"
proof -
  let ?i = "strip flow_id"
  obtain f merged where acc: "validate_steps_list v = None"
    and f: "get_flow ?i sess t = Some f" "\<not> flow_terminal (fl_status f)"
    and m': "merge_steps (as_dicts (steps_of (fl_state f))) (normalize_steps (as_dicts (list_of v))) = Inr merged"
    and put': "update_flow now ?i (case expected of Some n \<Rightarrow> n | None \<Rightarrow> fl_revision f) sess
        (no_update\<lparr>up_state := Some (dict_set ''steps'' (JList (map JDict merged)) (fl_state f))\<rparr>) t = (Inr g, t')"
    using update_steps_Inr [OF assms(2)] by blast
  obtain steps where v: "v = JList (map JDict steps)" "plan_wf steps"
    using acc unfolding validate_accepts by blast
  have m: "merge_steps (as_dicts (steps_of (fl_state f))) (normalize_steps steps) = Inr merged"
    using m' by (simp add: v(1))
  define u where "u = no_update\<lparr>up_state := Some (dict_set ''steps'' (JList (map JDict merged)) (fl_state f))\<rparr>"
  define n where "n = (case expected of Some n \<Rightarrow> n | None \<Rightarrow> fl_revision f)"
  have put: "update_flow now ?i n sess u t = (Inr g, t')"
    unfolding u_def n_def by (rule put')
  have u: "assigns u" by (simp add: u_def)
  obtain r where r: "r \<in> set t" "fl_id r = ?i" "fl_session r = sess" "fl_revision r = n"
    and g: "g = row_to_flow (apply_update now (n + 1) u r)" and g': "get_flow ?i sess t' = Some g"
    using update_flow_Inr [OF assms(1) u put] by blast
  have "get_flow ?i sess t = Some (row_to_flow r)"
    using get_flow_row [OF assms(1) r(1)] unfolding r(2,3) .
  then have fr: "f = row_to_flow r" unfolding f(1) by simp
  note g'
  moreover have "fl_state g = dict_set ''steps'' (JList (map JDict merged)) (fl_state f)"
    "fl_revision g = fl_revision f + 1" "fl_status g = fl_status f"
    using r(4) by (simp_all add: g fr u_def apply_update_def or_keep_def no_update_def)
  moreover have "map step_id_of merged = map (JStr \<circ> step_key) steps"
    "\<forall>m \<in> set merged. legal_change (as_dicts (steps_of (fl_state f))) m"
    using merge_steps_legal [OF m] by (auto simp: normalize_ids)
  ultimately show ?thesis using f v by blast
qed

theorem update_steps_protects_witness:
  "\<exists>g t' f. demo_update = (Inr g, t') \<and> get_flow ''f1'' ''s1'' [demo_plan_flow] = Some f \<and>
    fl_revision g = fl_revision f + 1 \<and> get_flow ''f1'' ''s1'' t' = Some g"
proof -
  have ok: "table_ok [demo_plan_flow]" by (simp add: table_ok_def)
  obtain g t' where "demo_update = (Inr g, t')"
  proof (cases demo_update)
    case (Pair r t')
    then show ?thesis using demo_update_works [unfolded Pair fst_conv] that by (cases r) auto
  qed
  moreover from this have "taskflow_update_steps 7 ''f1'' (JList (map JDict demo_plan)) None ''s1'' [demo_plan_flow] = (Inr g, t')"
    by (simp add: demo_update_def)
  moreover have "strip ''f1'' = ''f1''" by code_simp
  ultimately show ?thesis using update_steps_protects [OF ok, of 7 "''f1''"] by metis
qed

text \<open>A dispatched step that carries its child may be declared done, failed, skipped or cancelled
  by the replacement of the step list: the merge accepts the new status and keeps the child, without
  any result of that child having been recorded.\<close>

theorem update_steps_settles_dispatched:
  assumes "by_id existing (step_id_of old) = Some old" and "step_status old = ''dispatched''"
    and "child_key_of old \<noteq> []" and "x \<in> set SETTLED_STEP_STATUSES"
  shows "\<exists>m. merge_steps existing [set_status x old] = Inr [m] \<and> step_id_of m = step_id_of old \<and>
    step_status m = x \<and> child_key_of m = child_key_of old"
proof -
  have x: "x \<notin> set STRUCTURAL_STATUSES" "x \<noteq> []"
    using assms(4) by (auto simp: SETTLED_STEP_STATUSES_def STRUCTURAL_STATUSES_def)
  have child: "child_key_of (set_status x old) = child_key_of old"
    by (simp add: child_key_of_def set_status_def)
  obtain m where m: "retain_child old (set_status x old) = Inr m"
    using assms(3) by (auto simp: retain_child_def Let_def child)
  note keep = retain_child_Inr [OF m]
  have "merge_step existing (set_status x old) = Inr m"
    using assms(1,2) x m by (simp add: merge_step_def set_status_def step_id_of_def text_of_def)
  moreover have "step_status m = x" using keep(3) x by (simp add: step_status_def set_status_def text_of_def)
  ultimately show ?thesis using keep(1,2) by (simp add: keeps_child_def child_key_of_def)
qed

theorem update_steps_settles_dispatched_witness:
  "\<exists>m. merge_steps [demo_running] [set_status ''done'' demo_running] = Inr [m] \<and>
     step_status m = ''done'' \<and> child_key_of m = ''k1''"
proof -
  have "by_id [demo_running] (step_id_of demo_running) = Some demo_running"
    "step_status demo_running = ''dispatched''" "child_key_of demo_running \<noteq> []"
    "''done'' \<in> set SETTLED_STEP_STATUSES" by code_simp+
  moreover have "child_key_of demo_running = ''k1''" by code_simp
  ultimately show ?thesis using update_steps_settles_dispatched by metis
qed

text \<open>Merging the records of a dispatch into a freshly read step list loses neither: every fresh
  step keeps its position and all its fields except the four that a dispatch writes, and every
  record's child is in the result. A retry counter is not among the written fields: the merged step
  has the counter of the fresh list, whatever the record says.\<close>

theorem dispatch_merge_keeps:
  assumes "distinct (map step_id_of records)" and "r \<in> set records" and "i < length fresh"
  shows "(\<exists>s \<in> set (apply_dispatched_steps fresh records). records_child r s) \<and>
    (k \<notin> set dispatch_fields \<longrightarrow> jget k (apply_dispatched_steps fresh records ! i) = jget k (fresh ! i)) \<and>
    jget ''retry_count'' (apply_dispatched_steps fresh records ! i) = jget ''retry_count'' (fresh ! i)"
  using apply_dispatched_records [OF assms(1,2), of fresh] apply_dispatched_keeps [of fresh records] assms(3)
  by (simp add: kept_fields_def dispatch_fields_def)

theorem dispatch_merge_keeps_witness:
  "jget ''retry_count'' (apply_dispatched_steps [demo_step ''b'' [] ''ready'']
     [dict_set ''retry_count'' (JInt 1) demo_running] ! 0) = JNull"
proof -
  have "distinct (map step_id_of [dict_set ''retry_count'' (JInt 1) demo_running])" by simp
  from dispatch_merge_keeps [OF this list.set_intros(1), of 0 "[demo_step ''b'' [] ''ready'']"]
  have "jget ''retry_count'' (apply_dispatched_steps [demo_step ''b'' [] ''ready'']
      [dict_set ''retry_count'' (JInt 1) demo_running] ! 0) = jget ''retry_count'' (demo_step ''b'' [] ''ready'')"
    by simp
  moreover have "jget ''retry_count'' (demo_step ''b'' [] ''ready'') = JNull" by code_simp
  ultimately show ?thesis by simp
qed

end
