(* ===== verification/Effects.thy ===== *)
theory Effects
  imports Py_Text
begin

section \<open>Restart-recovery effects\<close>

text \<open>
  The durable intent log \<^verbatim>\<open>src/runtime/effects/intent_log.py\<close>, the settings readers \<^verbatim>\<open>config.py\<close>
  and the worker \<^verbatim>\<open>worker.py\<close>. The table is a list of rows in rowid order. The handlers are a
  parameter: a handler maps the payload to the outcome it reports, \<^const>\<open>None\<close> when it raises.
  The rowid that the database allocates to a new row is an argument.
\<close>

subsection \<open>The intent log\<close>

datatype intent_status = I_PENDING | I_IN_FLIGHT | I_DONE | I_ABANDONED

record intent =
  it_id :: nat
  it_kind :: string
  it_key :: string
  it_payload :: "(string \<times> json) list"
  it_generation :: nat
  it_status :: intent_status
  it_attempts :: nat
  it_due :: time
  it_created :: time
  it_updated :: time

type_synonym intent_table = "intent list"

definition named :: "string \<Rightarrow> string \<Rightarrow> intent \<Rightarrow> bool" where
  "named kind key r = (it_kind r = kind \<and> it_key r = key)"

text \<open>The upsert; the result is the id and the generation read back.\<close>

definition enqueue_intent ::
    "nat \<Rightarrow> time \<Rightarrow> string \<Rightarrow> string \<Rightarrow> (string \<times> json) list \<Rightarrow> time option \<Rightarrow> intent_table
     \<Rightarrow> (nat \<times> nat) option \<times> intent_table" where
  "enqueue_intent i now kind key payload due_at t =
    (let due = (case due_at of None \<Rightarrow> now | Some d \<Rightarrow> d);
         t' = (if count_where (named kind key) t = 0
               then t @ [\<lparr>it_id = i, it_kind = kind, it_key = key, it_payload = payload,
                          it_generation = 1, it_status = I_PENDING, it_attempts = 0, it_due = due,
                          it_created = now, it_updated = now\<rparr>]
               else update_where (named kind key)
                      (\<lambda>r. r\<lparr>it_payload := payload, it_generation := it_generation r + 1,
                            it_status := I_PENDING, it_attempts := 0, it_due := due,
                            it_updated := now\<rparr>) t)
     in (map_option (\<lambda>r. (it_id r, it_generation r)) (first_where (named kind key) t'), t'))"

text \<open>\<^verbatim>\<open>WHERE id = ? AND generation = ? AND status = ?\<close>; the four transitions.\<close>

definition intent_at :: "nat \<Rightarrow> nat \<Rightarrow> intent_status \<Rightarrow> intent \<Rightarrow> bool" where
  "intent_at i g st r = (it_id r = i \<and> it_generation r = g \<and> it_status r = st)"

definition mark_in_flight :: "time \<Rightarrow> nat \<Rightarrow> nat \<Rightarrow> intent_table \<Rightarrow> bool \<times> intent_table" where
  "mark_in_flight now i g t =
    (0 < count_where (intent_at i g I_PENDING) t,
     update_where (intent_at i g I_PENDING) (\<lambda>r. r\<lparr>it_status := I_IN_FLIGHT, it_updated := now\<rparr>) t)"

definition mark_done :: "time \<Rightarrow> nat \<Rightarrow> nat \<Rightarrow> intent_table \<Rightarrow> bool \<times> intent_table" where
  "mark_done now i g t =
    (0 < count_where (intent_at i g I_IN_FLIGHT) t,
     update_where (intent_at i g I_IN_FLIGHT) (\<lambda>r. r\<lparr>it_status := I_DONE, it_updated := now\<rparr>) t)"

definition mark_retry :: "time \<Rightarrow> nat \<Rightarrow> nat \<Rightarrow> time \<Rightarrow> intent_table \<Rightarrow> bool \<times> intent_table" where
  "mark_retry now i g next_due_at t =
    (0 < count_where (intent_at i g I_IN_FLIGHT) t,
     update_where (intent_at i g I_IN_FLIGHT)
       (\<lambda>r. r\<lparr>it_status := I_PENDING, it_attempts := it_attempts r + 1, it_due := next_due_at,
             it_updated := now\<rparr>) t)"

definition mark_abandoned :: "time \<Rightarrow> nat \<Rightarrow> nat \<Rightarrow> intent_table \<Rightarrow> bool \<times> intent_table" where
  "mark_abandoned now i g t =
    (0 < count_where (intent_at i g I_IN_FLIGHT) t,
     update_where (intent_at i g I_IN_FLIGHT) (\<lambda>r. r\<lparr>it_status := I_ABANDONED, it_updated := now\<rparr>) t)"

definition fetch_pending :: "time \<Rightarrow> nat \<Rightarrow> intent_table \<Rightarrow> intent list" where
  "fetch_pending now limit t =
    take limit (sort_key (\<lambda>r. (it_due r, it_id r))
      (filter (\<lambda>r. it_status r = I_PENDING \<and> it_due r \<le> now) t))"

definition replay_pending :: "time \<Rightarrow> intent_table \<Rightarrow> intent list \<times> intent_table" where
  "replay_pending now t =
    (let t' = update_where (\<lambda>r. it_status r = I_IN_FLIGHT)
                (\<lambda>r. r\<lparr>it_status := I_PENDING, it_due := now, it_updated := now\<rparr>) t
     in (fetch_pending now 1000 t', t'))"

subsection \<open>The settings\<close>

record effect_config =
  ef_enabled :: bool
  ef_shadow_mode :: bool
  ef_worker_enabled :: bool
  ef_restart_replay :: bool
  ef_poll_interval :: int
  ef_retry_initial :: int
  ef_retry_max :: int
  ef_max_attempts :: int

definition default_effect_config :: effect_config where
  "default_effect_config = \<lparr>ef_enabled = False, ef_shadow_mode = False, ef_worker_enabled = False,
     ef_restart_replay = False, ef_poll_interval = 2, ef_retry_initial = 5, ef_retry_max = 300,
     ef_max_attempts = 10\<rparr>"

definition effects_shadow_enabled :: "effect_config \<Rightarrow> bool" where
  "effects_shadow_enabled cfg = (ef_enabled cfg \<and> ef_shadow_mode cfg)"

definition effects_execution_enabled :: "effect_config \<Rightarrow> bool" where
  "effects_execution_enabled cfg = (ef_enabled cfg \<and> ef_worker_enabled cfg \<and> \<not> ef_shadow_mode cfg)"

subsection \<open>The worker\<close>

record effect_result =
  er_done :: bool
  er_retry_after :: "rat option"
  er_abandon :: bool

type_synonym handler = "(string \<times> json) list \<Rightarrow> effect_result option"
type_synonym handlers = "(string \<times> handler) list"

definition register_handler :: "string \<Rightarrow> handler \<Rightarrow> handlers \<Rightarrow> handlers" where
  "register_handler kind h hs = dict_set kind h hs"

definition retry_delay :: "effect_config \<Rightarrow> nat \<Rightarrow> rat option \<Rightarrow> rat" where
  "retry_delay cfg attempts retry_after =
    min (case retry_after of Some d \<Rightarrow> d | None \<Rightarrow> of_int (ef_retry_initial cfg) * 2 ^ attempts)
        (of_int (ef_retry_max cfg))"

definition effect_retry :: "effect_config \<Rightarrow> time \<Rightarrow> intent \<Rightarrow> rat option \<Rightarrow> intent_table \<Rightarrow> intent_table" where
  "effect_retry cfg now row retry_after t =
    snd (mark_retry now (it_id row) (it_generation row)
          (now + max 0 (retry_delay cfg (it_attempts row) retry_after)) t)"

text \<open>
  What follows the handler. The payload that was handed to a handler is the visible effect, so a
  step also returns it. While the handler is awaited others change the table: \<open>env\<close>. The clock is
  read before (\<open>now\<close>) and after (\<open>later\<close>) the handler.
\<close>

definition record_outcome ::
    "effect_config \<Rightarrow> time \<Rightarrow> intent \<Rightarrow> effect_result option \<Rightarrow> intent_table \<Rightarrow> intent_table" where
  "record_outcome cfg later row result t =
    (case result of
       None \<Rightarrow> effect_retry cfg later row None t
     | Some r \<Rightarrow>
         if er_done r then snd (mark_done later (it_id row) (it_generation row) t)
         else if er_abandon r then snd (mark_abandoned later (it_id row) (it_generation row) t)
         else effect_retry cfg later row (er_retry_after r) t)"

definition process_intent ::
    "effect_config \<Rightarrow> handlers \<Rightarrow> (intent_table \<Rightarrow> intent_table) \<Rightarrow> time \<Rightarrow> time \<Rightarrow> intent \<Rightarrow> intent_table
     \<Rightarrow> intent list \<times> intent_table" where
  "process_intent cfg hs env now later row t =
    (case dict_get hs (it_kind row) of
       None \<Rightarrow> ([], t)
     | Some handler \<Rightarrow>
         (case mark_in_flight now (it_id row) (it_generation row) t of
            (False, t1) \<Rightarrow> ([], t1)
          | (True, t1) \<Rightarrow>
              if ef_max_attempts cfg \<le> int (it_attempts row)
              then ([], snd (mark_abandoned now (it_id row) (it_generation row) t1))
              else ([row], record_outcome cfg later row (handler (it_payload row)) (env t1))))"

text \<open>One tick: the due rows are read once, then handled one after the other.\<close>

fun process_intents ::
    "effect_config \<Rightarrow> handlers \<Rightarrow> (nat \<Rightarrow> intent_table \<Rightarrow> intent_table) \<Rightarrow> (nat \<Rightarrow> time) \<Rightarrow> nat \<Rightarrow> intent list
     \<Rightarrow> intent_table \<Rightarrow> intent list \<times> intent_table" where
  "process_intents cfg hs env clock k [] t = ([], t)"
| "process_intents cfg hs env clock k (row # rows) t =
    (let (calls, t1) = process_intent cfg hs (env k) (clock k) (clock (k + 1)) row t;
         (calls', t2) = process_intents cfg hs env clock (k + 1) rows t1
     in (calls @ calls', t2))"

definition effect_tick ::
    "effect_config \<Rightarrow> handlers \<Rightarrow> (nat \<Rightarrow> intent_table \<Rightarrow> intent_table) \<Rightarrow> (nat \<Rightarrow> time) \<Rightarrow> intent_table
     \<Rightarrow> intent list \<times> intent_table" where
  "effect_tick cfg hs env clock t =
    process_intents cfg hs env clock 0 (fetch_pending (clock 0) 50 t) t"

text \<open>The loop, tick after tick, when nobody else writes to the log.\<close>

fun effect_ticks ::
    "effect_config \<Rightarrow> handlers \<Rightarrow> (nat \<Rightarrow> time) list \<Rightarrow> intent_table \<Rightarrow> intent list \<times> intent_table" where
  "effect_ticks cfg hs [] t = ([], t)"
| "effect_ticks cfg hs (clock # clocks) t =
    (let (calls, t1) = effect_tick cfg hs (\<lambda>_ u. u) clock t;
         (calls', t2) = effect_ticks cfg hs clocks t1
     in (calls @ calls', t2))"

subsection \<open>The log's invariant\<close>

definition name_of :: "intent \<Rightarrow> string \<times> string" where
  "name_of r = (it_kind r, it_key r)"

definition intents_ok :: "intent_table \<Rightarrow> bool" where
  "intents_ok t \<longleftrightarrow> keyed it_id t \<and> keyed name_of t \<and> (\<forall>r \<in> set t. 1 \<le> it_generation r)"

text \<open>What every transition of a row keeps.\<close>

definition same_intent :: "(intent \<Rightarrow> intent) \<Rightarrow> bool" where
  "same_intent f \<longleftrightarrow> (\<forall>r. it_id (f r) = it_id r \<and> it_kind (f r) = it_kind r \<and> it_key (f r) = it_key r \<and>
     it_generation r \<le> it_generation (f r))"

lemma named_iff: "named kind key r \<longleftrightarrow> name_of r = (kind, key)"
  by (simp add: named_def name_of_def)

lemma same_intentD:
  assumes "same_intent f"
  shows "it_id (f r) = it_id r" and "name_of (f r) = name_of r" and "it_generation r \<le> it_generation (f r)"
  using assms by (simp_all add: same_intent_def name_of_def)

lemma intents_ok_update:
  assumes "intents_ok t" and "same_intent f"
  shows "intents_ok (update_where P f t)"
  unfolding intents_ok_def
proof (intro conjI ballI)
  show "keyed it_id (update_where P f t)" "keyed name_of (update_where P f t)"
    using assms by (auto simp: intents_ok_def same_intentD)
next
  fix q
  assume "q \<in> set (update_where P f t)"
  then obtain r where "r \<in> set t" "q = r \<or> q = f r" by (auto simp: set_update_where)
  then show "1 \<le> it_generation q"
    using assms same_intentD(3) [OF assms(2), of r] by (auto simp: intents_ok_def)
qed

lemma enqueue_ok:
  assumes "intents_ok t" and "i \<notin> it_id ` set t"
  shows "intents_ok (snd (enqueue_intent i now kind key payload due t))"
proof (cases "count_where (named kind key) t = 0")
  case True
  then have "\<And>r. r \<in> set t \<Longrightarrow> name_of r \<noteq> (kind, key)" by (auto simp: count_where_0 named_iff)
  with assms True show ?thesis
    by (auto simp: enqueue_intent_def Let_def intents_ok_def keyed_snoc name_of_def)
next
  case False
  then show ?thesis
    using assms(1) by (auto simp: enqueue_intent_def Let_def same_intent_def intro!: intents_ok_update)
qed

lemma cas_ok:
  assumes "intents_ok t"
  shows "intents_ok (snd (mark_in_flight now i g t))" "intents_ok (snd (mark_done now i g t))"
    "intents_ok (snd (mark_retry now i g d t))" "intents_ok (snd (mark_abandoned now i g t))"
    "intents_ok (snd (replay_pending now t))"
  using assms
  by (auto simp: mark_in_flight_def mark_done_def mark_retry_def mark_abandoned_def replay_pending_def
      Let_def same_intent_def intro!: intents_ok_update)

text \<open>The states the log can be in, whoever calls it and in whatever order.\<close>

inductive intent_step :: "intent_table \<Rightarrow> intent_table \<Rightarrow> bool" where
  IS_Enqueue: "i \<notin> it_id ` set t \<Longrightarrow> intent_step t (snd (enqueue_intent i now kind key payload due t))"
| IS_Claim: "intent_step t (snd (mark_in_flight now i g t))"
| IS_Done: "intent_step t (snd (mark_done now i g t))"
| IS_Retry: "intent_step t (snd (mark_retry now i g d t))"
| IS_Abandon: "intent_step t (snd (mark_abandoned now i g t))"
| IS_Replay: "intent_step t (snd (replay_pending now t))"

subsection \<open>The abstract log: one task per name\<close>

text \<open>
  The specification knows neither rows nor ids: a task per name, with the generation that was asked
  for last, what was asked, and how far it has got.
\<close>

record task =
  tk_generation :: nat
  tk_payload :: "(string \<times> json) list"
  tk_status :: intent_status
  tk_attempts :: nat

type_synonym tasks = "string \<times> string \<Rightarrow> task option"

definition last_generation :: "task option \<Rightarrow> nat" where
  "last_generation x = (case x of None \<Rightarrow> 0 | Some k \<Rightarrow> tk_generation k)"

definition requeue_task :: "task \<Rightarrow> task" where
  "requeue_task k = (if tk_status k = I_IN_FLIGHT then k\<lparr>tk_status := I_PENDING\<rparr> else k)"

inductive task_step :: "tasks \<Rightarrow> tasks \<Rightarrow> bool" where
  TS_Ask: "task_step m (m(n \<mapsto> \<lparr>tk_generation = Suc (last_generation (m n)), tk_payload = p,
     tk_status = I_PENDING, tk_attempts = 0\<rparr>))"
| TS_Begin: "m n = Some k \<Longrightarrow> tk_status k = I_PENDING \<Longrightarrow> task_step m (m(n \<mapsto> k\<lparr>tk_status := I_IN_FLIGHT\<rparr>))"
| TS_Finish: "m n = Some k \<Longrightarrow> tk_status k = I_IN_FLIGHT \<Longrightarrow> st \<in> {I_DONE, I_ABANDONED} \<Longrightarrow>
    task_step m (m(n \<mapsto> k\<lparr>tk_status := st\<rparr>))"
| TS_Again: "m n = Some k \<Longrightarrow> tk_status k = I_IN_FLIGHT \<Longrightarrow>
    task_step m (m(n \<mapsto> k\<lparr>tk_status := I_PENDING, tk_attempts := Suc (tk_attempts k)\<rparr>))"
| TS_Restart: "task_step m (\<lambda>n. map_option requeue_task (m n))"

definition task_of :: "intent \<Rightarrow> task" where
  "task_of r = \<lparr>tk_generation = it_generation r, tk_payload = it_payload r, tk_status = it_status r,
     tk_attempts = it_attempts r\<rparr>"

definition tasks :: "intent_table \<Rightarrow> tasks" where
  "tasks t n = map_option task_of (row_at name_of n t)"

lemma tasks_row: "intents_ok t \<Longrightarrow> r \<in> set t \<Longrightarrow> tasks t (name_of r) = Some (task_of r)"
  by (simp add: tasks_def intents_ok_def row_at_unique)

lemma tasks_None: "tasks t n = None \<longleftrightarrow> (\<forall>r \<in> set t. name_of r \<noteq> n)"
  by (simp add: tasks_def row_at_None)

lemma tasks_update_one:
  assumes "intents_ok t" and "same_intent f" and "r \<in> set t" and "\<And>q. q \<in> set t \<Longrightarrow> P q \<longleftrightarrow> q = r"
  shows "tasks (update_where P f t) = (tasks t)(name_of r \<mapsto> task_of (f r))"
proof
  fix n
  have row: "row_at name_of n (update_where P f t) = map_option (\<lambda>q. if P q then f q else q) (row_at name_of n t)"
    by (rule row_at_update_where) (simp add: same_intentD [OF assms(2)])
  show "tasks (update_where P f t) n = ((tasks t)(name_of r \<mapsto> task_of (f r))) n"
  proof (cases "n = name_of r")
    case True
    have "row_at name_of n t = Some r"
      using assms(1,3) by (simp add: True intents_ok_def row_at_unique)
    then have "row_at name_of n (update_where P f t) = Some (f r)"
      using assms(3,4) by (simp add: row)
    then show ?thesis by (simp add: tasks_def True)
  next
    case False
    then have "row_at name_of n t = Some q \<Longrightarrow> \<not> P q" for q
      using assms(4) row_at_Some [of name_of n t q] by auto
    then show ?thesis using False by (cases "row_at name_of n t") (auto simp: tasks_def row)
  qed
qed

text \<open>One compare-and-swap: no row matches and nothing changes, or one task moves.\<close>

lemma cas_cases:
  assumes "intents_ok t"
  obtains (stale) "count_where (intent_at i g st) t = 0" "\<And>f. update_where (intent_at i g st) f t = t"
  | (one) r where "r \<in> set t" "it_id r = i" "it_generation r = g" "it_status r = st"
      "0 < count_where (intent_at i g st) t" "\<And>q. q \<in> set t \<Longrightarrow> intent_at i g st q \<longleftrightarrow> q = r"
proof (cases "\<exists>r \<in> set t. intent_at i g st r")
  case True
  then obtain r where r: "r \<in> set t" "intent_at i g st r" by blast
  have inj: "q = r" if "q \<in> set t" "it_id q = it_id r" for q
    using assms that r(1) by (auto simp: intents_ok_def dest: keyed_inj)
  show ?thesis
  proof (rule one [of r])
    show "r \<in> set t" by (rule r)
    show "it_id r = i" "it_generation r = g" "it_status r = st" using r(2) by (simp_all add: intent_at_def)
    show "0 < count_where (intent_at i g st) t" using r by (auto simp: count_where_pos)
    show "intent_at i g st q \<longleftrightarrow> q = r" if q: "q \<in> set t" for q
    proof
      assume "intent_at i g st q"
      then have "it_id q = it_id r" using r(2) unfolding intent_at_def by metis
      with q show "q = r" by (rule inj)
    qed (use r(2) in simp)
  qed
next
  case False
  show ?thesis
  proof (rule stale)
    show "count_where (intent_at i g st) t = 0" using False by (simp add: count_where_0)
    show "update_where (intent_at i g st) f t = t" for f using False by (auto intro: update_where_none)
  qed
qed

lemma tasks_cas:
  assumes "intents_ok t" and "same_intent f"
  obtains "update_where (intent_at i g st) f t = t"
  | r where "r \<in> set t" "it_status r = st" "tasks t (name_of r) = Some (task_of r)"
      "tasks (update_where (intent_at i g st) f t) = (tasks t)(name_of r \<mapsto> task_of (f r))"
proof (rule cas_cases [OF assms(1), of i g st])
  fix r
  assume r: "r \<in> set t" "it_status r = st" and P: "\<And>q. q \<in> set t \<Longrightarrow> intent_at i g st q \<longleftrightarrow> q = r"
  show thesis
    by (rule that(2) [OF r tasks_row [OF assms(1) r(1)] tasks_update_one [OF assms r(1) P]])
qed (use that(1) in blast)

lemma enqueue_refines:
  assumes "intents_ok t"
  shows "tasks (snd (enqueue_intent i now kind key payload due t)) = (tasks t)((kind, key) \<mapsto>
    \<lparr>tk_generation = Suc (last_generation (tasks t (kind, key))), tk_payload = payload,
     tk_status = I_PENDING, tk_attempts = 0\<rparr>)"
proof (cases "\<exists>r \<in> set t. name_of r = (kind, key)")
  case True
  then obtain r where r: "r \<in> set t" "name_of r = (kind, key)" by blast
  have P: "named kind key q \<longleftrightarrow> q = r" if "q \<in> set t" for q
  proof
    assume "named kind key q"
    then have "name_of q = name_of r" using r(2) by (simp add: named_iff)
    then show "q = r" using assms that r(1) unfolding intents_ok_def by (blast dest: keyed_inj)
  qed (use r(2) in \<open>simp add: named_iff\<close>)
  have "count_where (named kind key) t \<noteq> 0" using r by (auto simp: count_where_0 named_iff)
  then show ?thesis
    using tasks_row [OF assms r(1)]
    by (simp add: enqueue_intent_def Let_def same_intent_def r(2) task_of_def last_generation_def
        tasks_update_one [OF assms _ r(1) P])
next
  case False
  then have none: "tasks t (kind, key) = None" and "count_where (named kind key) t = 0"
    by (simp_all add: tasks_None count_where_0 named_iff)
  then show ?thesis
    by (auto simp: enqueue_intent_def Let_def tasks_def row_at_append last_generation_def task_of_def
        name_of_def fun_eq_iff split: option.splits)
qed

lemma replay_refines: "tasks (snd (replay_pending now t)) = (\<lambda>n. map_option requeue_task (tasks t n))"
proof
  fix n
  show "tasks (snd (replay_pending now t)) n = map_option requeue_task (tasks t n)"
    unfolding replay_pending_def Let_def snd_conv tasks_def
    by (subst row_at_update_where)
      (auto simp: name_of_def task_of_def requeue_task_def option.map_comp comp_def intro!: option.map_cong)
qed

lemma cas_refines:
  assumes "intents_ok t" and "same_intent f"
    and "\<And>m n r. m n = Some (task_of r) \<Longrightarrow> it_status r = st \<Longrightarrow> task_step m (m(n \<mapsto> task_of (f r)))"
  shows "task_step\<^sup>*\<^sup>* (tasks t) (tasks (update_where (intent_at i g st) f t))"
proof (rule tasks_cas [OF assms(1,2), of i g st])
  fix r
  assume r: "it_status r = st" "tasks t (name_of r) = Some (task_of r)"
    and res: "tasks (update_where (intent_at i g st) f t) = (tasks t)(name_of r \<mapsto> task_of (f r))"
  show ?thesis unfolding res by (rule r_into_rtranclp, rule assms(3) [where m = "tasks t", OF r(2,1)])
qed simp

lemma begin_task: "m n = Some (task_of r) \<Longrightarrow> it_status r = I_PENDING \<Longrightarrow>
    task_step m (m(n \<mapsto> task_of (r\<lparr>it_status := I_IN_FLIGHT, it_updated := now\<rparr>)))"
  using TS_Begin [of m n "task_of r"] by (simp add: task_of_def)

lemma finish_task: "m n = Some (task_of r) \<Longrightarrow> it_status r = I_IN_FLIGHT \<Longrightarrow> st \<in> {I_DONE, I_ABANDONED} \<Longrightarrow>
    task_step m (m(n \<mapsto> task_of (r\<lparr>it_status := st, it_updated := now\<rparr>)))"
  using TS_Finish [of m n "task_of r" st] by (simp add: task_of_def)

lemma retry_task: "m n = Some (task_of r) \<Longrightarrow> it_status r = I_IN_FLIGHT \<Longrightarrow>
    task_step m (m(n \<mapsto> task_of (r\<lparr>it_status := I_PENDING, it_attempts := it_attempts r + 1, it_due := d,
      it_updated := now\<rparr>)))"
  using TS_Again [of m n "task_of r"] by (simp add: task_of_def)

lemma intent_step_refines:
  assumes "intents_ok t" and "intent_step t t'"
  shows "task_step\<^sup>*\<^sup>* (tasks t) (tasks t')"
  using assms(2)
proof cases
  case (IS_Enqueue i now kind key payload due)
  show ?thesis unfolding IS_Enqueue(1) enqueue_refines [OF assms(1)] by (rule r_into_rtranclp) (rule TS_Ask)
next
  case (IS_Claim now i g)
  show ?thesis unfolding IS_Claim mark_in_flight_def snd_conv
    by (rule cas_refines [OF assms(1)]) (simp add: same_intent_def, rule begin_task)
next
  case (IS_Done now i g)
  show ?thesis unfolding IS_Done mark_done_def snd_conv
    by (rule cas_refines [OF assms(1)]) (simp add: same_intent_def, rule finish_task, simp_all)
next
  case (IS_Abandon now i g)
  show ?thesis unfolding IS_Abandon mark_abandoned_def snd_conv
    by (rule cas_refines [OF assms(1)]) (simp add: same_intent_def, rule finish_task, simp_all)
next
  case (IS_Retry now i g d)
  show ?thesis unfolding IS_Retry mark_retry_def snd_conv
    by (rule cas_refines [OF assms(1)]) (simp add: same_intent_def, rule retry_task)
next
  case (IS_Replay now)
  show ?thesis unfolding IS_Replay replay_refines by (rule r_into_rtranclp) (rule TS_Restart)
qed

lemma intent_step_ok: "intents_ok t \<Longrightarrow> intent_step t t' \<Longrightarrow> intents_ok t'"
  by (erule intent_step.cases) (auto intro: enqueue_ok cas_ok)

interpretation intent_refinement: refinement "\<lambda>t. t = []" intent_step intents_ok tasks task_step
proof unfold_locales
  show "t = [] \<Longrightarrow> intents_ok t" for t by (simp add: intents_ok_def)
  show "intents_ok s \<Longrightarrow> intent_step s t \<Longrightarrow> intents_ok t" for s t by (rule intent_step_ok)
  show "intents_ok s \<Longrightarrow> intent_step s t \<Longrightarrow> task_step\<^sup>*\<^sup>* (tasks s) (tasks t)" for s t
    by (rule intent_step_refines)
qed

text \<open>What the specification says about a task: only asking again opens a finished one.\<close>

lemma task_step_generation:
  "task_step m m' \<Longrightarrow> last_generation (m n) \<le> last_generation (m' n)"
  by (erule task_step.cases) (auto simp: last_generation_def requeue_task_def split: option.splits)

lemma task_step_final:
  assumes "task_step m m'" and "m n = Some k" and "tk_status k \<in> {I_DONE, I_ABANDONED}"
  shows "m' n = Some k \<or> (\<exists>k'. m' n = Some k' \<and> tk_generation k < tk_generation k')"
  using assms by cases (auto simp: last_generation_def requeue_task_def split: if_splits)


subsection \<open>A stale worker\<close>

definition grown :: "intent \<Rightarrow> intent \<Rightarrow> bool" where
  "grown r r' \<longleftrightarrow> it_id r' = it_id r \<and> name_of r' = name_of r \<and> it_generation r \<le> it_generation r'"

lemma grown_refl [simp]: "grown r r"
  by (simp add: grown_def)

lemma grown_trans: "grown p q \<Longrightarrow> grown q r \<Longrightarrow> grown p r"
  by (auto simp: grown_def)

lemma update_grown:
  assumes "same_intent f" and "r \<in> set t"
  shows "\<exists>r' \<in> set (update_where P f t). grown r r'"
proof
  show "(if P r then f r else r) \<in> set (update_where P f t)" using assms(2) by (auto simp: update_where_def)
  show "grown r (if P r then f r else r)" by (simp add: grown_def same_intentD [OF assms(1)])
qed

lemma intent_step_grown:
  assumes "intent_step t t'" and "r \<in> set t"
  shows "\<exists>r' \<in> set t'. grown r r'"
  using assms(1)
proof cases
  case (IS_Enqueue i now kind key payload due)
  show ?thesis
  proof (cases "count_where (named kind key) t = 0")
    case True
    then show ?thesis using assms(2) by (auto simp: IS_Enqueue(1) enqueue_intent_def Let_def intro!: bexI [of _ r])
  next
    case False
    then show ?thesis
      using update_grown [OF _ assms(2)] by (simp add: IS_Enqueue(1) enqueue_intent_def Let_def same_intent_def)
  qed
qed (simp_all add: mark_in_flight_def mark_done_def mark_retry_def mark_abandoned_def replay_pending_def
    Let_def same_intent_def update_grown [OF _ assms(2)])

lemma intent_steps_grown:
  "intent_step\<^sup>*\<^sup>* t t' \<Longrightarrow> r \<in> set t \<Longrightarrow> \<exists>r' \<in> set t'. grown r r'"
proof (induction rule: rtranclp_induct)
  case base
  then show ?case using grown_refl by blast
next
  case (step u v)
  then show ?case using intent_step_grown grown_trans by blast
qed

lemma enqueue_bumps:
  assumes "r \<in> set t"
  shows "\<exists>r' \<in> set (snd (enqueue_intent i now (it_kind r) (it_key r) payload due t)).
    grown r r' \<and> it_generation r < it_generation r'"
proof -
  have "named (it_kind r) (it_key r) r" by (simp add: named_def)
  moreover then have "count_where (named (it_kind r) (it_key r)) t \<noteq> 0" using assms by (auto simp: count_where_0)
  ultimately have "r\<lparr>it_payload := payload, it_generation := it_generation r + 1, it_status := I_PENDING,
      it_attempts := 0, it_due := (case due of None \<Rightarrow> now | Some d \<Rightarrow> d), it_updated := now\<rparr>
    \<in> set (snd (enqueue_intent i now (it_kind r) (it_key r) payload due t))"
    using assms by (auto simp: enqueue_intent_def Let_def update_where_def)
  then show ?thesis by (rule bexI [rotated]) (simp add: grown_def name_of_def)
qed

text \<open>An outcome for a generation that is no longer the row's is dropped.\<close>

lemma outcome_stale:
  assumes "\<And>r. r \<in> set t \<Longrightarrow> it_id r = it_id row \<Longrightarrow> it_generation r \<noteq> it_generation row"
  shows "record_outcome cfg later row result t = t"
proof -
  have "update_where (intent_at (it_id row) (it_generation row) I_IN_FLIGHT) f t = t" for f
    by (rule update_where_none) (use assms in \<open>auto simp: intent_at_def\<close>)
  then show ?thesis
    by (simp add: record_outcome_def effect_retry_def mark_done_def mark_retry_def mark_abandoned_def
        split: option.splits)
qed

lemma claim_pending:
  assumes "intents_ok t" and "row \<in> set t" and "it_status row = I_PENDING"
  shows "mark_in_flight now (it_id row) (it_generation row) t =
      (True, update_where (intent_at (it_id row) (it_generation row) I_PENDING)
               (\<lambda>r. r\<lparr>it_status := I_IN_FLIGHT, it_updated := now\<rparr>) t)"
    and "\<exists>r \<in> set (snd (mark_in_flight now (it_id row) (it_generation row) t)). grown row r"
proof -
  have "intent_at (it_id row) (it_generation row) I_PENDING row" using assms(3) by (simp add: intent_at_def)
  then have "0 < count_where (intent_at (it_id row) (it_generation row) I_PENDING) t"
    using assms(2) by (auto simp: count_where_pos)
  then show "mark_in_flight now (it_id row) (it_generation row) t =
      (True, update_where (intent_at (it_id row) (it_generation row) I_PENDING)
               (\<lambda>r. r\<lparr>it_status := I_IN_FLIGHT, it_updated := now\<rparr>) t)"
    by (simp add: mark_in_flight_def)
  show "\<exists>r \<in> set (snd (mark_in_flight now (it_id row) (it_generation row) t)). grown row r"
    by (rule intent_step_grown [OF IS_Claim assms(2)])
qed

subsection \<open>The work left\<close>

definition tries_left :: "effect_config \<Rightarrow> intent \<Rightarrow> nat" where
  "tries_left cfg r = nat (ef_max_attempts cfg) - it_attempts r"

definition open_intent :: "intent \<Rightarrow> bool" where
  "open_intent r \<longleftrightarrow> it_status r = I_PENDING \<or> it_status r = I_IN_FLIGHT"

definition total :: "(intent \<Rightarrow> nat) \<Rightarrow> intent_table \<Rightarrow> nat" where
  "total w t = sum_list (map w (filter open_intent t))"

definition budget :: "effect_config \<Rightarrow> intent_table \<Rightarrow> nat" where
  "budget cfg t = total (tries_left cfg) t"

definition work :: "effect_config \<Rightarrow> intent_table \<Rightarrow> nat" where
  "work cfg t = total (\<lambda>r. Suc (tries_left cfg r)) t"

definition handled :: "handlers \<Rightarrow> intent \<Rightarrow> bool" where
  "handled hs r \<longleftrightarrow> dict_get hs (it_kind r) \<noteq> None"

lemma total_update:
  assumes "distinct t" and "r \<in> set t" and "open_intent r" and "\<And>q. q \<in> set t \<Longrightarrow> P q \<longleftrightarrow> q = r"
  shows "total w (update_where P f t) + w r = total w t + (if open_intent (f r) then w (f r) else 0)"
  using assms
proof (induction t)
  case (Cons q t)
  show ?case
  proof (cases "q = r")
    case True
    with Cons.prems have "update_where P f t = t" by (intro update_where_none) auto
    with True Cons.prems show ?thesis by (simp add: total_def)
  next
    case False
    with Cons.prems have "total w (update_where P f t) + w r = total w t + (if open_intent (f r) then w (f r) else 0)"
      by (intro Cons.IH) auto
    with False Cons.prems(4) [of q] show ?thesis by (simp add: total_def)
  qed
qed simp

lemma intents_distinct: "intents_ok t \<Longrightarrow> distinct t"
  by (simp add: intents_ok_def keyed_def distinct_map)

text \<open>A compare-and-swap that hits the row \<open>r\<close> replaces it and leaves the others.\<close>

lemma cas_hits:
  assumes "intents_ok t" and "r \<in> set t" and "same_intent f" and "open_intent r"
  defines "t' \<equiv> update_where (intent_at (it_id r) (it_generation r) (it_status r)) f t"
  shows "intents_ok t'" and "f r \<in> set t'" and "\<And>q. q \<in> set t \<Longrightarrow> q \<noteq> r \<Longrightarrow> q \<in> set t'"
    and "total w t' + w r = total w t + (if open_intent (f r) then w (f r) else 0)"
proof -
  let ?P = "intent_at (it_id r) (it_generation r) (it_status r)"
  have at: "?P r" by (simp add: intent_at_def)
  have P: "?P q \<longleftrightarrow> q = r" if "q \<in> set t" for q
  proof
    assume "?P q"
    then have "it_id q = it_id r" by (simp add: intent_at_def)
    then show "q = r" using assms(1,2) that unfolding intents_ok_def by (blast dest: keyed_inj)
  qed (use at in simp)
  show "intents_ok t'" unfolding t'_def by (rule intents_ok_update [OF assms(1,3)])
  show "f r \<in> set t'" unfolding t'_def update_where_def using assms(2) at by force
  show "q \<in> set t'" if "q \<in> set t" "q \<noteq> r" for q
    unfolding t'_def update_where_def using that P by force
  show "total w t' + w r = total w t + (if open_intent (f r) then w (f r) else 0)"
    unfolding t'_def by (rule total_update [OF intents_distinct [OF assms(1)] assms(2,4) P])
qed

definition progressed :: "effect_config \<Rightarrow> intent_table \<Rightarrow> nat \<Rightarrow> nat \<Rightarrow> intent_table \<Rightarrow> bool" where
  "progressed cfg t calls steps t' \<longleftrightarrow>
     intents_ok t' \<and> budget cfg t' + calls \<le> budget cfg t \<and> work cfg t' + steps \<le> work cfg t"

lemma progressed_trans:
  "progressed cfg t c n u \<Longrightarrow> progressed cfg u d m v \<Longrightarrow> progressed cfg t (c + d) (n + m) v"
  by (simp add: progressed_def)

lemma outcome_progress:
  fixes later :: time and result :: "effect_result option"
  assumes ok: "intents_ok t" and r: "r \<in> set t" "it_status r = I_IN_FLIGHT"
    and row: "it_id row = it_id r" "it_generation row = it_generation r" "it_attempts row = it_attempts r"
    and left: "it_attempts r < nat (ef_max_attempts cfg)"
  defines "t' \<equiv> record_outcome cfg later row result t"
  shows "progressed cfg t 1 1 t'" and "\<And>q. q \<in> set t \<Longrightarrow> q \<noteq> r \<Longrightarrow> q \<in> set t'"
proof -
  have op: "open_intent r" by (simp add: open_intent_def r(2))
  obtain f where f: "same_intent f" "t' = update_where (intent_at (it_id r) (it_generation r) (it_status r)) f t"
    and cases: "\<not> open_intent (f r) \<or> it_attempts (f r) = Suc (it_attempts r)"
  proof -
    have same: "same_intent (\<lambda>r. r\<lparr>it_status := st, it_updated := later\<rparr>)"
      "same_intent (\<lambda>r. r\<lparr>it_status := st, it_attempts := it_attempts r + 1, it_due := d, it_updated := later\<rparr>)"
      for st d by (simp_all add: same_intent_def)
    show thesis
    proof (cases "result \<noteq> None \<and> er_done (the result)")
      case True
      then show thesis
        using that [OF same(1) [where st = I_DONE]]
        by (auto simp: t'_def record_outcome_def mark_done_def row r(2) open_intent_def)
    next
      case notdone: False
      show thesis
      proof (cases "result \<noteq> None \<and> er_abandon (the result)")
        case True
        then show thesis
          using notdone that [OF same(1) [where st = I_ABANDONED]]
          by (auto simp: t'_def record_outcome_def mark_abandoned_def row r(2) open_intent_def)
      next
        case False
        then obtain d where "t' = snd (mark_retry later (it_id row) (it_generation row) d t)"
          using notdone by (cases result) (auto simp: t'_def record_outcome_def effect_retry_def)
        then show thesis
          using that [OF same(2) [where st = I_PENDING and d = d]] by (simp add: mark_retry_def row r(2))
      qed
    qed
  qed
  note hits = cas_hits [OF ok r(1) f(1) op, folded f(2)]
  have "1 \<le> tries_left cfg r" using left by (simp add: tries_left_def)
  moreover have "open_intent (f r) \<Longrightarrow> Suc (tries_left cfg (f r)) = tries_left cfg r"
    using cases left by (auto simp: tries_left_def)
  ultimately show "progressed cfg t 1 1 t'"
    unfolding progressed_def budget_def work_def
    using hits(1) hits(4) [of "tries_left cfg"] hits(4) [of "\<lambda>r. Suc (tries_left cfg r)"]
    by (cases "open_intent (f r)") auto
  show "q \<in> set t'" if "q \<in> set t" "q \<noteq> r" for q by (rule hits(3) [OF that])
qed

lemma process_progress:
  assumes ok: "intents_ok t" and row: "row \<in> set t" "it_status row = I_PENDING"
    and run: "process_intent cfg hs (\<lambda>u. u) now later row t = (calls, t')"
  shows "progressed cfg t (length calls) (if handled hs row then 1 else 0) t'"
    and "\<And>q. q \<in> set t \<Longrightarrow> q \<noteq> row \<Longrightarrow> q \<in> set t'"
proof -
  have both: "progressed cfg t (length calls) (if handled hs row then 1 else 0) t' \<and>
      (\<forall>q \<in> set t. q \<noteq> row \<longrightarrow> q \<in> set t')"
  proof (cases "dict_get hs (it_kind row)")
    case None
    with run ok show ?thesis by (auto simp: process_intent_def handled_def progressed_def)
  next
    case (Some h)
    let ?g = "\<lambda>r. r\<lparr>it_status := I_IN_FLIGHT, it_updated := now\<rparr>"
    define t1 where "t1 = update_where (intent_at (it_id row) (it_generation row) (it_status row)) ?g t"
    have op: "open_intent row" by (simp add: open_intent_def row(2))
    have "same_intent ?g" by (simp add: same_intent_def)
    note hits = cas_hits [OF ok row(1) this op, folded t1_def]
    have claim: "mark_in_flight now (it_id row) (it_generation row) t = (True, t1)"
      unfolding claim_pending(1) [OF ok row] t1_def row(2) by (rule refl)
    have w1: "progressed cfg t 0 0 t1"
      using hits(1) hits(4) [of "tries_left cfg"] hits(4) [of "\<lambda>r. Suc (tries_left cfg r)"]
      by (simp add: progressed_def budget_def work_def open_intent_def tries_left_def)
    have stay: "q \<in> set t1 \<and> q \<noteq> ?g row" if "q \<in> set t" "q \<noteq> row" for q
    proof -
      have "it_id q \<noteq> it_id row" using ok that row(1) unfolding intents_ok_def by (blast dest: keyed_inj)
      then have "q \<noteq> ?g row" by auto
      with hits(3) [OF that] show ?thesis by simp
    qed
    have h: "handled hs row" by (simp add: handled_def Some)
    show ?thesis
    proof (cases "ef_max_attempts cfg \<le> int (it_attempts row)")
      case True
      let ?a = "\<lambda>r. r\<lparr>it_status := I_ABANDONED, it_updated := now\<rparr>"
      have "same_intent ?a" by (simp add: same_intent_def)
      note ab = cas_hits [OF hits(1,2) this, unfolded open_intent_def, simplified]
      have res: "calls = []" "t' = update_where (intent_at (it_id row) (it_generation row) I_IN_FLIGHT) ?a t1"
        using run Some True claim by (simp_all add: process_intent_def mark_abandoned_def)
      have "progressed cfg t1 0 1 t'"
        unfolding res(2) progressed_def budget_def work_def
        using ab(1) ab(4) [of "tries_left cfg"] ab(4) [of "\<lambda>r. Suc (tries_left cfg r)"]
        by (simp add: open_intent_def tries_left_def)
      from progressed_trans [OF w1 this] h res(1) have "progressed cfg t (length calls) 1 t'" by simp
      moreover have "q \<in> set t'" if "q \<in> set t" "q \<noteq> row" for q
        unfolding res(2) using ab(3) stay [OF that] by blast
      ultimately show ?thesis using h by simp
    next
      case False
      have res: "calls = [row]" "t' = record_outcome cfg later row (h (it_payload row)) t1"
        using run Some False claim by (simp_all add: process_intent_def)
      have left: "it_attempts (?g row) < nat (ef_max_attempts cfg)" using False by simp
      note out = outcome_progress [where later = later and row = row and result = "h (it_payload row)",
          OF hits(1,2) _ _ _ _ left, folded res(2), simplified]
      from progressed_trans [OF w1 out(1)] h res(1) have "progressed cfg t (length calls) 1 t'" by simp
      moreover have "q \<in> set t'" if "q \<in> set t" "q \<noteq> row" for q
        using out(2) stay [OF that] by blast
      ultimately show ?thesis using h by simp
    qed
  qed
  then show "progressed cfg t (length calls) (if handled hs row then 1 else 0) t'"
    "\<And>q. q \<in> set t \<Longrightarrow> q \<noteq> row \<Longrightarrow> q \<in> set t'" by blast+
qed

lemma processes_progress:
  assumes "intents_ok t" and "distinct rows" and "\<And>r. r \<in> set rows \<Longrightarrow> r \<in> set t \<and> it_status r = I_PENDING"
    and "process_intents cfg hs (\<lambda>_ u. u) clock k rows t = (calls, t')"
  shows "progressed cfg t (length calls) (length (filter (handled hs) rows)) t'"
  using assms
proof (induction rows arbitrary: t k calls)
  case Nil
  then show ?case by (simp add: progressed_def)
next
  case (Cons row rows)
  obtain c1 t1 where one: "process_intent cfg hs (\<lambda>u. u) (clock k) (clock (k + 1)) row t = (c1, t1)" by fastforce
  obtain c2 where more: "process_intents cfg hs (\<lambda>_ u. u) clock (k + 1) rows t1 = (c2, t')"
    and calls: "calls = c1 @ c2"
    using Cons.prems(4) one by (auto split: prod.splits)
  have row: "row \<in> set t" "it_status row = I_PENDING" using Cons.prems(3) [of row] by simp_all
  note first = process_progress [OF Cons.prems(1) row one]
  have rest: "r \<in> set t1 \<and> it_status r = I_PENDING" if "r \<in> set rows" for r
    using Cons.prems(2,3) that first(2) [of r] by auto
  have "progressed cfg t1 (length c2) (length (filter (handled hs) rows)) t'"
  proof (rule Cons.IH)
    show "intents_ok t1" using first(1) by (simp add: progressed_def)
    show "distinct rows" using Cons.prems(2) by simp
    show "process_intents cfg hs (\<lambda>_ u. u) clock (k + 1) rows t1 = (c2, t')" by (rule more)
  qed (rule rest)
  from progressed_trans [OF first(1) this] show ?case by (cases "handled hs row") (simp_all add: calls)
qed

lemma fetch_rows:
  assumes "intents_ok t"
  shows "distinct (fetch_pending now limit t)"
    and "r \<in> set (fetch_pending now limit t) \<Longrightarrow> r \<in> set t \<and> it_status r = I_PENDING"
  using intents_distinct [OF assms] by (auto simp: fetch_pending_def distinct_sort dest!: in_set_takeD)

lemma tick_progress:
  assumes "intents_ok t" and "effect_tick cfg hs (\<lambda>_ u. u) clock t = (calls, t')"
  shows "progressed cfg t (length calls) (length (filter (handled hs) (fetch_pending (clock 0) 50 t))) t'"
  by (rule processes_progress [OF assms(1) fetch_rows(1) [OF assms(1)] _ assms(2) [unfolded effect_tick_def]])
    (rule fetch_rows(2) [OF assms(1)])

text \<open>The ticks that had something to do: a due row whose kind has a handler.\<close>

fun productive :: "effect_config \<Rightarrow> handlers \<Rightarrow> (nat \<Rightarrow> time) list \<Rightarrow> intent_table \<Rightarrow> nat" where
  "productive cfg hs [] t = 0"
| "productive cfg hs (clock # clocks) t =
    (if list_ex (handled hs) (fetch_pending (clock 0) 50 t) then 1 else 0) +
    productive cfg hs clocks (snd (effect_tick cfg hs (\<lambda>_ u. u) clock t))"

lemma ticks_progress:
  assumes "intents_ok t"
  shows "progressed cfg t (length (fst (effect_ticks cfg hs clocks t))) (productive cfg hs clocks t)
    (snd (effect_ticks cfg hs clocks t))"
  using assms
proof (induction clocks arbitrary: t)
  case Nil
  then show ?case by (simp add: progressed_def)
next
  case (Cons clock clocks)
  obtain c t1 where tick: "effect_tick cfg hs (\<lambda>_ u. u) clock t = (c, t1)" by fastforce
  let ?n = "length (filter (handled hs) (fetch_pending (clock 0) 50 t))"
  note first = tick_progress [OF Cons.prems tick]
  then have "progressed cfg t1 (length (fst (effect_ticks cfg hs clocks t1))) (productive cfg hs clocks t1)
      (snd (effect_ticks cfg hs clocks t1))" by (intro Cons.IH) (simp add: progressed_def)
  from progressed_trans [OF first this]
  have all: "progressed cfg t (length c + length (fst (effect_ticks cfg hs clocks t1)))
      (?n + productive cfg hs clocks t1) (snd (effect_ticks cfg hs clocks t1))" .
  have "list_ex (handled hs) (fetch_pending (clock 0) 50 t) \<Longrightarrow> 1 \<le> ?n"
    by (auto simp: list_ex_iff Suc_le_eq filter_empty_conv)
  then show ?case using all tick by (auto simp: progressed_def case_prod_unfold Let_def split: if_splits)
qed

subsection \<open>A process that dies while a handler runs\<close>

text \<open>The row is claimed, the process dies in the handler, the next boot replays the log.\<close>

definition crash_restart :: "time \<Rightarrow> nat \<Rightarrow> nat \<Rightarrow> intent_table \<Rightarrow> intent_table" where
  "crash_restart now i g t = snd (replay_pending now (snd (mark_in_flight now i g t)))"

definition waits_with :: "nat \<Rightarrow> nat \<Rightarrow> nat \<Rightarrow> intent_table \<Rightarrow> bool" where
  "waits_with i g n t \<longleftrightarrow>
     (\<exists>r \<in> set t. it_id r = i \<and> it_generation r = g \<and> it_status r = I_PENDING \<and> it_attempts r = n)"

lemma crash_restart_keeps: "waits_with i g n t \<Longrightarrow> waits_with i g n (crash_restart now i g t)"
proof -
  assume "waits_with i g n t"
  then obtain r where r: "r \<in> set t" "it_id r = i" "it_generation r = g" "it_status r = I_PENDING" "it_attempts r = n"
    by (auto simp: waits_with_def)
  have "r\<lparr>it_status := I_PENDING, it_due := now, it_updated := now\<rparr> \<in> set (crash_restart now i g t)"
    using r by (force simp: crash_restart_def replay_pending_def mark_in_flight_def update_where_def intent_at_def Let_def)
  then show ?thesis unfolding waits_with_def by (rule bexI [rotated]) (simp add: r)
qed

lemma crash_restarts_keep: "waits_with i g n t \<Longrightarrow> waits_with i g n ((crash_restart now i g ^^ k) t)"
  by (induction k) (simp_all add: crash_restart_keeps)

subsection \<open>A concrete log\<close>

definition demo_effects :: effect_config where
  "demo_effects = default_effect_config\<lparr>ef_enabled := True, ef_worker_enabled := True, ef_max_attempts := 2\<rparr>"

definition demo_log :: intent_table where
  "demo_log = snd (enqueue_intent 1 5 ''auto_turn'' ''s1'' [] None [])"

lemma demo_log_ok: "intents_ok demo_log"
  by (simp add: intents_ok_def demo_log_def enqueue_intent_def Let_def)

definition demo_handlers :: handlers where
  "demo_handlers = register_handler ''auto_turn'' (\<lambda>_. None) []"

definition demo_asks_again :: "intent_table \<Rightarrow> intent_table" where
  "demo_asks_again t = snd (enqueue_intent 2 6 ''auto_turn'' ''s1'' [(''again'', JBool True)] None t)"

definition demo_clocks :: "(nat \<Rightarrow> time) list" where
  "demo_clocks = [\<lambda>_. 10, \<lambda>_. 1000, \<lambda>_. 2000, \<lambda>_. 3000]"

subsection \<open>Properties\<close>



text \<open>An intent that is enqueued again while its handler runs is not lost: whatever else happens
  to the log before and after, and whatever the handler reports or raises, the worker leaves the
  log as it finds it, and the row has a newer generation than the one the worker served.\<close>

theorem reenqueue_survives:
  assumes "intents_ok t" and "row \<in> set t" and "it_status row = I_PENDING"
    and "dict_get hs (it_kind row) = Some h" and "int (it_attempts row) < ef_max_attempts cfg"
    and "intent_step\<^sup>*\<^sup>* (snd (mark_in_flight now (it_id row) (it_generation row) t)) u"
    and "intent_step\<^sup>*\<^sup>* (snd (enqueue_intent i again (it_kind row) (it_key row) payload due u)) v"
    and "i \<notin> it_id ` set u"
  shows "process_intent cfg hs (\<lambda>_. v) now later row t = ([row], v) \<and>
    (\<exists>r \<in> set v. it_id r = it_id row \<and> name_of r = name_of row \<and> it_generation row < it_generation r)"
proof -
  let ?t1 = "snd (mark_in_flight now (it_id row) (it_generation row) t)"
  let ?e = "snd (enqueue_intent i again (it_kind row) (it_key row) payload due u)"
  have ok1: "intents_ok ?t1" by (rule cas_ok(1) [OF assms(1)])
  have oku: "intents_ok u" by (rule intent_refinement.steps_inv [OF ok1 assms(6)])
  have okv: "intents_ok v"
    by (rule intent_refinement.steps_inv [OF enqueue_ok [OF oku assms(8)] assms(7)])
  obtain r1 where "r1 \<in> set ?t1" "grown row r1" using claim_pending(2) [OF assms(1-3)] by blast
  then obtain r2 where r2: "r2 \<in> set u" "grown row r2"
    using intent_steps_grown [OF assms(6)] grown_trans by blast
  then have name: "it_kind r2 = it_kind row" "it_key r2 = it_key row" by (simp_all add: grown_def name_of_def)
  from enqueue_bumps [OF r2(1), of i again payload due] obtain r3 where
    r3: "r3 \<in> set ?e" "grown r2 r3" "it_generation r2 < it_generation r3"
    unfolding name by blast
  from intent_steps_grown [OF assms(7) r3(1)] obtain r where r: "r \<in> set v" "grown r3 r" by blast
  have new: "it_id r = it_id row \<and> name_of r = name_of row \<and> it_generation row < it_generation r"
    using r2(2) r3(2,3) r(2) by (auto simp: grown_def)
  have "it_generation q \<noteq> it_generation row" if "q \<in> set v" "it_id q = it_id row" for q
  proof -
    have "q = r" using okv that r(1) new unfolding intents_ok_def by (metis keyed_inj)
    with new show ?thesis by simp
  qed
  then have "record_outcome cfg later row result v = v" for result by (rule outcome_stale)
  then have "process_intent cfg hs (\<lambda>_. v) now later row t = ([row], v)"
    using assms(4,5) claim_pending(1) [OF assms(1-3), of now] by (simp add: process_intent_def)
  then show ?thesis using r(1) new by blast
qed

theorem reenqueue_survives_witness:
  "process_intent demo_effects demo_handlers
     (\<lambda>_. demo_asks_again (snd (mark_in_flight 5 1 1 demo_log))) 5 7 (hd demo_log) demo_log =
   ([hd demo_log], demo_asks_again (snd (mark_in_flight 5 1 1 demo_log)))"
proof -
  have log: "demo_log = [hd demo_log]" by code_simp
  have mem: "hd demo_log \<in> set demo_log" by (subst (2) log) simp
  have row: "it_status (hd demo_log) = I_PENDING" "it_id (hd demo_log) = 1" "it_generation (hd demo_log) = 1"
    "it_kind (hd demo_log) = ''auto_turn''" "it_key (hd demo_log) = ''s1''"
    "int (it_attempts (hd demo_log)) < ef_max_attempts demo_effects" by code_simp+
  have h: "dict_get demo_handlers ''auto_turn'' = Some (\<lambda>_. None)"
    by (simp add: demo_handlers_def register_handler_def)
  have new: "2 \<notin> it_id ` set (snd (mark_in_flight 5 1 1 demo_log))" by code_simp
  show ?thesis
    using reenqueue_survives [OF demo_log_ok mem row(1) h [folded row(4)] row(6) rtranclp.rtrancl_refl rtranclp.rtrancl_refl, of 2 5,
        unfolded row, OF new, of 6 "[(''again'', JBool True)]" None 7, folded demo_asks_again_def]
    by blast
qed

text \<open>C8: The worker ends. When nobody else writes to the log, over any number of ticks at any clock
  readings, the handlers are called at most as often as the open intents have attempts left, and
  only boundedly many ticks find a due intent to serve: each such tick uses up an attempt or settles
  an intent.\<close>

theorem effect_worker_settles:
  assumes "intents_ok t"
  shows "length (fst (effect_ticks cfg hs clocks t)) + budget cfg (snd (effect_ticks cfg hs clocks t)) \<le> budget cfg t \<and>
    productive cfg hs clocks t + work cfg (snd (effect_ticks cfg hs clocks t)) \<le> work cfg t"
  using ticks_progress [OF assms, of cfg hs clocks] by (simp add: progressed_def add.commute)

theorem effect_worker_settles_witness:
  "productive demo_effects demo_handlers demo_clocks demo_log \<le> 3 \<and>
   map it_status (snd (effect_ticks demo_effects demo_handlers demo_clocks demo_log)) = [I_ABANDONED]"
proof (rule conjI)
  have "work demo_effects demo_log = 3" by code_simp
  then show "productive demo_effects demo_handlers demo_clocks demo_log \<le> 3"
    using effect_worker_settles [OF demo_log_ok, of demo_effects demo_handlers demo_clocks] by linarith
qed code_simp

text \<open>A process that dies while a handler runs is not an attempt: however often the intent is
  claimed, the process dies and the next boot replays the log, the intent waits again with the same
  generation and the same number of attempts, so the limit of attempts never stops it.\<close>

theorem crash_is_no_attempt:
  assumes "waits_with i g n t"
  shows "waits_with i g n ((crash_restart now i g ^^ k) t) \<and>
    fst (mark_in_flight now i g ((crash_restart now i g ^^ k) t))"
proof -
  have "waits_with i g n ((crash_restart now i g ^^ k) t)" by (rule crash_restarts_keep [OF assms])
  then show ?thesis by (auto simp: waits_with_def mark_in_flight_def count_where_pos intent_at_def)
qed

theorem crash_is_no_attempt_witness: "waits_with 1 1 0 ((crash_restart 6 1 1 ^^ 100) demo_log)"
proof -
  have "waits_with 1 1 0 demo_log" by code_simp
  then show ?thesis using crash_is_no_attempt by blast
qed

end
