(* ===== verification/Swarm.thy ===== *)
theory Swarm
  imports Run_Manager
begin

section \<open>Swarm groups\<close>

text \<open>
  Models \<^verbatim>\<open>src/agent/tools/subagent/swarm/\<close> (\<^verbatim>\<open>fifo.py\<close>, the scheduler of \<^verbatim>\<open>collector.py\<close>),
  \<^verbatim>\<open>types/swarm.py\<close> and the reservation phase \<^verbatim>\<open>_reserve_swarm_group\<close> of \<^verbatim>\<open>spawn/core.py\<close>. The
  state is the run registry, the group configurations and the FIFO queues. A pump holds its group's
  lock, so it is one step. The started hook is a parameter: whether the callback for a run returns
  (in the code it always does, because it logs what the hook raises).
\<close>

subsection \<open>The FIFO queues\<close>

type_synonym fifo = "(text_id \<times> text_id list) list"

text \<open>\<^verbatim>\<open>self._queues[group_id]\<close> of a \<^verbatim>\<open>defaultdict(list)\<close>: reading creates the entry.\<close>

definition fifo_list :: "text_id \<Rightarrow> fifo \<Rightarrow> text_id list" where
  "fifo_list g q = (case dict_get q g of None \<Rightarrow> [] | Some l \<Rightarrow> l)"

definition fifo_enqueue :: "text_id \<Rightarrow> text_id \<Rightarrow> fifo \<Rightarrow> nat \<times> fifo" where
  "fifo_enqueue g i q =
    (let q' = dict_set g (fifo_list g q @ [i]) q in (length (fifo_list g q'), q'))"

definition fifo_dequeue :: "text_id \<Rightarrow> fifo \<Rightarrow> text_id option \<times> fifo" where
  "fifo_dequeue g q =
    (case fifo_list g q of
       [] \<Rightarrow> (None, dict_set g [] q)
     | i # rest \<Rightarrow> (Some i, dict_set g rest q))"

definition fifo_size :: "text_id \<Rightarrow> fifo \<Rightarrow> nat \<times> fifo" where
  "fifo_size g q = (length (fifo_list g q), dict_set g (fifo_list g q) q)"

definition fifo_peek :: "text_id \<Rightarrow> fifo \<Rightarrow> text_id option" where
  "fifo_peek g q = (case fifo_list g q of [] \<Rightarrow> None | i # _ \<Rightarrow> Some i)"

definition fifo_remove :: "text_id \<Rightarrow> text_id \<Rightarrow> fifo \<Rightarrow> bool \<times> fifo" where
  "fifo_remove g i q =
    (let l = fifo_list g q
     in if i \<in> set l then (True, dict_set g (remove1 i l) q) else (False, dict_set g l q))"

subsection \<open>Groups and counts\<close>

datatype swarm_run_state = SW_RESERVED | SW_ACTIVE | SW_COMPLETED | SW_FAILED

fun swarm_state_value :: "swarm_run_state \<Rightarrow> string" where
  "swarm_state_value SW_RESERVED = ''reserved''"
| "swarm_state_value SW_ACTIVE = ''active''"
| "swarm_state_value SW_COMPLETED = ''completed''"
| "swarm_state_value SW_FAILED = ''failed''"

record group_config =
  gc_group_id :: text_id
  gc_max_children_per_group :: int
  gc_max_total_per_group :: int
  gc_max_concurrent :: int
  gc_output_schema :: "json option"
  gc_fifo_queue :: bool

definition default_group :: "text_id \<Rightarrow> group_config" where
  "default_group g = \<lparr>gc_group_id = g, gc_max_children_per_group = 5, gc_max_total_per_group = 0,
     gc_max_concurrent = 3, gc_output_schema = None, gc_fifo_queue = True\<rparr>"

record swarm =
  sw_reg :: registry
  sw_groups :: "(text_id \<times> group_config) list"
  sw_fifo :: fifo

definition configure_swarm_group :: "group_config \<Rightarrow> swarm \<Rightarrow> swarm" where
  "configure_swarm_group c s = s\<lparr>sw_groups := dict_set (gc_group_id c) c (sw_groups s)\<rparr>"

definition get_group_config :: "text_id \<Rightarrow> swarm \<Rightarrow> group_config option" where
  "get_group_config g s = dict_get (sw_groups s) g"

definition in_state :: "swarm_run_state \<Rightarrow> run \<Rightarrow> bool" where
  "in_state st r = (r_swarm_run_state r = Some (swarm_state_value st))"

definition counts_active :: "text_id \<Rightarrow> run \<Rightarrow> bool" where
  "counts_active g r = (r_swarm_group_id r = Some g \<and> in_state SW_ACTIVE r \<and>
     ex_status (r_execution r) \<in> {EX_RUNNING, EX_INTERRUPTED})"

definition count_swarm_runs_by_group :: "text_id \<Rightarrow> registry \<Rightarrow> nat" where
  "count_swarm_runs_by_group g s = count_where (\<lambda>r. r_swarm_group_id r = Some g) (mem_values s)"

definition count_active_swarm_runs :: "text_id \<Rightarrow> registry \<Rightarrow> nat" where
  "count_active_swarm_runs g s = count_where (counts_active g) (mem_values s)"

subsection \<open>Activation and the pump\<close>

definition activated :: "time \<Rightarrow> run \<Rightarrow> run" where
  "activated now r =
    r\<lparr>r_swarm_run_state := Some (swarm_state_value SW_ACTIVE),
      r_execution := (r_execution r)\<lparr>ex_status := EX_RUNNING, ex_started_at := Some now\<rparr>\<rparr>"

text \<open>
  The body of \<^verbatim>\<open>activate_swarm_run\<close> after the guards: store the active run, take it out of the
  queue, start it; a start that fails marks it failed. The flag says whether the start failed.
\<close>

definition start_run :: "time \<Rightarrow> (text_id \<Rightarrow> bool) \<Rightarrow> text_id \<Rightarrow> text_id \<Rightarrow> run \<Rightarrow> swarm \<Rightarrow> (run \<times> bool) \<times> swarm" where
  "start_run now starts g i r s =
    (let u = activated now r;
         s1 = s\<lparr>sw_reg := set_run u (sw_reg s), sw_fifo := snd (fifo_remove g i (sw_fifo s))\<rparr>
     in if starts i then ((u, False), s1)
        else
          (let f = u\<lparr>r_swarm_run_state := Some (swarm_state_value SW_FAILED)\<rparr>
           in ((f, True), s1\<lparr>sw_reg := set_run f (sw_reg s1)\<rparr>)))"

text \<open>\<^verbatim>\<open>activate_swarm_run(run_id, budget_checked=True)\<close>, as the pump calls it.\<close>

definition activate_checked :: "time \<Rightarrow> (text_id \<Rightarrow> bool) \<Rightarrow> text_id \<Rightarrow> swarm \<Rightarrow> run option \<times> swarm" where
  "activate_checked now starts i s =
    (case mem_get i (sw_reg s) of
       None \<Rightarrow> (None, s)
     | Some r \<Rightarrow>
         if \<not> in_state SW_RESERVED r then (Some r, s)
         else (case r_swarm_group_id r of
                 None \<Rightarrow> (None, s)
               | Some g \<Rightarrow>
                   (case get_group_config g s of
                      None \<Rightarrow> (None, s)
                    | Some c \<Rightarrow> (let ((u, _), s1) = start_run now starts g i r s in (Some u, s1)))))"

lemma fifo_list_set [simp]: "fifo_list h (dict_set g l q) = (if h = g then l else fifo_list h q)"
  by (simp add: fifo_list_def)

lemma fifo_remove_list: "fifo_list h (snd (fifo_remove g i q)) =
    (if h = g then remove1 i (fifo_list g q) else fifo_list h q)"
  by (auto simp: fifo_remove_def Let_def remove1_idem)

lemma start_run_fifo: "sw_fifo (snd (start_run now starts g i r s)) = snd (fifo_remove g i (sw_fifo s))"
  by (simp add: start_run_def Let_def)

lemma activate_checked_fifo:
  "length (fifo_list h (sw_fifo (snd (activate_checked now starts i s)))) \<le> length (fifo_list h (sw_fifo s))"
  by (auto simp: activate_checked_def start_run_fifo fifo_remove_list length_remove1 case_prod_unfold Let_def
      split: option.splits)

text \<open>The loop of \<^verbatim>\<open>_pump_lane\<close>: every round takes a run off the group's queue.\<close>

function pump_loop :: "time \<Rightarrow> (text_id \<Rightarrow> bool) \<Rightarrow> text_id \<Rightarrow> int \<Rightarrow> int \<Rightarrow> swarm \<Rightarrow> swarm" where
  "pump_loop now starts g limit budget s =
    (if budget \<le> 0 then s
     else case fifo_dequeue g (sw_fifo s) of
            (None, q) \<Rightarrow> s\<lparr>sw_fifo := q\<rparr>
          | (Some i, q) \<Rightarrow>
              (let (a, s1) = activate_checked now starts i (s\<lparr>sw_fifo := q\<rparr>)
               in if a = None \<or> in_state SW_FAILED (the a)
                  then pump_loop now starts g limit (limit - int (count_active_swarm_runs g (sw_reg s1))) s1
                  else pump_loop now starts g limit (budget - 1) s1))"
  by pat_completeness auto

termination pump_loop
proof -
  have shorter: "length (fifo_list g (sw_fifo s1)) < length (fifo_list g (sw_fifo s))"
    if "(Some i, q) = fifo_dequeue g (sw_fifo s)" "(a, s1) = activate_checked now starts i (s\<lparr>sw_fifo := q\<rparr>)"
    for now starts g s i q a s1
  proof -
    have "length (fifo_list g q) < length (fifo_list g (sw_fifo s))"
      using that(1) by (auto simp: fifo_dequeue_def split: list.splits)
    moreover have "length (fifo_list g (sw_fifo s1)) \<le> length (fifo_list g q)"
      using activate_checked_fifo [of g now starts i "s\<lparr>sw_fifo := q\<rparr>"] that(2) [symmetric] by simp
    ultimately show ?thesis by simp
  qed
  show ?thesis
    by (relation "measure (\<lambda>(now, starts, g, limit, budget, s). length (fifo_list g (sw_fifo s)))")
      (auto simp: shorter)
qed

declare pump_loop.simps [simp del]

definition pump_lane :: "time \<Rightarrow> (text_id \<Rightarrow> bool) \<Rightarrow> text_id \<Rightarrow> swarm \<Rightarrow> swarm" where
  "pump_lane now starts g s =
    (case get_group_config g s of
       None \<Rightarrow> s
     | Some c \<Rightarrow>
         pump_loop now starts g (gc_max_concurrent c)
           (gc_max_concurrent c - int (count_active_swarm_runs g (sw_reg s))) s)"

text \<open>\<^verbatim>\<open>activate_swarm_run(run_id)\<close>.\<close>

definition activate_swarm_run :: "time \<Rightarrow> (text_id \<Rightarrow> bool) \<Rightarrow> text_id \<Rightarrow> swarm \<Rightarrow> run option \<times> swarm" where
  "activate_swarm_run now starts i s =
    (case mem_get i (sw_reg s) of
       None \<Rightarrow> (None, s)
     | Some r \<Rightarrow>
         if \<not> in_state SW_RESERVED r then (Some r, s)
         else (case r_swarm_group_id r of
                 None \<Rightarrow> (None, s)
               | Some g \<Rightarrow>
                   (case get_group_config g s of
                      None \<Rightarrow> (None, s)
                    | Some c \<Rightarrow>
                        if gc_max_concurrent c \<le> int (count_active_swarm_runs g (sw_reg s)) then (Some r, s)
                        else (case start_run now starts g i r s of
                                ((u, False), s1) \<Rightarrow> (Some u, s1)
                              | ((f, True), s1) \<Rightarrow> (Some f, pump_lane now starts g s1)))))"

subsection \<open>Reservation and completion\<close>

definition same_launch :: "text_id \<Rightarrow> string \<Rightarrow> run \<Rightarrow> bool" where
  "same_launch g fp r = (r_swarm_group_id r = Some g \<and> r_launch_fingerprint r = Some fp)"

definition swarm_child_key :: "string \<Rightarrow> text_id \<Rightarrow> text_id \<Rightarrow> text_id" where
  "swarm_child_key agent_id g u = ''agent:'' @ agent_id @ '':swarm:'' @ g @ '':'' @ u"

definition swarm_request :: "text_id \<Rightarrow> text_id \<Rightarrow> string \<Rightarrow> text_id \<Rightarrow> string option \<Rightarrow> string \<Rightarrow> nat \<Rightarrow> run_request" where
  "swarm_request u g task requester task_name agent_id depth =
    (default_request (swarm_child_key agent_id g u) requester task)
      \<lparr>q_task_name := or_text task_name (Some (''swarm:'' @ g)), q_depth := depth, q_agent_id := agent_id\<rparr>"

text \<open>The fresh run id \<open>i\<close> and the fresh uuid \<open>u\<close> of the child key are arguments.\<close>

definition reserve_swarm_run ::
    "subagent_config \<Rightarrow> time \<Rightarrow> (text_id \<Rightarrow> bool) \<Rightarrow> text_id \<Rightarrow> text_id \<Rightarrow> text_id \<Rightarrow> string \<Rightarrow> text_id
     \<Rightarrow> string option \<Rightarrow> string \<Rightarrow> nat \<Rightarrow> string option \<Rightarrow> swarm \<Rightarrow> run option \<times> swarm" where
  "reserve_swarm_run cfg now starts i u g task requester task_name agent_id depth fingerprint s =
    (case (case or_text fingerprint None of
             None \<Rightarrow> None
           | Some fp \<Rightarrow> find (\<lambda>r. same_launch g fp r \<and> mem_get (r_run_id r) (sw_reg s) \<noteq> None)
                          (mem_values (sw_reg s))) of
       Some r \<Rightarrow> (Some r, s)
     | None \<Rightarrow>
         (case get_group_config g s of
            None \<Rightarrow> (None, s)
          | Some c \<Rightarrow>
              (let total = int (count_swarm_runs_by_group g (sw_reg s))
               in if gc_max_children_per_group c \<le> total then (None, s)
                  else if 0 < gc_max_total_per_group c \<and> gc_max_total_per_group c \<le> total then (None, s)
                  else
                    (let (r, reg1) = register_run cfg i
                           (swarm_request u g task requester task_name agent_id depth) (sw_reg s);
                         v = r\<lparr>r_swarm_group_id := Some g,
                               r_swarm_run_state := Some (swarm_state_value SW_RESERVED),
                               r_launch_fingerprint := fingerprint\<rparr>;
                         s1 = s\<lparr>sw_reg := set_run v reg1, sw_fifo := snd (fifo_enqueue g i (sw_fifo s))\<rparr>
                     in (Some v, pump_lane now starts g s1)))))"

definition complete_swarm_run ::
    "subagent_config \<Rightarrow> time \<Rightarrow> (text_id \<Rightarrow> bool) \<Rightarrow> text_id \<Rightarrow> run_outcome \<Rightarrow> string option \<Rightarrow> swarm
     \<Rightarrow> run option \<times> swarm" where
  "complete_swarm_run cfg now starts i oc text s =
    (case mem_get i (sw_reg s) of
       None \<Rightarrow> (None, s)
     | Some r \<Rightarrow>
         (let st = (if oc_status oc = OC_OK then SW_COMPLETED else SW_FAILED)
          in case complete_run cfg now i oc text None (sw_reg s) of
               (None, reg1) \<Rightarrow> (None, s\<lparr>sw_reg := reg1\<rparr>)
             | (Some u, reg1) \<Rightarrow>
                 (let v = u\<lparr>r_swarm_run_state := Some (swarm_state_value st)\<rparr>;
                      s1 = s\<lparr>sw_reg := set_run v reg1\<rparr>
                  in (Some v, case or_text (r_swarm_group_id r) None of
                                None \<Rightarrow> s1 | Some g \<Rightarrow> pump_lane now starts g s1))))"

text \<open>
  The reservation phase of a spawn: the group is configured on first use, and the spawned run \<open>r\<close>
  is stamped with the group and the state of the reservation.
\<close>

definition reserve_swarm_group ::
    "subagent_config \<Rightarrow> time \<Rightarrow> (text_id \<Rightarrow> bool) \<Rightarrow> text_id \<Rightarrow> text_id \<Rightarrow> run \<Rightarrow> text_id option \<Rightarrow> string
     \<Rightarrow> text_id \<Rightarrow> string option \<Rightarrow> string option \<Rightarrow> swarm \<Rightarrow> run \<times> swarm" where
  "reserve_swarm_group cfg now starts i u r group_id task requester task_name fingerprint s =
    (case or_text group_id None of
       None \<Rightarrow> (r, s)
     | Some g \<Rightarrow>
         (let s1 = (if get_group_config g s = None then configure_swarm_group (default_group g) s else s)
          in case reserve_swarm_run cfg now starts i u g task requester task_name ''main'' 1 fingerprint s1 of
               (None, s2) \<Rightarrow> (r, s2)
             | (Some v, s2) \<Rightarrow>
                 (let s3 = s2\<lparr>sw_reg := snd (mem_update (r_run_id r)
                        (\<lambda>x. x\<lparr>r_swarm_group_id := Some g, r_swarm_run_state := r_swarm_run_state v\<rparr>) (sw_reg s2))\<rparr>
                  in (case mem_get (r_run_id r) (sw_reg s3) of None \<Rightarrow> r | Some x \<Rightarrow> x, s3))))"

subsection \<open>Counting active runs\<close>

definition counted :: "(run \<Rightarrow> bool) \<Rightarrow> text_id \<Rightarrow> registry \<Rightarrow> nat" where
  "counted P i s = (case mem_get i s of None \<Rightarrow> 0 | Some r \<Rightarrow> if P r then 1 else 0)"

lemma count_pop:
  "dict_ok d \<Longrightarrow> count_where P (map snd (dict_pop k d)) + (case dict_get d k of None \<Rightarrow> 0 | Some r \<Rightarrow> if P r then 1 else 0) =
    count_where P (map snd d)"
proof (induction d)
  case (Cons x d)
  obtain j r where x: "x = (j, r)" by (cases x)
  show ?case
  proof (cases "j = k")
    case True
    have "k \<notin> fst ` set d" using Cons.prems x True by (simp add: dict_ok_def)
    then have "dict_pop k d = d" by (simp add: delete_id)
    with True x show ?thesis by simp
  next
    case False
    have "dict_ok d" using Cons.prems by (simp add: dict_ok_def)
    from Cons.IH [OF this] False x show ?thesis by simp
  qed
qed simp

lemma count_evict:
  assumes "dict_ok d" and "\<And>r. P r \<Longrightarrow> \<not> is_terminal r"
  shows "count_where P (map snd (evict_overflow cap d)) = count_where P (map snd d)"
proof -
  have eq: "count_where P (map snd e) = length (filter (P \<circ> snd) (filter (\<lambda>x. \<not> (is_terminal \<circ> snd) x) e))" for e
    using assms(2) by (induction e) auto
  show ?thesis unfolding eq evict_overflow_eq [OF assms(1)] filter_drop_first ..
qed

lemma count_set_run:
  assumes "registry_inv s" and "\<And>r. P r \<Longrightarrow> \<not> is_terminal r"
  shows "count_where P (mem_values (set_run u s)) + counted P (r_run_id u) s =
    count_where P (mem_values s) + (if P u then 1 else 0)"
proof -
  have ok: "dict_ok (rg_runs s)" using assms(1) by (simp add: registry_inv_def)
  have "count_where P (mem_values (set_run u s)) = count_where P (map snd (put_last (r_run_id u) u (rg_runs s)))"
    unfolding mem_values_def set_run_def using count_evict [OF dict_ok_put_last [OF ok] assms(2)] by simp
  also have "\<dots> = count_where P (map snd (dict_pop (r_run_id u) (rg_runs s))) + (if P u then 1 else 0)"
    by (simp add: put_last_def)
  finally show ?thesis
    using count_pop [OF ok, of P "r_run_id u"] by (simp add: mem_values_def counted_def mem_get_def)
qed

lemma counts_active_live: "counts_active g r \<Longrightarrow> \<not> is_terminal r"
  by (auto simp: counts_active_def is_terminal_def)

lemma active_set_run:
  "registry_inv s \<Longrightarrow> count_active_swarm_runs g (set_run u s) + counted (counts_active g) (r_run_id u) s =
    count_active_swarm_runs g s + (if counts_active g u then 1 else 0)"
  unfolding count_active_swarm_runs_def by (rule count_set_run [OF _ counts_active_live])

lemma active_upsert [simp]: "count_active_swarm_runs g (upsert_run_sync u s) = count_active_swarm_runs g s"
  by (simp add: count_active_swarm_runs_def mem_values_def upsert_run_sync_def)

lemma active_increment [simp]:
  "count_active_swarm_runs g (snd (increment_spawn_count k s)) = count_active_swarm_runs g s"
  by (simp add: count_active_swarm_runs_def mem_values_def increment_spawn_count_def Let_def)

lemma mem_get_upsert [simp]: "mem_get i (upsert_run_sync u s) = mem_get i s"
  by (simp add: mem_get_def upsert_run_sync_def)

lemma mem_get_increment [simp]: "mem_get i (snd (increment_spawn_count k s)) = mem_get i s"
  by (simp add: mem_get_def increment_spawn_count_def Let_def)

lemma mem_get_id: "registry_inv s \<Longrightarrow> mem_get i s = Some r \<Longrightarrow> r_run_id r = i"
  by (auto simp: registry_inv_def mem_get_def list_all_iff dest: map_of_SomeD)

text \<open>Whatever is found after a store is the stored run or was there before.\<close>

lemma set_run_get:
  assumes "registry_inv s" and "mem_get i (set_run u s) = Some q"
  shows "(i = r_run_id u \<and> q = u) \<or> (i \<noteq> r_run_id u \<and> mem_get i s = Some q)"
proof -
  have ok: "dict_ok (put_last (r_run_id u) u (rg_runs s))" using assms(1) by (simp add: registry_inv_def)
  from evict_get_Some [OF ok, of "rg_cap s" i q] assms(2) show ?thesis
    by (auto simp: mem_get_def set_run_def split: if_splits)
qed

subsection \<open>The invariant of the scheduler\<close>

text \<open>No group has more active runs than its limit; a queued run belongs to the group of its queue.\<close>

definition room :: "swarm \<Rightarrow> text_id \<Rightarrow> int" where
  "room s g = (case get_group_config g s of None \<Rightarrow> 0 | Some c \<Rightarrow> max 0 (gc_max_concurrent c))"

definition swarm_inv :: "swarm \<Rightarrow> bool" where
  "swarm_inv s \<longleftrightarrow> registry_inv (sw_reg s) \<and>
     (\<forall>g. int (count_active_swarm_runs g (sw_reg s)) \<le> room s g) \<and>
     (\<forall>g i r. i \<in> set (fifo_list g (sw_fifo s)) \<longrightarrow> mem_get i (sw_reg s) = Some r \<longrightarrow> r_swarm_group_id r = Some g)"

lemma swarm_invD:
  assumes "swarm_inv s"
  shows "registry_inv (sw_reg s)" and "int (count_active_swarm_runs g (sw_reg s)) \<le> room s g"
    and "i \<in> set (fifo_list g (sw_fifo s)) \<Longrightarrow> mem_get i (sw_reg s) = Some r \<Longrightarrow> r_swarm_group_id r = Some g"
  using assms by (auto simp: swarm_inv_def)

lemma room_frame [simp]: "room (s\<lparr>sw_reg := r\<rparr>) g = room s g" "room (s\<lparr>sw_fifo := q\<rparr>) g = room s g"
  by (simp_all add: room_def get_group_config_def)

text \<open>Storing a run that keeps its group and is not counted, and shortening a queue, keep it.\<close>

lemma swarm_inv_store:
  assumes inv: "swarm_inv s" and old: "mem_get (r_run_id u) (sw_reg s) = Some r" "r_swarm_group_id u = r_swarm_group_id r"
    and few: "\<And>g. counts_active g u \<Longrightarrow> \<not> counts_active g r \<Longrightarrow> int (count_active_swarm_runs g (sw_reg s)) < room s g"
    and queues: "\<And>g. set (fifo_list g q) \<subseteq> set (fifo_list g (sw_fifo s))"
  shows "swarm_inv (s\<lparr>sw_reg := set_run u (sw_reg s), sw_fifo := q\<rparr>)"
  unfolding swarm_inv_def
proof (intro conjI allI impI)
  note reg = swarm_invD(1) [OF inv]
  show "registry_inv (sw_reg (s\<lparr>sw_reg := set_run u (sw_reg s), sw_fifo := q\<rparr>))" using reg by simp
  show "int (count_active_swarm_runs g (sw_reg (s\<lparr>sw_reg := set_run u (sw_reg s), sw_fifo := q\<rparr>))) \<le>
      room (s\<lparr>sw_reg := set_run u (sw_reg s), sw_fifo := q\<rparr>) g" for g
    using active_set_run [OF reg, of g u] swarm_invD(2) [OF inv, of g] few [of g] old(1)
    by (simp add: counted_def room_def get_group_config_def split: if_splits)
  fix g i p
  assume "i \<in> set (fifo_list g (sw_fifo (s\<lparr>sw_reg := set_run u (sw_reg s), sw_fifo := q\<rparr>)))"
  then have queued: "i \<in> set (fifo_list g (sw_fifo s))" using queues by auto
  assume "mem_get i (sw_reg (s\<lparr>sw_reg := set_run u (sw_reg s), sw_fifo := q\<rparr>)) = Some p"
  then have "mem_get i (set_run u (sw_reg s)) = Some p" by simp
  from set_run_get [OF reg this] show "r_swarm_group_id p = Some g"
    using swarm_invD(3) [OF inv queued] old by auto
qed

lemma activated_frame [simp]:
  "r_run_id (activated now r) = r_run_id r" "r_swarm_group_id (activated now r) = r_swarm_group_id r"
  "\<not> is_terminal (activated now r)" "in_state SW_ACTIVE (activated now r)"
  "counts_active g (activated now r) \<longleftrightarrow> r_swarm_group_id r = Some g"
  by (simp_all add: activated_def is_terminal_def in_state_def counts_active_def)

lemma fifo_remove_subset: "set (fifo_list h (snd (fifo_remove g i q))) \<subseteq> set (fifo_list h q)"
  by (auto simp: fifo_remove_list dest: set_remove1_subset [THEN subsetD] split: if_splits)

lemma reserved_not_counted: "in_state SW_RESERVED r \<Longrightarrow> \<not> counts_active g r"
  by (simp add: in_state_def counts_active_def)

lemma start_run_inv:
  assumes inv: "swarm_inv s" and r: "mem_get i (sw_reg s) = Some r" "in_state SW_RESERVED r" "r_swarm_group_id r = Some g"
    and few: "int (count_active_swarm_runs g (sw_reg s)) < room s g"
    and run: "start_run now starts g i r s = ((u, failed), s1)"
  shows "swarm_inv s1" and "sw_groups s1 = sw_groups s"
    and "count_active_swarm_runs g (sw_reg s1) = count_active_swarm_runs g (sw_reg s) + (if starts i then 1 else 0)"
    and "failed \<longleftrightarrow> \<not> starts i" and "in_state SW_FAILED u \<longleftrightarrow> \<not> starts i"
proof -
  note reg = swarm_invD(1) [OF inv]
  define v where "v = activated now r"
  define f where "f = v\<lparr>r_swarm_run_state := Some (swarm_state_value SW_FAILED)\<rparr>"
  define s2 where "s2 = s\<lparr>sw_reg := set_run v (sw_reg s), sw_fifo := snd (fifo_remove g i (sw_fifo s))\<rparr>"
  have id: "r_run_id v = i" using mem_get_id [OF reg r(1)] by (simp add: v_def)
  have s1: "s1 = (if starts i then s2 else s2\<lparr>sw_reg := set_run f (sw_reg s2)\<rparr>)"
    and u: "u = (if starts i then v else f)" and fl: "failed \<longleftrightarrow> \<not> starts i"
    using run by (auto simp: start_run_def Let_def v_def f_def s2_def split: if_splits)
  have inv2: "swarm_inv s2" unfolding s2_def
  proof (rule swarm_inv_store [OF inv])
    show "mem_get (r_run_id v) (sw_reg s) = Some r" by (simp add: id r(1))
    show "r_swarm_group_id v = r_swarm_group_id r" by (simp add: v_def)
    show "int (count_active_swarm_runs h (sw_reg s)) < room s h" if "counts_active h v" for h
      using that few r(3) by (simp add: v_def)
    show "set (fifo_list h (snd (fifo_remove g i (sw_fifo s)))) \<subseteq> set (fifo_list h (sw_fifo s))" for h
      by (rule fifo_remove_subset)
  qed
  have c2: "count_active_swarm_runs g (sw_reg s2) = count_active_swarm_runs g (sw_reg s) + 1"
    using active_set_run [OF reg, of g v] r reserved_not_counted [OF r(2), of g]
    by (simp add: s2_def counted_def id) (simp add: v_def)
  have get2: "mem_get i (sw_reg s2) = Some v"
    using set_run_get_live [OF reg, of v] by (simp add: s2_def id) (simp add: v_def)
  have nf: "\<not> counts_active h f" for h by (simp add: f_def counts_active_def in_state_def)
  have fid: "r_run_id f = i" by (simp add: f_def id)
  have inv3: "swarm_inv (s2\<lparr>sw_reg := set_run f (sw_reg s2), sw_fifo := sw_fifo s2\<rparr>)"
    by (rule swarm_inv_store [OF inv2, of f v]) (use nf in \<open>auto simp: fid get2\<close>, simp add: f_def)
  then have inv3': "swarm_inv (s2\<lparr>sw_reg := set_run f (sw_reg s2)\<rparr>)" by simp
  have c3: "count_active_swarm_runs g (set_run f (sw_reg s2)) = count_active_swarm_runs g (sw_reg s)"
    using active_set_run [OF swarm_invD(1) [OF inv2], of g f] c2 r(3)
    by (simp add: counted_def fid get2 nf) (simp add: v_def)
  show "swarm_inv s1" using inv2 inv3' by (simp add: s1)
  show "sw_groups s1 = sw_groups s" by (simp add: s1 s2_def)
  show "count_active_swarm_runs g (sw_reg s1) = count_active_swarm_runs g (sw_reg s) + (if starts i then 1 else 0)"
    using c2 c3 by (simp add: s1)
  show "failed \<longleftrightarrow> \<not> starts i" by (rule fl)
  show "in_state SW_FAILED u \<longleftrightarrow> \<not> starts i" by (simp add: u v_def f_def activated_def in_state_def)
qed

lemma room_groups: "sw_groups s' = sw_groups s \<Longrightarrow> room s' g = room s g"
  by (simp add: room_def get_group_config_def)

lemma activate_checked_inv:
  assumes inv: "swarm_inv s" and few: "int (count_active_swarm_runs g (sw_reg s)) < room s g"
    and mine: "\<And>r. mem_get i (sw_reg s) = Some r \<Longrightarrow> r_swarm_group_id r = Some g"
    and act: "activate_checked now starts i s = (a, s1)"
  shows "swarm_inv s1 \<and> sw_groups s1 = sw_groups s \<and>
    count_active_swarm_runs g (sw_reg s1) \<le>
      count_active_swarm_runs g (sw_reg s) + (if a = None \<or> in_state SW_FAILED (the a) then 0 else 1)"
proof (cases "mem_get i (sw_reg s)")
  case None
  with act inv show ?thesis by (simp add: activate_checked_def)
next
  case (Some r)
  show ?thesis
  proof (cases "in_state SW_RESERVED r \<and> get_group_config g s \<noteq> None")
    case False
    with act inv Some mine [OF Some] show ?thesis
      by (auto simp: activate_checked_def split: option.splits if_splits)
  next
    case True
    then obtain c where res: "in_state SW_RESERVED r" and c: "get_group_config g s = Some c" by blast
    obtain u failed s2 where run: "start_run now starts g i r s = ((u, failed), s2)" by (metis surj_pair)
    then have "a = Some u" "s1 = s2"
      using act Some mine [OF Some] res c by (simp_all add: activate_checked_def)
    with start_run_inv [OF inv Some res mine [OF Some] few run] show ?thesis by simp
  qed
qed

lemma swarm_inv_fifo:
  assumes "swarm_inv s" and "\<And>g. set (fifo_list g q) \<subseteq> set (fifo_list g (sw_fifo s))"
  shows "swarm_inv (s\<lparr>sw_fifo := q\<rparr>)"
  unfolding swarm_inv_def
proof (intro conjI allI impI)
  fix g i r
  assume "i \<in> set (fifo_list g (sw_fifo (s\<lparr>sw_fifo := q\<rparr>)))" "mem_get i (sw_reg (s\<lparr>sw_fifo := q\<rparr>)) = Some r"
  then show "r_swarm_group_id r = Some g" using swarm_invD(3) [OF assms(1), of i g r] assms(2) [of g] by auto
qed (use swarm_invD(1,2) [OF assms(1)] in simp_all)

lemma fifo_dequeue_cases:
  obtains (empty) "fifo_list g q = []" "fifo_dequeue g q = (None, dict_set g [] q)"
  | (head) i rest where "fifo_list g q = i # rest" "fifo_dequeue g q = (Some i, dict_set g rest q)"
  by (cases "fifo_list g q") (auto simp: fifo_dequeue_def)

lemma pump_loop_inv:
  assumes "swarm_inv s" and "int (count_active_swarm_runs g (sw_reg s)) + budget \<le> limit" and "room s g = max 0 limit"
  shows "swarm_inv (pump_loop now starts g limit budget s) \<and>
    sw_groups (pump_loop now starts g limit budget s) = sw_groups s"
  using assms
proof (induction now starts g limit budget s rule: pump_loop.induct)
  case (1 now starts g limit budget s)
  show ?case
  proof (cases "budget \<le> 0")
    case True
    with 1(3) show ?thesis by (simp add: pump_loop.simps)
  next
    case False
    show ?thesis
    proof (rule fifo_dequeue_cases [of g "sw_fifo s"])
      assume deq: "fifo_list g (sw_fifo s) = []" "fifo_dequeue g (sw_fifo s) = (None, dict_set g [] (sw_fifo s))"
      have "swarm_inv (s\<lparr>sw_fifo := dict_set g [] (sw_fifo s)\<rparr>)"
        by (rule swarm_inv_fifo [OF 1(3)]) (simp add: deq(1))
      moreover have "pump_loop now starts g limit budget s = s\<lparr>sw_fifo := dict_set g [] (sw_fifo s)\<rparr>"
        using False deq(2) by (subst pump_loop.simps) simp
      ultimately show ?thesis by simp
    next
      fix i rest
      assume q: "fifo_list g (sw_fifo s) = i # rest"
        and deq: "fifo_dequeue g (sw_fifo s) = (Some i, dict_set g rest (sw_fifo s))"
      define s0 where "s0 = s\<lparr>sw_fifo := dict_set g rest (sw_fifo s)\<rparr>"
      have inv0: "swarm_inv s0" unfolding s0_def by (rule swarm_inv_fifo [OF 1(3)]) (use q in auto)
      have few: "int (count_active_swarm_runs g (sw_reg s0)) < room s0 g"
        using 1(4,5) False by (simp add: s0_def)
      have mine: "r_swarm_group_id r = Some g" if "mem_get i (sw_reg s0) = Some r" for r
        using swarm_invD(3) [OF 1(3), of i g r] that q by (simp add: s0_def)
      obtain a s1 where act: "activate_checked now starts i s0 = (a, s1)" by fastforce
      from activate_checked_inv [OF inv0 few mine act]
      have s1: "swarm_inv s1" "sw_groups s1 = sw_groups s"
        "count_active_swarm_runs g (sw_reg s1) \<le>
          count_active_swarm_runs g (sw_reg s) + (if a = None \<or> in_state SW_FAILED (the a) then 0 else 1)"
        by (simp_all add: s0_def)
      have room1: "room s1 g = max 0 limit" using room_groups [OF s1(2), of g] 1(5) by simp
      have step: "pump_loop now starts g limit budget s =
          (if a = None \<or> in_state SW_FAILED (the a)
           then pump_loop now starts g limit (limit - int (count_active_swarm_runs g (sw_reg s1))) s1
           else pump_loop now starts g limit (budget - 1) s1)"
        using False deq act by (subst pump_loop.simps) (simp add: s0_def)
      show ?thesis
      proof (cases "a = None \<or> in_state SW_FAILED (the a)")
        case True
        have "swarm_inv (pump_loop now starts g limit (limit - int (count_active_swarm_runs g (sw_reg s1))) s1) \<and>
            sw_groups (pump_loop now starts g limit (limit - int (count_active_swarm_runs g (sw_reg s1))) s1) = sw_groups s1"
          by (rule 1(1) [OF False deq [symmetric] refl refl _ True s1(1) _ room1])
            (simp_all add: act [unfolded s0_def])
        with True step s1(2) show ?thesis by simp
      next
        case ok: False
        have "swarm_inv (pump_loop now starts g limit (budget - 1) s1) \<and>
            sw_groups (pump_loop now starts g limit (budget - 1) s1) = sw_groups s1"
          by (rule 1(2) [OF False deq [symmetric] refl refl _ ok s1(1) _ room1])
            (use s1(3) ok 1(4) in \<open>simp_all add: act [unfolded s0_def]\<close>)
        then show ?thesis unfolding step if_not_P [OF ok] s1(2) .
      qed
    qed
  qed
qed

lemma pump_lane_inv:
  assumes "swarm_inv s"
  shows "swarm_inv (pump_lane now starts g s) \<and> sw_groups (pump_lane now starts g s) = sw_groups s"
proof (cases "get_group_config g s")
  case None
  with assms show ?thesis by (simp add: pump_lane_def)
next
  case (Some c)
  have "room s g = max 0 (gc_max_concurrent c)" by (simp add: room_def Some)
  from pump_loop_inv [OF assms _ this] Some show ?thesis by (simp add: pump_lane_def)
qed

lemma activate_swarm_run_inv:
  assumes "swarm_inv s"
  shows "swarm_inv (snd (activate_swarm_run now starts i s)) \<and>
    sw_groups (snd (activate_swarm_run now starts i s)) = sw_groups s"
proof (cases "\<exists>r g c. mem_get i (sw_reg s) = Some r \<and> in_state SW_RESERVED r \<and> r_swarm_group_id r = Some g \<and>
    get_group_config g s = Some c \<and> int (count_active_swarm_runs g (sw_reg s)) < gc_max_concurrent c")
  case False
  with assms show ?thesis by (auto simp: activate_swarm_run_def split: option.splits)
next
  case True
  then obtain r g c where r: "mem_get i (sw_reg s) = Some r" "in_state SW_RESERVED r" "r_swarm_group_id r = Some g"
    and c: "get_group_config g s = Some c" and few: "int (count_active_swarm_runs g (sw_reg s)) < gc_max_concurrent c"
    by blast
  obtain u failed s1 where run: "start_run now starts g i r s = ((u, failed), s1)" by (metis surj_pair)
  have "int (count_active_swarm_runs g (sw_reg s)) < room s g" using few by (simp add: room_def c)
  note start = start_run_inv [OF assms r this run]
  have "snd (activate_swarm_run now starts i s) = (if failed then pump_lane now starts g s1 else s1)"
    using r c few run by (cases failed) (simp_all add: activate_swarm_run_def)
  then show ?thesis using start(1,2) pump_lane_inv [OF start(1), of now starts g] by simp
qed

text \<open>A run that is registered or stored outside the scheduler.\<close>

lemma swarm_inv_reg:
  assumes inv: "swarm_inv s" and reg: "registry_inv t"
    and few: "\<And>g. count_active_swarm_runs g t \<le> count_active_swarm_runs g (sw_reg s)"
    and same: "\<And>g i r. i \<in> set (fifo_list g (sw_fifo s)) \<Longrightarrow> mem_get i t = Some r \<Longrightarrow>
      \<exists>q. mem_get i (sw_reg s) = Some q \<and> r_swarm_group_id q = r_swarm_group_id r"
  shows "swarm_inv (s\<lparr>sw_reg := t\<rparr>)"
  unfolding swarm_inv_def
proof (intro conjI allI impI)
  show "registry_inv (sw_reg (s\<lparr>sw_reg := t\<rparr>))" using reg by simp
  show "int (count_active_swarm_runs g (sw_reg (s\<lparr>sw_reg := t\<rparr>))) \<le> room (s\<lparr>sw_reg := t\<rparr>) g" for g
    using few [of g] swarm_invD(2) [OF inv, of g] by simp
  fix g i r
  assume "i \<in> set (fifo_list g (sw_fifo (s\<lparr>sw_reg := t\<rparr>)))" "mem_get i (sw_reg (s\<lparr>sw_reg := t\<rparr>)) = Some r"
  then have queued: "i \<in> set (fifo_list g (sw_fifo s))" and "mem_get i t = Some r" by simp_all
  from same [OF this] swarm_invD(3) [OF inv queued] show "r_swarm_group_id r = Some g" by auto
qed

lemma complete_record_frame [simp]:
  "r_run_id (complete_record cfg now oc text h r) = r_run_id r"
  "r_swarm_group_id (complete_record cfg now oc text h r) = r_swarm_group_id r"
  "r_swarm_run_state (complete_record cfg now oc text h r) = r_swarm_run_state r"
  "is_terminal (complete_record cfg now oc text h r)"
  by (simp_all add: complete_record_def is_terminal_def)

definition only_finishes :: "registry \<Rightarrow> registry \<Rightarrow> bool" where
  "only_finishes s t \<longleftrightarrow> registry_inv t \<and>
     (\<forall>g. count_active_swarm_runs g t \<le> count_active_swarm_runs g s) \<and>
     (\<forall>j p. mem_get j t = Some p \<longrightarrow> (\<exists>q. mem_get j s = Some q \<and> r_swarm_group_id q = r_swarm_group_id p))"

lemma only_finishes_inv: "swarm_inv s \<Longrightarrow> only_finishes (sw_reg s) t \<Longrightarrow> swarm_inv (s\<lparr>sw_reg := t\<rparr>)"
  by (rule swarm_inv_reg) (auto simp: only_finishes_def)

lemma only_finishes_refl: "registry_inv s \<Longrightarrow> only_finishes s s"
  by (simp add: only_finishes_def)

lemma only_finishes_trans:
  assumes "only_finishes s t" and "only_finishes t u"
  shows "only_finishes s u"
  unfolding only_finishes_def
proof (intro conjI allI impI)
  show "registry_inv u" using assms(2) by (simp add: only_finishes_def)
  show "count_active_swarm_runs g u \<le> count_active_swarm_runs g s" for g
    using assms by (meson only_finishes_def le_trans)
  fix j p
  assume "mem_get j u = Some p"
  then obtain q where q: "mem_get j t = Some q" "r_swarm_group_id q = r_swarm_group_id p"
    using assms(2) unfolding only_finishes_def by blast
  then obtain r where "mem_get j s = Some r" "r_swarm_group_id r = r_swarm_group_id q"
    using assms(1) unfolding only_finishes_def by blast
  with q(2) show "\<exists>q. mem_get j s = Some q \<and> r_swarm_group_id q = r_swarm_group_id p" by simp
qed

text \<open>Storing a terminal version of a run that is there, or was there before an eviction.\<close>

lemma store_terminal:
  assumes "only_finishes s t" and "is_terminal u"
    and "\<exists>r. mem_get (r_run_id u) s = Some r \<and> r_swarm_group_id r = r_swarm_group_id u"
  shows "only_finishes s (set_run u t)"
  unfolding only_finishes_def
proof (intro conjI allI impI)
  have reg: "registry_inv t" using assms(1) by (simp add: only_finishes_def)
  then show "registry_inv (set_run u t)" by simp
  show "count_active_swarm_runs g (set_run u t) \<le> count_active_swarm_runs g s" for g
  proof -
    have "\<not> counts_active g u" using counts_active_live [of g u] assms(2) by blast
    then have "count_active_swarm_runs g (set_run u t) \<le> count_active_swarm_runs g t"
      using active_set_run [OF reg, of g u] by simp
    also have "\<dots> \<le> count_active_swarm_runs g s" using assms(1) by (simp add: only_finishes_def)
    finally show ?thesis .
  qed
  fix j p
  assume "mem_get j (set_run u t) = Some p"
  from set_run_get [OF reg this] show "\<exists>q. mem_get j s = Some q \<and> r_swarm_group_id q = r_swarm_group_id p"
    using assms(1,3) unfolding only_finishes_def by blast
qed

lemma complete_run_finishes:
  assumes reg: "registry_inv s" and ran: "complete_run cfg now i oc text h s = (Some u, t)"
  shows "only_finishes s t" and "r_run_id u = i" and "is_terminal u"
    and "\<exists>r. mem_get i s = Some r \<and> r_swarm_group_id r = r_swarm_group_id u"
proof -
  obtain r where r: "mem_get i s = Some r" using ran by (cases "mem_get i s") (simp_all add: complete_run_def)
  note id = mem_get_id [OF reg r]
  have all: "only_finishes s t \<and> r_run_id u = i \<and> is_terminal u \<and> r_swarm_group_id r = r_swarm_group_id u"
  proof (cases "ex_status (r_execution r) = EX_TERMINAL")
    case True
    then show ?thesis using ran r id reg by (auto simp: complete_run_def is_terminal_def intro: only_finishes_refl)
  next
    case False
    let ?u = "complete_record cfg now oc text h r"
    have "complete_run cfg now i oc text h s = (Some ?u, upsert_run_sync ?u (set_run ?u s))"
      using r False by (simp add: complete_run_def Let_def)
    then have u: "u = ?u" and t: "t = upsert_run_sync ?u (set_run ?u s)" using ran by simp_all
    have "only_finishes s (set_run ?u s)"
      by (rule store_terminal [OF only_finishes_refl [OF reg]]) (simp_all add: id r)
    then have "only_finishes s t" unfolding t by (simp add: only_finishes_def)
    then show ?thesis by (simp add: u id)
  qed
  then show "only_finishes s t" "r_run_id u = i" "is_terminal u"
    "\<exists>r. mem_get i s = Some r \<and> r_swarm_group_id r = r_swarm_group_id u" using r by blast+
qed

lemma complete_run_None: "fst (complete_run cfg now i oc text h s) = None \<Longrightarrow> snd (complete_run cfg now i oc text h s) = s"
  by (auto simp: complete_run_def Let_def split: option.splits if_splits)

lemma complete_run_swarm:
  assumes "swarm_inv s"
  shows "swarm_inv (s\<lparr>sw_reg := snd (complete_run cfg now i oc text h (sw_reg s))\<rparr>)"
proof (cases "complete_run cfg now i oc text h (sw_reg s)")
  case (Pair a t)
  show ?thesis
  proof (cases a)
    case None
    with Pair complete_run_None [of cfg now i oc "text" h "sw_reg s"] assms show ?thesis by simp
  next
    case (Some u)
    with Pair complete_run_finishes(1) [OF swarm_invD(1) [OF assms]] assms show ?thesis
      by (simp add: only_finishes_inv)
  qed
qed

lemma complete_swarm_run_inv:
  assumes "swarm_inv s"
  shows "swarm_inv (snd (complete_swarm_run cfg now starts i oc text s)) \<and>
    sw_groups (snd (complete_swarm_run cfg now starts i oc text s)) = sw_groups s"
proof (cases "mem_get i (sw_reg s)")
  case None
  with assms show ?thesis by (simp add: complete_swarm_run_def)
next
  case (Some r)
  note reg = swarm_invD(1) [OF assms]
  obtain a t where run: "complete_run cfg now i oc text None (sw_reg s) = (a, t)" by fastforce
  show ?thesis
  proof (cases a)
    case None
    then show ?thesis
      using complete_run_swarm [OF assms, of cfg now i oc "text" None] Some run
      by (simp add: complete_swarm_run_def Let_def)
  next
    case u: (Some u)
    define v where "v = u\<lparr>r_swarm_run_state :=
      Some (swarm_state_value (if oc_status oc = OC_OK then SW_COMPLETED else SW_FAILED))\<rparr>"
    note fin = complete_run_finishes [OF reg run [unfolded u]]
    have "only_finishes (sw_reg s) (set_run v t)"
      by (rule store_terminal [OF fin(1)]) (use fin(2-4) in \<open>simp_all add: v_def is_terminal_def\<close>)
    from only_finishes_inv [OF assms this] have inv1: "swarm_inv (s\<lparr>sw_reg := set_run v t\<rparr>)" .
    have "snd (complete_swarm_run cfg now starts i oc text s) =
        (case or_text (r_swarm_group_id r) None of
           None \<Rightarrow> s\<lparr>sw_reg := set_run v t\<rparr> | Some g \<Rightarrow> pump_lane now starts g (s\<lparr>sw_reg := set_run v t\<rparr>))"
      unfolding v_def using Some run u by (simp add: complete_swarm_run_def Let_def)
    then show ?thesis using inv1 pump_lane_inv [OF inv1] by (simp split: option.split)
  qed
qed

lemma register_run_swarm:
  assumes reg: "registry_inv s" and fresh: "mem_get i s = None" and run: "register_run cfg i q s = (r, t)"
  shows "registry_inv t" and "r_run_id r = i" and "r_swarm_group_id r = None" and "\<not> is_terminal r"
    and "\<not> counts_active g r" and "count_active_swarm_runs g t = count_active_swarm_runs g s"
    and "mem_get i t = Some r" and "\<And>j p. j \<noteq> i \<Longrightarrow> mem_get j t = Some p \<Longrightarrow> mem_get j s = Some p"
    and "\<And>j p. j \<noteq> i \<Longrightarrow> mem_get j s = Some p \<Longrightarrow> \<not> is_terminal p \<Longrightarrow> mem_get j t = Some p"
proof -
  define k where "k = (case or_text (q_spawned_by q) (Some (q_requester q)) of Some k \<Rightarrow> k | None \<Rightarrow> q_requester q)"
  define n where "n = new_run cfg i (next_generation (q_child q) s) q"
  have "register_run cfg i q s = (n, upsert_run_sync n (set_run n (snd (increment_spawn_count k s))))"
    by (simp add: register_run_def Let_def k_def n_def)
  with run have r: "r = n" and "t = upsert_run_sync n (set_run n (snd (increment_spawn_count k s)))"
    by (metis Pair_inject)+
  then have t: "t = upsert_run_sync r (set_run r (snd (increment_spawn_count k s)))" by blast
  show id: "r_run_id r = i" and "r_swarm_group_id r = None" and live: "\<not> is_terminal r"
    and nc: "\<not> counts_active g r" for g
    by (simp_all add: r n_def new_run_def is_terminal_def new_execution_state_def counts_active_def)
  have reg1: "registry_inv (snd (increment_spawn_count k s))" using reg by simp
  show "registry_inv t" using reg1 unfolding t by simp
  show "count_active_swarm_runs g t = count_active_swarm_runs g s"
    using active_set_run [OF reg1, of g r] nc [of g] fresh by (simp add: t counted_def id)
  show "mem_get i t = Some r" using set_run_get_live [OF reg1 live] by (simp add: t id)
  show "mem_get j s = Some p" if "j \<noteq> i" "mem_get j t = Some p" for j p
    using set_run_get [OF reg1, of j r p] that by (simp add: t id)
  show "mem_get j t = Some p" if "j \<noteq> i" "mem_get j s = Some p" "\<not> is_terminal p" for j p
    using set_run_get_other [OF reg1, of j p r] that by (simp add: t id)
qed

lemma add_reserved:
  assumes inv: "swarm_inv s" and fresh: "mem_get i (sw_reg s) = None" "\<And>h. i \<notin> set (fifo_list h (sw_fifo s))"
    and run: "register_run cfg i q (sw_reg s) = (r, t)"
    and v: "r_run_id v = i" "r_swarm_group_id v = Some g" "in_state SW_RESERVED v" "\<not> is_terminal v"
  shows "swarm_inv (s\<lparr>sw_reg := set_run v t, sw_fifo := snd (fifo_enqueue g i (sw_fifo s))\<rparr>)"
  unfolding swarm_inv_def
proof (intro conjI allI impI)
  note reg = swarm_invD(1) [OF inv]
  note new = register_run_swarm [OF reg fresh(1) run]
  let ?s = "s\<lparr>sw_reg := set_run v t, sw_fifo := snd (fifo_enqueue g i (sw_fifo s))\<rparr>"
  show "registry_inv (sw_reg ?s)" using new(1) by simp
  show "int (count_active_swarm_runs h (sw_reg ?s)) \<le> room ?s h" for h
    using active_set_run [OF new(1), of h v] new(6) [of h] reserved_not_counted [OF v(3), of h] swarm_invD(2) [OF inv, of h]
    by (simp add: room_def get_group_config_def)
  fix h j p
  assume q: "j \<in> set (fifo_list h (sw_fifo ?s))" and get: "mem_get j (sw_reg ?s) = Some p"
  have queue: "j \<in> set (fifo_list h (sw_fifo s)) \<or> (h = g \<and> j = i)"
    using q by (auto simp: fifo_enqueue_def Let_def split: if_splits)
  have "mem_get j (set_run v t) = Some p" using get by simp
  from set_run_get [OF new(1) this] show "r_swarm_group_id p = Some h"
  proof (elim disjE conjE)
    assume "j = r_run_id v" "p = v"
    with queue fresh(2) v(1,2) show ?thesis by auto
  next
    assume j: "j \<noteq> r_run_id v" "mem_get j t = Some p"
    then have "mem_get j (sw_reg s) = Some p" using new(8) v(1) by simp
    with queue j(1) v(1) swarm_invD(3) [OF inv] show ?thesis by auto
  qed
qed

lemma reserve_swarm_run_inv:
  assumes inv: "swarm_inv s" and fresh: "mem_get i (sw_reg s) = None" "\<And>h. i \<notin> set (fifo_list h (sw_fifo s))"
  shows "swarm_inv (snd (reserve_swarm_run cfg now starts i u g task requester task_name agent_id depth fp s)) \<and>
    sw_groups (snd (reserve_swarm_run cfg now starts i u g task requester task_name agent_id depth fp s)) = sw_groups s"
proof -
  obtain r t where run: "register_run cfg i (swarm_request u g task requester task_name agent_id depth) (sw_reg s) = (r, t)"
    by fastforce
  define v where "v = r\<lparr>r_swarm_group_id := Some g, r_swarm_run_state := Some (swarm_state_value SW_RESERVED),
    r_launch_fingerprint := fp\<rparr>"
  note new = register_run_swarm [OF swarm_invD(1) [OF inv] fresh(1) run]
  define s1 where "s1 = s\<lparr>sw_reg := set_run v t, sw_fifo := snd (fifo_enqueue g i (sw_fifo s))\<rparr>"
  have inv1: "swarm_inv s1" unfolding s1_def
    by (rule add_reserved [OF inv fresh run]) (use new(2,4) in \<open>simp_all add: v_def in_state_def is_terminal_def\<close>)
  have "snd (reserve_swarm_run cfg now starts i u g task requester task_name agent_id depth fp s) \<in>
      {s, pump_lane now starts g s1}"
    unfolding reserve_swarm_run_def Let_def run prod.case v_def s1_def by (simp split: option.split)
  then show ?thesis
  proof (elim insertE emptyE)
    assume e: "snd (reserve_swarm_run cfg now starts i u g task requester task_name agent_id depth fp s) = s"
    show ?thesis unfolding e using inv by simp
  next
    assume e: "snd (reserve_swarm_run cfg now starts i u g task requester task_name agent_id depth fp s) =
      pump_lane now starts g s1"
    show ?thesis unfolding e using pump_lane_inv [OF inv1, of now starts g] by (simp add: s1_def)
  qed
qed

lemma configure_inv:
  assumes "swarm_inv s" and "room s (gc_group_id c) \<le> max 0 (gc_max_concurrent c)"
  shows "swarm_inv (configure_swarm_group c s)"
  unfolding swarm_inv_def
proof (intro conjI allI impI)
  show "int (count_active_swarm_runs g (sw_reg (configure_swarm_group c s))) \<le> room (configure_swarm_group c s) g" for g
    using swarm_invD(2) [OF assms(1), of g] assms(2) by (auto simp: configure_swarm_group_def room_def get_group_config_def)
next
  fix g i r
  assume "i \<in> set (fifo_list g (sw_fifo (configure_swarm_group c s)))"
    "mem_get i (sw_reg (configure_swarm_group c s)) = Some r"
  then show "r_swarm_group_id r = Some g"
    using swarm_invD(3) [OF assms(1), of i g r] by (simp add: configure_swarm_group_def)
qed (use swarm_invD(1) [OF assms(1)] in \<open>simp add: configure_swarm_group_def\<close>)

subsection \<open>The scheduler as a transition system\<close>

text \<open>
  The scheduler's operations, plain registrations and completions that go past the scheduler (a
  kill), in any order, with fresh run ids. A group is configured anew only with a limit that is
  not lower: the scheduler never stops a run that is active.
\<close>

inductive swarm_step :: "swarm \<Rightarrow> swarm \<Rightarrow> bool" where
  SW_Configure: "room s (gc_group_id c) \<le> max 0 (gc_max_concurrent c) \<Longrightarrow> swarm_step s (configure_swarm_group c s)"
| SW_Reserve: "mem_get i (sw_reg s) = None \<Longrightarrow> (\<And>h. i \<notin> set (fifo_list h (sw_fifo s))) \<Longrightarrow>
    swarm_step s (snd (reserve_swarm_run cfg now starts i u g task requester task_name agent_id depth fp s))"
| SW_Activate: "swarm_step s (snd (activate_swarm_run now starts i s))"
| SW_Complete: "swarm_step s (snd (complete_swarm_run cfg now starts i oc result s))"
| SW_Pump: "swarm_step s (pump_lane now starts g s)"
| SW_Finish: "swarm_step s (s\<lparr>sw_reg := snd (complete_run cfg now i oc result h (sw_reg s))\<rparr>)"
| SW_Register: "mem_get i (sw_reg s) = None \<Longrightarrow> (\<And>h. i \<notin> set (fifo_list h (sw_fifo s))) \<Longrightarrow>
    swarm_step s (s\<lparr>sw_reg := snd (register_run cfg i q (sw_reg s))\<rparr>)"

definition empty_swarm :: "nat \<Rightarrow> swarm" where
  "empty_swarm cap = \<lparr>sw_reg = empty_registry cap, sw_groups = [], sw_fifo = []\<rparr>"

lemma empty_swarm_inv: "swarm_inv (empty_swarm cap)"
  by (simp add: swarm_inv_def empty_swarm_def fifo_list_def count_active_swarm_runs_def mem_values_def
      empty_registry_def room_def get_group_config_def registry_inv_def)

lemma register_inv:
  assumes inv: "swarm_inv s" and fresh: "mem_get i (sw_reg s) = None" "\<And>h. i \<notin> set (fifo_list h (sw_fifo s))"
  shows "swarm_inv (s\<lparr>sw_reg := snd (register_run cfg i q (sw_reg s))\<rparr>)"
proof -
  obtain r t where run: "register_run cfg i q (sw_reg s) = (r, t)" by fastforce
  note new = register_run_swarm [OF swarm_invD(1) [OF inv] fresh(1) run]
  have "swarm_inv (s\<lparr>sw_reg := t\<rparr>)"
  proof (rule swarm_inv_reg [OF inv new(1)])
    show "count_active_swarm_runs g t \<le> count_active_swarm_runs g (sw_reg s)" for g by (simp add: new(6))
    fix g j p
    assume "j \<in> set (fifo_list g (sw_fifo s))" "mem_get j t = Some p"
    moreover then have "j \<noteq> i" using fresh(2) by blast
    ultimately show "\<exists>q. mem_get j (sw_reg s) = Some q \<and> r_swarm_group_id q = r_swarm_group_id p"
      using new(8) by blast
  qed
  then show ?thesis by (simp add: run)
qed

lemma swarm_step_inv:
  assumes "swarm_inv s" and "swarm_step s t"
  shows "swarm_inv t"
  using assms(2)
proof cases
  case (SW_Configure c)
  then show ?thesis using configure_inv [OF assms(1)] by simp
next
  case (SW_Reserve i cfg now starts u g task requester task_name agent_id depth fp)
  then show ?thesis using reserve_swarm_run_inv [OF assms(1) SW_Reserve(2,3)] by simp
next
  case (SW_Activate now starts i)
  then show ?thesis using activate_swarm_run_inv [OF assms(1)] by simp
next
  case (SW_Complete cfg now starts i oc result)
  then show ?thesis using complete_swarm_run_inv [OF assms(1)] by simp
next
  case (SW_Pump now starts g)
  then show ?thesis using pump_lane_inv [OF assms(1)] by simp
next
  case (SW_Finish cfg now i oc result h)
  then show ?thesis using complete_run_swarm [OF assms(1)] by simp
next
  case (SW_Register i cfg q)
  then show ?thesis using register_inv [OF assms(1) SW_Register(2,3)] by simp
qed

interpretation swarm_system: inv_system "\<lambda>s. \<exists>cap. s = empty_swarm cap" swarm_step swarm_inv
proof unfold_locales
  show "\<exists>cap. s = empty_swarm cap \<Longrightarrow> swarm_inv s" for s using empty_swarm_inv by blast
  show "swarm_inv s \<Longrightarrow> swarm_step s t \<Longrightarrow> swarm_inv t" for s t by (rule swarm_step_inv)
qed

subsection \<open>The pump serves the queue in order\<close>

definition ready_in :: "text_id \<Rightarrow> swarm \<Rightarrow> text_id \<Rightarrow> bool" where
  "ready_in g s i \<longleftrightarrow> (\<exists>r. mem_get i (sw_reg s) = Some r \<and> in_state SW_RESERVED r \<and> r_swarm_group_id r = Some g \<and>
     \<not> is_terminal r)"

lemma ready_in_iff: "ready_in g s i \<longleftrightarrow> (case mem_get i (sw_reg s) of None \<Rightarrow> False
    | Some r \<Rightarrow> in_state SW_RESERVED r \<and> r_swarm_group_id r = Some g \<and> \<not> is_terminal r)"
  by (simp add: ready_in_def split: option.split)

definition active_in :: "text_id \<Rightarrow> swarm \<Rightarrow> text_id \<Rightarrow> bool" where
  "active_in g s i \<longleftrightarrow> (\<exists>r. mem_get i (sw_reg s) = Some r \<and> counts_active g r)"

text \<open>Starting a ready run: it is active, every other live run and the rest of the queue are kept.\<close>

lemma start_ready:
  assumes reg: "registry_inv (sw_reg s)" and ready: "ready_in g s i" and c: "get_group_config g s \<noteq> None"
    and act: "activate_checked now (\<lambda>_. True) i s = (a, s1)"
  shows "registry_inv (sw_reg s1)" and "sw_groups s1 = sw_groups s" and "active_in g s1 i"
    and "\<And>j q. j \<noteq> i \<Longrightarrow> mem_get j (sw_reg s) = Some q \<Longrightarrow> \<not> is_terminal q \<Longrightarrow> mem_get j (sw_reg s1) = Some q"
    and "fifo_list h (sw_fifo s1) = (if h = g then remove1 i (fifo_list g (sw_fifo s)) else fifo_list h (sw_fifo s))"
    and "a \<noteq> None \<and> \<not> in_state SW_FAILED (the a)"
proof -
  obtain r where r: "mem_get i (sw_reg s) = Some r" "in_state SW_RESERVED r" "r_swarm_group_id r = Some g"
    using ready by (auto simp: ready_in_def)
  have "r_run_id (activated now r) = i" using mem_get_id [OF reg r(1)] by simp
  note id = this
  have res: "a = Some (activated now r)"
    "s1 = s\<lparr>sw_reg := set_run (activated now r) (sw_reg s), sw_fifo := snd (fifo_remove g i (sw_fifo s))\<rparr>"
    using act r c by (auto simp: activate_checked_def start_run_def Let_def)
  show "registry_inv (sw_reg s1)" "sw_groups s1 = sw_groups s" using reg by (simp_all add: res(2))
  have "mem_get i (set_run (activated now r) (sw_reg s)) = Some (activated now r)"
    using set_run_get_live [OF reg, of "activated now r"] by (simp add: id del: activated_frame(1))
  then show "active_in g s1 i" using r(3) by (simp add: active_in_def res(2))
  show "mem_get j (sw_reg s1) = Some q" if "j \<noteq> i" "mem_get j (sw_reg s) = Some q" "\<not> is_terminal q" for j q
    using set_run_get_other [OF reg that(2) _ that(3), of "activated now r"] that(1)
    by (simp add: res(2) id del: activated_frame(1))
  show "fifo_list h (sw_fifo s1) = (if h = g then remove1 i (fifo_list g (sw_fifo s)) else fifo_list h (sw_fifo s))"
    by (simp add: res(2) fifo_remove_list)
  show "a \<noteq> None \<and> \<not> in_state SW_FAILED (the a)" by (simp add: res(1) activated_def in_state_def)
qed

lemma pump_in_order:
  assumes "fifo_list g (sw_fifo s) = queue" and "distinct queue" and "registry_inv (sw_reg s)"
    and "get_group_config g s \<noteq> None" and "\<And>i. i \<in> set queue \<Longrightarrow> ready_in g s i"
  shows "let s' = pump_loop now (\<lambda>_. True) g limit b s
    in fifo_list g (sw_fifo s') = drop (nat b) queue \<and> (\<forall>i \<in> set (take (nat b) queue). active_in g s' i) \<and>
       (\<forall>i q. i \<notin> set (take (nat b) queue) \<longrightarrow> mem_get i (sw_reg s) = Some q \<longrightarrow> \<not> is_terminal q \<longrightarrow>
          mem_get i (sw_reg s') = Some q)"
  using assms
proof (induction queue arbitrary: s b)
  case Nil
  then show ?case by (subst pump_loop.simps) (simp add: fifo_dequeue_def Let_def)
next
  case (Cons i queue)
  show ?case
  proof (cases "b \<le> 0")
    case True
    with Cons.prems(1) show ?thesis by (subst pump_loop.simps) (simp add: Let_def)
  next
    case False
    define s0 where "s0 = s\<lparr>sw_fifo := dict_set g queue (sw_fifo s)\<rparr>"
    have deq: "fifo_dequeue g (sw_fifo s) = (Some i, dict_set g queue (sw_fifo s))"
      using Cons.prems(1) by (simp add: fifo_dequeue_def)
    obtain a s1 where act: "activate_checked now (\<lambda>_. True) i s0 = (a, s1)" by fastforce
    have "registry_inv (sw_reg s0)" "ready_in g s0 i" "get_group_config g s0 \<noteq> None"
      using Cons.prems(3,4) Cons.prems(5) [of i] by (simp_all add: s0_def ready_in_def get_group_config_def)
    note start = start_ready [OF this act]
    have step: "pump_loop now (\<lambda>_. True) g limit b s = pump_loop now (\<lambda>_. True) g limit (b - 1) s1"
      using False deq act start(6) by (subst pump_loop.simps) (auto simp: s0_def [symmetric])
    have q1: "fifo_list g (sw_fifo s1) = queue"
      using start(5) [of g] Cons.prems(2) by (simp add: s0_def remove1_idem)
    have c1: "get_group_config g s1 \<noteq> None" using Cons.prems(4) start(2) by (simp add: get_group_config_def s0_def)
    have r1: "ready_in g s1 j" if "j \<in> set queue" for j
    proof -
      have "j \<noteq> i" using Cons.prems(2) that by auto
      moreover have "ready_in g s0 j" using Cons.prems(5) [OF list.set_intros(2) [OF that]] by (simp add: ready_in_def s0_def)
      ultimately show ?thesis using start(4) unfolding ready_in_def by blast
    qed
    define s' where "s' = pump_loop now (\<lambda>_. True) g limit (b - 1) s1"
    have IH: "fifo_list g (sw_fifo s') = drop (nat (b - 1)) queue"
      "\<And>j. j \<in> set (take (nat (b - 1)) queue) \<Longrightarrow> active_in g s' j"
      "\<And>j q. j \<notin> set (take (nat (b - 1)) queue) \<Longrightarrow> mem_get j (sw_reg s1) = Some q \<Longrightarrow> \<not> is_terminal q \<Longrightarrow>
         mem_get j (sw_reg s') = Some q"
      using Cons.IH [OF q1 _ start(1) c1 r1, of "b - 1"] Cons.prems(2) by (simp_all add: s'_def Let_def)
    have n: "nat b = Suc (nat (b - 1))" using False by simp
    have "i \<notin> set (take (nat (b - 1)) queue)" using Cons.prems(2) by (auto dest: in_set_takeD)
    then have "active_in g s' i"
      using start(3) IH(3) [of i] counts_active_live by (auto simp: active_in_def)
    moreover have "mem_get j (sw_reg s') = Some q"
      if "j \<notin> set (take (nat b) (i # queue))" "mem_get j (sw_reg s) = Some q" "\<not> is_terminal q" for j q
      using that IH(3) [of j q] start(4) [of j q] by (simp add: n s0_def)
    ultimately show ?thesis unfolding step Let_def using IH(1,2) by (simp add: n s'_def [symmetric])
  qed
qed

subsection \<open>An active run leaves its slot only by its own completion\<close>

definition holds_slot :: "text_id \<Rightarrow> text_id \<Rightarrow> run \<Rightarrow> swarm \<Rightarrow> bool" where
  "holds_slot g j q s \<longleftrightarrow> registry_inv (sw_reg s) \<and> mem_get j (sw_reg s) = Some q \<and> counts_active g q"

lemma store_keeps_slot:
  assumes "holds_slot g j q s" and "r_run_id u \<noteq> j"
  shows "holds_slot g j q (s\<lparr>sw_reg := set_run u (sw_reg s), sw_fifo := f\<rparr>)"
    and "holds_slot g j q (s\<lparr>sw_reg := set_run u (sw_reg s)\<rparr>)"
  using assms set_run_get_other [of "sw_reg s" j q u] counts_active_live [of g q] by (auto simp: holds_slot_def)

lemma active_not_reserved: "counts_active g q \<Longrightarrow> \<not> in_state SW_RESERVED q"
  using reserved_not_counted by blast

lemma activate_keeps_slot:
  assumes "holds_slot g j q s"
  shows "holds_slot g j q (snd (activate_checked now starts i s))"
proof (cases "\<exists>r h. mem_get i (sw_reg s) = Some r \<and> in_state SW_RESERVED r \<and> r_swarm_group_id r = Some h")
  case False
  with assms show ?thesis by (auto simp: activate_checked_def split: option.splits)
next
  case True
  then obtain r h where r: "mem_get i (sw_reg s) = Some r" "in_state SW_RESERVED r" "r_swarm_group_id r = Some h" by blast
  have "r_run_id r = i" using assms r(1) mem_get_id by (auto simp: holds_slot_def)
  moreover have "i \<noteq> j" using assms r(1,2) active_not_reserved by (auto simp: holds_slot_def)
  ultimately have ne: "r_run_id (activated now r) \<noteq> j" by simp
  let ?f = "(activated now r)\<lparr>r_swarm_run_state := Some (swarm_state_value SW_FAILED)\<rparr>"
  define s1 where "s1 = s\<lparr>sw_reg := set_run (activated now r) (sw_reg s), sw_fifo := snd (fifo_remove h i (sw_fifo s))\<rparr>"
  have keep1: "holds_slot g j q s1" unfolding s1_def by (rule store_keeps_slot(1) [OF assms ne])
  have "r_run_id ?f \<noteq> j" using ne by simp
  from store_keeps_slot(2) [OF keep1 this] keep1
  have "holds_slot g j q (snd (start_run now starts h i r s))"
    unfolding start_run_def Let_def s1_def [symmetric] by (cases "starts i") (simp_all only: if_True if_False snd_conv)
  with assms r show ?thesis by (simp add: activate_checked_def case_prod_unfold Let_def split: option.split)
qed

lemma pump_loop_keeps_slot: "holds_slot h j q s \<Longrightarrow> holds_slot h j q (pump_loop now starts g limit budget s)"
proof (induction now starts g limit budget s rule: pump_loop.induct)
  case (1 now starts g limit budget s)
  show ?case
  proof (cases "budget \<le> 0")
    case True
    with 1(3) show ?thesis by (subst pump_loop.simps) simp
  next
    case False
    obtain x f where deq: "fifo_dequeue g (sw_fifo s) = (x, f)" by fastforce
    have keep: "holds_slot h j q (s\<lparr>sw_fifo := f\<rparr>)" using 1(3) by (simp add: holds_slot_def)
    show ?thesis
    proof (cases x)
      case None
      with False deq keep show ?thesis by (subst pump_loop.simps) simp
    next
      case (Some i)
      obtain a s1 where act: "activate_checked now starts i (s\<lparr>sw_fifo := f\<rparr>) = (a, s1)" by fastforce
      have "holds_slot h j q s1" using activate_keeps_slot [OF keep, of now starts i] by (simp add: act)
      then show ?thesis
        using 1(1) [OF False deq [symmetric] Some act [symmetric] refl] 1(2) [OF False deq [symmetric] Some act [symmetric] refl]
          False deq Some act
        by (subst pump_loop.simps) auto
    qed
  qed
qed

lemma pump_keeps_slot: "holds_slot h j q s \<Longrightarrow> holds_slot h j q (pump_lane now starts g s)"
  by (auto simp: pump_lane_def pump_loop_keeps_slot split: option.split)

lemma upsert_keeps_slot: "holds_slot g j q s \<Longrightarrow> holds_slot g j q (s\<lparr>sw_reg := upsert_run_sync u (sw_reg s)\<rparr>)"
  by (simp add: holds_slot_def)

lemma complete_keeps_slot:
  assumes keep: "holds_slot g j q s" and other: "i \<noteq> j"
  shows "holds_slot g j q (snd (complete_swarm_run cfg now starts i oc result s))"
proof (cases "mem_get i (sw_reg s)")
  case None
  with keep show ?thesis by (simp add: complete_swarm_run_def)
next
  case (Some r)
  have reg: "registry_inv (sw_reg s)" using keep by (simp add: holds_slot_def)
  obtain u t where run: "complete_run cfg now i oc result None (sw_reg s) = (Some u, t)"
    using Some by (cases "ex_status (r_execution r) = EX_TERMINAL") (simp_all add: complete_run_def Let_def)
  have id: "r_run_id u = i" by (rule complete_run_finishes(2) [OF reg run])
  have "holds_slot g j q (s\<lparr>sw_reg := t\<rparr>)"
  proof (cases "ex_status (r_execution r) = EX_TERMINAL")
    case True
    then have "t = sw_reg s" using run Some by (simp add: complete_run_def)
    with keep show ?thesis by simp
  next
    case False
    then have t: "t = upsert_run_sync u (set_run u (sw_reg s))" using run Some by (auto simp: complete_run_def Let_def)
    have "holds_slot g j q (s\<lparr>sw_reg := set_run u (sw_reg s)\<rparr>)"
      by (rule store_keeps_slot(2) [OF keep]) (simp add: id other)
    from upsert_keeps_slot [OF this, of u] show ?thesis by (simp add: t)
  qed
  from store_keeps_slot(2) [OF this] have stored: "holds_slot g j q (s\<lparr>sw_reg := set_run v t\<rparr>)" if "r_run_id v = i" for v
    using that other by fastforce
  define v where "v = u\<lparr>r_swarm_run_state :=
      Some (swarm_state_value (if oc_status oc = OC_OK then SW_COMPLETED else SW_FAILED))\<rparr>"
  have eq: "snd (complete_swarm_run cfg now starts i oc result s) =
      (case or_text (r_swarm_group_id r) None of
         None \<Rightarrow> s\<lparr>sw_reg := set_run v t\<rparr> | Some h \<Rightarrow> pump_lane now starts h (s\<lparr>sw_reg := set_run v t\<rparr>))"
    unfolding v_def using Some run by (simp add: complete_swarm_run_def Let_def)
  have "holds_slot g j q (s\<lparr>sw_reg := set_run v t\<rparr>)" by (rule stored) (simp add: v_def id)
  then show ?thesis unfolding eq using pump_keeps_slot by (simp split: option.split)
qed

definition complete_all ::
    "subagent_config \<Rightarrow> time \<Rightarrow> (text_id \<Rightarrow> bool) \<Rightarrow> (text_id \<times> run_outcome \<times> string option) list \<Rightarrow> swarm \<Rightarrow> swarm" where
  "complete_all cfg now starts cs s =
    fold (\<lambda>(i, oc, result) s. snd (complete_swarm_run cfg now starts i oc result s)) cs s"

lemma complete_all_keeps_slot:
  "holds_slot g j q s \<Longrightarrow> j \<notin> fst ` set cs \<Longrightarrow> holds_slot g j q (complete_all cfg now starts cs s)"
  by (induction cs arbitrary: s) (auto simp: complete_all_def complete_keeps_slot split: prod.split)

lemma mem_update_get:
  "mem_get j (snd (mem_update i f s)) = (if j = i then map_option f (mem_get i s) else mem_get j s)"
  by (simp add: mem_update_def mem_get_def split: option.split)

lemma list_all_set: "list_all P d \<Longrightarrow> P (k, v) \<Longrightarrow> list_all P (dict_set k v d)"
  by (induction d) auto

lemma mem_update_inv:
  assumes "registry_inv s" and "\<And>r. r_run_id (f r) = r_run_id r"
  shows "registry_inv (snd (mem_update i f s))"
proof (cases "mem_get i s")
  case None
  with assms(1) show ?thesis by (simp add: mem_update_def)
next
  case (Some r)
  have "r_run_id (f r) = i" using assms(2) mem_get_id [OF assms(1) Some] by simp
  with assms(1) Some show ?thesis by (simp add: mem_update_def registry_inv_def list_all_set)
qed

text \<open>A reservation that fits is active at once and disturbs no live run.\<close>

lemma reserve_takes_slot:
  assumes inv: "swarm_inv s"
    and fresh: "mem_get i (sw_reg s) = None" "\<And>h. i \<notin> set (fifo_list h (sw_fifo s))"
    and c: "get_group_config g s = Some c" "fifo_list g (sw_fifo s) = []"
    and fits: "int (count_active_swarm_runs g (sw_reg s)) < gc_max_concurrent c"
      "int (count_swarm_runs_by_group g (sw_reg s)) < gc_max_children_per_group c" "gc_max_total_per_group c \<le> 0"
  shows "\<exists>v s2. reserve_swarm_run cfg now (\<lambda>_. True) i u g task requester task_name agent_id depth None s = (Some v, s2) \<and>
    swarm_inv s2 \<and> active_in g s2 i \<and> in_state SW_RESERVED v \<and>
    (\<forall>j q. j \<noteq> i \<longrightarrow> mem_get j (sw_reg s) = Some q \<longrightarrow> \<not> is_terminal q \<longrightarrow> mem_get j (sw_reg s2) = Some q)"
proof -
  obtain p t where run: "register_run cfg i (swarm_request u g task requester task_name agent_id depth) (sw_reg s) = (p, t)"
    by fastforce
  define v where "v = p\<lparr>r_swarm_group_id := Some g, r_swarm_run_state := Some (swarm_state_value SW_RESERVED),
    r_launch_fingerprint := None\<rparr>"
  define s1 where "s1 = s\<lparr>sw_reg := set_run v t, sw_fifo := snd (fifo_enqueue g i (sw_fifo s))\<rparr>"
  note new = register_run_swarm [OF swarm_invD(1) [OF inv] fresh(1) run]
  have v: "r_run_id v = i" "r_swarm_group_id v = Some g" "in_state SW_RESERVED v" "\<not> is_terminal v"
    using new(2,4) by (simp_all add: v_def in_state_def is_terminal_def)
  have inv1: "swarm_inv s1" unfolding s1_def by (rule add_reserved [OF inv fresh run v])
  have q1: "fifo_list g (sw_fifo s1) = [i]" using c(2) by (simp add: s1_def fifo_enqueue_def Let_def)
  have getv: "mem_get i (sw_reg s1) = Some v" using set_run_get_live [OF new(1) v(4)] by (simp add: s1_def v(1))
  have ready: "ready_in g s1 j" if "j \<in> set [i]" for j using that getv v by (auto simp: ready_in_def)
  have cnt: "count_active_swarm_runs g (sw_reg s1) = count_active_swarm_runs g (sw_reg s)"
    using active_set_run [OF new(1), of g v] new(6) [of g] reserved_not_counted [OF v(3), of g] new(5) [of g] new(7)
    by (simp add: s1_def counted_def v(1))
  have c1: "get_group_config g s1 = Some c" using c(1) by (simp add: s1_def get_group_config_def)
  define b where "b = gc_max_concurrent c - int (count_active_swarm_runs g (sw_reg s1))"
  have b: "take (nat b) [i] = [i]" using fits(1) by (simp add: b_def cnt)
  define s2 where "s2 = pump_lane now (\<lambda>_. True) g s1"
  have s2: "s2 = pump_loop now (\<lambda>_. True) g (gc_max_concurrent c) b s1" by (simp add: s2_def pump_lane_def c1 b_def)
  have act: "active_in g s2 i"
    and kept: "\<And>j q. j \<noteq> i \<Longrightarrow> mem_get j (sw_reg s1) = Some q \<Longrightarrow> \<not> is_terminal q \<Longrightarrow> mem_get j (sw_reg s2) = Some q"
    using pump_in_order [OF q1 _ swarm_invD(1) [OF inv1] _ ready, of now "gc_max_concurrent c" b] c1 b
    by (simp_all add: s2 Let_def)
  have inv2: "swarm_inv s2" using pump_lane_inv [OF inv1] by (simp add: s2_def)
  have "mem_get j (sw_reg s2) = Some q"
    if "j \<noteq> i" "mem_get j (sw_reg s) = Some q" "\<not> is_terminal q" for j q
    using that kept [of j q] new(9) [of j q] set_run_get_other [OF new(1), of j q v] by (simp add: s1_def v(1))
  moreover have "reserve_swarm_run cfg now (\<lambda>_. True) i u g task requester task_name agent_id depth None s = (Some v, s2)"
    using c(1) fits(2,3) run
    by (simp add: reserve_swarm_run_def or_text_def Let_def v_def s1_def s2_def)
  ultimately show ?thesis using inv2 act v(3) by blast
qed

subsection \<open>A concrete group\<close>

definition demo_group :: group_config where
  "demo_group = (default_group ''g'')\<lparr>gc_max_concurrent := 1\<rparr>"

definition demo_swarm :: swarm where
  "demo_swarm = configure_swarm_group demo_group (empty_swarm 100)"

definition demo_reserve :: "text_id \<Rightarrow> swarm \<Rightarrow> swarm" where
  "demo_reserve i s = snd (reserve_swarm_run default_config 5 (\<lambda>_. True) i i ''g'' ''work'' ''main'' None ''main'' 1 None s)"

definition demo_real :: run where
  "demo_real = fst (register_run default_config ''r'' (default_request ''agent:main:subagent:c'' ''main'' ''work'')
     (sw_reg demo_swarm))"

definition demo_spawned :: swarm where
  "demo_spawned = demo_swarm\<lparr>sw_reg := snd (register_run default_config ''r''
     (default_request ''agent:main:subagent:c'' ''main'' ''work'') (sw_reg demo_swarm))\<rparr>"

lemma demo_swarm_steps: "swarm_step\<^sup>*\<^sup>* (empty_swarm 100) (demo_reserve ''b'' (demo_reserve ''a'' demo_swarm))"
proof -
  have "swarm_step (empty_swarm 100) demo_swarm" unfolding demo_swarm_def
    by (rule SW_Configure) (simp add: room_def get_group_config_def empty_swarm_def)
  moreover have "swarm_step demo_swarm (demo_reserve ''a'' demo_swarm)" unfolding demo_reserve_def
    by (rule SW_Reserve) (simp_all add: demo_swarm_def configure_swarm_group_def empty_swarm_def empty_registry_def
        mem_get_def fifo_list_def)
  moreover have "swarm_step (demo_reserve ''a'' demo_swarm) (demo_reserve ''b'' (demo_reserve ''a'' demo_swarm))"
    unfolding demo_reserve_def [of "''b''"]
  proof (rule SW_Reserve)
    show "mem_get ''b'' (sw_reg (demo_reserve ''a'' demo_swarm)) = None" by code_simp
    have "sw_fifo (demo_reserve ''a'' demo_swarm) = [(''g'', [])]" by code_simp
    then show "''b'' \<notin> set (fifo_list h (sw_fifo (demo_reserve ''a'' demo_swarm)))" for h by (simp add: fifo_list_def)
  qed
  ultimately show ?thesis by (meson converse_rtranclp_into_rtranclp r_into_rtranclp)
qed

subsection \<open>Properties\<close>



text \<open>A pump serves its group's queue in order of arrival: when the queued runs are reserved and
  live and their starts succeed, it activates exactly the first ones that fit under the group's
  limit, takes them off the queue, and leaves every other live run as it was.\<close>

theorem pump_serves_in_order:
  fixes now :: time
  assumes "swarm_inv s" and "get_group_config g s = Some c" and "distinct (fifo_list g (sw_fifo s))"
    and "\<And>i. i \<in> set (fifo_list g (sw_fifo s)) \<Longrightarrow> ready_in g s i"
  defines "n \<equiv> nat (gc_max_concurrent c - int (count_active_swarm_runs g (sw_reg s)))"
    and "s' \<equiv> pump_lane now (\<lambda>_. True) g s"
  shows "fifo_list g (sw_fifo s') = drop n (fifo_list g (sw_fifo s)) \<and>
    (\<forall>i \<in> set (take n (fifo_list g (sw_fifo s))). active_in g s' i) \<and>
    (\<forall>i q. i \<notin> set (take n (fifo_list g (sw_fifo s))) \<longrightarrow> mem_get i (sw_reg s) = Some q \<longrightarrow> \<not> is_terminal q \<longrightarrow>
       mem_get i (sw_reg s') = Some q)"
  using pump_in_order [OF refl assms(3) swarm_invD(1) [OF assms(1)] _ assms(4),
      of now "gc_max_concurrent c" "gc_max_concurrent c - int (count_active_swarm_runs g (sw_reg s))"]
  unfolding n_def s'_def pump_lane_def by (simp add: assms(2) Let_def)

definition demo_waiting :: swarm where
  "demo_waiting = configure_swarm_group (default_group ''g'') (demo_reserve ''c'' (demo_reserve ''b'' (demo_reserve ''a'' demo_swarm)))"

theorem pump_serves_in_order_witness:
  "fifo_list ''g'' (sw_fifo (pump_lane 9 (\<lambda>_. True) ''g'' demo_waiting)) = [] \<and>
   fifo_list ''g'' (sw_fifo demo_waiting) = [''b'', ''c'']"
proof -
  let ?s = "demo_reserve ''b'' (demo_reserve ''a'' demo_swarm)"
  have inv: "swarm_inv ?s"
    using swarm_system.reachable_inv [OF _ demo_swarm_steps] by blast
  have queue: "fifo_list ''g'' (sw_fifo demo_waiting) = [''b'', ''c'']" by code_simp
  have f: "mem_get ''c'' (sw_reg ?s) = None" "sw_fifo ?s = [(''g'', [''b''])]" by code_simp+
  have "swarm_inv (demo_reserve ''c'' ?s)" unfolding demo_reserve_def [of "''c''"]
    by (rule swarm_step_inv [OF inv SW_Reserve]) (auto simp: f fifo_list_def)
  moreover have "room (demo_reserve ''c'' ?s) ''g'' \<le> 3" by code_simp
  ultimately have inv': "swarm_inv demo_waiting"
    unfolding demo_waiting_def by (intro configure_inv) (simp_all add: default_group_def)
  have c: "get_group_config ''g'' demo_waiting = Some (default_group ''g'')" by code_simp
  have "ready_in ''g'' demo_waiting ''b''" "ready_in ''g'' demo_waiting ''c''" unfolding ready_in_iff by code_simp+
  then have ready: "ready_in ''g'' demo_waiting i" if "i \<in> set (fifo_list ''g'' (sw_fifo demo_waiting))" for i
    using that by (auto simp: queue)
  have n: "nat (gc_max_concurrent (default_group ''g'') - int (count_active_swarm_runs ''g'' (sw_reg demo_waiting))) = 2"
    by code_simp
  show ?thesis
    using pump_serves_in_order [OF inv' c _ ready, of 9] queue n by simp
qed

text \<open>A spawn into a group takes a slot that is never given back: the reservation registers a run
  of its own besides the spawned one and activates it, the spawned run is only stamped with the
  group, and both count as members. Whatever runs complete afterwards, as long as the reservation's
  own run is not among them (nothing executes it), it stays active and keeps its slot.\<close>

theorem swarm_spawn_leaks_slot:
  assumes inv: "swarm_inv s" and real: "mem_get (r_run_id r) (sw_reg s) = Some r" "\<not> is_terminal r"
    and fresh: "mem_get i (sw_reg s) = None" "\<And>h. i \<notin> set (fifo_list h (sw_fifo s))"
    and c: "get_group_config g s = Some c" "g \<noteq> []" "fifo_list g (sw_fifo s) = []"
    and fits: "int (count_active_swarm_runs g (sw_reg s)) < gc_max_concurrent c"
      "int (count_swarm_runs_by_group g (sw_reg s)) < gc_max_children_per_group c" "gc_max_total_per_group c \<le> 0"
    and spawn: "reserve_swarm_group cfg now (\<lambda>_. True) i u r (Some g) task requester task_name None s = (x, s')"
    and others: "i \<notin> fst ` set cs"
  shows "r_run_id x = r_run_id r \<and> r_run_id x \<noteq> i \<and> r_swarm_group_id x = Some g \<and> in_state SW_RESERVED x \<and>
    mem_get (r_run_id x) (sw_reg s') = Some x \<and> active_in g s' i \<and>
    active_in g (complete_all cfg later starts cs s') i"
proof -
  have ne: "i \<noteq> r_run_id r" using real(1) fresh(1) by auto
  obtain v s2 where reserve: "reserve_swarm_run cfg now (\<lambda>_. True) i u g task requester task_name ''main'' 1 None s = (Some v, s2)"
    and inv2: "swarm_inv s2" and act: "active_in g s2 i" and v: "in_state SW_RESERVED v"
    and kept: "\<And>j q. j \<noteq> i \<Longrightarrow> mem_get j (sw_reg s) = Some q \<Longrightarrow> \<not> is_terminal q \<Longrightarrow> mem_get j (sw_reg s2) = Some q"
    using reserve_takes_slot [OF inv fresh c(1,3) fits] by blast
  have getr: "mem_get (r_run_id r) (sw_reg s2) = Some r" using kept [OF _ real] ne by simp
  define f where "f = (\<lambda>x :: run. x\<lparr>r_swarm_group_id := Some g, r_swarm_run_state := r_swarm_run_state v\<rparr>)"
  have or: "or_text (Some g) None = Some g" using c(2) by (simp add: or_text_def)
  have x: "x = f r" and s': "s' = s2\<lparr>sw_reg := snd (mem_update (r_run_id r) f (sw_reg s2))\<rparr>"
    using spawn c(1) getr reserve unfolding reserve_swarm_group_def or f_def by (simp_all add: Let_def mem_update_get)
  have fid: "r_run_id (f q) = r_run_id q" for q by (simp add: f_def)
  have getx: "mem_get (r_run_id r) (sw_reg s') = Some x" by (simp add: s' mem_update_get getr x)
  have act': "active_in g s' i" using act ne by (simp add: active_in_def s' mem_update_get)
  then obtain q where "holds_slot g i q s'"
    using mem_update_inv [OF swarm_invD(1) [OF inv2] fid] by (auto simp: active_in_def holds_slot_def s')
  from complete_all_keeps_slot [OF this others] have "active_in g (complete_all cfg later starts cs s') i"
    by (auto simp: holds_slot_def active_in_def)
  with getx act' ne v show ?thesis by (simp add: x f_def in_state_def)
qed

theorem swarm_spawn_leaks_slot_witness:
  "active_in ''g'' (complete_all default_config 9 (\<lambda>_. True) [(''r'', \<lparr>oc_status = OC_OK, oc_error = None\<rparr>, None)]
     (snd (reserve_swarm_group default_config 6 (\<lambda>_. True) ''s'' ''u'' demo_real (Some ''g'') ''work'' ''main'' None None
        demo_spawned))) ''s''"
proof -
  have inv: "swarm_inv demo_spawned"
  proof -
    have d: "sw_reg demo_swarm = empty_registry 100" "sw_fifo demo_swarm = []"
      by (simp_all add: demo_swarm_def configure_swarm_group_def empty_swarm_def)
    have "swarm_inv demo_swarm" unfolding demo_swarm_def
      by (rule configure_inv [OF empty_swarm_inv]) (simp add: room_def get_group_config_def empty_swarm_def)
    then show ?thesis unfolding demo_spawned_def
      by (rule register_inv) (simp_all add: d mem_get_def empty_registry_def fifo_list_def)
  qed
  have real: "mem_get (r_run_id demo_real) (sw_reg demo_spawned) = Some demo_real" "\<not> is_terminal demo_real"
    by code_simp+
  have fresh: "mem_get ''s'' (sw_reg demo_spawned) = None" "sw_fifo demo_spawned = []" by code_simp+
  then have queue: "''s'' \<notin> set (fifo_list h (sw_fifo demo_spawned))" for h by (simp add: fifo_list_def)
  have c: "get_group_config ''g'' demo_spawned = Some demo_group" by code_simp
  have fits: "int (count_active_swarm_runs ''g'' (sw_reg demo_spawned)) < gc_max_concurrent demo_group"
    "int (count_swarm_runs_by_group ''g'' (sw_reg demo_spawned)) < gc_max_children_per_group demo_group"
    "gc_max_total_per_group demo_group \<le> 0" by code_simp+
  obtain x s' where spawn: "reserve_swarm_group default_config 6 (\<lambda>_. True) ''s'' ''u'' demo_real (Some ''g'') ''work''
      ''main'' None None demo_spawned = (x, s')" by fastforce
  have "''s'' \<notin> fst ` set [(''r'', \<lparr>oc_status = OC_OK, oc_error = None\<rparr>, None)]" by simp
  from swarm_spawn_leaks_slot [OF inv real fresh(1) queue c _ _ fits spawn this] show ?thesis
    by (simp add: spawn fresh(2) fifo_list_def)
qed

end
