(* ===== verification/Structured_Output.thy ===== *)
theory Structured_Output
  imports Py_Text
begin

section \<open>Structured output of sub-agents\<close>

text \<open>
  Models \<^verbatim>\<open>validate_structured_output\<close> and \<^verbatim>\<open>_validate_value_against_schema\<close> of
  \<^verbatim>\<open>src/agent/tools/subagent/swarm/collector.py\<close>: the subset of JSON Schema against which a
  sub-agent's result is checked. The regular expressions of \<^verbatim>\<open>patternProperties\<close> are a parameter:
  \<open>rx pat\<close> is the search function of the compiled pattern, \<^const>\<open>None\<close> when it does not compile. So
  is the JSON parser. A schema of the wrong shape makes Python raise; that is a result of its own.
\<close>

datatype schema_error =
  Expected string string json
| Missing_Field string json
| Extra_Fields string "string list"

datatype schema_result = Accepts | Rejects schema_error | Raises

definition and_then :: "schema_result \<Rightarrow> schema_result \<Rightarrow> schema_result" where
  "and_then a b = (if a = Accepts then b else a)"

text \<open>A loop that returns at the first element that is not accepted.\<close>

fun first_bad :: "('a \<Rightarrow> schema_result) \<Rightarrow> 'a list \<Rightarrow> schema_result" where
  "first_bad f [] = Accepts"
| "first_bad f (x # xs) = and_then (f x) (first_bad f xs)"

lemma first_bad_cong [fundef_cong]:
  "xs = ys \<Longrightarrow> (\<And>x. x \<in> set ys \<Longrightarrow> f x = g x) \<Longrightarrow> first_bad f xs = first_bad g ys"
  by (induction xs arbitrary: ys) auto

lemma and_then_Accepts [simp]: "and_then a b = Accepts \<longleftrightarrow> a = Accepts \<and> b = Accepts"
  by (simp add: and_then_def)

lemma first_bad_Accepts [simp]: "first_bad f xs = Accepts \<longleftrightarrow> (\<forall>x \<in> set xs. f x = Accepts)"
  by (induction xs) auto

text \<open>\<^verbatim>\<open>schema.get(key, default)\<close>, and iterating over a JSON value.\<close>

definition get_or :: "string \<Rightarrow> json \<Rightarrow> (string \<times> json) list \<Rightarrow> json" where
  "get_or k v d = (case dict_get d k of None \<Rightarrow> v | Some w \<Rightarrow> w)"

fun py_iter :: "json \<Rightarrow> json list option" where
  "py_iter (JList xs) = Some xs"
| "py_iter (JStr s) = Some (map (\<lambda>c. JStr [c]) s)"
| "py_iter (JDict d) = Some (map (\<lambda>p. JStr (fst p)) d)"
| "py_iter _ = None"

text \<open>\<^verbatim>\<open>name not in value\<close> of a dictionary; a list or a dictionary is not hashable.\<close>

definition check_field :: "string \<Rightarrow> (string \<times> json) list \<Rightarrow> json \<Rightarrow> schema_result" where
  "check_field path d name =
    (case name of
       JStr k \<Rightarrow> if dict_get d k = None then Rejects (Missing_Field path name) else Accepts
     | JList _ \<Rightarrow> Raises
     | JDict _ \<Rightarrow> Raises
     | _ \<Rightarrow> Rejects (Missing_Field path name))"

definition check_extra :: "string \<Rightarrow> json \<Rightarrow> (string \<times> json) list \<Rightarrow> (string \<times> json) list \<Rightarrow> schema_result" where
  "check_extra path additional props d =
    (if additional = JBool False
     then (case filter (\<lambda>k. k \<notin> fst ` set props) (map fst d) of
             [] \<Rightarrow> Accepts
           | ks \<Rightarrow> Rejects (Extra_Fields path ks))
     else Accepts)"

text \<open>\<^verbatim>\<open>isinstance(value, python_type)\<close>; \<^verbatim>\<open>bool\<close> is a subclass of \<^verbatim>\<open>int\<close>.\<close>

definition SCALAR_TYPES :: "string list" where
  "SCALAR_TYPES = [''string'', ''number'', ''integer'', ''boolean'']"

definition is_scalar :: "string \<Rightarrow> json \<Rightarrow> bool" where
  "is_scalar ty v =
    (case v of
       JStr _ \<Rightarrow> ty = ''string''
     | JInt _ \<Rightarrow> ty \<in> {''number'', ''integer''}
     | JFloat _ \<Rightarrow> ty = ''number''
     | JBool _ \<Rightarrow> ty \<in> {''number'', ''integer'', ''boolean''}
     | _ \<Rightarrow> False)"

definition check_scalar :: "string \<Rightarrow> json \<Rightarrow> json \<Rightarrow> schema_result" where
  "check_scalar path ty v =
    (case ty of
       JStr t \<Rightarrow> if t \<in> set SCALAR_TYPES \<and> \<not> is_scalar t v then Rejects (Expected path t v) else Accepts
     | _ \<Rightarrow> Accepts)"

definition object_schema :: "(string \<times> json) list \<Rightarrow> bool" where
  "object_schema sc = (jget ''type'' sc = JStr ''object'' \<or> dict_get sc ''properties'' \<noteq> None)"

lemma size_entry: "(k, w) \<in> set d \<Longrightarrow> size w < size (JDict d)"
  by (induction d) auto

lemma size_item: "x \<in> set xs \<Longrightarrow> size x < size (JList xs)"
  by (induction xs) auto

function validate_value :: "(string \<Rightarrow> (string \<Rightarrow> bool) option) \<Rightarrow> json \<Rightarrow> json \<Rightarrow> string \<Rightarrow> schema_result" where
  "validate_value rx v schema path =
    (case schema of
       JDict sc \<Rightarrow>
         if object_schema sc
         then (case v of
                 JDict d \<Rightarrow>
                   (case py_iter (get_or ''required'' (JList []) sc) of
                      None \<Rightarrow> Raises
                    | Some names \<Rightarrow>
                        and_then (first_bad (check_field path d) names)
                          (case get_or ''properties'' (JDict []) sc of
                             JDict props \<Rightarrow>
                               and_then
                                 (first_bad (\<lambda>(k, s). case dict_get d k of
                                      None \<Rightarrow> Accepts
                                    | Some w \<Rightarrow> validate_value rx w s (path @ ''.'' @ k)) props)
                                 (and_then (check_extra path (jget ''additionalProperties'' sc) props d)
                                   (case get_or ''patternProperties'' (JDict []) sc of
                                      JDict pats \<Rightarrow>
                                        first_bad (\<lambda>(p, s). case rx p of
                                            None \<Rightarrow> Accepts
                                          | Some f \<Rightarrow>
                                              first_bad (\<lambda>(k, w). if f k then validate_value rx w s (path @ ''.'' @ k)
                                                                    else Accepts) d) pats
                                    | _ \<Rightarrow> Raises))
                           | _ \<Rightarrow> Raises))
               | _ \<Rightarrow> Rejects (Expected path ''object'' v))
         else if jget ''type'' sc = JStr ''array''
         then (case v of
                 JList xs \<Rightarrow>
                   if truthy (jget ''items'' sc)
                   then first_bad (\<lambda>(i, x). validate_value rx x (jget ''items'' sc) (path @ ''['' @ show_nat i @ '']''))
                          (enumerate 0 xs)
                   else Accepts
               | _ \<Rightarrow> Rejects (Expected path ''array'' v))
         else check_scalar path (jget ''type'' sc) v
     | _ \<Rightarrow> Accepts)"
  by pat_completeness auto

termination validate_value
proof (relation "measure (\<lambda>(rx, v, schema, path). size v)")
qed (auto intro: size_entry size_item [OF nth_mem] dest!: map_of_SomeD in_set_enumerate_eq [THEN iffD1]
    simp del: json.size)

declare validate_value.simps [simp del]

text \<open>\<^verbatim>\<open>validate_structured_output\<close>; \<open>loads\<close> is the JSON parser.\<close>

datatype output_check = Conforms | Not_Json | Schema_Error schema_error | Check_Raises

definition validate_structured_output ::
    "(string \<Rightarrow> (string \<Rightarrow> bool) option) \<Rightarrow> (string \<Rightarrow> json option) \<Rightarrow> string option \<Rightarrow> json option \<Rightarrow> output_check" where
  "validate_structured_output rx loads result schema =
    (case (schema, result) of
       (Some s, Some r) \<Rightarrow>
         (case loads r of
            None \<Rightarrow> Not_Json
          | Some v \<Rightarrow>
              (case validate_value rx v s ''root'' of
                 Accepts \<Rightarrow> Conforms
               | Rejects e \<Rightarrow> Schema_Error e
               | Raises \<Rightarrow> Check_Raises))
     | _ \<Rightarrow> Conforms)"

subsection \<open>What conforming means\<close>

text \<open>
  The declarative reading of the schema subset, without paths, order of tests or error values.
\<close>

definition has_field :: "(string \<times> json) list \<Rightarrow> json \<Rightarrow> bool" where
  "has_field d name \<longleftrightarrow> (\<exists>k w. name = JStr k \<and> dict_get d k = Some w)"

inductive fits :: "(string \<Rightarrow> (string \<Rightarrow> bool) option) \<Rightarrow> json \<Rightarrow> json \<Rightarrow> bool" for rx where
  fits_any: "\<not> is_jdict schema \<Longrightarrow> fits rx v schema"
| fits_object: "object_schema sc \<Longrightarrow>
    py_iter (get_or ''required'' (JList []) sc) = Some names \<Longrightarrow> (\<forall>n \<in> set names. has_field d n) \<Longrightarrow>
    get_or ''properties'' (JDict []) sc = JDict props \<Longrightarrow>
    (\<forall>k s w. (k, s) \<in> set props \<longrightarrow> dict_get d k = Some w \<longrightarrow> fits rx w s) \<Longrightarrow>
    (jget ''additionalProperties'' sc = JBool False \<longrightarrow> fst ` set d \<subseteq> fst ` set props) \<Longrightarrow>
    get_or ''patternProperties'' (JDict []) sc = JDict pats \<Longrightarrow>
    (\<forall>p s f k w. (p, s) \<in> set pats \<longrightarrow> rx p = Some f \<longrightarrow> (k, w) \<in> set d \<longrightarrow> f k \<longrightarrow> fits rx w s) \<Longrightarrow>
    fits rx (JDict d) (JDict sc)"
| fits_array: "\<not> object_schema sc \<Longrightarrow> jget ''type'' sc = JStr ''array'' \<Longrightarrow>
    (\<forall>x. x \<in> set xs \<longrightarrow> truthy (jget ''items'' sc) \<longrightarrow> fits rx x (jget ''items'' sc)) \<Longrightarrow>
    fits rx (JList xs) (JDict sc)"
| fits_scalar: "\<not> object_schema sc \<Longrightarrow> jget ''type'' sc = JStr t \<Longrightarrow> t \<in> set SCALAR_TYPES \<Longrightarrow> is_scalar t v \<Longrightarrow>
    fits rx v (JDict sc)"
| fits_untyped: "\<not> object_schema sc \<Longrightarrow> jget ''type'' sc \<notin> JStr ` (insert ''array'' (set SCALAR_TYPES)) \<Longrightarrow>
    fits rx v (JDict sc)"

inductive_simps fits_dict: "fits rx v (JDict sc)"

lemma check_field_Accepts: "check_field path d n = Accepts \<longleftrightarrow> has_field d n"
  by (auto simp: check_field_def has_field_def split: json.split)

lemma check_extra_Accepts:
  "check_extra path a props d = Accepts \<longleftrightarrow> (a = JBool False \<longrightarrow> fst ` set d \<subseteq> fst ` set props)"
proof -
  have "filter (\<lambda>k. k \<notin> fst ` set props) (map fst d) = [] \<longleftrightarrow> fst ` set d \<subseteq> fst ` set props"
    by (auto simp: filter_empty_conv)
  then show ?thesis
    by (cases "filter (\<lambda>k. k \<notin> fst ` set props) (map fst d)") (auto simp: check_extra_def)
qed

lemma scalar_not_array: "''array'' \<notin> set SCALAR_TYPES"
  by (simp add: SCALAR_TYPES_def)

lemma validate_object:
  assumes "object_schema sc"
  shows "validate_value rx (JDict d) (JDict sc) path = Accepts \<longleftrightarrow>
    (\<exists>names props pats. py_iter (get_or ''required'' (JList []) sc) = Some names \<and> (\<forall>n \<in> set names. has_field d n) \<and>
       get_or ''properties'' (JDict []) sc = JDict props \<and>
       (\<forall>(k, s) \<in> set props. \<forall>w. dict_get d k = Some w \<longrightarrow> validate_value rx w s (path @ ''.'' @ k) = Accepts) \<and>
       (jget ''additionalProperties'' sc = JBool False \<longrightarrow> fst ` set d \<subseteq> fst ` set props) \<and>
       get_or ''patternProperties'' (JDict []) sc = JDict pats \<and>
       (\<forall>(p, s) \<in> set pats. \<forall>f. rx p = Some f \<longrightarrow>
          (\<forall>(k, w) \<in> set d. f k \<longrightarrow> validate_value rx w s (path @ ''.'' @ k) = Accepts)))"
proof (cases "py_iter (get_or ''required'' (JList []) sc)")
  case None
  then show ?thesis by (subst validate_value.simps) (simp add: assms)
next
  case req: (Some names)
  show ?thesis
  proof (cases "is_jdict (get_or ''properties'' (JDict []) sc)")
    case False
    then show ?thesis
      by (subst validate_value.simps)
        (cases "get_or ''properties'' (JDict []) sc"; simp add: assms req)
  next
    case True
    then obtain props where props: "get_or ''properties'' (JDict []) sc = JDict props"
      by (cases "get_or ''properties'' (JDict []) sc") auto
    have p: "(\<forall>x \<in> set props. (case x of (k, s) \<Rightarrow> case dict_get d k of None \<Rightarrow> Accepts
          | Some w \<Rightarrow> validate_value rx w s (path @ ''.'' @ k)) = Accepts) \<longleftrightarrow>
        (\<forall>(k, s) \<in> set props. \<forall>w. dict_get d k = Some w \<longrightarrow> validate_value rx w s (path @ ''.'' @ k) = Accepts)"
      by (intro ball_cong refl) (auto split: option.split)
    show ?thesis
    proof (cases "is_jdict (get_or ''patternProperties'' (JDict []) sc)")
      case False
      then show ?thesis
        by (subst validate_value.simps)
          (cases "get_or ''patternProperties'' (JDict []) sc"; simp add: assms req props)
    next
      case True
      then obtain pats where pats: "get_or ''patternProperties'' (JDict []) sc = JDict pats"
        by (cases "get_or ''patternProperties'' (JDict []) sc") auto
      have q: "(\<forall>x \<in> set pats. (case x of (p, s) \<Rightarrow> case rx p of None \<Rightarrow> Accepts
            | Some f \<Rightarrow> first_bad (\<lambda>(k, w). if f k then validate_value rx w s (path @ ''.'' @ k) else Accepts) d) = Accepts) \<longleftrightarrow>
          (\<forall>(p, s) \<in> set pats. \<forall>f. rx p = Some f \<longrightarrow>
             (\<forall>(k, w) \<in> set d. f k \<longrightarrow> validate_value rx w s (path @ ''.'' @ k) = Accepts))"
        by (intro ball_cong refl) (fastforce split: option.split prod.split if_splits)
      have "validate_value rx (JDict d) (JDict sc) path =
          and_then (first_bad (check_field path d) names)
            (and_then (first_bad (\<lambda>(k, s). case dict_get d k of None \<Rightarrow> Accepts
                | Some w \<Rightarrow> validate_value rx w s (path @ ''.'' @ k)) props)
              (and_then (check_extra path (jget ''additionalProperties'' sc) props d)
                (first_bad (\<lambda>(p, s). case rx p of None \<Rightarrow> Accepts
                  | Some f \<Rightarrow> first_bad (\<lambda>(k, w). if f k then validate_value rx w s (path @ ''.'' @ k)
                                                else Accepts) d) pats)))"
        by (subst validate_value.simps) (simp only: json.case assms if_True req option.case props pats)
      then show ?thesis
        by (simp only: and_then_Accepts first_bad_Accepts p q check_field_Accepts check_extra_Accepts)
          (simp add: req props pats)
    qed
  qed
qed

lemma validate_iff: "validate_value rx v schema path = Accepts \<longleftrightarrow> fits rx v schema"
proof (induction v arbitrary: schema path rule: measure_induct_rule [where f = size])
  case (less v)
  show ?case
  proof (cases "is_jdict schema")
    case False
    then show ?thesis by (subst validate_value.simps) (auto intro: fits_any split: json.split)
  next
    case True
    then obtain sc where sc: "schema = JDict sc" by (cases schema) auto
    show ?thesis
    proof (cases "object_schema sc")
      case obj: True
      show ?thesis
      proof (cases "is_jdict v")
        case False
        then have "\<not> fits rx v schema" using obj by (auto simp: sc fits_dict)
        moreover have "validate_value rx v schema path = Rejects (Expected path ''object'' v)"
          using False obj by (subst validate_value.simps) (auto simp: sc split: json.split)
        ultimately show ?thesis by simp
      next
        case True
        then obtain d where d: "v = JDict d" by (cases v) auto
        have entry: "validate_value rx w s q = Accepts \<longleftrightarrow> fits rx w s" if "(k, w) \<in> set d" for k w s q
          by (rule less) (unfold d, rule size_entry [OF that])
        have got: "validate_value rx w s q = Accepts \<longleftrightarrow> fits rx w s" if "dict_get d k = Some w" for k w s q
          by (rule entry [OF map_of_SomeD [OF that]])
        show ?thesis
          unfolding d sc validate_object [OF obj] fits_dict using obj by (fastforce simp: entry got)
      qed
    next
      case noobj: False
      show ?thesis
      proof (cases "jget ''type'' sc = JStr ''array''")
        case arr: True
        show ?thesis
        proof (cases "is_jlist v")
          case False
          then have "\<not> fits rx v schema" using noobj arr scalar_not_array by (auto simp: sc fits_dict)
          moreover have "validate_value rx v schema path = Rejects (Expected path ''array'' v)"
            using False noobj arr by (subst validate_value.simps) (auto simp: sc split: json.split)
          ultimately show ?thesis by simp
        next
          case True
          then obtain xs where xs: "v = JList xs" by (cases v) auto
          have item: "validate_value rx x s q = Accepts \<longleftrightarrow> fits rx x s" if "x \<in> set xs" for x s q
            by (rule less) (unfold xs, rule size_item [OF that])
          have items: "(\<forall>y \<in> set (enumerate 0 xs). (case y of (i, x) \<Rightarrow>
                validate_value rx x s (path @ ''['' @ show_nat i @ '']'')) = Accepts) \<longleftrightarrow> (\<forall>x \<in> set xs. fits rx x s)" for s
          proof -
            have "(\<forall>y \<in> set (enumerate 0 xs). (case y of (i, x) \<Rightarrow>
                validate_value rx x s (path @ ''['' @ show_nat i @ '']'')) = Accepts) \<longleftrightarrow>
                (\<forall>i < length xs. validate_value rx (xs ! i) s (path @ ''['' @ show_nat i @ '']'') = Accepts)"
              by (auto simp: in_set_enumerate_eq Ball_def)
            also have "\<dots> \<longleftrightarrow> (\<forall>i < length xs. fits rx (xs ! i) s)"
              by (simp add: item)
            finally show ?thesis by (simp add: all_set_conv_all_nth)
          qed
          have "validate_value rx v schema path = Accepts \<longleftrightarrow>
              (truthy (jget ''items'' sc) \<longrightarrow> (\<forall>x \<in> set xs. fits rx x (jget ''items'' sc)))"
            using noobj arr items [of "jget ''items'' sc"]
            by (subst validate_value.simps) (simp add: sc xs)
          also have "\<dots> \<longleftrightarrow> fits rx v schema"
            using noobj arr scalar_not_array by (auto simp: sc xs fits_dict)
          finally show ?thesis .
        qed
      next
        case False
        have "validate_value rx v schema path = check_scalar path (jget ''type'' sc) v"
          using noobj False by (subst validate_value.simps) (simp add: sc)
        also have "\<dots> = Accepts \<longleftrightarrow> fits rx v schema"
          using noobj False by (auto simp: sc fits_dict check_scalar_def split: json.split)
        finally show ?thesis .
      qed
    qed
  qed
qed


text \<open>The booleans of JSON pass as numbers and as integers.\<close>

theorem bool_passes_as_number:
  "fits rx (JBool b) (JDict [(''type'', JStr t)]) \<longleftrightarrow> t \<notin> {''object'', ''array'', ''string''}"
  by (auto simp: fits_dict object_schema_def jget_def SCALAR_TYPES_def is_scalar_def)

end
