(* ===== verification/Transcript_Repair.thy ===== *)
theory Transcript_Repair
  imports Py_Text
begin

section \<open>Repair of tool-call transcripts\<close>

text \<open>
  Models \<^verbatim>\<open>src/pub/func/transcript_repair.py\<close>, the pass that every message list goes through
  before the model sees it (\<^verbatim>\<open>src/agent/middlewares/tool_call_normalize/core.py\<close>): each tool call of
  an assistant message must be followed by its result. A message is an assistant message, a tool
  result, or any other message (user, system), of which only the identity matters. The clock that
  stamps a placeholder is an argument.
\<close>

subsection \<open>Messages\<close>

record ai_message =
  ai_content :: json
  ai_tool_calls :: json
  ai_invalid_calls :: json
  ai_status :: string

record tool_message =
  tm_content :: json
  tm_call_id :: string
  tm_name :: "string option"
  tm_status :: string
  tm_kwargs :: "(string \<times> json) list"

datatype message = Ai ai_message | Tool tool_message | Other string json

record tool_call_like =
  tc_id :: string
  tc_name :: "string option"

definition nonempty_text :: "json \<Rightarrow> string option" where
  "nonempty_text v = (case v of JStr s \<Rightarrow> if s = [] then None else Some s | _ \<Rightarrow> None)"

definition extract_tool_call_id :: "(string \<times> json) list \<Rightarrow> string option" where
  "extract_tool_call_id block =
    (case nonempty_text (jget ''id'' block) of
       Some i \<Rightarrow> Some i
     | None \<Rightarrow> nonempty_text (jget ''call_id'' block))"

definition tool_call_of :: "json \<Rightarrow> tool_call_like option" where
  "tool_call_of block =
    (case block of
       JDict d \<Rightarrow>
         if d = [] then None
         else (case extract_tool_call_id d of
                 None \<Rightarrow> None
               | Some i \<Rightarrow>
                   if jget ''type'' d = JStr ''tool_call''
                   then Some \<lparr>tc_id = i, tc_name = (case jget ''name'' d of JStr n \<Rightarrow> Some n | _ \<Rightarrow> None)\<rparr>
                   else None)
     | _ \<Rightarrow> None)"

definition extract_tool_calls :: "ai_message \<Rightarrow> tool_call_like list" where
  "extract_tool_calls m =
    (case ai_tool_calls m of JList blocks \<Rightarrow> List.map_filter tool_call_of blocks | _ \<Rightarrow> [])"

definition extract_tool_result_id :: "tool_message \<Rightarrow> string option" where
  "extract_tool_result_id m = (if tm_call_id m = [] then None else Some (tm_call_id m))"

definition EMPTY_TOOL_RESULT :: string where
  "EMPTY_TOOL_RESULT = ''(no output)''"

definition MISSING_TOOL_RESULT :: string where
  "MISSING_TOOL_RESULT = ''tool result missing (not recorded; re-run the tool if you still need it).''"

definition make_missing_tool_result :: "int \<Rightarrow> tool_call_like \<Rightarrow> tool_message" where
  "make_missing_tool_result now c =
    \<lparr>tm_content = JStr MISSING_TOOL_RESULT, tm_call_id = tc_id c,
     tm_name = or_text (tc_name c) (Some ''unknown''), tm_status = ''success'',
     tm_kwargs = [(''timestamp'', JInt now), (''sherry_repair'', JStr ''missing_tool_result'')]\<rparr>"

text \<open>The first pass: an empty result is a result.\<close>

definition empty_result :: "message \<Rightarrow> bool" where
  "empty_result m = (case m of Tool t \<Rightarrow> \<not> truthy (tm_content t) | _ \<Rightarrow> False)"

definition fill_empty :: "message \<Rightarrow> message" where
  "fill_empty m =
    (case m of
       Tool t \<Rightarrow>
         if \<not> truthy (tm_content t)
         then Tool (t\<lparr>tm_content := JStr EMPTY_TOOL_RESULT,
                      tm_kwargs := dict_set ''sherry_repair'' (JStr ''empty_result'') (tm_kwargs t)\<rparr>)
         else Tool t
     | _ \<Rightarrow> m)"

subsection \<open>The main pass\<close>

definition has_invalid :: "ai_message \<Rightarrow> bool" where
  "has_invalid a = (case ai_invalid_calls a of JList xs \<Rightarrow> xs \<noteq> [] | _ \<Rightarrow> False)"

definition errored :: "ai_message \<Rightarrow> bool" where
  "errored a = (ai_status a = ''error'' \<or> has_invalid a)"

definition clear_invalid :: "ai_message \<Rightarrow> ai_message" where
  "clear_invalid a = (if has_invalid a then a\<lparr>ai_invalid_calls := JList []\<rparr> else a)"

text \<open>
  The inner scan, from an assistant message with calls to the next assistant message: the first
  result of each call, the tool results that belong to none of them, whether something was left
  out, and the rest.
\<close>

record span_scan =
  sp_results :: "(string \<times> tool_message) list"
  sp_remainder :: "tool_message list"
  sp_changed :: bool
  sp_rest :: "message list"

fun scan_span :: "string list \<Rightarrow> string list \<Rightarrow> (string \<times> tool_message) list \<Rightarrow> message list \<Rightarrow> span_scan" where
  "scan_span ids seen found [] = \<lparr>sp_results = found, sp_remainder = [], sp_changed = False, sp_rest = []\<rparr>"
| "scan_span ids seen found (Ai a # ms) =
    \<lparr>sp_results = found, sp_remainder = [], sp_changed = False, sp_rest = Ai a # ms\<rparr>"
| "scan_span ids seen found (Tool t # ms) =
    (if truthy (tm_content t) \<and> tm_call_id t \<noteq> [] \<and> tm_call_id t \<in> set ids
     then (if tm_call_id t \<in> set seen then (scan_span ids seen found ms)\<lparr>sp_changed := True\<rparr>
           else scan_span ids seen
                  (if dict_get found (tm_call_id t) = None then dict_set (tm_call_id t) t found else found) ms)
     else if tm_content t \<noteq> JStr []
     then (let s = scan_span ids seen found ms in s\<lparr>sp_remainder := t # sp_remainder s\<rparr>)
     else (scan_span ids seen found ms)\<lparr>sp_changed := True\<rparr>)"
| "scan_span ids seen found (Other k c # ms) = (scan_span ids seen found ms)\<lparr>sp_changed := True\<rparr>"

text \<open>\<^verbatim>\<open>push_tool_result\<close> for the calls of one message: the pushed results, the ids seen, and whether
  something changed.\<close>

fun push_results ::
    "int \<Rightarrow> (string \<times> tool_message) list \<Rightarrow> string list \<Rightarrow> tool_call_like list \<Rightarrow> tool_message list \<times> string list \<times> bool" where
  "push_results now found seen [] = ([], seen, False)"
| "push_results now found seen (c # cs) =
    (let t = (case dict_get found (tc_id c) of Some t \<Rightarrow> t | None \<Rightarrow> make_missing_tool_result now c);
         missing = (dict_get found (tc_id c) = None)
     in if tm_call_id t \<noteq> [] \<and> tm_call_id t \<in> set seen
        then (case push_results now found seen cs of (ts, seen', _) \<Rightarrow> (ts, seen', True))
        else (case push_results now found (if tm_call_id t = [] then seen else tm_call_id t # seen) cs of
                (ts, seen', ch) \<Rightarrow> (t # ts, seen', missing \<or> ch)))"

lemma scan_span_rest: "length (sp_rest (scan_span ids seen found ms)) \<le> length ms"
proof (induction ids seen found ms rule: scan_span.induct)
  case (3 ids seen found t ms)
  then show ?case by (cases "tm_call_id t \<in> set seen") (auto simp: Let_def)
qed auto

text \<open>The loop over the messages; the result is what it appends to \<^verbatim>\<open>out\<close> and the changed flag.\<close>

function repair_from :: "int \<Rightarrow> string list \<Rightarrow> message list \<Rightarrow> message list \<times> bool" where
  "repair_from now seen [] = ([], False)"
| "repair_from now seen (Other k c # ms) =
    (case repair_from now seen ms of (out, ch) \<Rightarrow> (Other k c # out, ch))"
| "repair_from now seen (Tool t # ms) =
    (case repair_from now seen ms of (out, ch) \<Rightarrow>
       if truthy (tm_content t) then (Tool t # out, ch) else (out, True))"
| "repair_from now seen (Ai a # ms) =
    (if errored a
     then (case repair_from now seen ms of (out, ch) \<Rightarrow> (Ai (clear_invalid a) # out, has_invalid a \<or> ch))
     else
       (let calls = extract_tool_calls a
        in if calls = []
           then (case repair_from now seen ms of (out, ch) \<Rightarrow> (Ai a # out, ch))
           else
             (let sp = scan_span (map tc_id calls) seen [] ms
              in case push_results now (sp_results sp) seen calls of (ts, seen', ch1) \<Rightarrow>
                 case repair_from now seen' (sp_rest sp) of (out, ch2) \<Rightarrow>
                   (Ai a # map Tool ts @ map Tool (sp_remainder sp) @ out,
                    sp_changed sp \<or> (sp_results sp \<noteq> [] \<and> sp_remainder sp \<noteq> []) \<or> ch1 \<or> ch2))))"
  by pat_completeness auto

termination repair_from
  by (relation "measure (\<lambda>(now, seen, ms). length ms)") (auto intro: le_imp_less_Suc scan_span_rest)

text \<open>The final cleanup: results without a call in the latest assistant message.\<close>

fun drop_orphans :: "string list \<Rightarrow> message list \<Rightarrow> message list \<times> bool" where
  "drop_orphans active [] = ([], False)"
| "drop_orphans active (Ai a # ms) =
    (case drop_orphans (map tc_id (extract_tool_calls a)) ms of (out, ch) \<Rightarrow> (Ai a # out, ch))"
| "drop_orphans active (Tool t # ms) =
    (case drop_orphans active ms of (out, ch) \<Rightarrow>
       if tm_call_id t \<noteq> [] \<and> tm_call_id t \<notin> set active then (out, True) else (Tool t # out, ch))"
| "drop_orphans active (Other k c # ms) =
    (case drop_orphans active ms of (out, ch) \<Rightarrow> (Other k c # out, ch))"

definition sanitize_tool_use_result_pairing :: "int \<Rightarrow> message list \<Rightarrow> message list" where
  "sanitize_tool_use_result_pairing now messages =
    (let any_empty = list_ex empty_result messages;
         messages' = (if any_empty then map fill_empty messages else messages);
         (out, changed) = repair_from now [] messages';
         (cleaned, dropped) = drop_orphans [] out
     in if any_empty \<or> changed \<or> dropped then cleaned else messages')"

subsection \<open>What survives\<close>

definition is_ai :: "message \<Rightarrow> bool" where
  "is_ai m = (case m of Ai _ \<Rightarrow> True | _ \<Rightarrow> False)"

definition is_other :: "message \<Rightarrow> bool" where
  "is_other m = (case m of Other _ _ \<Rightarrow> True | _ \<Rightarrow> False)"

definition tidy :: "message \<Rightarrow> message" where
  "tidy m = (case m of Ai a \<Rightarrow> Ai (clear_invalid a) | _ \<Rightarrow> m)"

lemma message_kind_simps [simp]:
  "is_ai (Ai a)" "\<not> is_ai (Tool t)" "\<not> is_ai (Other k c)"
  "\<not> is_other (Ai a)" "\<not> is_other (Tool t)" "is_other (Other k c)"
  by (simp_all add: is_ai_def is_other_def)

text \<open>
  The other messages that the pass keeps: all but those between an assistant message with calls
  and the next assistant message. \<open>b\<close> says whether the list starts inside such a stretch.
\<close>

fun spoken :: "bool \<Rightarrow> message list \<Rightarrow> message list" where
  "spoken b [] = []"
| "spoken b (Ai a # ms) = spoken (\<not> errored a \<and> extract_tool_calls a \<noteq> []) ms"
| "spoken b (Tool t # ms) = spoken b ms"
| "spoken b (Other k c # ms) = (if b then spoken b ms else Other k c # spoken b ms)"

lemma no_kind_tools [simp]: "filter is_ai (map Tool ts) = []" "filter is_other (map Tool ts) = []"
  by (induction ts) simp_all

lemma scan_span_kinds:
  "filter is_ai (sp_rest (scan_span ids seen found ms)) = filter is_ai ms \<and>
   spoken b (sp_rest (scan_span ids seen found ms)) = spoken True ms \<and>
   (\<not> sp_changed (scan_span ids seen found ms) \<longrightarrow>
      filter is_other (sp_rest (scan_span ids seen found ms)) = filter is_other ms)"
  by (induction ids seen found ms rule: scan_span.induct) (auto simp: Let_def)

lemma repair_from_kinds:
  "filter is_ai (fst (repair_from now seen ms)) = map tidy (filter is_ai ms) \<and>
   filter is_other (fst (repair_from now seen ms)) = spoken False ms \<and>
   (\<not> snd (repair_from now seen ms) \<longrightarrow>
      map tidy (filter is_ai ms) = filter is_ai ms \<and> spoken False ms = filter is_other ms)"
proof (induction now seen ms rule: repair_from.induct)
  case (4 now seen a ms)
  show ?case
  proof (cases "errored a")
    case True
    with 4(1) show ?thesis by (auto simp: tidy_def clear_invalid_def split: prod.splits)
  next
    case ok: False
    then have tidy: "clear_invalid a = a" by (simp add: errored_def clear_invalid_def)
    show ?thesis
    proof (cases "extract_tool_calls a = []")
      case True
      with 4(2) ok tidy show ?thesis by (auto simp: tidy_def split: prod.splits)
    next
      case False
      define sp where "sp = scan_span (map tc_id (extract_tool_calls a)) seen [] ms"
      obtain ts seen' ch where push: "push_results now (sp_results sp) seen (extract_tool_calls a) = (ts, seen', ch)"
        by (cases "push_results now (sp_results sp) seen (extract_tool_calls a)")
      obtain out ch' where out: "repair_from now seen' (sp_rest sp) = (out, ch')" by fastforce
      have kinds: "filter is_ai (sp_rest sp) = filter is_ai ms" "spoken False (sp_rest sp) = spoken True ms"
        "\<not> sp_changed sp \<longrightarrow> filter is_other (sp_rest sp) = filter is_other ms"
        unfolding sp_def using scan_span_kinds by blast+
      have IH: "filter is_ai out = map tidy (filter is_ai (sp_rest sp)) \<and> filter is_other out = spoken False (sp_rest sp) \<and>
          (\<not> ch' \<longrightarrow> map tidy (filter is_ai (sp_rest sp)) = filter is_ai (sp_rest sp) \<and>
             spoken False (sp_rest sp) = filter is_other (sp_rest sp))"
        using 4(3) [OF ok refl False refl push [unfolded sp_def, symmetric] refl, folded sp_def] by (simp add: out)
      have run: "repair_from now seen (Ai a # ms) =
          (Ai a # map Tool ts @ map Tool (sp_remainder sp) @ out,
           sp_changed sp \<or> (sp_results sp \<noteq> [] \<and> sp_remainder sp \<noteq> []) \<or> ch \<or> ch')"
        using ok False by (simp add: Let_def sp_def [symmetric] push out)
      show ?thesis
        unfolding run using IH kinds ok False by (auto simp: tidy_def [of "Ai a"] tidy)
    qed
  qed
qed (auto split: prod.splits simp: tidy_def)

lemma repair_from_plain:
  "\<not> errored a \<Longrightarrow> extract_tool_calls a = [] \<Longrightarrow>
    repair_from now seen (Ai a # ms) = (Ai a # fst (repair_from now seen ms), snd (repair_from now seen ms))"
  by (simp add: split_beta)

declare repair_from.simps(4) [simp del]

lemma drop_orphans_kinds:
  "filter is_ai (fst (drop_orphans active ms)) = filter is_ai ms \<and>
   filter is_other (fst (drop_orphans active ms)) = filter is_other ms"
  by (induction active ms rule: drop_orphans.induct) (auto split: prod.splits)

lemma fill_empty_kinds:
  "filter is_ai (map fill_empty ms) = filter is_ai ms \<and> spoken b (map fill_empty ms) = spoken b ms \<and>
   filter is_other (map fill_empty ms) = filter is_other ms"
proof (induction ms arbitrary: b)
  case (Cons m ms)
  then show ?case by (cases m) (simp_all add: fill_empty_def)
qed simp

subsection \<open>Well-paired transcripts\<close>

abbreviation call_ids :: "ai_message \<Rightarrow> string list" where
  "call_ids a \<equiv> map tc_id (extract_tool_calls a)"

fun tool_run :: "message list \<Rightarrow> tool_message list" where
  "tool_run (Tool t # ms) = t # tool_run ms"
| "tool_run _ = []"

text \<open>The calls that the tool messages at the front of a list answer.\<close>

definition answered :: "message list \<Rightarrow> string list" where
  "answered ms = filter (\<lambda>i. i \<noteq> []) (map tm_call_id (tool_run ms))"

text \<open>
  What the model provider asks for: the tool results directly after an assistant message answer
  its calls, each once, and there is no other tool result.
\<close>

fun well_paired :: "message list \<Rightarrow> bool" where
  "well_paired [] = True"
| "well_paired (Ai a # ms) = (distinct (answered ms) \<and> set (answered ms) = set (call_ids a) \<and> well_paired ms)"
| "well_paired (Tool t # ms) = well_paired ms"
| "well_paired (Other k c # ms) = (answered ms = [] \<and> well_paired ms)"

definition valid_transcript :: "message list \<Rightarrow> bool" where
  "valid_transcript ms = (answered ms = [] \<and> well_paired ms)"

text \<open>The transcripts the pass is made for: no erroneous assistant message, no call id used twice.\<close>

definition all_calls :: "message list \<Rightarrow> string list" where
  "all_calls ms = concat (map (\<lambda>m. case m of Ai a \<Rightarrow> call_ids a | _ \<Rightarrow> []) ms)"

definition healthy :: "message list \<Rightarrow> bool" where
  "healthy ms = ((\<forall>a. Ai a \<in> set ms \<longrightarrow> \<not> errored a) \<and> distinct (all_calls ms))"

definition filled :: "message list \<Rightarrow> bool" where
  "filled ms = (\<forall>t. Tool t \<in> set ms \<longrightarrow> truthy (tm_content t))"

text \<open>The tool results with a call id, in the whole list.\<close>

definition all_results :: "message list \<Rightarrow> string list" where
  "all_results ms = filter (\<lambda>i. i \<noteq> []) (concat (map (\<lambda>m. case m of Tool t \<Rightarrow> [tm_call_id t] | _ \<Rightarrow> []) ms))"

lemma all_calls_simps [simp]:
  "all_calls [] = []" "all_calls (Ai a # ms) = call_ids a @ all_calls ms" "all_calls (Tool t # ms) = all_calls ms"
  "all_calls (Other k c # ms) = all_calls ms" "all_calls (ms @ ns) = all_calls ms @ all_calls ns"
  "all_calls (map Tool ts) = []"
  by (simp_all add: all_calls_def o_def)

lemma all_results_simps [simp]:
  "all_results [] = []" "all_results (Ai a # ms) = all_results ms"
  "all_results (Tool t # ms) = (if tm_call_id t = [] then all_results ms else tm_call_id t # all_results ms)"
  "all_results (Other k c # ms) = all_results ms" "all_results (ms @ ns) = all_results ms @ all_results ns"
  by (simp_all add: all_results_def)

lemma filled_simps [simp]:
  "filled []" "filled (Ai a # ms) = filled ms" "filled (Tool t # ms) = (truthy (tm_content t) \<and> filled ms)"
  "filled (Other k c # ms) = filled ms" "filled (ms @ ns) = (filled ms \<and> filled ns)"
  "filled (map Tool ts) = (\<forall>t \<in> set ts. truthy (tm_content t))"
  by (auto simp: filled_def)

lemma healthy_simps [simp]:
  "healthy []" "healthy (Ai a # ms) =
     (\<not> errored a \<and> distinct (call_ids a) \<and> set (call_ids a) \<inter> set (all_calls ms) = {} \<and> healthy ms)"
  "healthy (Tool t # ms) = healthy ms" "healthy (Other k c # ms) = healthy ms"
  "healthy (map Tool ts @ ms) = healthy ms"
  by (auto simp: healthy_def)

lemma answered_simps [simp]:
  "answered [] = []" "answered (Ai a # ms) = []" "answered (Other k c # ms) = []"
  "answered (Tool t # ms) = (if tm_call_id t = [] then answered ms else tm_call_id t # answered ms)"
  by (simp_all add: answered_def)

text \<open>The list starts with an assistant message, or ends.\<close>

definition at_turn :: "message list \<Rightarrow> bool" where
  "at_turn ms = (ms = [] \<or> is_ai (hd ms))"

lemma at_turn_simps [simp]: "at_turn []" "at_turn (Ai a # ms)" "\<not> at_turn (Tool t # ms)" "\<not> at_turn (Other k c # ms)"
  by (simp_all add: at_turn_def)

lemma at_turn_cases: "at_turn ms \<Longrightarrow> (ms = [] \<Longrightarrow> P) \<Longrightarrow> (\<And>a ns. ms = Ai a # ns \<Longrightarrow> P) \<Longrightarrow> P"
proof (cases ms)
  case (Cons m ns)
  assume "at_turn ms" and "\<And>a ns. ms = Ai a # ns \<Longrightarrow> P"
  with Cons show P by (cases m) auto
qed

lemma answered_run: "at_turn ms \<Longrightarrow> answered (map Tool ts @ ms) = filter (\<lambda>i. i \<noteq> []) (map tm_call_id ts)"
  by (induction ts) (auto elim: at_turn_cases)

lemma well_paired_run: "well_paired (map Tool ts @ ms) = well_paired ms"
  by (induction ts) simp_all

lemma nonempty_textD: "nonempty_text v = Some i \<Longrightarrow> i \<noteq> []"
  by (auto simp: nonempty_text_def split: json.splits if_splits)

lemma tool_call_ofD: "tool_call_of b = Some c \<Longrightarrow> tc_id c \<noteq> []"
  by (cases b) (auto simp: tool_call_of_def extract_tool_call_id_def dest: nonempty_textD split: option.splits if_splits)

lemma call_nonempty: "c \<in> set (extract_tool_calls a) \<Longrightarrow> tc_id c \<noteq> []"
  by (cases "ai_tool_calls a") (auto simp: extract_tool_calls_def map_filter_def dest: tool_call_ofD)

lemma call_id_nonempty: "i \<in> set (call_ids a) \<Longrightarrow> i \<noteq> []"
  using call_nonempty by auto

subsection \<open>The inner loops\<close>

text \<open>The scan collects the first result of each call and leaves the rest of the run over.\<close>

lemma scan_span_result:
  "filled ms \<Longrightarrow> dict_get (sp_results (scan_span ids seen found ms)) k = Some t \<Longrightarrow>
    dict_get found k = Some t \<or> (tm_call_id t = k \<and> truthy (tm_content t))"
  by (induction ids seen found ms rule: scan_span.induct) (auto simp: Let_def split: if_splits)

lemma scan_span_remainder:
  "filled ms \<Longrightarrow> t \<in> set (sp_remainder (scan_span ids seen found ms)) \<Longrightarrow>
    truthy (tm_content t) \<and> (tm_call_id t = [] \<or> tm_call_id t \<notin> set ids)"
  by (induction ids seen found ms rule: scan_span.induct) (auto simp: Let_def split: if_splits)

lemma scan_span_rest_part:
  "at_turn (sp_rest (scan_span ids seen found ms)) \<and>
   (filled ms \<longrightarrow> filled (sp_rest (scan_span ids seen found ms))) \<and>
   (healthy ms \<longrightarrow> healthy (sp_rest (scan_span ids seen found ms))) \<and>
   all_calls (sp_rest (scan_span ids seen found ms)) = all_calls ms"
  by (induction ids seen found ms rule: scan_span.induct) (auto simp: Let_def)

text \<open>Pushing the results of distinct unseen calls pushes one result per call, in the order of the calls.\<close>

definition result_for :: "int \<Rightarrow> (string \<times> tool_message) list \<Rightarrow> tool_call_like \<Rightarrow> tool_message" where
  "result_for now found c = (case dict_get found (tc_id c) of Some t \<Rightarrow> t | None \<Rightarrow> make_missing_tool_result now c)"

lemma push_results_run:
  assumes "\<And>c. c \<in> set cs \<Longrightarrow> tm_call_id (result_for now found c) = tc_id c"
    and "\<And>c. c \<in> set cs \<Longrightarrow> tc_id c \<noteq> []"
    and "distinct (map tc_id cs)" and "set (map tc_id cs) \<inter> set seen = {}"
  shows "push_results now found seen cs =
    (map (result_for now found) cs, rev (map tc_id cs) @ seen, list_ex (\<lambda>c. dict_get found (tc_id c) = None) cs)"
  using assms
proof (induction cs arbitrary: seen)
  case (Cons c cs)
  have t: "tm_call_id (result_for now found c) = tc_id c" "tc_id c \<noteq> []" "tc_id c \<notin> set seen"
    using Cons.prems by auto
  have rest: "push_results now found (tc_id c # seen) cs =
      (map (result_for now found) cs, rev (map tc_id cs) @ tc_id c # seen,
       list_ex (\<lambda>c. dict_get found (tc_id c) = None) cs)"
    by (rule Cons.IH) (use Cons.prems in auto)
  show ?case
    using t by (auto simp: result_for_def [of now found c, symmetric] rest)
qed simp

subsection \<open>The repaired transcript\<close>

text \<open>
  The form that the pass produces: after an assistant message the results of its calls in the
  order of the calls, then results without an id; other messages only outside these stretches.
\<close>

inductive normal :: "bool \<Rightarrow> message list \<Rightarrow> bool" where
  normal_Nil: "normal b []"
| normal_Other: "normal False ms \<Longrightarrow> normal False (Other k c # ms)"
| normal_Tool: "tm_call_id t = [] \<Longrightarrow> truthy (tm_content t) \<Longrightarrow> normal b ms \<Longrightarrow> normal b (Tool t # ms)"
| normal_Ai: "map tm_call_id ts = call_ids a \<Longrightarrow> (\<forall>t \<in> set ts. truthy (tm_content t)) \<Longrightarrow>
    normal (call_ids a \<noteq> []) ms \<Longrightarrow> normal b (Ai a # map Tool ts @ ms)"

lemma normal_at_turn: "normal b ms \<Longrightarrow> at_turn ms \<Longrightarrow> normal b' ms"
  by (induction rule: normal.induct) (auto intro: normal.intros)

lemma normal_run: "normal b ms \<Longrightarrow> (\<forall>t \<in> set ts. tm_call_id t = [] \<and> truthy (tm_content t)) \<Longrightarrow> normal b (map Tool ts @ ms)"
  by (induction ts) (auto intro: normal_Tool)

lemma normal_filled: "normal b ms \<Longrightarrow> filled ms"
  by (induction rule: normal.induct) auto

lemma repair_from_calls:
  fixes now seen a ms
  defines "sp \<equiv> scan_span (call_ids a) seen [] ms"
  defines "ts \<equiv> map (result_for now (sp_results sp)) (extract_tool_calls a)"
  defines "r \<equiv> repair_from now (rev (call_ids a) @ seen) (sp_rest sp)"
  assumes ok: "\<not> errored a" "extract_tool_calls a \<noteq> []" and fresh: "distinct (call_ids a)" "set (call_ids a) \<inter> set seen = {}"
    and filled: "filled ms"
  shows "repair_from now seen (Ai a # ms) = (Ai a # map Tool ts @ map Tool (sp_remainder sp) @ fst r,
      sp_changed sp \<or> (sp_results sp \<noteq> [] \<and> sp_remainder sp \<noteq> []) \<or>
      list_ex (\<lambda>c. dict_get (sp_results sp) (tc_id c) = None) (extract_tool_calls a) \<or> snd r)"
    and "map tm_call_id ts = call_ids a" and "\<forall>t \<in> set ts. truthy (tm_content t)"
proof -
  have result: "tm_call_id (result_for now (sp_results sp) c) = tc_id c \<and> truthy (tm_content (result_for now (sp_results sp) c))" for c
    using scan_span_result [OF filled, of "call_ids a" seen "[]" "tc_id c"]
    by (auto simp: sp_def result_for_def make_missing_tool_result_def MISSING_TOOL_RESULT_def split: option.split)
  have push: "push_results now (sp_results sp) seen (extract_tool_calls a) =
      (ts, rev (call_ids a) @ seen, list_ex (\<lambda>c. dict_get (sp_results sp) (tc_id c) = None) (extract_tool_calls a))"
    unfolding ts_def by (rule push_results_run) (use result fresh call_nonempty in auto)
  show "repair_from now seen (Ai a # ms) = (Ai a # map Tool ts @ map Tool (sp_remainder sp) @ fst r,
      sp_changed sp \<or> (sp_results sp \<noteq> [] \<and> sp_remainder sp \<noteq> []) \<or>
      list_ex (\<lambda>c. dict_get (sp_results sp) (tc_id c) = None) (extract_tool_calls a) \<or> snd r)"
    using ok by (simp add: repair_from.simps(4) Let_def sp_def [symmetric] push r_def split: prod.split)
  show "map tm_call_id ts = call_ids a" "\<forall>t \<in> set ts. truthy (tm_content t)"
    using result by (simp_all add: ts_def)
qed

lemma repair_from_at_turn: "at_turn ms \<Longrightarrow> at_turn (fst (repair_from now seen ms))"
  by (erule at_turn_cases) (auto simp: repair_from.simps(4) Let_def split: prod.splits)

lemma drop_orphans_at_turn: "at_turn ms \<Longrightarrow> drop_orphans active ms = drop_orphans [] ms"
  by (erule at_turn_cases) simp_all

lemma drop_orphans_run:
  "drop_orphans active (map Tool ts @ ms) =
    (map Tool (filter (\<lambda>t. tm_call_id t = [] \<or> tm_call_id t \<in> set active) ts) @ fst (drop_orphans active ms),
     (\<exists>t \<in> set ts. tm_call_id t \<noteq> [] \<and> tm_call_id t \<notin> set active) \<or> snd (drop_orphans active ms))"
  by (induction ts) (auto split: prod.splits)

lemma repaired_normal:
  "filled ms \<Longrightarrow> healthy ms \<Longrightarrow> set (all_calls ms) \<inter> set seen = {} \<Longrightarrow>
    normal False (fst (drop_orphans [] (fst (repair_from now seen ms))))"
proof (induction now seen ms rule: repair_from.induct)
  case (2 now seen k c ms)
  then show ?case by (auto intro: normal_Other split: prod.splits)
next
  case (3 now seen t ms)
  then show ?case by (auto intro: normal_Tool split: prod.splits)
next
  case (4 now seen a ms)
  have ok: "\<not> errored a" using "4.prems" by simp
  show ?case
  proof (cases "extract_tool_calls a = []")
    case True
    have "normal False (fst (drop_orphans [] (fst (repair_from now seen ms))))"
      using "4.IH"(2) [OF ok refl True] "4.prems" by auto
    then show ?thesis
      using ok True normal_Ai [of "[]" a] by (simp add: repair_from_plain split_beta)
  next
    case False
    define sp where "sp = scan_span (call_ids a) seen [] ms"
    define ts where "ts = map (result_for now (sp_results sp)) (extract_tool_calls a)"
    define out where "out = fst (repair_from now (rev (call_ids a) @ seen) (sp_rest sp))"
    have fresh: "distinct (call_ids a)" "set (call_ids a) \<inter> set seen = {}" "filled ms"
      using "4.prems" by auto
    note run = repair_from_calls [OF ok False fresh, of now, folded sp_def, folded ts_def out_def]
    have rest: "at_turn (sp_rest sp)" "filled (sp_rest sp)" "healthy (sp_rest sp)" "all_calls (sp_rest sp) = all_calls ms"
      using scan_span_rest_part [of "call_ids a" seen "[]" ms] "4.prems" by (auto simp: sp_def)
    have push: "(ts, rev (call_ids a) @ seen, list_ex (\<lambda>c. dict_get (sp_results sp) (tc_id c) = None) (extract_tool_calls a)) =
        push_results now (sp_results sp) seen (extract_tool_calls a)"
      unfolding ts_def using run(2) fresh call_nonempty
      by (intro push_results_run [symmetric]) (auto simp: ts_def)
    have IH: "normal False (fst (drop_orphans [] out))"
      unfolding out_def
      by (rule "4.IH"(3) [OF ok refl False refl push [unfolded sp_def] refl, folded sp_def])
        (use rest "4.prems" in auto)
    have turn: "at_turn out" unfolding out_def by (rule repair_from_at_turn) (rule rest)
    have rem: "filter (\<lambda>t. tm_call_id t = [] \<or> tm_call_id t \<in> set (call_ids a)) (sp_remainder sp) =
        filter (\<lambda>t. tm_call_id t = []) (sp_remainder sp)"
      using scan_span_remainder [OF fresh(3), of _ "call_ids a" seen "[]"]
      by (intro filter_cong) (auto simp: sp_def)
    have ids: "\<forall>t \<in> set ts. tm_call_id t \<in> set (call_ids a)"
      using run(2) by (metis in_set_conv_nth length_map nth_map nth_mem)
    have dropped: "fst (drop_orphans [] (fst (repair_from now seen (Ai a # ms)))) =
        Ai a # map Tool ts @ map Tool (filter (\<lambda>t. tm_call_id t = []) (sp_remainder sp)) @ fst (drop_orphans [] out)"
      using ids drop_orphans_at_turn [OF turn, of "call_ids a"]
      unfolding run(1) by (simp add: drop_orphans_run rem [simplified] filter_id_conv split_beta)
    have "at_turn (fst (drop_orphans [] out))" using turn by (auto elim!: at_turn_cases split: prod.splits)
    then have "normal (call_ids a \<noteq> []) (map Tool (filter (\<lambda>t. tm_call_id t = []) (sp_remainder sp)) @ fst (drop_orphans [] out))"
      using scan_span_remainder [OF fresh(3), of _ "call_ids a" seen "[]"]
      by (intro normal_run normal_at_turn [OF IH]) (auto simp: sp_def)
    then show ?thesis unfolding dropped by (intro normal_Ai run)
  qed
qed (simp add: normal_Nil)

lemma answered_filter: "distinct (map tm_call_id ts) \<Longrightarrow> answered (map Tool ts) = filter (\<lambda>i. i \<noteq> []) (map tm_call_id ts)"
  using answered_run [of "[]" ts] by simp

lemma normal_tools:
  "normal True ms \<Longrightarrow> \<exists>us ns. ms = map Tool us @ ns \<and> (\<forall>t \<in> set us. tm_call_id t = [] \<and> truthy (tm_content t)) \<and> at_turn ns"
proof (induction True ms rule: normal.induct)
  case (normal_Tool t ms)
  then obtain us ns where "ms = map Tool us @ ns" "\<forall>t \<in> set us. tm_call_id t = [] \<and> truthy (tm_content t)" "at_turn ns"
    by blast
  with normal_Tool.hyps show ?case by (intro exI [of _ "t # us"] exI [of _ ns]) simp
qed (force intro: exI [of _ "[]"])+

lemma normal_answered: "normal b ms \<Longrightarrow> answered ms = []"
  by (induction rule: normal.induct) auto

lemma answered_results: "answered (map Tool ts @ ms) = filter (\<lambda>i. i \<noteq> []) (map tm_call_id ts) @ answered ms"
  by (induction ts) auto

lemma normal_well_paired: "normal b ms \<Longrightarrow> healthy ms \<Longrightarrow> well_paired ms"
proof (induction rule: normal.induct)
  case (normal_Ai ts a ms b)
  have "answered (map Tool ts @ ms) = call_ids a"
    using normal_Ai call_id_nonempty by (simp add: answered_results normal_answered [OF normal_Ai.hyps(3)] filter_id_conv)
  with normal_Ai show ?case by (simp add: well_paired_run)
qed (auto dest: normal_answered)

text \<open>A transcript of that form is not touched.\<close>

lemma update_new: "k \<notin> fst ` set d \<Longrightarrow> dict_set k v d = d @ [(k, v)]"
  by (induction d) auto

lemma scan_span_own:
  assumes "\<forall>t \<in> set ts. truthy (tm_content t) \<and> tm_call_id t \<noteq> [] \<and> tm_call_id t \<in> set ids \<and> tm_call_id t \<notin> set seen"
    and "distinct (map tm_call_id ts)" and "fst ` set found \<inter> set (map tm_call_id ts) = {}"
  shows "scan_span ids seen found (map Tool ts @ ms) = scan_span ids seen (found @ map (\<lambda>t. (tm_call_id t, t)) ts) ms"
  using assms
proof (induction ts arbitrary: found)
  case (Cons t ts)
  have new: "tm_call_id t \<notin> fst ` set found" using Cons.prems(3) by auto
  then have "dict_get found (tm_call_id t) = None" by (simp add: map_of_eq_None_iff)
  then have "scan_span ids seen found (map Tool (t # ts) @ ms) =
      scan_span ids seen (found @ [(tm_call_id t, t)]) (map Tool ts @ ms)"
    using Cons.prems(1) by (simp add: update_new [OF new])
  also have "\<dots> = scan_span ids seen ((found @ [(tm_call_id t, t)]) @ map (\<lambda>t. (tm_call_id t, t)) ts) ms"
    by (rule Cons.IH) (use Cons.prems in auto)
  finally show ?case by simp
qed simp

lemma scan_span_left:
  "at_turn ms \<Longrightarrow> \<forall>t \<in> set us. tm_call_id t = [] \<and> truthy (tm_content t) \<Longrightarrow>
    scan_span ids seen found (map Tool us @ ms) =
      \<lparr>sp_results = found, sp_remainder = us, sp_changed = False, sp_rest = ms\<rparr>"
  by (induction us) (auto elim: at_turn_cases simp: Let_def)

lemma repair_from_tools:
  "\<forall>t \<in> set us. truthy (tm_content t) \<Longrightarrow>
    fst (repair_from now seen (map Tool us @ ms)) = map Tool us @ fst (repair_from now seen ms)"
  by (induction us) (auto split: prod.splits)

lemma map_of_own: "distinct (map tm_call_id ts) \<Longrightarrow> t \<in> set ts \<Longrightarrow> map_of (map (\<lambda>t. (tm_call_id t, t)) ts) (tm_call_id t) = Some t"
  by (intro map_of_is_SomeI) (simp_all add: o_def)

lemma normal_fixed:
  "normal b ms \<Longrightarrow> healthy ms \<Longrightarrow> set (all_calls ms) \<inter> set seen = {} \<Longrightarrow> fst (repair_from now seen ms) = ms"
proof (induction arbitrary: seen rule: normal.induct)
  case (normal_Ai ts a ms b)
  have ok: "\<not> errored a" and dist: "distinct (call_ids a)" using normal_Ai.prems by auto
  show ?case
  proof (cases "extract_tool_calls a = []")
    case True
    with normal_Ai ok show ?thesis by (simp add: repair_from_plain)
  next
    case False
    have "normal True ms" using normal_Ai.hyps(3) False by simp
    from normal_tools [OF this] obtain us ns where ms: "ms = map Tool us @ ns"
        and us: "\<forall>t \<in> set us. tm_call_id t = [] \<and> truthy (tm_content t)" and turn: "at_turn ns"
      by blast
    have ids: "tm_call_id t \<in> set (call_ids a)" if "t \<in> set ts" for t
      using that normal_Ai.hyps(1) by (metis image_eqI list.set_map)
    have disjoint: "set (call_ids a) \<inter> set seen = {}" using normal_Ai.prems(2) by auto
    have own: "\<forall>t \<in> set ts. truthy (tm_content t) \<and> tm_call_id t \<noteq> [] \<and> tm_call_id t \<in> set (call_ids a) \<and>
        tm_call_id t \<notin> set seen"
    proof
      fix t assume t: "t \<in> set ts"
      show "truthy (tm_content t) \<and> tm_call_id t \<noteq> [] \<and> tm_call_id t \<in> set (call_ids a) \<and> tm_call_id t \<notin> set seen"
        using ids [OF t] call_id_nonempty [OF ids [OF t]] normal_Ai.hyps(2) disjoint t by blast
    qed
    have scan: "scan_span (call_ids a) seen [] (map Tool ts @ ms) =
        \<lparr>sp_results = map (\<lambda>t. (tm_call_id t, t)) ts, sp_remainder = us, sp_changed = False, sp_rest = ns\<rparr>"
    proof -
      have "scan_span (call_ids a) seen [] (map Tool ts @ ms) =
          scan_span (call_ids a) seen ([] @ map (\<lambda>t. (tm_call_id t, t)) ts) ms"
        by (rule scan_span_own [OF own]) (simp_all add: normal_Ai.hyps(1) dist)
      then show ?thesis by (simp add: ms scan_span_left [OF turn us])
    qed
    have "map (result_for now (map (\<lambda>t. (tm_call_id t, t)) ts)) (extract_tool_calls a) = ts"
    proof (rule nth_equalityI)
      show len: "length (map (result_for now (map (\<lambda>t. (tm_call_id t, t)) ts)) (extract_tool_calls a)) = length ts"
        using normal_Ai.hyps(1) by (metis length_map)
      fix i assume "i < length (map (result_for now (map (\<lambda>t. (tm_call_id t, t)) ts)) (extract_tool_calls a))"
      then have i: "i < length ts" "i < length (extract_tool_calls a)" using len by simp_all
      then have "tc_id (extract_tool_calls a ! i) = tm_call_id (ts ! i)"
        using normal_Ai.hyps(1) by (metis nth_map)
      then show "map (result_for now (map (\<lambda>t. (tm_call_id t, t)) ts)) (extract_tool_calls a) ! i = ts ! i"
        using i map_of_own [of ts "ts ! i"] normal_Ai.hyps(1) dist by (simp add: result_for_def)
    qed
    moreover have "fst (repair_from now (rev (call_ids a) @ seen) ns) = ns"
    proof -
      have "fst (repair_from now (rev (call_ids a) @ seen) ms) = ms"
        by (rule normal_Ai.IH) (use normal_Ai.prems in \<open>auto\<close>)
      then show ?thesis using us by (simp add: ms repair_from_tools)
    qed
    ultimately show ?thesis
      using repair_from_calls(1) [OF ok False dist disjoint, of "map Tool ts @ ms" now]
        normal_Ai.prems normal_Ai.hyps(2) normal_filled [OF normal_Ai.hyps(3)]
      by (simp add: scan) (simp add: ms)
  qed
qed (auto simp: split_beta)

lemma normal_no_orphans: "normal b ms \<Longrightarrow> fst (drop_orphans active ms) = ms"
proof (induction arbitrary: active rule: normal.induct)
  case (normal_Ai ts a ms b)
  have "\<forall>t \<in> set ts. tm_call_id t \<in> set (call_ids a)"
    using normal_Ai.hyps(1) by (metis image_eqI list.set_map)
  then show ?case
    using normal_Ai.IH by (simp add: drop_orphans_run filter_id_conv split_beta)
qed (auto simp: split_beta)

text \<open>A transcript that the pass reports as unchanged has its results in place.\<close>

lemma scan_span_unchanged:
  "filled ms \<Longrightarrow> \<not> sp_changed (scan_span ids seen found ms) \<Longrightarrow>
    \<exists>us. ms = map Tool us @ sp_rest (scan_span ids seen found ms) \<and>
      (\<forall>t \<in> set us. t \<in> set (sp_remainder (scan_span ids seen found ms)) \<or> (tm_call_id t \<noteq> [] \<and> tm_call_id t \<in> set ids)) \<and>
      (\<forall>k. dict_get (sp_results (scan_span ids seen found ms)) k \<noteq> None \<longrightarrow>
         dict_get found k \<noteq> None \<or> k \<in> tm_call_id ` set us)"
proof (induction ids seen found ms rule: scan_span.induct)
  case (3 ids seen found t ms)
  have content: "truthy (tm_content t)" "tm_content t \<noteq> JStr []" using "3.prems"(1) by auto
  show ?case
  proof (cases "tm_call_id t \<noteq> [] \<and> tm_call_id t \<in> set ids")
    case True
    define found' where "found' = (if dict_get found (tm_call_id t) = None then dict_set (tm_call_id t) t found else found)"
    have unseen: "tm_call_id t \<notin> set seen" using "3.prems"(2) True content by auto
    have run: "scan_span ids seen found (Tool t # ms) = scan_span ids seen found' ms"
      using True unseen content by (simp add: found'_def)
    have "\<exists>us. ms = map Tool us @ sp_rest (scan_span ids seen found' ms) \<and>
        (\<forall>u \<in> set us. u \<in> set (sp_remainder (scan_span ids seen found' ms)) \<or> (tm_call_id u \<noteq> [] \<and> tm_call_id u \<in> set ids)) \<and>
        (\<forall>k. dict_get (sp_results (scan_span ids seen found' ms)) k \<noteq> None \<longrightarrow> dict_get found' k \<noteq> None \<or> k \<in> tm_call_id ` set us)"
      unfolding found'_def using "3.IH"(2) "3.prems" True unseen content by simp
    then obtain us where us: "ms = map Tool us @ sp_rest (scan_span ids seen found' ms)"
        "\<forall>u \<in> set us. u \<in> set (sp_remainder (scan_span ids seen found' ms)) \<or> (tm_call_id u \<noteq> [] \<and> tm_call_id u \<in> set ids)"
        "\<forall>k. dict_get (sp_results (scan_span ids seen found' ms)) k \<noteq> None \<longrightarrow> dict_get found' k \<noteq> None \<or> k \<in> tm_call_id ` set us"
      by blast
    show ?thesis
      unfolding run
    proof (intro exI [of _ "t # us"] conjI)
      show "Tool t # ms = map Tool (t # us) @ sp_rest (scan_span ids seen found' ms)" using us(1) by simp
      show "\<forall>u \<in> set (t # us). u \<in> set (sp_remainder (scan_span ids seen found' ms)) \<or> (tm_call_id u \<noteq> [] \<and> tm_call_id u \<in> set ids)"
        using us(2) True by simp
      show "\<forall>k. dict_get (sp_results (scan_span ids seen found' ms)) k \<noteq> None \<longrightarrow> dict_get found k \<noteq> None \<or> k \<in> tm_call_id ` set (t # us)"
        using us(3) by (auto simp: found'_def split: if_splits)
    qed
  next
    case False
    have run: "scan_span ids seen found (Tool t # ms) =
        (scan_span ids seen found ms)\<lparr>sp_remainder := t # sp_remainder (scan_span ids seen found ms)\<rparr>"
      using False content by (auto simp: Let_def)
    have "\<exists>us. ms = map Tool us @ sp_rest (scan_span ids seen found ms) \<and>
        (\<forall>u \<in> set us. u \<in> set (sp_remainder (scan_span ids seen found ms)) \<or> (tm_call_id u \<noteq> [] \<and> tm_call_id u \<in> set ids)) \<and>
        (\<forall>k. dict_get (sp_results (scan_span ids seen found ms)) k \<noteq> None \<longrightarrow> dict_get found k \<noteq> None \<or> k \<in> tm_call_id ` set us)"
    proof (rule "3.IH"(3))
      show "\<not> (truthy (tm_content t) \<and> tm_call_id t \<noteq> [] \<and> tm_call_id t \<in> set ids)" using False by blast
      show "\<not> sp_changed (scan_span ids seen found ms)" using "3.prems"(2) unfolding run by simp
    qed (use content "3.prems"(1) in simp_all)
    then show ?thesis unfolding run by (elim exE, intro exI [of _ "t # us" for us]) auto
  qed
qed (auto intro: exI [of _ "[]"])

lemma unchanged_valid:
  "filled ms \<Longrightarrow> healthy ms \<Longrightarrow> set (all_calls ms) \<inter> set seen = {} \<Longrightarrow> distinct (all_results ms) \<Longrightarrow>
    \<not> snd (repair_from now seen ms) \<Longrightarrow> \<not> snd (drop_orphans [] (fst (repair_from now seen ms))) \<Longrightarrow>
    valid_transcript ms"
proof (induction now seen ms rule: repair_from.induct)
  case (1 now seen)
  then show ?case by (simp add: valid_transcript_def)
next
  case (2 now seen k c ms)
  then show ?case by (auto simp: valid_transcript_def split_beta)
next
  case (3 now seen t ms)
  then show ?case by (auto simp: valid_transcript_def split_beta split: if_splits)
next
  case (4 now seen a ms)
  have ok: "\<not> errored a" using "4.prems" by simp
  show ?case
  proof (cases "extract_tool_calls a = []")
    case True
    have "valid_transcript ms"
      using "4.IH"(2) [OF ok refl True] "4.prems" by (auto simp: repair_from_plain [OF ok True] True split_beta)
    then show ?thesis using True by (simp add: valid_transcript_def)
  next
    case False
    define sp where "sp = scan_span (call_ids a) seen [] ms"
    define ts where "ts = map (result_for now (sp_results sp)) (extract_tool_calls a)"
    define r where "r = repair_from now (rev (call_ids a) @ seen) (sp_rest sp)"
    have fresh: "distinct (call_ids a)" "set (call_ids a) \<inter> set seen = {}" "filled ms"
      using "4.prems" by auto
    note run = repair_from_calls [OF ok False fresh, of now, folded sp_def, folded ts_def r_def]
    have same: "\<not> sp_changed sp" "\<not> (sp_results sp \<noteq> [] \<and> sp_remainder sp \<noteq> [])"
        "list_all (\<lambda>c. dict_get (sp_results sp) (tc_id c) \<noteq> None) (extract_tool_calls a)" "\<not> snd r"
      using "4.prems"(5) unfolding run(1) by (auto simp: list_all_iff list_ex_iff)
    have none: "sp_remainder sp = []"
      using same(2,3) False by (cases "extract_tool_calls a") auto
    obtain us where us: "ms = map Tool us @ sp_rest sp" "\<forall>t \<in> set us. tm_call_id t \<noteq> [] \<and> tm_call_id t \<in> set (call_ids a)"
        "\<forall>k. dict_get (sp_results sp) k \<noteq> None \<longrightarrow> k \<in> tm_call_id ` set us"
      using scan_span_unchanged [OF fresh(3) same(1) [unfolded sp_def], folded sp_def, unfolded none] that by simp blast
    have rest: "at_turn (sp_rest sp)" "filled (sp_rest sp)" "healthy (sp_rest sp)" "all_calls (sp_rest sp) = all_calls ms"
      using scan_span_rest_part [of "call_ids a" seen "[]" ms] "4.prems" by (auto simp: sp_def)
    have "\<not> snd (drop_orphans (call_ids a) (fst r))"
      using "4.prems"(6) unfolding run(1) by (simp add: split_beta drop_orphans_run)
    moreover have "at_turn (fst r)" unfolding r_def by (rule repair_from_at_turn) (rule rest)
    ultimately have kept: "\<not> snd (drop_orphans [] (fst r))" by (metis drop_orphans_at_turn)
    have push: "(ts, rev (call_ids a) @ seen, list_ex (\<lambda>c. dict_get (sp_results sp) (tc_id c) = None) (extract_tool_calls a)) =
        push_results now (sp_results sp) seen (extract_tool_calls a)"
      unfolding ts_def using run(2) fresh call_nonempty
      by (intro push_results_run [symmetric]) (auto simp: ts_def)
    have "distinct (all_results (map Tool us @ sp_rest sp))" using "4.prems"(4) us(1) by simp
    then have dist: "distinct (all_results (map Tool us))" "distinct (all_results (sp_rest sp))" by simp_all
    have "valid_transcript (sp_rest sp)"
      by (rule "4.IH"(3) [OF ok refl False refl push [unfolded sp_def] refl, folded sp_def])
        (use rest "4.prems" same kept dist in \<open>auto simp: r_def\<close>)
    moreover have "all_results (map Tool us) = map tm_call_id us" using us(2) by (induction us) auto
    moreover have "answered (map Tool us @ sp_rest sp) = map tm_call_id us"
      using us(2) by (simp add: answered_run [OF rest(1)] filter_id_conv)
    moreover have "set (map tm_call_id us) = set (call_ids a)"
      using us(2,3) same(3) by (auto simp: list_all_iff)
    ultimately have "distinct (answered ms) \<and> set (answered ms) = set (call_ids a) \<and> well_paired ms"
      using dist(1) well_paired_run [of us "sp_rest sp"] us(1) by (simp add: valid_transcript_def)
    then show ?thesis by (simp add: valid_transcript_def)
  qed
qed

subsection \<open>Properties\<close>

lemma fill_empty_filled: "filled (map fill_empty ms)"
proof (induction ms)
  case (Cons m ms)
  then show ?case by (cases m) (simp_all add: fill_empty_def EMPTY_TOOL_RESULT_def)
qed simp

lemma fill_empty_ids: "all_calls (map fill_empty ms) = all_calls ms \<and> all_results (map fill_empty ms) = all_results ms"
proof (induction ms)
  case (Cons m ms)
  then show ?case by (cases m) (simp_all add: fill_empty_def)
qed simp

lemma healthy_iff: "healthy ms \<longleftrightarrow> (\<forall>a. Ai a \<in> set (filter is_ai ms) \<longrightarrow> \<not> errored a) \<and> distinct (all_calls ms)"
  by (simp add: healthy_def)

lemma all_calls_filter: "all_calls (filter is_ai ms) = all_calls ms"
proof (induction ms)
  case (Cons m ms)
  then show ?case by (cases m) simp_all
qed simp

lemma healthy_filter: "filter is_ai ms = filter is_ai ns \<Longrightarrow> healthy ms = healthy ns"
  unfolding healthy_iff by (metis all_calls_filter)

lemma fill_empty_healthy: "healthy (map fill_empty ms) = healthy ms"
  by (rule healthy_filter) (simp add: fill_empty_kinds)

lemma no_empty_filled: "\<not> list_ex empty_result ms \<Longrightarrow> filled ms"
proof (induction ms)
  case (Cons m ms)
  then show ?case by (cases m) (simp_all add: empty_result_def)
qed simp

lemma filled_no_empty: "filled ms \<Longrightarrow> \<not> list_ex empty_result ms"
proof (induction ms)
  case (Cons m ms)
  then show ?case by (cases m) (simp_all add: empty_result_def)
qed simp

text \<open>The three outcomes of the pass: nothing to do, or the cleaned list.\<close>

lemma sanitize_cases:
  obtains (same) "sanitize_tool_use_result_pairing now ms = ms" "filled ms"
      "\<not> snd (repair_from now [] ms)" "\<not> snd (drop_orphans [] (fst (repair_from now [] ms)))"
    | (cleaned) ns where "sanitize_tool_use_result_pairing now ms = fst (drop_orphans [] (fst (repair_from now [] ns)))"
      "filled ns" "ns = ms \<or> ns = map fill_empty ms"
proof (cases "list_ex empty_result ms")
  case True
  then have "sanitize_tool_use_result_pairing now ms = fst (drop_orphans [] (fst (repair_from now [] (map fill_empty ms))))"
    by (simp add: sanitize_tool_use_result_pairing_def split_beta)
  then show ?thesis using cleaned fill_empty_filled by blast
next
  case False
  then have filled: "filled ms" by (rule no_empty_filled)
  show ?thesis
  proof (cases "snd (repair_from now [] ms) \<or> snd (drop_orphans [] (fst (repair_from now [] ms)))")
    case True
    with False have "sanitize_tool_use_result_pairing now ms = fst (drop_orphans [] (fst (repair_from now [] ms)))"
      by (auto simp: sanitize_tool_use_result_pairing_def Let_def split_beta)
    then show ?thesis using cleaned filled by blast
  next
    case unchanged: False
    with False have "sanitize_tool_use_result_pairing now ms = ms"
      by (auto simp: sanitize_tool_use_result_pairing_def Let_def split_beta)
    then show ?thesis using same filled unchanged by blast
  qed
qed

lemma healthy_tidy: "healthy ms \<Longrightarrow> map tidy (filter is_ai ms) = filter is_ai ms"
  by (intro map_idI) (auto simp: tidy_def healthy_def errored_def clear_invalid_def is_ai_def split: message.splits)

text \<open>A cleaned list is in normal form and still healthy.\<close>

lemma cleaned_normal:
  assumes "filled ns" and "healthy ns"
  shows "normal False (fst (drop_orphans [] (fst (repair_from now [] ns))))"
    and "healthy (fst (drop_orphans [] (fst (repair_from now [] ns))))"
proof -
  let ?out = "fst (drop_orphans [] (fst (repair_from now [] ns)))"
  show "normal False ?out" using assms by (intro repaired_normal) simp_all
  have "filter is_ai ?out = filter is_ai ns"
    using drop_orphans_kinds repair_from_kinds healthy_tidy [OF assms(2)] by metis
  then show "healthy ?out" using assms(2) healthy_filter by blast
qed

lemma filled_fill: "filled ms \<Longrightarrow> map fill_empty ms = ms"
proof (induction ms)
  case (Cons m ms)
  then show ?case by (cases m) (simp_all add: fill_empty_def)
qed simp

lemma normal_stable:
  assumes "normal False ms" and "healthy ms"
  shows "sanitize_tool_use_result_pairing now ms = ms"
proof (cases rule: sanitize_cases [of now ms])
  case (cleaned ns)
  then have "ns = ms" using filled_fill [OF normal_filled [OF assms(1)]] by auto
  then show ?thesis
    using normal_fixed [OF assms] normal_no_orphans [OF assms(1)] by (simp add: cleaned(1))
qed

text \<open>Only placeholders carry the clock.\<close>

lemma push_results_clock:
  "\<not> snd (snd (push_results now found seen cs)) \<Longrightarrow> push_results later found seen cs = push_results now found seen cs"
  by (induction now found seen cs rule: push_results.induct) (auto simp: Let_def split_beta split: if_splits)

lemma repair_from_clock:
  "\<not> snd (repair_from now seen ms) \<Longrightarrow> repair_from later seen ms = repair_from now seen ms"
proof (induction now seen ms rule: repair_from.induct)
  case (4 now seen a ms)
  show ?case
  proof (cases "errored a")
    case True
    with 4 show ?thesis by (simp add: repair_from.simps(4) split_beta)
  next
    case ok: False
    show ?thesis
    proof (cases "extract_tool_calls a = []")
      case True
      with 4 ok show ?thesis by (simp add: repair_from_plain)
    next
      case False
      define sp where "sp = scan_span (call_ids a) seen [] ms"
      obtain ts seen' ch where push: "push_results now (sp_results sp) seen (extract_tool_calls a) = (ts, seen', ch)"
        by (cases "push_results now (sp_results sp) seen (extract_tool_calls a)")
      have run: "repair_from k seen (Ai a # ms) = (case push_results k (sp_results sp) seen (extract_tool_calls a) of (ts, seen', ch1) \<Rightarrow>
          case repair_from k seen' (sp_rest sp) of (out, ch2) \<Rightarrow>
            (Ai a # map Tool ts @ map Tool (sp_remainder sp) @ out,
             sp_changed sp \<or> (sp_results sp \<noteq> [] \<and> sp_remainder sp \<noteq> []) \<or> ch1 \<or> ch2))" for k
        using ok False by (simp add: repair_from.simps(4) Let_def sp_def)
      have flags: "\<not> ch" "\<not> snd (repair_from now seen' (sp_rest sp))"
        using 4(4) unfolding run by (simp_all add: push split_beta)
      have "repair_from later seen' (sp_rest sp) = repair_from now seen' (sp_rest sp)"
        using 4(3) [OF ok refl False refl push [unfolded sp_def, symmetric] refl, folded sp_def] flags(2) by simp
      moreover have "push_results later (sp_results sp) seen (extract_tool_calls a) =
          push_results now (sp_results sp) seen (extract_tool_calls a)"
        by (rule push_results_clock) (simp add: push flags(1))
      ultimately show ?thesis by (simp add: run push)
    qed
  qed
qed (simp_all add: split_beta split: if_splits)

lemma sanitize_same_clock:
  assumes "filled ms" "\<not> snd (repair_from now [] ms)" "\<not> snd (drop_orphans [] (fst (repair_from now [] ms)))"
  shows "sanitize_tool_use_result_pairing later ms = ms"
  using assms repair_from_clock [OF assms(2), of later] filled_no_empty
  by (simp add: sanitize_tool_use_result_pairing_def Let_def split_beta)


text \<open>The pass is idempotent: running it again over a repaired list, at whatever clock, changes
  nothing, so the transcript written back before one model call is stable for the next.\<close>

theorem repair_is_idempotent:
  assumes "healthy ms"
  shows "sanitize_tool_use_result_pairing later (sanitize_tool_use_result_pairing now ms) =
    sanitize_tool_use_result_pairing now ms"
proof (cases rule: sanitize_cases [of now ms])
  case same
  then show ?thesis by (simp add: sanitize_same_clock)
next
  case (cleaned ns)
  have "healthy ns" using assms cleaned(3) fill_empty_healthy by auto
  from cleaned_normal [OF cleaned(2) this, of now, folded cleaned(1)]
  show ?thesis by (rule normal_stable)
qed

text \<open>What the pass keeps, on every input: all assistant messages in order, with the invalid
  calls of the erroneous ones cleared, and of the other messages exactly those that do not stand
  between an assistant message with calls and the next assistant message. A user's message that
  follows the results of a turn is therefore removed.\<close>

theorem repair_keeps_exactly:
  "filter is_ai (sanitize_tool_use_result_pairing now ms) = map tidy (filter is_ai ms) \<and>
   filter is_other (sanitize_tool_use_result_pairing now ms) = spoken False ms"
proof (cases rule: sanitize_cases [of now ms])
  case same
  then show ?thesis using repair_from_kinds [of now "[]" ms] by simp
next
  case (cleaned ns)
  then have "filter is_ai ns = filter is_ai ms \<and> spoken False ns = spoken False ms"
    using fill_empty_kinds by auto
  then show ?thesis
    unfolding cleaned(1) using drop_orphans_kinds [of "[]" "fst (repair_from now [] ns)"] repair_from_kinds [of now "[]" ns] by simp
qed

text \<open>What the pass does not repair. A result recorded twice stays twice when nothing else
  changes; a call id that was used in an earlier message loses its result; and an assistant message
  with an invalid call keeps its valid calls unanswered, so the repaired list is again one that a
  provider rejects.\<close>

theorem repair_blind_spots:
  assumes "extract_tool_calls a = [c]" "\<not> errored a" "extract_tool_calls b = [c]" "\<not> errored b"
    and "extract_tool_calls e = [c]" "has_invalid e"
    and "tm_call_id t = tc_id c" "truthy (tm_content t)" "tm_call_id u = tc_id c" "truthy (tm_content u)"
  shows "sanitize_tool_use_result_pairing now [Ai a, Tool t, Tool u] = [Ai a, Tool t, Tool u] \<and>
    sanitize_tool_use_result_pairing now [Ai a, Tool t, Ai b, Tool u] = [Ai a, Tool t, Ai b] \<and>
    sanitize_tool_use_result_pairing now [Ai e] = [Ai (e\<lparr>ai_invalid_calls := JList []\<rparr>)]"
proof -
  have id: "tc_id c \<noteq> []" using assms(1) call_nonempty by (metis list.set_intros(1))
  note defs = sanitize_tool_use_result_pairing_def Let_def empty_result_def repair_from.simps(4)
  have "sanitize_tool_use_result_pairing now [Ai a, Tool t, Tool u] = [Ai a, Tool t, Tool u]"
    using assms id by (simp add: defs)
  moreover have "sanitize_tool_use_result_pairing now [Ai a, Tool t, Ai b, Tool u] = [Ai a, Tool t, Ai b]"
    using assms id by (simp add: defs make_missing_tool_result_def)
  moreover have "sanitize_tool_use_result_pairing now [Ai e] = [Ai (e\<lparr>ai_invalid_calls := JList []\<rparr>)]"
    using assms id by (simp add: defs errored_def clear_invalid_def)
  ultimately show ?thesis by blast
qed

subsection \<open>Concrete transcripts\<close>

definition demo_call :: "string \<Rightarrow> json" where
  "demo_call i = JDict [(''name'', JStr ''terminal''), (''id'', JStr i), (''type'', JStr ''tool_call'')]"

definition demo_ai :: "string list \<Rightarrow> json list \<Rightarrow> ai_message" where
  "demo_ai ids invalid = \<lparr>ai_content = JStr [], ai_tool_calls = JList (map demo_call ids),
     ai_invalid_calls = JList invalid, ai_status = []\<rparr>"

definition demo_tool :: "string \<Rightarrow> string \<Rightarrow> tool_message" where
  "demo_tool i c = \<lparr>tm_content = JStr c, tm_call_id = i, tm_name = None, tm_status = ''success'', tm_kwargs = []\<rparr>"

text \<open>Two calls, one empty result, one result of an earlier turn that was trimmed, then the user.\<close>

definition demo_transcript :: "message list" where
  "demo_transcript =
    [Tool (demo_tool ''c0'' ''old''), Other ''human'' (JStr ''go''), Ai (demo_ai [''c1'', ''c2''] []),
     Tool (demo_tool ''c2'' []), Other ''human'' (JStr ''next'')]"

lemma demo_call_ids: "call_ids (demo_ai ids invalid) = filter (\<lambda>i. i \<noteq> []) ids"
  by (induction ids)
    (simp_all add: demo_ai_def demo_call_def extract_tool_calls_def map_filter_simps tool_call_of_def
      extract_tool_call_id_def jget_def nonempty_text_def)

lemma demo_calls: "extract_tool_calls (demo_ai [[c]] invalid) = [\<lparr>tc_id = [c], tc_name = Some ''terminal''\<rparr>]"
  by (simp add: demo_ai_def demo_call_def extract_tool_calls_def map_filter_simps tool_call_of_def
      extract_tool_call_id_def jget_def nonempty_text_def)

lemma demo_errored [simp]: "has_invalid (demo_ai ids invalid) = (invalid \<noteq> [])" "errored (demo_ai ids invalid) = (invalid \<noteq> [])"
  by (simp_all add: demo_ai_def errored_def has_invalid_def)

lemma demo_healthy: "healthy demo_transcript" "distinct (all_results demo_transcript)"
  by (simp_all add: demo_transcript_def demo_call_ids demo_tool_def del: map_map)


theorem repair_is_idempotent_witness:
  "sanitize_tool_use_result_pairing 9 (sanitize_tool_use_result_pairing 5 demo_transcript) =
    sanitize_tool_use_result_pairing 5 demo_transcript"
  by (rule repair_is_idempotent) (rule demo_healthy)

theorem repair_blind_spots_witness:
  "sanitize_tool_use_result_pairing 5 [Ai (demo_ai [''c''] []), Tool (demo_tool ''c'' ''1''), Tool (demo_tool ''c'' ''2'')] =
    [Ai (demo_ai [''c''] []), Tool (demo_tool ''c'' ''1''), Tool (demo_tool ''c'' ''2'')]"
proof -
  have "has_invalid (demo_ai [''c''] [JStr ''x''])" by simp
  then show ?thesis
    using repair_blind_spots [of "demo_ai [''c''] []" _ "demo_ai [''c''] []" "demo_ai [''c''] [JStr ''x'']"
      "demo_tool ''c'' ''1''" "demo_tool ''c'' ''2''" 5, OF demo_calls]
    by (simp add: demo_calls demo_tool_def)
qed

end
