(* ===== verification/Guardrails.thy ===== *)
theory Guardrails
  imports Py_Text
begin

section \<open>Breaking tool-call loops\<close>

text \<open>
  Models \<^verbatim>\<open>src/agent/middlewares/tool_guardrails/core.py\<close>: the state that a turn keeps per session,
  the evaluation of a finished tool call, the check before a call, and the wrapper that puts them
  around the tool. The digest \<open>md5\<close> is a parameter, and so is what a tool returns. The texts of the
  messages are reduced to what they report. The per-session lock makes an evaluation one step.
\<close>

subsection \<open>Configuration and state\<close>

datatype guard_action = G_ALLOW | G_WARN | G_BLOCK | G_HALT

fun action_rank :: "guard_action \<Rightarrow> nat" where
  "action_rank G_ALLOW = 0"
| "action_rank G_WARN = 1"
| "action_rank G_BLOCK = 2"
| "action_rank G_HALT = 3"

record guard_config =
  gc_warnings_enabled :: bool
  gc_hard_stop_enabled :: bool
  gc_exact_failure_warn :: int
  gc_exact_failure_block :: int
  gc_same_tool_warn :: int
  gc_same_tool_halt :: int
  gc_no_progress_warn :: int
  gc_no_progress_block :: int
  gc_ping_pong_warn :: int
  gc_ping_pong_block :: int
  gc_churn_min_calls :: int
  gc_churn_warn :: int
  gc_churn_block :: int
  gc_result_warn :: int
  gc_result_block :: int
  gc_streak_warn :: int
  gc_streak_max_warnings :: int
  gc_recovery_enabled :: bool
  gc_recovery_max_violations :: int

definition shipped_guard_config :: guard_config where
  "shipped_guard_config =
    \<lparr>gc_warnings_enabled = True, gc_hard_stop_enabled = False, gc_exact_failure_warn = 2,
     gc_exact_failure_block = 5, gc_same_tool_warn = 3, gc_same_tool_halt = 8, gc_no_progress_warn = 2,
     gc_no_progress_block = 5, gc_ping_pong_warn = 4, gc_ping_pong_block = 6, gc_churn_min_calls = 3,
     gc_churn_warn = 3, gc_churn_block = 5, gc_result_warn = 3, gc_result_block = 6, gc_streak_warn = 3,
     gc_streak_max_warnings = 3, gc_recovery_enabled = True, gc_recovery_max_violations = 1\<rparr>"

record call_record =
  cr_name :: string
  cr_args :: string
  cr_is_error :: bool
  cr_result :: "string option"
  cr_stagnant :: bool

datatype pathology = P_Ping_Pong | P_Churn | P_Result | P_Repetition

record guard_state =
  gs_records :: "call_record list"
  gs_exact_failures :: "(string \<times> nat) list"
  gs_tool_failures :: "(string \<times> nat) list"
  gs_no_progress :: "(string \<times> nat) list"
  gs_blocked_tools :: "string set"
  gs_halt :: "guard_action option"
  gs_ping_pong :: "(string \<times> nat) list"
  gs_churn :: "((string \<times> string) \<times> nat) list"
  gs_last_signature :: "string option"
  gs_streak :: nat
  gs_streak_warnings :: nat
  gs_blocked_signatures :: "string set"
  gs_last_results :: "(string \<times> string) list"
  gs_result_streaks :: "(string \<times> nat) list"
  gs_result_warned :: "string set"
  gs_pathology :: "(pathology \<times> nat \<times> int) option"
  gs_recovery :: bool
  gs_violations :: nat

definition fresh_guard_state :: guard_state where
  "fresh_guard_state =
    \<lparr>gs_records = [], gs_exact_failures = [], gs_tool_failures = [], gs_no_progress = [],
     gs_blocked_tools = {}, gs_halt = None, gs_ping_pong = [], gs_churn = [], gs_last_signature = None,
     gs_streak = 0, gs_streak_warnings = 0, gs_blocked_signatures = {}, gs_last_results = [],
     gs_result_streaks = [], gs_result_warned = {}, gs_pathology = None, gs_recovery = False,
     gs_violations = 0\<rparr>"

definition MAX_RECORDS :: nat where
  "MAX_RECORDS = 200"

subsection \<open>What the tool declares\<close>

text \<open>One call: the tool's metadata (\<^const>\<open>None\<close> when it has none), the value of the argument
  \<^verbatim>\<open>action\<close>, and the serialized arguments.\<close>

record guarded_call =
  ca_name :: string
  ca_metadata :: "(string \<times> json) list option"
  ca_action :: json
  ca_args :: string

record guarded_result =
  gr_error :: bool
  gr_content :: string

definition is_idempotent :: "guarded_call \<Rightarrow> bool" where
  "is_idempotent c =
    (case ca_metadata c of
       None \<Rightarrow> False
     | Some meta \<Rightarrow>
         (case jget ''idempotent_actions'' meta of
            JList allowed \<Rightarrow> (case ca_action c of JStr a \<Rightarrow> JStr a \<in> set allowed | _ \<Rightarrow> False)
          | _ \<Rightarrow> truthy (jget ''idempotent'' meta)))"

definition clears_blocks_on_progress :: "guarded_call \<Rightarrow> bool" where
  "clears_blocks_on_progress c =
    (case ca_metadata c of
       None \<Rightarrow> False
     | Some meta \<Rightarrow> jget ''clears_guardrail_blocks'' meta = JBool True)"

definition streak_threshold :: "guard_config \<Rightarrow> guarded_call \<Rightarrow> int" where
  "streak_threshold cfg c =
    (case ca_metadata c of
       None \<Rightarrow> gc_streak_warn cfg
     | Some meta \<Rightarrow>
         (case jget ''streak_warn_after'' meta of
            JInt n \<Rightarrow> if 0 < n then n else gc_streak_warn cfg
          | JBool b \<Rightarrow> if b then 1 else gc_streak_warn cfg
          | _ \<Rightarrow> gc_streak_warn cfg))"

definition clear_block_accumulators :: "guard_state \<Rightarrow> guard_state" where
  "clear_block_accumulators gs =
    gs\<lparr>gs_records := [], gs_exact_failures := [], gs_tool_failures := [], gs_no_progress := [],
       gs_ping_pong := [], gs_churn := [], gs_blocked_tools := {}, gs_blocked_signatures := {},
       gs_last_results := [], gs_result_streaks := [], gs_result_warned := {},
       gs_last_signature := None, gs_streak := 0, gs_pathology := None, gs_recovery := False,
       gs_violations := 0\<rparr>"

definition call_signature :: "string \<Rightarrow> string \<Rightarrow> string" where
  "call_signature name args_hash = name @ '':'' @ args_hash"

definition update_signature_streak :: "string \<Rightarrow> string \<Rightarrow> guard_state \<Rightarrow> guard_state" where
  "update_signature_streak name args_hash gs =
    (let s = call_signature name args_hash
     in if gs_last_signature gs = Some s then gs\<lparr>gs_streak := gs_streak gs + 1\<rparr>
        else gs\<lparr>gs_last_signature := Some s, gs_streak := 1\<rparr>)"

subsection \<open>The evaluation of a call\<close>

definition chain_action :: "guard_config \<Rightarrow> nat \<Rightarrow> int \<Rightarrow> int \<Rightarrow> guard_action option" where
  "chain_action cfg n warn_after block_after =
    (if gc_hard_stop_enabled cfg \<and> block_after \<le> int n then Some G_HALT
     else if block_after \<le> int n then Some G_BLOCK
     else if gc_warnings_enabled cfg \<and> warn_after \<le> int n then Some G_WARN
     else None)"

text \<open>Raise an action, never lower it.\<close>

definition escalate :: "guard_action \<Rightarrow> guard_action \<Rightarrow> guard_action" where
  "escalate new act = (if action_rank act < action_rank new then new else act)"

text \<open>Failures: the same call, and the same tool.\<close>

definition count_failure :: "guard_config \<Rightarrow> string \<Rightarrow> string \<Rightarrow> guard_state \<Rightarrow> guard_action \<times> guard_state" where
  "count_failure cfg name args_hash gs =
    (let key = call_signature name args_hash;
         exact = get_count (gs_exact_failures gs) key + 1;
         a1 = (case chain_action cfg exact (gc_exact_failure_warn cfg) (gc_exact_failure_block cfg) of
                 None \<Rightarrow> G_ALLOW | Some a \<Rightarrow> a);
         same = get_count (gs_tool_failures gs) name + 1;
         a2 = (case chain_action cfg same (gc_same_tool_warn cfg) (gc_same_tool_halt cfg) of
                 None \<Rightarrow> a1 | Some a \<Rightarrow> escalate a a1)
     in (a2, gs\<lparr>gs_exact_failures := dict_set key exact (gs_exact_failures gs),
                gs_tool_failures := dict_set name same (gs_tool_failures gs)\<rparr>))"

definition same_result :: "string \<Rightarrow> string \<Rightarrow> call_record \<Rightarrow> bool" where
  "same_result name r rec = (cr_name rec = name \<and> cr_result rec = Some r)"

text \<open>A successful idempotent call whose result an earlier call already gave. The current call is
  itself among the records.\<close>

definition count_no_progress :: "guard_config \<Rightarrow> string \<Rightarrow> string option \<Rightarrow> bool \<Rightarrow> guard_state \<Rightarrow> guard_action \<times> guard_state" where
  "count_no_progress cfg name result_hash idempotent gs =
    (case result_hash of
       Some r \<Rightarrow>
         if idempotent \<and> list_ex (same_result name r) (gs_records gs)
         then (let key = name @ '':'' @ r; n = get_count (gs_no_progress gs) key + 1
               in (case chain_action cfg n (gc_no_progress_warn cfg) (gc_no_progress_block cfg) of
                     None \<Rightarrow> G_ALLOW | Some a \<Rightarrow> a,
                   gs\<lparr>gs_no_progress := dict_set key n (gs_no_progress gs)\<rparr>))
         else (G_ALLOW, gs)
     | None \<Rightarrow> (G_ALLOW, gs))"

text \<open>Ping-pong between two stagnant calls; an ordinary call in between resets all pairs.\<close>

definition pair_key :: "string \<Rightarrow> string \<Rightarrow> string" where
  "pair_key a b = join '','' (sort [a, b])"

definition ping_pong_step ::
    "guard_config \<Rightarrow> string \<Rightarrow> bool \<Rightarrow> guard_action \<Rightarrow> guard_state \<Rightarrow> guard_action \<times> guard_state" where
  "ping_pong_step cfg name stagnant act gs =
    (if length (gs_records gs) < 2 then (act, gs)
     else
       (let prev = gs_records gs ! (length (gs_records gs) - 2);
            key = pair_key (cr_name prev) name
        in if stagnant \<and> cr_stagnant prev
           then (let n = get_count (gs_ping_pong gs) key + 1;
                     gs1 = gs\<lparr>gs_ping_pong := dict_set key n (gs_ping_pong gs)\<rparr>
                 in case chain_action cfg n (gc_ping_pong_warn cfg) (gc_ping_pong_block cfg) of
                      None \<Rightarrow> (act, gs1)
                    | Some a \<Rightarrow> (escalate a act, gs1\<lparr>gs_pathology := Some (P_Ping_Pong, n, gc_ping_pong_block cfg)\<rparr>))
           else (act, gs\<lparr>gs_ping_pong := dict_set key 0 (map (\<lambda>(k, n). (k, 0)) (gs_ping_pong gs))\<rparr>)))"

text \<open>One tool churning through argument variants.\<close>

definition churn_step ::
    "guard_config \<Rightarrow> string \<Rightarrow> string \<Rightarrow> string option \<Rightarrow> bool \<Rightarrow> bool \<Rightarrow> guard_action \<Rightarrow> guard_state
     \<Rightarrow> guard_action \<times> guard_state" where
  "churn_step cfg name args_hash result_hash is_error stagnant act gs =
    (if is_error then (act, gs)
     else if stagnant
     then (let key = (name, args_hash);
               gs1 = gs\<lparr>gs_churn := dict_set key (get_count (gs_churn gs) key + 1) (gs_churn gs)\<rparr>
           in if act \<in> {G_ALLOW, G_WARN}
              then (let n = count_where (\<lambda>(k, m). gc_churn_min_calls cfg \<le> int m) (gs_churn gs1)
                    in case chain_action cfg n (gc_churn_warn cfg) (gc_churn_block cfg) of
                         None \<Rightarrow> (act, gs1)
                       | Some a \<Rightarrow> (escalate a act, gs1\<lparr>gs_pathology := Some (P_Churn, n, gc_churn_block cfg)\<rparr>))
              else (act, gs1))
     else if result_hash = None then (act, gs\<lparr>gs_churn := []\<rparr>)
     else (act, gs))"

definition evaluate_pair_pathologies ::
    "guard_config \<Rightarrow> string \<Rightarrow> string \<Rightarrow> string option \<Rightarrow> bool \<Rightarrow> bool \<Rightarrow> guard_action \<Rightarrow> guard_state
     \<Rightarrow> guard_action \<times> guard_state" where
  "evaluate_pair_pathologies cfg name args_hash result_hash is_error stagnant act gs =
    (case ping_pong_step cfg name stagnant act gs of (a, gs1) \<Rightarrow>
       churn_step cfg name args_hash result_hash is_error stagnant a gs1)"

text \<open>The same result from different calls of a tool that is not idempotent.\<close>

definition result_repetition_step ::
    "guard_config \<Rightarrow> string \<Rightarrow> bool \<Rightarrow> bool \<Rightarrow> string option \<Rightarrow> guard_action \<Rightarrow> guard_state \<Rightarrow> guard_action \<times> guard_state" where
  "result_repetition_step cfg name is_error idempotent output_hash act gs =
    (case output_hash of
       Some out \<Rightarrow>
         if act \<noteq> G_HALT \<and> \<not> is_error \<and> \<not> idempotent
         then
           (let repeated = (dict_get (gs_last_results gs) name = Some out);
                streak = (if repeated then get_count (gs_result_streaks gs) name + 1 else 1);
                gs1 = gs\<lparr>gs_last_results := (if repeated then gs_last_results gs else dict_set name out (gs_last_results gs)),
                         gs_result_streaks := dict_set name streak (gs_result_streaks gs)\<rparr>;
                found = Some (P_Result, streak, gc_result_block cfg)
            in if gc_result_block cfg \<le> int streak
               then (let a = (if gc_hard_stop_enabled cfg then G_HALT else G_BLOCK)
                     in if action_rank act < action_rank a then (a, gs1\<lparr>gs_pathology := found\<rparr>) else (act, gs1))
               else if gc_result_warn cfg \<le> int streak \<and> name \<notin> gs_result_warned gs1
               then (let gs2 = gs1\<lparr>gs_result_warned := insert name (gs_result_warned gs1)\<rparr>
                     in if act = G_ALLOW \<and> gc_warnings_enabled cfg
                        then (G_WARN, gs2\<lparr>gs_pathology := found\<rparr>) else (act, gs2))
               else (act, gs1))
         else (act, gs)
     | None \<Rightarrow> (act, gs))"

text \<open>The same call again, whatever its status: warnings first, then the call itself is blocked.\<close>

definition signature_step ::
    "guard_config \<Rightarrow> guarded_call \<Rightarrow> string \<Rightarrow> string \<Rightarrow> guard_action \<Rightarrow> guard_state \<Rightarrow> guard_action \<times> guard_state" where
  "signature_step cfg c name args_hash act gs =
    (if act = G_ALLOW \<and> gc_warnings_enabled cfg \<and> streak_threshold cfg c \<le> int (gs_streak gs)
     then
       (let found = Some (P_Repetition, gs_streak gs, streak_threshold cfg c)
        in if int (gs_streak_warnings gs) < gc_streak_max_warnings cfg
           then (G_WARN, gs\<lparr>gs_streak_warnings := gs_streak_warnings gs + 1, gs_pathology := found, gs_streak := 0\<rparr>)
           else (if gc_hard_stop_enabled cfg then G_HALT else G_BLOCK,
                 gs\<lparr>gs_blocked_signatures := insert (call_signature name args_hash) (gs_blocked_signatures gs),
                    gs_pathology := found, gs_streak := 0\<rparr>))
     else (act, gs))"

definition pathology_is :: "pathology \<Rightarrow> guard_state \<Rightarrow> bool" where
  "pathology_is p gs = (case gs_pathology gs of None \<Rightarrow> False | Some (q, _) \<Rightarrow> q = p)"

text \<open>Recovery mode: the first block enters it, further blocks are violations.\<close>

definition recovery_step :: "guard_config \<Rightarrow> guard_action \<Rightarrow> guard_state \<Rightarrow> guard_action \<times> guard_state" where
  "recovery_step cfg act gs =
    (if act = G_BLOCK \<and> gc_recovery_enabled cfg \<and> \<not> (pathology_is P_Repetition gs \<or> pathology_is P_Result gs)
     then (if \<not> gs_recovery gs then (act, gs\<lparr>gs_recovery := True\<rparr>)
           else (let v = gs_violations gs + 1
                 in (if gc_recovery_max_violations cfg < int v then G_HALT else act, gs\<lparr>gs_violations := v\<rparr>)))
     else (act, gs))"

definition close_step :: "string \<Rightarrow> guard_action \<Rightarrow> guard_state \<Rightarrow> guard_action \<times> guard_state" where
  "close_step name act gs =
    (if act = G_HALT then (act, gs\<lparr>gs_halt := Some G_HALT\<rparr>)
     else if act = G_BLOCK \<and> \<not> pathology_is P_Repetition gs
     then (act, gs\<lparr>gs_blocked_tools := insert name (gs_blocked_tools gs)\<rparr>)
     else (act, gs))"

definition evaluate_call ::
    "guard_config \<Rightarrow> guarded_call \<Rightarrow> string \<Rightarrow> string option \<Rightarrow> string option \<Rightarrow> bool \<Rightarrow> bool \<Rightarrow> bool \<Rightarrow> guard_state
     \<Rightarrow> guard_action \<times> guard_state" where
  "evaluate_call cfg c args_hash result_hash output_hash is_error idempotent stagnant gs =
    (let name = ca_name c;
         gs0 = update_signature_streak name args_hash (gs\<lparr>gs_pathology := None\<rparr>)
     in if gs_halt gs0 \<noteq> None then (G_HALT, gs0)
        else if name \<in> gs_blocked_tools gs0 then (G_BLOCK, gs0)
        else
          (let (a1, gs1) = (if is_error then count_failure cfg name args_hash gs0
                            else count_no_progress cfg name result_hash idempotent gs0);
               (a2, gs2) = (if a1 \<in> {G_ALLOW, G_WARN}
                            then evaluate_pair_pathologies cfg name args_hash result_hash is_error stagnant a1 gs1
                            else (a1, gs1));
               (a3, gs3) = result_repetition_step cfg name is_error idempotent output_hash a2 gs2;
               (a4, gs4) = signature_step cfg c name args_hash a3 gs3;
               (a5, gs5) = recovery_step cfg a4 gs4
           in close_step name a5 gs5))"

subsection \<open>The wrapper\<close>

text \<open>What the model gets to see: the result itself, with a warning, or a refusal.\<close>

datatype guard_reply =
  R_Result guarded_result
| R_Warned guarded_result string nat int
| R_Blocked string nat int
| R_Recovery nat int
| R_Halted string

fun pathology_label :: "pathology \<Rightarrow> string" where
  "pathology_label P_Ping_Pong = ''ping-pong loop''"
| "pathology_label P_Churn = ''argument churn''"
| "pathology_label P_Result = ''repeated identical result''"
| "pathology_label P_Repetition = ''repeated identical call''"

definition halt_reply :: "guard_state \<Rightarrow> guard_reply" where
  "halt_reply gs =
    (if gs_recovery gs then R_Halted ''recovery mode violation limit exceeded''
     else case gs_pathology gs of
            Some (p, _) \<Rightarrow> R_Halted (pathology_label p)
          | None \<Rightarrow> R_Halted ''excessive repetition'')"

definition no_progress_count :: "string \<Rightarrow> string option \<Rightarrow> guard_state \<Rightarrow> nat" where
  "no_progress_count name result_hash gs =
    get_count (gs_no_progress gs) (case result_hash of Some r \<Rightarrow> name @ '':'' @ r | None \<Rightarrow> [])"

definition block_reply :: "guard_config \<Rightarrow> string \<Rightarrow> string \<Rightarrow> string option \<Rightarrow> bool \<Rightarrow> guard_state \<Rightarrow> guard_reply" where
  "block_reply cfg name args_hash result_hash is_error gs =
    (case gs_pathology gs of
       Some (p, n, limit) \<Rightarrow> R_Blocked (pathology_label p) n limit
     | None \<Rightarrow>
         if gs_recovery gs then R_Recovery (gs_violations gs) (gc_recovery_max_violations cfg)
         else if is_error
         then (let same = get_count (gs_tool_failures gs) name
               in if gc_same_tool_halt cfg \<le> int same
                  then R_Blocked ''same-tool failure accumulation'' same (gc_same_tool_halt cfg)
                  else R_Blocked ''exact failure repetition''
                         (get_count (gs_exact_failures gs) (call_signature name args_hash)) (gc_exact_failure_block cfg))
         else R_Blocked ''idempotent no-progress'' (no_progress_count name result_hash gs) (gc_no_progress_block cfg))"

definition warn_reply ::
    "guard_config \<Rightarrow> string \<Rightarrow> string \<Rightarrow> string option \<Rightarrow> guarded_result \<Rightarrow> guard_state \<Rightarrow> guard_reply" where
  "warn_reply cfg name args_hash result_hash r gs =
    (case gs_pathology gs of
       Some (p, n, limit) \<Rightarrow> R_Warned r (pathology_label p) n limit
     | None \<Rightarrow>
         if gr_error r
         then (let exact = get_count (gs_exact_failures gs) (call_signature name args_hash)
               in if gc_exact_failure_warn cfg \<le> int exact
                  then R_Warned r ''exact failure repetition'' exact (gc_exact_failure_block cfg)
                  else R_Warned r ''same-tool failure accumulation'' (get_count (gs_tool_failures gs) name)
                         (gc_same_tool_halt cfg))
         else R_Warned r ''idempotent no-progress'' (no_progress_count name result_hash gs) (gc_no_progress_block cfg))"

text \<open>After the tool has run.\<close>

definition after_call ::
    "(string \<Rightarrow> string) \<Rightarrow> guard_config \<Rightarrow> guarded_call \<Rightarrow> guarded_result \<Rightarrow> guard_state \<Rightarrow> guard_reply \<times> guard_state" where
  "after_call md5 cfg c r gs =
    (let name = ca_name c;
         args_hash = md5 (ca_args c);
         idempotent = is_idempotent c;
         output_hash = (if gr_error r then None else Some (md5 (gr_content r)));
         result_hash = (if idempotent then output_hash else None);
         gs1 = (if \<not> gr_error r \<and> clears_blocks_on_progress c then clear_block_accumulators gs else gs);
         stagnant = (case result_hash of None \<Rightarrow> False | Some h \<Rightarrow> list_ex (same_result name h) (gs_records gs1));
         recs = gs_records gs1 @ [\<lparr>cr_name = name, cr_args = args_hash, cr_is_error = gr_error r,
                  cr_result = result_hash, cr_stagnant = stagnant\<rparr>];
         gs2 = gs1\<lparr>gs_records := drop (length recs - MAX_RECORDS) recs\<rparr>;
         (act, gs3) = evaluate_call cfg c args_hash result_hash output_hash (gr_error r) idempotent stagnant gs2
     in (case act of
           G_HALT \<Rightarrow> halt_reply gs3
         | G_BLOCK \<Rightarrow> block_reply cfg name args_hash result_hash (gr_error r) gs3
         | G_WARN \<Rightarrow> warn_reply cfg name args_hash result_hash r gs3
         | G_ALLOW \<Rightarrow> R_Result r, gs3))"

text \<open>Before the tool runs: a refusal, or permission; recovery mode releases a blocked tool here.\<close>

definition precheck ::
    "(string \<Rightarrow> string) \<Rightarrow> guard_config \<Rightarrow> guarded_call \<Rightarrow> guard_state \<Rightarrow> guard_reply option \<times> guard_state" where
  "precheck md5 cfg c gs =
    (if gs_halt gs \<noteq> None then (Some (R_Halted ''previous halt''), gs)
     else if call_signature (ca_name c) (md5 (ca_args c)) \<in> gs_blocked_signatures gs
     then (Some (R_Blocked ''repeated identical call'' 0 0), gs)
     else if gc_recovery_enabled cfg \<and> gs_recovery gs \<and> ca_name c \<in> gs_blocked_tools gs
     then (None, gs\<lparr>gs_blocked_tools := gs_blocked_tools gs - {ca_name c}\<rparr>)
     else if ca_name c \<in> gs_blocked_tools gs
     then (Some (R_Blocked ''previously blocked'' 0 0), gs)
     else (None, gs))"

text \<open>One wrapped call; the flag says whether the tool was run.\<close>

definition wrap_tool_call ::
    "(string \<Rightarrow> string) \<Rightarrow> guard_config \<Rightarrow> guarded_call \<Rightarrow> guarded_result \<Rightarrow> guard_state \<Rightarrow> (bool \<times> guard_reply) \<times> guard_state" where
  "wrap_tool_call md5 cfg c r gs =
    (case precheck md5 cfg c gs of
       (Some reply, gs1) \<Rightarrow> ((False, reply), gs1)
     | (None, gs1) \<Rightarrow> (case after_call md5 cfg c r gs1 of (reply, gs2) \<Rightarrow> ((True, reply), gs2)))"

text \<open>A turn: the state is fresh, the calls come one after the other, each with what its tool would
  return.\<close>

fun guarded_calls ::
    "(string \<Rightarrow> string) \<Rightarrow> guard_config \<Rightarrow> (guarded_call \<times> guarded_result) list \<Rightarrow> guard_state
     \<Rightarrow> (bool \<times> guard_reply) list \<times> guard_state" where
  "guarded_calls md5 cfg [] gs = ([], gs)"
| "guarded_calls md5 cfg ((c, r) # cs) gs =
    (case wrap_tool_call md5 cfg c r gs of (x, gs1) \<Rightarrow>
     case guarded_calls md5 cfg cs gs1 of (xs, gs2) \<Rightarrow> (x # xs, gs2))"

definition guarded_turn ::
    "(string \<Rightarrow> string) \<Rightarrow> guard_config \<Rightarrow> (guarded_call \<times> guarded_result) list \<Rightarrow> (bool \<times> guard_reply) list \<times> guard_state" where
  "guarded_turn md5 cfg cs = guarded_calls md5 cfg cs fresh_guard_state"

subsection \<open>What the stages leave alone\<close>

text \<open>The fields that decide how long a turn goes on.\<close>

definition guard_core :: "guard_state \<Rightarrow> (string \<times> nat) list \<times> bool \<times> nat \<times> guard_action option" where
  "guard_core gs = (gs_tool_failures gs, gs_recovery gs, gs_violations gs, gs_halt gs)"

lemma guard_core_updates [simp]:
  "guard_core (gs\<lparr>gs_pathology := p\<rparr>) = guard_core gs" "guard_core (gs\<lparr>gs_records := rs\<rparr>) = guard_core gs"
  "guard_core (gs\<lparr>gs_blocked_tools := ts\<rparr>) = guard_core gs"
  by (simp_all add: guard_core_def)

lemma update_signature_streak_keeps [simp]:
  "guard_core (update_signature_streak name args_hash gs) = guard_core gs"
  "gs_blocked_tools (update_signature_streak name args_hash gs) = gs_blocked_tools gs"
  "gs_pathology (update_signature_streak name args_hash gs) = gs_pathology gs"
  by (simp_all add: update_signature_streak_def guard_core_def Let_def)

lemma count_no_progress_core [simp]: "guard_core (snd (count_no_progress cfg name rh idempotent gs)) = guard_core gs"
  by (simp add: count_no_progress_def guard_core_def Let_def split: option.split)

lemma ping_pong_core [simp]: "guard_core (snd (ping_pong_step cfg name stagnant act gs)) = guard_core gs"
  by (simp add: ping_pong_step_def guard_core_def Let_def split: option.split)

lemma churn_core [simp]: "guard_core (snd (churn_step cfg name args_hash rh is_error stagnant act gs)) = guard_core gs"
  by (simp add: churn_step_def guard_core_def Let_def split: option.split)

lemma pair_core [simp]:
  "guard_core (snd (evaluate_pair_pathologies cfg name args_hash rh is_error stagnant act gs)) = guard_core gs"
  by (simp add: evaluate_pair_pathologies_def split_beta)

lemma result_repetition_core [simp]:
  "guard_core (snd (result_repetition_step cfg name is_error idempotent oh act gs)) = guard_core gs"
  by (simp add: result_repetition_step_def guard_core_def Let_def split: option.split)

lemma signature_core [simp]: "guard_core (snd (signature_step cfg c name args_hash act gs)) = guard_core gs"
  by (simp add: signature_step_def guard_core_def Let_def)

lemma guard_core_fields:
  "guard_core a = guard_core b \<Longrightarrow> gs_tool_failures a = gs_tool_failures b \<and> gs_recovery a = gs_recovery b \<and>
    gs_violations a = gs_violations b \<and> gs_halt a = gs_halt b"
  by (simp add: guard_core_def)

text \<open>The evaluation as a pipeline.\<close>

definition rate_call ::
    "guard_config \<Rightarrow> guarded_call \<Rightarrow> string \<Rightarrow> string option \<Rightarrow> string option \<Rightarrow> bool \<Rightarrow> bool \<Rightarrow> bool \<Rightarrow> guard_action \<Rightarrow> guard_state
     \<Rightarrow> guard_action \<times> guard_state" where
  "rate_call cfg c args_hash rh oh is_error idempotent stagnant act gs =
    (let (a2, gs2) = (if act \<in> {G_ALLOW, G_WARN}
                      then evaluate_pair_pathologies cfg (ca_name c) args_hash rh is_error stagnant act gs else (act, gs));
         (a3, gs3) = result_repetition_step cfg (ca_name c) is_error idempotent oh a2 gs2
     in signature_step cfg c (ca_name c) args_hash a3 gs3)"

lemma rate_call_core [simp]: "guard_core (snd (rate_call cfg c args_hash rh oh is_error idempotent stagnant act gs)) = guard_core gs"
  by (simp add: rate_call_def split_beta)

lemma rate_call_failed:
  "2 \<le> action_rank act \<Longrightarrow> rate_call cfg c args_hash rh None True idempotent stagnant act gs = (act, gs)"
  by (cases act) (simp_all add: rate_call_def result_repetition_step_def signature_step_def)

definition settle_call :: "guard_config \<Rightarrow> string \<Rightarrow> guard_action \<times> guard_state \<Rightarrow> guard_action \<times> guard_state" where
  "settle_call cfg name p = (case recovery_step cfg (fst p) (snd p) of (a, gs) \<Rightarrow> close_step name a gs)"

lemma evaluate_call_pipeline:
  fixes gs args_hash c
  defines "gs0 \<equiv> update_signature_streak (ca_name c) args_hash (gs\<lparr>gs_pathology := None\<rparr>)"
  assumes "gs_halt gs = None" and "ca_name c \<notin> gs_blocked_tools gs"
  shows "evaluate_call cfg c args_hash rh oh is_error idempotent stagnant gs =
    settle_call cfg (ca_name c)
      (case (if is_error then count_failure cfg (ca_name c) args_hash gs0 else count_no_progress cfg (ca_name c) rh idempotent gs0) of
         (a1, gs1) \<Rightarrow> rate_call cfg c args_hash rh oh is_error idempotent stagnant a1 gs1)"
proof -
  have "gs_halt gs0 = None" using assms(2) guard_core_fields [of gs0 "gs\<lparr>gs_pathology := None\<rparr>"] by (simp add: gs0_def)
  moreover have "ca_name c \<notin> gs_blocked_tools gs0" using assms(3) by (simp add: gs0_def)
  ultimately show ?thesis
    unfolding evaluate_call_def gs0_def [symmetric] settle_call_def rate_call_def Let_def split_beta by simp
qed

subsection \<open>A turn of failures ends\<close>

text \<open>
  What is used up: every tool may fail a bounded number of times without being blocked, and every
  block enters recovery mode or is a violation.
\<close>

definition strikes :: "guard_config \<Rightarrow> guard_state \<Rightarrow> int" where
  "strikes cfg gs =
    (if gs_halt gs \<noteq> None then gc_recovery_max_violations cfg + 2
     else if gs_recovery gs then 1 + int (gs_violations gs) else 0)"

definition failures_used :: "guard_config \<Rightarrow> string set \<Rightarrow> guard_state \<Rightarrow> int" where
  "failures_used cfg tools gs = (\<Sum>t \<in> tools. min (gc_same_tool_halt cfg - 1) (int (get_count (gs_tool_failures gs) t)))"

definition guard_ok :: "guard_config \<Rightarrow> guard_state \<Rightarrow> bool" where
  "guard_ok cfg gs =
    (gs_halt gs = None \<longrightarrow>
       (if gs_recovery gs then int (gs_violations gs) \<le> gc_recovery_max_violations cfg else gs_violations gs = 0))"

lemma settle_call_strikes:
  assumes "guard_ok cfg gs" "gs_halt gs = None" "0 \<le> gc_recovery_max_violations cfg" "gc_recovery_enabled cfg"
  shows "guard_ok cfg (snd (settle_call cfg name (act, gs))) \<and>
    gs_tool_failures (snd (settle_call cfg name (act, gs))) = gs_tool_failures gs \<and>
    strikes cfg gs \<le> strikes cfg (snd (settle_call cfg name (act, gs))) \<and>
    (2 \<le> action_rank act \<and> gs_pathology gs = None \<longrightarrow> strikes cfg gs + 1 \<le> strikes cfg (snd (settle_call cfg name (act, gs))))"
proof -
  have bound: "strikes cfg gs \<le> gc_recovery_max_violations cfg + 1"
    using assms by (auto simp: strikes_def guard_ok_def split: if_splits)
  show ?thesis
  proof (cases act)
    case G_HALT
    have "settle_call cfg name (act, gs) = (G_HALT, gs\<lparr>gs_halt := Some G_HALT\<rparr>)"
      by (simp add: settle_call_def recovery_step_def close_step_def G_HALT)
    then show ?thesis using bound by (simp add: guard_ok_def strikes_def)
  next
    case G_BLOCK
    show ?thesis
    proof (cases "pathology_is P_Repetition gs \<or> pathology_is P_Result gs")
      case True
      then have "recovery_step cfg act gs = (act, gs)" "gs_pathology gs \<noteq> None"
        by (auto simp: recovery_step_def pathology_is_def split: option.splits)
      then show ?thesis
        using assms(1,2) by (auto simp: settle_call_def close_step_def guard_ok_def strikes_def G_BLOCK)
    next
      case free: False
      show ?thesis
      proof (cases "gs_recovery gs")
        case False
        with free G_BLOCK assms(4) have "recovery_step cfg act gs = (G_BLOCK, gs\<lparr>gs_recovery := True\<rparr>)"
          by (simp add: recovery_step_def)
        then show ?thesis
          using assms(1-3) False by (auto simp: settle_call_def close_step_def guard_ok_def strikes_def)
      next
        case True
        with free G_BLOCK assms(4) have "recovery_step cfg act gs =
            (if gc_recovery_max_violations cfg < int (gs_violations gs + 1) then G_HALT else G_BLOCK,
             gs\<lparr>gs_violations := gs_violations gs + 1\<rparr>)"
          by (simp add: recovery_step_def Let_def)
        then show ?thesis
          using assms(1-3) True by (auto simp: settle_call_def close_step_def guard_ok_def strikes_def)
      qed
    qed
  qed (use assms in \<open>auto simp: settle_call_def recovery_step_def close_step_def guard_ok_def strikes_def\<close>)
qed

lemma count_failure_rank:
  "gc_same_tool_halt cfg \<le> int (get_count (gs_tool_failures gs) name + 1) \<Longrightarrow>
    2 \<le> action_rank (fst (count_failure cfg name args_hash gs))"
  by (auto simp: count_failure_def Let_def chain_action_def escalate_def split: option.split)

lemma count_failure_fields:
  "gs_tool_failures (snd (count_failure cfg name args_hash gs)) =
     dict_set name (get_count (gs_tool_failures gs) name + 1) (gs_tool_failures gs)"
  "gs_recovery (snd (count_failure cfg name args_hash gs)) = gs_recovery gs"
  "gs_violations (snd (count_failure cfg name args_hash gs)) = gs_violations gs"
  "gs_halt (snd (count_failure cfg name args_hash gs)) = gs_halt gs"
  "gs_pathology (snd (count_failure cfg name args_hash gs)) = gs_pathology gs"
  by (simp_all add: count_failure_def Let_def)

lemma failures_used_same: "gs_tool_failures a = gs_tool_failures b \<Longrightarrow> failures_used cfg tools a = failures_used cfg tools b"
  by (simp add: failures_used_def)

lemma failures_used_set:
  assumes "finite tools" "name \<in> tools" "gs_tool_failures b = dict_set name (get_count (gs_tool_failures a) name + 1) (gs_tool_failures a)"
  shows "failures_used cfg tools a \<le> failures_used cfg tools b"
    and "int (get_count (gs_tool_failures a) name + 1) < gc_same_tool_halt cfg \<Longrightarrow>
      failures_used cfg tools a + 1 \<le> failures_used cfg tools b"
proof -
  let ?m = "\<lambda>gs t. min (gc_same_tool_halt cfg - 1) (int (get_count (gs_tool_failures gs) t))"
  have split: "failures_used cfg tools gs = ?m gs name + (\<Sum>t \<in> tools - {name}. ?m gs t)" for gs
    unfolding failures_used_def by (rule sum.remove [OF assms(1,2)])
  have "(\<Sum>t \<in> tools - {name}. ?m a t) = (\<Sum>t \<in> tools - {name}. ?m b t)"
    by (rule sum.cong) (auto simp: assms(3))
  moreover have "get_count (gs_tool_failures b) name = get_count (gs_tool_failures a) name + 1"
    by (simp add: assms(3))
  ultimately show "failures_used cfg tools a \<le> failures_used cfg tools b"
    "int (get_count (gs_tool_failures a) name + 1) < gc_same_tool_halt cfg \<Longrightarrow> failures_used cfg tools a + 1 \<le> failures_used cfg tools b"
    by (simp_all add: split) linarith
qed

text \<open>One wrapped call.\<close>

definition progress_call :: "guarded_call \<times> guarded_result \<Rightarrow> bool" where
  "progress_call p = (\<not> gr_error (snd p) \<and> clears_blocks_on_progress (fst p))"

definition used_up :: "guard_config \<Rightarrow> string set \<Rightarrow> guard_state \<Rightarrow> int" where
  "used_up cfg tools gs = failures_used cfg tools gs + strikes cfg gs"

lemma after_call_evaluates:
  assumes "\<not> progress_call (c, r)"
  obtains gs' rh stagnant where "guard_core gs' = guard_core gs" "gs_blocked_tools gs' = gs_blocked_tools gs"
    "snd (after_call md5 cfg c r gs) =
      snd (evaluate_call cfg c (md5 (ca_args c)) rh (if gr_error r then None else Some (md5 (gr_content r)))
        (gr_error r) (is_idempotent c) stagnant gs')"
proof -
  have keep: "(if \<not> gr_error r \<and> clears_blocks_on_progress c then clear_block_accumulators gs else gs) = gs"
    using assms by (auto simp: progress_call_def)
  show ?thesis
    by (rule that [of "gs\<lparr>gs_records := rs\<rparr>" "rh" "st" for rs rh st])
      (simp_all add: after_call_def keep Let_def split_beta guard_core_def del: if_split)
qed

lemma evaluate_call_used:
  fixes args_hash rh idempotent stagnant
  assumes "guard_ok cfg gs" "gs_halt gs = None" "ca_name c \<notin> gs_blocked_tools gs" "finite tools" "ca_name c \<in> tools"
    and "0 \<le> gc_recovery_max_violations cfg" "gc_recovery_enabled cfg" and "is_error \<longrightarrow> oh = None"
  defines "gs' \<equiv> snd (evaluate_call cfg c args_hash rh oh is_error idempotent stagnant gs)"
  shows "guard_ok cfg gs' \<and> used_up cfg tools gs + (if is_error then 1 else 0) \<le> used_up cfg tools gs'"
proof -
  define gs0 where "gs0 = update_signature_streak (ca_name c) args_hash (gs\<lparr>gs_pathology := None\<rparr>)"
  have core0: "guard_core gs0 = guard_core gs" "gs_pathology gs0 = None" by (simp_all add: gs0_def)
  define p1 where "p1 = (if is_error then count_failure cfg (ca_name c) args_hash gs0
      else count_no_progress cfg (ca_name c) rh idempotent gs0)"
  define p2 where "p2 = rate_call cfg c args_hash rh oh is_error idempotent stagnant (fst p1) (snd p1)"
  have run: "gs' = snd (settle_call cfg (ca_name c) p2)"
    unfolding gs'_def evaluate_call_pipeline [OF assms(2,3)] p2_def p1_def gs0_def by (simp add: split_beta)
  have core2: "guard_core (snd p2) = guard_core (snd p1)" by (simp add: p2_def)
  have same: "gs_recovery (snd p1) = gs_recovery gs" "gs_violations (snd p1) = gs_violations gs" "gs_halt (snd p1) = gs_halt gs"
    using guard_core_fields [OF core0(1)] guard_core_fields [OF count_no_progress_core [of cfg "ca_name c" rh idempotent gs0]]
    by (simp_all add: p1_def count_failure_fields)
  note f2 = guard_core_fields [OF core2]
  have strikes2: "strikes cfg (snd p2) = strikes cfg gs" using f2 same by (simp add: strikes_def)
  have ok2: "guard_ok cfg (snd p2)" "gs_halt (snd p2) = None"
    using assms(1,2) f2 same by (simp_all add: guard_ok_def)
  have settled: "guard_ok cfg gs' \<and> gs_tool_failures gs' = gs_tool_failures (snd p1) \<and> strikes cfg gs \<le> strikes cfg gs' \<and>
      (2 \<le> action_rank (fst p2) \<and> gs_pathology (snd p2) = None \<longrightarrow> strikes cfg gs + 1 \<le> strikes cfg gs')"
    using settle_call_strikes [OF ok2 assms(6,7), of "ca_name c" "fst p2"] f2 by (simp add: run strikes2)
  show ?thesis
  proof (cases is_error)
    case False
    then have "gs_tool_failures (snd p1) = gs_tool_failures gs"
      using guard_core_fields [OF core0(1)] guard_core_fields [OF count_no_progress_core [of cfg "ca_name c" rh idempotent gs0]]
      by (simp add: p1_def)
    then have "failures_used cfg tools gs' = failures_used cfg tools gs" using settled by (intro failures_used_same) simp
    with settled False show ?thesis by (simp add: used_up_def)
  next
    case True
    have grown: "gs_tool_failures gs' = dict_set (ca_name c) (get_count (gs_tool_failures gs) (ca_name c) + 1) (gs_tool_failures gs)"
      using settled True guard_core_fields [OF core0(1)] by (simp add: p1_def count_failure_fields)
    note used = failures_used_set [OF assms(4,5) grown, of cfg]
    show ?thesis
    proof (cases "int (get_count (gs_tool_failures gs) (ca_name c) + 1) < gc_same_tool_halt cfg")
      case small: True
      with used(2) settled True show ?thesis by (simp add: used_up_def)
    next
      case False
      have "2 \<le> action_rank (fst p1)"
        using False True guard_core_fields [OF core0(1)] by (simp add: p1_def count_failure_rank)
      moreover have "p2 = p1"
        using rate_call_failed [OF calculation] assms(8) True by (simp add: p2_def)
      moreover have "gs_pathology (snd p1) = None" using True core0(2) by (simp add: p1_def count_failure_fields)
      ultimately have "strikes cfg gs + 1 \<le> strikes cfg gs'" using settled by simp
      with used(1) settled True show ?thesis by (simp add: used_up_def)
    qed
  qed
qed

lemma wrap_tool_call_used:
  assumes "guard_ok cfg gs" "\<not> progress_call (c, r)" "finite tools" "ca_name c \<in> tools"
    and "0 \<le> gc_recovery_max_violations cfg" "gc_recovery_enabled cfg"
  shows "guard_ok cfg (snd (wrap_tool_call md5 cfg c r gs)) \<and>
    used_up cfg tools gs + (if fst (fst (wrap_tool_call md5 cfg c r gs)) \<and> gr_error r then 1 else 0)
      \<le> used_up cfg tools (snd (wrap_tool_call md5 cfg c r gs))"
proof -
  obtain refused gs1 where pre: "precheck md5 cfg c gs = (refused, gs1)" by fastforce
  have same: "guard_core gs1 = guard_core gs" "refused = None \<Longrightarrow> gs_halt gs1 = None \<and> ca_name c \<notin> gs_blocked_tools gs1"
    using pre by (auto simp: precheck_def guard_core_def split: if_splits)
  have used1: "guard_ok cfg gs1" "used_up cfg tools gs1 = used_up cfg tools gs"
    using assms(1) guard_core_fields [OF same(1)]
    unfolding guard_ok_def used_up_def strikes_def failures_used_def by simp_all
  show ?thesis
  proof (cases refused)
    case (Some reply)
    with pre used1 show ?thesis by (simp add: wrap_tool_call_def)
  next
    case None
    obtain gs2 rh st where gs2: "guard_core gs2 = guard_core gs1" "gs_blocked_tools gs2 = gs_blocked_tools gs1"
        "snd (after_call md5 cfg c r gs1) = snd (evaluate_call cfg c (md5 (ca_args c)) rh
          (if gr_error r then None else Some (md5 (gr_content r))) (gr_error r) (is_idempotent c) st gs2)"
      by (rule after_call_evaluates [OF assms(2)])
    note core2 = guard_core_fields [OF trans [OF gs2(1) same(1)]]
    have ready: "guard_ok cfg gs2" "gs_halt gs2 = None" "ca_name c \<notin> gs_blocked_tools gs2" "used_up cfg tools gs2 = used_up cfg tools gs"
    proof -
      show "guard_ok cfg gs2" using assms(1) core2 unfolding guard_ok_def by simp
      show "gs_halt gs2 = None" using same(2) [OF None] guard_core_fields [OF gs2(1)] by simp
      show "ca_name c \<notin> gs_blocked_tools gs2" using same(2) [OF None] gs2(2) by simp
      show "used_up cfg tools gs2 = used_up cfg tools gs"
        using core2 unfolding used_up_def strikes_def failures_used_def by simp
    qed
    define gs3 where "gs3 = snd (after_call md5 cfg c r gs1)"
    have "guard_ok cfg gs3 \<and> used_up cfg tools gs2 + (if gr_error r then 1 else 0) \<le> used_up cfg tools gs3"
      unfolding gs3_def gs2(3) by (rule evaluate_call_used) (use ready assms in simp_all)
    moreover have "wrap_tool_call md5 cfg c r gs = ((True, fst (after_call md5 cfg c r gs1)), gs3)"
      by (simp add: wrap_tool_call_def pre None split_beta gs3_def)
    ultimately show ?thesis using ready(4) by simp
  qed
qed

text \<open>The executed calls that failed.\<close>

definition executed_failures :: "(guarded_call \<times> guarded_result) list \<Rightarrow> (bool \<times> guard_reply) list \<Rightarrow> nat" where
  "executed_failures cs outs = count_where (\<lambda>((c, r), (ran, _)). ran \<and> gr_error r) (zip cs outs)"

lemma guarded_calls_used:
  assumes "finite tools" "0 \<le> gc_recovery_max_violations cfg" "gc_recovery_enabled cfg"
  shows "guard_ok cfg gs \<Longrightarrow> (\<forall>p \<in> set cs. \<not> progress_call p \<and> ca_name (fst p) \<in> tools) \<Longrightarrow>
    guard_ok cfg (snd (guarded_calls md5 cfg cs gs)) \<and>
    used_up cfg tools gs + int (executed_failures cs (fst (guarded_calls md5 cfg cs gs)))
      \<le> used_up cfg tools (snd (guarded_calls md5 cfg cs gs))"
proof (induction cs arbitrary: gs)
  case (Cons p cs)
  obtain c r where p: "p = (c, r)" by fastforce
  obtain x gs1 where one: "wrap_tool_call md5 cfg c r gs = (x, gs1)" by fastforce
  have step: "guard_ok cfg gs1 \<and> used_up cfg tools gs + (if fst x \<and> gr_error r then 1 else 0) \<le> used_up cfg tools gs1"
    using wrap_tool_call_used [OF Cons.prems(1) _ assms(1) _ assms(2,3), of c r md5] Cons.prems(2) by (simp add: p one)
  have "guard_ok cfg (snd (guarded_calls md5 cfg cs gs1)) \<and>
      used_up cfg tools gs1 + int (executed_failures cs (fst (guarded_calls md5 cfg cs gs1)))
        \<le> used_up cfg tools (snd (guarded_calls md5 cfg cs gs1))"
    by (rule Cons.IH) (use step Cons.prems(2) in auto)
  with step show ?case by (auto simp: p one split_beta executed_failures_def)
qed (simp add: executed_failures_def)

lemma used_up_le:
  assumes "guard_ok cfg gs" "0 \<le> gc_recovery_max_violations cfg"
  shows "used_up cfg tools gs \<le> (gc_same_tool_halt cfg - 1) * int (card tools) + gc_recovery_max_violations cfg + 2"
proof -
  have "failures_used cfg tools gs \<le> (\<Sum>t \<in> tools. gc_same_tool_halt cfg - 1)"
    unfolding failures_used_def by (rule sum_mono) simp
  moreover have "strikes cfg gs \<le> gc_recovery_max_violations cfg + 2"
    using assms by (auto simp: strikes_def guard_ok_def split: if_splits)
  ultimately show ?thesis by (simp add: used_up_def mult.commute)
qed


definition demo_guarded :: "string \<Rightarrow> string \<Rightarrow> guarded_call" where
  "demo_guarded name args = \<lparr>ca_name = name, ca_metadata = None, ca_action = JNull, ca_args = args\<rparr>"

definition demo_result :: "bool \<Rightarrow> string \<Rightarrow> guarded_result" where
  "demo_result failed out = \<lparr>gr_error = failed, gr_content = out\<rparr>"

definition demo_failures :: "(guarded_call \<times> guarded_result) list" where
  "demo_failures = replicate 4 (demo_guarded ''grep'' ''a'', demo_result True ''boom'') @
     [(demo_guarded ''ls'' ''b'', demo_result False ''ok'')] @
     replicate 4 (demo_guarded ''grep'' ''a'', demo_result True ''boom'')"

lemma demo_no_progress: "\<forall>p \<in> set demo_failures. \<not> progress_call p"
  by (auto simp: demo_failures_def progress_call_def clears_blocks_on_progress_def demo_guarded_def demo_result_def)


subsection \<open>A turn that was halted\<close>

theorem halted_turn_runs_nothing:
  assumes "gs_halt gs \<noteq> None"
  shows "guarded_calls md5 cfg cs gs = (map (\<lambda>_. (False, R_Halted ''previous halt'')) cs, gs)"
proof (induction cs)
  case (Cons p cs)
  obtain c r where p: "p = (c, r)" by fastforce
  have "wrap_tool_call md5 cfg c r gs = ((False, R_Halted ''previous halt''), gs)"
    using assms by (simp add: wrap_tool_call_def precheck_def)
  with Cons show ?case by (simp add: p)
qed simp

subsection \<open>Recovery mode and repeated results\<close>

text \<open>A successful call of an ordinary tool that repeats the tool's last result too often.\<close>

definition repeats :: "(string \<Rightarrow> string) \<Rightarrow> guard_config \<Rightarrow> string \<Rightarrow> string \<Rightarrow> guard_state \<Rightarrow> bool" where
  "repeats md5 cfg name out gs =
    (dict_get (gs_last_results gs) name = Some (md5 out) \<and>
     gc_result_block cfg \<le> int (get_count (gs_result_streaks gs) name + 1))"

lemma ordinary_steps:
  "evaluate_pair_pathologies cfg name args_hash None False False G_ALLOW gs = (G_ALLOW, gs\<lparr>gs_ping_pong := pp, gs_churn := []\<rparr>)"
  if "pp = (if length (gs_records gs) < 2 then gs_ping_pong gs
            else dict_set (pair_key (cr_name (gs_records gs ! (length (gs_records gs) - 2))) name) 0
                   (map (\<lambda>(k, n). (k, 0)) (gs_ping_pong gs)))"
  using that by (simp add: evaluate_pair_pathologies_def ping_pong_step_def churn_step_def Let_def)

lemma repeated_result_call:
  assumes "gs_halt gs = None" "ca_name c \<notin> gs_blocked_tools gs" "repeats md5 cfg (ca_name c) out gs" "\<not> gc_hard_stop_enabled cfg"
  shows "\<exists>gs' n. evaluate_call cfg c args_hash None (Some (md5 out)) False False False gs = (G_BLOCK, gs') \<and>
    gs_pathology gs' = Some (P_Result, n, gc_result_block cfg) \<and> gs_halt gs' = None \<and> gs_recovery gs' = gs_recovery gs \<and>
    gs_blocked_signatures gs' = gs_blocked_signatures gs \<and> repeats md5 cfg (ca_name c) out gs'"
proof -
  define gs0 where "gs0 = update_signature_streak (ca_name c) args_hash (gs\<lparr>gs_pathology := None\<rparr>)"
  define pp where "pp = (if length (gs_records gs0) < 2 then gs_ping_pong gs0
      else dict_set (pair_key (cr_name (gs_records gs0 ! (length (gs_records gs0) - 2))) (ca_name c)) 0
             (map (\<lambda>(k, n). (k, 0)) (gs_ping_pong gs0)))"
  define gs1 where "gs1 = gs0\<lparr>gs_ping_pong := pp, gs_churn := []\<rparr>"
  define streak where "streak = get_count (gs_result_streaks gs) (ca_name c) + 1"
  define gs2 where "gs2 = gs1\<lparr>gs_last_results := gs_last_results gs1,
      gs_result_streaks := dict_set (ca_name c) streak (gs_result_streaks gs1),
      gs_pathology := Some (P_Result, streak, gc_result_block cfg)\<rparr>"
  have fields: "gs_last_results gs1 = gs_last_results gs" "gs_result_streaks gs1 = gs_result_streaks gs"
      "gs_halt gs1 = None" "gs_recovery gs1 = gs_recovery gs" "gs_blocked_signatures gs1 = gs_blocked_signatures gs"
    using assms(1) by (simp_all add: gs1_def gs0_def update_signature_streak_def Let_def)
  have pair: "evaluate_pair_pathologies cfg (ca_name c) args_hash None False False G_ALLOW gs0 = (G_ALLOW, gs1)"
    unfolding gs1_def by (rule ordinary_steps) (rule pp_def)
  have repeated: "result_repetition_step cfg (ca_name c) False False (Some (md5 out)) G_ALLOW gs1 = (G_BLOCK, gs2)"
    using assms(3,4) by (simp add: result_repetition_step_def repeats_def gs2_def streak_def fields Let_def)
  have "rate_call cfg c args_hash None (Some (md5 out)) False False False G_ALLOW gs0 = (G_BLOCK, gs2)"
    by (simp add: rate_call_def pair repeated signature_step_def)
  then have "evaluate_call cfg c args_hash None (Some (md5 out)) False False False gs = settle_call cfg (ca_name c) (G_BLOCK, gs2)"
    unfolding evaluate_call_pipeline [OF assms(1,2)] gs0_def [symmetric] by (simp add: count_no_progress_def)
  also have "\<dots> = (G_BLOCK, gs2\<lparr>gs_blocked_tools := insert (ca_name c) (gs_blocked_tools gs2)\<rparr>)"
    by (simp add: settle_call_def recovery_step_def close_step_def pathology_is_def gs2_def)
  finally show ?thesis
    using assms(3) fields by (auto simp: gs2_def repeats_def streak_def)
qed

text \<open>Recovery mode defeats the block on repeated results. Once some earlier block has put the turn
  into recovery mode, a tool that keeps returning the same output is executed at every call, however
  many there are: the check before the call releases the tool that the evaluation after the call has
  just blocked, the block is not counted as a violation, and the turn never halts.\<close>

theorem repeated_results_run_on:
  assumes "gc_recovery_enabled cfg" "\<not> gc_hard_stop_enabled cfg"
    and "gs_recovery gs" "gs_halt gs = None" "repeats md5 cfg name out gs"
    and "\<forall>(c, r) \<in> set cs. ca_name c = name \<and> \<not> is_idempotent c \<and> \<not> clears_blocks_on_progress c \<and>
      \<not> gr_error r \<and> gr_content r = out \<and> call_signature name (md5 (ca_args c)) \<notin> gs_blocked_signatures gs"
  shows "list_all (\<lambda>(ran, reply). ran \<and> (\<exists>n. reply = R_Blocked ''repeated identical result'' n (gc_result_block cfg)))
      (fst (guarded_calls md5 cfg cs gs)) \<and>
    length (fst (guarded_calls md5 cfg cs gs)) = length cs \<and> gs_halt (snd (guarded_calls md5 cfg cs gs)) = None"
  using assms(3-6)
proof (induction cs arbitrary: gs)
  case (Cons p cs)
  obtain c r where p: "p = (c, r)" by fastforce
  have c: "ca_name c = name" "\<not> is_idempotent c" "\<not> clears_blocks_on_progress c" "\<not> gr_error r" "gr_content r = out"
      "call_signature name (md5 (ca_args c)) \<notin> gs_blocked_signatures gs"
    using Cons.prems(4) by (auto simp: p)
  define gs1 where "gs1 = gs\<lparr>gs_blocked_tools := gs_blocked_tools gs - {name}\<rparr>"
  have pre: "precheck md5 cfg c gs = (None, gs1)"
    using Cons.prems c assms(1) by (cases "name \<in> gs_blocked_tools gs") (simp_all add: precheck_def gs1_def)
  define recs where "recs = gs_records gs1 @ [\<lparr>cr_name = name, cr_args = md5 (ca_args c), cr_is_error = False,
      cr_result = None, cr_stagnant = False\<rparr>]"
  define gs2 where "gs2 = gs1\<lparr>gs_records := drop (length recs - MAX_RECORDS) recs\<rparr>"
  have "gs_halt gs2 = None" "ca_name c \<notin> gs_blocked_tools gs2" "repeats md5 cfg (ca_name c) out gs2"
    using Cons.prems c by (simp_all add: gs2_def gs1_def repeats_def)
  from repeated_result_call [OF this assms(2), of "md5 (ca_args c)"]
  obtain gs3 n where gs3: "evaluate_call cfg c (md5 (ca_args c)) None (Some (md5 out)) False False False gs2 = (G_BLOCK, gs3)"
      "gs_pathology gs3 = Some (P_Result, n, gc_result_block cfg)" "gs_halt gs3 = None" "gs_recovery gs3 = gs_recovery gs2"
      "gs_blocked_signatures gs3 = gs_blocked_signatures gs2" "repeats md5 cfg (ca_name c) out gs3"
    by blast
  have after: "after_call md5 cfg c r gs1 = (R_Blocked ''repeated identical result'' n (gc_result_block cfg), gs3)"
    using c gs3(1,2) by (simp add: after_call_def Let_def recs_def gs2_def block_reply_def)
  obtain outs gs4 where rest: "guarded_calls md5 cfg cs gs3 = (outs, gs4)" by fastforce
  have "list_all (\<lambda>(ran, reply). ran \<and> (\<exists>n. reply = R_Blocked ''repeated identical result'' n (gc_result_block cfg)))
      (fst (guarded_calls md5 cfg cs gs3)) \<and>
    length (fst (guarded_calls md5 cfg cs gs3)) = length cs \<and> gs_halt (snd (guarded_calls md5 cfg cs gs3)) = None"
    by (rule Cons.IH) (use Cons.prems gs3 c in \<open>auto simp: gs2_def gs1_def p\<close>)
  then show ?case by (simp add: p wrap_tool_call_def pre after rest)
qed simp

text \<open>A reachable turn: five failures of one tool, then probes of another with the same output.\<close>

definition demo_probe :: "string \<Rightarrow> guarded_call \<times> guarded_result" where
  "demo_probe a = (demo_guarded ''py'' a, demo_result False ''same'')"

definition demo_stuck :: guard_state where
  "demo_stuck = snd (guarded_turn (\<lambda>s. s) shipped_guard_config
     (replicate 5 (demo_guarded ''grep'' ''a'', demo_result True ''boom'') @ map demo_probe [''1'', ''2'', ''3'', ''4'', ''5'', ''6'']))"

lemma demo_stuck_state:
  "gs_recovery demo_stuck \<and> gs_halt demo_stuck = None \<and> repeats (\<lambda>s. s) shipped_guard_config ''py'' ''same'' demo_stuck \<and>
   gs_blocked_signatures demo_stuck = {}"
  by code_simp

theorem repeated_results_run_on_witness:
  "map fst (fst (guarded_calls (\<lambda>s. s) shipped_guard_config (map demo_probe [''7'', ''8'', ''9'']) demo_stuck)) = [True, True, True]"
proof -
  have "list_all (\<lambda>(ran, reply). ran \<and> (\<exists>n. reply = R_Blocked ''repeated identical result'' n (gc_result_block shipped_guard_config)))
      (fst (guarded_calls (\<lambda>s. s) shipped_guard_config (map demo_probe [''7'', ''8'', ''9'']) demo_stuck)) \<and>
    length (fst (guarded_calls (\<lambda>s. s) shipped_guard_config (map demo_probe [''7'', ''8'', ''9'']) demo_stuck)) =
      length (map demo_probe [''7'', ''8'', ''9'']) \<and>
    gs_halt (snd (guarded_calls (\<lambda>s. s) shipped_guard_config (map demo_probe [''7'', ''8'', ''9'']) demo_stuck)) = None"
    by (rule repeated_results_run_on [of _ _ "\<lambda>s. s" "''py''" "''same''"])
      (use demo_stuck_state in \<open>auto simp: shipped_guard_config_def demo_probe_def demo_guarded_def demo_result_def
        is_idempotent_def clears_blocks_on_progress_def\<close>)
  then show ?thesis
    by (auto simp: length_Suc_conv)
qed

end
