(* ===== verification/Restart.thy ===== *)
theory Restart
  imports Run_Manager Input_Queue Effects
begin

section \<open>Recovery after a restart\<close>

text \<open>
  Models \<^verbatim>\<open>src/server/service/effects/restart_table.py\<close> and \<^verbatim>\<open>boot.py\<close> with the queue repair and the
  session scan of \<^verbatim>\<open>src/server/service/boot_recovery.py\<close>: how the run registry, the input queue and
  the intent log, each modelled in its own theory, are brought to a consistent state when the
  process starts. The directory listing and the checkpoint probe are parameters: the entries,
  newest first, each with what the probe answers (\<^const>\<open>None\<close> when it raises). So is which
  sessions' rows can be updated. One reading of each clock stands for the whole pass.
\<close>

subsection \<open>The state of the server\<close>

record server_state =
  sv_registry :: registry
  sv_restored :: bool
  sv_queue :: queue_table
  sv_intents :: intent_table

definition MAX_SESSIONS :: nat where
  "MAX_SESSIONS = 50"

definition internal_session :: "text_id \<Rightarrow> bool" where
  "internal_session sid = (has_sub '':subagent:'' sid \<or> has_sub ''::'' sid)"

fun scan_sessions :: "(text_id \<times> bool option) list \<Rightarrow> text_id list \<Rightarrow> text_id list" where
  "scan_sessions [] ids = ids"
| "scan_sessions ((sid, probe) # entries) ids =
    (if MAX_SESSIONS \<le> length ids then ids
     else if internal_session sid then scan_sessions entries ids
     else if probe = Some True then scan_sessions entries (ids @ [sid])
     else scan_sessions entries ids)"

definition candidate_session_ids :: "(text_id \<times> bool option) list \<Rightarrow> text_id list" where
  "candidate_session_ids entries = scan_sessions entries []"

subsection \<open>The restart table\<close>

fun requeue_sessions :: "time \<Rightarrow> (text_id \<Rightarrow> bool) \<Rightarrow> text_id list \<Rightarrow> queue_table \<Rightarrow> nat \<times> queue_table" where
  "requeue_sessions now writable [] t = (0, t)"
| "requeue_sessions now writable (sid # sids) t =
    (if writable sid
     then (case requeue_claimed sid now t of (n, t1) \<Rightarrow>
           case requeue_sessions now writable sids t1 of (m, t2) \<Rightarrow> (n + m, t2))
     else requeue_sessions now writable sids t)"

definition requeue_claimed_inputs ::
    "time \<Rightarrow> (text_id \<Rightarrow> bool) \<Rightarrow> (text_id \<times> bool option) list \<Rightarrow> queue_table \<Rightarrow> nat \<times> queue_table" where
  "requeue_claimed_inputs now writable entries t = requeue_sessions now writable (candidate_session_ids entries) t"

text \<open>An entry of the table: its name and its function, which may raise (\<^const>\<open>None\<close>).\<close>

record restart_terminal =
  rt_name :: string
  rt_apply :: "server_state \<Rightarrow> nat option option \<times> server_state"

definition restore_once :: "subagent_config \<Rightarrow> time \<Rightarrow> server_state \<Rightarrow> server_state" where
  "restore_once cfg now s =
    (if sv_restored s then s
     else s\<lparr>sv_restored := True, sv_registry := restore_runs_from_disk cfg now (sv_registry s)\<rparr>)"

definition apply_subagent_terminals :: "subagent_config \<Rightarrow> time \<Rightarrow> server_state \<Rightarrow> nat option option \<times> server_state" where
  "apply_subagent_terminals cfg now s = (Some None, restore_once cfg now s)"

definition apply_queue_terminals ::
    "time \<Rightarrow> (text_id \<Rightarrow> bool) \<Rightarrow> (text_id \<times> bool option) list \<Rightarrow> server_state \<Rightarrow> nat option option \<times> server_state" where
  "apply_queue_terminals now writable entries s =
    (case requeue_claimed_inputs now writable entries (sv_queue s) of
       (n, t) \<Rightarrow> (Some (Some n), s\<lparr>sv_queue := t\<rparr>))"

definition restart_terminals ::
    "subagent_config \<Rightarrow> time \<Rightarrow> time \<Rightarrow> (text_id \<Rightarrow> bool) \<Rightarrow> (text_id \<times> bool option) list \<Rightarrow> restart_terminal list" where
  "restart_terminals cfg tick now writable entries =
    [\<lparr>rt_name = ''subagent_runs'', rt_apply = apply_subagent_terminals cfg tick\<rparr>,
     \<lparr>rt_name = ''user_input_queue'', rt_apply = apply_queue_terminals now writable entries\<rparr>]"

definition register_restart_terminal :: "restart_terminal \<Rightarrow> restart_terminal list \<Rightarrow> restart_terminal list" where
  "register_restart_terminal spec table = table @ [spec]"

text \<open>Every entry runs; one that raises is left out of the result.\<close>

fun apply_terminals :: "restart_terminal list \<Rightarrow> server_state \<Rightarrow> (string \<times> nat option) list \<times> server_state" where
  "apply_terminals [] s = ([], s)"
| "apply_terminals (spec # specs) s =
    (case rt_apply spec s of (result, s1) \<Rightarrow>
     case apply_terminals specs s1 of (applied, s2) \<Rightarrow>
       ((case result of None \<Rightarrow> applied | Some n \<Rightarrow> (rt_name spec, n) # applied), s2))"

subsection \<open>The boot entry\<close>

definition run_restart_recovery ::
    "effect_config \<Rightarrow> restart_terminal list \<Rightarrow> time \<Rightarrow> server_state \<Rightarrow> server_state" where
  "run_restart_recovery ecfg table now s =
    (if \<not> (ef_enabled ecfg \<and> ef_restart_replay ecfg) then s
     else (let s1 = snd (apply_terminals table s)
           in s1\<lparr>sv_intents := snd (replay_pending now (sv_intents s1))\<rparr>))"

subsection \<open>What each part does\<close>

lemma scan_sessions_bound: "length ids \<le> MAX_SESSIONS \<Longrightarrow> length (scan_sessions entries ids) \<le> MAX_SESSIONS"
  by (induction entries ids rule: scan_sessions.induct) auto

lemma candidate_session_bound: "length (candidate_session_ids entries) \<le> 50"
  using scan_sessions_bound [of "[]" entries] by (simp add: candidate_session_ids_def MAX_SESSIONS_def)

text \<open>A claimed row of a repaired session is queued again; every other row is left alone.\<close>

definition requeued :: "time \<Rightarrow> text_id set \<Rightarrow> queue_row \<Rightarrow> queue_row" where
  "requeued now sids r =
    (if q_session r \<in> sids \<and> q_status r = CLAIMED then r\<lparr>q_status := QUEUED, q_updated_at := now\<rparr> else r)"

lemma requeue_claimed_map: "snd (requeue_claimed sid now t) = map (requeued now {sid}) t"
  by (simp add: requeue_claimed_def update_where_def requeued_def)

lemma requeued_requeued: "requeued now sids' (requeued now sids r) = requeued now (sids \<union> sids') r"
  by (auto simp: requeued_def)

lemma requeue_sessions_map:
  "snd (requeue_sessions now writable sids t) = map (requeued now {sid \<in> set sids. writable sid}) t"
proof (induction sids arbitrary: t)
  case Nil
  then show ?case by (simp add: requeued_def)
next
  case (Cons sid sids)
  show ?case
  proof (cases "writable sid")
    case True
    have "snd (requeue_sessions now writable (sid # sids) t) =
        map (requeued now {s \<in> set sids. writable s}) (map (requeued now {sid}) t)"
      using True Cons requeue_claimed_map [of sid now t] by (simp add: split_beta)
    also have "\<dots> = map (requeued now ({sid} \<union> {s \<in> set sids. writable s})) t"
      by (simp add: requeued_requeued)
    also have "{sid} \<union> {s \<in> set sids. writable s} = {s \<in> set (sid # sids). writable s}" using True by auto
    finally show ?thesis .
  next
    case False
    then have "{s \<in> set (sid # sids). writable s} = {s \<in> set sids. writable s}" by auto
    then show ?thesis using False Cons by simp
  qed
qed

definition replayed :: "time \<Rightarrow> intent \<Rightarrow> intent" where
  "replayed now r = (if it_status r = I_IN_FLIGHT then r\<lparr>it_status := I_PENDING, it_due := now, it_updated := now\<rparr> else r)"

lemma replay_pending_map: "snd (replay_pending now t) = map (replayed now) t"
  by (simp add: replay_pending_def update_where_def replayed_def Let_def)

definition repaired_sessions :: "(text_id \<Rightarrow> bool) \<Rightarrow> (text_id \<times> bool option) list \<Rightarrow> text_id set" where
  "repaired_sessions writable entries = {sid \<in> set (candidate_session_ids entries). writable sid}"

lemma run_restart_recovery_eq:
  assumes "ef_enabled ecfg" "ef_restart_replay ecfg"
  shows "run_restart_recovery ecfg (restart_terminals cfg tick now writable entries) later s =
    \<lparr>sv_registry = (if sv_restored s then sv_registry s else restore_runs_from_disk cfg tick (sv_registry s)),
     sv_restored = True,
     sv_queue = map (requeued now (repaired_sessions writable entries)) (sv_queue s),
     sv_intents = map (replayed later) (sv_intents s)\<rparr>"
  using assms
  by (simp add: run_restart_recovery_def restart_terminals_def apply_subagent_terminals_def apply_queue_terminals_def
      restore_once_def requeue_claimed_inputs_def replay_pending_map repaired_sessions_def split_beta requeue_sessions_map)

subsection \<open>Properties\<close>


text \<open>The recovery pass may run twice: with the same sessions repaired, a second pass at later
  clocks changes nothing, whether or not the first one was switched on.\<close>

theorem restart_recovery_idempotent:
  "run_restart_recovery ecfg (restart_terminals cfg tick2 now2 writable entries) later2
     (run_restart_recovery ecfg (restart_terminals cfg tick now writable entries) later s) =
   run_restart_recovery ecfg (restart_terminals cfg tick now writable entries) later s"
proof (cases "ef_enabled ecfg \<and> ef_restart_replay ecfg")
  case True
  have "requeued now2 S (requeued now S row) = requeued now S row" for S row by (simp add: requeued_def)
  moreover have "replayed later2 (replayed later x) = replayed later x" for x by (simp add: replayed_def)
  ultimately show ?thesis using True by (simp add: run_restart_recovery_eq)
next
  case False
  then show ?thesis by (simp add: run_restart_recovery_def)
qed

definition demo_server :: server_state where
  "demo_server = \<lparr>sv_registry = mem_clear demo_registry, sv_restored = False,
     sv_queue = snd (claim_next ''s'' 6 demo_queue), sv_intents = snd (mark_in_flight 6 1 1 demo_log)\<rparr>"

definition demo_entries :: "(text_id \<times> bool option) list" where
  "demo_entries = [(''s'', Some True), (''s:subagent:1'', Some True), (''x'', None)]"

definition demo_recovery :: effect_config where
  "demo_recovery = default_effect_config\<lparr>ef_enabled := True, ef_restart_replay := True\<rparr>"


end
