(* ===== verification/Token_Budget.thy ===== *)
theory Token_Budget
  imports Py_Text
begin

section \<open>Token budgets of sessions and turns\<close>

text \<open>
  Models \<^verbatim>\<open>src/agent/middlewares/token_budget/core.py\<close>: the caps of a session and of a turn, the
  counters that the main agent and its sub-agents add to, the check before a model call, and the
  notices; with the cap change and the reset of
  \<^verbatim>\<open>src/server/service/session_settings_service.py\<close>. The state is the two registers (memory and
  database) as maps from session and key; a restart keeps the database. What a model call reports
  is an argument: the usage dictionary of the response (\<^const>\<open>None\<close> when there is no message or it
  has none) and its estimated cost, which depends on price tables outside the repository's code.
\<close>

subsection \<open>The registers\<close>

datatype budget_key =
  K_CAP | K_TURN_CAP | K_USED | K_COST | K_LIMITED | K_TURN_ID | K_TURN_USED | K_TURN_MAIN_USED
| K_TURN_CHILD_USED | K_TURN_COST | K_TURN_LIMITED | K_PARENT

datatype budget_scope = S_SESSION | S_TURN

text \<open>The pushes to the client: the event, its scope, the usage and the cap.\<close>

datatype budget_event = E_LIMITED budget_scope int int | E_WARNING budget_scope int int

record budget_state =
  bs_mem :: "string \<times> budget_key \<Rightarrow> json option"
  bs_db :: "string \<times> budget_key \<Rightarrow> json option"
  bs_warned :: "string set"
  bs_turn_warned :: "(string \<times> string) set"
  bs_events :: "(string \<times> budget_event) list"

record budget_defaults =
  bd_cap :: int
  bd_turn_cap :: int
  bd_warn_threshold :: rat

definition shipped_budget_defaults :: budget_defaults where
  "shipped_budget_defaults = \<lparr>bd_cap = 0, bd_turn_cap = 0, bd_warn_threshold = 4 / 5\<rparr>"

text \<open>\<^verbatim>\<open>_read_state\<close>: memory first, then the database, which refills the memory.\<close>

definition read_state :: "string \<Rightarrow> budget_key \<Rightarrow> budget_state \<Rightarrow> json option \<times> budget_state" where
  "read_state sid k s =
    (case bs_mem s (sid, k) of
       Some v \<Rightarrow> (Some v, s)
     | None \<Rightarrow>
         (case bs_db s (sid, k) of
            Some v \<Rightarrow> (Some v, s\<lparr>bs_mem := (bs_mem s)((sid, k) \<mapsto> v)\<rparr>)
          | None \<Rightarrow> (None, s)))"

definition write_state :: "string \<Rightarrow> budget_key \<Rightarrow> json \<Rightarrow> budget_state \<Rightarrow> budget_state" where
  "write_state sid k v s =
    s\<lparr>bs_mem := (bs_mem s)((sid, k) \<mapsto> v), bs_db := (bs_db s)((sid, k) \<mapsto> v)\<rparr>"

definition delete_state :: "string \<Rightarrow> budget_key \<Rightarrow> budget_state \<Rightarrow> budget_state" where
  "delete_state sid k s =
    s\<lparr>bs_mem := (bs_mem s)((sid, k) := None), bs_db := (bs_db s)((sid, k) := None)\<rparr>"

definition reset_budget_notice :: "string \<Rightarrow> budget_state \<Rightarrow> budget_state" where
  "reset_budget_notice sid s =
    s\<lparr>bs_warned := bs_warned s - {sid}, bs_turn_warned := {p \<in> bs_turn_warned s. fst p \<noteq> sid}\<rparr>"

definition notify :: "string \<Rightarrow> budget_event \<Rightarrow> budget_state \<Rightarrow> budget_state" where
  "notify sid e s = s\<lparr>bs_events := bs_events s @ [(sid, e)]\<rparr>"

text \<open>A counter; the code is its only writer and writes integers, so it always parses.\<close>

definition count_of :: "json option \<Rightarrow> int" where
  "count_of v = (case int_or_zero v of Some n \<Rightarrow> n | None \<Rightarrow> 0)"

definition cost_of :: "json option \<Rightarrow> rat" where
  "cost_of v = (case v of Some (JFloat q) \<Rightarrow> q | Some (JInt n) \<Rightarrow> of_int n | _ \<Rightarrow> 0)"

definition flag_of :: "json option \<Rightarrow> bool" where
  "flag_of v = (case v of None \<Rightarrow> False | Some j \<Rightarrow> truthy j)"

definition text_or_empty :: "json option \<Rightarrow> string" where
  "text_or_empty v = (case v of Some (JStr s) \<Rightarrow> s | _ \<Rightarrow> [])"

definition cap_of :: "int \<Rightarrow> json option \<Rightarrow> int" where
  "cap_of dflt raw =
    (case raw of
       None \<Rightarrow> dflt
     | Some _ \<Rightarrow> (case int_or_zero raw of Some n \<Rightarrow> max 0 n | None \<Rightarrow> 0))"

definition effective_cap :: "budget_defaults \<Rightarrow> string \<Rightarrow> budget_state \<Rightarrow> int \<times> budget_state" where
  "effective_cap bd sid s = (case read_state sid K_CAP s of (raw, s1) \<Rightarrow> (cap_of (bd_cap bd) raw, s1))"

definition effective_turn_cap :: "budget_defaults \<Rightarrow> string \<Rightarrow> budget_state \<Rightarrow> int \<times> budget_state" where
  "effective_turn_cap bd sid s = (case read_state sid K_TURN_CAP s of (raw, s1) \<Rightarrow> (cap_of (bd_turn_cap bd) raw, s1))"

text \<open>\<^verbatim>\<open>int(_read_state(sid, key, 0) or 0)\<close> and the like, threading the refilled memory.\<close>

definition read_count :: "string \<Rightarrow> budget_key \<Rightarrow> budget_state \<Rightarrow> int \<times> budget_state" where
  "read_count sid k s = (case read_state sid k s of (v, s1) \<Rightarrow> (count_of v, s1))"

definition read_cost :: "string \<Rightarrow> budget_key \<Rightarrow> budget_state \<Rightarrow> rat \<times> budget_state" where
  "read_cost sid k s = (case read_state sid k s of (v, s1) \<Rightarrow> (cost_of v, s1))"

definition read_flag :: "string \<Rightarrow> budget_key \<Rightarrow> budget_state \<Rightarrow> bool \<times> budget_state" where
  "read_flag sid k s = (case read_state sid k s of (v, s1) \<Rightarrow> (flag_of v, s1))"

definition read_text :: "string \<Rightarrow> budget_key \<Rightarrow> budget_state \<Rightarrow> string \<times> budget_state" where
  "read_text sid k s = (case read_state sid k s of (v, s1) \<Rightarrow> (text_or_empty v, s1))"

subsection \<open>Turns and the check before a call\<close>

definition begin_turn :: "string \<Rightarrow> string \<Rightarrow> budget_state \<Rightarrow> budget_state" where
  "begin_turn turn_id sid s =
    (if sid = [] then s
     else write_state sid K_TURN_LIMITED (JBool False)
            (write_state sid K_TURN_COST (JFloat 0)
              (write_state sid K_TURN_CHILD_USED (JInt 0)
                (write_state sid K_TURN_MAIN_USED (JInt 0)
                  (write_state sid K_TURN_USED (JInt 0)
                    (write_state sid K_TURN_ID (JStr turn_id) s))))))"

text \<open>Set a latch and push the event, unless the latch is already on.\<close>

definition latch_limited :: "budget_key \<Rightarrow> budget_scope \<Rightarrow> int \<Rightarrow> int \<Rightarrow> string \<Rightarrow> budget_state \<Rightarrow> budget_state" where
  "latch_limited k scope used cap sid s =
    (case read_flag sid k s of
       (True, s1) \<Rightarrow> s1
     | (False, s1) \<Rightarrow> notify sid (E_LIMITED scope used cap) (write_state sid k (JBool True) s1))"

definition check_session_cap :: "budget_defaults \<Rightarrow> string \<Rightarrow> budget_state \<Rightarrow> bool \<times> budget_state" where
  "check_session_cap bd sid s =
    (case effective_cap bd sid s of (cap, s1) \<Rightarrow>
     case read_count sid K_USED s1 of (used, s2) \<Rightarrow>
       if 0 < cap \<and> cap \<le> used then (True, latch_limited K_LIMITED S_SESSION used cap sid s2) else (False, s2))"

definition check_turn_cap :: "budget_defaults \<Rightarrow> string \<Rightarrow> budget_state \<Rightarrow> bool \<times> budget_state" where
  "check_turn_cap bd sid s =
    (case effective_turn_cap bd sid s of (cap, s1) \<Rightarrow>
     case read_count sid K_TURN_USED s1 of (used, s2) \<Rightarrow>
       if 0 < cap \<and> cap \<le> used then (True, latch_limited K_TURN_LIMITED S_TURN used cap sid s2) else (False, s2))"

text \<open>The main agent; the result says whether the call is refused.\<close>

definition pre_call :: "budget_defaults \<Rightarrow> string \<Rightarrow> budget_state \<Rightarrow> bool \<times> budget_state" where
  "pre_call bd sid s =
    (if sid = [] then (False, s)
     else (case check_session_cap bd sid s of
             (True, s1) \<Rightarrow> (True, s1)
           | (False, s1) \<Rightarrow> check_turn_cap bd sid s1))"

subsection \<open>Accounting\<close>

text \<open>\<^verbatim>\<open>input_tokens + output_tokens\<close> of a response; \<^const>\<open>None\<close> when nothing is to be recorded.\<close>

definition usage_total :: "(string \<times> json) list option \<Rightarrow> int option" where
  "usage_total usage =
    (case usage of
       None \<Rightarrow> None
     | Some u \<Rightarrow>
         (case (int_or_zero (dict_get u ''input_tokens''), int_or_zero (dict_get u ''output_tokens'')) of
            (Some i, Some t) \<Rightarrow> if 0 < i + t then Some (i + t) else None
          | _ \<Rightarrow> None))"

definition add_count :: "string \<Rightarrow> budget_key \<Rightarrow> int \<Rightarrow> budget_state \<Rightarrow> budget_state" where
  "add_count sid k n s = (case read_count sid k s of (m, s1) \<Rightarrow> write_state sid k (JInt (m + n)) s1)"

definition add_cost :: "string \<Rightarrow> budget_key \<Rightarrow> rat \<Rightarrow> budget_state \<Rightarrow> budget_state" where
  "add_cost sid k q s = (case read_cost sid k s of (c, s1) \<Rightarrow> write_state sid k (JFloat (round6 (c + q))) s1)"

definition session_notice :: "budget_defaults \<Rightarrow> string \<Rightarrow> budget_state \<Rightarrow> budget_state" where
  "session_notice bd sid s =
    (case effective_cap bd sid s of (cap, s1) \<Rightarrow>
       if 0 < cap
       then (case read_count sid K_USED s1 of (used, s2) \<Rightarrow>
               if cap \<le> used then latch_limited K_LIMITED S_SESSION used cap sid s2
               else if of_int cap * bd_warn_threshold bd \<le> of_int used \<and> sid \<notin> bs_warned s2
               then notify sid (E_WARNING S_SESSION used cap) (s2\<lparr>bs_warned := insert sid (bs_warned s2)\<rparr>)
               else s2)
       else s1)"

definition turn_notice :: "budget_defaults \<Rightarrow> string \<Rightarrow> budget_state \<Rightarrow> budget_state" where
  "turn_notice bd sid s =
    (case effective_turn_cap bd sid s of (cap, s1) \<Rightarrow>
       if 0 < cap
       then (case read_count sid K_TURN_USED s1 of (used, s2) \<Rightarrow>
               if cap \<le> used then latch_limited K_TURN_LIMITED S_TURN used cap sid s2
               else (case read_text sid K_TURN_ID s2 of (turn_id, s3) \<Rightarrow>
                       if of_int cap * bd_warn_threshold bd \<le> of_int used \<and> (sid, turn_id) \<notin> bs_turn_warned s3
                       then notify sid (E_WARNING S_TURN used cap)
                              (s3\<lparr>bs_turn_warned := insert (sid, turn_id) (bs_turn_warned s3)\<rparr>)
                       else s3))
       else s1)"

definition post_call ::
    "budget_defaults \<Rightarrow> string \<Rightarrow> (string \<times> json) list option \<Rightarrow> rat \<Rightarrow> budget_state \<Rightarrow> budget_state" where
  "post_call bd sid usage cost s =
    (if sid = [] then s
     else case usage_total usage of
            None \<Rightarrow> s
          | Some n \<Rightarrow>
              turn_notice bd sid
                (session_notice bd sid
                  (add_cost sid K_TURN_COST cost
                    (add_count sid K_TURN_MAIN_USED n
                      (add_count sid K_TURN_USED n
                        (add_cost sid K_COST cost (add_count sid K_USED n s)))))))"

subsection \<open>Sub-agents\<close>

definition attribution :: "string \<Rightarrow> budget_state \<Rightarrow> (string \<times> string) option \<times> budget_state" where
  "attribution sid s =
    (if sid = [] then (None, s)
     else case read_state sid K_PARENT s of
            (Some (JDict d), s1) \<Rightarrow>
              (case jget ''session_id'' d of
                 JStr p \<Rightarrow> if p = [] then (None, s1)
                           else (Some (p, text_or_empty (dict_get d ''turn_id'')), s1)
               | _ \<Rightarrow> (None, s1))
          | (_, s1) \<Rightarrow> (None, s1))"

definition same_turn :: "string \<Rightarrow> string \<Rightarrow> budget_state \<Rightarrow> bool \<times> budget_state" where
  "same_turn parent turn_id s =
    (if turn_id = [] then (False, s)
     else case read_text parent K_TURN_ID s of (current, s1) \<Rightarrow> (current = turn_id, s1))"

definition child_pre_call :: "budget_defaults \<Rightarrow> string \<Rightarrow> budget_state \<Rightarrow> bool \<times> budget_state" where
  "child_pre_call bd sid s =
    (case attribution sid s of
       (None, s1) \<Rightarrow> (False, s1)
     | (Some (parent, turn_id), s1) \<Rightarrow>
         (case check_session_cap bd parent s1 of
            (True, s2) \<Rightarrow> (True, s2)
          | (False, s2) \<Rightarrow>
              (case same_turn parent turn_id s2 of
                 (True, s3) \<Rightarrow> check_turn_cap bd parent s3
               | (False, s3) \<Rightarrow> (False, s3))))"

definition child_post_call ::
    "budget_defaults \<Rightarrow> string \<Rightarrow> (string \<times> json) list option \<Rightarrow> rat \<Rightarrow> budget_state \<Rightarrow> budget_state" where
  "child_post_call bd sid usage cost s =
    (case attribution sid s of
       (None, s1) \<Rightarrow> s1
     | (Some (parent, turn_id), s1) \<Rightarrow>
         (case usage_total usage of
            None \<Rightarrow> s1
          | Some n \<Rightarrow>
              (let s2 = add_cost parent K_COST cost (add_count parent K_USED n s1);
                   s3 = (case same_turn parent turn_id s2 of
                           (True, u) \<Rightarrow>
                             turn_notice bd parent
                               (add_cost parent K_TURN_COST cost
                                 (add_count parent K_TURN_CHILD_USED n (add_count parent K_TURN_USED n u)))
                         | (False, u) \<Rightarrow> u)
               in session_notice bd parent s3)))"

subsection \<open>Settings and restarts\<close>

definition write_budget_cap :: "string \<Rightarrow> int option \<Rightarrow> budget_state \<Rightarrow> budget_state" where
  "write_budget_cap sid cap s =
    reset_budget_notice sid (delete_state sid K_LIMITED
      (case cap of None \<Rightarrow> delete_state sid K_CAP s | Some c \<Rightarrow> write_state sid K_CAP (JInt c) s))"

definition write_budget_turn_cap :: "string \<Rightarrow> int option \<Rightarrow> budget_state \<Rightarrow> budget_state" where
  "write_budget_turn_cap sid cap s =
    reset_budget_notice sid (delete_state sid K_TURN_LIMITED
      (case cap of None \<Rightarrow> delete_state sid K_TURN_CAP s | Some c \<Rightarrow> write_state sid K_TURN_CAP (JInt c) s))"

definition reset_token_budget :: "string \<Rightarrow> budget_state \<Rightarrow> budget_state" where
  "reset_token_budget sid s =
    reset_budget_notice sid
      (fold (delete_state sid) [K_USED, K_COST, K_LIMITED, K_TURN_USED, K_TURN_MAIN_USED, K_TURN_CHILD_USED,
         K_TURN_COST, K_TURN_LIMITED] s)"

text \<open>The process dies: the memory and the warning latches are gone.\<close>

definition restart_budgets :: "budget_state \<Rightarrow> budget_state" where
  "restart_budgets s = s\<lparr>bs_mem := Map.empty, bs_warned := {}, bs_turn_warned := {}\<rparr>"

subsection \<open>What the operations read and write\<close>

definition budget_view :: "budget_state \<Rightarrow> string \<times> budget_key \<Rightarrow> json option" where
  "budget_view s p = (case bs_mem s p of Some v \<Rightarrow> Some v | None \<Rightarrow> bs_db s p)"

text \<open>What is in memory is in the database.\<close>

definition durable :: "budget_state \<Rightarrow> bool" where
  "durable s = (\<forall>p v. bs_mem s p = Some v \<longrightarrow> bs_db s p = Some v)"

named_theorems budget_simps

lemma budget_view_upd [budget_simps]:
  "budget_view (write_state sid k v s) = (budget_view s)((sid, k) \<mapsto> v)"
  "budget_view (delete_state sid k s) = (budget_view s)((sid, k) := None)"
  "budget_view (reset_budget_notice sid s) = budget_view s"
  "budget_view (notify sid e s) = budget_view s"
  "budget_view (s\<lparr>bs_warned := ws\<rparr>) = budget_view s"
  "budget_view (s\<lparr>bs_turn_warned := ts\<rparr>) = budget_view s"
  by (auto simp: fun_eq_iff budget_view_def write_state_def delete_state_def reset_budget_notice_def notify_def split: option.split)

lemma read_state_fst: "fst (read_state sid k s) = budget_view s (sid, k)"
  by (auto simp: read_state_def budget_view_def split: option.split)

lemma read_state_snd [budget_simps]:
  "budget_view (snd (read_state sid k s)) = budget_view s" "bs_events (snd (read_state sid k s)) = bs_events s"
  by (auto simp: read_state_def budget_view_def fun_eq_iff split: option.split)

lemma reads [budget_simps]:
  "read_count sid k s = (count_of (budget_view s (sid, k)), snd (read_state sid k s))"
  "read_cost sid k s = (cost_of (budget_view s (sid, k)), snd (read_state sid k s))"
  "read_flag sid k s = (flag_of (budget_view s (sid, k)), snd (read_state sid k s))"
  "read_text sid k s = (text_or_empty (budget_view s (sid, k)), snd (read_state sid k s))"
  "effective_cap bd sid s = (cap_of (bd_cap bd) (budget_view s (sid, K_CAP)), snd (read_state sid K_CAP s))"
  "effective_turn_cap bd sid s = (cap_of (bd_turn_cap bd) (budget_view s (sid, K_TURN_CAP)), snd (read_state sid K_TURN_CAP s))"
  by (simp_all add: read_count_def read_cost_def read_flag_def read_text_def effective_cap_def effective_turn_cap_def
      split_beta read_state_fst)

lemma durable_upd [intro]:
  "durable s \<Longrightarrow> durable (write_state sid k v s)" "durable s \<Longrightarrow> durable (delete_state sid k s)"
  "durable s \<Longrightarrow> durable (notify sid e s)" "durable s \<Longrightarrow> durable (s\<lparr>bs_warned := ws\<rparr>)"
  "durable s \<Longrightarrow> durable (s\<lparr>bs_turn_warned := ts\<rparr>)" "durable s \<Longrightarrow> durable (snd (read_state sid k s))"
  "durable (restart_budgets s)"
  by (auto simp: durable_def write_state_def delete_state_def notify_def read_state_def restart_budgets_def split: option.split)

lemma budget_view_restart: "durable s \<Longrightarrow> budget_view (restart_budgets s) = budget_view s"
  by (auto simp: budget_view_def restart_budgets_def durable_def fun_eq_iff split: option.split)

lemma durable_flags [simp]:
  "durable (notify sid e s) = durable s" "durable (s\<lparr>bs_warned := ws\<rparr>) = durable s"
  "durable (s\<lparr>bs_turn_warned := ts\<rparr>) = durable s"
  by (simp_all add: durable_def notify_def)

text \<open>The latches and notices touch no counter.\<close>

lemma latch_limited_keeps:
  "k' \<noteq> k \<Longrightarrow> budget_view (latch_limited k scope used cap sid s) (q, k') = budget_view s (q, k')"
  "durable s \<Longrightarrow> durable (latch_limited k scope used cap sid s)"
  by (auto simp: latch_limited_def budget_simps split: bool.split)

lemma session_notice_keeps:
  "k \<noteq> K_LIMITED \<Longrightarrow> budget_view (session_notice bd sid s) (q, k) = budget_view s (q, k)"
  "durable s \<Longrightarrow> durable (session_notice bd sid s)"
  by (auto simp: session_notice_def budget_simps latch_limited_keeps(1) intro: latch_limited_keeps(2))

lemma turn_notice_keeps:
  "k \<noteq> K_TURN_LIMITED \<Longrightarrow> budget_view (turn_notice bd sid s) (q, k) = budget_view s (q, k)"
  "durable s \<Longrightarrow> durable (turn_notice bd sid s)"
  by (auto simp: turn_notice_def budget_simps latch_limited_keeps(1) intro: latch_limited_keeps(2))

lemma check_session_keeps:
  "k \<noteq> K_LIMITED \<Longrightarrow> budget_view (snd (check_session_cap bd sid s)) (q, k) = budget_view s (q, k)"
  "durable s \<Longrightarrow> durable (snd (check_session_cap bd sid s))"
  by (auto simp: check_session_cap_def budget_simps latch_limited_keeps(1) intro: latch_limited_keeps(2))

lemma check_turn_keeps:
  "k \<noteq> K_TURN_LIMITED \<Longrightarrow> budget_view (snd (check_turn_cap bd sid s)) (q, k) = budget_view s (q, k)"
  "durable s \<Longrightarrow> durable (snd (check_turn_cap bd sid s))"
  by (auto simp: check_turn_cap_def budget_simps latch_limited_keeps(1) intro: latch_limited_keeps(2))

lemma adds [budget_simps]:
  "budget_view (add_count sid k n s) = (budget_view s)((sid, k) \<mapsto> JInt (count_of (budget_view s (sid, k)) + n))"
  "budget_view (add_cost sid k q s) = (budget_view s)((sid, k) \<mapsto> JFloat (round6 (cost_of (budget_view s (sid, k)) + q)))"
  by (simp_all add: add_count_def add_cost_def budget_simps)

lemma durable_adds [intro]: "durable s \<Longrightarrow> durable (add_count sid k n s)" "durable s \<Longrightarrow> durable (add_cost sid k q s)"
  by (auto simp: add_count_def add_cost_def budget_simps)

lemma count_of_JInt [simp]: "count_of (Some (JInt n)) = n"
  by (simp add: count_of_def int_or_zero_def py_int_def)

subsection \<open>Runs\<close>

datatype budget_action =
  A_Turn string string
| A_Pre string
| A_Post string "(string \<times> json) list option" rat
| A_Child_Pre string
| A_Child_Post string "(string \<times> json) list option" rat
| A_Restart

fun budget_step :: "budget_defaults \<Rightarrow> budget_action \<Rightarrow> budget_state \<Rightarrow> budget_state" where
  "budget_step bd (A_Turn turn_id sid) s = begin_turn turn_id sid s"
| "budget_step bd (A_Pre sid) s = snd (pre_call bd sid s)"
| "budget_step bd (A_Post sid usage cost) s = post_call bd sid usage cost s"
| "budget_step bd (A_Child_Pre sid) s = snd (child_pre_call bd sid s)"
| "budget_step bd (A_Child_Post sid usage cost) s = child_post_call bd sid usage cost s"
| "budget_step bd A_Restart s = restart_budgets s"

definition budget_run :: "budget_defaults \<Rightarrow> budget_action list \<Rightarrow> budget_state \<Rightarrow> budget_state" where
  "budget_run bd actions s = fold (budget_step bd) actions s"

text \<open>The parent that a sub-agent's session is charged to.\<close>

definition parent_of :: "string \<Rightarrow> budget_state \<Rightarrow> string option" where
  "parent_of c s = map_option fst (fst (attribution c s))"

lemma attribution_snd [budget_simps]: "budget_view (snd (attribution c s)) = budget_view s"
  by (auto simp: attribution_def split_beta budget_simps split: option.split json.split)

lemma attribution_durable [intro]: "durable s \<Longrightarrow> durable (snd (attribution c s))"
  by (auto simp: attribution_def split_beta split: option.split json.split)

lemma attribution_fst:
  "fst (attribution c s) =
    (if c = [] then None
     else case budget_view s (c, K_PARENT) of
            Some (JDict d) \<Rightarrow>
              (case jget ''session_id'' d of
                 JStr p \<Rightarrow> if p = [] then None else Some (p, text_or_empty (dict_get d ''turn_id''))
               | _ \<Rightarrow> None)
          | _ \<Rightarrow> None)"
  by (auto simp: attribution_def split_beta read_state_fst [symmetric] split: option.split json.split)

lemma parent_of_cong: "budget_view s (c, K_PARENT) = budget_view t (c, K_PARENT) \<Longrightarrow> parent_of c s = parent_of c t"
  by (simp add: parent_of_def attribution_fst)

lemma same_turn_simps [budget_simps]:
  "budget_view (snd (same_turn p turn_id s)) = budget_view s"
  by (simp add: same_turn_def budget_simps)

lemma same_turn_durable [intro]: "durable s \<Longrightarrow> durable (snd (same_turn p turn_id s))"
  by (auto simp: same_turn_def budget_simps)

definition the_default :: "int \<Rightarrow> int option \<Rightarrow> int" where
  "the_default d v = (case v of None \<Rightarrow> d | Some n \<Rightarrow> n)"

text \<open>What one action adds to the usage of session \<open>p\<close>.\<close>

definition charge :: "string \<Rightarrow> budget_state \<Rightarrow> budget_action \<Rightarrow> int" where
  "charge p s a =
    (case a of
       A_Post sid usage _ \<Rightarrow> if sid = p then the_default 0 (usage_total usage) else 0
     | A_Child_Post c usage _ \<Rightarrow> if parent_of c s = Some p then the_default 0 (usage_total usage) else 0
     | _ \<Rightarrow> 0)"

definition turn_splits :: "string \<Rightarrow> budget_state \<Rightarrow> bool" where
  "turn_splits p s =
    (count_of (budget_view s (p, K_TURN_USED)) =
       count_of (budget_view s (p, K_TURN_MAIN_USED)) + count_of (budget_view s (p, K_TURN_CHILD_USED)))"

definition used_tokens :: "string \<Rightarrow> budget_state \<Rightarrow> int" where
  "used_tokens p s = count_of (budget_view s (p, K_USED))"

text \<open>One step: the usage grows by the charge, the turn's usage stays split, parents are fixed.\<close>

definition accounts :: "string \<Rightarrow> int \<Rightarrow> budget_state \<Rightarrow> budget_state \<Rightarrow> bool" where
  "accounts p n s s' =
    (durable s' \<and> (\<forall>q. budget_view s' (q, K_PARENT) = budget_view s (q, K_PARENT)) \<and>
     used_tokens p s' = used_tokens p s + n \<and> (turn_splits p s \<longrightarrow> turn_splits p s'))"

lemmas accounts_simps = accounts_def used_tokens_def turn_splits_def charge_def the_default_def

lemma same_view_accounts: "durable s' \<Longrightarrow> budget_view s' = budget_view s \<Longrightarrow> accounts p 0 s s'"
  by (simp add: accounts_simps)

lemma pre_call_accounts: "durable s \<Longrightarrow> accounts p 0 s (snd (pre_call bd sid s))"
  by (auto simp: accounts_simps pre_call_def split_beta check_session_keeps(1) check_turn_keeps(1)
      intro: check_session_keeps(2) check_turn_keeps(2) split: bool.split)

lemma child_pre_call_accounts: "durable s \<Longrightarrow> accounts p 0 s (snd (child_pre_call bd sid s))"
  by (auto simp: accounts_simps child_pre_call_def split_beta check_session_keeps(1) check_turn_keeps(1) budget_simps
      intro: check_session_keeps(2) check_turn_keeps(2) attribution_durable same_turn_durable split: bool.split option.split)

lemma begin_turn_accounts: "durable s \<Longrightarrow> accounts p 0 s (begin_turn turn_id sid s)"
  by (auto simp: accounts_simps begin_turn_def budget_simps intro!: durable_upd)

lemma post_call_accounts:
  assumes "durable s" and "p \<noteq> []"
  shows "accounts p (charge p s (A_Post sid usage cost)) s (post_call bd sid usage cost s)"
proof (cases "sid = [] \<or> usage_total usage = None")
  case True
  then have "post_call bd sid usage cost s = s" "charge p s (A_Post sid usage cost) = 0"
    using assms by (auto simp: post_call_def charge_def the_default_def)
  then show ?thesis using assms by (simp add: same_view_accounts)
next
  case False
  then obtain n where n: "usage_total usage = Some n" and sid: "sid \<noteq> []" by auto
  show ?thesis
    using assms unfolding accounts_simps post_call_def n
    by (auto simp: sid n turn_notice_keeps(1) session_notice_keeps(1) budget_simps
        intro!: turn_notice_keeps(2) session_notice_keeps(2) durable_adds)
qed

lemma child_post_call_accounts:
  assumes "durable s" and "p \<noteq> []"
  shows "accounts p (charge p s (A_Child_Post c usage cost)) s (child_post_call bd c usage cost s)"
proof (cases "fst (attribution c s)")
  case None
  then have "child_post_call bd c usage cost s = snd (attribution c s)" "charge p s (A_Child_Post c usage cost) = 0"
    by (auto simp: child_post_call_def split_beta charge_def parent_of_def)
  then show ?thesis using assms by (auto intro: same_view_accounts simp: budget_simps)
next
  case (Some pt)
  obtain q turn_id where pt: "pt = (q, turn_id)" by fastforce
  define s1 where "s1 = snd (attribution c s)"
  have s1: "budget_view s1 = budget_view s" "durable s1" using assms by (auto simp: s1_def budget_simps)
  have attr: "attribution c s = (Some (q, turn_id), s1)" using Some by (simp add: s1_def pt prod_eq_iff)
  have parent: "parent_of c s = Some q" by (simp add: parent_of_def attr)
  show ?thesis
  proof (cases "usage_total usage")
    case None
    then show ?thesis using s1 by (simp add: child_post_call_def attr charge_def the_default_def same_view_accounts)
  next
    case n: (Some n)
    define s2 where "s2 = add_cost q K_COST cost (add_count q K_USED n s1)"
    define u where "u = snd (same_turn q turn_id s2)"
    define s3 where "s3 = (if fst (same_turn q turn_id s2)
        then turn_notice bd q (add_cost q K_TURN_COST cost (add_count q K_TURN_CHILD_USED n (add_count q K_TURN_USED n u)))
        else u)"
    have run: "child_post_call bd c usage cost s = session_notice bd q s3"
      by (simp add: child_post_call_def attr n s2_def u_def s3_def Let_def split_beta split: bool.split)
    have u: "budget_view u = budget_view s2" "durable u" using s1 by (auto simp: u_def s2_def budget_simps)
    show ?thesis
      unfolding run accounts_simps s3_def
      using u s1 by (auto simp: parent n turn_notice_keeps(1) session_notice_keeps(1) budget_simps s2_def
          intro!: turn_notice_keeps(2) session_notice_keeps(2) durable_adds)
  qed
qed

lemma budget_step_accounts: "durable s \<Longrightarrow> p \<noteq> [] \<Longrightarrow> accounts p (charge p s a) s (budget_step bd a s)"
proof (cases a)
  case A_Restart
  assume "durable s"
  then show ?thesis
    using A_Restart by (simp add: charge_def) (rule same_view_accounts, auto simp: budget_view_restart)
qed (simp_all add: begin_turn_accounts pre_call_accounts child_pre_call_accounts post_call_accounts child_post_call_accounts,
    simp_all add: charge_def begin_turn_accounts pre_call_accounts child_pre_call_accounts)

text \<open>A session with a cap of ten tokens and one sub-agent, before any call.\<close>

definition demo_budget :: budget_state where
  "demo_budget =
    \<lparr>bs_mem = Map.empty,
     bs_db = [(''p'', K_CAP) \<mapsto> JInt 10,
              (''c'', K_PARENT) \<mapsto> JDict [(''session_id'', JStr ''p''), (''turn_id'', JStr ''t'')]],
     bs_warned = {}, bs_turn_warned = {}, bs_events = []\<rparr>"

definition demo_usage :: "(string \<times> json) list option" where
  "demo_usage = Some [(''input_tokens'', JInt 5), (''output_tokens'', JInt 3)]"

lemma demo_budget_facts:
  "durable demo_budget" "budget_view demo_budget (''p'', K_CAP) = Some (JInt 10)" "used_tokens ''p'' demo_budget = 0"
  "turn_splits ''p'' demo_budget" "parent_of ''c'' demo_budget = Some ''p''" "usage_total demo_usage = Some 8"
  by (simp_all add: demo_budget_def demo_usage_def durable_def budget_view_def used_tokens_def turn_splits_def count_of_def
      int_or_zero_def parent_of_def attribution_fst jget_def usage_total_def py_int_def)



subsection \<open>How far a session can overshoot\<close>

lemma caps_kept:
  "budget_view (post_call bd sid usage cost s) (q, K_CAP) = budget_view s (q, K_CAP)"
  "budget_view (begin_turn turn_id sid s) (q, K_CAP) = budget_view s (q, K_CAP)"
  "budget_view (snd (pre_call bd sid s)) (q, K_CAP) = budget_view s (q, K_CAP)"
  by (auto simp: post_call_def begin_turn_def pre_call_def split_beta turn_notice_keeps(1) session_notice_keeps(1)
      check_session_keeps(1) check_turn_keeps(1) budget_simps split: option.split bool.split)

lemma child_caps_kept:
  "budget_view (child_post_call bd c usage cost s) (q, K_CAP) = budget_view s (q, K_CAP)"
  "budget_view (snd (child_pre_call bd c s)) (q, K_CAP) = budget_view s (q, K_CAP)"
  by (auto simp: child_post_call_def child_pre_call_def split_beta Let_def turn_notice_keeps(1) session_notice_keeps(1)
      check_session_keeps(1) check_turn_keeps(1) budget_simps split: option.split bool.split)

lemma check_session_cap_iff:
  assumes "budget_view s (p, K_CAP) = Some (JInt c)" and "0 < c"
  shows "fst (check_session_cap bd p s) \<longleftrightarrow> c \<le> used_tokens p s"
  using assms by (simp add: check_session_cap_def budget_simps used_tokens_def cap_of_def int_or_zero_def py_int_def)

lemma pre_call_refuses:
  assumes "budget_view s (p, K_CAP) = Some (JInt c)" "0 < c" "p \<noteq> []" "c \<le> used_tokens p s"
  shows "fst (pre_call bd p s)"
  using assms check_session_cap_iff [OF assms(1,2), of bd] by (auto simp: pre_call_def split_beta split: bool.split)

lemma child_pre_call_refuses:
  assumes "budget_view s (p, K_CAP) = Some (JInt c)" "0 < c" "parent_of k s = Some p" "c \<le> used_tokens p s"
  shows "fst (child_pre_call bd k s)"
proof -
  obtain turn_id s1 where attr: "attribution k s = (Some (p, turn_id), s1)"
    using assms(3) by (cases "attribution k s") (auto simp: parent_of_def)
  then have "budget_view s1 = budget_view s" using attribution_snd [of k s] by simp
  then have "fst (check_session_cap bd p s1)"
    using assms check_session_cap_iff [of s1 p c bd] by (simp add: used_tokens_def)
  then show ?thesis by (cases "check_session_cap bd p s1") (simp add: child_pre_call_def attr split_beta)
qed

text \<open>
  Model calls of one session and its sub-agents, at most \<open>k\<close> of them at a time, each reporting at most
  \<open>m\<close> tokens. The number counts the calls that were let through and have not reported yet.
\<close>

inductive spend :: "budget_defaults \<Rightarrow> string \<Rightarrow> nat \<Rightarrow> int \<Rightarrow> nat \<times> budget_state \<Rightarrow> nat \<times> budget_state \<Rightarrow> bool"
  for bd p k m where
  spend_start: "n < k \<Longrightarrow> \<not> fst (pre_call bd p s) \<Longrightarrow> spend bd p k m (n, s) (Suc n, snd (pre_call bd p s))"
| spend_child: "n < k \<Longrightarrow> parent_of c s = Some p \<Longrightarrow> \<not> fst (child_pre_call bd c s) \<Longrightarrow>
    spend bd p k m (n, s) (Suc n, snd (child_pre_call bd c s))"
| spend_done: "the_default 0 (usage_total usage) \<le> m \<Longrightarrow> spend bd p k m (Suc n, s) (n, post_call bd p usage cost s)"
| spend_child_done: "the_default 0 (usage_total usage) \<le> m \<Longrightarrow> parent_of c s = Some p \<Longrightarrow>
    spend bd p k m (Suc n, s) (n, child_post_call bd c usage cost s)"
| spend_turn: "spend bd p k m (n, s) (n, begin_turn turn_id p s)"
| spend_restart: "spend bd p k m (n, s) (0, restart_budgets s)"

definition spend_inv :: "string \<Rightarrow> nat \<Rightarrow> int \<Rightarrow> int \<Rightarrow> nat \<times> budget_state \<Rightarrow> bool" where
  "spend_inv p k m c x =
    (durable (snd x) \<and> budget_view (snd x) (p, K_CAP) = Some (JInt c) \<and> fst x \<le> k \<and>
     used_tokens p (snd x) + m * int (fst x) \<le> c - 1 + m * int k)"

lemma spend_inv_start:
  assumes "spend_inv p k m c (n, s)" "n < k" "used_tokens p s < c" "0 \<le> m"
    and "accounts p 0 s s'" "budget_view s' (p, K_CAP) = budget_view s (p, K_CAP)"
  shows "spend_inv p k m c (Suc n, s')"
proof -
  have "m * int (Suc n) \<le> m * int k" using assms(2,4) by (intro mult_left_mono) auto
  then show ?thesis using assms by (simp add: spend_inv_def accounts_def)
qed

lemma spend_inv_done:
  assumes "spend_inv p k m c (Suc n, s)" "d \<le> m" "accounts p d s s'" "budget_view s' (p, K_CAP) = budget_view s (p, K_CAP)"
  shows "spend_inv p k m c (n, s')"
  using assms by (simp add: spend_inv_def accounts_def algebra_simps)

lemma spend_preserves:
  assumes "spend bd p k m x y" "spend_inv p k m c x" "0 < c" "p \<noteq> []" "0 \<le> m"
  shows "spend_inv p k m c y"
  using assms(1,2)
proof cases
  case (spend_start n s)
  then have inv: "spend_inv p k m c (n, s)" using assms(2) by simp
  then have view: "budget_view s (p, K_CAP) = Some (JInt c)" "durable s" by (simp_all add: spend_inv_def)
  have "used_tokens p s < c" using pre_call_refuses [OF view(1) assms(3,4)] spend_start by (meson not_less)
  with inv spend_start assms(5) view pre_call_accounts show ?thesis by (auto intro: spend_inv_start simp: caps_kept)
next
  case (spend_child n ch s)
  then have inv: "spend_inv p k m c (n, s)" using assms(2) by simp
  then have view: "budget_view s (p, K_CAP) = Some (JInt c)" "durable s" by (simp_all add: spend_inv_def)
  have "used_tokens p s < c" using child_pre_call_refuses [OF view(1) assms(3)] spend_child by (meson not_less)
  with inv spend_child assms(5) view child_pre_call_accounts show ?thesis by (auto intro: spend_inv_start simp: child_caps_kept)
next
  case (spend_done usage n s cost)
  then have inv: "spend_inv p k m c (Suc n, s)" using assms(2) by simp
  then have "accounts p (the_default 0 (usage_total usage)) s (post_call bd p usage cost s)"
    using post_call_accounts [of s p p usage cost bd] assms(4) by (simp add: spend_inv_def charge_def)
  from spend_inv_done [OF inv _ this] show ?thesis using spend_done by (simp add: caps_kept)
next
  case (spend_child_done usage ch s n cost)
  then have inv: "spend_inv p k m c (Suc n, s)" using assms(2) by simp
  then have "accounts p (the_default 0 (usage_total usage)) s (child_post_call bd ch usage cost s)"
    using child_post_call_accounts [of s p ch usage cost bd] assms(4) spend_child_done by (simp add: spend_inv_def charge_def)
  from spend_inv_done [OF inv _ this] show ?thesis using spend_child_done by (simp add: child_caps_kept)
next
  case (spend_turn n s turn_id)
  then show ?thesis
    using assms(2) begin_turn_accounts [of s p turn_id p] by (simp add: spend_inv_def caps_kept accounts_def)
next
  case (spend_restart n s)
  have "m * int 0 \<le> m * int n" using assms(5) by simp
  moreover have "spend_inv p k m c (n, s)" using assms(2) spend_restart by simp
  ultimately show ?thesis
    using budget_view_restart [of s] durable_upd(7) [of s] by (simp add: spend_restart spend_inv_def used_tokens_def)
qed

text \<open>Two calls under way at the same time bring the session of the example to sixteen tokens, and the
  next one is refused.\<close>

definition demo_spend :: "budget_state list" where
  "demo_spend =
    (let s1 = snd (pre_call shipped_budget_defaults ''p'' demo_budget);
         s2 = snd (child_pre_call shipped_budget_defaults ''c'' s1);
         s3 = post_call shipped_budget_defaults ''p'' demo_usage 0 s2;
         s4 = child_post_call shipped_budget_defaults ''c'' demo_usage 0 s3
     in [s1, s2, s3, s4])"

lemma demo_spend_facts:
  "\<not> fst (pre_call shipped_budget_defaults ''p'' demo_budget)"
  "\<not> fst (child_pre_call shipped_budget_defaults ''c'' (demo_spend ! 0))"
  "parent_of ''c'' (demo_spend ! 0) = Some ''p''"
  "parent_of ''c'' (demo_spend ! 2) = Some ''p''"
  "used_tokens ''p'' (demo_spend ! 3) = 16"
  by code_simp+

lemma demo_spend_run:
  "(spend shipped_budget_defaults ''p'' 2 8)\<^sup>*\<^sup>* (0, demo_budget) (0, demo_spend ! 3)"
proof -
  let ?r = "spend shipped_budget_defaults ''p'' 2 8"
  have shape: "demo_spend ! 0 = snd (pre_call shipped_budget_defaults ''p'' demo_budget)"
    "demo_spend ! 1 = snd (child_pre_call shipped_budget_defaults ''c'' (demo_spend ! 0))"
    "demo_spend ! 2 = post_call shipped_budget_defaults ''p'' demo_usage 0 (demo_spend ! 1)"
    "demo_spend ! 3 = child_post_call shipped_budget_defaults ''c'' demo_usage 0 (demo_spend ! 2)"
    by (simp_all add: demo_spend_def Let_def)
  have u: "the_default 0 (usage_total demo_usage) \<le> 8" by (simp add: the_default_def demo_budget_facts)
  have "?r (0, demo_budget) (Suc 0, demo_spend ! 0)"
    unfolding shape(1) by (rule spend_start) (simp_all add: demo_spend_facts)
  moreover have "?r (Suc 0, demo_spend ! 0) (Suc (Suc 0), demo_spend ! 1)"
    unfolding shape(2) by (rule spend_child) (simp_all only: demo_spend_facts, simp_all)
  moreover have "?r (Suc (Suc 0), demo_spend ! 1) (Suc 0, demo_spend ! 2)"
    unfolding shape(3) by (rule spend_done [OF u])
  moreover have "?r (Suc 0, demo_spend ! 2) (0, demo_spend ! 3)"
    unfolding shape(4) by (rule spend_child_done [OF u demo_spend_facts(4)])
  ultimately show ?thesis by (meson rtranclp.rtrancl_refl rtranclp.rtrancl_into_rtrancl)
qed



end
