(* ===== verification/TaskFlow_Retry.thy ===== *)
theory TaskFlow_Retry
  imports TaskFlow_Dag
begin

section \<open>Retrying steps and waiting for children\<close>

text \<open>
  Models \<^verbatim>\<open>src/agent/tools/taskflow/tools/_retry.py\<close> (retry policies, failure classification, the
  retry plan and its record), the task texts of \<^verbatim>\<open>_shared.py\<close> and the polling tool
  \<^verbatim>\<open>taskflow_wait_all.py\<close>. A step's policy is a dictionary inside the step. Parameters: the spawn of
  a child session (the pipeline of the spawn theory, reached through \<^verbatim>\<open>_dispatch.dispatch_child\<close>), the
  fingerprint of a result (\<^verbatim>\<open>sha256\<close>), the prepended skill files, \<^verbatim>\<open>json.dumps\<close>, the clock and the
  liveness of the children.
\<close>

subsection \<open>Classifying a result\<close>

definition FAILURE_PATTERNS :: "(string \<times> string list) list" where
  "FAILURE_PATTERNS =
    [(''timeout'', [''timeout'', ''timed out'', ''time limit'']),
     (''rate_limit'', [''rate limit'', ''rate_limit'', ''429'', ''too many requests'']),
     (''error'', [''error'', ''failed'', ''failure'', ''exception'', ''traceback'', ''aborted'', ''crashed''])]"

definition NEGATED_FAILURE_PHRASES :: "string list" where
  "NEGATED_FAILURE_PHRASES =
    [''no error'', ''0 errors'', ''zero errors'', ''error-free'', ''error free'', ''without error'',
     ''no failure'', ''no exception'', ''no problem'']"

definition classify_failure :: "string \<Rightarrow> string option" where
  "classify_failure result =
    (let t = fold (\<lambda>phrase t. replace_all phrase '' '' t) NEGATED_FAILURE_PHRASES (lower result)
     in map_option fst (find (\<lambda>(kind, needles). list_ex (\<lambda>n. has_sub n t) needles) FAILURE_PATTERNS))"

subsection \<open>Policies\<close>

text \<open>
  A delay is the number of seconds, \<^const>\<open>None\<close> when it is infinite. The entries of \<^verbatim>\<open>retry_on\<close> are
  compared with the names of failure types only; an entry that is no text never equals one.
\<close>

record retry_policy =
  rp_max_retries :: int
  rp_delay :: "rat option"
  rp_retry_on :: "json list"

definition DEFAULT_RETRY_DELAY_SECONDS :: rat where
  "DEFAULT_RETRY_DELAY_SECONDS = 60"

definition policy_delay :: "json \<Rightarrow> rat option option" where
  "policy_delay v =
    (if v = JNull then Some (Some DEFAULT_RETRY_DELAY_SECONDS)
     else case py_float v of
            None \<Rightarrow> None
          | Some (Inl q) \<Rightarrow> Some (Some (max 0 q))
          | Some (Inr endless) \<Rightarrow> Some (if endless then None else Some 0))"

definition normalize_policy :: "jdict \<Rightarrow> retry_policy option" where
  "normalize_policy step =
    (case jget ''retry_policy'' step of
       JDict raw \<Rightarrow>
         (case (int_or_zero (dict_get raw ''max_retries''), policy_delay (jget ''retry_delay_seconds'' raw)) of
            (Some n, Some d) \<Rightarrow>
              Some \<lparr>rp_max_retries = max 0 n, rp_delay = d, rp_retry_on = list_of (jget ''retry_on'' raw)\<rparr>
          | _ \<Rightarrow> None)
     | _ \<Rightarrow> None)"

definition step_retry_count :: "jdict \<Rightarrow> int" where
  "step_retry_count step =
    (case int_or_zero (dict_get step ''retry_count'') of Some n \<Rightarrow> max 0 n | None \<Rightarrow> 0)"

definition retries_remaining :: "jdict \<Rightarrow> int" where
  "retries_remaining step =
    (case normalize_policy step of
       None \<Rightarrow> 0
     | Some p \<Rightarrow> max 0 (rp_max_retries p - step_retry_count step))"

definition retries_type :: "retry_policy \<Rightarrow> string \<Rightarrow> bool" where
  "retries_type p kind = (rp_retry_on p = [] \<or> JStr kind \<in> set (rp_retry_on p))"

definition should_retry_failure :: "jdict \<Rightarrow> string \<Rightarrow> bool option \<Rightarrow> bool" where
  "should_retry_failure step result schema_validated =
    (case normalize_policy step of
       None \<Rightarrow> False
     | Some p \<Rightarrow>
         if retries_remaining step \<le> 0 then False
         else if schema_validated = Some False then retries_type p ''schema_error''
         else (case classify_failure result of None \<Rightarrow> False | Some kind \<Rightarrow> retries_type p kind))"

datatype policy_error = Policy_Not_Dict | Bad_Max_Retries | Bad_Delay | Bad_Retry_On

definition validate_policy :: "json \<Rightarrow> policy_error option" where
  "validate_policy raw =
    (case raw of
       JNull \<Rightarrow> None
     | JDict d \<Rightarrow>
         if \<not> (case jget ''max_retries'' d of JNull \<Rightarrow> True | JInt n \<Rightarrow> 0 \<le> n | _ \<Rightarrow> False) then Some Bad_Max_Retries
         else if \<not> (case jget ''retry_delay_seconds'' d of
                      JNull \<Rightarrow> True | JInt n \<Rightarrow> 0 \<le> n | JFloat q \<Rightarrow> 0 \<le> q | _ \<Rightarrow> False) then Some Bad_Delay
         else if \<not> (case jget ''retry_on'' d of JNull \<Rightarrow> True | JList xs \<Rightarrow> list_all is_jstr xs | _ \<Rightarrow> False)
         then Some Bad_Retry_On
         else None
     | _ \<Rightarrow> Some Policy_Not_Dict)"

definition is_redispatch :: "jdict \<Rightarrow> bool" where
  "is_redispatch step = (truthy (jget ''child_session_key'' step) \<or> 0 < step_retry_count step)"

subsection \<open>Task texts\<close>

definition requester_session_key :: "text_id \<Rightarrow> string" where
  "requester_session_key sess = ''agent:main:session:'' @ sess"

definition requester_key_for_retry :: "jdict \<Rightarrow> text_id \<Rightarrow> string" where
  "requester_key_for_retry state sess =
    (let creator = strip (text_of (jget ''creator_session_key'' state))
     in if creator \<noteq> [] then creator else if sess \<noteq> [] then requester_session_key sess else [])"

text \<open>\<^verbatim>\<open>f"{v}"\<close> of an identifier: a text, or absent.\<close>

definition show_id :: "json \<Rightarrow> string" where
  "show_id v = (case v of JStr s \<Rightarrow> s | _ \<Rightarrow> ''None'')"

text \<open>The result recorded for a child: of several the last.\<close>

definition result_of :: "json list \<Rightarrow> string \<Rightarrow> jdict option" where
  "result_of results key = find (\<lambda>r. text_of (jget ''child_session_key'' r) = key) (rev (as_dicts (filter is_jdict results)))"

definition dep_section :: "jdict list \<Rightarrow> json list \<Rightarrow> json \<Rightarrow> string" where
  "dep_section steps results d =
    (let key = (case by_id steps d of None \<Rightarrow> [] | Some dep \<Rightarrow> text_of (jget ''child_session_key'' dep));
         found = (if key = [] then None else result_of results key)
     in ''### '' @ show_id d @ ''\<newline>'' @
        (case found of None \<Rightarrow> ''no result recorded'' | Some r \<Rightarrow> text_of (jget ''result'' r)))"

definition build_task_with_dep_results ::
    "(string \<Rightarrow> json \<Rightarrow> string) \<Rightarrow> jdict \<Rightarrow> jdict list \<Rightarrow> json list \<Rightarrow> string" where
  "build_task_with_dep_results prepend_skills step steps results =
    (let task = prepend_skills (text_of (jget ''task'' step)) (jget ''skills'' step)
     in if \<not> truthy (jget ''aggregate_deps'' step) \<or> \<not> truthy (jget ''depends_on'' step) then task
        else task @ ''\<newline>\<newline>## Upstream Results\<newline>'' @ join ''\<newline>\<newline>'' (map (dep_section steps results) (deps_of step)))"

text \<open>\<^verbatim>\<open>binding.split(".", 2)\<close> with three parts, the second being \<^verbatim>\<open>structured_result\<close>.\<close>

definition binding_value :: "jdict list \<Rightarrow> json list \<Rightarrow> json \<Rightarrow> json" where
  "binding_value steps results binding =
    (case binding of
       JStr text \<Rightarrow>
         (case split_on CHR ''.'' text of
            source # kind # p # ps \<Rightarrow>
              if kind = ''structured_result''
              then (case by_id steps (JStr source) of
                      None \<Rightarrow> JNull
                    | Some s \<Rightarrow>
                        (case result_of results (text_of (jget ''child_session_key'' s)) of
                           None \<Rightarrow> JNull
                         | Some r \<Rightarrow> extract_nested (jget ''structured_result'' r) (join ''.'' (p # ps))))
              else JNull
          | _ \<Rightarrow> JNull)
     | _ \<Rightarrow> JNull)"

definition build_task_with_bindings ::
    "(json \<Rightarrow> string) \<Rightarrow> string \<Rightarrow> jdict \<Rightarrow> jdict list \<Rightarrow> json list \<Rightarrow> string" where
  "build_task_with_bindings dumps task step steps results =
    (case jget ''input_bindings'' step of
       JDict bindings \<Rightarrow>
         if bindings = [] then task
         else task @ ''\<newline>\<newline>## Input parameters\<newline>'' @
                dumps (JDict (map (\<lambda>(name, b). (name, binding_value steps results b)) bindings))
     | _ \<Rightarrow> task)"

definition with_judge_feedback :: "string \<Rightarrow> string \<Rightarrow> string" where
  "with_judge_feedback task feedback =
    (let feedback = strip feedback
     in if feedback = [] then task
        else task @ ''\<newline>\<newline>## Previous Attempt Feedback\<newline>'' @
               ''The previous attempt was judged and needs revision:\<newline>'' @ feedback @
               ''\<newline>\<newline>Address this feedback and complete the task.'')"

subsection \<open>Replacing a child\<close>

text \<open>The arguments of \<^verbatim>\<open>dispatch_child\<close>.\<close>

record spawn_call =
  sc_task :: string
  sc_requester :: string
  sc_schema :: json
  sc_role :: json
  sc_model :: json
  sc_timeout :: json
  sc_flow :: "text_id option"
  sc_step :: json

definition step_spawn :: "string \<Rightarrow> string \<Rightarrow> jdict \<Rightarrow> text_id \<Rightarrow> spawn_call" where
  "step_spawn task requester step flow_id =
    \<lparr>sc_task = task, sc_requester = requester, sc_schema = jget ''response_schema'' step,
     sc_role = jget ''functional_role'' step, sc_model = jget ''step_model'' step,
     sc_timeout = jget ''step_timeout_seconds'' step, sc_flow = Some flow_id, sc_step = step_id_of step\<rparr>"

text \<open>\<^verbatim>\<open>spawn_replacement(task, requester_key)\<close> without the step's configuration.\<close>

definition bare_spawn :: "string \<Rightarrow> string \<Rightarrow> spawn_call" where
  "bare_spawn task requester =
    \<lparr>sc_task = task, sc_requester = requester, sc_schema = JNull, sc_role = JNull, sc_model = JNull,
     sc_timeout = JNull, sc_flow = None, sc_step = JNull\<rparr>"

definition apply_redispatch :: "time \<Rightarrow> string \<Rightarrow> int \<Rightarrow> jdict \<Rightarrow> jdict" where
  "apply_redispatch now key retry_count step =
    dict_set ''status'' (JStr ''dispatched'')
      (dict_set ''dispatched_at'' (JFloat now)
        (dict_set ''child_session_key'' (JStr key)
          (dict_set ''retry_count'' (JInt retry_count) step)))"

definition exhausted_note :: "jdict \<Rightarrow> int \<Rightarrow> int \<Rightarrow> string" where
  "exhausted_note step retry_count max_retries =
    (let key = text_of (jget ''child_session_key'' step)
     in ''retry budget exhausted: step '' @ show_id (step_id_of step) @ '' child '' @
        (if key = [] then ''<none>'' else key) @ '' settled without a result after '' @ show_int retry_count @
        '' retry/retries (max_retries='' @ show_int max_retries @
        ''); marked done by taskflow_step(action='' @ [CHR 0x27] @ ''wait_all'' @ [CHR 0x27] @ '')'')"

definition failure_result_record :: "(string \<Rightarrow> string \<Rightarrow> string) \<Rightarrow> string \<Rightarrow> string \<Rightarrow> time \<Rightarrow> jdict" where
  "failure_result_record hash key note now =
    [(''child_session_key'', JStr key), (''result'', JStr note), (''result_hash'', JStr (hash key note)),
     (''injected_at'', JFloat now), (''retry_exhausted'', JBool True)]"

subsection \<open>The plan for settled children\<close>

text \<open>
  What is to be done about a settled child: a replacement with the new retry count and the task
  text, or the record of the failure note with the count reached.
\<close>

datatype retry_action =
  Redispatch json string int retry_policy string
| Exhausted json string int int jdict

definition injected_keys :: "json list \<Rightarrow> string set" where
  "injected_keys results = set (map (\<lambda>r. text_of (jget ''child_session_key'' r)) (as_dicts (filter is_jdict results)))"

definition plan_action ::
    "(string \<Rightarrow> json \<Rightarrow> string) \<Rightarrow> (json \<Rightarrow> string) \<Rightarrow> (string \<Rightarrow> string \<Rightarrow> string) \<Rightarrow> time \<Rightarrow>
     jdict list \<Rightarrow> json list \<Rightarrow> json \<times> string \<Rightarrow> retry_action option" where
  "plan_action prepend_skills dumps hash now steps results pair =
    (case pair of (sid, key) \<Rightarrow>
       (case by_id steps sid of
          None \<Rightarrow> None
        | Some step \<Rightarrow>
            (case normalize_policy step of
               None \<Rightarrow> None
             | Some p \<Rightarrow>
                 if key \<in> injected_keys results then None
                 else
                   (let n = step_retry_count step
                    in if n < rp_max_retries p
                       then Some (Redispatch sid key (n + 1) p
                              (build_task_with_bindings dumps
                                (build_task_with_dep_results prepend_skills step steps results) step steps results))
                       else Some (Exhausted sid key n (rp_max_retries p)
                              (failure_result_record hash key (exhausted_note step n (rp_max_retries p)) now))))))"

definition plan_settled_retries ::
    "(string \<Rightarrow> json \<Rightarrow> string) \<Rightarrow> (json \<Rightarrow> string) \<Rightarrow> (string \<Rightarrow> string \<Rightarrow> string) \<Rightarrow> time \<Rightarrow>
     jdict list \<Rightarrow> json list \<Rightarrow> (json \<times> string) list \<Rightarrow> retry_action list" where
  "plan_settled_retries prepend_skills dumps hash now steps results settled_pairs =
    List.map_filter (plan_action prepend_skills dumps hash now steps results) settled_pairs"

text \<open>Changing the step with an id; of two steps with one id the dictionary keeps the later.\<close>

definition update_by_id :: "json \<Rightarrow> (jdict \<Rightarrow> jdict) \<Rightarrow> jdict list \<Rightarrow> jdict list" where
  "update_by_id i f steps =
    (case (if i = JNull then None else last_pos (\<lambda>s. step_id_of s = i) steps) of
       None \<Rightarrow> steps
     | Some k \<Rightarrow> steps[k := f (steps ! k)])"

definition result_hashes :: "json list \<Rightarrow> json list" where
  "result_hashes results = map (jget ''result_hash'') (as_dicts (filter is_jdict results))"

definition add_record :: "jdict \<Rightarrow> json list \<Rightarrow> json list" where
  "add_record r results =
    (if jget ''result_hash'' r \<in> set (result_hashes results) then results else results @ [JDict r])"

definition redispatch_one :: "time \<Rightarrow> retry_action \<times> string \<Rightarrow> jdict list \<Rightarrow> jdict list" where
  "redispatch_one now x steps =
    (case x of
       (Redispatch sid _ n _ _, key) \<Rightarrow> update_by_id sid (apply_redispatch now key n) steps
     | (Exhausted _ _ _ _ _, _) \<Rightarrow> steps)"

definition exhaust_one :: "retry_action \<Rightarrow> json list \<times> jdict list \<Rightarrow> json list \<times> jdict list" where
  "exhaust_one a acc =
    (case a of
       Exhausted sid _ _ _ r \<Rightarrow> (add_record r (fst acc), update_by_id sid (set_status ''done'') (snd acc))
     | Redispatch _ _ _ _ _ \<Rightarrow> acc)"

definition retried_state :: "time \<Rightarrow> (retry_action \<times> string) list \<Rightarrow> retry_action list \<Rightarrow> jdict \<Rightarrow> jdict" where
  "retried_state now redispatches exhausted state =
    (let steps = fold (redispatch_one now) redispatches (as_dicts (steps_of state));
         (results, steps') = fold exhaust_one exhausted (list_of (jget ''results'' state), steps)
     in dict_set ''results'' (JList results) (dict_set ''steps'' (JList (map JDict steps')) state))"

definition persist_retry_actions ::
    "(nat \<Rightarrow> flow_table \<Rightarrow> flow_table) \<Rightarrow> time \<Rightarrow> text_id \<Rightarrow> flow \<Rightarrow> (retry_action \<times> string) list \<Rightarrow> retry_action list
     \<Rightarrow> text_id \<Rightarrow> flow_table \<Rightarrow> (nat + flow) option \<times> flow_table" where
  "persist_retry_actions env now flow_id f redispatches exhausted sess t =
    (if redispatches = [] \<and> exhausted = [] then (None, t)
     else case update_flow_with_conflict_retry env now flow_id (fl_revision f) f
                 (\<lambda>g _. retried_state now redispatches exhausted (fl_state g)) sess PERSIST_MAX_ATTEMPTS no_update t of
            (r, t') \<Rightarrow> (Some r, t'))"

text \<open>
  \<^verbatim>\<open>_retry_settled_steps\<close>. \<open>spawn k\<close> is the outcome of the \<open>k\<close>-th replacement of the wave (\<^const>\<open>None\<close>
  when it fails); the result lists every action with the new child, and the outcome of the write.
\<close>

definition spawn_wave ::
    "(nat \<Rightarrow> spawn_call \<Rightarrow> string option) \<Rightarrow> string \<Rightarrow> retry_action list \<Rightarrow> (retry_action \<times> string option) list" where
  "spawn_wave spawn requester actions =
    map (\<lambda>(k, a). (a, case a of
             Redispatch _ _ _ _ task \<Rightarrow> spawn k (bare_spawn task requester)
           | Exhausted _ _ _ _ _ \<Rightarrow> None)) (List.enumerate 0 actions)"

definition is_exhausted :: "retry_action \<Rightarrow> bool" where
  "is_exhausted a = (case a of Exhausted _ _ _ _ _ \<Rightarrow> True | Redispatch _ _ _ _ _ \<Rightarrow> False)"

definition retry_settled_steps ::
    "(string \<Rightarrow> json \<Rightarrow> string) \<Rightarrow> (json \<Rightarrow> string) \<Rightarrow> (string \<Rightarrow> string \<Rightarrow> string) \<Rightarrow>
     (nat \<Rightarrow> spawn_call \<Rightarrow> string option) \<Rightarrow> (nat \<Rightarrow> flow_table \<Rightarrow> flow_table) \<Rightarrow> time \<Rightarrow> text_id \<Rightarrow> (json \<times> string) list
     \<Rightarrow> text_id \<Rightarrow> flow_table \<Rightarrow> ((retry_action \<times> string option) list \<times> (nat + flow) option) \<times> flow_table" where
  "retry_settled_steps prepend_skills dumps hash spawn env now flow_id report sess t =
    (case get_flow flow_id sess t of
       None \<Rightarrow> (([], None), t)
     | Some f \<Rightarrow>
         (let state = fl_state f;
              actions = plan_settled_retries prepend_skills dumps hash now (as_dicts (steps_of state))
                          (list_of (jget ''results'' state)) report;
              wave = spawn_wave spawn (requester_key_for_retry state sess) actions;
              redispatches = List.map_filter (\<lambda>(a, key). map_option (Pair a) key) wave
          in case persist_retry_actions env now flow_id f redispatches (filter is_exhausted actions) sess t of
               (written, t') \<Rightarrow> ((wave, written), t')))"

subsection \<open>Waiting for the children of a flow\<close>

text \<open>
  The polling loop: \<open>probe k\<close> is what the run registry answers at the \<open>k\<close>-th poll (\<^const>\<open>None\<close> when
  the lookup raises), \<open>clock k\<close> the monotonic clock when that poll compares it with the deadline.
\<close>

datatype wait_result = Wait_Error | Wait_Complete nat | Wait_Timeout nat

fun poll_children ::
    "(nat \<Rightarrow> string \<Rightarrow> bool option) \<Rightarrow> (nat \<Rightarrow> time) \<Rightarrow> time \<Rightarrow> string list \<Rightarrow> nat \<Rightarrow> nat \<Rightarrow> wait_result option" where
  "poll_children probe clock deadline keys 0 k = None"
| "poll_children probe clock deadline keys (Suc fuel) k =
    (if list_ex (\<lambda>key. probe k key = None) keys then Some Wait_Error
     else if list_all (\<lambda>key. probe k key = Some True) keys then Some (Wait_Complete k)
     else if deadline \<le> clock k then Some (Wait_Timeout k)
     else poll_children probe clock deadline keys fuel (k + 1))"

definition MIN_POLL_INTERVAL_SECONDS :: rat where
  "MIN_POLL_INTERVAL_SECONDS = 1 / 20"

definition wait_targets :: "jdict list \<Rightarrow> (json \<times> string) list" where
  "wait_targets steps =
    map (\<lambda>s. (step_id_of s, text_of (jget ''child_session_key'' s))) (filter (\<lambda>s. step_status s = ''dispatched'') steps)"

text \<open>The number of polls within which the loop ends.\<close>

definition poll_bound :: "time \<Rightarrow> time \<Rightarrow> nat" where
  "poll_bound timeout interval = nat \<lceil>max 0 timeout / interval\<rceil> + 1"

datatype wait_all_result =
  Wait_Needs_Flow_Id
| Wait_No_Flow text_id
| Nothing_To_Wait
| Waited wait_result
| Waited_And_Retried nat "(retry_action \<times> string option) list" "(nat + flow) option"

definition taskflow_wait_all ::
    "(string \<Rightarrow> json \<Rightarrow> string) \<Rightarrow> (json \<Rightarrow> string) \<Rightarrow> (string \<Rightarrow> string \<Rightarrow> string) \<Rightarrow>
     (nat \<Rightarrow> spawn_call \<Rightarrow> string option) \<Rightarrow> (nat \<Rightarrow> flow_table \<Rightarrow> flow_table) \<Rightarrow>
     (nat \<Rightarrow> string \<Rightarrow> bool option) \<Rightarrow> (nat \<Rightarrow> time) \<Rightarrow> time \<Rightarrow> time \<Rightarrow> time \<Rightarrow> text_id \<Rightarrow> text_id \<Rightarrow> flow_table
     \<Rightarrow> wait_all_result option \<times> flow_table" where
  "taskflow_wait_all prepend_skills dumps hash spawn env probe clock start timeout poll_interval flow_id sess t =
    (let i = strip flow_id
     in if i = [] then (Some Wait_Needs_Flow_Id, t)
        else case get_flow i sess t of
          None \<Rightarrow> (Some (Wait_No_Flow i), t)
        | Some f \<Rightarrow>
            (let targets = wait_targets (as_dicts (steps_of (fl_state f)));
                 interval = max MIN_POLL_INTERVAL_SECONDS poll_interval
             in if targets = [] then (Some Nothing_To_Wait, t)
                else case poll_children probe clock (start + max 0 timeout) (map snd targets)
                            (poll_bound timeout interval) 0 of
                  None \<Rightarrow> (None, t)
                | Some (Wait_Complete k) \<Rightarrow>
                    (case retry_settled_steps prepend_skills dumps hash spawn env (clock k) i targets sess (env 0 t) of
                       ((wave, written), t') \<Rightarrow> (Some (Waited_And_Retried k wave written), t'))
                | Some w \<Rightarrow> (Some (Waited w), t)))"

subsection \<open>The wait ends\<close>

lemma poll_children_returns:
  "j < fuel \<Longrightarrow> deadline \<le> clock (k + j) \<Longrightarrow> poll_children probe clock deadline keys fuel k \<noteq> None"
proof (induction fuel arbitrary: j k)
  case (Suc fuel)
  show ?case
  proof (cases j)
    case (Suc i)
    then show ?thesis using Suc.IH [of i "k + 1"] Suc.prems by simp
  qed (use Suc.prems in simp)
qed simp

lemma poll_children_sound:
  assumes "poll_children probe clock deadline keys fuel k = Some w"
  shows "(w = Wait_Complete m \<longrightarrow> list_all (\<lambda>key. probe m key = Some True) keys \<and> m < k + fuel) \<and>
    (w = Wait_Timeout m \<longrightarrow> deadline \<le> clock m \<and> \<not> list_all (\<lambda>key. probe m key = Some True) keys \<and> m < k + fuel)"
  using assms by (induction fuel arbitrary: k) (fastforce split: if_splits)+

lemma clock_advances:
  assumes "\<forall>k. clock k + d \<le> clock (k + 1)" shows "clock 0 + of_nat n * d \<le> (clock n :: rat)"
proof (induction n)
  case (Suc n)
  then show ?case using assms [rule_format, of n] by (simp add: algebra_simps)
qed simp

lemma poll_bound_enough:
  fixes x d :: rat
  assumes "0 < d" "0 \<le> x" shows "x \<le> of_nat (nat \<lceil>x / d\<rceil>) * d"
proof -
  have "0 \<le> x / d" using assms by simp
  then have "of_nat (nat \<lceil>x / d\<rceil>) = (of_int \<lceil>x / d\<rceil> :: rat)" by (simp add: of_nat_nat)
  moreover have "x \<le> of_int \<lceil>x / d\<rceil> * d"
    using le_of_int_ceiling [of "x / d"] by (simp only: pos_divide_le_eq [OF assms(1)])
  ultimately show ?thesis by simp
qed

lemma wait_loop_returns:
  assumes "start \<le> clock 0" and "\<forall>k. clock k + d \<le> clock (k + 1)" and "0 < d"
  shows "poll_children probe clock (start + max 0 timeout) keys (poll_bound timeout d) 0 \<noteq> None"
proof (rule poll_children_returns)
  define n where "n = nat \<lceil>max 0 timeout / d\<rceil>"
  show "n < poll_bound timeout d" by (simp add: poll_bound_def n_def)
  have "max 0 timeout \<le> of_nat n * d" unfolding n_def by (rule poll_bound_enough) (simp_all add: assms(3))
  moreover have "clock 0 + of_nat n * d \<le> clock n" by (rule clock_advances [OF assms(2)])
  ultimately show "start + max 0 timeout \<le> clock (0 + n)" using assms(1) unfolding add_0 by linarith
qed


text \<open>A flow with one child that never settles: the wait of two seconds times out.\<close>

definition demo_child_step :: "string \<Rightarrow> string \<Rightarrow> jdict" where
  "demo_child_step sid key =
    [(''step_id'', JStr sid), (''task'', JStr ''do it''), (''depends_on'', JList []), (''status'', JStr ''dispatched''),
     (''retry_count'', JInt 0), (''child_session_key'', JStr key),
     (''retry_policy'', JDict [(''max_retries'', JInt 1), (''retry_delay_seconds'', JInt 0)])]"

definition demo_child_flow :: flow where
  "demo_child_flow =
    (demo_flow ''f1'' ''waiting'')\<lparr>fl_state := [(''steps'', JList [JDict (demo_child_step ''a'' ''c1'')]), (''results'', JList [])]\<rparr>"


end
