(* ===== verification/TaskFlow_Dispatch.thy ===== *)
theory TaskFlow_Dispatch
  imports TaskFlow_Retry
begin

section \<open>Dispatching the ready steps of a flow\<close>

text \<open>
  Models the dispatch tool \<^verbatim>\<open>src/agent/tools/taskflow/tools/taskflow_dispatch.py\<close> and the wave
  \<^verbatim>\<open>_auto_dispatch_ready_locked\<close> of \<^verbatim>\<open>taskflow_resume.py\<close>. Both run under the flow's dispatch lock, so
  no other dispatch comes in between, while other writers of the flow do: \<open>env k\<close> is what they make of
  the table before the \<open>k\<close>-th statement. \<open>spawn k\<close> is the outcome of the \<open>k\<close>-th spawn: the text of the
  exception or the key of the child, which is running from then on. The first attempt of the write
  sees the step dictionaries that the tool has changed in place; a later one sees the flow read anew.
\<close>

subsection \<open>What a child is asked to do\<close>

record task_env =
  te_skills :: "string \<Rightarrow> json \<Rightarrow> string"
  te_show :: "json \<Rightarrow> string"
  te_spawn :: "nat \<Rightarrow> spawn_call \<Rightarrow> string + string"

definition step_task :: "task_env \<Rightarrow> jdict \<Rightarrow> jdict list \<Rightarrow> json list \<Rightarrow> string \<Rightarrow> string" where
  "step_task te step steps results feedback =
    with_judge_feedback
      (build_task_with_bindings (te_show te) (build_task_with_dep_results (te_skills te) step steps results) step steps results)
      feedback"

definition step_feedback :: "jdict \<Rightarrow> string" where
  "step_feedback step = strip (text_of (jget ''judge_feedback'' step))"

definition spawn_step ::
    "task_env \<Rightarrow> nat \<Rightarrow> text_id \<Rightarrow> text_id \<Rightarrow> jdict list \<Rightarrow> json list \<Rightarrow> jdict \<Rightarrow> string + string" where
  "spawn_step te k flow_id sess steps results step =
    te_spawn te k (step_spawn (step_task te step steps results (step_feedback step)) (requester_session_key sess) step flow_id)"

subsection \<open>The tool\<close>

datatype dispatch_error =
  Dispatch_Needs_Flow
| Dispatch_No_Flow text_id
| Dispatch_Terminal text_id string
| Dispatch_Needs_Steps
| Dispatch_Duplicates "string list"
| Dispatch_Unknown string
| Dispatch_Not_Ready string string
| Dispatch_Budget string int int

fun duplicate_ids :: "string list \<Rightarrow> string list \<Rightarrow> string list" where
  "duplicate_ids seen [] = []"
| "duplicate_ids seen (x # xs) =
    (if x \<in> set seen then x # duplicate_ids seen xs else duplicate_ids (x # seen) xs)"

definition dispatchable :: "jdict \<Rightarrow> jdict list \<Rightarrow> bool" where
  "dispatchable step steps =
    (step_status step = ''ready'' \<or>
     (step_status step = ''blocked'' \<and> truthy (jget ''depends_on'' step) \<and> deps_satisfied step steps))"

definition check_dispatch :: "jdict list \<Rightarrow> string \<Rightarrow> dispatch_error option" where
  "check_dispatch steps sid =
    (case by_id steps (JStr sid) of
       None \<Rightarrow> Some (Dispatch_Unknown sid)
     | Some step \<Rightarrow>
         if \<not> dispatchable step steps then Some (Dispatch_Not_Ready sid (step_status step))
         else (case normalize_policy step of
                 None \<Rightarrow> None
               | Some p \<Rightarrow>
                   if is_redispatch step \<and> rp_max_retries p \<le> step_retry_count step
                   then Some (Dispatch_Budget sid (step_retry_count step) (rp_max_retries p)) else None))"

fun check_batch :: "jdict list \<Rightarrow> string list \<Rightarrow> dispatch_error option" where
  "check_batch steps [] = None"
| "check_batch steps (sid # sids) =
    (case check_dispatch steps sid of Some e \<Rightarrow> Some e | None \<Rightarrow> check_batch steps sids)"

text \<open>The step dictionary after its child was spawned; it is the record that is merged.\<close>

definition dispatched_step :: "time \<Rightarrow> string \<Rightarrow> jdict \<Rightarrow> jdict" where
  "dispatched_step now key step =
    (let s1 = (if step_feedback step = [] then step else dict_pop ''judge_feedback'' step);
         s2 = (case normalize_policy s1 of
                 None \<Rightarrow> s1
               | Some _ \<Rightarrow>
                   dict_set ''retry_count'' (JInt (if is_redispatch s1 then step_retry_count s1 + 1 else step_retry_count s1)) s1)
     in dict_set ''dispatched_at'' (JFloat now)
          (dict_set ''child_session_key'' (JStr key) (set_status ''dispatched'' s2)))"

definition change_step :: "string \<times> jdict \<Rightarrow> jdict list \<Rightarrow> jdict list" where
  "change_step x steps = (case x of (sid, s) \<Rightarrow> update_by_id (JStr sid) (\<lambda>_. s) steps)"

definition with_steps :: "jdict list \<Rightarrow> jdict \<Rightarrow> jdict" where
  "with_steps steps state = dict_set ''steps'' (JList (map JDict steps)) state"

definition flow_steps :: "jdict \<Rightarrow> jdict list" where
  "flow_steps state = as_dicts (steps_of state)"

definition flow_results :: "jdict \<Rightarrow> json list" where
  "flow_results state = list_of (jget ''results'' state)"

definition merge_dispatched :: "jdict list \<Rightarrow> jdict \<Rightarrow> jdict" where
  "merge_dispatched records state = with_steps (apply_dispatched_steps (flow_steps state) records) state"

datatype dispatch_result =
  Dispatch_Refused dispatch_error
| Dispatch_Failed "string list"
| Dispatch_Unrecorded "(string \<times> string) list" nat
| Dispatched flow "(string \<times> string) list" "string list"

text \<open>The outcome of every requested spawn, split into the children and the failures.\<close>

definition spawned_children :: "(string \<times> (string + string)) list \<Rightarrow> (string \<times> string) list" where
  "spawned_children outcomes = List.map_filter (\<lambda>(sid, r). case r of Inl _ \<Rightarrow> None | Inr key \<Rightarrow> Some (sid, key)) outcomes"

definition failed_spawns :: "(string \<times> (string + string)) list \<Rightarrow> string list" where
  "failed_spawns outcomes = map fst (filter (isl \<circ> snd) outcomes)"

text \<open>
  The spawns of an accepted batch; the steps they change; and the state callback of the write, which on
  its first attempt sees the dictionaries changed in place.
\<close>

definition batch_outcomes :: "task_env \<Rightarrow> text_id \<Rightarrow> text_id \<Rightarrow> flow \<Rightarrow> string list \<Rightarrow> (string \<times> (string + string)) list" where
  "batch_outcomes te i sess f requested =
    map (\<lambda>(k, sid). (sid, spawn_step te k i sess (flow_steps (fl_state f)) (flow_results (fl_state f))
                             (the (by_id (flow_steps (fl_state f)) (JStr sid))))) (List.enumerate 0 requested)"

definition batch_changes :: "time \<Rightarrow> flow \<Rightarrow> (string \<times> string) list \<Rightarrow> (string \<times> jdict) list" where
  "batch_changes now f children =
    map (\<lambda>(sid, key). (sid, dispatched_step now key (the (by_id (flow_steps (fl_state f)) (JStr sid))))) children"

definition batch_build :: "time \<Rightarrow> flow \<Rightarrow> (string \<times> string) list \<Rightarrow> flow \<Rightarrow> nat \<Rightarrow> jdict" where
  "batch_build now f children g a =
    merge_dispatched (map snd (batch_changes now f children))
      (if a = 1 then with_steps (fold change_step (batch_changes now f children) (flow_steps (fl_state f))) (fl_state g) else fl_state g)"

definition taskflow_dispatch ::
    "task_env \<Rightarrow> (nat \<Rightarrow> flow_table \<Rightarrow> flow_table) \<Rightarrow> time \<Rightarrow> text_id \<Rightarrow> string list \<Rightarrow> int option \<Rightarrow> text_id \<Rightarrow> flow_table
     \<Rightarrow> dispatch_result \<times> flow_table" where
  "taskflow_dispatch te env now flow_id step_ids expected sess t =
    (let i = strip flow_id
     in if i = [] then (Dispatch_Refused Dispatch_Needs_Flow, t)
        else case get_flow i sess t of
          None \<Rightarrow> (Dispatch_Refused (Dispatch_No_Flow i), t)
        | Some f \<Rightarrow>
            (let requested = map strip step_ids; steps = flow_steps (fl_state f)
             in if flow_terminal (fl_status f) then (Dispatch_Refused (Dispatch_Terminal i (fl_status f)), t)
                else if requested = [] then (Dispatch_Refused Dispatch_Needs_Steps, t)
                else if duplicate_ids [] requested \<noteq> []
                then (Dispatch_Refused (Dispatch_Duplicates (duplicate_ids [] requested)), t)
                else case check_batch steps requested of
                  Some e \<Rightarrow> (Dispatch_Refused e, t)
                | None \<Rightarrow>
                    (let outcomes = batch_outcomes te i sess f requested; children = spawned_children outcomes
                     in if children = [] then (Dispatch_Failed (failed_spawns outcomes), t)
                        else case update_flow_with_conflict_retry env now i (case expected of Some n \<Rightarrow> n | None \<Rightarrow> fl_revision f)
                                    f (batch_build now f children) sess PERSIST_MAX_ATTEMPTS no_update t of
                          (Inl attempts, t') \<Rightarrow> (Dispatch_Unrecorded children attempts, t')
                        | (Inr g, t') \<Rightarrow> (Dispatched g children (failed_spawns outcomes), t'))))"

subsection \<open>The wave of a resume\<close>

definition wave_ready :: "jdict list \<Rightarrow> string \<Rightarrow> bool" where
  "wave_ready steps sid =
    (case by_id steps (JStr sid) of
       None \<Rightarrow> True
     | Some step \<Rightarrow>
         step_status step = ''ready'' \<and> \<not> truthy (jget ''child_session_key'' step) \<and> deps_satisfied step steps)"

definition wave_record :: "time \<Rightarrow> string \<times> string \<Rightarrow> jdict" where
  "wave_record now x =
    [(''step_id'', JStr (fst x)), (''status'', JStr ''dispatched''), (''child_session_key'', JStr (snd x)), (''dispatched_at'', JFloat now)]"

record wave =
  wv_dispatched :: "(string \<times> string) list"
  wv_failed :: "string list"
  wv_unrecorded :: "nat option"

definition auto_dispatch_ready ::
    "task_env \<Rightarrow> (nat \<Rightarrow> flow_table \<Rightarrow> flow_table) \<Rightarrow> nat \<Rightarrow> time \<Rightarrow> text_id \<Rightarrow> string list \<Rightarrow> text_id \<Rightarrow> flow_table
     \<Rightarrow> wave \<times> flow_table" where
  "auto_dispatch_ready te env first now flow_id ready_ids sess t =
    (case get_flow flow_id sess t of
       None \<Rightarrow> (\<lparr>wv_dispatched = [], wv_failed = ready_ids, wv_unrecorded = None\<rparr>, t)
     | Some f \<Rightarrow>
         (let steps = flow_steps (fl_state f); results = flow_results (fl_state f);
              sids = filter (wave_ready steps) ready_ids;
              outcomes = map (\<lambda>(k, sid). (sid, case by_id steps (JStr sid) of
                                 None \<Rightarrow> Inl ''unknown step''
                               | Some step \<Rightarrow> spawn_step te k flow_id sess steps results step)) (List.enumerate first sids);
              children = spawned_children outcomes;
              build = (\<lambda>g _. merge_dispatched (map (wave_record now) children) (fl_state g))
          in if children = []
             then (\<lparr>wv_dispatched = [], wv_failed = failed_spawns outcomes, wv_unrecorded = None\<rparr>, t)
             else case update_flow_with_conflict_retry env now flow_id (fl_revision f) f build sess PERSIST_MAX_ATTEMPTS no_update t of
               (Inl attempts, t') \<Rightarrow>
                 (\<lparr>wv_dispatched = children, wv_failed = failed_spawns outcomes, wv_unrecorded = Some attempts\<rparr>, t')
             | (Inr g, t') \<Rightarrow> (\<lparr>wv_dispatched = children, wv_failed = failed_spawns outcomes, wv_unrecorded = None\<rparr>, t')))"

subsection \<open>Looking a step up after a change\<close>

lemma last_pos_Nil [simp]: "last_pos P [] = None"
  by (simp add: last_pos_def)

lemma last_pos_snoc: "last_pos P (xs @ [x]) = (if P x then Some (length xs) else last_pos P xs)"
proof -
  have "find (\<lambda>i. P ((xs @ [x]) ! i)) (rev [0 ..< length xs]) = find (\<lambda>i. P (xs ! i)) (rev [0 ..< length xs])"
    by (rule find_cong) (simp_all add: nth_append)
  then show ?thesis by (simp add: last_pos_def)
qed

lemma by_id_append: "by_id (xs @ ys) i = (case by_id ys i of Some s \<Rightarrow> Some s | None \<Rightarrow> by_id xs i)"
  unfolding by_id_def by (induction ys rule: rev_induct) auto

lemma by_id_Nil [simp]: "by_id [] i = None"
  by (simp add: by_id_def)

lemma by_id_single [simp]: "by_id [s] i = (if step_id_of s = i then Some s else None)"
  by (simp add: by_id_def)

lemma update_by_id_snoc:
  "update_by_id i f (xs @ [x]) = (if i \<noteq> JNull \<and> step_id_of x = i then xs @ [f x] else update_by_id i f xs @ [x])"
proof -
  have "last_pos P xs = Some k \<Longrightarrow> k < length xs" for k and P :: "jdict \<Rightarrow> bool" using last_pos_Some by blast
  then show ?thesis by (auto simp: update_by_id_def last_pos_snoc nth_append list_update_append split: option.split)
qed

lemma update_by_id_Nil [simp]: "update_by_id i f [] = []"
  by (simp add: update_by_id_def)

lemma by_id_update_by_id:
  assumes "\<And>s. step_id_of s = i \<Longrightarrow> step_id_of (f s) = i" and "i \<noteq> JNull"
  shows "by_id (update_by_id i f steps) j = (if j = i then map_option f (by_id steps i) else by_id steps j)"
  by (induction steps rule: rev_induct) (use assms in \<open>auto simp: update_by_id_snoc by_id_append\<close>)

lemma ids_update_by_id:
  assumes "\<And>s. step_id_of s = i \<Longrightarrow> step_id_of (f s) = i"
  shows "map step_id_of (update_by_id i f steps) = map step_id_of steps"
  by (induction steps rule: rev_induct) (use assms in \<open>auto simp: update_by_id_snoc\<close>)

lemma length_update_by_id [simp]: "length (update_by_id i f steps) = length steps"
  by (simp add: update_by_id_def split: option.split)

lemma last_pos_by_id: "last_pos (\<lambda>s. step_id_of s = i) steps = None \<longleftrightarrow> by_id steps i = None"
  by (induction steps rule: rev_induct) (auto simp: last_pos_snoc by_id_append)

lemma merge_record_update:
  "merge_record n r merged =
    (if step_id_of r = JNull \<or> by_id (take n merged) (step_id_of r) = None then merged @ [r]
     else update_by_id (step_id_of r) (record_dispatch r) (take n merged) @ drop n merged)"
proof (cases "step_id_of r = JNull \<or> by_id (take n merged) (step_id_of r) = None")
  case True
  then show ?thesis using last_pos_by_id [of "step_id_of r" "take n merged"] by (auto simp: merge_record_def)
next
  case False
  then obtain k where k: "last_pos (\<lambda>s. step_id_of s = step_id_of r) (take n merged) = Some k"
    using last_pos_by_id [of "step_id_of r" "take n merged"] by (cases "last_pos (\<lambda>s. step_id_of s = step_id_of r) (take n merged)") auto
  then have len: "k < length (take n merged)" using last_pos_Some by blast
  have "(take n merged @ drop n merged)[k := x] = (take n merged)[k := x] @ drop n merged" for x
    by (rule list_update_append1 [OF len])
  with False k len show ?thesis by (auto simp: merge_record_def update_by_id_def)
qed

text \<open>Appended records have ids that no step of the list had.\<close>

definition merged_ok :: "nat \<Rightarrow> json set \<Rightarrow> jdict list \<Rightarrow> bool" where
  "merged_ok n done merged \<longleftrightarrow> n \<le> length merged \<and>
     (\<forall>s \<in> set (drop n merged). step_id_of s \<in> done \<and> by_id (take n merged) (step_id_of s) = None)"

lemma by_id_merge_record:
  assumes "merged_ok n done merged" and "step_id_of r \<noteq> JNull" and "step_id_of r \<notin> done"
  shows "merged_ok n (insert (step_id_of r) done) (merge_record n r merged)"
    and "\<exists>s. by_id (merge_record n r merged) (step_id_of r) = Some s \<and> records_child r s"
    and "j \<noteq> step_id_of r \<Longrightarrow> by_id (merge_record n r merged) j = by_id merged j"
proof -
  let ?A = "take n merged" and ?B = "drop n merged" and ?i = "step_id_of r"
  have ids: "\<And>s. step_id_of s = ?i \<Longrightarrow> step_id_of (record_dispatch r s) = ?i" by simp
  note upd = by_id_update_by_id [of ?i "record_dispatch r", OF ids assms(2)]
  have tail: "by_id ?B ?i = None" using assms(1,3) by (auto simp: merged_ok_def by_id_None)
  have len: "n \<le> length merged" using assms(1) by (simp add: merged_ok_def)
  have split: "by_id merged j = (case by_id ?B j of Some s \<Rightarrow> Some s | None \<Rightarrow> by_id ?A j)" for j
    using by_id_append [of ?A ?B j] by simp
  show "merged_ok n (insert ?i done) (merge_record n r merged)"
    using assms(1) len upd [of ?A] by (auto simp: merge_record_update merged_ok_def assms(2))
  show "\<exists>s. by_id (merge_record n r merged) ?i = Some s \<and> records_child r s"
  proof (cases "by_id ?A ?i")
    case (Some s)
    then have "by_id (merge_record n r merged) ?i = Some (record_dispatch r s)" "step_id_of s = ?i"
      using upd [of ?A ?i] tail by (simp_all add: merge_record_update by_id_append assms(2) by_id_Some)
    then show ?thesis by (simp add: records_child_def record_dispatch_fields)
  qed (simp add: merge_record_update by_id_append records_child_def)
  show "by_id (merge_record n r merged) j = by_id merged j" if "j \<noteq> ?i"
    unfolding merge_record_update using that split [of j] assms(2) by (auto simp: by_id_append upd split: option.split)
qed

lemma by_id_apply_dispatched:
  assumes "distinct (map step_id_of records)" and "JNull \<notin> step_id_of ` set records"
  shows "r \<in> set records \<Longrightarrow> \<exists>s. by_id (apply_dispatched_steps fresh records) (step_id_of r) = Some s \<and> records_child r s"
    and "j \<notin> step_id_of ` set records \<Longrightarrow> by_id (apply_dispatched_steps fresh records) j = by_id fresh j"
proof -
  let ?n = "length fresh"
  have "merged_ok ?n (step_id_of ` set records) (fold (merge_record ?n) records fresh) \<and>
    (\<forall>r \<in> set records. \<exists>s. by_id (fold (merge_record ?n) records fresh) (step_id_of r) = Some s \<and> records_child r s) \<and>
    (\<forall>j. j \<notin> step_id_of ` set records \<longrightarrow> by_id (fold (merge_record ?n) records fresh) j = by_id fresh j)"
    using assms
  proof (induction records rule: rev_induct)
    case Nil
    then show ?case by (simp add: merged_ok_def)
  next
    case (snoc q records)
    then have q: "step_id_of q \<noteq> JNull" "step_id_of q \<notin> step_id_of ` set records" by auto
    let ?m = "fold (merge_record ?n) records fresh"
    have IH: "merged_ok ?n (step_id_of ` set records) ?m"
      "\<And>r. r \<in> set records \<Longrightarrow> \<exists>s. by_id ?m (step_id_of r) = Some s \<and> records_child r s"
      "\<And>j. j \<notin> step_id_of ` set records \<Longrightarrow> by_id ?m j = by_id fresh j"
      using snoc by auto
    note step = by_id_merge_record [OF IH(1) q]
    have "\<exists>s. by_id (merge_record ?n q ?m) (step_id_of r) = Some s \<and> records_child r s" if "r \<in> set (records @ [q])" for r
    proof (cases "r = q")
      case True
      then show ?thesis using step(2) by simp
    next
      case False
      with that have r: "r \<in> set records" by simp
      then have "step_id_of r \<noteq> step_id_of q" using q(2) image_eqI by metis
      then show ?thesis using step(3) IH(2) [OF r] by simp
    qed
    moreover have "by_id (merge_record ?n q ?m) j = by_id fresh j" if "j \<notin> step_id_of ` set (records @ [q])" for j
      using that step(3) [of j] IH(3) [of j] by simp
    ultimately show ?case using step(1) by simp
  qed
  then show "r \<in> set records \<Longrightarrow> \<exists>s. by_id (apply_dispatched_steps fresh records) (step_id_of r) = Some s \<and> records_child r s"
    and "j \<notin> step_id_of ` set records \<Longrightarrow> by_id (apply_dispatched_steps fresh records) j = by_id fresh j"
    by (auto simp: apply_dispatched_steps_def)
qed

subsection \<open>What a write with retries has stored\<close>

definition env_ok :: "(nat \<Rightarrow> flow_table \<Rightarrow> flow_table) \<Rightarrow> bool" where
  "env_ok env \<longleftrightarrow> (\<forall>k t. table_ok t \<longrightarrow> table_ok (env k t))"

lemma env_okD: "env_ok env \<Longrightarrow> table_ok t \<Longrightarrow> table_ok (env k t)"
  by (simp add: env_ok_def)

lemma env_ok_quiet [simp]: "env_ok (\<lambda>_ t. t)"
  by (simp add: env_ok_def)

lemma retry_write_Inr:
  assumes "env_ok env" and "table_ok t"
    and "retry_write env now i sess build u left attempt cur n t = (Inr f, t')"
  shows "table_ok t' \<and> get_flow i sess t' = Some f \<and>
    (\<exists>g a r m. f = row_to_flow (apply_update now m (u\<lparr>up_state := Some (build g a)\<rparr>) r))"
  using assms(2,3)
proof (induction left arbitrary: attempt cur n t)
  case (Suc left)
  let ?t1 = "env (2 * attempt) t" and ?u = "u\<lparr>up_state := Some (build cur attempt)\<rparr>"
  have ok1: "table_ok ?t1" by (rule env_okD [OF assms(1) Suc.prems(1)])
  show ?case
  proof (rule update_flow_cases [OF ok1 assigns_state, where i = i and n = n and sess = sess and now = now
        and st1 = "build cur attempt" and u1 = u])
    fix r
    assume "update_flow now i n sess ?u ?t1 =
        (Inr (row_to_flow (apply_update now (n + 1) ?u r)),
         update_where (at_revision i n sess) (apply_update now (n + 1) ?u) ?t1)"
    then have upd: "update_flow now i n sess ?u ?t1 = (Inr f, t')" using Suc.prems(2) by (simp add: Let_def)
    then have "table_ok t'" using update_flow_ok [OF ok1, of now i n sess ?u] by simp
    with update_flow_Inr [OF ok1 assigns_state upd] show ?thesis by blast
  next
    fix r
    assume res: "update_flow now i n sess ?u ?t1 = (Inl (Flow_Conflict i n (fl_revision r)), ?t1)"
    let ?t3 = "env (2 * attempt + 1) ?t1"
    from res Suc.prems(2) obtain fresh where
      "retry_write env now i sess build u left (attempt + 1) fresh (fl_revision fresh) ?t3 = (Inr f, t')"
      by (auto simp: Let_def split: if_splits option.splits)
    with Suc.IH env_okD [OF assms(1) ok1] show ?thesis by blast
  next
    assume "update_flow now i n sess ?u ?t1 = (Inl (Flow_Not_Found i), ?t1)"
    with Suc.prems(2) show ?thesis by (simp add: Let_def)
  qed
qed simp

lemmas conflict_retry_Inr = retry_write_Inr [of _ _ _ _ _ _ _ _ 1, folded update_flow_with_conflict_retry_def]

lemma stored_state [simp]: "fl_state (row_to_flow (apply_update now m (u\<lparr>up_state := Some st\<rparr>) r)) = st"
  by (simp add: row_to_flow_def apply_update_def or_keep_def)

lemma conflict_retry_state:
  assumes "env_ok env" and "table_ok t"
    and "update_flow_with_conflict_retry env now i n origin build sess k u t = (Inr f, t')"
  obtains g a where "table_ok t'" "get_flow i sess t' = Some f" "fl_state f = build g a"
  using conflict_retry_Inr [OF assms] stored_state by metis

text \<open>A write that names another revision than the stored one is repeated with the stored one.\<close>

lemma stale_revision_retried:
  assumes "table_ok t" and "get_flow i sess t = Some f" and "\<not> flow_terminal (fl_status f)" and "n \<noteq> fl_revision f"
    and "2 \<le> attempts"
  shows "\<exists>g t'. update_flow_with_conflict_retry (\<lambda>_ t. t) now i n origin build sess attempts u t = (Inr g, t') \<and>
    fl_state g = build f 2 \<and> fl_revision g = fl_revision f + 1"
proof -
  obtain r where r: "r \<in> set t" "fl_id r = i" "fl_session r = sess" "f = row_to_flow r"
    using assms(2) unfolding get_flow_Some [OF assms(1)] by blast
  have rev: "fl_revision r = fl_revision f" by (simp add: r(4) row_to_flow_def)
  obtain k where k: "attempts = Suc (Suc k)" using assms(5) by (cases attempts; cases "attempts - 1") auto
  have "update_flow now i n sess (u\<lparr>up_state := Some (build origin 1)\<rparr>) t = (Inl (Flow_Conflict i n (fl_revision r)), t)"
    by (rule update_flow_conflicts [OF assms(1) assigns_state r(1-3)]) (use rev assms(4) in simp)
  moreover have "update_flow now i (fl_revision f) sess (u\<lparr>up_state := Some (build f 2)\<rparr>) t =
      (Inr (row_to_flow (apply_update now (fl_revision f + 1) (u\<lparr>up_state := Some (build f 2)\<rparr>) r)),
       update_where (at_revision i (fl_revision f) sess) (apply_update now (fl_revision f + 1) (u\<lparr>up_state := Some (build f 2)\<rparr>)) t)"
    by (rule update_flow_wins [OF assms(1) assigns_state r(1-3) rev])
  ultimately show ?thesis
    using assms(2,3) unfolding update_flow_with_conflict_retry_def k
    by (simp add: numeral_2_eq_2 row_to_flow_def apply_update_def or_keep_def)
qed

subsection \<open>The children of a batch\<close>

lemma duplicate_ids_Nil: "duplicate_ids seen xs = [] \<longleftrightarrow> distinct xs \<and> set xs \<inter> set seen = {}"
  by (induction xs arbitrary: seen) auto

lemma outcomes_split:
  "mset (map fst (spawned_children outcomes)) + mset (failed_spawns outcomes) = mset (map fst outcomes)"
proof (induction outcomes)
  case (Cons x xs)
  then show ?case by (cases x; cases "snd x") (auto simp: spawned_children_def failed_spawns_def map_filter_simps)
qed (simp add: spawned_children_def failed_spawns_def map_filter_simps)

lemma spawned_children_fst: "map fst (spawned_children outcomes) = map fst (filter (\<lambda>x. \<not> isl (snd x)) outcomes)"
  by (induction outcomes) (auto simp: spawned_children_def map_filter_simps split: sum.splits)

lemma spawned_children_mem: "(sid, key) \<in> set (spawned_children outcomes) \<longleftrightarrow> (sid, Inr key) \<in> set outcomes"
  by (induction outcomes) (auto simp: spawned_children_def map_filter_simps split: sum.splits)

lemma check_batch_None: "check_batch steps sids = None \<longleftrightarrow> list_all (\<lambda>sid. check_dispatch steps sid = None) sids"
  by (induction sids) (auto split: option.split)

lemma dispatched_step_fields:
  "step_id_of (dispatched_step now key step) = step_id_of step" "step_status (dispatched_step now key step) = ''dispatched''"
  "jget ''child_session_key'' (dispatched_step now key step) = JStr key"
  "jget ''status'' (dispatched_step now key step) = JStr ''dispatched''"
  by (auto simp: dispatched_step_def Let_def step_id_of_def set_status_def step_status_def text_of_def jget_pop split: option.split)

lemma flow_steps_with [simp]: "flow_steps (with_steps steps state) = steps"
  by (simp add: flow_steps_def with_steps_def steps_of_def)

text \<open>When a batch is accepted.\<close>

definition batch_accepted :: "flow \<Rightarrow> string list \<Rightarrow> bool" where
  "batch_accepted f requested \<longleftrightarrow> \<not> flow_terminal (fl_status f) \<and> requested \<noteq> [] \<and> distinct requested \<and>
     check_batch (flow_steps (fl_state f)) requested = None"

lemma map_fst_batch [simp]: "map fst (batch_outcomes te i sess f requested) = requested"
  by (simp add: batch_outcomes_def comp_def split_beta map_snd_enumerate)

lemma taskflow_dispatch_eq:
  fixes te :: task_env
  assumes "strip flow_id \<noteq> []" and "get_flow (strip flow_id) sess t = Some f" and "batch_accepted f (map strip ids)"
  defines "outcomes \<equiv> batch_outcomes te (strip flow_id) sess f (map strip ids)"
  shows "taskflow_dispatch te env now flow_id ids expected sess t =
    (if spawned_children outcomes = [] then (Dispatch_Failed (failed_spawns outcomes), t)
     else case update_flow_with_conflict_retry env now (strip flow_id) (case expected of Some n \<Rightarrow> n | None \<Rightarrow> fl_revision f)
                 f (batch_build now f (spawned_children outcomes)) sess PERSIST_MAX_ATTEMPTS no_update t of
            (Inl attempts, t') \<Rightarrow> (Dispatch_Unrecorded (spawned_children outcomes) attempts, t')
          | (Inr g, t') \<Rightarrow> (Dispatched g (spawned_children outcomes) (failed_spawns outcomes), t'))"
proof -
  have "duplicate_ids [] (map strip ids) = []" using assms(3) by (simp add: batch_accepted_def duplicate_ids_Nil)
  then show ?thesis
    using assms(1-3) unfolding outcomes_def
    by (simp add: taskflow_dispatch_def Let_def batch_accepted_def)
qed

lemma taskflow_dispatch_refused:
  assumes "\<nexists>f. strip flow_id \<noteq> [] \<and> get_flow (strip flow_id) sess t = Some f \<and> batch_accepted f (map strip ids)"
  shows "\<exists>e. taskflow_dispatch te env now flow_id ids expected sess t = (Dispatch_Refused e, t)"
proof (cases "strip flow_id = [] \<or> get_flow (strip flow_id) sess t = None")
  case True
  then show ?thesis by (auto simp: taskflow_dispatch_def Let_def)
next
  case False
  then obtain f where f: "strip flow_id \<noteq> []" "get_flow (strip flow_id) sess t = Some f" by blast
  with assms have "\<not> batch_accepted f (map strip ids)" by blast
  then show ?thesis
    using f by (auto simp: taskflow_dispatch_def Let_def batch_accepted_def duplicate_ids_Nil split: option.split)
qed

lemma changed_records:
  assumes "batch_accepted f requested" and "set (map fst children) \<subseteq> set requested"
  shows "map (step_id_of \<circ> snd) (batch_changes now f children) = map (JStr \<circ> fst) children"
proof -
  have "step_id_of (the (by_id (flow_steps (fl_state f)) (JStr sid))) = JStr sid" if "sid \<in> set requested" for sid
    using assms(1) that by (auto simp: batch_accepted_def check_batch_None list_all_iff check_dispatch_def by_id_Some split: option.splits)
  then show ?thesis using assms(2) by (auto simp: batch_changes_def dispatched_step_fields split_beta)
qed

lemma batch_build_records:
  assumes "batch_accepted f requested" and "distinct (map fst children)" and "set (map fst children) \<subseteq> set requested"
    and "(sid, key) \<in> set children"
  shows "\<exists>s. by_id (flow_steps (batch_build now f children g a)) (JStr sid) = Some s \<and>
    step_status s = ''dispatched'' \<and> jget ''child_session_key'' s = JStr key"
proof -
  let ?rs = "map snd (batch_changes now f children)"
  have ids: "map step_id_of ?rs = map (JStr \<circ> fst) children"
    using changed_records [OF assms(1,3), of now] by simp
  then have "distinct (map step_id_of ?rs)"
    using assms(2) by (simp add: distinct_map comp_inj_on_iff inj_on_def)
  moreover have "JNull \<notin> step_id_of ` set ?rs"
    using arg_cong [OF ids, of set] by auto
  moreover define r where "r = dispatched_step now key (the (by_id (flow_steps (fl_state f)) (JStr sid)))"
  moreover have "r \<in> set ?rs" using assms(4) by (force simp: batch_changes_def r_def)
  ultimately obtain s where s: "by_id (flow_steps (batch_build now f children g a)) (step_id_of r) = Some s" "records_child r s"
    using by_id_apply_dispatched(1) [of ?rs r] by (auto simp: batch_build_def merge_dispatched_def)
  have "sid \<in> set requested" using assms(3,4) by force
  then have "step_id_of r = JStr sid"
    using assms(1) by (auto simp: r_def dispatched_step_fields batch_accepted_def check_batch_None list_all_iff
        check_dispatch_def by_id_Some split: option.splits)
  moreover have "step_status s = ''dispatched'' \<and> jget ''child_session_key'' s = JStr key"
    using s(2) by (simp add: records_child_def r_def dispatched_step_fields(3,4) step_status_def text_of_def)
  ultimately show ?thesis using s(1) by auto
qed

lemma batch_children:
  fixes te :: task_env and i sess :: text_id
  assumes "batch_accepted f requested"
  defines "outcomes \<equiv> batch_outcomes te i sess f requested"
  shows "mset (map fst (spawned_children outcomes)) + mset (failed_spawns outcomes) = mset requested"
    and "distinct (map fst (spawned_children outcomes))" and "set (map fst (spawned_children outcomes)) \<subseteq> set requested"
proof -
  show part: "mset (map fst (spawned_children outcomes)) + mset (failed_spawns outcomes) = mset requested"
    using outcomes_split [of outcomes] by (simp add: outcomes_def)
  then have "set_mset (mset requested) = set (map fst (spawned_children outcomes)) \<union> set (failed_spawns outcomes)"
    by (metis set_mset_union set_mset_mset)
  then show "set (map fst (spawned_children outcomes)) \<subseteq> set requested" by simp
  have "distinct (map fst outcomes)" using assms(1) by (simp add: outcomes_def batch_accepted_def)
  then show "distinct (map fst (spawned_children outcomes))"
    unfolding spawned_children_fst by (rule distinct_map_filter)
qed

lemma dispatched_recorded:
  assumes "env_ok env" and "table_ok t"
    and "taskflow_dispatch te env now flow_id ids expected sess t = (Dispatched g children failed, t')"
  shows "get_flow (strip flow_id) sess t' = Some g" and "mset (map fst children) + mset failed = mset (map strip ids)"
    and "(sid, key) \<in> set children \<Longrightarrow> \<exists>s. by_id (flow_steps (fl_state g)) (JStr sid) = Some s \<and>
           step_status s = ''dispatched'' \<and> jget ''child_session_key'' s = JStr key"
proof -
  obtain f where f: "strip flow_id \<noteq> []" "get_flow (strip flow_id) sess t = Some f" "batch_accepted f (map strip ids)"
    using taskflow_dispatch_refused [of flow_id sess t ids te env now expected] assms(3) by fastforce
  let ?out = "batch_outcomes te (strip flow_id) sess f (map strip ids)"
  note parts = batch_children [OF f(3), of te "strip flow_id" sess]
  have cs: "children = spawned_children ?out" "failed = failed_spawns ?out"
    and "update_flow_with_conflict_retry env now (strip flow_id) (case expected of Some n \<Rightarrow> n | None \<Rightarrow> fl_revision f)
                 f (batch_build now f (spawned_children ?out)) sess PERSIST_MAX_ATTEMPTS no_update t = (Inr g, t')"
    using assms(3) unfolding taskflow_dispatch_eq [OF f] by (auto split: if_splits prod.splits sum.splits)
  from conflict_retry_state [OF assms(1,2) this(3)] obtain h a where g: "get_flow (strip flow_id) sess t' = Some g"
    "fl_state g = batch_build now f (spawned_children ?out) h a" by metis
  show "get_flow (strip flow_id) sess t' = Some g" by (rule g(1))
  show "mset (map fst children) + mset failed = mset (map strip ids)" using parts(1) by (simp add: cs)
  show "(sid, key) \<in> set children \<Longrightarrow> \<exists>s. by_id (flow_steps (fl_state g)) (JStr sid) = Some s \<and>
           step_status s = ''dispatched'' \<and> jget ''child_session_key'' s = JStr key"
    using batch_build_records [OF f(3) parts(2,3)] by (simp add: g(2) cs)
qed

subsection \<open>Properties\<close>


text \<open>No step is dispatched twice. Once a dispatch was recorded, a batch that names one of its steps
  again is refused before anything is spawned, as long as nobody has changed the flow.\<close>

theorem no_double_dispatch:
  assumes "env_ok env" and "table_ok t"
    and "taskflow_dispatch te env now flow_id ids expected sess t = (Dispatched g children failed, t')"
    and "sid \<in> fst ` set children" and "sid \<in> strip ` set ids'"
  shows "\<exists>e. taskflow_dispatch te' env' now' flow_id ids' expected' sess t' = (Dispatch_Refused e, t')"
proof (rule taskflow_dispatch_refused)
  obtain key where "(sid, key) \<in> set children" using assms(4) by auto
  then obtain s where s: "get_flow (strip flow_id) sess t' = Some g"
      "by_id (flow_steps (fl_state g)) (JStr sid) = Some s" "step_status s = ''dispatched''"
    using dispatched_recorded [OF assms(1-3)] by blast
  then have "check_dispatch (flow_steps (fl_state g)) sid \<noteq> None" by (simp add: check_dispatch_def dispatchable_def)
  then have "\<not> batch_accepted g (map strip ids')"
    using assms(5) by (auto simp: batch_accepted_def check_batch_None list_all_iff)
  then show "\<nexists>f. strip flow_id \<noteq> [] \<and> get_flow (strip flow_id) sess t' = Some f \<and> batch_accepted f (map strip ids')"
    using s(1) by simp
qed

text \<open>Two ready steps, of which only the first can be spawned.\<close>

definition demo_ready :: "string \<Rightarrow> jdict" where
  "demo_ready sid = [(''step_id'', JStr sid), (''task'', JStr ''do it''), (''depends_on'', JList []), (''status'', JStr ''ready'')]"

definition demo_ready_flow :: flow where
  "demo_ready_flow = (demo_flow ''f1'' ''running'')\<lparr>fl_state := [(''steps'', JList [JDict (demo_ready ''a''), JDict (demo_ready ''b'')])]\<rparr>"

definition demo_tasks :: task_env where
  "demo_tasks = \<lparr>te_skills = (\<lambda>task _. task), te_show = (\<lambda>_. []), te_spawn = (\<lambda>k _. if k = 0 then Inr ''c7'' else Inl ''busy'')\<rparr>"

definition demo_dispatch :: "dispatch_result \<times> flow_table" where
  "demo_dispatch = taskflow_dispatch demo_tasks (\<lambda>_ t. t) 5 ''f1'' [''a'', '' b''] None ''s1'' [demo_ready_flow]"

lemma demo_dispatch_works:
  "case fst demo_dispatch of Dispatched g children failed \<Rightarrow> children = [(''a'', ''c7'')] \<and> failed = [''b''] | _ \<Rightarrow> False"
  by code_simp

lemma demo_dispatch_eq:
  obtains g t' where "taskflow_dispatch demo_tasks (\<lambda>_ t. t) 5 ''f1'' [''a'', '' b''] None ''s1'' [demo_ready_flow] =
    (Dispatched g [(''a'', ''c7'')] [''b''], t')"
proof (cases demo_dispatch)
  case (Pair r t')
  then show ?thesis using demo_dispatch_works that by (cases r) (auto simp: demo_dispatch_def)
qed

lemma demo_ready_ok: "table_ok [demo_ready_flow]"
  by (simp add: table_ok_def)


theorem no_double_dispatch_witness:
  "\<exists>e. fst (taskflow_dispatch demo_tasks (\<lambda>_ t. t) 6 ''f1'' [''a''] None ''s1'' (snd demo_dispatch)) = Dispatch_Refused e"
proof -
  obtain g t' where res: "taskflow_dispatch demo_tasks (\<lambda>_ t. t) 5 ''f1'' [''a'', '' b''] None ''s1'' [demo_ready_flow] =
      (Dispatched g [(''a'', ''c7'')] [''b''], t')" by (rule demo_dispatch_eq)
  have "''a'' \<in> fst ` set [(''a'', ''c7'')]" "''a'' \<in> strip ` set [''a'']" by (simp, code_simp)
  from no_double_dispatch [OF env_ok_quiet demo_ready_ok res this, where te' = demo_tasks and env' = "\<lambda>_ t. t" and now' = 6
    and expected' = None]
  show ?thesis by (auto simp: demo_dispatch_def res)
qed

end
