(* ===== verification/TaskFlow_Resume.thy ===== *)
theory TaskFlow_Resume
  imports TaskFlow_Dispatch Structured_Output
begin

section \<open>Injecting a child's result\<close>

text \<open>
  Models \<^verbatim>\<open>src/agent/tools/taskflow/tools/taskflow_resume.py\<close>: the idempotency check, the structural and
  the semantic gate, the replacement of a failed child, the outcome of the step, the unlocking of its
  dependents, the write with retries and the dispatch wave that follows. Parameters are the
  fingerprint, the JSON printer and parser, the rendering of a validation error, the auxiliary model
  behind the step judge, the prices and the spawn of a child.
\<close>

subsection \<open>The environment of a call\<close>

datatype verdict = V_PASS | V_RETRY | V_BLOCK

record judge_call =
  jc_task :: string
  jc_criteria :: string
  jc_result :: string
  jc_child :: string
  jc_structured :: json

record judge_result =
  jr_verdict :: verdict
  jr_reason :: string
  jr_feedback :: string

datatype complaint = Result_Not_Json string | Nothing_Structured | Schema_Complaint output_check

record resume_env = task_env +
  re_search :: "string \<Rightarrow> (string \<Rightarrow> bool) option"
  re_loads :: "string \<Rightarrow> json option"
  re_dumps :: "json \<Rightarrow> string"
  re_hash :: "string \<Rightarrow> string \<Rightarrow> string"
  re_complain :: "complaint \<Rightarrow> string"
  re_judge :: "judge_call \<Rightarrow> judge_result"
  re_price :: "string \<Rightarrow> rat \<times> rat"

record resume_call =
  rc_child :: string
  rc_result :: string
  rc_expected :: "int option"
  rc_usage :: "(int \<times> int \<times> string) option"
  rc_criteria :: string
  rc_structured :: json
  rc_outcome :: string
  rc_auto :: bool

definition JUDGE_MAX_RETRIES :: int where
  "JUDGE_MAX_RETRIES = 2"

definition STEP_OUTCOMES :: "string list" where
  "STEP_OUTCOMES = [''success'', ''failure'', ''partial'', ''skipped'']"

text \<open>\<^verbatim>\<open>(step_outcome or "").strip().lower() or None\<close>.\<close>

definition declared_outcome :: "resume_call \<Rightarrow> string option" where
  "declared_outcome c = (let w = lower (strip (rc_outcome c)) in if w = [] then None else Some w)"

subsection \<open>The structural gate\<close>

record gate =
  ga_parsed :: json
  ga_validated :: "bool option"
  ga_complaint :: "complaint option"

text \<open>\<^const>\<open>None\<close>: the schema has a shape on which the validation raises.\<close>

definition structure_gate :: "resume_env \<Rightarrow> json \<Rightarrow> json \<Rightarrow> string \<Rightarrow> gate option" where
  "structure_gate env schema structured result =
    (if schema = JNull then Some \<lparr>ga_parsed = structured, ga_validated = None, ga_complaint = None\<rparr>
     else
       (let (parsed, complaint) =
              (if structured \<noteq> JNull then (structured, None)
               else case re_loads env result of
                      None \<Rightarrow> (JNull, Some (Result_Not_Json result))
                    | Some v \<Rightarrow> (v, None))
        in if parsed = JNull
           then Some \<lparr>ga_parsed = JNull, ga_validated = Some False,
                      ga_complaint = Some (case complaint of None \<Rightarrow> Nothing_Structured | Some c \<Rightarrow> c)\<rparr>
           else case validate_structured_output (re_search env) (re_loads env) (Some (re_dumps env parsed)) (Some schema) of
                  Check_Raises \<Rightarrow> None
                | Conforms \<Rightarrow> Some \<lparr>ga_parsed = parsed, ga_validated = Some True, ga_complaint = None\<rparr>
                | check \<Rightarrow> Some \<lparr>ga_parsed = parsed, ga_validated = Some False, ga_complaint = Some (Schema_Complaint check)\<rparr>))"

definition complaint_text :: "resume_env \<Rightarrow> gate \<Rightarrow> string" where
  "complaint_text env g = (case ga_complaint g of None \<Rightarrow> ''None'' | Some c \<Rightarrow> re_complain env c)"

definition result_record :: "resume_env \<Rightarrow> time \<Rightarrow> resume_call \<Rightarrow> string \<Rightarrow> json \<Rightarrow> json \<Rightarrow> gate \<Rightarrow> jdict" where
  "result_record env now c child schema step_id g =
    [(''child_session_key'', JStr child), (''result'', JStr (rc_result c)),
     (''result_hash'', JStr (re_hash env child (rc_result c))), (''injected_at'', JFloat now)] @
    (if schema \<noteq> JNull \<and> ga_parsed g \<noteq> JNull then [(''structured_result'', ga_parsed g)] else []) @
    [(''step_id'', step_id), (''schema_validated'', case ga_validated g of None \<Rightarrow> JNull | Some b \<Rightarrow> JBool b)] @
    (case declared_outcome c of None \<Rightarrow> [] | Some w \<Rightarrow> [(''step_outcome'', JStr w)])"

subsection \<open>The fate of the step\<close>

text \<open>Spawning a replacement for the step; \<open>k\<close> numbers the spawns of one call.\<close>

definition spawn_for_retry ::
    "resume_env \<Rightarrow> nat \<Rightarrow> text_id \<Rightarrow> text_id \<Rightarrow> jdict \<Rightarrow> jdict list \<Rightarrow> json list \<Rightarrow> string \<Rightarrow> jdict \<Rightarrow> string + string" where
  "spawn_for_retry env k flow_id sess state steps results feedback step =
    te_spawn env k (step_spawn
      (with_judge_feedback
        (build_task_with_bindings (te_show env) (build_task_with_dep_results (te_skills env) step steps results) step steps results)
        feedback)
      (requester_key_for_retry state sess) step flow_id)"

text \<open>A failing result under a policy: the step with its replacement and that child with the count.\<close>

definition retry_on_failure ::
    "resume_env \<Rightarrow> time \<Rightarrow> text_id \<Rightarrow> text_id \<Rightarrow> jdict \<Rightarrow> jdict list \<Rightarrow> json list \<Rightarrow> resume_call \<Rightarrow> gate \<Rightarrow> jdict
     \<Rightarrow> jdict \<times> (string \<times> int) option" where
  "retry_on_failure env now flow_id sess state steps results c g step =
    (if normalize_policy step = None \<or> \<not> should_retry_failure step (rc_result c) (ga_validated g) then (step, None)
     else
       (let feedback =
              (if ga_validated g = Some False \<and> ga_complaint g \<noteq> None \<and> complaint_text env g \<noteq> []
               then ''Your previous output failed schema validation: '' @ complaint_text env g @
                    ''. Ensure your output is valid JSON matching the required response_schema.''
               else text_of (jget ''judge_feedback'' step))
        in case spawn_for_retry env 0 flow_id sess state steps results feedback step of
             Inl _ \<Rightarrow> (step, None)
           | Inr key \<Rightarrow>
               (let n = step_retry_count step + 1 in (apply_redispatch now key n step, Some (key, n)))))"

definition block_step :: "string \<Rightarrow> jdict \<Rightarrow> jdict" where
  "block_step reason step = dict_set ''block_reason'' (JStr reason) (set_status ''blocked'' step)"

definition judge_request :: "resume_call \<Rightarrow> gate \<Rightarrow> string \<Rightarrow> jdict \<Rightarrow> judge_call" where
  "judge_request c g criteria step =
    \<lparr>jc_task = text_of (jget ''task'' step), jc_criteria = criteria, jc_result = rc_result c,
     jc_child = text_of (jget ''child_session_key'' step),
     jc_structured = (if ga_validated g = Some True then ga_parsed g else JNull)\<rparr>"

definition judge_step ::
    "resume_env \<Rightarrow> time \<Rightarrow> text_id \<Rightarrow> text_id \<Rightarrow> jdict \<Rightarrow> jdict list \<Rightarrow> json list \<Rightarrow> resume_call \<Rightarrow> gate \<Rightarrow> string \<Rightarrow> jdict
     \<Rightarrow> jdict \<times> (string \<times> int) option" where
  "judge_step env now flow_id sess state steps results c g criteria step =
    (let r = re_judge env (judge_request c g criteria step)
     in case jr_verdict r of
          V_PASS \<Rightarrow> (set_status ''done'' step, None)
        | V_BLOCK \<Rightarrow> (block_step (''StepJudge blocked: '' @ jr_reason r) step, None)
        | V_RETRY \<Rightarrow>
            if step_retry_count step < JUDGE_MAX_RETRIES
            then (case spawn_for_retry env 1 flow_id sess state steps results (jr_feedback r) step of
                    Inl e \<Rightarrow> (block_step (''StepJudge RETRY re-dispatch failed: '' @ e) step, None)
                  | Inr key \<Rightarrow>
                      (let n = step_retry_count step + 1
                       in (dict_set ''judge_feedback'' (JStr (jr_feedback r)) (apply_redispatch now key n step), Some (key, n))))
            else (block_step (''StepJudge RETRY budget exhausted (retry_count='' @ show_int (step_retry_count step) @
                    '', max_retries='' @ show_int JUDGE_MAX_RETRIES @ ''): '' @ jr_reason r) step, None))"

definition fail_step :: "string \<Rightarrow> jdict \<Rightarrow> jdict" where
  "fail_step reason step = dict_set ''fail_reason'' (JStr reason) (set_status ''failed'' step)"

text \<open>
  \<^verbatim>\<open>next((s for s in steps if ...), None)\<close> and a change of that step in place.
\<close>

definition step_of_child :: "string \<Rightarrow> jdict list \<Rightarrow> jdict option" where
  "step_of_child child steps = find (\<lambda>s. jget ''child_session_key'' s = JStr child) steps"

primrec update_first :: "('a \<Rightarrow> bool) \<Rightarrow> ('a \<Rightarrow> 'a) \<Rightarrow> 'a list \<Rightarrow> 'a list" where
  "update_first P f [] = []"
| "update_first P f (x # xs) = (if P x then f x # xs else x # update_first P f xs)"

definition update_child_step :: "string \<Rightarrow> jdict \<Rightarrow> jdict list \<Rightarrow> jdict list" where
  "update_child_step child step steps =
    update_first (\<lambda>s. jget ''child_session_key'' s = JStr child) (\<lambda>_. step) steps"

text \<open>The criteria given with the call replace the stored ones before anything is judged.\<close>

definition take_criteria :: "resume_call \<Rightarrow> jdict \<Rightarrow> jdict" where
  "take_criteria c step =
    (if strip (rc_criteria c) = [] then step
     else dict_set ''validation_criteria'' (JStr (strip (rc_criteria c))) step)"

definition judged_criteria :: "jdict \<Rightarrow> string" where
  "judged_criteria step =
    (let judged = strip (text_of (jget ''judge_criteria'' step))
     in if judged \<noteq> [] then judged else strip (text_of (jget ''validation_criteria'' step)))"

definition settle_step ::
    "resume_env \<Rightarrow> time \<Rightarrow> text_id \<Rightarrow> text_id \<Rightarrow> jdict \<Rightarrow> jdict list \<Rightarrow> json list \<Rightarrow> resume_call \<Rightarrow> gate \<Rightarrow> jdict
     \<Rightarrow> jdict \<times> (string \<times> int) option" where
  "settle_step env now flow_id sess state steps results c g step =
    (let step1 = take_criteria c step
     in if ga_validated g = Some False
        then (fail_step (''response_schema not satisfied: '' @ complaint_text env g) step1, None)
        else if declared_outcome c = Some ''failure''
        then (fail_step (''step_outcome=failure: '' @ take 200 (rc_result c)) step1, None)
        else if declared_outcome c = Some ''skipped''
        then (dict_set ''skip_reason'' (JStr ''step_outcome=skipped'') (set_status ''skipped'' step1), None)
        else if judged_criteria step1 \<noteq> []
        then judge_step env now flow_id sess state (update_child_step (strip (rc_child c)) step1 steps) results c g
               (judged_criteria step1) step1
        else (set_status ''done'' step1, None))"

text \<open>
  What one delivery decides, from the flow as first read: the record of the result, the step of the
  child as it is left, its id, and the replacement with its retry count. \<^const>\<open>None\<close>: the gate raises.
\<close>

record decision =
  dc_record :: jdict
  dc_step :: "jdict option"
  dc_id :: json
  dc_new :: "(string \<times> int) option"

definition decide_step ::
    "resume_env \<Rightarrow> time \<Rightarrow> text_id \<Rightarrow> text_id \<Rightarrow> jdict \<Rightarrow> jdict list \<Rightarrow> json list \<Rightarrow> resume_call \<Rightarrow> gate \<Rightarrow> jdict
     \<Rightarrow> jdict \<times> (string \<times> int) option" where
  "decide_step env now flow_id sess state steps results c g step =
    (case retry_on_failure env now flow_id sess state steps results c g step of
       (step', Some new) \<Rightarrow> (step', Some new)
     | (_, None) \<Rightarrow> settle_step env now flow_id sess state steps results c g step)"

definition decide :: "resume_env \<Rightarrow> time \<Rightarrow> text_id \<Rightarrow> text_id \<Rightarrow> flow \<Rightarrow> resume_call \<Rightarrow> decision option" where
  "decide env now flow_id sess f c =
    (let child = strip (rc_child c); steps = flow_steps (fl_state f); found = step_of_child child steps;
         sid = (case found of None \<Rightarrow> JNull | Some s \<Rightarrow> step_id_of s);
         schema = (case found of None \<Rightarrow> JNull | Some s \<Rightarrow> jget ''response_schema'' s)
     in case structure_gate env schema (rc_structured c) (rc_result c) of
          None \<Rightarrow> None
        | Some g \<Rightarrow>
            (let r = result_record env now c child schema sid g; results = flow_results (fl_state f) @ [JDict r]
             in Some (case found of
                  None \<Rightarrow> \<lparr>dc_record = r, dc_step = None, dc_id = JNull, dc_new = None\<rparr>
                | Some s \<Rightarrow>
                    (case decide_step env now flow_id sess (dict_set ''results'' (JList results) (fl_state f)) steps results c g s of
                       (s', new) \<Rightarrow> \<lparr>dc_record = r, dc_step = Some s', dc_id = sid, dc_new = new\<rparr>))))"

subsection \<open>The state that is written\<close>

definition decided_fields :: "jdict \<Rightarrow> jdict" where
  "decided_fields step =
    List.map_filter (\<lambda>k. map_option (Pair k) (dict_get step k))
      [''status'', ''fail_reason'', ''block_reason'', ''skip_reason'', ''validation_criteria'']"

definition update_fields :: "jdict \<Rightarrow> jdict \<Rightarrow> jdict" where
  "update_fields kvs step = fold (\<lambda>(k, v). dict_set k v) kvs step"

text \<open>The steps the callback finds: on its first attempt the child's step was changed in place.\<close>

definition seen_steps :: "decision \<Rightarrow> string \<Rightarrow> flow \<Rightarrow> nat \<Rightarrow> jdict list" where
  "seen_steps d child g attempt =
    (case dc_step d of
       Some s \<Rightarrow> if attempt = 1 then update_child_step child s (flow_steps (fl_state g)) else flow_steps (fl_state g)
     | None \<Rightarrow> flow_steps (fl_state g))"

definition redispatch_target :: "time \<Rightarrow> decision \<Rightarrow> string \<times> int \<Rightarrow> jdict \<Rightarrow> jdict" where
  "redispatch_target now d new target =
    (let feedback = (case dc_step d of None \<Rightarrow> JNull | Some s \<Rightarrow> jget ''judge_feedback'' s);
         target' = apply_redispatch now (fst new) (snd new) target
     in if truthy feedback then dict_set ''judge_feedback'' feedback target' else target')"

definition progress :: "jdict \<Rightarrow> jdict" where
  "progress state = dict_set ''consecutive_failures'' (JInt 0) (dict_set ''finish_nudge_count'' (JInt 0) state)"

definition settled_steps :: "decision \<Rightarrow> jdict list \<Rightarrow> jdict list" where
  "settled_steps d steps =
    (case dc_step d of
       Some s \<Rightarrow>
         if dc_id d = JNull then steps
         else update_first (\<lambda>q. step_id_of q = dc_id d) (update_fields (decided_fields s)) steps
     | None \<Rightarrow> steps)"

text \<open>The ids that the callback unlocks, and the state it returns.\<close>

definition resume_build :: "time \<Rightarrow> decision \<Rightarrow> string \<Rightarrow> flow \<Rightarrow> nat \<Rightarrow> json list \<times> jdict" where
  "resume_build now d child g attempt =
    (let steps = seen_steps d child g attempt; results = JList (add_record (dc_record d) (flow_results (fl_state g)))
     in case dc_new d of
          Some new \<Rightarrow>
            ([], progress (with_steps (update_first (\<lambda>q. step_id_of q = dc_id d) (redispatch_target now d new) steps)
                   (dict_set ''results'' results (fl_state g))))
        | None \<Rightarrow>
            (case unlock_dependents (settled_steps d steps) of
               (ids, out) \<Rightarrow>
                 (let state = progress (dict_set ''results'' results (with_steps out (fl_state g)))
                  in (ids, if map_option (jget ''status'') (dc_step d) = Some (JStr ''done'')
                           then dict_set ''protocol_violation_streak'' (JInt 0) state else state))))"

text \<open>The flow and the number of the attempt that the callback saw last.\<close>

fun last_attempt ::
    "(nat \<Rightarrow> flow_table \<Rightarrow> flow_table) \<Rightarrow> time \<Rightarrow> text_id \<Rightarrow> text_id \<Rightarrow> (flow \<Rightarrow> nat \<Rightarrow> jdict) \<Rightarrow> flow_update
     \<Rightarrow> nat \<Rightarrow> nat \<Rightarrow> flow \<Rightarrow> int \<Rightarrow> flow_table \<Rightarrow> flow \<times> nat" where
  "last_attempt env now i sess build u 0 attempt cur n t = (cur, attempt)"
| "last_attempt env now i sess build u (Suc left) attempt cur n t =
    (case update_flow now i n sess (u\<lparr>up_state := Some (build cur attempt)\<rparr>) (env (2 * attempt) t) of
       (Inl (Flow_Conflict _ _ _), t2) \<Rightarrow>
         if left = 0 then (cur, attempt)
         else
           (let t3 = env (2 * attempt + 1) t2
            in case get_flow i sess t3 of
                 None \<Rightarrow> (cur, attempt)
               | Some fresh \<Rightarrow>
                   if flow_terminal (fl_status fresh) then (cur, attempt)
                   else last_attempt env now i sess build u left (attempt + 1) fresh (fl_revision fresh) t3)
     | _ \<Rightarrow> (cur, attempt))"

text \<open>The further columns: fixed before the first attempt, from the flow as first read.\<close>

definition child_spend :: "resume_env \<Rightarrow> flow \<Rightarrow> resume_call \<Rightarrow> (int \<times> rat) option" where
  "child_spend env f c =
    map_option (\<lambda>(input, output, model).
        (case re_price env model of
           (p_in, p_out) \<Rightarrow>
             (fl_total_tokens f + input + output,
              round6 (fl_total_cost f + (of_int input * p_in / 1000000 + of_int output * p_out / 1000000)))))
      (rc_usage c)"

definition resume_columns :: "resume_env \<Rightarrow> flow \<Rightarrow> resume_call \<Rightarrow> flow_update" where
  "resume_columns env f c =
    no_update\<lparr>up_wait := Some None,
      up_status := (if fl_status f = ''waiting'' then Some ''running'' else None),
      up_total_tokens := map_option fst (child_spend env f c), up_total_cost := map_option snd (child_spend env f c)\<rparr>"

subsection \<open>The tool\<close>

definition auto_dispatch_all_ready_on_resume :: bool where
  "auto_dispatch_all_ready_on_resume = True"

definition parked_ready :: "jdict list \<Rightarrow> string list" where
  "parked_ready steps =
    map (\<lambda>s. text_of (step_id_of s))
      (filter (\<lambda>s. step_id_of s \<noteq> JNull \<and> step_status s = ''ready'' \<and>
                 \<not> truthy (jget ''child_session_key'' s) \<and> deps_satisfied s steps) steps)"

text \<open>\<^verbatim>\<open>list(dict.fromkeys(xs))\<close>: the first of equal entries stays.\<close>

definition from_keys :: "'a list \<Rightarrow> 'a list" where
  "from_keys xs = rev (remdups (rev xs))"

definition to_dispatch :: "json list \<Rightarrow> jdict list \<Rightarrow> string list" where
  "to_dispatch unlocked steps =
    from_keys (map text_of unlocked @ (if auto_dispatch_all_ready_on_resume then parked_ready steps else []))"

record resumed =
  rs_flow :: flow
  rs_step :: json
  rs_new :: "(string \<times> int) option"
  rs_unlocked :: "json list"
  rs_wave :: "wave option"

datatype resume_result =
  Resume_Bad_Outcome
| Resume_Needs_Flow
| Resume_Needs_Result
| Resume_No_Flow text_id
| Resume_Terminal text_id string
| Resume_Skipped string nat
| Resume_Raises
| Resume_Unrecorded string nat
| Resumed resumed

text \<open>
  The wave after the write. Its statements come after the two to seven of the write; the call's last
  statement reads the flow for the answer.
\<close>

definition resume_wave ::
    "resume_env \<Rightarrow> (nat \<Rightarrow> flow_table \<Rightarrow> flow_table) \<Rightarrow> time \<Rightarrow> text_id \<Rightarrow> text_id \<Rightarrow> bool \<Rightarrow> flow \<Rightarrow> json list \<Rightarrow> flow_table
     \<Rightarrow> (wave option \<times> flow) \<times> flow_table" where
  "resume_wave env others now i sess auto g unlocked t =
    (let sids = to_dispatch unlocked (flow_steps (fl_state g))
     in if \<not> auto \<or> flow_terminal (fl_status g) \<or> sids = [] then ((None, g), t)
        else case auto_dispatch_ready (task_env.truncate env) (\<lambda>k. others (8 + k)) 2 now i sids sess (others 8 t) of
               (w, t1) \<Rightarrow>
                 (let t2 = others 16 t1
                  in ((Some w, case get_flow i sess t2 of Some h \<Rightarrow> h | None \<Rightarrow> g), t2)))"

text \<open>The write of a decision, and the ids that the callback of its last attempt unlocked.\<close>

definition resume_revision :: "resume_call \<Rightarrow> flow \<Rightarrow> int" where
  "resume_revision c f = (case rc_expected c of Some n \<Rightarrow> n | None \<Rightarrow> fl_revision f)"

definition resume_write ::
    "resume_env \<Rightarrow> (nat \<Rightarrow> flow_table \<Rightarrow> flow_table) \<Rightarrow> time \<Rightarrow> text_id \<Rightarrow> resume_call \<Rightarrow> text_id \<Rightarrow> flow \<Rightarrow> decision
     \<Rightarrow> flow_table \<Rightarrow> (nat + flow) \<times> flow_table" where
  "resume_write env others now i c sess f d t =
    update_flow_with_conflict_retry others now i (resume_revision c f) f
      (\<lambda>g a. snd (resume_build now d (strip (rc_child c)) g a)) sess PERSIST_MAX_ATTEMPTS (resume_columns env f c) t"

definition resume_unlocked ::
    "resume_env \<Rightarrow> (nat \<Rightarrow> flow_table \<Rightarrow> flow_table) \<Rightarrow> time \<Rightarrow> text_id \<Rightarrow> resume_call \<Rightarrow> text_id \<Rightarrow> flow \<Rightarrow> decision
     \<Rightarrow> flow_table \<Rightarrow> json list" where
  "resume_unlocked env others now i c sess f d t =
    (case last_attempt others now i sess (\<lambda>g a. snd (resume_build now d (strip (rc_child c)) g a)) (resume_columns env f c)
            PERSIST_MAX_ATTEMPTS 1 f (resume_revision c f) t of
       (g, a) \<Rightarrow> fst (resume_build now d (strip (rc_child c)) g a))"

definition taskflow_resume ::
    "resume_env \<Rightarrow> (nat \<Rightarrow> flow_table \<Rightarrow> flow_table) \<Rightarrow> time \<Rightarrow> text_id \<Rightarrow> resume_call \<Rightarrow> text_id \<Rightarrow> flow_table
     \<Rightarrow> resume_result \<times> flow_table" where
  "taskflow_resume env others now flow_id c sess t =
    (let i = strip flow_id; child = strip (rc_child c); hash = re_hash env child (rc_result c)
     in if \<not> (case declared_outcome c of None \<Rightarrow> True | Some w \<Rightarrow> w \<in> set STEP_OUTCOMES) then (Resume_Bad_Outcome, t)
        else if i = [] then (Resume_Needs_Flow, t)
        else if child = [] \<and> rc_result c = [] then (Resume_Needs_Result, t)
        else case get_flow i sess t of
          None \<Rightarrow> (Resume_No_Flow i, t)
        | Some f \<Rightarrow>
            if flow_terminal (fl_status f) then (Resume_Terminal i (fl_status f), t)
            else if JStr hash \<in> set (result_hashes (flow_results (fl_state f)))
            then (Resume_Skipped hash (length (flow_results (fl_state f))), t)
            else (case decide env now i sess f c of
              None \<Rightarrow> (Resume_Raises, t)
            | Some d \<Rightarrow>
                (case resume_write env others now i c sess f d t of
                   (Inl attempts, t1) \<Rightarrow>
                     (Resume_Unrecorded (case dc_new d of Some new \<Rightarrow> fst new | None \<Rightarrow> child) attempts, t1)
                 | (Inr g, t1) \<Rightarrow>
                     (let unlocked = resume_unlocked env others now i c sess f d t
                      in case resume_wave env others now i sess (rc_auto c) g unlocked t1 of
                           ((w, shown), t2) \<Rightarrow>
                             (Resumed \<lparr>rs_flow = shown, rs_step = dc_id d, rs_new = dc_new d,
                                rs_unlocked = unlocked, rs_wave = w\<rparr>, t2)))))"

subsection \<open>A recorded delivery\<close>

lemma taskflow_resume_Resumed:
  assumes "taskflow_resume env others now flow_id c sess t = (Resumed r, t')"
  obtains f d g t1 w shown where "get_flow (strip flow_id) sess t = Some f" "\<not> flow_terminal (fl_status f)"
    and "decide env now (strip flow_id) sess f c = Some d"
    and "resume_write env others now (strip flow_id) c sess f d t = (Inr g, t1)"
    and "resume_wave env others now (strip flow_id) sess (rc_auto c) g
           (resume_unlocked env others now (strip flow_id) c sess f d t) t1 = ((w, shown), t')"
    and "r = \<lparr>rs_flow = shown, rs_step = dc_id d, rs_new = dc_new d,
           rs_unlocked = resume_unlocked env others now (strip flow_id) c sess f d t, rs_wave = w\<rparr>"
proof -
  let ?i = "strip flow_id"
  obtain f where f: "get_flow ?i sess t = Some f" "\<not> flow_terminal (fl_status f)"
    using assms by (auto simp: taskflow_resume_def Let_def split: if_splits option.splits)
  obtain d where d: "decide env now ?i sess f c = Some d"
    using assms f by (auto simp: taskflow_resume_def Let_def split: if_splits option.splits)
  obtain x t1 where w: "resume_write env others now ?i c sess f d t = (x, t1)" by fastforce
  obtain g where g: "x = Inr g"
    using assms f d w by (cases x) (auto simp: taskflow_resume_def Let_def split: if_splits)
  obtain v shown t2 where v: "resume_wave env others now ?i sess (rc_auto c) g
      (resume_unlocked env others now ?i c sess f d t) t1 = ((v, shown), t2)" by (metis prod.exhaust)
  have "t2 = t' \<and> r = \<lparr>rs_flow = shown, rs_step = dc_id d, rs_new = dc_new d,
           rs_unlocked = resume_unlocked env others now ?i c sess f d t, rs_wave = v\<rparr>"
    using assms f d w g v by (auto simp: taskflow_resume_def Let_def split: if_splits)
  with f d w g v show ?thesis by (intro that) auto
qed

lemma applied_state [simp]: "fl_state (apply_update now m (u\<lparr>up_state := Some st\<rparr>) r) = st"
  by (simp add: apply_update_def or_keep_def)

text \<open>The last attempt of a successful write is the one whose state was stored.\<close>

lemma last_attempt_stored:
  assumes "env_ok env" and "table_ok t"
    and "retry_write env now i sess build u left attempt cur n t = (Inr f, t')"
    and "last_attempt env now i sess build u left attempt cur n t = (g, a)"
  shows "fl_state f = build g a"
  using assms(2-)
proof (induction left arbitrary: attempt cur n t)
  case (Suc left)
  let ?t1 = "env (2 * attempt) t" and ?u = "u\<lparr>up_state := Some (build cur attempt)\<rparr>"
  have ok1: "table_ok ?t1" by (rule env_okD [OF assms(1) Suc.prems(1)])
  show ?case
  proof (rule update_flow_cases [OF ok1 assigns_state, where i = i and n = n and sess = sess and now = now
        and st1 = "build cur attempt" and u1 = u])
    fix r
    assume "update_flow now i n sess ?u ?t1 =
        (Inr (row_to_flow (apply_update now (n + 1) ?u r)),
         update_where (at_revision i n sess) (apply_update now (n + 1) ?u) ?t1)"
    then show ?thesis using Suc.prems(2,3) by (auto simp: Let_def)
  next
    fix r
    assume res: "update_flow now i n sess ?u ?t1 = (Inl (Flow_Conflict i n (fl_revision r)), ?t1)"
    let ?t3 = "env (2 * attempt + 1) ?t1"
    from res Suc.prems(2,3) obtain fresh where
      "retry_write env now i sess build u left (attempt + 1) fresh (fl_revision fresh) ?t3 = (Inr f, t')"
      "last_attempt env now i sess build u left (attempt + 1) fresh (fl_revision fresh) ?t3 = (g, a)"
      by (auto simp: Let_def split: if_splits option.splits)
    with Suc.IH env_okD [OF assms(1) ok1] show ?thesis by blast
  next
    assume "update_flow now i n sess ?u ?t1 = (Inl (Flow_Not_Found i), ?t1)"
    with Suc.prems(2) show ?thesis by (simp add: Let_def)
  qed
qed simp

lemma resume_write_stored:
  assumes "env_ok others" and "table_ok t" and "resume_write env others now i c sess f d t = (Inr g, t1)"
  obtains h a where "table_ok t1" "get_flow i sess t1 = Some g"
    and "fl_state g = snd (resume_build now d (strip (rc_child c)) h a)"
    and "resume_unlocked env others now i c sess f d t = fst (resume_build now d (strip (rc_child c)) h a)"
proof -
  let ?b = "\<lambda>g a. snd (resume_build now d (strip (rc_child c)) g a)"
  obtain h a where la: "last_attempt others now i sess ?b (resume_columns env f c)
      PERSIST_MAX_ATTEMPTS 1 f (resume_revision c f) t = (h, a)" by fastforce
  note w = assms(3) [unfolded resume_write_def update_flow_with_conflict_retry_def]
  from last_attempt_stored [OF assms(1,2) w la] retry_write_Inr [OF assms(1,2) w] la show ?thesis
    by (intro that) (auto simp: resume_unlocked_def)
qed

text \<open>A write with retries under a condition that the other writers keep.\<close>

lemma retry_write_keeps:
  assumes "env_ok env" and "\<And>k t. table_ok t \<Longrightarrow> Q t \<Longrightarrow> Q (env k t)"
    and "\<And>t f. table_ok t \<Longrightarrow> Q t \<Longrightarrow> get_flow i sess t = Some f \<Longrightarrow> P f" and "\<And>g a. P g \<Longrightarrow> R (build g a)"
    and "table_ok t" and "Q t" and "P cur"
    and "retry_write env now i sess build u left attempt cur n t = (x, t')"
  shows "table_ok t' \<and> (case x of Inl _ \<Rightarrow> Q t' | Inr f \<Rightarrow> R (fl_state f) \<and> get_flow i sess t' = Some f)"
  using assms(5-)
proof (induction left arbitrary: attempt cur n t)
  case (Suc left)
  let ?t1 = "env (2 * attempt) t" and ?u = "u\<lparr>up_state := Some (build cur attempt)\<rparr>"
  have ok1: "table_ok ?t1" "Q ?t1" using Suc.prems(1,2) assms(1,2) env_okD by auto
  show ?case
  proof (rule update_flow_cases [OF ok1(1) assigns_state, where i = i and n = n and sess = sess and now = now
        and st1 = "build cur attempt" and u1 = u])
    fix r
    assume upd: "update_flow now i n sess ?u ?t1 =
        (Inr (row_to_flow (apply_update now (n + 1) ?u r)),
         update_where (at_revision i n sess) (apply_update now (n + 1) ?u) ?t1)"
    then have x: "x = Inr (row_to_flow (apply_update now (n + 1) ?u r))"
      "t' = update_where (at_revision i n sess) (apply_update now (n + 1) ?u) ?t1"
      using Suc.prems(4) by (auto simp: Let_def)
    have "table_ok t'" using update_flow_ok [OF ok1(1), of now i n sess ?u] by (simp add: upd x(2))
    moreover have "get_flow i sess t' = Some (row_to_flow (apply_update now (n + 1) ?u r))"
      using update_flow_Inr [OF ok1(1) assigns_state upd] by (auto simp: x(2))
    ultimately show ?thesis using assms(4) [OF Suc.prems(3)] by (simp add: x(1))
  next
    fix r
    assume res: "update_flow now i n sess ?u ?t1 = (Inl (Flow_Conflict i n (fl_revision r)), ?t1)"
    let ?t3 = "env (2 * attempt + 1) ?t1"
    have ok3: "table_ok ?t3" "Q ?t3" using ok1 assms(1,2) env_okD by auto
    have eq: "(x, t') = (if left = 0 then (Inl attempt, ?t1) else
        case get_flow i sess ?t3 of
          None \<Rightarrow> (Inl attempt, ?t3)
        | Some fresh \<Rightarrow>
            if flow_terminal (fl_status fresh) then (Inl attempt, ?t3)
            else retry_write env now i sess build u left (attempt + 1) fresh (fl_revision fresh) ?t3)"
      using Suc.prems(4) [symmetric] by (simp only: retry_write.simps Let_def res prod.case sum.case flow_error.case)
    show ?thesis
    proof (cases "\<exists>fresh. left \<noteq> 0 \<and> get_flow i sess ?t3 = Some fresh \<and> \<not> flow_terminal (fl_status fresh)")
      case True
      then obtain fresh where "left \<noteq> 0" "get_flow i sess ?t3 = Some fresh" "\<not> flow_terminal (fl_status fresh)" by blast
      then show ?thesis using Suc.IH [OF ok3 assms(3) [OF ok3]] eq by simp
    next
      case False
      then have "(x, t') = (Inl attempt, ?t1) \<or> (x, t') = (Inl attempt, ?t3)"
        using eq by (cases "left = 0"; cases "get_flow i sess ?t3") (simp_all split: if_splits)
      then show ?thesis using ok1 ok3 by fastforce
    qed
  next
    assume "update_flow now i n sess ?u ?t1 = (Inl (Flow_Not_Found i), ?t1)"
    then have "x = Inl attempt" "t' = ?t1" using Suc.prems(4) by (auto simp: Let_def)
    then show ?thesis using ok1 by simp
  qed
qed auto

lemmas conflict_retry_keeps = retry_write_keeps [where attempt = 1, folded update_flow_with_conflict_retry_def]

subsection \<open>The results of a flow\<close>

text \<open>Some stored result of the flow has the hash; no other writer takes a stored result away.\<close>

definition holds_result :: "json \<Rightarrow> text_id \<Rightarrow> text_id \<Rightarrow> flow_table \<Rightarrow> bool" where
  "holds_result h i sess t =
    (case get_flow i sess t of None \<Rightarrow> False | Some f \<Rightarrow> h \<in> set (result_hashes (flow_results (fl_state f))))"

definition keeps_results :: "(nat \<Rightarrow> flow_table \<Rightarrow> flow_table) \<Rightarrow> text_id \<Rightarrow> text_id \<Rightarrow> bool" where
  "keeps_results others i sess \<longleftrightarrow>
    (\<forall>k t h. table_ok t \<longrightarrow> holds_result h i sess t \<longrightarrow> holds_result h i sess (others k t))"

lemma keeps_resultsD: "keeps_results others i sess \<Longrightarrow> table_ok t \<Longrightarrow> holds_result h i sess t \<Longrightarrow> holds_result h i sess (others k t)"
  by (simp add: keeps_results_def)

lemma keeps_results_quiet [simp]: "keeps_results (\<lambda>_ t. t) i sess"
  by (simp add: keeps_results_def)

lemma flow_results_frame [simp]:
  "flow_results (with_steps steps state) = flow_results state"
  "flow_results (progress state) = flow_results state"
  "flow_results (dict_set ''results'' (JList rs) state) = rs"
  "flow_results (dict_set ''protocol_violation_streak'' v state) = flow_results state"
  "flow_results (merge_dispatched records state) = flow_results state"
  by (simp_all add: flow_results_def with_steps_def progress_def merge_dispatched_def)

lemma flow_steps_frame [simp]:
  "flow_steps (progress state) = flow_steps state"
  "flow_steps (dict_set ''results'' v state) = flow_steps state"
  "flow_steps (dict_set ''protocol_violation_streak'' v state) = flow_steps state"
  by (simp_all add: flow_steps_def steps_of_def progress_def)

lemma resume_build_results:
  "flow_results (snd (resume_build now d child g a)) = add_record (dc_record d) (flow_results (fl_state g))"
  by (simp add: resume_build_def Let_def split: option.split prod.split)

lemma result_hashes_snoc [simp]: "result_hashes (results @ [JDict r]) = result_hashes results @ [jget ''result_hash'' r]"
  by (simp add: result_hashes_def as_dicts_def)

lemma add_record_hash: "jget ''result_hash'' r \<in> set (result_hashes (add_record r results))"
  by (simp add: add_record_def)

lemma decide_record:
  assumes "decide env now i sess f c = Some d"
  shows "jget ''result_hash'' (dc_record d) = JStr (re_hash env (strip (rc_child c)) (rc_result c))"
proof -
  have "jget ''result_hash'' (result_record env now c child schema sid g) = JStr (re_hash env child (rc_result c))" for child schema sid g
    by (simp add: result_record_def jget_def)
  then show ?thesis using assms by (auto simp: decide_def Let_def split: option.splits prod.splits)
qed

lemma auto_dispatch_keeps_result:
  assumes "env_ok others" and "keeps_results others i sess" and "table_ok t" and "holds_result h i sess t"
  shows "table_ok (snd (auto_dispatch_ready te others first now i ids sess t)) \<and>
    holds_result h i sess (snd (auto_dispatch_ready te others first now i ids sess t))"
proof (cases "get_flow i sess t")
  case None
  then show ?thesis using assms(4) by (simp add: holds_result_def)
next
  case (Some f)
  define holds where "holds st \<longleftrightarrow> h \<in> set (result_hashes (flow_results st))" for st
  have stored: "table_ok t' \<and> holds_result h i sess t'"
    if "update_flow_with_conflict_retry others now i n f (\<lambda>g a. merge_dispatched rs (fl_state g)) sess k no_update t = (x, t')" for n rs k x t'
  proof -
    have "table_ok t' \<and> (case x of Inl _ \<Rightarrow> holds_result h i sess t' | Inr g \<Rightarrow> holds (fl_state g) \<and> get_flow i sess t' = Some g)"
      by (rule conflict_retry_keeps [OF assms(1) _ _ _ assms(3) _ _ that, where P = "\<lambda>g. holds (fl_state g)"
            and Q = "holds_result h i sess" and R = holds])
        (use keeps_resultsD [OF assms(2)] assms(4) Some in \<open>auto simp: holds_def holds_result_def\<close>)
    then show ?thesis by (cases x) (auto simp: holds_result_def holds_def)
  qed
  show ?thesis
    unfolding auto_dispatch_ready_def using assms(3,4) Some
    by (auto simp: Let_def split: prod.split sum.split dest!: stored)
qed

lemma resume_wave_keeps_result:
  assumes "env_ok others" and "keeps_results others i sess" and "table_ok t" and "holds_result h i sess t"
  shows "table_ok (snd (resume_wave env others now i sess auto g unlocked t)) \<and>
    holds_result h i sess (snd (resume_wave env others now i sess auto g unlocked t))"
proof -
  let ?o = "\<lambda>k. others (8 + k)"
  let ?p = "\<lambda>ids. auto_dispatch_ready (task_env.truncate env) ?o 2 now i ids sess (others 8 t)"
  have o: "env_ok ?o" "keeps_results ?o i sess" using assms(1,2) by (simp_all add: env_ok_def keeps_results_def)
  have t8: "table_ok (others 8 t)" "holds_result h i sess (others 8 t)"
    using assms env_okD keeps_resultsD by blast+
  have w: "table_ok (snd (?p ids))" "holds_result h i sess (snd (?p ids))" for ids
    using auto_dispatch_keeps_result [OF o t8] by blast+
  then have "table_ok (others 16 (snd (?p ids)))" "holds_result h i sess (others 16 (snd (?p ids)))" for ids
    using assms env_okD keeps_resultsD by blast+
  then show ?thesis using assms(3,4) by (simp add: resume_wave_def Let_def case_prod_unfold)
qed

lemma resumed_holds_result:
  assumes "env_ok others" and "keeps_results others (strip flow_id) sess" and "table_ok t"
    and "taskflow_resume env others now flow_id c sess t = (Resumed r, t')"
  shows "table_ok t' \<and> holds_result (JStr (re_hash env (strip (rc_child c)) (rc_result c))) (strip flow_id) sess t'"
proof (rule taskflow_resume_Resumed [OF assms(4)])
  fix f d g t1 w shown
  assume d: "decide env now (strip flow_id) sess f c = Some d"
    and w: "resume_write env others now (strip flow_id) c sess f d t = (Inr g, t1)"
    and v: "resume_wave env others now (strip flow_id) sess (rc_auto c) g
           (resume_unlocked env others now (strip flow_id) c sess f d t) t1 = ((w, shown), t')"
  from resume_write_stored [OF assms(1,3) w] obtain h a where s: "table_ok t1" "get_flow (strip flow_id) sess t1 = Some g"
    "fl_state g = snd (resume_build now d (strip (rc_child c)) h a)" by metis
  have "holds_result (jget ''result_hash'' (dc_record d)) (strip flow_id) sess t1"
    by (simp add: holds_result_def s(2,3) resume_build_results add_record_hash)
  with resume_wave_keeps_result [OF assms(1,2) s(1)] v decide_record [OF d] show ?thesis by (metis snd_conv)
qed

subsection \<open>What a failing step leaves locked\<close>

lemma update_first_ids:
  assumes "\<And>s. P s \<Longrightarrow> step_id_of (f s) = step_id_of s"
  shows "map step_id_of (update_first P f steps) = map step_id_of steps"
  by (induction steps) (use assms in auto)

lemma length_update_first [simp]: "length (update_first P f xs) = length xs"
  by (induction xs) auto

lemma update_first_None: "find P xs = None \<Longrightarrow> update_first P f xs = xs"
  by (induction xs) (auto split: if_splits)

lemma by_id_update_first:
  assumes "distinct (map step_id_of steps)" and "\<And>s. step_id_of s = i \<Longrightarrow> step_id_of (f s) = i"
  shows "by_id (update_first (\<lambda>s. step_id_of s = i) f steps) i = map_option f (by_id steps i)"
proof -
  have ids: "map step_id_of (update_first (\<lambda>s. step_id_of s = i) f steps) = map step_id_of steps"
    by (rule update_first_ids) (use assms(2) in auto)
  show ?thesis
  proof (cases "by_id steps i")
    case None
    then have "find (\<lambda>s. step_id_of s = i) steps = None" by (auto simp: by_id_None find_None_iff)
    with None show ?thesis by (simp add: update_first_None)
  next
    case (Some s)
    then have "s \<in> set steps" "step_id_of s = i" using by_id_Some by blast+
    then have "f s \<in> set (update_first (\<lambda>s. step_id_of s = i) f steps)" using assms(1) by (induction steps) force+
    moreover have "step_id_of (f s) = i" by (rule assms(2)) fact
    moreover have "distinct (map step_id_of (update_first (\<lambda>s. step_id_of s = i) f steps))" using ids assms(1) by simp
    ultimately have "by_id (update_first (\<lambda>s. step_id_of s = i) f steps) i = Some (f s)" by (simp add: by_id_iff)
    with Some show ?thesis by simp
  qed
qed

lemma picked_keys: "fst ` set (List.map_filter (\<lambda>k. map_option (Pair k) (g k)) ks) \<subseteq> set ks"
  by (induction ks) (auto simp: map_filter_simps split: option.split)

lemma decided_keys:
  "fst ` set (decided_fields s) \<subseteq> {''status'', ''fail_reason'', ''block_reason'', ''skip_reason'', ''validation_criteria''}"
  using picked_keys [of "dict_get s" "[''status'', ''fail_reason'', ''block_reason'', ''skip_reason'', ''validation_criteria'']"]
  by (simp add: decided_fields_def)

lemma update_fields_frame: "k \<notin> fst ` set kvs \<Longrightarrow> jget k (update_fields kvs s) = jget k s"
  by (induction kvs arbitrary: s) (auto simp: update_fields_def)

lemma update_decided_frame [simp]:
  "step_id_of (update_fields (decided_fields s) q) = step_id_of q"
  "jget ''depends_on'' (update_fields (decided_fields s) q) = jget ''depends_on'' q"
  "jget ''child_session_key'' (update_fields (decided_fields s) q) = jget ''child_session_key'' q"
proof -
  have "jget k (update_fields (decided_fields s) q) = jget k q"
    if "k \<notin> {''status'', ''fail_reason'', ''block_reason'', ''skip_reason'', ''validation_criteria''}" for k
    using that decided_keys [of s] by (blast intro: update_fields_frame)
  then show "step_id_of (update_fields (decided_fields s) q) = step_id_of q"
    "jget ''depends_on'' (update_fields (decided_fields s) q) = jget ''depends_on'' q"
    "jget ''child_session_key'' (update_fields (decided_fields s) q) = jget ''child_session_key'' q"
    by (simp_all add: step_id_of_def)
qed

lemma update_decided_status:
  assumes "jget ''status'' s = JStr x" and "x \<noteq> []"
  shows "step_status (update_fields (decided_fields s) q) = x"
proof -
  have "dict_get s ''status'' = Some (JStr x)"
    using assms(1) by (cases "dict_get s ''status''") (auto simp: jget_def)
  then have split: "decided_fields s = (''status'', JStr x) # tl (decided_fields s)"
    and rest: "tl (decided_fields s) = List.map_filter (\<lambda>k. map_option (Pair k) (dict_get s k))
      [''fail_reason'', ''block_reason'', ''skip_reason'', ''validation_criteria'']"
    by (simp_all add: decided_fields_def map_filter_simps)
  have keys: "''status'' \<notin> fst ` set (tl (decided_fields s))"
    using picked_keys [of "dict_get s" "[''fail_reason'', ''block_reason'', ''skip_reason'', ''validation_criteria'']"]
    unfolding rest by (rule contra_subsetD) simp
  have "update_fields (decided_fields s) q = update_fields (tl (decided_fields s)) (dict_set ''status'' (JStr x) q)"
    by (subst split) (simp add: update_fields_def)
  then have "jget ''status'' (update_fields (decided_fields s) q) = JStr x"
    using update_fields_frame [OF keys] by simp
  then show ?thesis using assms(2) by (simp add: step_status_def text_of_def)
qed

text \<open>A delivery that spawns no replacement settles the step.\<close>

lemma set_status_jget [simp]: "jget ''status'' (set_status x s) = JStr x"
  by (simp add: set_status_def)

lemma status_kept [simp]:
  "jget ''status'' (block_step reason s) = JStr ''blocked''" "jget ''status'' (fail_step reason s) = JStr ''failed''"
  by (simp_all add: block_step_def fail_step_def)

lemma judge_step_status:
  assumes "judge_step env now i sess state steps results c g criteria step = (s, None)"
  shows "jget ''status'' s \<in> JStr ` {''done'', ''blocked''}"
  using assms unfolding judge_step_def Let_def by (auto split: if_splits verdict.splits sum.splits)

lemma settle_step_status:
  assumes "settle_step env now i sess state steps results c g step = (s, None)"
  shows "jget ''status'' s \<in> JStr ` {''done'', ''failed'', ''skipped'', ''blocked''}"
  using assms judge_step_status unfolding settle_step_def Let_def by (fastforce split: if_splits)

text \<open>What a decision consists of.\<close>

lemma decide_found:
  assumes "decide env now i sess f c = Some d" and "step_of_child (strip (rc_child c)) (flow_steps (fl_state f)) = Some step"
  obtains state results g s where "decide_step env now i sess state (flow_steps (fl_state f)) results c g step = (s, dc_new d)"
    and "dc_step d = Some s" and "dc_id d = step_id_of step"
proof (cases "structure_gate env (jget ''response_schema'' step) (rc_structured c) (rc_result c)")
  case None
  with assms show ?thesis by (simp add: decide_def Let_def)
next
  case (Some g)
  define r where "r = result_record env now c (strip (rc_child c)) (jget ''response_schema'' step) (step_id_of step) g"
  define results where "results = flow_results (fl_state f) @ [JDict r]"
  define state where "state = dict_set ''results'' (JList results) (fl_state f)"
  obtain s new where s: "decide_step env now i sess state (flow_steps (fl_state f)) results c g step = (s, new)" by fastforce
  have "d = \<lparr>dc_record = r, dc_step = Some s, dc_id = step_id_of step, dc_new = new\<rparr>"
    using assms s by (simp add: decide_def Let_def Some r_def results_def state_def)
  with s show ?thesis by (intro that) simp_all
qed

lemma decide_not_found:
  assumes "decide env now i sess f c = Some d" and "step_of_child (strip (rc_child c)) (flow_steps (fl_state f)) = None"
  shows "dc_step d = None" and "dc_new d = None" and "dc_id d = JNull"
  using assms by (cases "structure_gate env JNull (rc_structured c) (rc_result c)"; force simp: decide_def Let_def)+

lemma decide_step_cases:
  assumes "decide_step env now i sess state steps results c g step = (s, new)"
  shows "(retry_on_failure env now i sess state steps results c g step = (s, new) \<and> new \<noteq> None) \<or>
    settle_step env now i sess state steps results c g step = (s, new)"
proof (cases "retry_on_failure env now i sess state steps results c g step")
  case (Pair s' n)
  then show ?thesis using assms by (cases n) (auto simp: decide_step_def)
qed

lemma decide_status:
  assumes "decide env now i sess f c = Some d" and "dc_new d = None" and "dc_step d = Some s"
  shows "jget ''status'' s \<in> JStr ` {''done'', ''failed'', ''skipped'', ''blocked''}"
proof (cases "step_of_child (strip (rc_child c)) (flow_steps (fl_state f))")
  case None
  then show ?thesis using decide_not_found [OF assms(1)] assms(3) by simp
next
  case (Some step)
  obtain state results g where "decide_step env now i sess state (flow_steps (fl_state f)) results c g step = (s, None)"
    using decide_found [OF assms(1) Some] assms(2,3) by (metis option.inject)
  then have "settle_step env now i sess state (flow_steps (fl_state f)) results c g step = (s, None)"
    using decide_step_cases by blast
  then show ?thesis by (rule settle_step_status)
qed

text \<open>The unlocked ids and the stored steps.\<close>

lemma unlock_step_deps [simp]: "jget ''depends_on'' (snd (unlock_step steps s)) = jget ''depends_on'' s"
  by (simp add: unlock_step_eq set_status_def)

lemma unlock_out:
  assumes "unlock_dependents steps = (ids, out)" and "q \<in> set out"
  shows "\<exists>p \<in> set steps. step_id_of p = step_id_of q \<and> jget ''depends_on'' p = jget ''depends_on'' q"
proof -
  obtain k where k: "k < length out" "q = out ! k" using assms(2) by (auto simp: in_set_conv_nth)
  then have "k < length steps" using unlock_spec(1) [OF assms(1)] by simp
  then show ?thesis using unlock_spec(2) [OF assms(1)] k by (metis nth_mem unlock_step_deps unlock_step_id)
qed

lemma unlock_map_ids: "unlock_dependents steps = (ids, out) \<Longrightarrow> map step_id_of out = map step_id_of steps"
  by (rule nth_equalityI) (auto simp: unlock_spec)

lemma unlocks_nothing_below:
  assumes "unlock_dependents steps = (ids, out)" and "distinct (map step_id_of out)" and "q \<in> set out"
    and "i \<in> set (deps_of q)" and "\<And>s. by_id steps i = Some s \<Longrightarrow> step_status s \<noteq> ''done''"
  shows "step_id_of q \<notin> set ids"
proof
  assume "step_id_of q \<in> set ids"
  then obtain p' where p': "p' \<in> set steps" "readied steps p'" "step_id_of p' = step_id_of q"
    unfolding unlock_ids [OF assms(1)] by auto
  obtain p where p: "p \<in> set steps" "step_id_of p = step_id_of q" "jget ''depends_on'' p = jget ''depends_on'' q"
    using unlock_out [OF assms(1,3)] by blast
  have "distinct (map step_id_of steps)" using assms(2) unlock_map_ids [OF assms(1)] by simp
  then have "p' = p" using p p' by (metis by_id_iff option.inject)
  then have "deps_satisfied p steps" "i \<in> set (deps_of p)" using p'(2) assms(4) p(3) by (auto simp: readied_def deps_of_def)
  then show False using assms(5) by (auto simp: deps_satisfied_def list_all_iff split: option.splits)
qed

lemma settled_status:
  assumes "dc_step d = Some s" and "jget ''status'' s = JStr x" and "x \<noteq> []" and "dc_id d \<noteq> JNull"
    and "distinct (map step_id_of steps)" and "by_id (settled_steps d steps) (dc_id d) = Some q"
  shows "step_status q = x"
proof -
  have "by_id (settled_steps d steps) (dc_id d) = map_option (update_fields (decided_fields s)) (by_id steps (dc_id d))"
    using assms(1,4,5) by (simp add: settled_steps_def by_id_update_first)
  with assms(6) obtain p where "q = update_fields (decided_fields s) p" by (cases "by_id steps (dc_id d)") auto
  then show ?thesis using update_decided_status [OF assms(2,3)] by simp
qed

lemma settled_ids: "map step_id_of (settled_steps d steps) = map step_id_of steps"
  by (simp add: settled_steps_def update_first_ids split: option.split)

lemma resume_build_settled:
  assumes "dc_new d = None"
  obtains out where "unlock_dependents (settled_steps d (seen_steps d child g a)) = (fst (resume_build now d child g a), out)"
    and "flow_steps (snd (resume_build now d child g a)) = out"
  using assms by (cases "unlock_dependents (settled_steps d (seen_steps d child g a))")
    (auto simp: resume_build_def Let_def)

lemma resume_wave_off: "resume_wave env others now i sess False g unlocked t = ((None, g), t)"
  by (simp add: resume_wave_def Let_def)

text \<open>A delivery without the wave: the flow in the answer is the one that was written.\<close>

lemma resumed_without_wave:
  assumes "env_ok others" and "table_ok t" and "\<not> rc_auto c" and "get_flow (strip flow_id) sess t = Some f"
    and "taskflow_resume env others now flow_id c sess t = (Resumed r, t')"
  obtains d h a where "decide env now (strip flow_id) sess f c = Some d" "rs_step r = dc_id d" "rs_new r = dc_new d"
    and "get_flow (strip flow_id) sess t' = Some (rs_flow r)"
    and "fl_state (rs_flow r) = snd (resume_build now d (strip (rc_child c)) h a)"
    and "rs_unlocked r = fst (resume_build now d (strip (rc_child c)) h a)"
    and "resume_write env others now (strip flow_id) c sess f d t = (Inr (rs_flow r), t')"
proof (rule taskflow_resume_Resumed [OF assms(5)])
  fix f' d g t1 w shown
  assume f': "get_flow (strip flow_id) sess t = Some f'" and d: "decide env now (strip flow_id) sess f' c = Some d"
    and w: "resume_write env others now (strip flow_id) c sess f' d t = (Inr g, t1)"
    and v: "resume_wave env others now (strip flow_id) sess (rc_auto c) g
           (resume_unlocked env others now (strip flow_id) c sess f' d t) t1 = ((w, shown), t')"
    and r: "r = \<lparr>rs_flow = shown, rs_step = dc_id d, rs_new = dc_new d,
           rs_unlocked = resume_unlocked env others now (strip flow_id) c sess f' d t, rs_wave = w\<rparr>"
  have f: "f' = f" using f' assms(4) by simp
  have g: "shown = g" "t' = t1" using v assms(3) by (simp_all add: resume_wave_off)
  from resume_write_stored [OF assms(1,2) w] obtain h a where "get_flow (strip flow_id) sess t1 = Some g"
    "fl_state g = snd (resume_build now d (strip (rc_child c)) h a)"
    "resume_unlocked env others now (strip flow_id) c sess f' d t = fst (resume_build now d (strip (rc_child c)) h a)" by metis
  then show thesis using d w by (intro that) (simp_all add: r g f)
qed

subsection \<open>Retry budgets\<close>

lemma step_retry_count_nonneg: "0 \<le> step_retry_count step"
  by (simp add: step_retry_count_def split: option.split)

lemma retry_count_take_criteria [simp]: "step_retry_count (take_criteria c step) = step_retry_count step"
  by (simp add: take_criteria_def step_retry_count_def)

lemma should_retry_budget:
  assumes "should_retry_failure step result v"
  shows "\<exists>p. normalize_policy step = Some p \<and> step_retry_count step + 1 \<le> rp_max_retries p"
  using assms by (cases "normalize_policy step") (auto simp: should_retry_failure_def retries_remaining_def split: if_splits)

lemma retry_on_failure_new:
  "retry_on_failure env now i sess state steps results c g step = (s, Some (key, n)) \<Longrightarrow>
    should_retry_failure step (rc_result c) (ga_validated g) \<and> n = step_retry_count step + 1"
  by (auto simp: retry_on_failure_def Let_def split: if_splits sum.splits)

lemma judge_step_new:
  "judge_step env now i sess state steps results c g criteria step = (s, Some (key, n)) \<Longrightarrow>
    n = step_retry_count step + 1 \<and> n \<le> JUDGE_MAX_RETRIES"
  by (auto simp: judge_step_def Let_def split: if_splits verdict.splits sum.splits)

lemma settle_step_new:
  "settle_step env now i sess state steps results c g step = (s, Some (key, n)) \<Longrightarrow>
    n = step_retry_count step + 1 \<and> n \<le> JUDGE_MAX_RETRIES"
  by (auto simp: settle_step_def Let_def dest!: judge_step_new split: if_splits)

lemma decide_new:
  assumes "decide env now i sess f c = Some d" and "step_of_child (strip (rc_child c)) (flow_steps (fl_state f)) = Some step"
    and "dc_new d = Some (key, n)"
  shows "n = step_retry_count step + 1 \<and>
    (n \<le> JUDGE_MAX_RETRIES \<or> (\<exists>p. normalize_policy step = Some p \<and> n \<le> rp_max_retries p))"
proof -
  obtain state results g s where "decide_step env now i sess state (flow_steps (fl_state f)) results c g step = (s, Some (key, n))"
    using decide_found [OF assms(1,2)] assms(3) by metis
  from decide_step_cases [OF this] show ?thesis
  proof
    assume "retry_on_failure env now i sess state (flow_steps (fl_state f)) results c g step = (s, Some (key, n)) \<and> Some (key, n) \<noteq> None"
    then have "should_retry_failure step (rc_result c) (ga_validated g)" "n = step_retry_count step + 1"
      using retry_on_failure_new by blast+
    then show ?thesis using should_retry_budget by blast
  next
    assume "settle_step env now i sess state (flow_steps (fl_state f)) results c g step = (s, Some (key, n))"
    then show ?thesis using settle_step_new by blast
  qed
qed

subsection \<open>Steps in their place\<close>

lemma update_first_nth:
  assumes "distinct (map key xs)" and "k < length xs"
  shows "update_first (\<lambda>x. key x = key (xs ! k)) f xs = xs[k := f (xs ! k)]"
  using assms
proof (induction xs arbitrary: k)
  case (Cons x xs)
  show ?case
  proof (cases k)
    case (Suc j)
    then have "xs ! j \<in> set xs" using Cons.prems(2) by simp
    then have "key x \<noteq> key (xs ! j)" using Cons.prems(1) by auto
    then show ?thesis using Cons Suc by simp
  qed simp
qed simp

lemma update_first_at:
  "find P xs = Some x \<Longrightarrow> \<exists>k < length xs. xs ! k = x \<and> P x \<and> update_first P f xs = xs[k := f x]"
proof (induction xs)
  case (Cons y xs)
  show ?case
  proof (cases "P y")
    case True
    with Cons.prems show ?thesis by (intro exI [of _ 0]) simp
  next
    case False
    with Cons obtain k where "k < length xs" "xs ! k = x" "P x" "update_first P f xs = xs[k := f x]" by auto
    with False show ?thesis by (intro exI [of _ "Suc k"]) simp
  qed
qed simp

lemma by_id_replaced:
  assumes "k < length steps" and "step_id_of s = step_id_of (steps ! k)" and "j \<noteq> step_id_of s"
  shows "by_id (steps[k := s]) j = by_id steps j"
proof -
  have "steps = take k steps @ steps ! k # drop (Suc k) steps" by (rule id_take_nth_drop [OF assms(1)])
  then have "by_id steps j = by_id (take k steps @ [steps ! k] @ drop (Suc k) steps) j" by simp
  moreover have "by_id (steps[k := s]) j = by_id (take k steps @ [s] @ drop (Suc k) steps) j"
    using assms(1) by (simp add: upd_conv_take_nth_drop)
  ultimately show ?thesis using assms(2,3) by (simp only: by_id_append) (simp split: option.split)
qed

lemma deps_satisfied_replaced:
  assumes "k < length steps" and "step_id_of s = step_id_of (steps ! k)" and "jget ''depends_on'' s = jget ''depends_on'' (steps ! k)"
    and "deps_satisfied (steps ! k) steps"
  shows "deps_satisfied s (steps[k := s])"
  using assms(4) by (auto simp: deps_satisfied_def list_all_iff deps_of_def assms(3) assms(2) [symmetric] by_id_replaced [OF assms(1,2)])

definition framed :: "string \<Rightarrow> bool" where
  "framed k \<longleftrightarrow> k \<notin> {''status'', ''child_session_key'', ''retry_count'', ''dispatched_at'', ''judge_feedback'',
     ''block_reason'', ''fail_reason'', ''skip_reason'', ''validation_criteria''}"

lemma framed_plan_keys: "framed ''step_id''" "framed ''depends_on''"
  by (simp_all add: framed_def)

lemma framed_writes:
  assumes "framed k"
  shows "jget k (set_status x s) = jget k s" "jget k (block_step x s) = jget k s" "jget k (fail_step x s) = jget k s"
    and "jget k (apply_redispatch now x n s) = jget k s" "jget k (take_criteria c s) = jget k s"
    and "k \<noteq> ''judge_feedback''" "k \<noteq> ''skip_reason''"
  using assms by (simp_all add: framed_def block_step_def fail_step_def set_status_def apply_redispatch_def take_criteria_def)

lemma retry_on_failure_frame:
  "framed k \<Longrightarrow> jget k (fst (retry_on_failure env now i sess state steps results c g step)) = jget k step"
  unfolding retry_on_failure_def Let_def by (simp add: framed_writes split: sum.split)

lemma judge_step_frame:
  "framed k \<Longrightarrow> jget k (fst (judge_step env now i sess state steps results c g criteria step)) = jget k step"
  unfolding judge_step_def Let_def by (simp add: framed_writes split: verdict.split sum.split)

lemma settle_step_frame:
  "framed k \<Longrightarrow> jget k (fst (settle_step env now i sess state steps results c g step)) = jget k step"
  unfolding settle_step_def Let_def by (simp add: judge_step_frame framed_writes)

lemma decide_step_frame:
  assumes "framed k" and "decide_step env now i sess state steps results c g step = (s, new)"
  shows "jget k s = jget k step"
  using decide_step_cases [OF assms(2)]
proof
  assume "retry_on_failure env now i sess state steps results c g step = (s, new) \<and> new \<noteq> None"
  then have "s = fst (retry_on_failure env now i sess state steps results c g step)" by (metis fst_conv)
  then show ?thesis by (simp only: retry_on_failure_frame [OF assms(1)])
next
  assume "settle_step env now i sess state steps results c g step = (s, new)"
  then have "s = fst (settle_step env now i sess state steps results c g step)" by (metis fst_conv)
  then show ?thesis by (simp only: settle_step_frame [OF assms(1)])
qed

lemma decide_frame:
  assumes "decide env now i sess f c = Some d" and "step_of_child (strip (rc_child c)) (flow_steps (fl_state f)) = Some step"
    and "dc_step d = Some s"
  shows "dc_id d = step_id_of step" and "step_id_of s = step_id_of step" and "jget ''depends_on'' s = jget ''depends_on'' step"
proof -
  obtain state results g where s: "decide_step env now i sess state (flow_steps (fl_state f)) results c g step = (s, dc_new d)"
    and "dc_id d = step_id_of step"
    using decide_found [OF assms(1,2)] assms(3) by (metis option.inject)
  show "dc_id d = step_id_of step" by fact
  have "jget k s = jget k step" if k: "framed k" for k
    using decide_step_frame [OF k s] .
  then show "step_id_of s = step_id_of step" "jget ''depends_on'' s = jget ''depends_on'' step"
    using framed_plan_keys by (simp_all add: step_id_of_def)
qed

lemma quiet_write:
  assumes "table_ok t" and "get_flow i sess t = Some f" and "0 < k"
    and "update_flow_with_conflict_retry (\<lambda>_ t. t) now i (fl_revision f) f build sess k u t = (Inr g, t')"
  shows "fl_state g = build f 1"
proof -
  obtain r where r: "r \<in> set t" "fl_id r = i" "fl_session r = sess" "f = row_to_flow r"
    using assms(2) unfolding get_flow_Some [OF assms(1)] by blast
  have rev: "fl_revision r = fl_revision f" by (simp add: r(4) row_to_flow_def)
  obtain j where k: "k = Suc j" using assms(3) by (cases k) auto
  from update_flow_wins [OF assms(1) assigns_state r(1-3) rev, of now "build f 1" u] assms(4) show ?thesis
    unfolding update_flow_with_conflict_retry_def k by (auto simp: Let_def)
qed

subsection \<open>Properties\<close>

text \<open>C16: Delivering a result is idempotent. After a recorded delivery, delivering the same result of the
  same child again changes nothing, whatever its other arguments and however the dispatch wave went, as
  long as no other writer removes a stored result: it is skipped, or refused because the flow has ended
  or the call is malformed.\<close>

theorem resume_idempotent:
  assumes "env_ok others" and "keeps_results others (strip flow_id) sess" and "table_ok t"
    and "taskflow_resume env others now flow_id c sess t = (Resumed r, t')"
    and "strip (rc_child c') = strip (rc_child c)" and "rc_result c' = rc_result c"
  shows "snd (taskflow_resume env others' now' flow_id c' sess t') = t' \<and>
    (case fst (taskflow_resume env others' now' flow_id c' sess t') of
       Resume_Skipped h n \<Rightarrow> h = re_hash env (strip (rc_child c)) (rc_result c)
     | Resume_Terminal i status \<Rightarrow> flow_terminal status
     | Resume_Bad_Outcome \<Rightarrow> True
     | Resume_Needs_Result \<Rightarrow> True
     | Resume_Needs_Flow \<Rightarrow> True
     | _ \<Rightarrow> False)"
proof -
  have "holds_result (JStr (re_hash env (strip (rc_child c)) (rc_result c))) (strip flow_id) sess t'"
    using resumed_holds_result [OF assms(1-4)] by blast
  then obtain g where "get_flow (strip flow_id) sess t' = Some g"
    "JStr (re_hash env (strip (rc_child c)) (rc_result c)) \<in> set (result_hashes (flow_results (fl_state g)))"
    by (auto simp: holds_result_def split: option.splits)
  then show ?thesis by (simp add: taskflow_resume_def Let_def assms(5,6))
qed


text \<open>A delivery never spawns beyond the budget: the retry count it leaves on the step is positive and
  within the step's own policy or within the budget of the step judge.\<close>

theorem resume_retry_bounded:
  assumes "get_flow (strip flow_id) sess t = Some f" and "step_of_child (strip (rc_child c)) (flow_steps (fl_state f)) = Some step"
    and "taskflow_resume env others now flow_id c sess t = (Resumed r, t')" and "rs_new r = Some (key, n)"
  shows "0 < n \<and> n = step_retry_count step + 1 \<and>
    (n \<le> JUDGE_MAX_RETRIES \<or> (\<exists>p. normalize_policy step = Some p \<and> n \<le> rp_max_retries p))"
proof (rule taskflow_resume_Resumed [OF assms(3)])
  fix f' d g t1 w shown
  assume "get_flow (strip flow_id) sess t = Some f'" and "decide env now (strip flow_id) sess f' c = Some d"
    and "r = \<lparr>rs_flow = shown, rs_step = dc_id d, rs_new = dc_new d,
           rs_unlocked = resume_unlocked env others now (strip flow_id) c sess f' d t, rs_wave = w\<rparr>"
  then have "decide env now (strip flow_id) sess f c = Some d" "dc_new d = Some (key, n)" using assms(1,4) by simp_all
  from decide_new [OF this(1) assms(2) this(2)] show ?thesis using step_retry_count_nonneg [of step] by auto
qed

text \<open>The spend of a flow is counted from its first reading. A delivery that reports tokens stores the
  total of the first read plus its own; what other writers added before the write took effect is
  overwritten, because the columns are computed once and not by the callback that is repeated.\<close>

theorem token_total_from_first_read:
  assumes "env_ok others" and "table_ok t" and "\<not> rc_auto c" and "get_flow (strip flow_id) sess t = Some f"
    and "rc_usage c = Some (input, output, model)"
    and "taskflow_resume env others now flow_id c sess t = (Resumed r, t')"
  shows "\<exists>g. get_flow (strip flow_id) sess t' = Some g \<and> fl_total_tokens g = fl_total_tokens f + input + output"
proof -
  obtain d where g: "get_flow (strip flow_id) sess t' = Some (rs_flow r)"
    and w: "resume_write env others now (strip flow_id) c sess f d t = (Inr (rs_flow r), t')"
    using resumed_without_wave [OF assms(1-4,6)] by metis
  from conflict_retry_Inr [OF assms(1,2) w [unfolded resume_write_def]] obtain st m q where
    "rs_flow r = row_to_flow (apply_update now m ((resume_columns env f c)\<lparr>up_state := st\<rparr>) q)" by blast
  then have "fl_total_tokens (rs_flow r) = fl_total_tokens f + input + output"
    by (simp add: row_to_flow_def apply_update_def or_keep_def resume_columns_def no_update_def child_spend_def assms(5) split: prod.split)
  with g show ?thesis by blast
qed

text \<open>A step that the judge blocks does not stay blocked when it has dependencies. The callback that
  records the verdict also runs the unlocking pass, which takes the blocked step for one that waits for
  its (satisfied) dependencies and makes it ready again.\<close>

theorem judge_block_is_undone:
  assumes "table_ok t" and "\<not> rc_auto c" and "rc_expected c = None" and "get_flow (strip flow_id) sess t = Some f"
    and "decide env now (strip flow_id) sess f c = Some d" and "dc_new d = None" and "dc_step d = Some s"
    and "step_status s = ''blocked''" and "dc_id d \<noteq> JNull" and "distinct (map step_id_of (flow_steps (fl_state f)))"
    and "step_of_child (strip (rc_child c)) (flow_steps (fl_state f)) = Some step"
    and "truthy (jget ''depends_on'' step)" and "deps_satisfied step (flow_steps (fl_state f))"
    and "taskflow_resume env (\<lambda>_ t. t) now flow_id c sess t = (Resumed r, t')"
  shows "\<exists>q. by_id (flow_steps (fl_state (rs_flow r))) (dc_id d) = Some q \<and> step_status q = ''ready''"
proof -
  let ?xs = "flow_steps (fl_state f)" and ?s = "update_fields (decided_fields s) s"
  obtain h a where w: "resume_write env (\<lambda>_ t. t) now (strip flow_id) c sess f d t = (Inr (rs_flow r), t')"
    using resumed_without_wave [OF env_ok_quiet assms(1,2,4,14)] assms(5) by (metis option.inject)
  then have built: "fl_state (rs_flow r) = snd (resume_build now d (strip (rc_child c)) f 1)"
    using quiet_write [OF assms(1,4), of PERSIST_MAX_ATTEMPTS] by (simp add: resume_write_def resume_revision_def assms(3) PERSIST_MAX_ATTEMPTS_def)
  note frame = decide_frame [OF assms(5,11,7)]
  obtain k where k: "k < length ?xs" "?xs ! k = step"
    and upd: "update_child_step (strip (rc_child c)) s ?xs = ?xs[k := s]"
    using update_first_at [OF assms(11) [unfolded step_of_child_def]] unfolding update_child_step_def by blast
  have ids: "map step_id_of (?xs[k := q]) = map step_id_of ?xs" if "step_id_of q = step_id_of step" for q
    using k that by (simp add: map_update list_update_same_conv)
  have "settled_steps d (seen_steps d (strip (rc_child c)) f 1) = update_first (\<lambda>q. step_id_of q = step_id_of (?xs[k := s] ! k))
      (update_fields (decided_fields s)) (?xs[k := s])"
    using k assms(7,9) frame by (simp add: settled_steps_def seen_steps_def upd)
  also have "\<dots> = ?xs[k := ?s]"
    using update_first_nth [of step_id_of "?xs[k := s]" k] ids [OF frame(2)] assms(10) k by simp
  finally obtain out where out: "unlock_dependents (?xs[k := ?s]) = (fst (resume_build now d (strip (rc_child c)) f 1), out)"
    "flow_steps (fl_state (rs_flow r)) = out"
    using resume_build_settled [OF assms(6)] built by metis
  have same: "step_id_of ?s = step_id_of (?xs ! k)" "jget ''depends_on'' ?s = jget ''depends_on'' (?xs ! k)"
    using frame k by simp_all
  have "deps_satisfied ?s (?xs[k := ?s])" by (rule deps_satisfied_replaced [OF k(1) same]) (use assms(13) k in simp)
  moreover have "step_status ?s = ''blocked''"
  proof (rule update_decided_status)
    show "jget ''status'' s = JStr ''blocked''"
      using decide_status [OF assms(5-7)] assms(8) by (auto simp: step_status_def text_of_def)
  qed simp
  moreover have "truthy (jget ''depends_on'' ?s)" using assms(12) frame(3) by simp
  ultimately have "step_status (out ! k) = ''ready''"
    using unlock_nth(3) [OF out(1), of k] k by (simp add: waits_def)
  moreover have mid: "map step_id_of out = map step_id_of ?xs" using unlock_map_ids [OF out(1)] ids same k by simp
  then have "step_id_of (out ! k) = dc_id d" using k frame(1) by (metis length_map nth_map)
  moreover have "out ! k \<in> set out" using mid k by (metis length_map nth_mem)
  ultimately show ?thesis using mid assms(10) out(2) by (auto simp: by_id_iff)
qed

subsection \<open>A concrete delivery\<close>

text \<open>Three steps in a row: the first is done, the second runs as child \<open>c7\<close>, the third waits.\<close>

definition demo_link :: "string \<Rightarrow> string list \<Rightarrow> string \<Rightarrow> jdict" where
  "demo_link sid deps status =
    [(''step_id'', JStr sid), (''task'', JStr ''do it''), (''depends_on'', JList (map JStr deps)), (''status'', JStr status)]"

definition demo_running :: jdict where
  "demo_running = demo_link ''b'' [''a''] ''dispatched'' @ [(''child_session_key'', JStr ''c7''), (''judge_criteria'', JStr ''is done'')]"

definition demo_wait_step :: jdict where
  "demo_wait_step = demo_link ''c'' [''b''] ''blocked''"

definition demo_chain_flow :: flow where
  "demo_chain_flow = (demo_flow ''f1'' ''running'')\<lparr>fl_state := [(''steps'',
     JList [JDict (demo_link ''a'' [] ''done''), JDict demo_running, JDict demo_wait_step])]\<rparr>"

definition demo_judge :: "verdict \<Rightarrow> resume_env" where
  "demo_judge v =
    \<lparr>te_skills = (\<lambda>task _. task), te_show = (\<lambda>_. []), te_spawn = (\<lambda>_ _. Inr ''c8''),
     re_search = (\<lambda>_. None), re_loads = (\<lambda>_. None), re_dumps = (\<lambda>_. []), re_hash = (\<lambda>a b. a @ '':'' @ b),
     re_complain = (\<lambda>_. ''bad''), re_judge = (\<lambda>_. \<lparr>jr_verdict = v, jr_reason = ''why'', jr_feedback = ''more''\<rparr>),
     re_price = (\<lambda>_. (1, 2))\<rparr>"

definition demo_result :: "string \<Rightarrow> resume_call" where
  "demo_result outcome = \<lparr>rc_child = '' c7'', rc_result = ''all good'', rc_expected = None,
     rc_usage = None, rc_criteria = [], rc_structured = JNull, rc_outcome = outcome, rc_auto = False\<rparr>"

definition demo_spend :: resume_call where
  "demo_spend = (demo_result [])\<lparr>rc_usage := Some (10, 5, ''m'')\<rparr>"

definition demo_resume :: "verdict \<Rightarrow> string \<Rightarrow> resume_result \<times> flow_table" where
  "demo_resume v outcome = taskflow_resume (demo_judge v) (\<lambda>_ t. t) 9 ''f1'' (demo_result outcome) ''s1'' [demo_chain_flow]"

definition is_resumed :: "resume_result \<Rightarrow> bool" where
  "is_resumed x = (case x of Resumed _ \<Rightarrow> True | _ \<Rightarrow> False)"

lemma is_resumed_obtain:
  assumes "is_resumed (fst p)"
  obtains r t' where "p = (Resumed r, t')"
  using assms by (cases p; cases "fst p") (auto simp: is_resumed_def)

lemma demo_chain_ok: "table_ok [demo_chain_flow]"
  by (simp add: table_ok_def)

lemma demo_strips: "strip ''f1'' = ''f1''" "strip (rc_child (demo_result outcome)) = ''c7''"
  by (code_simp, simp add: demo_result_def, code_simp)

lemma demo_chain_get: "get_flow ''f1'' ''s1'' [demo_chain_flow] = Some demo_chain_flow"
  by code_simp

theorem resume_idempotent_witness:
  "snd (taskflow_resume (demo_judge V_PASS) (\<lambda>_ t. t) 11 ''f1'' (demo_result ''success'') ''s1'' (snd (demo_resume V_PASS [])))
    = snd (demo_resume V_PASS [])"
proof -
  have "is_resumed (fst (demo_resume V_PASS []))" by code_simp
  then obtain r t' where res: "taskflow_resume (demo_judge V_PASS) (\<lambda>_ t. t) 9 ''f1'' (demo_result []) ''s1'' [demo_chain_flow] = (Resumed r, t')"
    unfolding demo_resume_def by (rule is_resumed_obtain)
  have "rc_result (demo_result ''success'') = rc_result (demo_result [])" by (simp add: demo_result_def)
  from resume_idempotent [OF env_ok_quiet keeps_results_quiet demo_chain_ok res _ this]
  show ?thesis by (simp add: demo_strips demo_resume_def res)
qed

text \<open>What the delivery decides, and what it leaves, for the verdicts and outcomes.\<close>

definition demo_decision :: "verdict \<Rightarrow> string \<Rightarrow> decision option" where
  "demo_decision v outcome = decide (demo_judge v) 9 ''f1'' ''s1'' demo_chain_flow (demo_result outcome)"

definition ends_as :: "string \<Rightarrow> decision option \<Rightarrow> bool" where
  "ends_as status x =
    (case x of None \<Rightarrow> False
     | Some d \<Rightarrow> dc_new d = None \<and> dc_id d = JStr ''b'' \<and>
         (case dc_step d of None \<Rightarrow> False | Some s \<Rightarrow> step_status s = status))"

lemma ends_as_obtain:
  assumes "ends_as status x"
  obtains d s where "x = Some d" "dc_new d = None" "dc_step d = Some s" "step_status s = status" "dc_id d = JStr ''b''"
  using assms by (auto simp: ends_as_def split: option.splits)

lemma demo_resume_obtain:
  assumes "is_resumed (fst (demo_resume v outcome))"
  obtains r t' where "taskflow_resume (demo_judge v) (\<lambda>_ t. t) 9 ''f1'' (demo_result outcome) ''s1'' [demo_chain_flow] = (Resumed r, t')"
    and "demo_resume v outcome = (Resumed r, t')"
  using assms by (elim is_resumed_obtain) (simp add: demo_resume_def)

lemma demo_result_off: "\<not> rc_auto (demo_result outcome)" "rc_expected (demo_result outcome) = None"
  by (simp_all add: demo_result_def)

definition resumed_steps :: "resume_result \<times> flow_table \<Rightarrow> jdict list" where
  "resumed_steps p = (case p of (Resumed r, _) \<Rightarrow> flow_steps (fl_state (rs_flow r)) | _ \<Rightarrow> [])"

definition unlocked_of :: "resume_result \<times> flow_table \<Rightarrow> json list" where
  "unlocked_of p = (case p of (Resumed r, _) \<Rightarrow> rs_unlocked r | _ \<Rightarrow> [])"


theorem resume_retry_bounded_witness:
  "\<exists>r t' n. demo_resume V_RETRY [] = (Resumed r, t') \<and> rs_new r = Some (''c8'', n) \<and> 0 < n \<and> n \<le> JUDGE_MAX_RETRIES"
proof -
  have ok: "is_resumed (fst (demo_resume V_RETRY [])) \<and> normalize_policy demo_running = None \<and>
      (case demo_resume V_RETRY [] of (Resumed r, _) \<Rightarrow> map_option fst (rs_new r) = Some ''c8'' | _ \<Rightarrow> False)" by code_simp
  then obtain r t' where res: "taskflow_resume (demo_judge V_RETRY) (\<lambda>_ t. t) 9 ''f1'' (demo_result []) ''s1'' [demo_chain_flow] =
      (Resumed r, t')" "demo_resume V_RETRY [] = (Resumed r, t')" using demo_resume_obtain by blast
  then obtain n where n: "rs_new r = Some (''c8'', n)" using ok by auto
  have "step_of_child ''c7'' (flow_steps (fl_state demo_chain_flow)) = Some demo_running" by code_simp
  with resume_retry_bounded [OF _ _ res(1) n, of demo_chain_flow demo_running] show ?thesis
    using ok n res(2) demo_chain_get by (simp add: demo_strips)
qed

theorem token_total_from_first_read_witness:
  "\<exists>g. get_flow ''f1'' ''s1'' (snd (taskflow_resume (demo_judge V_PASS)
      (\<lambda>k t. if k = 2 then update_where (owned ''f1'' ''s1'') (\<lambda>f. f\<lparr>fl_total_tokens := 100, fl_revision := fl_revision f + 1\<rparr>) t else t)
      9 ''f1'' demo_spend ''s1'' [demo_chain_flow])) = Some g \<and> fl_total_tokens g = 15"
proof -
  let ?o = "\<lambda>k t. if k = 2 then update_where (owned ''f1'' ''s1'') (\<lambda>f. f\<lparr>fl_total_tokens := 100, fl_revision := fl_revision f + 1\<rparr>) t else t"
  have o: "env_ok ?o" by (auto simp: env_ok_def table_ok_def)
  have "is_resumed (fst (taskflow_resume (demo_judge V_PASS) ?o 9 ''f1'' demo_spend ''s1'' [demo_chain_flow]))" by code_simp
  then obtain r t' where res: "taskflow_resume (demo_judge V_PASS) ?o 9 ''f1'' demo_spend ''s1'' [demo_chain_flow] = (Resumed r, t')"
    by (rule is_resumed_obtain)
  have "fl_total_tokens demo_chain_flow = 0" by code_simp
  moreover have "\<not> rc_auto demo_spend" "rc_usage demo_spend = Some (10, 5, ''m'')" by (simp_all add: demo_spend_def demo_result_def)
  ultimately show ?thesis
    using token_total_from_first_read [OF o demo_chain_ok _ _ _ res, of demo_chain_flow 10 5 "''m''"] demo_chain_get demo_strips(1)
    by (simp add: res)
qed

theorem judge_block_is_undone_witness:
  "\<exists>q. by_id (resumed_steps (demo_resume V_BLOCK [])) (JStr ''b'') = Some q \<and> step_status q = ''ready''"
proof -
  have ok: "is_resumed (fst (demo_resume V_BLOCK [])) \<and> ends_as ''blocked'' (demo_decision V_BLOCK [])" by code_simp
  then obtain r t' where res: "taskflow_resume (demo_judge V_BLOCK) (\<lambda>_ t. t) 9 ''f1'' (demo_result []) ''s1'' [demo_chain_flow] =
      (Resumed r, t')" "demo_resume V_BLOCK [] = (Resumed r, t')" using demo_resume_obtain by blast
  obtain d s where d: "demo_decision V_BLOCK [] = Some d" "dc_new d = None" "dc_step d = Some s"
    "step_status s = ''blocked''" "dc_id d = JStr ''b''" using ok ends_as_obtain by blast
  have f: "step_of_child ''c7'' (flow_steps (fl_state demo_chain_flow)) = Some demo_running"
    "distinct (map step_id_of (flow_steps (fl_state demo_chain_flow)))" "truthy (jget ''depends_on'' demo_running)"
    "deps_satisfied demo_running (flow_steps (fl_state demo_chain_flow))" by code_simp+
  show ?thesis
    using judge_block_is_undone [OF demo_chain_ok demo_result_off(1,2) _ _ d(2-4) _ f(2) _ f(3,4) res(1)] d f(1) demo_chain_get
    by (simp add: demo_strips demo_decision_def resumed_steps_def res(2))
qed

end
