(* ===== verification/TaskFlow_Finish.thy ===== *)
theory TaskFlow_Finish
  imports TaskFlow_Dispatch
begin

section \<open>Finishing a flow\<close>

text \<open>
  Models \<^verbatim>\<open>src/agent/tools/taskflow/tools/taskflow_finish.py\<close>: the gates in front of the terminal status
  \<^verbatim>\<open>done\<close>, the three independent budgets for rejected calls and the automatic failure that ends them.
  Parameters are the summary of the verification evidence (a failing collector gives the empty one), the
  reply of the goal judge (\<^const>\<open>None\<close> when the model raises) and the wording of a reason. The stamp of
  the flow on the creator session during the replay is restored before the gate answers and is not
  part of the state.
\<close>

subsection \<open>Limits\<close>

definition finish_nudge_max :: int where
  "finish_nudge_max = 2"

definition finish_failure_limit :: int where
  "finish_failure_limit = 2"

definition finish_protocol_violation_limit :: int where
  "finish_protocol_violation_limit = 3"

definition auto_kill_on_detach :: bool where
  "auto_kill_on_detach = True"

definition goal_max_result_chars :: nat where
  "goal_max_result_chars = 4000"

definition goal_min_steps :: nat where
  "goal_min_steps = 3"

definition PENDING_STATUSES :: "string list" where
  "PENDING_STATUSES = [''ready'', ''dispatched'']"

subsection \<open>The gates\<close>

datatype evidence_error = Evidence_Failing string | Evidence_Broken string | Evidence_Stale string

definition evidence_gate :: "string \<Rightarrow> evidence_error option" where
  "evidence_gate evidence =
    (if evidence = [] then None
     else if has_sub ''FAIL'' evidence then Some (Evidence_Failing evidence)
     else if has_sub ''[broken]'' evidence then Some (Evidence_Broken evidence)
     else if has_sub ''[stale]'' evidence then Some (Evidence_Stale evidence)
     else None)"

definition goal_of :: "jdict \<Rightarrow> string" where
  "goal_of state = strip (text_of (jget ''description'' state))"

text \<open>\<^verbatim>\<open>record.get("step_id") or record.get("child_session_key") or "step"\<close>.\<close>

definition record_label :: "jdict \<Rightarrow> string" where
  "record_label r =
    (if truthy (jget ''step_id'' r) then text_of (jget ''step_id'' r)
     else if truthy (jget ''child_session_key'' r) then text_of (jget ''child_session_key'' r) else ''step'')"

definition judged_results :: "jdict \<Rightarrow> (string \<times> string) list" where
  "judged_results state =
    map (\<lambda>r. (record_label r, take goal_max_result_chars (text_of (jget ''result'' r))))
      (filter (\<lambda>r. strip (text_of (jget ''result'' r)) \<noteq> []) (as_dicts (filter is_jdict (flow_results state))))"

text \<open>What is missing according to a reply; \<^const>\<open>None\<close> passes.\<close>

definition upper_char :: "char \<Rightarrow> char" where
  "upper_char c = (let n = (of_char c :: nat) in if 97 \<le> n \<and> n \<le> 122 then char_of (n - 32) else c)"

definition goal_verdict :: "string \<Rightarrow> string option" where
  "goal_verdict raw =
    (if has_sub ''GOAL_NOT_MET'' (map upper_char raw)
     then Some (case split_on CHR '':'' raw of
                  _ # p # ps \<Rightarrow> strip (join '':'' (p # ps))
                | _ \<Rightarrow> raw)
     else None)"

definition goal_gate :: "(string \<Rightarrow> (string \<times> string) list \<Rightarrow> string option) \<Rightarrow> jdict \<Rightarrow> string option" where
  "goal_gate judge state =
    (if goal_of state = [] \<or> length (filter is_jdict (steps_of state)) < goal_min_steps \<or> judged_results state = [] then None
     else (case judge (goal_of state) (judged_results state) of None \<Rightarrow> None | Some raw \<Rightarrow> goal_verdict (strip raw)))"

datatype rejection =
  Not_Started "json list"
| Not_Settled "json list"
| Unresolved "(json \<times> string) list"
| Blocked_Steps "json list"
| Bad_Evidence evidence_error
| Goal_Not_Met string

text \<open>Gates A and B look at the steps alone. \<open>Inl\<close>: pending steps, \<open>Inr\<close>: a rejection or none.\<close>

definition pending_steps :: "jdict list \<Rightarrow> jdict list" where
  "pending_steps steps = filter (\<lambda>s. step_status s \<in> set PENDING_STATUSES) steps"

definition undispatched_steps :: "jdict list \<Rightarrow> jdict list" where
  "undispatched_steps steps =
    filter (\<lambda>s. step_status s = ''ready'' \<and> \<not> truthy (jget ''child_session_key'' s)) (pending_steps steps)"

definition unresolved_steps :: "jdict list \<Rightarrow> jdict list" where
  "unresolved_steps steps = filter (\<lambda>s. step_status s \<in> {''failed'', ''skipped'', ''cancelled''}) steps"

definition blocked_steps :: "jdict list \<Rightarrow> jdict list" where
  "blocked_steps steps = filter (\<lambda>s. step_status s = ''blocked'') steps"

record finish_env =
  fe_evidence :: "flow \<Rightarrow> string"
  fe_judge :: "string \<Rightarrow> (string \<times> string) list \<Rightarrow> string option"
  fe_reason :: "rejection \<Rightarrow> int \<Rightarrow> string"

text \<open>The gates B, C and E in their order.\<close>

definition finish_gates :: "finish_env \<Rightarrow> flow \<Rightarrow> rejection option" where
  "finish_gates env f =
    (let steps = flow_steps (fl_state f)
     in if unresolved_steps steps \<noteq> []
        then Some (Unresolved (map (\<lambda>s. (step_id_of s, step_status s)) (unresolved_steps steps)))
        else if blocked_steps steps \<noteq> [] then Some (Blocked_Steps (map (jget ''block_reason'') (blocked_steps steps)))
        else (case evidence_gate (fe_evidence env f) of
                Some e \<Rightarrow> Some (Bad_Evidence e)
              | None \<Rightarrow> map_option Goal_Not_Met (goal_gate (fe_judge env) (fl_state f))))"

subsection \<open>Rejections and the automatic failure\<close>

datatype finish_result =
  Finish_Needs_Flow
| Finish_No_Flow text_id
| Finish_Terminal text_id string
| Finish_Raises
| Finish_Conflict text_id int int
| Finish_Gone text_id
| Finish_Rejected rejection int
| Finish_Nudged "json list" int
| Auto_Failed flow string "string list"
| Finished flow

definition write_error :: "flow_error \<Rightarrow> finish_result" where
  "write_error e =
    (case e of
       Flow_Conflict i n m \<Rightarrow> Finish_Conflict i n m
     | Flow_Not_Found i \<Rightarrow> Finish_Gone i
     | _ \<Rightarrow> Finish_Raises)"

definition persist_finish_state ::
    "time \<Rightarrow> text_id \<Rightarrow> int \<Rightarrow> text_id \<Rightarrow> jdict \<Rightarrow> finish_result \<Rightarrow> flow_table \<Rightarrow> finish_result \<times> flow_table" where
  "persist_finish_state now i n sess state answer t =
    (case update_flow now i n sess (no_update\<lparr>up_state := Some state\<rparr>) t of
       (Inl e, t') \<Rightarrow> (write_error e, t')
     | (Inr _, t') \<Rightarrow> (answer, t'))"

definition fail_unsettled :: "string \<Rightarrow> json \<Rightarrow> json" where
  "fail_unsettled reason v =
    (case v of
       JDict s \<Rightarrow>
         if step_status s \<in> set SETTLED_STEP_STATUSES then JDict s
         else JDict (dict_set ''fail_reason'' (JStr reason) (set_status ''failed'' s))
     | _ \<Rightarrow> v)"

definition auto_fail_state :: "string \<Rightarrow> jdict \<Rightarrow> jdict" where
  "auto_fail_state reason state =
    (let detached = detached_child_keys (flow_steps state);
         state1 = dict_set ''failure_reason'' (JStr reason) state;
         state2 = (if detached = [] then state1
                   else dict_set ''detached_child_session_keys'' (JList (map JStr detached)) state1)
     in if truthy (jget ''steps'' state)
        then dict_set ''steps'' (JList (map (fail_unsettled reason) (steps_of state))) state2 else state2)"

text \<open>The answer names the children that are killed once the flow is failed.\<close>

definition auto_fail_finish ::
    "time \<Rightarrow> text_id \<Rightarrow> int \<Rightarrow> text_id \<Rightarrow> jdict \<Rightarrow> string \<Rightarrow> string \<Rightarrow> flow_table \<Rightarrow> finish_result \<times> flow_table" where
  "auto_fail_finish now i n sess state reason terminal_reason t =
    (case update_flow now i n sess
            (no_update\<lparr>up_state := Some (auto_fail_state reason state), up_wait := Some None,
               up_status := Some ''failed'', up_terminal_reason := Some (Some terminal_reason)\<rparr>) t of
       (Inl e, t') \<Rightarrow> (write_error e, t')
     | (Inr g, t') \<Rightarrow>
         (Auto_Failed g terminal_reason (if auto_kill_on_detach then detached_child_keys (flow_steps state) else []), t'))"

definition reject_finish ::
    "finish_env \<Rightarrow> time \<Rightarrow> text_id \<Rightarrow> int \<Rightarrow> text_id \<Rightarrow> jdict \<Rightarrow> rejection \<Rightarrow> flow_table \<Rightarrow> finish_result \<times> flow_table" where
  "reject_finish env now i n sess state why t =
    (case int_or_zero (dict_get state ''consecutive_failures'') of
       None \<Rightarrow> (Finish_Raises, t)
     | Some k \<Rightarrow>
         (let state' = dict_set ''consecutive_failures'' (JInt (k + 1)) state
          in if 0 < finish_failure_limit \<and> finish_failure_limit \<le> k + 1
             then auto_fail_finish now i n sess state' (fe_reason env why (k + 1)) ''finish_gates_exhausted'' t
             else persist_finish_state now i n sess state' (Finish_Rejected why (k + 1)) t))"

text \<open>Steps that were never started, and steps whose children still run.\<close>

definition protocol_violation ::
    "finish_env \<Rightarrow> time \<Rightarrow> text_id \<Rightarrow> int \<Rightarrow> text_id \<Rightarrow> jdict \<Rightarrow> flow_table \<Rightarrow> finish_result \<times> flow_table" where
  "protocol_violation env now i n sess state t =
    (let why = Not_Started (map step_id_of (undispatched_steps (flow_steps state)))
     in case int_or_zero (dict_get state ''protocol_violation_streak'') of
          None \<Rightarrow> (Finish_Raises, t)
        | Some k \<Rightarrow>
            (let state' = dict_set ''protocol_violation_streak'' (JInt (k + 1)) state
             in if 0 < finish_protocol_violation_limit \<and> finish_protocol_violation_limit \<le> k + 1
                then auto_fail_finish now i n sess state' (fe_reason env why (k + 1)) ''protocol_violation_exhausted'' t
                else persist_finish_state now i n sess state' (Finish_Rejected why (k + 1)) t))"

definition nudge_finish ::
    "finish_env \<Rightarrow> time \<Rightarrow> text_id \<Rightarrow> int \<Rightarrow> text_id \<Rightarrow> jdict \<Rightarrow> flow_table \<Rightarrow> finish_result \<times> flow_table" where
  "nudge_finish env now i n sess state t =
    (let ids = map step_id_of (pending_steps (flow_steps state))
     in case int_or_zero (dict_get state ''finish_nudge_count'') of
          None \<Rightarrow> (Finish_Raises, t)
        | Some k \<Rightarrow>
            (let state' = dict_set ''finish_nudge_count'' (JInt (k + 1)) state
             in if k + 1 \<le> finish_nudge_max
                then persist_finish_state now i n sess state' (Finish_Nudged ids (k + 1)) t
                else reject_finish env now i n sess state' (Not_Settled ids) t))"

subsection \<open>The tool\<close>

definition complete_flow ::
    "time \<Rightarrow> text_id \<Rightarrow> int \<Rightarrow> text_id \<Rightarrow> string \<Rightarrow> jdict \<Rightarrow> flow_table \<Rightarrow> finish_result \<times> flow_table" where
  "complete_flow now i n sess summary state t =
    (case update_flow now i n sess
            (no_update\<lparr>up_state := Some (if summary = [] then state else dict_set ''summary'' (JStr summary) state),
               up_wait := Some None, up_status := Some ''done'', up_terminal_reason := Some (Some ''completed'')\<rparr>) t of
       (Inl e, t') \<Rightarrow> (write_error e, t')
     | (Inr g, t') \<Rightarrow> (Finished g, t'))"

text \<open>What the tool does with a flow that is not terminal; \<open>others\<close> are the writes before its own.\<close>

definition finish_flow ::
    "finish_env \<Rightarrow> time \<Rightarrow> text_id \<Rightarrow> int \<Rightarrow> text_id \<Rightarrow> string \<Rightarrow> flow \<Rightarrow> flow_table \<Rightarrow> finish_result \<times> flow_table" where
  "finish_flow env now i n sess summary f t =
    (if pending_steps (flow_steps (fl_state f)) \<noteq> []
     then (if undispatched_steps (flow_steps (fl_state f)) \<noteq> [] then protocol_violation env now i n sess (fl_state f) t
           else nudge_finish env now i n sess (fl_state f) t)
     else (case finish_gates env f of
             Some why \<Rightarrow> reject_finish env now i n sess (fl_state f) why t
           | None \<Rightarrow> complete_flow now i n sess summary (fl_state f) t))"

definition taskflow_finish ::
    "finish_env \<Rightarrow> (flow_table \<Rightarrow> flow_table) \<Rightarrow> time \<Rightarrow> text_id \<Rightarrow> string \<Rightarrow> int option \<Rightarrow> text_id \<Rightarrow> flow_table
     \<Rightarrow> finish_result \<times> flow_table" where
  "taskflow_finish env others now flow_id summary expected sess t =
    (let i = strip flow_id
     in if i = [] then (Finish_Needs_Flow, t)
        else case get_flow i sess t of
          None \<Rightarrow> (Finish_No_Flow i, t)
        | Some f \<Rightarrow>
            if flow_terminal (fl_status f) then (Finish_Terminal i (fl_status f), t)
            else finish_flow env now i (case expected of Some n \<Rightarrow> n | None \<Rightarrow> fl_revision f) sess summary f (others t))"

subsection \<open>What a call stores\<close>

lemma update_stores:
  assumes "table_ok t" and "assigns u" and "up_state u = Some st" and "update_flow now i n sess u t = (Inr g, t')"
  shows "table_ok t'" and "get_flow i sess t' = Some g" and "fl_state g = st"
    and "fl_revision g = n + 1" and "up_status u = Some x \<Longrightarrow> fl_status g = x"
proof -
  obtain r where g: "g = row_to_flow (apply_update now (n + 1) u r)" "get_flow i sess t' = Some g"
    using update_flow_Inr [OF assms(1,2,4)] by blast
  show "table_ok t'" using update_flow_ok [OF assms(1), of now i n sess u] assms(4) by simp
  show "get_flow i sess t' = Some g" by (rule g(2))
  show "fl_state g = st" "fl_revision g = n + 1" "up_status u = Some x \<Longrightarrow> fl_status g = x"
    using assms(3) by (simp_all add: g(1) apply_update_def or_keep_def row_to_flow_def)
qed

lemma finish_state_assigns [simp]: "assigns (no_update\<lparr>up_state := Some st, up_wait := w, up_status := x, up_terminal_reason := r\<rparr>)"
  "assigns (no_update\<lparr>up_state := Some st\<rparr>)"
  by (simp_all add: assigns_def)

text \<open>The statuses that a finish looks for, and those it leaves.\<close>

lemma finished_steps:
  assumes "pending_steps steps = []" and "unresolved_steps steps = []" and "blocked_steps steps = []"
    and "s \<in> set steps" and "step_status s \<in> set STEP_STATUSES"
  shows "step_status s = ''done''"
  using assms by (auto simp: pending_steps_def unresolved_steps_def blocked_steps_def filter_empty_conv
      PENDING_STATUSES_def STEP_STATUSES_def)

lemma finish_gates_None:
  "finish_gates env f = None \<longleftrightarrow> unresolved_steps (flow_steps (fl_state f)) = [] \<and> blocked_steps (flow_steps (fl_state f)) = [] \<and>
     evidence_gate (fe_evidence env f) = None \<and> goal_gate (fe_judge env) (fl_state f) = None"
  by (auto simp: finish_gates_def Let_def split: option.split)

lemma fail_unsettled_settles:
  "is_jdict v \<Longrightarrow> \<exists>s. fail_unsettled reason v = JDict s \<and> step_status s \<in> set SETTLED_STEP_STATUSES"
proof (cases v)
  case (JDict s)
  then show ?thesis
    by (cases "step_status s \<in> set SETTLED_STEP_STATUSES")
      (auto simp: fail_unsettled_def step_status_def set_status_def text_of_def SETTLED_STEP_STATUSES_def)
qed auto

text \<open>Dictionaries are what a step list holds.\<close>

definition steps_typed :: "jdict \<Rightarrow> bool" where
  "steps_typed state \<longleftrightarrow> list_all is_jdict (steps_of state)"

lemma auto_fail_settles:
  assumes "steps_typed state" and "s \<in> set (flow_steps (auto_fail_state reason state))"
  shows "step_status s \<in> set SETTLED_STEP_STATUSES"
proof (cases "truthy (jget ''steps'' state)")
  case True
  then have "steps_of (auto_fail_state reason state) = map (fail_unsettled reason) (steps_of state)"
    by (simp add: auto_fail_state_def Let_def steps_of_def)
  then obtain v where v: "v \<in> set (steps_of state)" "s = (case fail_unsettled reason v of JDict s \<Rightarrow> s | _ \<Rightarrow> [])"
    using assms(2) by (auto simp: flow_steps_def as_dicts_def)
  then have "is_jdict v" using assms(1) by (auto simp: steps_typed_def list_all_iff)
  from fail_unsettled_settles [OF this, of reason] v(2) show ?thesis by auto
next
  case False
  then have "steps_of state = []" by (cases "jget ''steps'' state") (auto simp: steps_of_def list_of_def)
  moreover have "steps_of (auto_fail_state reason state) = steps_of state"
    using False by (simp add: auto_fail_state_def Let_def steps_of_def)
  ultimately show ?thesis using assms(2) by (simp add: flow_steps_def as_dicts_def)
qed

text \<open>A call on the current revision, with nobody in between, always writes.\<close>

lemma update_current:
  assumes "table_ok t" and "get_flow i sess t = Some f" and "assigns u" and "up_state u = Some st"
  obtains g t' where "update_flow now i (fl_revision f) sess u t = (Inr g, t')" "table_ok t'" "get_flow i sess t' = Some g"
    and "fl_state g = st" and "fl_status g = (case up_status u of Some x \<Rightarrow> x | None \<Rightarrow> fl_status f)"
proof -
  obtain r where r: "r \<in> set t" "fl_id r = i" "fl_session r = sess" "f = row_to_flow r"
    using assms(2) unfolding get_flow_Some [OF assms(1)] by blast
  let ?g = "row_to_flow (apply_update now (fl_revision f + 1) u r)"
  have "fl_revision r = fl_revision f" by (simp add: r(4))
  from update_flow_wins [OF assms(1,3) r(1-3) this] obtain t' where u: "update_flow now i (fl_revision f) sess u t = (Inr ?g, t')"
    by blast
  have "fl_status ?g = (case up_status u of Some x \<Rightarrow> x | None \<Rightarrow> fl_status f)"
    by (simp add: apply_update_def or_keep_def r(4) split: option.split)
  with update_stores [OF assms(1,3,4) u] u that show ?thesis by blast
qed

definition count_ok :: "string \<Rightarrow> jdict \<Rightarrow> bool" where
  "count_ok k state \<longleftrightarrow> (case int_or_zero (dict_get state k) of None \<Rightarrow> False | Some n \<Rightarrow> 0 \<le> n)"

definition count_at :: "string \<Rightarrow> jdict \<Rightarrow> int" where
  "count_at k state = (case int_or_zero (dict_get state k) of None \<Rightarrow> 0 | Some n \<Rightarrow> n)"

definition counters_ok :: "jdict \<Rightarrow> bool" where
  "counters_ok state \<longleftrightarrow> count_ok ''protocol_violation_streak'' state \<and> count_ok ''finish_nudge_count'' state \<and>
     count_ok ''consecutive_failures'' state"

lemma count_set [simp]:
  "0 \<le> n \<Longrightarrow> count_ok j (dict_set k (JInt n) state) \<longleftrightarrow> (if j = k then True else count_ok j state)"
  "count_at j (dict_set k (JInt n) state) = (if j = k then n else count_at j state)"
  by (auto simp: count_ok_def count_at_def int_or_zero_def py_int_def)

lemma count_ok_read: "count_ok k state \<Longrightarrow> int_or_zero (dict_get state k) = Some (count_at k state) \<and> 0 \<le> count_at k state"
  by (auto simp: count_ok_def count_at_def split: option.splits)

text \<open>How many more calls can be rejected without ending the flow.\<close>

definition rejections_left :: "jdict \<Rightarrow> nat" where
  "rejections_left state =
    nat (finish_protocol_violation_limit - 1 - count_at ''protocol_violation_streak'' state) +
    nat (finish_nudge_max - count_at ''finish_nudge_count'' state) +
    nat (finish_failure_limit - 1 - count_at ''consecutive_failures'' state)"

definition closes_in :: "flow \<Rightarrow> text_id \<Rightarrow> text_id \<Rightarrow> flow_table \<Rightarrow> bool" where
  "closes_in f i sess t \<longleftrightarrow> table_ok t \<and> (\<exists>g. get_flow i sess t = Some g \<and>
     (flow_terminal (fl_status g) \<or>
      fl_status g = fl_status f \<and> counters_ok (fl_state g) \<and> rejections_left (fl_state g) < rejections_left (fl_state f)))"

lemma auto_fail_closes:
  assumes "table_ok t" and "get_flow i sess t = Some f"
  shows "closes_in f i sess (snd (auto_fail_finish now i (fl_revision f) sess state reason why t))"
proof -
  let ?u = "no_update\<lparr>up_state := Some (auto_fail_state reason state), up_wait := Some None,
               up_status := Some ''failed'', up_terminal_reason := Some (Some why)\<rparr>"
  have st: "assigns ?u" "up_state ?u = Some (auto_fail_state reason state)" "up_status ?u = Some ''failed''" by simp_all
  obtain g t' where "update_flow now i (fl_revision f) sess ?u t = (Inr g, t')" "table_ok t'" "get_flow i sess t' = Some g"
    "fl_status g = ''failed''"
    using update_current [OF assms st(1,2)] unfolding st(3) by (metis option.simps(5))
  then show ?thesis by (simp add: auto_fail_finish_def closes_in_def flow_terminal_def TERMINAL_STATUSES_def)
qed

lemma persist_closes:
  assumes "table_ok t" and "get_flow i sess t = Some f" and "counters_ok state" and "rejections_left state < rejections_left (fl_state f)"
  shows "closes_in f i sess (snd (persist_finish_state now i (fl_revision f) sess state answer t))"
proof -
  let ?u = "no_update\<lparr>up_state := Some state\<rparr>"
  have st: "assigns ?u" "up_state ?u = Some state" "up_status ?u = None" by simp (simp_all add: no_update_def)
  obtain g t' where "update_flow now i (fl_revision f) sess ?u t = (Inr g, t')" "table_ok t'" "get_flow i sess t' = Some g"
    "fl_state g = state" "fl_status g = fl_status f"
    using update_current [OF assms(1,2) st(1,2)] unfolding st(3) by (metis option.simps(4))
  then show ?thesis using assms(3,4) by (simp add: persist_finish_state_def closes_in_def)
qed

lemma reject_closes:
  assumes "table_ok t" and "get_flow i sess t = Some f" and "counters_ok state"
    and "rejections_left state \<le> rejections_left (fl_state f)"
  shows "closes_in f i sess (snd (reject_finish env now i (fl_revision f) sess state why t))"
proof -
  let ?k = "count_at ''consecutive_failures'' state"
  have k: "int_or_zero (dict_get state ''consecutive_failures'') = Some ?k" "0 \<le> ?k"
    using assms(3) count_ok_read by (auto simp: counters_ok_def)
  show ?thesis
  proof (cases "finish_failure_limit \<le> ?k + 1")
    case True
    then show ?thesis using auto_fail_closes [OF assms(1,2)] by (simp add: reject_finish_def k(1) finish_failure_limit_def)
  next
    case False
    let ?s = "dict_set ''consecutive_failures'' (JInt (?k + 1)) state"
    have "nat (finish_failure_limit - 1 - (?k + 1)) < nat (finish_failure_limit - 1 - ?k)" using False by simp
    then have "rejections_left ?s < rejections_left state" by (simp add: rejections_left_def)
    with assms(3,4) k(2) have "counters_ok ?s" "rejections_left ?s < rejections_left (fl_state f)" by (simp_all add: counters_ok_def)
    from persist_closes [OF assms(1,2) this] False show ?thesis by (simp add: reject_finish_def k(1))
  qed
qed

lemma violation_closes:
  assumes "table_ok t" and "get_flow i sess t = Some f" and "counters_ok (fl_state f)"
  shows "closes_in f i sess (snd (protocol_violation env now i (fl_revision f) sess (fl_state f) t))"
proof -
  let ?k = "count_at ''protocol_violation_streak'' (fl_state f)"
  have k: "int_or_zero (dict_get (fl_state f) ''protocol_violation_streak'') = Some ?k" "0 \<le> ?k"
    using assms(3) count_ok_read by (auto simp: counters_ok_def)
  show ?thesis
  proof (cases "finish_protocol_violation_limit \<le> ?k + 1")
    case True
    then show ?thesis
      using auto_fail_closes [OF assms(1,2)] by (simp add: protocol_violation_def Let_def k(1) finish_protocol_violation_limit_def)
  next
    case False
    let ?s = "dict_set ''protocol_violation_streak'' (JInt (?k + 1)) (fl_state f)"
    have "nat (finish_protocol_violation_limit - 1 - (?k + 1)) < nat (finish_protocol_violation_limit - 1 - ?k)" using False by simp
    then have "rejections_left ?s < rejections_left (fl_state f)" by (simp add: rejections_left_def)
    moreover have "counters_ok ?s" using assms(3) k(2) by (simp add: counters_ok_def)
    ultimately show ?thesis using persist_closes [OF assms(1,2)] False by (simp add: protocol_violation_def Let_def k(1))
  qed
qed

lemma nudge_closes:
  assumes "table_ok t" and "get_flow i sess t = Some f" and "counters_ok (fl_state f)"
  shows "closes_in f i sess (snd (nudge_finish env now i (fl_revision f) sess (fl_state f) t))"
proof -
  let ?k = "count_at ''finish_nudge_count'' (fl_state f)"
  have k: "int_or_zero (dict_get (fl_state f) ''finish_nudge_count'') = Some ?k" "0 \<le> ?k"
    using assms(3) count_ok_read by (auto simp: counters_ok_def)
  let ?s = "dict_set ''finish_nudge_count'' (JInt (?k + 1)) (fl_state f)"
  have ok: "counters_ok ?s" using assms(3) k(2) by (simp add: counters_ok_def)
  show ?thesis
  proof (cases "?k + 1 \<le> finish_nudge_max")
    case True
    then have "nat (finish_nudge_max - (?k + 1)) < nat (finish_nudge_max - ?k)" by simp
    then have "rejections_left ?s < rejections_left (fl_state f)" by (simp add: rejections_left_def)
    from persist_closes [OF assms(1,2) ok this] True show ?thesis by (simp add: nudge_finish_def Let_def k(1))
  next
    case False
    have "rejections_left ?s \<le> rejections_left (fl_state f)" by (simp add: rejections_left_def)
    from reject_closes [OF assms(1,2) ok this] False show ?thesis by (simp add: nudge_finish_def Let_def k(1))
  qed
qed

lemma finish_closes:
  assumes "table_ok t" and "get_flow (strip flow_id) sess t = Some f" and "counters_ok (fl_state f)"
    and "\<not> flow_terminal (fl_status f)" and "strip flow_id \<noteq> []"
  shows "closes_in f (strip flow_id) sess (snd (taskflow_finish env (\<lambda>t. t) now flow_id summary None sess t))"
proof -
  let ?i = "strip flow_id"
  have gates: "closes_in f ?i sess (snd (complete_flow now ?i (fl_revision f) sess summary (fl_state f) t))"
  proof -
    let ?u = "no_update\<lparr>up_state := Some (if summary = [] then fl_state f else dict_set ''summary'' (JStr summary) (fl_state f)),
               up_wait := Some None, up_status := Some ''done'', up_terminal_reason := Some (Some ''completed'')\<rparr>"
    have st: "assigns ?u" "up_status ?u = Some ''done''"
      "up_state ?u = Some (if summary = [] then fl_state f else dict_set ''summary'' (JStr summary) (fl_state f))" by simp_all
    obtain g t' where "update_flow now ?i (fl_revision f) sess ?u t = (Inr g, t')" "table_ok t'" "get_flow ?i sess t' = Some g"
      "fl_status g = ''done''"
      using update_current [OF assms(1,2) st(1,3)] unfolding st(2) by (metis option.simps(5))
    then show ?thesis by (simp add: complete_flow_def closes_in_def flow_terminal_def TERMINAL_STATUSES_def)
  qed
  have "closes_in f ?i sess (snd (finish_flow env now ?i (fl_revision f) sess summary f t))"
    using violation_closes [OF assms(1-3)] nudge_closes [OF assms(1-3)] reject_closes [OF assms(1-3) order_refl] gates
    by (simp add: finish_flow_def split: option.split)
  then show ?thesis using assms(2,4,5) by (simp add: taskflow_finish_def Let_def)
qed

text \<open>Calling the tool again and again, with whatever evidence and verdicts.\<close>

fun finish_calls :: "(nat \<Rightarrow> finish_env) \<Rightarrow> (nat \<Rightarrow> time) \<Rightarrow> text_id \<Rightarrow> string \<Rightarrow> text_id \<Rightarrow> nat \<Rightarrow> flow_table \<Rightarrow> flow_table" where
  "finish_calls env clock flow_id summary sess 0 t = t"
| "finish_calls env clock flow_id summary sess (Suc k) t =
    finish_calls env clock flow_id summary sess k
      (snd (taskflow_finish (env k) (\<lambda>t. t) (clock k) flow_id summary None sess t))"

lemma finish_calls_terminal:
  assumes "get_flow (strip flow_id) sess t = Some f" and "flow_terminal (fl_status f)" and "strip flow_id \<noteq> []"
  shows "finish_calls env clock flow_id summary sess k t = t"
proof -
  have "snd (taskflow_finish e (\<lambda>t. t) now flow_id summary None sess t) = t" for e now
    using assms by (simp add: taskflow_finish_def Let_def)
  then show ?thesis by (induction k) simp_all
qed

lemma finish_calls_close:
  assumes "table_ok t" and "get_flow (strip flow_id) sess t = Some f" and "counters_ok (fl_state f)" and "strip flow_id \<noteq> []"
    and "rejections_left (fl_state f) < k"
  shows "\<exists>g. get_flow (strip flow_id) sess (finish_calls env clock flow_id summary sess k t) = Some g \<and> flow_terminal (fl_status g)"
  using assms(1-3,5)
proof (induction k arbitrary: t f)
  case (Suc k)
  show ?case
  proof (cases "flow_terminal (fl_status f)")
    case True
    then show ?thesis using finish_calls_terminal [OF Suc.prems(2) True assms(4)] Suc.prems(2) by metis
  next
    case False
    let ?t = "snd (taskflow_finish (env k) (\<lambda>t. t) (clock k) flow_id summary None sess t)"
    obtain g where g: "table_ok ?t" "get_flow (strip flow_id) sess ?t = Some g"
      "flow_terminal (fl_status g) \<or> counters_ok (fl_state g) \<and> rejections_left (fl_state g) < rejections_left (fl_state f)"
      using finish_closes [OF Suc.prems(1-3) False assms(4), of "env k" "clock k" summary] by (auto simp: closes_in_def)
    show ?thesis
    proof (cases "flow_terminal (fl_status g)")
      case True
      then show ?thesis using finish_calls_terminal [OF g(2) True assms(4)] g(2) by simp
    next
      case False
      then show ?thesis using Suc.IH [OF g(1,2)] g(3) Suc.prems(4) by simp
    qed
  qed
qed simp

subsection \<open>How a call closes a flow\<close>

text \<open>What is required of the stored flow and of its answer when a call closes it.\<close>

definition closed_well :: "finish_env \<Rightarrow> flow \<Rightarrow> text_id \<Rightarrow> text_id \<Rightarrow> finish_result \<Rightarrow> flow_table \<Rightarrow> bool" where
  "closed_well env f i sess x t \<longleftrightarrow>
    (case x of
       Finished g \<Rightarrow>
         get_flow i sess t = Some g \<and> fl_status g = ''done'' \<and> flow_steps (fl_state g) = flow_steps (fl_state f) \<and>
         (\<forall>s \<in> set (flow_steps (fl_state g)). step_status s \<in> set STEP_STATUSES \<longrightarrow> step_status s = ''done'') \<and>
         evidence_gate (fe_evidence env f) = None \<and> goal_gate (fe_judge env) (fl_state f) = None
     | Auto_Failed g why killed \<Rightarrow>
         get_flow i sess t = Some g \<and> fl_status g = ''failed'' \<and> killed = detached_child_keys (flow_steps (fl_state f)) \<and>
         (\<forall>s \<in> set (flow_steps (fl_state g)). step_status s \<in> set SETTLED_STEP_STATUSES)
     | _ \<Rightarrow> True)"

lemma write_error_not_closed [simp]: "closed_well env f i sess (write_error e) t"
  by (simp add: write_error_def closed_well_def split: flow_error.split)

definition closes_well :: "finish_env \<Rightarrow> flow \<Rightarrow> text_id \<Rightarrow> text_id \<Rightarrow> finish_result \<times> flow_table \<Rightarrow> bool" where
  "closes_well env f i sess p = closed_well env f i sess (fst p) (snd p)"

lemma persist_not_closed [simp]:
  "closes_well env f i sess (persist_finish_state now i n sess state (Finish_Rejected why k) t)"
  "closes_well env f i sess (persist_finish_state now i n sess state (Finish_Nudged ids k) t)"
  "closes_well env f i sess (Finish_Raises, t)"
  by (simp_all add: persist_finish_state_def closes_well_def closed_well_def write_error_def split: prod.split sum.split flow_error.split)

lemma auto_fail_closed:
  assumes "table_ok t" and "steps_typed state" and "flow_steps state = flow_steps (fl_state f)"
  shows "closes_well env f i sess (auto_fail_finish now i n sess state reason why t)"
proof -
  let ?u = "no_update\<lparr>up_state := Some (auto_fail_state reason state), up_wait := Some None,
               up_status := Some ''failed'', up_terminal_reason := Some (Some why)\<rparr>"
  have st: "assigns ?u" "up_state ?u = Some (auto_fail_state reason state)" "up_status ?u = Some ''failed''" by simp_all
  obtain r t' where res: "update_flow now i n sess ?u t = (r, t')" by fastforce
  show ?thesis
  proof (cases r)
    case (Inl e)
    then show ?thesis using res by (simp add: auto_fail_finish_def closes_well_def)
  next
    case (Inr g)
    note w = update_stores [OF assms(1) st(1,2) res [unfolded Inr]]
    have "fl_status g = ''failed''" by (rule w(5) [OF st(3)])
    moreover have "\<forall>s \<in> set (flow_steps (fl_state g)). step_status s \<in> set SETTLED_STEP_STATUSES"
      using auto_fail_settles [OF assms(2)] w(3) by simp
    ultimately show ?thesis
      using res Inr w(2) by (simp add: auto_fail_finish_def closes_well_def closed_well_def auto_kill_on_detach_def assms(3))
  qed
qed

lemma steps_typed_set [simp]: "k \<noteq> ''steps'' \<Longrightarrow> steps_typed (dict_set k v state) = steps_typed state"
  by (simp add: steps_typed_def steps_of_def)

lemma flow_steps_set [simp]: "k \<noteq> ''steps'' \<Longrightarrow> flow_steps (dict_set k v state) = flow_steps state"
  by (simp add: flow_steps_def steps_of_def)

lemma reject_closed:
  assumes "table_ok t" and "steps_typed state" and "flow_steps state = flow_steps (fl_state f)"
  shows "closes_well env f i sess (reject_finish env now i n sess state why t)"
  using assms by (simp add: reject_finish_def Let_def auto_fail_closed split: option.split)

lemma complete_closed:
  assumes "table_ok t" and "pending_steps (flow_steps (fl_state f)) = []" and "finish_gates env f = None"
  shows "closes_well env f i sess (complete_flow now i n sess summary (fl_state f) t)"
proof -
  let ?st = "if summary = [] then fl_state f else dict_set ''summary'' (JStr summary) (fl_state f)"
  let ?u = "no_update\<lparr>up_state := Some ?st, up_wait := Some None, up_status := Some ''done'',
      up_terminal_reason := Some (Some ''completed'')\<rparr>"
  have st: "assigns ?u" "up_state ?u = Some ?st" "up_status ?u = Some ''done''" by simp_all
  note gates = assms(3) [unfolded finish_gates_None]
  obtain r t' where res: "update_flow now i n sess ?u t = (r, t')" by fastforce
  show ?thesis
  proof (cases r)
    case (Inl e)
    then show ?thesis using res by (simp add: complete_flow_def closes_well_def)
  next
    case (Inr g)
    note w = update_stores [OF assms(1) st(1,2) res [unfolded Inr]]
    have steps: "flow_steps (fl_state g) = flow_steps (fl_state f)" using w(3) by simp
    have "fl_status g = ''done''" by (rule w(5) [OF st(3)])
    moreover have "step_status s = ''done''" if "s \<in> set (flow_steps (fl_state g))" "step_status s \<in> set STEP_STATUSES" for s
      using finished_steps [OF assms(2)] gates that steps by simp
    ultimately show ?thesis
      using res Inr w(2) gates steps by (simp add: complete_flow_def closes_well_def closed_well_def)
  qed
qed

lemma finish_flow_closed:
  assumes "table_ok t" and "steps_typed (fl_state f)"
  shows "closes_well env f i sess (finish_flow env now i n sess summary f t)"
  using assms
  by (simp add: finish_flow_def protocol_violation_def nudge_finish_def Let_def auto_fail_closed reject_closed complete_closed
      split: option.split)

subsection \<open>Properties\<close>


text \<open>C18: A finish loop ends. Calling the tool six times in a row closes every flow whose counters are in
  order, as done or as failed, whatever its steps, its evidence and the goal judge say in each call.\<close>

theorem finish_loop_ends:
  assumes "table_ok t" and "get_flow (strip flow_id) sess t = Some f" and "counters_ok (fl_state f)" and "strip flow_id \<noteq> []"
    and "6 \<le> k"
  shows "\<exists>g. get_flow (strip flow_id) sess (finish_calls env clock flow_id summary sess k t) = Some g \<and> flow_terminal (fl_status g)"
proof (rule finish_calls_close [OF assms(1-4)])
  have "0 \<le> count_at ''protocol_violation_streak'' (fl_state f)" "0 \<le> count_at ''finish_nudge_count'' (fl_state f)"
    "0 \<le> count_at ''consecutive_failures'' (fl_state f)"
    using assms(3) count_ok_read by (auto simp: counters_ok_def)
  then show "rejections_left (fl_state f) < k"
    using assms(5) by (simp add: rejections_left_def finish_protocol_violation_limit_def finish_nudge_max_def finish_failure_limit_def)
qed


subsection \<open>Concrete flows\<close>

definition demo_finish_env :: finish_env where
  "demo_finish_env = \<lparr>fe_evidence = (\<lambda>_. []), fe_judge = (\<lambda>_ _. Some ''goal_not_met: tests''), fe_reason = (\<lambda>_ _. ''why'')\<rparr>"

definition demo_done_flow :: flow where
  "demo_done_flow = (demo_flow ''f1'' ''running'')\<lparr>fl_state := [(''steps'', JList [JDict (dict_set ''status'' (JStr ''done'') (demo_ready ''a''))])]\<rparr>"

lemma demo_finish_ok: "table_ok [demo_ready_flow]" "table_ok [demo_done_flow]"
  by (simp_all add: table_ok_def)

theorem finish_loop_ends_witness:
  "\<exists>g. get_flow ''f1'' ''s1'' (finish_calls (\<lambda>_. demo_finish_env) (\<lambda>_. 5) ''f1'' [] ''s1'' 6 [demo_ready_flow]) = Some g \<and>
    flow_terminal (fl_status g)"
proof -
  have "strip ''f1'' = ''f1''" "get_flow ''f1'' ''s1'' [demo_ready_flow] = Some demo_ready_flow" "counters_ok (fl_state demo_ready_flow)"
    by code_simp+
  then show ?thesis using finish_loop_ends [OF demo_finish_ok(1), of "''f1''" "''s1''" demo_ready_flow 6] by simp
qed


end
