(* ===== verification/Steering.thy ===== *)
theory Steering
  imports Run_Types
begin

section \<open>The steering queue of completion messages\<close>

text \<open>
  Models \<^verbatim>\<open>src/agent/tools/subagent/announce/steering_queue.py\<close>, the durable store behind it,
  \<^verbatim>\<open>src/agent/tools/subagent/registry/pending_injections.py\<close>, and the middleware that drains it,
  \<^verbatim>\<open>src/agent/middlewares/subagent_completion_drain/core.py\<close>. Queues are used by coroutines of one event
  loop: a section between two \<^verbatim>\<open>await\<close>s is one step, every statement of the store is one step of its
  own, and any other coroutine may run in between. A statement may fail. A restart drops the coroutines
  and the memory and keeps the table.
\<close>

subsection \<open>The store\<close>

datatype injection_status = Injection_Pending | Injection_Consumed

record injection =
  inj_run :: string
  inj_session :: text_id
  inj_content :: string
  inj_status :: injection_status
  inj_created :: time

definition store_enqueue :: "injection \<Rightarrow> injection list \<Rightarrow> injection list" where
  "store_enqueue r rows = (if list_ex (\<lambda>q. inj_run q = inj_run r) rows then rows else rows @ [r])"

definition store_get :: "string \<Rightarrow> injection list \<Rightarrow> injection option" where
  "store_get run rows = row_at inj_run run rows"

definition injection_open :: "string \<Rightarrow> injection \<Rightarrow> bool" where
  "injection_open run q = (inj_run q = run \<and> inj_status q = Injection_Pending)"

definition mark_consumed :: "string \<Rightarrow> injection list \<Rightarrow> bool \<times> injection list" where
  "mark_consumed run rows =
    (list_ex (injection_open run) rows,
     update_where (injection_open run) (\<lambda>q. q\<lparr>inj_status := Injection_Consumed\<rparr>) rows)"

definition list_pending :: "injection list \<Rightarrow> injection list" where
  "list_pending rows = sort_key inj_created (filter (\<lambda>q. inj_status q = Injection_Pending) rows)"

subsection \<open>The memory of a session\<close>

text \<open>A message of \<^verbatim>\<open>build_completion_message\<close>: its text, and the run id and status of its metadata.\<close>

record carrier =
  ca_text :: string
  ca_run :: "string option"
  ca_status :: "string option"

record steering_item =
  si_record :: injection
  si_message :: carrier

definition si_run :: "steering_item \<Rightarrow> string" where
  "si_run x = inj_run (si_record x)"

definition rebuild_item :: "injection \<Rightarrow> steering_item" where
  "rebuild_item r =
    \<lparr>si_record = r, si_message = \<lparr>ca_text = inj_content r, ca_run = Some (inj_run r), ca_status = None\<rparr>\<rparr>"

record session_state =
  ss_items :: "steering_item list"
  ss_by_run :: "(string \<times> steering_item) list"
  ss_hydrated :: bool
  ss_hydrating :: bool

definition fresh_session :: session_state where
  "fresh_session = \<lparr>ss_items = [], ss_by_run = [], ss_hydrated = False, ss_hydrating = False\<rparr>"

definition push_item :: "steering_item \<Rightarrow> session_state \<Rightarrow> session_state" where
  "push_item x s = s\<lparr>ss_items := ss_items s @ [x], ss_by_run := dict_set (si_run x) x (ss_by_run s)\<rparr>"

definition hydrate_row :: "text_id \<Rightarrow> injection \<Rightarrow> session_state \<Rightarrow> session_state" where
  "hydrate_row bare r s =
    (if normalize_session_key (inj_session r) \<noteq> bare \<or> dict_get (ss_by_run s) (inj_run r) \<noteq> None then s
     else push_item (rebuild_item r) s)"

definition hydrate :: "text_id \<Rightarrow> injection list \<Rightarrow> session_state \<Rightarrow> session_state" where
  "hydrate bare rows s = (fold (hydrate_row bare) rows s)\<lparr>ss_hydrated := True, ss_hydrating := False\<rparr>"

definition discard_item :: "string \<Rightarrow> session_state \<Rightarrow> session_state" where
  "discard_item run s =
    (case dict_get (ss_by_run s) run of
       None \<Rightarrow> s
     | Some x \<Rightarrow> s\<lparr>ss_by_run := dict_pop run (ss_by_run s), ss_items := remove1 x (ss_items s)\<rparr>)"

definition record_from_message :: "carrier \<Rightarrow> text_id \<Rightarrow> time \<Rightarrow> injection option" where
  "record_from_message m bare now =
    (if truthy_text (ca_run m)
     then Some \<lparr>inj_run = the (ca_run m), inj_session = bare, inj_content = ca_text m,
                inj_status = Injection_Pending, inj_created = now\<rparr>
     else None)"

subsection \<open>Coroutines\<close>

datatype queue_op =
  Enqueue_Op string carrier time
| Drain_Op string
| Rehydrate_Op string

datatype queue_answer =
  Bad_Carrier
| Store_Failed
| Queued steering_item
| Already_Consumed
| Drained text_id "(steering_item \<times> bool) list"
| Held "steering_item list"

datatype coroutine =
  Starting queue_op
| Reading queue_op
| Read queue_op "injection list"
| Inserting text_id injection steering_item
| Selecting text_id injection steering_item
| Selected text_id injection steering_item "injection option"
| Marking text_id "steering_item list" "(steering_item \<times> bool) list"
| Answered queue_answer

record steering =
  sq_rows :: "injection list"
  sq_memory :: "(text_id \<times> session_state) list"
  sq_tasks :: "coroutine list"
  sq_injected :: "(text_id \<times> string) list"

definition start_queue :: steering where
  "start_queue = \<lparr>sq_rows = [], sq_memory = [], sq_tasks = [], sq_injected = []\<rparr>"

fun op_session :: "queue_op \<Rightarrow> text_id" where
  "op_session (Enqueue_Op key _ _) = normalize_session_key key"
| "op_session (Drain_Op key) = normalize_session_key key"
| "op_session (Rehydrate_Op key) = normalize_session_key key"

definition session_of :: "text_id \<Rightarrow> steering \<Rightarrow> session_state" where
  "session_of bare w = (case dict_get (sq_memory w) bare of None \<Rightarrow> fresh_session | Some s \<Rightarrow> s)"

definition put_session :: "text_id \<Rightarrow> session_state \<Rightarrow> steering \<Rightarrow> steering" where
  "put_session bare s w = w\<lparr>sq_memory := dict_set bare s (sq_memory w)\<rparr>"

definition finish_drain :: "text_id \<Rightarrow> (steering_item \<times> bool) list \<Rightarrow> steering \<Rightarrow> coroutine \<times> steering" where
  "finish_drain bare taken w =
    (Answered (Drained bare taken), w\<lparr>sq_injected := sq_injected w @ map (\<lambda>(x, _). (bare, si_run x)) taken\<rparr>)"

text \<open>What an operation does with the memory once hydration is through.\<close>

fun enter :: "queue_op \<Rightarrow> steering \<Rightarrow> coroutine \<times> steering" where
  "enter (Enqueue_Op key m now) w =
    (let bare = normalize_session_key key; s = session_of bare w
     in case record_from_message m bare now of
          None \<Rightarrow> (Answered Bad_Carrier, w)
        | Some r \<Rightarrow>
            (case dict_get (ss_by_run s) (inj_run r) of
               Some x \<Rightarrow> (Inserting bare r x, w)
             | None \<Rightarrow>
                 (let x = \<lparr>si_record = r, si_message = m\<rparr>
                  in (Inserting bare r x, put_session bare (push_item x s) w))))"
| "enter (Drain_Op key) w =
    (let bare = normalize_session_key key; s = session_of bare w
     in if ss_items s = [] then (Answered (Drained bare []), put_session bare (s\<lparr>ss_items := [], ss_by_run := []\<rparr>) w)
        else (Marking bare (ss_items s) [], put_session bare (s\<lparr>ss_items := [], ss_by_run := []\<rparr>) w))"
| "enter (Rehydrate_Op key) w = (Answered (Held (ss_items (session_of (normalize_session_key key) w))), w)"

fun bad_op :: "queue_op \<Rightarrow> bool" where
  "bad_op (Enqueue_Op key m now) = (\<not> truthy_text (ca_run m))"
| "bad_op _ = False"

text \<open>One step of a coroutine; \<open>fails\<close> tells whether its statement raises.\<close>

fun run_coroutine :: "bool \<Rightarrow> coroutine \<Rightarrow> steering \<Rightarrow> coroutine \<times> steering" where
  "run_coroutine fails (Starting op) w =
    (if bad_op op then (Answered Bad_Carrier, w)
     else
       (let s = session_of (op_session op) w
        in if ss_hydrated s \<or> ss_hydrating s then enter op w
           else (Reading op, put_session (op_session op) (s\<lparr>ss_hydrating := True\<rparr>) w)))"
| "run_coroutine fails (Reading op) w =
    (if fails then enter op (put_session (op_session op) ((session_of (op_session op) w)\<lparr>ss_hydrating := False\<rparr>) w)
     else (Read op (list_pending (sq_rows w)), w))"
| "run_coroutine fails (Read op rows) w =
    enter op (put_session (op_session op) (hydrate (op_session op) rows (session_of (op_session op) w)) w)"
| "run_coroutine fails (Inserting bare r x) w =
    (if fails then (Answered Store_Failed, w)
     else (Selecting bare r x, w\<lparr>sq_rows := store_enqueue r (sq_rows w)\<rparr>))"
| "run_coroutine fails (Selecting bare r x) w =
    (if fails then (Answered Store_Failed, w) else (Selected bare r x (store_get (inj_run r) (sq_rows w)), w))"
| "run_coroutine fails (Selected bare r x found) w =
    (case found of
       None \<Rightarrow> (Answered Store_Failed, w)
     | Some q \<Rightarrow>
         if inj_status q = Injection_Consumed
         then (Answered Already_Consumed, put_session bare (discard_item (inj_run r) (session_of bare w)) w)
         else (Answered (Queued x), w))"
| "run_coroutine fails (Marking bare [] taken) w = finish_drain bare taken w"
| "run_coroutine fails (Marking bare (x # xs) taken) w =
    (let (hit, rows) = (if fails then (False, sq_rows w) else mark_consumed (si_run x) (sq_rows w));
         w' = w\<lparr>sq_rows := rows\<rparr>; taken' = taken @ [(x, hit)]
     in if xs = [] then finish_drain bare taken' w' else (Marking bare xs taken', w'))"
| "run_coroutine fails (Answered a) w = (Answered a, w)"

datatype queue_event = Call queue_op | Resume nat bool | Crash

definition resume_task :: "bool \<Rightarrow> nat \<Rightarrow> steering \<Rightarrow> steering" where
  "resume_task fails k w =
    (case run_coroutine fails (sq_tasks w ! k) w of (c, w') \<Rightarrow> w'\<lparr>sq_tasks := (sq_tasks w)[k := c]\<rparr>)"

fun do_event :: "queue_event \<Rightarrow> steering \<Rightarrow> steering" where
  "do_event (Call op) w = w\<lparr>sq_tasks := sq_tasks w @ [Starting op]\<rparr>"
| "do_event (Resume k fails) w = (if k < length (sq_tasks w) then resume_task fails k w else w)"
| "do_event Crash w = w\<lparr>sq_memory := [], sq_tasks := []\<rparr>"

definition queue_run :: "queue_event list \<Rightarrow> steering" where
  "queue_run es = fold do_event es start_queue"

subsection \<open>The draining middleware\<close>

definition completion_gate_violated :: "string option \<Rightarrow> bool" where
  "completion_gate_violated evidence =
    (case evidence of
       None \<Rightarrow> False
     | Some e \<Rightarrow> e = [] \<or> has_sub ''FAIL'' e \<or> has_sub ''[broken]'' e \<or> has_sub ''[stale]'' e)"

datatype injected_message = Completion carrier | Verification_Gate

definition drained_messages :: "(steering_item \<times> bool) list \<Rightarrow> string option \<Rightarrow> injected_message list option" where
  "drained_messages taken evidence =
    (if taken = [] then None
     else Some (map (\<lambda>(x, _). Completion (si_message x)) taken @
                (if completion_gate_violated evidence then [Verification_Gate] else [])))"

subsection \<open>The queues and the table stay well formed\<close>

definition session_wf :: "session_state \<Rightarrow> bool" where
  "session_wf s \<longleftrightarrow> distinct (map si_run (ss_items s)) \<and>
     (\<forall>r x. dict_get (ss_by_run s) r = Some x \<longleftrightarrow> x \<in> set (ss_items s) \<and> si_run x = r)"

lemma session_wf_fresh [simp]: "session_wf fresh_session"
  by (simp add: session_wf_def fresh_session_def)

lemma session_wf_flags [simp]:
  "session_wf (s\<lparr>ss_hydrating := b\<rparr>) = session_wf s" "session_wf (s\<lparr>ss_hydrated := b\<rparr>) = session_wf s"
  by (simp_all add: session_wf_def)

lemma session_wf_empty [simp]: "session_wf (s\<lparr>ss_items := [], ss_by_run := []\<rparr>)"
  by (simp add: session_wf_def)

lemma session_wfD: "session_wf s \<Longrightarrow> dict_get (ss_by_run s) r = Some x \<longleftrightarrow> x \<in> set (ss_items s) \<and> si_run x = r"
  by (simp add: session_wf_def)

lemma session_wf_distinct: "session_wf s \<Longrightarrow> distinct (map si_run (ss_items s))"
  by (simp add: session_wf_def)

lemma session_wf_new: "session_wf s \<Longrightarrow> dict_get (ss_by_run s) r = None \<longleftrightarrow> r \<notin> si_run ` set (ss_items s)"
proof (cases "dict_get (ss_by_run s) r")
  case None
  assume "session_wf s"
  then show ?thesis using session_wfD [of s r] None by auto
next
  case (Some x)
  assume "session_wf s"
  then have "x \<in> set (ss_items s)" "si_run x = r" using session_wfD [of s r x] Some by auto
  then show ?thesis using Some by auto
qed

lemma session_wf_push:
  assumes "session_wf s" and "dict_get (ss_by_run s) (si_run x) = None"
  shows "session_wf (push_item x s)"
proof -
  have new: "si_run x \<notin> si_run ` set (ss_items s)" using assms session_wf_new by blast
  then have other: "y \<in> set (ss_items s) \<Longrightarrow> si_run y \<noteq> si_run x" for y by (metis imageI)
  have "dict_get (dict_set (si_run x) x (ss_by_run s)) r = Some y \<longleftrightarrow> y \<in> set (ss_items s @ [x]) \<and> si_run y = r" for r y
    using session_wfD [OF assms(1), of r y] other by auto
  then show ?thesis using session_wf_distinct [OF assms(1)] new by (simp add: session_wf_def push_item_def)
qed

lemma run_rebuild [simp]: "si_run (rebuild_item r) = inj_run r"
  by (simp add: si_run_def rebuild_item_def)

lemma session_wf_hydrate: "session_wf s \<Longrightarrow> session_wf (hydrate bare rows s)"
proof -
  have "session_wf s \<Longrightarrow> session_wf (fold (hydrate_row bare) rows s)"
  proof (induction rows arbitrary: s)
    case (Cons r rows)
    have "session_wf (hydrate_row bare r s)" using Cons.prems session_wf_push [of s "rebuild_item r"] by (simp add: hydrate_row_def)
    then show ?case using Cons.IH by simp
  qed simp
  then show "session_wf s \<Longrightarrow> session_wf (hydrate bare rows s)" by (simp add: hydrate_def)
qed

lemma session_wf_discard: "session_wf s \<Longrightarrow> session_wf (discard_item run s)"
proof (cases "dict_get (ss_by_run s) run")
  case (Some x)
  assume wf: "session_wf s"
  then have x: "x \<in> set (ss_items s)" "si_run x = run" using Some session_wfD by auto
  have d: "distinct (map si_run (ss_items s))" by (rule session_wf_distinct [OF wf])
  then have "distinct (ss_items s)" "inj_on si_run (set (ss_items s))" by (simp_all add: distinct_map)
  then have items: "set (remove1 x (ss_items s)) = set (ss_items s) - {x}" by simp
  have same: "y = x" if "y \<in> set (ss_items s)" "si_run y = run" for y
    using \<open>inj_on si_run (set (ss_items s))\<close> x that by (auto dest: inj_onD)
  have "dict_get (dict_pop run (ss_by_run s)) r = Some y \<longleftrightarrow> y \<in> set (remove1 x (ss_items s)) \<and> si_run y = r" for r y
    using session_wfD [OF wf, of r y] x(2) same items by auto
  moreover have "distinct (map si_run (remove1 x (ss_items s)))"
    using \<open>distinct (ss_items s)\<close> \<open>inj_on si_run (set (ss_items s))\<close> items by (simp add: distinct_map inj_on_diff)
  ultimately show ?thesis using Some by (simp add: discard_item_def session_wf_def)
qed (simp add: discard_item_def)

definition memory_wf :: "steering \<Rightarrow> bool" where
  "memory_wf w \<longleftrightarrow> (\<forall>bare. session_wf (session_of bare w))"

lemma session_of_put [simp]: "session_of b (put_session bare s w) = (if b = bare then s else session_of b w)"
  by (simp add: session_of_def put_session_def)

lemma put_session_frame [simp]:
  "sq_rows (put_session bare s w) = sq_rows w" "sq_tasks (put_session bare s w) = sq_tasks w"
  "sq_injected (put_session bare s w) = sq_injected w"
  by (simp_all add: put_session_def)

lemma session_of_frame [simp]:
  "session_of b (w\<lparr>sq_rows := rows\<rparr>) = session_of b w" "session_of b (w\<lparr>sq_tasks := ts\<rparr>) = session_of b w"
  "session_of b (w\<lparr>sq_injected := js\<rparr>) = session_of b w"
  by (simp_all add: session_of_def)

lemma memory_wf_put: "memory_wf w \<Longrightarrow> session_wf s \<Longrightarrow> memory_wf (put_session bare s w)"
  by (simp add: memory_wf_def)

lemma memory_wf_frame [simp]:
  "memory_wf (w\<lparr>sq_rows := rows\<rparr>) = memory_wf w" "memory_wf (w\<lparr>sq_tasks := ts\<rparr>) = memory_wf w"
  "memory_wf (w\<lparr>sq_injected := js\<rparr>) = memory_wf w"
  by (simp_all add: memory_wf_def)

lemma memory_wfD: "memory_wf w \<Longrightarrow> session_wf (session_of bare w)"
  by (simp add: memory_wf_def)

lemma enter_wf: "memory_wf w \<Longrightarrow> memory_wf (snd (enter op w))"
proof (cases op)
  case (Enqueue_Op key m now)
  assume "memory_wf w"
  moreover have "si_run \<lparr>si_record = r, si_message = m\<rparr> = inj_run r" for r by (simp add: si_run_def)
  ultimately show ?thesis
    unfolding Enqueue_Op by (auto simp: Let_def memory_wfD intro!: memory_wf_put session_wf_push split: option.split)
qed (auto simp: Let_def intro!: memory_wf_put)

lemma finish_drain_frame [simp]:
  "sq_rows (snd (finish_drain bare taken w)) = sq_rows w" "sq_tasks (snd (finish_drain bare taken w)) = sq_tasks w"
  "session_of b (snd (finish_drain bare taken w)) = session_of b w"
  "memory_wf (snd (finish_drain bare taken w)) = memory_wf w"
  by (simp_all add: finish_drain_def)

lemma run_coroutine_wf:
  assumes "memory_wf w"
  shows "memory_wf (snd (run_coroutine fails c w))"
proof (cases c)
  case (Marking bare xs taken)
  then show ?thesis using assms by (cases xs) (simp_all add: Let_def case_prod_unfold)
qed (use assms in \<open>auto simp: Let_def memory_wfD intro!: enter_wf memory_wf_put session_wf_hydrate session_wf_discard
      split: option.split\<close>)

definition rows_wf :: "steering \<Rightarrow> bool" where
  "rows_wf w \<longleftrightarrow> keyed inj_run (sq_rows w)"

lemma enter_frame [simp]:
  "sq_rows (snd (enter op w)) = sq_rows w" "sq_tasks (snd (enter op w)) = sq_tasks w" "sq_injected (snd (enter op w)) = sq_injected w"
  by (cases op; auto simp: Let_def split: option.split)+

lemma run_coroutine_tasks [simp]: "sq_tasks (snd (run_coroutine fails c w)) = sq_tasks w"
proof (cases c)
  case (Marking bare xs taken)
  then show ?thesis by (cases xs) (simp_all add: Let_def case_prod_unfold)
qed (auto simp: Let_def split: option.split)

text \<open>What a step does to the table: nothing, an insertion, or the marking of a row.\<close>

lemma run_coroutine_rows:
  "sq_rows (snd (run_coroutine fails c w)) =
    (case c of
       Inserting bare r x \<Rightarrow> if fails then sq_rows w else store_enqueue r (sq_rows w)
     | Marking bare (x # xs) taken \<Rightarrow> if fails then sq_rows w else snd (mark_consumed (si_run x) (sq_rows w))
     | _ \<Rightarrow> sq_rows w)"
proof (cases c)
  case (Marking bare xs taken)
  then show ?thesis by (cases xs) (simp_all add: Let_def case_prod_unfold)
qed (auto simp: Let_def split: option.split)

lemma store_enqueue_keyed: "keyed inj_run rows \<Longrightarrow> keyed inj_run (store_enqueue r rows)"
  by (auto simp: store_enqueue_def keyed_snoc list_ex_iff)

lemma mark_consumed_keyed: "keyed inj_run rows \<Longrightarrow> keyed inj_run (snd (mark_consumed run rows))"
  by (auto simp: mark_consumed_def intro!: keyed_update_where)

lemma run_coroutine_keyed: "rows_wf w \<Longrightarrow> rows_wf (snd (run_coroutine fails c w))"
  unfolding rows_wf_def run_coroutine_rows
  by (auto intro: store_enqueue_keyed mark_consumed_keyed split: coroutine.split list.split)

definition queue_wf :: "steering \<Rightarrow> bool" where
  "queue_wf w \<longleftrightarrow> rows_wf w \<and> memory_wf w"

lemma queue_wf_start: "queue_wf start_queue"
  by (simp add: queue_wf_def rows_wf_def memory_wf_def start_queue_def session_of_def)

lemma resume_task_eq:
  "resume_task fails k w =
    (snd (run_coroutine fails (sq_tasks w ! k) w))\<lparr>sq_tasks := (sq_tasks w)[k := fst (run_coroutine fails (sq_tasks w ! k) w)]\<rparr>"
  by (simp add: resume_task_def case_prod_unfold)

lemma queue_wf_event: "queue_wf w \<Longrightarrow> queue_wf (do_event e w)"
proof (cases e)
  case (Resume k fails)
  assume "queue_wf w"
  then show ?thesis
    using run_coroutine_wf [of w] run_coroutine_keyed [of w]
    by (simp add: Resume resume_task_eq queue_wf_def rows_wf_def)
qed (auto simp: queue_wf_def rows_wf_def memory_wf_def session_of_def)

text \<open>Steps as a relation, to speak of every state that can be reached.\<close>

inductive queue_step :: "steering \<Rightarrow> steering \<Rightarrow> bool" where
  "queue_step w (do_event e w)"

interpretation queue_safety: inv_system "\<lambda>w. w = start_queue" queue_step queue_wf
  by unfold_locales (auto simp: queue_wf_start queue_wf_event elim!: queue_step.cases)

subsection \<open>What has been consumed was injected\<close>

text \<open>The runs that a drain in progress holds.\<close>

fun in_hand :: "coroutine \<Rightarrow> string set" where
  "in_hand (Marking bare xs taken) = si_run ` (set xs \<union> fst ` set taken)"
| "in_hand _ = {}"

definition known_runs :: "steering \<Rightarrow> string set" where
  "known_runs w = inj_run ` set (sq_rows w)"

definition consumed_runs :: "steering \<Rightarrow> string set" where
  "consumed_runs w = inj_run ` {q \<in> set (sq_rows w). inj_status q = Injection_Consumed}"

definition injected_runs :: "steering \<Rightarrow> string set" where
  "injected_runs w = snd ` set (sq_injected w)"

fun task_wf :: "steering \<Rightarrow> coroutine \<Rightarrow> bool" where
  "task_wf w (Inserting bare r x) = (inj_status r = Injection_Pending \<and> inj_run r = si_run x)"
| "task_wf w (Selecting bare r x) = (inj_run r = si_run x \<and> si_run x \<in> known_runs w)"
| "task_wf w (Selected bare r x found) = (inj_run r = si_run x \<and> si_run x \<in> known_runs w)"
| "task_wf w (Answered (Queued x)) = (si_run x \<in> known_runs w)"
| "task_wf w _ = True"

definition accounted :: "steering \<Rightarrow> bool" where
  "accounted w \<longleftrightarrow> queue_wf w \<and> (\<forall>c \<in> set (sq_tasks w). task_wf w c) \<and>
     consumed_runs w \<subseteq> injected_runs w \<union> \<Union> (in_hand ` set (sq_tasks w))"

lemma task_wf_mono: "task_wf w c \<Longrightarrow> known_runs w \<subseteq> known_runs w' \<Longrightarrow> task_wf w' c"
  by (cases "(w, c)" rule: task_wf.cases) auto

lemma store_enqueue_runs: "inj_run ` set (store_enqueue r rows) = insert (inj_run r) (inj_run ` set rows)"
  by (auto simp: store_enqueue_def list_ex_iff intro: rev_image_eqI)

lemma store_enqueue_consumed:
  "inj_status r = Injection_Pending \<Longrightarrow>
    {q \<in> set (store_enqueue r rows). inj_status q = Injection_Consumed} = {q \<in> set rows. inj_status q = Injection_Consumed}"
  by (auto simp: store_enqueue_def)

lemma mark_consumed_runs: "inj_run ` set (snd (mark_consumed run rows)) = inj_run ` set rows"
proof -
  have "map inj_run (snd (mark_consumed run rows)) = map inj_run rows"
    by (simp add: mark_consumed_def update_where_def)
  then show ?thesis by (metis list.set_map)
qed

lemma mark_consumed_consumed:
  "inj_run ` {q \<in> set (snd (mark_consumed run rows)). inj_status q = Injection_Consumed}
     \<subseteq> insert run (inj_run ` {q \<in> set rows. inj_status q = Injection_Consumed})"
  by (auto simp: mark_consumed_def update_where_def injection_open_def split: if_splits)

lemma enter_hand: "in_hand (fst (enter op w)) = {} \<or> (\<exists>bare xs. fst (enter op w) = Marking bare xs [])"
  by (cases op) (auto simp: Let_def split: option.split)

lemma enter_task_wf:
  assumes "memory_wf w"
  shows "task_wf v (fst (enter op w))"
proof (cases op)
  case (Enqueue_Op key m now)
  show ?thesis
  proof (cases "record_from_message m (normalize_session_key key) now")
    case (Some r)
    then have r: "inj_status r = Injection_Pending" by (auto simp: record_from_message_def split: if_splits)
    show ?thesis
    proof (cases "dict_get (ss_by_run (session_of (normalize_session_key key) w)) (inj_run r)")
      case None
      then show ?thesis using Some r by (simp add: Enqueue_Op Let_def si_run_def)
    next
      case (Some x)
      then have "si_run x = inj_run r" using session_wfD memory_wfD [OF assms] by blast
      then show ?thesis using Some r \<open>record_from_message m (normalize_session_key key) now = Some r\<close> by (simp add: Enqueue_Op Let_def)
    qed
  qed (simp add: Enqueue_Op Let_def)
qed (auto simp: Let_def)

lemma store_get_known: "store_get run rows = Some q \<Longrightarrow> inj_run q = run \<and> run \<in> inj_run ` set rows"
  unfolding store_get_def by (auto dest: row_at_Some)

lemma finish_drain_injects:
  "sq_injected (snd (finish_drain bare taken w)) = sq_injected w @ map (\<lambda>(x, _). (bare, si_run x)) taken"
  "fst (finish_drain bare taken w) = Answered (Drained bare taken)"
  by (simp_all add: finish_drain_def)

lemma step_task_wf:
  assumes "memory_wf w" and "task_wf w c"
  shows "task_wf (snd (run_coroutine fails c w)) (fst (run_coroutine fails c w))"
proof (cases c)
  case (Inserting bare r x)
  then show ?thesis using assms(2) by (simp add: known_runs_def store_enqueue_runs)
next
  case (Marking bare xs taken)
  then show ?thesis by (cases xs) (simp_all add: Let_def case_prod_unfold finish_drain_injects)
qed (use assms in \<open>auto simp: Let_def known_runs_def memory_wfD split: option.split
       intro!: enter_task_wf memory_wf_put session_wf_hydrate\<close>)

lemma step_known: "known_runs w \<subseteq> known_runs (snd (run_coroutine fails c w))"
  unfolding known_runs_def run_coroutine_rows
  by (auto simp: store_enqueue_runs mark_consumed_runs split: coroutine.split list.split)

lemma step_injected: "injected_runs w \<subseteq> injected_runs (snd (run_coroutine fails c w))"
proof (cases c)
  case (Marking bare xs taken)
  then show ?thesis by (cases xs) (auto simp: Let_def case_prod_unfold injected_runs_def finish_drain_injects)
qed (auto simp: Let_def injected_runs_def split: option.split)

lemma step_consumed:
  assumes "task_wf w c"
  shows "consumed_runs (snd (run_coroutine fails c w)) \<subseteq> consumed_runs w \<union> in_hand c"
proof (cases c)
  case (Inserting bare r x)
  then show ?thesis using assms unfolding consumed_runs_def run_coroutine_rows by (simp add: store_enqueue_consumed)
next
  case (Marking bare xs taken)
  then show ?thesis using mark_consumed_consumed [of _ "sq_rows w"]
    unfolding consumed_runs_def run_coroutine_rows by (cases xs) (auto simp: subset_iff)
qed (unfold consumed_runs_def run_coroutine_rows, simp_all)

lemma step_hand: "in_hand c \<subseteq> in_hand (fst (run_coroutine fails c w)) \<union> injected_runs (snd (run_coroutine fails c w))"
proof (cases c)
  case (Marking bare xs taken)
  then show ?thesis
    by (cases xs) (force simp: Let_def case_prod_unfold injected_runs_def finish_drain_injects)+
qed auto

lemma known_frame [simp]: "known_runs (w\<lparr>sq_tasks := ts\<rparr>) = known_runs w" "consumed_runs (w\<lparr>sq_tasks := ts\<rparr>) = consumed_runs w"
  "injected_runs (w\<lparr>sq_tasks := ts\<rparr>) = injected_runs w"
  by (simp_all add: known_runs_def consumed_runs_def injected_runs_def)

lemma accounted_resume:
  assumes "accounted w" and "k < length (sq_tasks w)"
  shows "accounted (resume_task fails k w)"
proof -
  let ?c = "sq_tasks w ! k"
  let ?c' = "fst (run_coroutine fails ?c w)" and ?w' = "snd (run_coroutine fails ?c w)"
  let ?ts = "(sq_tasks w)[k := ?c']"
  have c: "?c \<in> set (sq_tasks w)" "task_wf w ?c" "memory_wf w" using assms by (auto simp: accounted_def queue_wf_def)
  have tasks: "\<forall>d \<in> set ?ts. task_wf (?w'\<lparr>sq_tasks := ?ts\<rparr>) d"
  proof
    fix d assume "d \<in> set ?ts"
    then consider "d = ?c'" | "d \<in> set (sq_tasks w)" using set_update_subset_insert by fastforce
    then have "task_wf ?w' d"
      by cases (use step_task_wf [OF c(3,2)] assms(1) task_wf_mono [OF _ step_known] in \<open>auto simp: accounted_def\<close>)
    then show "task_wf (?w'\<lparr>sq_tasks := ?ts\<rparr>) d" by (rule task_wf_mono) simp
  qed
  have kept: "in_hand d \<subseteq> injected_runs ?w' \<union> \<Union> (in_hand ` set ?ts)" if mem: "d \<in> set (sq_tasks w)" for d
  proof -
    obtain j where j: "j < length (sq_tasks w)" "d = sq_tasks w ! j" using mem by (auto simp: in_set_conv_nth)
    show ?thesis
    proof (cases "j = k")
      case True
      have "?c' \<in> set ?ts" by (rule set_update_memI [OF assms(2)])
      with step_hand [of ?c fails w] True j show ?thesis by blast
    next
      case False
      then have "d = ?ts ! j" using j by simp
      then have "d \<in> set ?ts" using j(1) by (metis length_list_update nth_mem)
      then show ?thesis by blast
    qed
  qed
  have "consumed_runs ?w' \<subseteq> consumed_runs w \<union> in_hand ?c" by (rule step_consumed [OF c(2)])
  also have "\<dots> \<subseteq> injected_runs w \<union> \<Union> (in_hand ` set (sq_tasks w))" using assms(1) c(1) by (auto simp: accounted_def)
  also have "\<dots> \<subseteq> injected_runs ?w' \<union> \<Union> (in_hand ` set ?ts)" using step_injected [of w fails ?c] kept by blast
  finally show ?thesis
    using queue_wf_event [of w "Resume k fails"] assms tasks
    by (simp add: accounted_def resume_task_eq)
qed

text \<open>An orderly history: the process is not restarted while a drain holds items.\<close>

definition is_marking :: "coroutine \<Rightarrow> bool" where
  "is_marking c = (case c of Marking _ _ _ \<Rightarrow> True | _ \<Rightarrow> False)"

definition orderly :: "queue_event \<Rightarrow> steering \<Rightarrow> bool" where
  "orderly e w = (e \<noteq> Crash \<or> \<not> list_ex is_marking (sq_tasks w))"

inductive orderly_step :: "steering \<Rightarrow> steering \<Rightarrow> bool" where
  "orderly e w \<Longrightarrow> orderly_step w (do_event e w)"

lemma accounted_event:
  assumes "accounted w" and "orderly e w"
  shows "accounted (do_event e w)"
proof (cases e)
  case (Call op)
  have "task_wf (w\<lparr>sq_tasks := sq_tasks w @ [Starting op]\<rparr>) c" if "task_wf w c" for c
    by (rule task_wf_mono [OF that]) simp
  then show ?thesis
    using assms(1) queue_wf_event [of w e] by (auto simp: Call accounted_def)
next
  case (Resume k fails)
  then show ?thesis using assms(1) accounted_resume by simp
next
  case Crash
  then have "\<not> is_marking c" if "c \<in> set (sq_tasks w)" for c using assms(2) that by (auto simp: orderly_def list_ex_iff)
  moreover have "\<not> is_marking c \<Longrightarrow> in_hand c = {}" for c by (cases c) (simp_all add: is_marking_def)
  ultimately have "\<Union> (in_hand ` set (sq_tasks w)) = {}" by simp
  then show ?thesis
    using assms(1) queue_wf_event [of w Crash]
    by (auto simp: Crash accounted_def consumed_runs_def injected_runs_def)
qed

lemma accounted_start: "accounted start_queue"
  using queue_wf_start by (simp add: accounted_def consumed_runs_def) (simp add: start_queue_def)

interpretation queue_history: inv_system "\<lambda>w. w = start_queue" orderly_step accounted
  by unfold_locales (auto simp: accounted_start accounted_event elim!: orderly_step.cases)

lemma step_known_event: "known_runs w \<subseteq> known_runs (do_event e w)"
proof (cases e)
  case (Resume k fails)
  then show ?thesis using step_known [of w] by (simp add: resume_task_eq)
qed (simp_all add: known_runs_def)

lemma steps_known: "orderly_step\<^sup>*\<^sup>* w w' \<Longrightarrow> known_runs w \<subseteq> known_runs w'"
  by (induction rule: rtranclp_induct) (use step_known_event in \<open>blast elim: orderly_step.cases\<close>)+

subsection \<open>One operation at a time\<close>

text \<open>
  A serial history: an operation is only called when all earlier ones have answered, no statement
  fails, and the completion of a run is always sent to the same session. Restarts may come at any time.
\<close>

fun answered :: "coroutine \<Rightarrow> bool" where
  "answered (Answered _) = True"
| "answered _ = False"

definition active :: "steering \<Rightarrow> coroutine list" where
  "active w = filter (\<lambda>c. \<not> answered c) (sq_tasks w)"

fun op_owned :: "(string \<Rightarrow> text_id) \<Rightarrow> queue_op \<Rightarrow> bool" where
  "op_owned owner (Enqueue_Op key m now) = (truthy_text (ca_run m) \<longrightarrow> owner (the (ca_run m)) = normalize_session_key key)"
| "op_owned owner _ = True"

fun serial :: "(string \<Rightarrow> text_id) \<Rightarrow> queue_event \<Rightarrow> steering \<Rightarrow> bool" where
  "serial owner (Call op) w = (active w = [] \<and> op_owned owner op)"
| "serial owner (Resume k fails) w = (\<not> fails)"
| "serial owner Crash w = True"

definition pending_runs :: "steering \<Rightarrow> string set" where
  "pending_runs w = inj_run ` {q \<in> set (sq_rows w). inj_status q = Injection_Pending}"

fun owing :: "coroutine \<Rightarrow> string set" where
  "owing (Inserting bare r x) = {inj_run r}"
| "owing (Selecting bare r x) = {inj_run r}"
| "owing (Selected bare r x found) = {inj_run r}"
| "owing _ = {}"

definition serial_core :: "(string \<Rightarrow> text_id) \<Rightarrow> string set \<Rightarrow> steering \<Rightarrow> bool" where
  "serial_core owner S w \<longleftrightarrow> queue_wf w \<and> distinct (map snd (sq_injected w)) \<and> injected_runs w \<subseteq> consumed_runs w \<and>
     (\<forall>q \<in> set (sq_rows w). inj_session q = owner (inj_run q)) \<and>
     (\<forall>bare. \<forall>x \<in> set (ss_items (session_of bare w)). owner (si_run x) = bare \<and> si_run x \<in> pending_runs w \<union> S)"

fun serial_task :: "(string \<Rightarrow> text_id) \<Rightarrow> steering \<Rightarrow> coroutine \<Rightarrow> bool" where
  "serial_task owner w (Starting op) = op_owned owner op"
| "serial_task owner w (Reading op) = op_owned owner op"
| "serial_task owner w (Read op rows) = (op_owned owner op \<and> set rows \<subseteq> {q \<in> set (sq_rows w). inj_status q = Injection_Pending})"
| "serial_task owner w (Inserting bare r x) =
    (inj_status r = Injection_Pending \<and> inj_session r = bare \<and> owner (inj_run r) = bare)"
| "serial_task owner w (Selecting bare r x) = (inj_run r \<in> known_runs w \<and> owner (inj_run r) = bare)"
| "serial_task owner w (Selected bare r x found) =
    (owner (inj_run r) = bare \<and> (case found of None \<Rightarrow> False | Some q \<Rightarrow> q \<in> set (sq_rows w) \<and> inj_run q = inj_run r))"
| "serial_task owner w (Marking bare xs taken) =
    (ss_items (session_of bare w) = [] \<and> distinct (map si_run (map fst taken @ xs)) \<and>
     (\<forall>x \<in> set xs. owner (si_run x) = bare \<and> si_run x \<in> pending_runs w) \<and>
     (\<forall>x \<in> fst ` set taken. si_run x \<in> consumed_runs w - injected_runs w))"
| "serial_task owner w (Answered a) = True"

definition serial_inv :: "(string \<Rightarrow> text_id) \<Rightarrow> steering \<Rightarrow> bool" where
  "serial_inv owner w \<longleftrightarrow>
    (case active w of
       [] \<Rightarrow> serial_core owner {} w
     | [c] \<Rightarrow> serial_core owner (owing c) w \<and> serial_task owner w c
     | _ \<Rightarrow> False)"

lemma pending_not_consumed:
  assumes "rows_wf w" and "run \<in> pending_runs w"
  shows "run \<notin> consumed_runs w"
proof
  assume "run \<in> consumed_runs w"
  then obtain p where p: "p \<in> set (sq_rows w)" "inj_status p = Injection_Consumed" "inj_run p = run"
    by (auto simp: consumed_runs_def)
  obtain q where q: "q \<in> set (sq_rows w)" "inj_status q = Injection_Pending" "inj_run q = run"
    using assms(2) by (auto simp: pending_runs_def)
  have "p = q" using keyed_inj [of inj_run "sq_rows w" p q] assms(1) p q by (simp add: rows_wf_def)
  then show False using p(2) q(2) by simp
qed

lemma known_split: "known_runs w = pending_runs w \<union> consumed_runs w"
proof -
  have "set (sq_rows w) = {q \<in> set (sq_rows w). inj_status q = Injection_Pending} \<union> {q \<in> set (sq_rows w). inj_status q = Injection_Consumed}"
    using injection_status.exhaust by blast
  then show ?thesis unfolding known_runs_def pending_runs_def consumed_runs_def by (metis image_Un)
qed

lemma runs_frame [simp]:
  "pending_runs (put_session bare s w) = pending_runs w" "consumed_runs (put_session bare s w) = consumed_runs w"
  "injected_runs (put_session bare s w) = injected_runs w" "known_runs (put_session bare s w) = known_runs w"
  "pending_runs (w\<lparr>sq_tasks := ts\<rparr>) = pending_runs w"
  by (simp_all add: pending_runs_def consumed_runs_def injected_runs_def known_runs_def)

lemma core_items:
  "serial_core owner S w \<Longrightarrow> x \<in> set (ss_items (session_of bare w)) \<Longrightarrow> owner (si_run x) = bare \<and> si_run x \<in> pending_runs w \<union> S"
  by (simp add: serial_core_def)

lemma core_session:
  assumes "serial_core owner S w" and "session_wf s"
    and "\<And>x. x \<in> set (ss_items s) \<Longrightarrow> owner (si_run x) = bare \<and> si_run x \<in> pending_runs w \<union> S'" and "S \<subseteq> S'"
  shows "serial_core owner S' (put_session bare s w)"
proof -
  have "owner (si_run x) = b \<and> si_run x \<in> pending_runs w \<union> S'" if "x \<in> set (ss_items (session_of b (put_session bare s w)))" for b x
    using that assms(3,4) core_items [OF assms(1), of x b] by (cases "b = bare") auto
  then show ?thesis using assms(1,2) by (simp add: serial_core_def queue_wf_def rows_wf_def memory_wf_put)
qed

lemma core_shrink:
  assumes "serial_core owner S w" and "S \<subseteq> pending_runs w \<union> S'"
  shows "serial_core owner S' w"
proof -
  have "owner (si_run x) = bare \<and> si_run x \<in> pending_runs w \<union> S'" if "x \<in> set (ss_items (session_of bare w))" for bare x
    using core_items [OF assms(1) that] assms(2) by blast
  then show ?thesis using assms(1) unfolding serial_core_def by blast
qed

lemma core_wf: "serial_core owner S w \<Longrightarrow> session_wf (session_of bare w)"
  by (simp add: serial_core_def queue_wf_def memory_wfD)

lemma items_flags [simp]:
  "ss_items (s\<lparr>ss_hydrating := b\<rparr>) = ss_items s" "ss_items (push_item x s) = ss_items s @ [x]"
  by (simp_all add: push_item_def)

text \<open>The memory section of an operation.\<close>

lemma serial_enter:
  assumes "serial_core owner {} w" and "op_owned owner op"
  shows "serial_core owner (owing (fst (enter op w))) (snd (enter op w)) \<and> serial_task owner (snd (enter op w)) (fst (enter op w))"
proof (cases op)
  case (Enqueue_Op key m now)
  let ?bare = "normalize_session_key key"
  show ?thesis
  proof (cases "record_from_message m ?bare now")
    case None
    then show ?thesis using assms(1) by (simp add: Enqueue_Op Let_def)
  next
    case (Some r)
    then have r: "inj_status r = Injection_Pending" "inj_session r = ?bare" "owner (inj_run r) = ?bare"
      using assms(2) by (auto simp: Enqueue_Op record_from_message_def split: if_splits)
    show ?thesis
    proof (cases "dict_get (ss_by_run (session_of ?bare w)) (inj_run r)")
      case None
      let ?x = "\<lparr>si_record = r, si_message = m\<rparr>"
      have run: "si_run ?x = inj_run r" by (simp add: si_run_def)
      have "serial_core owner {inj_run r} (put_session ?bare (push_item ?x (session_of ?bare w)) w)"
      proof (rule core_session [OF assms(1)])
        show "session_wf (push_item ?x (session_of ?bare w))"
          using session_wf_push [OF core_wf [OF assms(1)], of ?bare ?x] None run by simp
        show "owner (si_run x) = ?bare \<and> si_run x \<in> pending_runs w \<union> {inj_run r}"
          if "x \<in> set (ss_items (push_item ?x (session_of ?bare w)))" for x
          using that core_items [OF assms(1)] r(3) run by auto
      qed simp
      then show ?thesis using Some None r by (simp add: Enqueue_Op Let_def)
    next
      case (Some x)
      have "serial_core owner {inj_run r} w" using assms(1) by (auto simp: serial_core_def)
      then show ?thesis
        using Some r \<open>record_from_message m ?bare now = Some r\<close> by (simp add: Enqueue_Op Let_def)
    qed
  qed
next
  case (Drain_Op key)
  let ?bare = "normalize_session_key key"
  let ?s = "session_of ?bare w"
  have "serial_core owner {} (put_session ?bare (?s\<lparr>ss_items := [], ss_by_run := []\<rparr>) w)"
    by (rule core_session [OF assms(1)]) simp_all
  then show ?thesis
    using core_items [OF assms(1), of _ ?bare] session_wf_distinct [OF core_wf [OF assms(1)], of ?bare]
    by (simp add: Drain_Op Let_def)
next
  case (Rehydrate_Op key)
  then show ?thesis using assms(1) by simp
qed

text \<open>The statements of the store.\<close>

lemma core_rows:
  assumes "serial_core owner S w" and "keyed inj_run rows" and "\<forall>q \<in> set rows. inj_session q = owner (inj_run q)"
    and "consumed_runs w \<subseteq> consumed_runs (w\<lparr>sq_rows := rows\<rparr>)"
    and "\<And>bare x. x \<in> set (ss_items (session_of bare w)) \<Longrightarrow> si_run x \<in> pending_runs (w\<lparr>sq_rows := rows\<rparr>) \<union> S"
  shows "serial_core owner S (w\<lparr>sq_rows := rows\<rparr>)"
proof -
  have "injected_runs (w\<lparr>sq_rows := rows\<rparr>) = injected_runs w" by (simp add: injected_runs_def)
  moreover have "owner (si_run x) = bare" if "x \<in> set (ss_items (session_of bare w))" for bare x
    using core_items [OF assms(1) that] by simp
  ultimately show ?thesis using assms by (simp add: serial_core_def queue_wf_def rows_wf_def) blast
qed

lemma serial_insert:
  assumes "serial_core owner {inj_run r} w" and "inj_status r = Injection_Pending" and "inj_session r = owner (inj_run r)"
  shows "serial_core owner {inj_run r} (w\<lparr>sq_rows := store_enqueue r (sq_rows w)\<rparr>)"
proof (rule core_rows [OF assms(1)])
  show "keyed inj_run (store_enqueue r (sq_rows w))"
    using assms(1) store_enqueue_keyed by (simp add: serial_core_def queue_wf_def rows_wf_def)
  show "\<forall>q \<in> set (store_enqueue r (sq_rows w)). inj_session q = owner (inj_run q)"
    using assms(1,3) by (auto simp: serial_core_def store_enqueue_def)
  show "consumed_runs w \<subseteq> consumed_runs (w\<lparr>sq_rows := store_enqueue r (sq_rows w)\<rparr>)"
    by (simp add: consumed_runs_def store_enqueue_consumed [OF assms(2)])
  have "pending_runs w \<subseteq> pending_runs (w\<lparr>sq_rows := store_enqueue r (sq_rows w)\<rparr>)"
    by (auto simp: pending_runs_def store_enqueue_def)
  then show "si_run x \<in> pending_runs (w\<lparr>sq_rows := store_enqueue r (sq_rows w)\<rparr>) \<union> {inj_run r}"
    if "x \<in> set (ss_items (session_of bare w))" for bare x
    using core_items [OF assms(1) that] by auto
qed

lemma kept_image: "(\<And>q. g (f q) = g q) \<Longrightarrow> g ` {q \<in> f ` A. P q} = g ` {q \<in> A. P (f q)}"
  by (auto simp: image_iff) metis+

lemma mark_moves:
  assumes "rows_wf w" and "run \<in> pending_runs w"
  defines "w' \<equiv> w\<lparr>sq_rows := snd (mark_consumed run (sq_rows w))\<rparr>"
  shows "pending_runs w' = pending_runs w - {run}" and "consumed_runs w' = insert run (consumed_runs w)"
    and "fst (mark_consumed run (sq_rows w))"
proof -
  let ?f = "\<lambda>q. if injection_open run q then q\<lparr>inj_status := Injection_Consumed\<rparr> else q"
  have rows: "set (sq_rows w') = ?f ` set (sq_rows w)" by (simp add: w'_def mark_consumed_def update_where_def)
  have runs: "inj_run ` {q \<in> set (sq_rows w'). P q} = inj_run ` {q \<in> set (sq_rows w). P (?f q)}" for P
    unfolding rows by (rule kept_image) simp
  have "pending_runs w' = inj_run ` {q \<in> set (sq_rows w). inj_status q = Injection_Pending \<and> inj_run q \<noteq> run}"
    unfolding pending_runs_def runs by (rule arg_cong [where f = "image inj_run"]) (auto simp: injection_open_def)
  then show "pending_runs w' = pending_runs w - {run}" by (auto simp: pending_runs_def)
  have "consumed_runs w' = inj_run ` {q \<in> set (sq_rows w). inj_status q = Injection_Consumed \<or> injection_open run q}"
    unfolding consumed_runs_def runs by (rule arg_cong [where f = "image inj_run"]) (auto simp: injection_open_def)
  also have "\<dots> = consumed_runs w \<union> inj_run ` {q \<in> set (sq_rows w). injection_open run q}"
    by (auto simp: consumed_runs_def)
  also have "inj_run ` {q \<in> set (sq_rows w). injection_open run q} = {run}"
    using assms(2) by (auto simp: pending_runs_def injection_open_def)
  finally show "consumed_runs w' = insert run (consumed_runs w)" by simp
  show "fst (mark_consumed run (sq_rows w))"
    using assms(2) by (auto simp: mark_consumed_def pending_runs_def injection_open_def list_ex_iff)
qed

lemma serial_mark:
  assumes "serial_core owner {} w" and "serial_task owner w (Marking bare (x # xs) taken)"
  defines "w' \<equiv> w\<lparr>sq_rows := snd (mark_consumed (si_run x) (sq_rows w))\<rparr>"
  shows "serial_core owner {} w' \<and> serial_task owner w' (Marking bare xs (taken @ [(x, True)]))"
proof -
  have wf: "rows_wf w" using assms(1) by (simp add: serial_core_def queue_wf_def)
  have x: "si_run x \<in> pending_runs w" "ss_items (session_of bare w) = []" "owner (si_run x) = bare" using assms(2) by simp_all
  note moves = mark_moves [OF wf x(1), folded w'_def]
  have inj: "injected_runs w' = injected_runs w" by (simp add: w'_def injected_runs_def)
  have fresh: "si_run x \<notin> injected_runs w" using assms(1) pending_not_consumed [OF wf x(1)] by (auto simp: serial_core_def)
  have other: "si_run y \<noteq> si_run x" if "y \<in> set (ss_items (session_of b w))" for y b
    using core_items [OF assms(1) that] x(2,3) that by force
  have "serial_core owner {} w'"
    unfolding w'_def
  proof (rule core_rows [OF assms(1)])
    show "keyed inj_run (snd (mark_consumed (si_run x) (sq_rows w)))" using wf mark_consumed_keyed by (simp add: rows_wf_def)
    show "\<forall>q \<in> set (snd (mark_consumed (si_run x) (sq_rows w))). inj_session q = owner (inj_run q)"
      using assms(1) by (auto simp: serial_core_def mark_consumed_def update_where_def)
    show "consumed_runs w \<subseteq> consumed_runs (w\<lparr>sq_rows := snd (mark_consumed (si_run x) (sq_rows w))\<rparr>)"
      using moves(2) by (auto simp: w'_def)
    show "si_run y \<in> pending_runs (w\<lparr>sq_rows := snd (mark_consumed (si_run x) (sq_rows w))\<rparr>) \<union> {}"
      if "y \<in> set (ss_items (session_of b w))" for b y
      using core_items [OF assms(1) that] moves(1) other [OF that] by (simp add: w'_def)
  qed
  moreover have "session_of bare w' = session_of bare w" by (simp add: w'_def)
  moreover have "si_run y \<noteq> si_run x" if "y \<in> set xs" for y
  proof -
    have "distinct (map si_run (map fst taken @ x # xs))" using assms(2) by (simp only: serial_task.simps)
    then have "si_run x \<notin> si_run ` set xs" by simp
    then show ?thesis using that by (metis imageI)
  qed
  ultimately show ?thesis
    using assms(2) moves(1,2) inj fresh by simp
qed

lemma serial_finish:
  assumes "serial_core owner {} w" and "serial_task owner w (Marking bare [] taken)"
  shows "serial_core owner {} (snd (finish_drain bare taken w))"
proof -
  let ?w = "snd (finish_drain bare taken w)"
  have runs: "map snd (sq_injected ?w) = map snd (sq_injected w) @ map si_run (map fst taken)"
    by (simp add: finish_drain_def case_prod_unfold)
  then have "injected_runs ?w = injected_runs w \<union> si_run ` fst ` set taken"
    unfolding injected_runs_def by (metis list.set_map set_append)
  moreover have "consumed_runs ?w = consumed_runs w" "pending_runs ?w = pending_runs w" "queue_wf ?w = queue_wf w"
    by (simp_all add: consumed_runs_def pending_runs_def queue_wf_def rows_wf_def)
  moreover have "distinct (map snd (sq_injected ?w))"
  proof -
    have "si_run x \<notin> set (map snd (sq_injected w))" if "x \<in> fst ` set taken" for x
    proof -
      have "si_run x \<in> consumed_runs w - injected_runs w" using assms(2) that by (simp only: serial_task.simps)
      then show ?thesis by (simp add: injected_runs_def)
    qed
    then have "set (map snd (sq_injected w)) \<inter> si_run ` fst ` set taken = {}" by blast
    moreover have "set (map si_run (map fst taken)) = si_run ` fst ` set taken" by (simp only: set_map)
    moreover have "distinct (map snd (sq_injected w))" "distinct (map si_run (map fst taken))"
      using assms by (simp_all add: serial_core_def)
    ultimately show ?thesis unfolding runs distinct_append by simp
  qed
  ultimately show ?thesis using assms by (auto simp: serial_core_def)
qed

text \<open>Every step of the coroutine that is under way.\<close>

lemma hydrated_items:
  "x \<in> set (ss_items (hydrate bare rows s)) \<Longrightarrow>
    x \<in> set (ss_items s) \<or> (\<exists>r \<in> set rows. x = rebuild_item r \<and> normalize_session_key (inj_session r) = bare)"
proof -
  have "x \<in> set (ss_items (fold (hydrate_row bare) rows s)) \<Longrightarrow>
    x \<in> set (ss_items s) \<or> (\<exists>r \<in> set rows. x = rebuild_item r \<and> normalize_session_key (inj_session r) = bare)"
    by (induction rows arbitrary: s) (fastforce simp: hydrate_row_def split: if_splits)+
  then show "x \<in> set (ss_items (hydrate bare rows s)) \<Longrightarrow>
    x \<in> set (ss_items s) \<or> (\<exists>r \<in> set rows. x = rebuild_item r \<and> normalize_session_key (inj_session r) = bare)"
    by (simp add: hydrate_def)
qed

lemma discarded_items:
  assumes "session_wf s" and "x \<in> set (ss_items (discard_item run s))"
  shows "x \<in> set (ss_items s) \<and> si_run x \<noteq> run"
proof (cases "dict_get (ss_by_run s) run")
  case None
  then have "run \<notin> si_run ` set (ss_items s)" using session_wf_new [OF assms(1)] by blast
  then show ?thesis using assms(2) None by (auto simp: discard_item_def)
next
  case (Some y)
  have wf: "session_wf (discard_item run s)" by (rule session_wf_discard [OF assms(1)])
  have "dict_get (ss_by_run (discard_item run s)) run = None" using Some by (simp add: discard_item_def)
  then have "run \<notin> si_run ` set (ss_items (discard_item run s))" using session_wf_new [OF wf] by blast
  moreover have "x \<in> set (ss_items s)" using assms(2) Some set_remove1_subset by (fastforce simp: discard_item_def)
  ultimately show ?thesis using assms(2) by auto
qed

lemma serial_coroutine:
  assumes "serial_core owner (owing c) w" and "serial_task owner w c" and "\<And>r. normalize_session_key (owner r) = owner r"
  shows "serial_core owner (owing (fst (run_coroutine False c w))) (snd (run_coroutine False c w)) \<and>
    serial_task owner (snd (run_coroutine False c w)) (fst (run_coroutine False c w))"
proof (cases c)
  case (Starting op)
  let ?s = "session_of (op_session op) w"
  have core: "serial_core owner {} w" using assms(1) Starting by simp
  have "serial_core owner {} (put_session (op_session op) (?s\<lparr>ss_hydrating := True\<rparr>) w)"
    by (rule core_session [OF core]) (use core_wf [OF core] core_items [OF core] in auto)
  then show ?thesis using serial_enter [OF core] assms(2) core by (simp add: Starting Let_def)
next
  case (Reading op)
  then show ?thesis using assms by (auto simp: list_pending_def)
next
  case (Read op rows)
  let ?bare = "op_session op"
  have core: "serial_core owner {} w" using assms(1) Read by simp
  have "owner (si_run x) = ?bare \<and> si_run x \<in> pending_runs w \<union> {}"
    if x: "x \<in> set (ss_items (hydrate ?bare rows (session_of ?bare w)))" for x
    using hydrated_items [OF x]
  proof
    assume "\<exists>r \<in> set rows. x = rebuild_item r \<and> normalize_session_key (inj_session r) = ?bare"
    then obtain r where r: "r \<in> set rows" "x = rebuild_item r" "normalize_session_key (inj_session r) = ?bare" by blast
    then have q: "r \<in> set (sq_rows w)" "inj_status r = Injection_Pending" using assms(2) Read by auto
    then have "inj_session r = owner (inj_run r)" using core by (simp add: serial_core_def)
    then show ?thesis using r q assms(3) by (auto simp: pending_runs_def)
  qed (use core_items [OF core] in simp)
  then have "serial_core owner {} (put_session ?bare (hydrate ?bare rows (session_of ?bare w)) w)"
    by (intro core_session [OF core]) (auto intro: session_wf_hydrate core_wf [OF core])
  from serial_enter [OF this] show ?thesis using assms(2) by (simp add: Read)
next
  case (Inserting bare r x)
  then show ?thesis using serial_insert [of owner r w] assms(1,2) by (simp add: known_runs_def store_enqueue_runs)
next
  case (Selecting bare r x)
  then have "inj_run r \<in> known_runs w" using assms(2) by simp
  then obtain q where "store_get (inj_run r) (sq_rows w) = Some q"
    unfolding store_get_def known_runs_def by (cases "row_at inj_run (inj_run r) (sq_rows w)") (auto simp: row_at_None)
  then show ?thesis using assms(1,2) Selecting by (auto simp: store_get_def dest: row_at_Some)
next
  case (Selected bare r x found)
  then obtain q where q: "found = Some q" "q \<in> set (sq_rows w)" "inj_run q = inj_run r" "owner (inj_run r) = bare"
    using assms(2) by (auto split: option.splits)
  have core: "serial_core owner {inj_run r} w" using assms(1) Selected by simp
  show ?thesis
  proof (cases "inj_status q = Injection_Consumed")
    case True
    have items: "y \<in> set (ss_items (session_of bare (put_session bare (discard_item (inj_run r) (session_of bare w)) w))) \<Longrightarrow>
        si_run y \<noteq> inj_run r" for y
      using discarded_items [OF core_wf [OF core]] by simp
    have "serial_core owner {inj_run r} (put_session bare (discard_item (inj_run r) (session_of bare w)) w)"
      by (rule core_session [OF core])
        (use session_wf_discard [OF core_wf [OF core]] discarded_items [OF core_wf [OF core]] core_items [OF core] in blast)+
    moreover have "si_run y \<noteq> inj_run r"
      if "y \<in> set (ss_items (session_of b (put_session bare (discard_item (inj_run r) (session_of bare w)) w)))" for b y
    proof (cases "b = bare")
      case False
      then have "owner (si_run y) = b" using core_items [OF core] that by simp
      then show ?thesis using q(4) False by auto
    qed (use items that in simp)
    ultimately have "serial_core owner {} (put_session bare (discard_item (inj_run r) (session_of bare w)) w)"
      by (auto simp: serial_core_def)
    then show ?thesis using q(1) True Selected by simp
  next
    case False
    then have "inj_status q = Injection_Pending" by (cases "inj_status q") simp_all
    then have "inj_run r \<in> pending_runs w" using q(2,3) unfolding pending_runs_def by (metis (mono_tags, lifting) image_eqI mem_Collect_eq)
    then have "serial_core owner {} w" by (intro core_shrink [OF core]) simp
    then show ?thesis using q(1) False Selected by simp
  qed
next
  case (Marking bare xs taken)
  then show ?thesis
  proof (cases xs)
    case Nil
    then show ?thesis using serial_finish [of owner w bare taken] assms(1,2) Marking by (simp add: finish_drain_injects)
  next
    case (Cons x ys)
    let ?w = "w\<lparr>sq_rows := snd (mark_consumed (si_run x) (sq_rows w))\<rparr>"
    have core: "serial_core owner {} w" and task: "serial_task owner w (Marking bare (x # ys) taken)"
      using assms(1,2) Marking Cons by simp_all
    have hit: "fst (mark_consumed (si_run x) (sq_rows w))"
      using mark_moves(3) [of w "si_run x"] core task by (simp add: serial_core_def queue_wf_def)
    note marked = serial_mark [OF core task]
    show ?thesis
    proof (cases "ys = []")
      case True
      then have "serial_core owner {} (snd (finish_drain bare (taken @ [(x, True)]) ?w))"
        using marked serial_finish [of owner ?w bare "taken @ [(x, True)]"] by simp
      then show ?thesis using Marking Cons True hit by (simp add: Let_def case_prod_unfold finish_drain_injects)
    next
      case False
      then show ?thesis using marked Marking Cons hit by (simp add: Let_def case_prod_unfold)
    qed
  qed
next
  case (Answered a)
  then show ?thesis using assms by simp
qed

lemma core_tasks [simp]: "serial_core owner S (w\<lparr>sq_tasks := ts\<rparr>) = serial_core owner S w"
  by (simp add: serial_core_def queue_wf_def rows_wf_def injected_runs_def)

lemma serial_task_tasks [simp]: "serial_task owner (w\<lparr>sq_tasks := ts\<rparr>) c = serial_task owner w c"
  by (cases c) (auto simp: known_runs_def split: option.split)

lemma owing_answered: "answered c \<Longrightarrow> owing c = {}"
  by (cases c) simp_all

lemma filter_single_update:
  assumes "k < length xs" and "P (xs ! k)" and "filter P xs = [y]"
  shows "y = xs ! k" and "filter P (xs[k := z]) = (if P z then [z] else [])"
proof -
  have xs: "xs = take k xs @ xs ! k # drop (Suc k) xs" by (rule id_take_nth_drop [OF assms(1)])
  then have "filter P (take k xs) @ xs ! k # filter P (drop (Suc k) xs) = [y]" using assms(2,3) by (metis filter.simps(2) filter_append)
  then have parts: "filter P (take k xs) = []" "filter P (drop (Suc k) xs) = []" and "y = xs ! k"
    by (auto simp: append_eq_Cons_conv)
  then show "y = xs ! k" by simp
  show "filter P (xs[k := z]) = (if P z then [z] else [])"
    using parts assms(1) by (simp add: upd_conv_take_nth_drop)
qed

lemma answered_stays: "answered c \<Longrightarrow> run_coroutine fails c w = (c, w)"
  by (cases c) simp_all

lemma serial_event:
  assumes "serial_inv owner w" and "serial owner e w" and "\<And>r. normalize_session_key (owner r) = owner r"
  shows "serial_inv owner (do_event e w)"
proof (cases e)
  case (Call op)
  then have "active w = []" "op_owned owner op" using assms(2) by simp_all
  then have "active (do_event e w) = [Starting op]" by (simp add: Call active_def)
  then show ?thesis using assms(1) \<open>active w = []\<close> \<open>op_owned owner op\<close> by (simp add: serial_inv_def Call)
next
  case Crash
  have "serial_core owner S w \<Longrightarrow> serial_core owner {} (do_event Crash w)" for S
    by (auto simp: serial_core_def queue_wf_def rows_wf_def memory_wf_def injected_runs_def consumed_runs_def session_of_def fresh_session_def
        session_wf_def)
  moreover have "active (do_event Crash w) = []" by (simp add: active_def)
  ultimately show ?thesis using assms(1) by (auto simp: Crash serial_inv_def split: list.splits)
next
  case (Resume k fails)
  then have ok: "\<not> fails" using assms(2) by simp
  show ?thesis
  proof (cases "k < length (sq_tasks w) \<and> \<not> answered (sq_tasks w ! k)")
    case False
    then have "do_event e w = w" using answered_stays [of "sq_tasks w ! k"] by (auto simp: Resume resume_task_eq)
    then show ?thesis using assms(1) by simp
  next
    case True
    let ?c = "sq_tasks w ! k"
    let ?c' = "fst (run_coroutine False ?c w)" and ?w' = "snd (run_coroutine False ?c w)"
    have "active w \<noteq> []" using True by (auto simp: active_def filter_empty_conv)
    then obtain c where c: "active w = [c]" using assms(1) by (auto simp: serial_inv_def split: list.splits)
    note one = filter_single_update [of k "sq_tasks w" "\<lambda>c. \<not> answered c", OF _ _ c [unfolded active_def]]
    have "c = ?c" using one(1) True by simp
    then have "serial_core owner (owing ?c) w" "serial_task owner w ?c" using assms(1) c by (simp_all add: serial_inv_def)
    note step = serial_coroutine [OF this assms(3)]
    have "active (do_event e w) = (if answered ?c' then [] else [?c'])"
      using one(2) True ok by (simp add: Resume resume_task_eq active_def)
    moreover have "do_event e w = ?w'\<lparr>sq_tasks := (sq_tasks w)[k := ?c']\<rparr>" using True ok by (simp add: Resume resume_task_eq)
    ultimately show ?thesis using step owing_answered by (auto simp: serial_inv_def)
  qed
qed

inductive serial_step :: "(string \<Rightarrow> text_id) \<Rightarrow> steering \<Rightarrow> steering \<Rightarrow> bool" for owner where
  "serial owner e w \<Longrightarrow> serial_step owner w (do_event e w)"

lemma serial_start: "serial_inv owner start_queue"
proof -
  have "active start_queue = []" by (simp add: active_def start_queue_def)
  moreover have "sq_injected start_queue = []" "sq_rows start_queue = []" "session_of bare start_queue = fresh_session" for bare
    by (simp_all add: start_queue_def session_of_def)
  ultimately show ?thesis
    using queue_wf_start by (simp add: serial_inv_def serial_core_def injected_runs_def fresh_session_def)
qed

lemma serial_reachable:
  assumes "\<And>r. normalize_session_key (owner r) = owner r" and "(serial_step owner)\<^sup>*\<^sup>* start_queue w"
  shows "serial_inv owner w"
  using assms(2) by (induction rule: rtranclp_induct) (use serial_start serial_event [OF _ _ assms(1)] in \<open>auto elim!: serial_step.cases\<close>)

subsection \<open>A drain that runs alone after a restart\<close>

lemma hydrate_items:
  assumes "session_wf s" and "distinct (map inj_run rows)" and "inj_run ` set rows \<inter> si_run ` set (ss_items s) = {}"
  shows "ss_items (hydrate bare rows s) = ss_items s @ map rebuild_item (filter (\<lambda>r. normalize_session_key (inj_session r) = bare) rows)"
proof -
  have "ss_items (fold (hydrate_row bare) rows s) =
      ss_items s @ map rebuild_item (filter (\<lambda>r. normalize_session_key (inj_session r) = bare) rows)"
    using assms
  proof (induction rows arbitrary: s)
    case (Cons r rows)
    show ?case
    proof (cases "normalize_session_key (inj_session r) = bare")
      case True
      have none: "dict_get (ss_by_run s) (inj_run r) = None" using session_wf_new [OF Cons.prems(1)] Cons.prems(3) by simp
      then have "session_wf (push_item (rebuild_item r) s)" using session_wf_push [OF Cons.prems(1)] by simp
      moreover have "inj_run ` set rows \<inter> si_run ` set (ss_items (push_item (rebuild_item r) s)) = {}"
        using Cons.prems(2,3) by auto
      ultimately show ?thesis using Cons.IH [of "push_item (rebuild_item r) s"] Cons.prems(2) True none by (simp add: hydrate_row_def)
    next
      case False
      then show ?thesis using Cons.IH [of s] Cons.prems by (simp add: hydrate_row_def)
    qed
  qed simp
  then show ?thesis by (simp add: hydrate_def)
qed

lemma answered_again:
  assumes "sq_tasks w = [Answered a]"
  shows "(do_event (Resume 0 False) ^^ n) w = w"
proof (induction n)
  case (Suc n)
  have "do_event (Resume 0 False) w = w" using assms by (simp add: resume_task_def)
  with Suc show ?case by (simp only: funpow_Suc_right o_apply)
qed simp

lemma marking_alone:
  assumes "rows_wf w" and "sq_tasks w = [Marking bare xs taken]" and "xs \<noteq> []" and "distinct (map si_run xs)"
    and "si_run ` set xs \<subseteq> pending_runs w" and "length xs \<le> n"
  shows "sq_tasks ((do_event (Resume 0 False) ^^ n) w) = [Answered (Drained bare (taken @ map (\<lambda>x. (x, True)) xs))]"
  using assms
proof (induction xs arbitrary: w taken n)
  case (Cons x xs)
  then obtain m where n: "n = Suc m" "length xs \<le> m" by (cases n) auto
  let ?w = "w\<lparr>sq_rows := snd (mark_consumed (si_run x) (sq_rows w))\<rparr>" and ?v = "do_event (Resume 0 False) w"
  have hit: "fst (mark_consumed (si_run x) (sq_rows w))" and moved: "pending_runs ?w = pending_runs w - {si_run x}"
    using mark_moves [OF Cons.prems(1), of "si_run x"] Cons.prems(5) by simp_all
  show ?case
  proof (cases "xs = []")
    case True
    then have "sq_tasks ?v = [Answered (Drained bare (taken @ [(x, True)]))]"
      using Cons.prems(2) hit by (simp add: resume_task_def Let_def case_prod_unfold finish_drain_def)
    then show ?thesis using answered_again [of ?v] True unfolding n(1) funpow_Suc_right o_apply by simp
  next
    case False
    then have v: "?v = ?w\<lparr>sq_tasks := [Marking bare xs (taken @ [(x, True)])]\<rparr>"
      using Cons.prems(2) hit by (simp add: resume_task_def Let_def case_prod_unfold)
    then have "pending_runs ?v = pending_runs w - {si_run x}" using moved by simp
    moreover have "si_run x \<notin> si_run ` set xs" using Cons.prems(4) by auto
    ultimately have p: "si_run ` set xs \<subseteq> pending_runs ?v" using Cons.prems(5) by (simp only: list.set image_insert) blast
    have r: "rows_wf ?v" unfolding v using Cons.prems(1) mark_consumed_keyed by (simp add: rows_wf_def)
    have "sq_tasks ((do_event (Resume 0 False) ^^ m) ?v) = [Answered (Drained bare ((taken @ [(x, True)]) @ map (\<lambda>x. (x, True)) xs))]"
      by (rule Cons.IH [OF r _ False _ p n(2)]) (use v Cons.prems(4) in simp_all)
    then show ?thesis unfolding n(1) funpow_Suc_right o_apply by simp
  qed
qed simp

subsection \<open>Concrete histories\<close>

fun guarded_run :: "(queue_event \<Rightarrow> steering \<Rightarrow> bool) \<Rightarrow> queue_event list \<Rightarrow> steering \<Rightarrow> bool" where
  "guarded_run P [] w = True"
| "guarded_run P (e # es) w = (P e w \<and> guarded_run P es (do_event e w))"

lemma guarded_reaches:
  assumes "\<And>e w. P e w \<Longrightarrow> R w (do_event e w)" and "guarded_run P es w"
  shows "R\<^sup>*\<^sup>* w (fold do_event es w)"
  using assms(2) by (induction es arbitrary: w) (auto intro: converse_rtranclp_into_rtranclp assms(1))

lemma orderly_reaches: "guarded_run orderly es w \<Longrightarrow> orderly_step\<^sup>*\<^sup>* w (fold do_event es w)"
  by (rule guarded_reaches [where P = orderly and R = orderly_step]) (auto intro: orderly_step.intros)

lemma serial_reaches: "guarded_run (serial owner) es w \<Longrightarrow> (serial_step owner)\<^sup>*\<^sup>* w (fold do_event es w)"
  by (rule guarded_reaches [where P = "serial owner" and R = "serial_step owner"]) (auto intro: serial_step.intros)

lemma queue_run_wf: "queue_wf (queue_run es)"
proof -
  have "guarded_run (\<lambda>_ _. True) es w" for w by (induction es arbitrary: w) simp_all
  then show ?thesis
    unfolding queue_run_def
    by (intro queue_safety.reachable_inv [OF refl] guarded_reaches [where P = "\<lambda>_ _. True" and R = queue_step] queue_step.intros)
qed

definition demo_carrier :: carrier where
  "demo_carrier = \<lparr>ca_text = ''done'', ca_run = Some ''r1'', ca_status = Some ''completed''\<rparr>"

definition demo_record :: injection where
  "demo_record = \<lparr>inj_run = ''r1'', inj_session = ''s1'', inj_content = ''done'', inj_status = Injection_Pending, inj_created = 1\<rparr>"

definition demo_enqueue :: "queue_event list" where
  "demo_enqueue = Call (Enqueue_Op ''s1'' demo_carrier 1) # replicate 6 (Resume 0 False)"

definition demo_drain :: "queue_event list" where
  "demo_drain = Crash # Call (Drain_Op ''s1'') # replicate 5 (Resume 0 False)"

subsection \<open>Properties\<close>





text \<open>Overlapping ones do not. A drain that runs between the two halves of an enqueue takes the item
  before its row exists, so its row stays pending for good: after a restart the run is injected again.
  And a message that is enqueued and drained while the first access of its session is reading the table
  comes back from the stale reading, although its row is consumed. No statement fails in either.\<close>

definition race_enqueue_drain :: "queue_event list" where
  "race_enqueue_drain =
    [Call (Enqueue_Op ''s1'' demo_carrier 1), Resume 0 False, Resume 0 False, Resume 0 False,
     Call (Drain_Op ''s1''), Resume 1 False, Resume 1 False, Resume 0 False, Resume 0 False, Resume 0 False,
     Crash, Call (Drain_Op ''s1''), Resume 0 False, Resume 0 False, Resume 0 False, Resume 0 False]"

definition race_stale_read :: "queue_event list" where
  "race_stale_read =
    [Call (Enqueue_Op ''s1'' demo_carrier 1), Resume 0 False, Resume 0 False, Resume 0 False, Resume 0 False, Resume 0 False,
     Resume 0 False, Crash, Call (Rehydrate_Op ''s1''), Resume 0 False, Resume 0 False,
     Call (Enqueue_Op ''s1'' demo_carrier 2), Resume 1 False, Resume 1 False, Resume 1 False, Resume 1 False,
     Call (Drain_Op ''s1''), Resume 2 False, Resume 2 False, Resume 0 False,
     Call (Drain_Op ''s1''), Resume 3 False, Resume 3 False]"

theorem steering_races_inject_twice:
  "sq_injected (queue_run race_enqueue_drain) = [(''s1'', ''r1''), (''s1'', ''r1'')] \<and>
   sq_injected (queue_run race_stale_read) = [(''s1'', ''r1''), (''s1'', ''r1'')] \<and>
   consumed_runs (queue_run race_stale_read) = {''r1''}"
  by code_simp

text \<open>After a restart nothing that is pending is forgotten: a drain that runs alone returns all
  pending messages of its session, oldest first, each marked as consumed by this very drain.\<close>

theorem restart_redelivers:
  assumes "queue_wf w" and "length (sq_rows w) + 3 \<le> n"
  shows "sq_tasks ((do_event (Resume 0 False) ^^ n) (do_event (Call (Drain_Op key)) (do_event Crash w))) =
    [Answered (Drained (normalize_session_key key)
      (map (\<lambda>r. (rebuild_item r, True))
        (filter (\<lambda>r. normalize_session_key (inj_session r) = normalize_session_key key) (list_pending (sq_rows w)))))]"
proof -
  let ?bare = "normalize_session_key key" and ?rows = "list_pending (sq_rows w)"
  let ?xs = "map rebuild_item (filter (\<lambda>r. normalize_session_key (inj_session r) = ?bare) ?rows)"
  let ?w0 = "do_event (Call (Drain_Op key)) (do_event Crash w)"
  let ?s = "fresh_session\<lparr>ss_hydrating := True\<rparr>"
  have rows: "rows_wf w" using assms(1) by (simp add: queue_wf_def)
  then have "distinct (map inj_run (filter (\<lambda>q. inj_status q = Injection_Pending) (sq_rows w)))"
    by (simp add: rows_wf_def keyed_def distinct_map_filter)
  then have d: "distinct (map inj_run ?rows)"
    by (metis list_pending_def mset_map mset_sort mset_eq_imp_distinct_iff)
  have items: "ss_items (hydrate ?bare ?rows ?s) = ?xs"
    using hydrate_items [of ?s ?rows ?bare] d by (simp add: fresh_session_def session_wf_def)
  have len: "length ?xs \<le> length (sq_rows w)"
    unfolding list_pending_def by (simp add: le_trans [OF length_filter_le])
  define m where "m = n - 3"
  have n: "n = Suc (Suc (Suc m))" "length ?xs \<le> m" using assms(2) len by (simp_all add: m_def)
  let ?w1 = "do_event (Resume 0 False) ?w0" and ?w2 = "do_event (Resume 0 False) (do_event (Resume 0 False) ?w0)"
  let ?w3 = "do_event (Resume 0 False) ?w2"
  have w1: "sq_tasks ?w1 = [Reading (Drain_Op key)]" "sq_rows ?w1 = sq_rows w" "session_of ?bare ?w1 = ?s"
    by (simp_all add: resume_task_def Let_def session_of_def fresh_session_def put_session_def)
  have w2: "sq_tasks ?w2 = [Read (Drain_Op key) ?rows]" "sq_rows ?w2 = sq_rows w" "session_of ?bare ?w2 = ?s"
    using w1 by (simp_all add: resume_task_def)
  have w3: "sq_tasks ?w3 = [if ?xs = [] then Answered (Drained ?bare []) else Marking ?bare ?xs []]" "sq_rows ?w3 = sq_rows w"
    using w2 items by (simp_all add: resume_task_def Let_def case_prod_unfold)
  have "sq_tasks ((do_event (Resume 0 False) ^^ m) ?w3) = [Answered (Drained ?bare (map (\<lambda>x. (x, True)) ?xs))]"
  proof (cases "?xs = []")
    case True
    then show ?thesis using w3(1) answered_again [of ?w3 "Drained ?bare []" m] by simp
  next
    case False
    have "distinct (map si_run ?xs)" using d by (simp add: comp_def distinct_map_filter)
    moreover have "si_run ` set ?xs \<subseteq> pending_runs ?w3" using w3(2) by (auto simp: pending_runs_def list_pending_def)
    moreover have "rows_wf ?w3" using rows w3(2) by (simp add: rows_wf_def)
    ultimately show ?thesis using marking_alone [of ?w3 ?bare ?xs "[]" m] w3(1) False n(2) by simp
  qed
  then show ?thesis unfolding n(1) funpow_Suc_right o_apply by (simp add: comp_def)
qed

theorem restart_redelivers_witness:
  "sq_tasks ((do_event (Resume 0 False) ^^ 4) (do_event (Call (Drain_Op ''s1'')) (do_event Crash (queue_run demo_enqueue)))) =
    [Answered (Drained ''s1'' [(rebuild_item demo_record, True)])]"
proof -
  have "length (sq_rows (queue_run demo_enqueue)) + 3 \<le> 4" by code_simp
  note restart_redelivers [OF queue_run_wf this]
  moreover have "normalize_session_key ''s1'' = ''s1''"
    "filter (\<lambda>r. normalize_session_key (inj_session r) = ''s1'') (list_pending (sq_rows (queue_run demo_enqueue))) = [demo_record]"
    by code_simp+
  ultimately show ?thesis by (metis list.simps(8,9))
qed

end
