(* ===== verification/Text_Matcher.thy ===== *)
theory Text_Matcher
  imports Prelude
begin

section \<open>Fuzzy find and replace\<close>

text \<open>
  Models \<^verbatim>\<open>src/agent/tools/pub_base/text_matcher.py\<close>, which edits the files of the workspace: eleven
  strategies that locate the text to be replaced, the adjustment of the replacement to the
  indentation and the quotes of the file, the replacement itself and the hint for a failed search.
  A text is a list of Unicode code points. The code uses \<^verbatim>\<open>difflib.SequenceMatcher\<close>, which is written
  out here; the character classes \<^verbatim>\<open>str.isalpha\<close> and \<open>\\d\<close> of the Unicode database are parameters.
\<close>

type_synonym utext = "int list"
type_synonym span = "nat \<times> nat"

record char_classes =
  cc_alpha :: "int \<Rightarrow> bool"
  cc_decimal :: "int \<Rightarrow> bool"

abbreviation TAB :: int where "TAB \<equiv> 9"
abbreviation NL :: int where "NL \<equiv> 10"
abbreviation CR :: int where "CR \<equiv> 13"
abbreviation SP :: int where "SP \<equiv> 32"
abbreviation DQ :: int where "DQ \<equiv> 34"
abbreviation SQ :: int where "SQ \<equiv> 39"
abbreviation COLON :: int where "COLON \<equiv> 58"
abbreviation BSL :: int where "BSL \<equiv> 92"
abbreviation BAR :: int where "BAR \<equiv> 124"

subsection \<open>Python's text operations on code points\<close>

definition uspace :: "int \<Rightarrow> bool" where
  "uspace c = (9 \<le> c \<and> c \<le> 13 \<or> 28 \<le> c \<and> c \<le> 32 \<or> c \<in> {133, 160, 5760, 8232, 8233, 8239, 8287, 12288} \<or> 8192 \<le> c \<and> c \<le> 8202)"

definition ulstrip :: "utext \<Rightarrow> utext" where
  "ulstrip s = dropWhile uspace s"

definition ustrip :: "utext \<Rightarrow> utext" where
  "ustrip s = rev (dropWhile uspace (rev (ulstrip s)))"

definition blank :: "int \<Rightarrow> bool" where
  "blank c = (c = SP \<or> c = TAB)"

text \<open>\<^verbatim>\<open>s.split(c)\<close> and \<^verbatim>\<open>c.join(ws)\<close> for a single character.\<close>

fun usplit :: "int \<Rightarrow> utext \<Rightarrow> utext list" where
  "usplit c [] = [[]]"
| "usplit c (d # s) =
    (if d = c then [] # usplit c s else (case usplit c s of [] \<Rightarrow> [[d]] | w # ws \<Rightarrow> (d # w) # ws))"

fun ujoin :: "int \<Rightarrow> utext list \<Rightarrow> utext" where
  "ujoin c [] = []"
| "ujoin c [w] = w"
| "ujoin c (w # v # ws) = w @ c # ujoin c (v # ws)"

abbreviation lines_of :: "utext \<Rightarrow> utext list" where
  "lines_of s \<equiv> usplit NL s"

abbreviation join_lines :: "utext list \<Rightarrow> utext" where
  "join_lines ws \<equiv> ujoin NL ws"

definition occurs_at :: "utext \<Rightarrow> utext \<Rightarrow> nat \<Rightarrow> bool" where
  "occurs_at s p i = (take (length p) (drop i s) = p)"

text \<open>\<^verbatim>\<open>s.find(p, start)\<close>.\<close>

definition ufind :: "utext \<Rightarrow> utext \<Rightarrow> nat \<Rightarrow> nat option" where
  "ufind s p start = find (occurs_at s p) [start..<Suc (length s)]"

definition uhas :: "utext \<Rightarrow> utext \<Rightarrow> bool" where
  "uhas p s = (ufind s p 0 \<noteq> None)"

text \<open>\<^verbatim>\<open>s.replace(ab, c)\<close> for a pattern of two characters, and for one of a single character.\<close>

fun replace_pair :: "int \<Rightarrow> int \<Rightarrow> int \<Rightarrow> utext \<Rightarrow> utext" where
  "replace_pair a b c (x # y # s) = (if x = a \<and> y = b then c # replace_pair a b c s else x # replace_pair a b c (y # s))"
| "replace_pair a b c s = s"

definition replace_char :: "int \<Rightarrow> utext \<Rightarrow> utext \<Rightarrow> utext" where
  "replace_char c r s = concat (map (\<lambda>x. if x = c then r else [x]) s)"

text \<open>\<^verbatim>\<open>s.splitlines()\<close>.\<close>

definition line_end :: "int \<Rightarrow> bool" where
  "line_end c = (10 \<le> c \<and> c \<le> 13 \<or> 28 \<le> c \<and> c \<le> 30 \<or> c \<in> {133, 8232, 8233})"

fun split_lines_from :: "utext \<Rightarrow> utext \<Rightarrow> utext list" where
  "split_lines_from acc [] = (if acc = [] then [] else [rev acc])"
| "split_lines_from acc [c] = (if line_end c then [rev acc] else [rev (c # acc)])"
| "split_lines_from acc (c # d # s) =
    (if c = CR \<and> d = NL then rev acc # split_lines_from [] s
     else if line_end c then rev acc # split_lines_from [] (d # s)
     else split_lines_from (c # acc) (d # s))"

definition split_lines :: "utext \<Rightarrow> utext list" where
  "split_lines s = split_lines_from [] s"

subsection \<open>\<^verbatim>\<open>difflib.SequenceMatcher(None, a, b).ratio()\<close>\<close>

text \<open>Characters that make up more than one percent of a long second text do not start a match.\<close>

definition popular :: "utext \<Rightarrow> int \<Rightarrow> bool" where
  "popular b c = (200 \<le> length b \<and> length b div 100 + 1 < length (filter (\<lambda>x. x = c) b))"

fun common_prefix :: "(int \<Rightarrow> bool) \<Rightarrow> utext \<Rightarrow> utext \<Rightarrow> nat" where
  "common_prefix ok (x # xs) (y # ys) = (if x = y \<and> ok y then Suc (common_prefix ok xs ys) else 0)"
| "common_prefix ok _ _ = 0"

text \<open>The longest run without popular characters that ends at two positions; of equal ones the first.\<close>

definition run_ending :: "(int \<Rightarrow> bool) \<Rightarrow> utext \<Rightarrow> utext \<Rightarrow> nat \<Rightarrow> nat \<Rightarrow> nat" where
  "run_ending ok a b i j = common_prefix ok (rev (take (Suc i) a)) (rev (take (Suc j) b))"

definition best_run :: "(int \<Rightarrow> bool) \<Rightarrow> utext \<Rightarrow> utext \<Rightarrow> nat \<times> nat \<times> nat" where
  "best_run ok a b =
    fold (\<lambda>(i, j) (bi, bj, bk).
        let k = run_ending ok a b i j in if bk < k then (Suc i - k, Suc j - k, k) else (bi, bj, bk))
      (List.product [0..<length a] [0..<length b]) (0, 0, 0)"

text \<open>The run is then extended over popular characters on both sides.\<close>

definition longest_match :: "(int \<Rightarrow> bool) \<Rightarrow> utext \<Rightarrow> utext \<Rightarrow> nat \<times> nat \<times> nat" where
  "longest_match ok a b =
    (case best_run ok a b of (i, j, k) \<Rightarrow>
       let l = common_prefix (\<lambda>_. True) (rev (take i a)) (rev (take j b));
           r = common_prefix (\<lambda>_. True) (drop (i + k) a) (drop (j + k) b)
       in (i - l, j - l, l + k + r))"

function matched :: "(int \<Rightarrow> bool) \<Rightarrow> utext \<Rightarrow> utext \<Rightarrow> nat" where
  "matched ok a b =
    (case longest_match ok a b of (i, j, k) \<Rightarrow>
       if k = 0 \<or> length a < i + k then 0
       else k + matched ok (take i a) (take j b) + matched ok (drop (i + k) a) (drop (j + k) b))"
  by pat_completeness auto
termination
  by (relation "measure (\<lambda>(ok, a, b). length a)") auto

definition ratio :: "utext \<Rightarrow> utext \<Rightarrow> rat" where
  "ratio a b =
    (if length a + length b = 0 then 1
     else of_nat (2 * matched (\<lambda>c. \<not> popular b c) a b) / of_nat (length a + length b))"

subsection \<open>Strategies that rewrite the pattern\<close>

definition line_positions :: "utext list \<Rightarrow> nat \<Rightarrow> nat \<Rightarrow> nat \<Rightarrow> span" where
  "line_positions ls start stop total_len =
    (sum_list (map (\<lambda>l. length l + 1) (take start ls)),
     min (sum_list (map (\<lambda>l. length l + 1) (take stop ls)) - 1) total_len)"

definition window :: "nat \<Rightarrow> nat \<Rightarrow> 'a list \<Rightarrow> 'a list" where
  "window i n xs = take n (drop i xs)"

definition find_normalized_matches :: "utext \<Rightarrow> utext list \<Rightarrow> utext list \<Rightarrow> utext \<Rightarrow> span list" where
  "find_normalized_matches content content_lines norm_lines pattern_norm =
    (let plen = length (lines_of pattern_norm)
     in map (\<lambda>i. line_positions content_lines i (i + plen) (length content))
          (filter (\<lambda>i. join_lines (window i plen norm_lines) = pattern_norm) [0..<length norm_lines + 1 - plen]))"

function exact_from :: "utext \<Rightarrow> utext \<Rightarrow> nat \<Rightarrow> span list" where
  "exact_from content pattern start =
    (case ufind content pattern start of
       None \<Rightarrow> []
     | Some pos \<Rightarrow> (pos, pos + length pattern) # exact_from content pattern (pos + 1))"
  by pat_completeness auto
termination
proof (relation "measure (\<lambda>(content, pattern, start). Suc (length content) - start)")
  fix content pattern :: utext and start pos
  assume "ufind content pattern start = Some pos"
  then have "start \<le> pos" "pos < Suc (length content)" by (auto simp: ufind_def find_Some_iff nth_append split: if_splits)
  then show "((content, pattern, pos + 1), content, pattern, start) \<in> measure (\<lambda>(content, pattern, start). Suc (length content) - start)"
    by auto
qed simp

definition strategy_exact :: "utext \<Rightarrow> utext \<Rightarrow> span list" where
  "strategy_exact content pattern = exact_from content pattern 0"

text \<open>The prefixes \<open>N|\<close>, \<open>N: \<close> and \<open>N<TAB>\<close> of a numbered line.\<close>

definition strip_number :: "char_classes \<Rightarrow> utext \<Rightarrow> utext option" where
  "strip_number cc line =
    (let rest = dropWhile (cc_decimal cc) line
     in if rest = line then None
        else if take 1 rest = [BAR] then Some (drop 1 rest)
        else if take 2 rest = [COLON, SP] then Some (drop 2 rest)
        else if take 1 rest = [TAB] then Some (drop 1 rest)
        else None)"

fun strip_numbers :: "char_classes \<Rightarrow> utext list \<Rightarrow> (utext list \<times> bool) option" where
  "strip_numbers cc [] = Some ([], False)"
| "strip_numbers cc (l # ls) =
    (if ustrip l = [] then map_option (\<lambda>(out, seen). (l # out, seen)) (strip_numbers cc ls)
     else (case strip_number cc l of
             None \<Rightarrow> None
           | Some r \<Rightarrow> map_option (\<lambda>(out, seen). (r # out, True)) (strip_numbers cc ls)))"

definition strip_line_number_prefix :: "char_classes \<Rightarrow> utext \<Rightarrow> utext option" where
  "strip_line_number_prefix cc text =
    (case strip_numbers cc (lines_of text) of
       None \<Rightarrow> None
     | Some (out, seen) \<Rightarrow> if seen \<and> join_lines out \<noteq> text then Some (join_lines out) else None)"

definition strategy_line_number_prefix_stripped :: "char_classes \<Rightarrow> utext \<Rightarrow> utext \<Rightarrow> span list" where
  "strategy_line_number_prefix_stripped cc content pattern =
    (case strip_line_number_prefix cc pattern of None \<Rightarrow> [] | Some p \<Rightarrow> strategy_exact content p)"

definition strategy_line_trimmed :: "utext \<Rightarrow> utext \<Rightarrow> span list" where
  "strategy_line_trimmed content pattern =
    find_normalized_matches content (lines_of content) (map ustrip (lines_of content)) (join_lines (map ustrip (lines_of pattern)))"

definition strategy_indentation_flexible :: "utext \<Rightarrow> utext \<Rightarrow> span list" where
  "strategy_indentation_flexible content pattern =
    find_normalized_matches content (lines_of content) (map ulstrip (lines_of content)) (join_lines (map ulstrip (lines_of pattern)))"

definition strategy_escape_normalized :: "utext \<Rightarrow> utext \<Rightarrow> span list" where
  "strategy_escape_normalized content pattern =
    (let unescaped = replace_pair BSL 114 CR (replace_pair BSL 116 TAB (replace_pair BSL 110 NL pattern))
     in if unescaped = pattern then [] else strategy_exact content unescaped)"

definition hex_value :: "int \<Rightarrow> int option" where
  "hex_value c =
    (if 48 \<le> c \<and> c \<le> 57 then Some (c - 48)
     else if 97 \<le> c \<and> c \<le> 102 then Some (c - 87)
     else if 65 \<le> c \<and> c \<le> 70 then Some (c - 55) else None)"

fun unescape_unicode :: "utext \<Rightarrow> utext" where
  "unescape_unicode (x # u # p # q # r # s # rest) =
    (if x = BSL \<and> u = 117
     then (case (hex_value p, hex_value q, hex_value r, hex_value s) of
             (Some a, Some b, Some c, Some d) \<Rightarrow> (((a * 16 + b) * 16 + c) * 16 + d) # unescape_unicode rest
           | _ \<Rightarrow> x # unescape_unicode (u # p # q # r # s # rest))
     else x # unescape_unicode (u # p # q # r # s # rest))"
| "unescape_unicode t = t"

definition strategy_unicode_escape_normalized :: "utext \<Rightarrow> utext \<Rightarrow> span list" where
  "strategy_unicode_escape_normalized content pattern =
    (if unescape_unicode pattern = pattern then [] else strategy_exact content (unescape_unicode pattern))"

subsection \<open>Whitespace runs\<close>

text \<open>\<^verbatim>\<open>re.sub("[ \t]+", " ", s)\<close>.\<close>

fun squeeze :: "utext \<Rightarrow> utext" where
  "squeeze [] = []"
| "squeeze (c # s) = (if blank c then (if s \<noteq> [] \<and> blank (hd s) then squeeze s else SP # squeeze s) else c # squeeze s)"

text \<open>The position in the squeezed text of every position of the original.\<close>

fun align :: "utext \<Rightarrow> utext \<Rightarrow> nat \<Rightarrow> nat list" where
  "align [] ds ni = []"
| "align (c # cs) [] ni = ni # align cs [] ni"
| "align (c # cs) (d # ds) ni =
    (if c = d then ni # align cs ds (ni + 1)
     else if blank c \<and> d = SP
     then ni # (if cs \<noteq> [] \<and> \<not> blank (hd cs) then align cs ds (ni + 1) else align cs (d # ds) ni)
     else ni # align cs (d # ds) ni)"

definition first_at :: "nat \<Rightarrow> nat list \<Rightarrow> nat option" where
  "first_at n ns = find (\<lambda>i. ns ! i = n) [0..<length ns]"

definition last_at :: "nat \<Rightarrow> nat list \<Rightarrow> nat option" where
  "last_at n ns = find (\<lambda>i. ns ! i = n) (rev [0..<length ns])"

definition first_from :: "nat \<Rightarrow> nat list \<Rightarrow> nat option" where
  "first_from n ns = find (\<lambda>i. n \<le> ns ! i) [0..<length ns]"

text \<open>The span of the original for a span of the squeezed text. The default of the dictionary access is
  computed in any case: \<^const>\<open>None\<close> is the exception of \<^verbatim>\<open>min\<close> on an empty sequence.\<close>

definition map_whitespace_position :: "utext \<Rightarrow> utext \<Rightarrow> nat list \<Rightarrow> span \<Rightarrow> span option" where
  "map_whitespace_position original normalized o2n m =
    (case m of (ns, ne) \<Rightarrow>
       (case first_from ns o2n of
          None \<Rightarrow> None
        | Some dflt \<Rightarrow>
            (let os = (case first_at ns o2n of Some p \<Rightarrow> p | None \<Rightarrow> dflt);
                 oe = (case last_at (ne - 1) o2n of Some p \<Rightarrow> p + 1 | None \<Rightarrow> os + (ne - ns));
                 oe' = (if ne < length normalized \<and> normalized ! (ne - 1) = SP
                        then oe + length (takeWhile blank (drop oe original)) else oe)
             in Some (os, min oe' (length original)))))"

definition map_whitespace_positions :: "utext \<Rightarrow> utext \<Rightarrow> span list \<Rightarrow> span list option" where
  "map_whitespace_positions original normalized ms =
    (if ms = [] then Some []
     else those (map (map_whitespace_position original normalized (align original normalized 0)) ms))"

definition strategy_whitespace_normalized :: "utext \<Rightarrow> utext \<Rightarrow> span list option" where
  "strategy_whitespace_normalized content pattern =
    (let norm = squeeze content; ms = strategy_exact norm (squeeze pattern)
     in if ms = [] then Some [] else map_whitespace_positions content norm ms)"

subsection \<open>Trimmed boundaries\<close>

definition trim_ends :: "utext list \<Rightarrow> utext list" where
  "trim_ends ls =
    (case ls of
       [] \<Rightarrow> []
     | [l] \<Rightarrow> [ustrip l]
     | l # _ \<Rightarrow> ustrip l # butlast (tl ls) @ [ustrip (last ls)])"

definition strategy_trimmed_boundary :: "utext \<Rightarrow> utext \<Rightarrow> span list" where
  "strategy_trimmed_boundary content pattern =
    (let modified = join_lines (trim_ends (lines_of pattern)); ls = lines_of content; plen = length (lines_of pattern)
     in map (\<lambda>i. line_positions ls i (i + plen) (length content))
          (filter (\<lambda>i. join_lines (trim_ends (window i plen ls)) = modified) [0..<length ls + 1 - plen]))"

subsection \<open>Typographic characters\<close>

definition UNICODE_MAP :: "(int \<times> utext) list" where
  "UNICODE_MAP =
    [(0x201C, [DQ]), (0x201D, [DQ]), (0x2018, [SQ]), (0x2019, [SQ]),
     (0x2014, [45, 45]), (0x2013, [45]), (0x2026, [46, 46, 46]), (0xA0, [SP])]"

definition unicode_normalize :: "utext \<Rightarrow> utext" where
  "unicode_normalize text = fold (\<lambda>(c, r). replace_char c r) UNICODE_MAP text"

fun build_orig_to_norm_map :: "utext \<Rightarrow> nat \<Rightarrow> nat list" where
  "build_orig_to_norm_map [] n = [n]"
| "build_orig_to_norm_map (c # cs) n =
    n # build_orig_to_norm_map cs (n + (case map_of UNICODE_MAP c of Some r \<Rightarrow> length r | None \<Rightarrow> 1))"

definition map_norm_to_orig :: "nat list \<Rightarrow> span list \<Rightarrow> span list" where
  "map_norm_to_orig o2n ms =
    concat (map (\<lambda>(ns, ne).
        case first_at ns (butlast o2n) of
          None \<Rightarrow> []
        | Some os \<Rightarrow> [(os, os + length (takeWhile (\<lambda>p. p < ne) (drop os (butlast o2n))))]) ms)"

definition strategy_unicode_normalized :: "utext \<Rightarrow> utext \<Rightarrow> span list" where
  "strategy_unicode_normalized content pattern =
    (let np = unicode_normalize pattern; nc = unicode_normalize content;
         exact = strategy_exact nc np; ms = (if exact = [] then strategy_line_trimmed nc np else exact)
     in if nc = content \<and> np = pattern then []
        else map_norm_to_orig (build_orig_to_norm_map content 0) ms)"

subsection \<open>Strategies by similarity\<close>

definition strategy_block_anchor :: "utext \<Rightarrow> utext \<Rightarrow> span list" where
  "strategy_block_anchor content pattern =
    (let pls = lines_of (unicode_normalize pattern); ncs = lines_of (unicode_normalize content);
         ocs = lines_of content; plen = length pls;
         potential = filter (\<lambda>i. ustrip (ncs ! i) = ustrip (hd pls) \<and> ustrip (ncs ! (i + plen - 1)) = ustrip (last pls))
           [0..<length ncs + 1 - plen];
         threshold = (if length potential \<le> 1 then 1/2 else 7/10)
     in if plen < 2 then []
        else map (\<lambda>i. line_positions ocs i (i + plen) (length content))
          (filter (\<lambda>i. plen \<le> 2 \<or> threshold \<le> ratio (join_lines (window (i + 1) (plen - 2) ncs)) (join_lines (butlast (tl pls))))
             potential))"

definition strategy_context_aware :: "utext \<Rightarrow> utext \<Rightarrow> span list" where
  "strategy_context_aware content pattern =
    (let pls = lines_of pattern; ls = lines_of content; plen = length pls
     in map (\<lambda>i. line_positions ls i (i + plen) (length content))
          (filter (\<lambda>i. plen \<le> 2 * length (filter (\<lambda>(p, c). 4/5 \<le> ratio (ustrip p) (ustrip c)) (zip pls (window i plen ls))))
             [0..<length ls + 1 - plen]))"

subsection \<open>The chain\<close>

definition STRATEGIES :: "char_classes \<Rightarrow> (string \<times> (utext \<Rightarrow> utext \<Rightarrow> span list option)) list" where
  "STRATEGIES cc =
    [(''exact'', \<lambda>c p. Some (strategy_exact c p)),
     (''line_number_prefix_stripped'', \<lambda>c p. Some (strategy_line_number_prefix_stripped cc c p)),
     (''line_trimmed'', \<lambda>c p. Some (strategy_line_trimmed c p)),
     (''whitespace_normalized'', strategy_whitespace_normalized),
     (''indentation_flexible'', \<lambda>c p. Some (strategy_indentation_flexible c p)),
     (''escape_normalized'', \<lambda>c p. Some (strategy_escape_normalized c p)),
     (''unicode_escape_normalized'', \<lambda>c p. Some (strategy_unicode_escape_normalized c p)),
     (''trimmed_boundary'', \<lambda>c p. Some (strategy_trimmed_boundary c p)),
     (''unicode_normalized'', \<lambda>c p. Some (strategy_unicode_normalized c p)),
     (''block_anchor'', \<lambda>c p. Some (strategy_block_anchor c p)),
     (''context_aware'', \<lambda>c p. Some (strategy_context_aware c p))]"

definition BROAD_MATCHERS :: "string list" where
  "BROAD_MATCHERS = [''line_trimmed'', ''whitespace_normalized'', ''indentation_flexible'', ''trimmed_boundary'',
    ''block_anchor'', ''context_aware'']"

subsection \<open>The replacement text\<close>

definition detect_escape_drift :: "utext \<Rightarrow> span list \<Rightarrow> utext \<Rightarrow> utext \<Rightarrow> utext option" where
  "detect_escape_drift content ms old new =
    (let region = concat (map (\<lambda>(s, e). take (e - s) (drop s content)) ms)
     in find (\<lambda>p. uhas p new \<and> uhas p old \<and> \<not> uhas p region) [[BSL, SQ], [BSL, DQ]])"

definition first_meaningful_line :: "utext \<Rightarrow> utext option" where
  "first_meaningful_line text = find (\<lambda>l. ustrip l \<noteq> []) (lines_of text)"

definition leading_ws :: "utext \<Rightarrow> utext" where
  "leading_ws line = takeWhile blank line"

definition reindent_line :: "utext \<Rightarrow> utext \<Rightarrow> utext \<Rightarrow> utext" where
  "reindent_line old_indent file_indent line =
    (if ustrip line = [] then line
     else if take (length old_indent) (leading_ws line) = old_indent then file_indent @ drop (length old_indent) line
     else file_indent @ dropWhile blank line)"

definition reindent :: "utext \<Rightarrow> utext \<Rightarrow> utext \<Rightarrow> utext" where
  "reindent region old new =
    (case (first_meaningful_line old, first_meaningful_line region) of
       (Some o1, Some f1) \<Rightarrow>
         if new = [] \<or> leading_ws o1 = leading_ws f1 then new
         else join_lines (map (reindent_line (leading_ws o1) (leading_ws f1)) (lines_of new))
     | _ \<Rightarrow> new)"

definition opens_quote :: "int \<Rightarrow> bool" where
  "opens_quote c = (c \<in> {SP, TAB, NL, CR, 40, 91, 123})"

definition at_or_space :: "utext \<Rightarrow> nat \<Rightarrow> int" where
  "at_or_space text i = (if i < length text then text ! i else SP)"

definition char_before :: "utext \<Rightarrow> nat \<Rightarrow> int" where
  "char_before text i = (if i = 0 then SP else text ! (i - 1))"

definition apply_curly_double_quotes :: "utext \<Rightarrow> utext" where
  "apply_curly_double_quotes text =
    map (\<lambda>i. if text ! i \<noteq> DQ then text ! i else if opens_quote (char_before text i) then 0x201C else 0x201D)
      [0..<length text]"

definition apply_curly_single_quotes :: "char_classes \<Rightarrow> utext \<Rightarrow> utext" where
  "apply_curly_single_quotes cc text =
    map (\<lambda>i. if text ! i \<noteq> SQ then text ! i
             else if cc_alpha cc (char_before text i) \<and> cc_alpha cc (at_or_space text (i + 1)) then 0x2019
             else if opens_quote (char_before text i) then 0x2018 else 0x2019)
      [0..<length text]"

definition preserve_quote_style :: "char_classes \<Rightarrow> utext \<Rightarrow> utext \<Rightarrow> utext" where
  "preserve_quote_style cc region new =
    (let new1 = (if (0x201C \<in> set region \<or> 0x201D \<in> set region) \<and> DQ \<notin> set region
                 then apply_curly_double_quotes new else new)
     in if (0x2018 \<in> set region \<or> 0x2019 \<in> set region) \<and> SQ \<notin> set region
        then apply_curly_single_quotes cc new1 else new1)"

subsection \<open>Find and replace\<close>

datatype match_error =
  Old_Empty
| Old_Is_New
| Ambiguous nat
| Escape_Drift utext
| Only_Fuzzy nat
| Not_Found

type_synonym replace_result = "utext \<times> nat \<times> string option \<times> match_error option"

definition slice :: "utext \<Rightarrow> span \<Rightarrow> utext" where
  "slice s m = take (snd m - fst m) (drop (fst m) s)"

definition splice :: "(span \<Rightarrow> utext) \<Rightarrow> span list \<Rightarrow> utext \<Rightarrow> utext" where
  "splice text ms content = fold (\<lambda>m result. take (fst m) result @ text m @ drop (snd m) result) ms content"

text \<open>\<^verbatim>\<open>sorted(matches, key=start, reverse=True)\<close> keeps the order of equal starts.\<close>

definition from_the_end :: "span list \<Rightarrow> span list" where
  "from_the_end ms = rev (sort_key fst (rev ms))"

definition replacement :: "char_classes \<Rightarrow> string \<Rightarrow> utext \<Rightarrow> utext \<Rightarrow> utext \<Rightarrow> span \<Rightarrow> utext" where
  "replacement cc name content old new m =
    (if name = ''exact'' then new else preserve_quote_style cc (slice content m) (reindent (slice content m) old new))"

definition apply_matches :: "char_classes \<Rightarrow> string \<Rightarrow> span list \<Rightarrow> utext \<Rightarrow> utext \<Rightarrow> utext \<Rightarrow> bool \<Rightarrow> replace_result" where
  "apply_matches cc name ms content old new all =
    (if 1 < length ms \<and> \<not> all then (content, 0, None, Some (Ambiguous (length ms)))
     else (case (if name = ''exact'' then None else detect_escape_drift content ms old new) of
             Some p \<Rightarrow> (content, 0, None, Some (Escape_Drift p))
           | None \<Rightarrow> (splice (replacement cc name content old new) (from_the_end ms) content, length ms, Some name, None)))"

text \<open>The first strategy that finds anything decides; the outer \<^const>\<open>None\<close> is an exception.\<close>

fun try_strategies ::
    "char_classes \<Rightarrow> (string \<times> (utext \<Rightarrow> utext \<Rightarrow> span list option)) list \<Rightarrow> utext \<Rightarrow> utext \<Rightarrow> utext \<Rightarrow> bool
     \<Rightarrow> replace_result option option" where
  "try_strategies cc [] content old new all = Some None"
| "try_strategies cc ((name, fn) # fs) content old new all =
    (if all \<and> name \<in> set BROAD_MATCHERS then try_strategies cc fs content old new all
     else (case fn content old of
             None \<Rightarrow> None
           | Some [] \<Rightarrow> try_strategies cc fs content old new all
           | Some ms \<Rightarrow> Some (Some (apply_matches cc name ms content old new all))))"

definition fuzzy_count :: "char_classes \<Rightarrow> utext \<Rightarrow> utext \<Rightarrow> nat option" where
  "fuzzy_count cc content old =
    map_option (\<lambda>mss. sum_list (map length mss))
      (those (map (\<lambda>(name, fn). fn content old) (filter (\<lambda>(name, fn). name \<in> set BROAD_MATCHERS) (STRATEGIES cc))))"

definition fuzzy_find_and_replace :: "char_classes \<Rightarrow> utext \<Rightarrow> utext \<Rightarrow> utext \<Rightarrow> bool \<Rightarrow> replace_result option" where
  "fuzzy_find_and_replace cc content old new all =
    (if old = [] then Some (content, 0, None, Some Old_Empty)
     else if old = new then Some (content, 0, None, Some Old_Is_New)
     else (case try_strategies cc (STRATEGIES cc) content old new all of
             None \<Rightarrow> None
           | Some (Some r) \<Rightarrow> Some r
           | Some None \<Rightarrow>
               if all
               then map_option (\<lambda>n. (content, 0, None, Some (if n = 0 then Not_Found else Only_Fuzzy n))) (fuzzy_count cc content old)
               else Some (content, 0, None, Some Not_Found)))"

subsection \<open>The hint for a failed search\<close>

definition closest_scores :: "utext \<Rightarrow> utext list \<Rightarrow> (rat \<times> nat) list" where
  "closest_scores anchor ls =
    filter (\<lambda>(r, i). 3/10 < r)
      (map (\<lambda>i. (ratio anchor (ustrip (ls ! i)), i)) (filter (\<lambda>i. ustrip (ls ! i) \<noteq> []) [0..<length ls]))"

fun keep_first :: "'a list \<Rightarrow> 'a list" where
  "keep_first [] = []"
| "keep_first (x # xs) = x # filter (\<lambda>y. y \<noteq> x) (keep_first xs)"

text \<open>The sections, each as its numbered lines.\<close>

definition find_closest_lines :: "utext \<Rightarrow> utext \<Rightarrow> nat \<Rightarrow> nat \<Rightarrow> (nat \<times> utext) list list" where
  "find_closest_lines old content context_lines max_results =
    (let old_lines = split_lines old; ls = split_lines content
     in case find (\<lambda>l. l \<noteq> []) (map ustrip old_lines) of
          None \<Rightarrow> []
        | Some anchor \<Rightarrow>
            map (\<lambda>(start, stop). map (\<lambda>j. (j + 1, ls ! j)) [start..<stop])
              (keep_first (map (\<lambda>(_, i). (i - context_lines, min (length ls) (i + length old_lines + context_lines)))
                 (take max_results (sort_key (\<lambda>(r, _). - r) (closest_scores anchor ls))))))"

definition format_no_match_hint :: "match_error option \<Rightarrow> nat \<Rightarrow> utext \<Rightarrow> utext \<Rightarrow> (nat \<times> utext) list list" where
  "format_no_match_hint error match_count old content =
    (if match_count \<noteq> 0 then []
     else (case error of
             Some Not_Found \<Rightarrow> find_closest_lines old content 2 3
           | Some (Only_Fuzzy n) \<Rightarrow> find_closest_lines old content 2 3
           | _ \<Rightarrow> []))"

subsection \<open>Occurrences\<close>

declare exact_from.simps [simp del] matched.simps [simp del]

lemma occurs_at_fits: "occurs_at s p i \<Longrightarrow> i \<le> length s \<Longrightarrow> i + length p \<le> length s"
  unfolding occurs_at_def by (metis (no_types) length_take length_drop le_diff_conv2 min.cobounded1 add.commute)

lemma occurs_at_iff: "i \<le> length s \<Longrightarrow> occurs_at s p i \<longleftrightarrow> (\<exists>u v. s = u @ p @ v \<and> length u = i)"
proof
  assume *: "i \<le> length s" "occurs_at s p i"
  have "take i s @ take (length p) (drop i s) @ drop (length p) (drop i s) = s" by (simp only: append_take_drop_id)
  then have "s = take i s @ p @ drop (length p) (drop i s)" using *(2) by (simp only: occurs_at_def)
  moreover have "length (take i s) = i" using *(1) by simp
  ultimately show "\<exists>u v. s = u @ p @ v \<and> length u = i" by blast
qed (auto simp: occurs_at_def)

lemma ufind_Some:
  "ufind s p k = Some i \<longleftrightarrow> k \<le> i \<and> i \<le> length s \<and> occurs_at s p i \<and> (\<forall>j. k \<le> j \<and> j < i \<longrightarrow> \<not> occurs_at s p j)"
proof
  assume "ufind s p k = Some i"
  then obtain n where n: "n < length [k..<Suc (length s)]" "occurs_at s p ([k..<Suc (length s)] ! n)"
    "i = [k..<Suc (length s)] ! n" "\<forall>m<n. \<not> occurs_at s p ([k..<Suc (length s)] ! m)"
    unfolding ufind_def find_Some_iff by blast
  have i: "i = k + n" "i \<le> length s" using n(1,3) by (simp_all del: upt_Suc)
  moreover have "\<not> occurs_at s p j" if "k \<le> j" "j < i" for j
  proof -
    have "j - k < n" "k + (j - k) = j" "k + (j - k) < Suc (length s)" using i that by simp_all
    then show ?thesis using n(4) nth_upt [of k "j - k" "Suc (length s)"] by metis
  qed
  ultimately show "k \<le> i \<and> i \<le> length s \<and> occurs_at s p i \<and> (\<forall>j. k \<le> j \<and> j < i \<longrightarrow> \<not> occurs_at s p j)"
    using n(2,3) by simp
next
  assume r: "k \<le> i \<and> i \<le> length s \<and> occurs_at s p i \<and> (\<forall>j. k \<le> j \<and> j < i \<longrightarrow> \<not> occurs_at s p j)"
  then show "ufind s p k = Some i"
    unfolding ufind_def find_Some_iff by (intro exI [of _ "i - k"]) (auto simp del: upt_Suc)
qed

lemma ufind_None: "ufind s p k = None \<longleftrightarrow> (\<forall>i. k \<le> i \<and> i \<le> length s \<longrightarrow> \<not> occurs_at s p i)"
  unfolding ufind_def find_None_iff by (auto simp del: upt_Suc)

definition occurrences :: "utext \<Rightarrow> utext \<Rightarrow> nat \<Rightarrow> nat list" where
  "occurrences s p k = filter (occurs_at s p) [k..<Suc (length s)]"

lemma occurrences_step:
  "k \<le> length s \<Longrightarrow> occurrences s p k = (if occurs_at s p k then k # occurrences s p (Suc k) else occurrences s p (Suc k))"
  by (simp add: occurrences_def upt_conv_Cons del: upt_Suc)

lemma occurrences_skip:
  assumes "k \<le> j" and "\<And>i. k \<le> i \<Longrightarrow> i < j \<Longrightarrow> i \<le> length s \<Longrightarrow> \<not> occurs_at s p i"
  shows "occurrences s p k = occurrences s p j"
proof (cases "j \<le> Suc (length s)")
  case True
  then have "[k..<Suc (length s)] = [k..<j] @ [j..<Suc (length s)]" using assms(1) by (metis le_Suc_ex upt_add_eq_append)
  moreover have "filter (occurs_at s p) [k..<j] = []" using assms(2) True by (auto simp: filter_empty_conv)
  ultimately show ?thesis by (simp add: occurrences_def del: upt_Suc)
next
  case False
  then have "occurrences s p j = []" by (simp add: occurrences_def)
  moreover have "occurrences s p k = []" using assms(2) False by (auto simp: occurrences_def filter_empty_conv simp del: upt_Suc)
  ultimately show ?thesis by simp
qed

lemma exact_from_occurrences: "exact_from s p k = map (\<lambda>i. (i, i + length p)) (occurrences s p k)"
proof (induction s p k rule: exact_from.induct)
  case (1 s p k)
  show ?case
  proof (cases "ufind s p k")
    case None
    then have "occurrences s p k = []" by (auto simp: ufind_None occurrences_def filter_empty_conv simp del: upt_Suc)
    then show ?thesis using None by (simp add: exact_from.simps)
  next
    case (Some i)
    then have i: "k \<le> i" "i \<le> length s" "occurs_at s p i" "\<And>j. k \<le> j \<Longrightarrow> j < i \<Longrightarrow> \<not> occurs_at s p j" by (auto simp: ufind_Some)
    then have "occurrences s p k = i # occurrences s p (Suc i)"
      using occurrences_skip [of k i s p] occurrences_step [of i s p] by simp
    then show ?thesis using 1 [OF Some] Some by (simp add: exact_from.simps [of s p k])
  qed
qed

lemma strategy_exact_spans: "strategy_exact s p = map (\<lambda>i. (i, i + length p)) (occurrences s p 0)"
  by (simp add: strategy_exact_def exact_from_occurrences)

lemma in_occurrences: "i \<in> set (occurrences s p k) \<longleftrightarrow> k \<le> i \<and> i \<le> length s \<and> occurs_at s p i"
  by (auto simp: occurrences_def simp del: upt_Suc)

lemma sorted_occurrences: "sorted_wrt (<) (occurrences s p k)"
  unfolding occurrences_def by (intro sorted_wrt_filter) (simp del: upt_Suc)

subsection \<open>Replacing from the end\<close>

text \<open>The text with every span replaced, written from the left.\<close>

fun assemble :: "(span \<Rightarrow> utext) \<Rightarrow> utext \<Rightarrow> nat \<Rightarrow> span list \<Rightarrow> utext" where
  "assemble text s k [] = drop k s"
| "assemble text s k (m # ms) = take (fst m - k) (drop k s) @ text m @ assemble text s (snd m) ms"

fun in_line :: "nat \<Rightarrow> utext \<Rightarrow> span list \<Rightarrow> bool" where
  "in_line k s [] = (k \<le> length s)"
| "in_line k s (m # ms) = (k \<le> fst m \<and> fst m \<le> snd m \<and> in_line (snd m) s ms)"

lemma in_line_le: "in_line k s ms \<Longrightarrow> k \<le> length s"
  by (induction ms arbitrary: k) (auto dest: le_trans)

lemma assemble_shift:
  assumes "in_line j s ms" and "k \<le> j"
  shows "assemble text s k ms = take (j - k) (drop k s) @ assemble text s j ms"
proof (cases ms)
  case Nil
  have "take (j - k) (drop k s) @ drop (j - k) (drop k s) = drop k s" by (rule append_take_drop_id)
  then show ?thesis using assms(2) Nil by simp
next
  case (Cons m ms')
  then have "j \<le> fst m" using assms(1) by simp
  have "take (fst m - k) (drop k s) = take (j - k) (drop k s) @ take (fst m - j) (drop j s)"
  proof -
    have "fst m - k = (j - k) + (fst m - j)" "drop (j - k) (drop k s) = drop j s" using assms(2) \<open>j \<le> fst m\<close> by simp_all
    then show ?thesis using take_add [of "j - k" "fst m - j" "drop k s"] by simp
  qed
  then show ?thesis using Cons by simp
qed

lemma assemble_prefix:
  assumes "in_line j s ms" and "i \<le> j"
  shows "take i (assemble text s 0 ms) = take i s" and "drop j (assemble text s 0 ms) = assemble text s j ms"
proof -
  have *: "assemble text s 0 ms = take j s @ assemble text s j ms" using assemble_shift [OF assms(1), of 0] by simp
  have "length (take j s) = j" using in_line_le [OF assms(1)] by simp
  then show "take i (assemble text s 0 ms) = take i s" "drop j (assemble text s 0 ms) = assemble text s j ms"
    using assms(2) by (simp_all add: * take_append min_def)
qed

lemma splice_assemble: "in_line 0 s ms \<Longrightarrow> splice text (rev ms) s = assemble text s 0 ms"
proof (induction ms)
  case (Cons m ms)
  have later: "in_line (snd m) s ms" and "fst m \<le> snd m" using Cons.prems by simp_all
  then have "in_line 0 s ms" by (cases ms) (auto intro: le_trans)
  then have "splice text (rev (m # ms)) s = take (fst m) (assemble text s 0 ms) @ text m @ drop (snd m) (assemble text s 0 ms)"
    using Cons.IH by (simp add: splice_def)
  then show ?case using assemble_prefix [OF later \<open>fst m \<le> snd m\<close>] assemble_prefix(2) [OF later order_refl] by simp
qed (simp add: splice_def)

lemma in_line_starts: "in_line k s ms \<Longrightarrow> sorted (map fst ms) \<and> (\<forall>m \<in> set ms. k \<le> fst m)"
proof (induction ms arbitrary: k)
  case (Cons m ms)
  then have "sorted (map fst ms)" "\<forall>q \<in> set ms. snd m \<le> fst q" "k \<le> fst m" "fst m \<le> snd m" by auto
  then show ?case by (auto intro: le_trans)
qed simp

lemma from_the_end_sorted: "sorted (map fst ms) \<Longrightarrow> inj_on fst (set ms) \<Longrightarrow> from_the_end ms = rev ms"
  unfolding from_the_end_def by (subst sort_key_inj_key_eq [of "rev ms" ms]) simp_all

lemma from_the_end_single [simp]: "from_the_end [m] = [m]"
  by (simp add: from_the_end_def)

subsection \<open>Replacing every occurrence\<close>

text \<open>\<^verbatim>\<open>str.replace\<close> of Python: from the left, an occurrence after the end of the previous one.\<close>

function str_replace :: "utext \<Rightarrow> utext \<Rightarrow> utext \<Rightarrow> utext" where
  "str_replace p r s =
    (if s = [] \<or> p = [] then s
     else if take (length p) s = p then r @ str_replace p r (drop (length p) s)
     else hd s # str_replace p r (tl s))"
  by pat_completeness auto
termination
  by (relation "measure (\<lambda>(p, r, s). length s)") (auto simp: neq_Nil_conv)

declare str_replace.simps [simp del]

definition apart :: "utext \<Rightarrow> utext \<Rightarrow> bool" where
  "apart s p \<longleftrightarrow> (\<forall>i j. occurs_at s p i \<longrightarrow> occurs_at s p j \<longrightarrow> i < j \<longrightarrow> j \<le> length s \<longrightarrow> i + length p \<le> j)"

lemma assemble_replace:
  assumes "p \<noteq> []" and "apart s p" and "k \<le> length s"
  shows "assemble (\<lambda>_. r) s k (map (\<lambda>i. (i, i + length p)) (occurrences s p k)) = str_replace p r (drop k s) \<and>
    in_line k s (map (\<lambda>i. (i, i + length p)) (occurrences s p k))"
  using assms(3)
proof (induction "length s - k" arbitrary: k rule: less_induct)
  case less
  let ?sp = "\<lambda>k. map (\<lambda>i. (i, i + length p)) (occurrences s p k)"
  show ?case
  proof (cases "k = length s")
    case True
    have "\<not> occurs_at s p (length s)" using assms(1) by (simp add: occurs_at_def)
    then have "occurrences s p k = []" using True by (simp add: occurrences_def)
    then show ?thesis using True by (simp add: str_replace.simps)
  next
    case False
    then have k: "k < length s" "drop k s \<noteq> []" using less.prems by simp_all
    show ?thesis
    proof (cases "occurs_at s p k")
      case True
      let ?j = "k + length p"
      have j: "?j \<le> length s" using occurs_at_fits [OF True] k by simp
      have "\<not> occurs_at s p i" if "k < i" "i < ?j" "i \<le> length s" for i
        using assms(2) True that unfolding apart_def by (meson not_le)
      then have "occurrences s p (Suc k) = occurrences s p ?j"
        using assms(1) by (intro occurrences_skip) (auto simp: Suc_le_eq neq_Nil_conv)
      then have "occurrences s p k = k # occurrences s p ?j" using occurrences_step [of k s p] True k by simp
      moreover have "str_replace p r (drop k s) = r @ str_replace p r (drop ?j s)"
        using True k assms(1) by (subst str_replace.simps) (simp add: occurs_at_def add.commute)
      moreover have "length s - ?j < length s - k" using k assms(1) by (simp add: diff_less_mono2)
      note less.hyps [OF this j]
      ultimately show ?thesis by simp
    next
      case False
      have step: "occurrences s p k = occurrences s p (Suc k)" using occurrences_step [of k s p] False k by simp
      have "str_replace p r (drop k s) = hd (drop k s) # str_replace p r (drop (Suc k) s)"
        using False k assms(1) by (subst str_replace.simps) (simp add: occurs_at_def tl_drop drop_Suc)
      moreover have IH: "assemble (\<lambda>_. r) s (Suc k) (?sp (Suc k)) = str_replace p r (drop (Suc k) s)" "in_line (Suc k) s (?sp (Suc k))"
        using less.hyps [of "Suc k"] k by (simp_all add: diff_less_mono2)
      moreover have "assemble (\<lambda>_. r) s k (?sp (Suc k)) = take 1 (drop k s) @ assemble (\<lambda>_. r) s (Suc k) (?sp (Suc k))"
        using assemble_shift [OF IH(2), of k] by simp
      moreover have "take 1 (drop k s) = [hd (drop k s)]" using k by (cases "drop k s") simp_all
      moreover have "in_line k s (?sp (Suc k))" using IH(2) by (cases "occurrences s p (Suc k)") (use k in auto)
      ultimately show ?thesis by (simp add: step)
    qed
  qed
qed

subsection \<open>Lines\<close>

lemma usplit_nonempty [simp]: "usplit c s \<noteq> []"
  by (induction s) (auto split: list.split)

lemma usplit_no_sep: "w \<in> set (usplit c s) \<Longrightarrow> c \<notin> set w"
  by (induction s arbitrary: w) (auto split: if_splits list.splits)

lemma ujoin_Cons: "ws \<noteq> [] \<Longrightarrow> ujoin c (w # ws) = w @ c # ujoin c ws"
  by (cases ws) simp_all

lemma ujoin_usplit [simp]: "ujoin c (usplit c s) = s"
proof (induction s)
  case (Cons d s)
  obtain w ws where "usplit c s = w # ws" using usplit_nonempty [of c s] by (cases "usplit c s") auto
  then show ?case using Cons by (cases ws) (auto simp: ujoin_Cons)
qed simp

lemma usplit_append: "c \<notin> set w \<Longrightarrow> usplit c (w @ c # s) = w # usplit c s"
  by (induction w) simp_all

lemma usplit_single: "c \<notin> set w \<Longrightarrow> usplit c w = [w]"
  by (induction w) simp_all

lemma usplit_ujoin: "ws \<noteq> [] \<Longrightarrow> (\<And>w. w \<in> set ws \<Longrightarrow> c \<notin> set w) \<Longrightarrow> usplit c (ujoin c ws) = ws"
proof (induction ws)
  case (Cons w ws)
  then show ?case by (cases "ws = []") (auto simp: ujoin_Cons usplit_append usplit_single)
qed simp

lemma ujoin_concat: "ws \<noteq> [] \<Longrightarrow> concat (map (\<lambda>w. w @ [c]) ws) = ujoin c ws @ [c]"
proof (induction ws)
  case (Cons w ws)
  then show ?case by (cases "ws = []") (auto simp: ujoin_Cons)
qed simp

lemma length_lines: "length (concat (map (\<lambda>w. w @ [c]) ws)) = sum_list (map (\<lambda>l. length l + 1) ws)"
  by (induction ws) simp_all

lemma line_span:
  assumes "0 < n" and "i + n \<le> length (lines_of s)"
  shows "line_positions (lines_of s) i (i + n) (length s) = (a, b) \<Longrightarrow> a \<le> b \<and> b \<le> length s \<and>
    slice s (a, b) = join_lines (window i n (lines_of s))"
proof -
  let ?cat = "\<lambda>ws. concat (map (\<lambda>w. w @ [NL]) ws)" and ?ls = "lines_of s"
  let ?A = "take i ?ls" and ?W = "window i n ?ls" and ?B = "drop (i + n) ?ls"
  assume l: "line_positions ?ls i (i + n) (length s) = (a, b)"
  have ls: "?ls = ?A @ ?W @ ?B"
    unfolding window_def by (metis append_take_drop_id drop_drop add.commute)
  have "length ?W = n" using assms by (simp add: window_def)
  then have W: "?W \<noteq> []" using assms(1) by auto
  have "s @ [NL] = ?cat ?ls" by (simp add: ujoin_concat)
  then have cat: "s @ [NL] = ?cat ?A @ (join_lines ?W @ [NL]) @ ?cat ?B"
    using ls ujoin_concat [OF W, of NL] by (metis concat_append map_append)
  have tk: "take (i + n) ?ls = ?A @ ?W" by (simp add: window_def take_add)
  have sums: "sum_list (map (\<lambda>l. length l + 1) ?A) = length (?cat ?A)"
    "sum_list (map (\<lambda>l. length l + 1) (take (i + n) ?ls)) = length (?cat ?A) + (length (join_lines ?W) + 1)"
    unfolding length_lines [symmetric, where c = NL] tk by (simp_all add: ujoin_concat [OF W])
  have len: "length s + 1 = length (?cat ?A) + (length (join_lines ?W) + 1) + length (?cat ?B)"
    using arg_cong [OF cat, of length] by simp
  have ab: "a = length (?cat ?A)" "b = length (?cat ?A) + length (join_lines ?W)"
    using l len unfolding line_positions_def sums by auto
  have "s = ?cat ?A @ join_lines ?W @ butlast ([NL] @ ?cat ?B)"
    using arg_cong [OF cat, of butlast] by (simp add: butlast_append split: if_splits)
  then have "slice s (a, b) = join_lines ?W" unfolding slice_def ab by (metis fst_conv snd_conv add_diff_cancel_left' append_eq_conv_conj)
  then show ?thesis using ab len by simp
qed

lemma set_strip: "set (ustrip l) \<subseteq> set l" "set (ulstrip l) \<subseteq> set l"
  unfolding ustrip_def ulstrip_def by (auto dest!: set_dropWhileD)

lemma normalized_span:
  assumes "m \<in> set (find_normalized_matches s (lines_of s) (map f (lines_of s)) (join_lines (map f (lines_of p))))"
    and "\<And>l. set (f l) \<subseteq> set l"
  shows "fst m \<le> snd m \<and> snd m \<le> length s \<and> map f (lines_of (slice s m)) = map f (lines_of p)"
proof -
  have clean: "usplit NL (join_lines (map f ws)) = map f ws" if "ws \<noteq> []" "set ws \<subseteq> set (lines_of t)" for ws t
    using that assms(2) by (intro usplit_ujoin) (auto dest!: usplit_no_sep [of _ NL t] subsetD)
  let ?n = "length (lines_of p)"
  have plen: "length (lines_of (join_lines (map f (lines_of p)))) = ?n" using clean [of "lines_of p" p] by simp
  obtain i where i: "i < length (lines_of s) + 1 - ?n" "m = line_positions (lines_of s) i (i + ?n) (length s)"
    "join_lines (window i ?n (map f (lines_of s))) = join_lines (map f (lines_of p))"
    using assms(1) by (auto simp: find_normalized_matches_def plen Let_def)
  let ?W = "window i ?n (lines_of s)"
  have n: "0 < ?n" "i + ?n \<le> length (lines_of s)" using i(1) by auto
  then have "length ?W = ?n" by (simp add: window_def)
  then have W: "?W \<noteq> []" "set ?W \<subseteq> set (lines_of s)"
    using n(1) by (auto simp: window_def dest: in_set_takeD in_set_dropD)
  have m: "fst m \<le> snd m" "snd m \<le> length s" "slice s m = join_lines ?W"
    using line_span [OF n, of "fst m" "snd m"] i(2) by simp_all
  have "usplit NL (join_lines ?W) = ?W" using W by (intro usplit_ujoin) (auto dest: usplit_no_sep)
  moreover have "window i ?n (map f (lines_of s)) = map f ?W" by (simp add: window_def take_map drop_map)
  with i(3) have "join_lines (map f ?W) = join_lines (map f (lines_of p))" by (simp only:)
  then have "usplit NL (join_lines (map f ?W)) = usplit NL (join_lines (map f (lines_of p)))" by (rule arg_cong)
  then have "map f ?W = map f (lines_of p)"
    unfolding clean [OF W] clean [OF usplit_nonempty subset_refl, of p] .
  ultimately show ?thesis using m by simp
qed

subsection \<open>Squeezed whitespace\<close>

lemma align_length [simp]: "length (align cs ds ni) = length cs"
  by (induction cs ds ni rule: align.induct) auto

lemma align_sorted: "sorted (align cs ds ni) \<and> (\<forall>n \<in> set (align cs ds ni). ni \<le> n)"
  by (induction cs ds ni rule: align.induct) (auto dest: Suc_leD)

lemma squeeze_blanks: "squeeze (bs @ rs) = (if bs = [] then squeeze rs else SP # squeeze rs)"
  if "list_all blank bs" "rs = [] \<or> \<not> blank (hd rs)"
  using that(1)
proof (induction bs)
  case (Cons b bs)
  then show ?case using that(2) by (cases bs; cases rs) auto
qed simp

lemma squeeze_head: "rs = [] \<or> \<not> blank (hd rs) \<Longrightarrow> squeeze rs = [] \<and> rs = [] \<or> (\<exists>d ds. squeeze rs = d # ds \<and> \<not> blank d)"
  by (cases rs) auto

text \<open>The rest of a run of blanks whose single space is already consumed, and one whose space is not.\<close>

lemma align_after:
  assumes "list_all blank bs" and "rs = [] \<or> \<not> blank (hd rs)"
    and "{ni..<ni + length (squeeze rs)} \<subseteq> set (align rs (squeeze rs) ni)"
  shows "{ni..<ni + length (squeeze rs)} \<subseteq> set (align (bs @ rs) (squeeze rs) ni)"
  using assms(1)
proof (induction bs)
  case (Cons b bs)
  from squeeze_head [OF assms(2)] show ?case
  proof
    assume "squeeze rs = [] \<and> rs = []"
    then show ?thesis by simp
  next
    assume "\<exists>d ds. squeeze rs = d # ds \<and> \<not> blank d"
    then obtain d ds where d: "squeeze rs = d # ds" "\<not> blank d" by blast
    then have "b \<noteq> d" "d \<noteq> SP" using Cons.prems by (auto simp: blank_def)
    then have "align ((b # bs) @ rs) (squeeze rs) ni = ni # align (bs @ rs) (squeeze rs) ni" using d by simp
    then show ?thesis using Cons by auto
  qed
qed (use assms(3) in simp)

lemma align_run:
  assumes "list_all blank bs" and "bs \<noteq> []" and "rs = [] \<or> \<not> blank (hd rs)"
    and "{Suc ni..<Suc ni + length (squeeze rs)} \<subseteq> set (align rs (squeeze rs) (Suc ni))"
  shows "{ni..<Suc ni + length (squeeze rs)} \<subseteq> set (align (bs @ rs) (SP # squeeze rs) ni)"
  using assms(1,2)
proof (induction bs)
  case (Cons b bs)
  have split: "{ni..<Suc ni + n} = insert ni {Suc ni..<Suc ni + n}" for n by auto
  have b: "blank b" "list_all blank bs" using Cons.prems by simp_all
  show ?case
  proof (cases "b = SP")
    case True
    then have "set (align ((b # bs) @ rs) (SP # squeeze rs) ni) = insert ni (set (align (bs @ rs) (squeeze rs) (Suc ni)))" by simp
    then show ?thesis using align_after [OF b(2) assms(3,4)] unfolding split by blast
  next
    case False
    show ?thesis
    proof (cases "bs = []")
      case True
      show ?thesis
      proof (cases "rs = []")
        case True
        then show ?thesis using \<open>bs = []\<close> False by auto
      next
        case False
        then show ?thesis using \<open>bs = []\<close> \<open>b \<noteq> SP\<close> b(1) assms(3,4) unfolding split by auto
      qed
    next
      case False
      then have "blank (hd (bs @ rs))" using b(2) by (cases bs) auto
      then show ?thesis using Cons.IH [OF b(2) False] \<open>b \<noteq> SP\<close> b(1) by auto
    qed
  qed
qed simp

lemma align_covers: "{ni..<ni + length (squeeze s)} \<subseteq> set (align s (squeeze s) ni)"
proof (induction "length s" arbitrary: s ni rule: less_induct)
  case less
  show ?case
  proof (cases s)
    case (Cons c cs)
    show ?thesis
    proof (cases "blank c")
      case True
      let ?bs = "takeWhile blank s" and ?rs = "dropWhile blank s"
      have bs: "list_all blank ?bs" "?bs \<noteq> []" "?rs = [] \<or> \<not> blank (hd ?rs)"
        using Cons True hd_dropWhile [of blank s] by (auto simp: list_all_iff dest: set_takeWhileD)
      have "length ?rs < length s" using Cons True by (simp add: length_dropWhile_le less_Suc_eq_le)
      from align_run [OF bs less.hyps [OF this]] show ?thesis
        using squeeze_blanks [OF bs(1,3)] bs(2) by simp
    next
      case False
      have split: "{ni..<ni + Suc n} = insert ni {Suc ni..<Suc ni + n}" for n by auto
      have "{Suc ni..<Suc ni + length (squeeze cs)} \<subseteq> set (align cs (squeeze cs) (Suc ni))" using less.hyps [of cs "Suc ni"] Cons by (simp only: length_Cons lessI)
      then show ?thesis using Cons False split [of "length (squeeze cs)"] by auto
    qed
  qed simp
qed

lemma find_index:
  assumes "find P xs = Some i" shows "i \<in> set xs \<and> P i"
  using assms by (auto simp: find_Some_iff)

lemma first_at_Some: "first_at n ns = Some i \<longleftrightarrow> i < length ns \<and> ns ! i = n \<and> (\<forall>j < i. ns ! j \<noteq> n)"
  unfolding first_at_def find_Some_iff by auto

lemma whitespace_span:
  assumes "ns < ne" and "ne \<le> length (squeeze s)"
  shows "\<exists>a b. map_whitespace_position s (squeeze s) (align s (squeeze s) 0) (ns, ne) = Some (a, b) \<and> a \<le> b \<and> b \<le> length s"
proof -
  let ?o = "align s (squeeze s) 0"
  have hit: "\<exists>i < length ?o. ?o ! i = n" if "n < ne" for n
  proof -
    have "n \<in> {0..<0 + length (squeeze s)}" using that assms(2) by simp
    then have "n \<in> set ?o" using align_covers [of 0 s] by blast
    then show ?thesis by (auto simp: in_set_conv_nth)
  qed
  obtain i where "i < length ?o" "?o ! i = ns" using hit assms(1) by blast
  then have "first_from ns ?o \<noteq> None" "first_at ns ?o \<noteq> None" by (auto simp: first_from_def first_at_def find_None_iff)
  then obtain d a where d: "first_from ns ?o = Some d" and a: "first_at ns ?o = Some a" by blast
  obtain j where "j < length ?o" "?o ! j = ne - 1" using hit [of "ne - 1"] assms(1) by auto
  then have "last_at (ne - 1) ?o \<noteq> None" by (auto simp: last_at_def find_None_iff)
  then obtain b where b: "last_at (ne - 1) ?o = Some b" by blast
  have b': "b < length ?o" "?o ! b = ne - 1" using find_index [OF b [unfolded last_at_def]] by simp_all
  have a': "a < length ?o" "?o ! a = ns" "\<And>k. k < a \<Longrightarrow> ?o ! k \<noteq> ns" using a by (simp_all add: first_at_Some)
  have "a \<le> b"
  proof (rule ccontr)
    assume "\<not> a \<le> b"
    then have "?o ! b \<le> ?o ! a" using align_sorted [of s "squeeze s" 0] a'(1) by (simp add: sorted_nth_mono)
    then have "?o ! b = ns" using a' b' assms(1) by simp
    then show False using a'(3) [of b] \<open>\<not> a \<le> b\<close> by simp
  qed
  then show ?thesis using a b d a'(1) by (auto simp: map_whitespace_position_def Let_def)
qed

lemma those_map: "(\<And>x. x \<in> set xs \<Longrightarrow> \<exists>y. f x = Some y \<and> P y) \<Longrightarrow> \<exists>ys. those (map f xs) = Some ys \<and> length ys = length xs \<and> (\<forall>y \<in> set ys. P y)"
proof (induction xs)
  case (Cons x xs)
  obtain y where y: "f x = Some y" "P y" using Cons.prems [of x] by auto
  obtain ys where "those (map f xs) = Some ys" "length ys = length xs" "\<forall>y \<in> set ys. P y" using Cons by auto
  with y show ?case by auto
qed simp

subsection \<open>What a strategy finds\<close>

definition span_ok :: "utext \<Rightarrow> span \<Rightarrow> bool" where
  "span_ok s m \<longleftrightarrow> fst m \<le> snd m \<and> snd m \<le> length s"

lemma exact_spans:
  assumes "m \<in> set (strategy_exact s p)"
  shows "span_ok s m \<and> slice s m = p \<and> snd m = fst m + length p"
proof -
  obtain i where "m = (i, i + length p)" "i \<le> length s" "occurs_at s p i"
    using assms by (auto simp: strategy_exact_spans in_occurrences)
  then show ?thesis using occurs_at_fits [of s p i] by (simp add: span_ok_def slice_def occurs_at_def)
qed

lemma line_span_ok:
  assumes "0 < n" and "i < length (lines_of s) + 1 - n"
  shows "span_ok s (line_positions (lines_of s) i (i + n) (length s))"
  using line_span [OF assms(1), of i s] assms by (auto simp: span_ok_def prod_eq_iff)

lemma picked_windows:
  assumes "m \<in> set (map (\<lambda>i. line_positions (lines_of s) i (i + n) (length s)) js)" and "0 < n"
    and "set js \<subseteq> {0..<length (lines_of s) + 1 - n}"
  shows "span_ok s m"
proof -
  obtain i where "i \<in> set js" "m = line_positions (lines_of s) i (i + n) (length s)" using assms(1) by auto
  then show ?thesis using line_span_ok [OF assms(2), of i s] assms(3) by auto
qed

lemma length_usplit: "length (usplit c s) = Suc (count_list s c)"
  by (induction s) (auto split: list.split)

lemma count_replace_char: "c \<noteq> d \<Longrightarrow> d \<notin> set r \<Longrightarrow> count_list (replace_char c r s) d = count_list s d"
  by (induction s) (auto simp: replace_char_def)

lemma normalized_lines: "length (lines_of (unicode_normalize s)) = length (lines_of s)"
  by (simp add: length_usplit unicode_normalize_def UNICODE_MAP_def count_replace_char)

lemma block_anchor_spans:
  assumes "m \<in> set (strategy_block_anchor s p)"
  shows "span_ok s m"
proof (cases "length (lines_of (unicode_normalize p)) < 2")
  case True
  then show ?thesis using assms by (simp add: strategy_block_anchor_def Let_def)
next
  case False
  then show ?thesis
    using assms unfolding strategy_block_anchor_def Let_def
    by (simp only: if_False) (erule picked_windows, simp, auto simp: normalized_lines)
qed

lemma length_orig_map: "length (build_orig_to_norm_map s n) = Suc (length s)"
  by (induction s arbitrary: n) simp_all

lemma unicode_spans: "m \<in> set (map_norm_to_orig (build_orig_to_norm_map s 0) ms) \<Longrightarrow> span_ok s m"
proof -
  let ?o = "butlast (build_orig_to_norm_map s 0)"
  assume "m \<in> set (map_norm_to_orig (build_orig_to_norm_map s 0) ms)"
  then obtain ns ne a where a: "first_at ns ?o = Some a" "m = (a, a + length (takeWhile (\<lambda>p. p < ne) (drop a ?o)))"
    by (auto simp: map_norm_to_orig_def split: option.splits)
  have "length (takeWhile (\<lambda>p. p < ne) (drop a ?o)) \<le> length (drop a ?o)" by (rule length_takeWhile_le)
  moreover have "a < length s" using a(1) by (simp add: first_at_Some length_orig_map)
  ultimately show ?thesis using a(2) by (simp add: span_ok_def length_orig_map)
qed

lemma whitespace_spans:
  assumes "p \<noteq> []"
  shows "\<exists>ms. strategy_whitespace_normalized s p = Some ms \<and> (\<forall>m \<in> set ms. span_ok s m)"
proof -
  let ?n = "squeeze s" and ?ms = "strategy_exact (squeeze s) (squeeze p)"
  have p: "squeeze p \<noteq> []" using assms
  proof (induction p)
    case (Cons c p)
    then show ?case by (cases p) auto
  qed simp
  have "\<exists>y. map_whitespace_position s ?n (align s ?n 0) m = Some y \<and> span_ok s y" if "m \<in> set ?ms" for m
  proof -
    have "fst m < snd m" "snd m \<le> length ?n" using exact_spans [OF that] p by (auto simp: span_ok_def)
    from whitespace_span [OF this] show ?thesis by (auto simp: span_ok_def)
  qed
  then obtain ms where "those (map (map_whitespace_position s ?n (align s ?n 0)) ?ms) = Some ms" "\<forall>m \<in> set ms. span_ok s m"
    using those_map [of ?ms "map_whitespace_position s ?n (align s ?n 0)" "span_ok s"] by blast
  then show ?thesis
    unfolding strategy_whitespace_normalized_def map_whitespace_positions_def Let_def by (cases "?ms = []") auto
qed

text \<open>The text that a strategy without similarity accepts for a pattern.\<close>

definition described :: "char_classes \<Rightarrow> string \<Rightarrow> utext \<Rightarrow> utext \<Rightarrow> bool" where
  "described cc name old region \<longleftrightarrow>
    (name = ''exact'' \<longrightarrow> region = old) \<and>
    (name = ''line_number_prefix_stripped'' \<longrightarrow> strip_line_number_prefix cc old = Some region) \<and>
    (name = ''line_trimmed'' \<longrightarrow> map ustrip (lines_of region) = map ustrip (lines_of old)) \<and>
    (name = ''indentation_flexible'' \<longrightarrow> map ulstrip (lines_of region) = map ulstrip (lines_of old)) \<and>
    (name = ''escape_normalized'' \<longrightarrow>
       region = replace_pair BSL 114 CR (replace_pair BSL 116 TAB (replace_pair BSL 110 NL old))) \<and>
    (name = ''unicode_escape_normalized'' \<longrightarrow> region = unescape_unicode old)"

definition finds :: "char_classes \<Rightarrow> string \<Rightarrow> (utext \<Rightarrow> utext \<Rightarrow> span list option) \<Rightarrow> utext \<Rightarrow> utext \<Rightarrow> bool" where
  "finds cc name fn s p \<longleftrightarrow> (\<exists>ms. fn s p = Some ms \<and> (\<forall>m \<in> set ms. span_ok s m \<and> described cc name p (slice s m)))"

lemma findsI: "fn s p = Some ms \<Longrightarrow> (\<And>m. m \<in> set ms \<Longrightarrow> span_ok s m \<and> described cc name p (slice s m)) \<Longrightarrow> finds cc name fn s p"
  by (auto simp: finds_def)

lemma finds_rewritten:
  "finds cc ''exact'' (\<lambda>c p. Some (strategy_exact c p)) s p"
  "finds cc ''line_number_prefix_stripped'' (\<lambda>c p. Some (strategy_line_number_prefix_stripped cc c p)) s p"
  "finds cc ''escape_normalized'' (\<lambda>c p. Some (strategy_escape_normalized c p)) s p"
  "finds cc ''unicode_escape_normalized'' (\<lambda>c p. Some (strategy_unicode_escape_normalized c p)) s p"
     by (rule findsI, rule refl,
       auto simp: described_def strategy_line_number_prefix_stripped_def strategy_escape_normalized_def
         strategy_unicode_escape_normalized_def Let_def dest: exact_spans split: if_splits option.splits)+

lemma finds_normalized:
  "finds cc ''line_trimmed'' (\<lambda>c p. Some (strategy_line_trimmed c p)) s p"
  "finds cc ''indentation_flexible'' (\<lambda>c p. Some (strategy_indentation_flexible c p)) s p"
  using normalized_span [of _ s ustrip p] normalized_span [of _ s ulstrip p] set_strip
  by (auto simp: finds_def described_def span_ok_def strategy_line_trimmed_def strategy_indentation_flexible_def)

lemma finds_similar:
  "p \<noteq> [] \<Longrightarrow> finds cc ''whitespace_normalized'' strategy_whitespace_normalized s p"
  "finds cc ''trimmed_boundary'' (\<lambda>c p. Some (strategy_trimmed_boundary c p)) s p"
  "finds cc ''unicode_normalized'' (\<lambda>c p. Some (strategy_unicode_normalized c p)) s p"
  "finds cc ''block_anchor'' (\<lambda>c p. Some (strategy_block_anchor c p)) s p"
  "finds cc ''context_aware'' (\<lambda>c p. Some (strategy_context_aware c p)) s p"
proof -
  show "p \<noteq> [] \<Longrightarrow> finds cc ''whitespace_normalized'' strategy_whitespace_normalized s p"
    using whitespace_spans [of p s] by (auto simp: finds_def described_def)
  show "finds cc ''trimmed_boundary'' (\<lambda>c p. Some (strategy_trimmed_boundary c p)) s p"
    by (rule findsI, rule refl) (auto simp: strategy_trimmed_boundary_def Let_def described_def intro!: line_span_ok)
  show "finds cc ''unicode_normalized'' (\<lambda>c p. Some (strategy_unicode_normalized c p)) s p"
    by (rule findsI, rule refl) (auto simp: strategy_unicode_normalized_def Let_def described_def intro: unicode_spans split: if_splits)
  show "finds cc ''block_anchor'' (\<lambda>c p. Some (strategy_block_anchor c p)) s p"
    by (rule findsI, rule refl) (simp add: block_anchor_spans described_def)
  show "finds cc ''context_aware'' (\<lambda>c p. Some (strategy_context_aware c p)) s p"
    by (rule findsI, rule refl) (auto simp: strategy_context_aware_def Let_def described_def intro!: line_span_ok)
qed

lemma strategies_find: "p \<noteq> [] \<Longrightarrow> (name, fn) \<in> set (STRATEGIES cc) \<Longrightarrow> finds cc name fn s p"
  unfolding STRATEGIES_def using finds_rewritten finds_normalized finds_similar by auto

subsection \<open>The chain of strategies\<close>

lemma try_strategies_found:
  assumes "try_strategies cc fs s old new all = Some (Some r)"
  shows "\<exists>name fn ms. (name, fn) \<in> set fs \<and> fn s old = Some ms \<and> ms \<noteq> [] \<and> r = apply_matches cc name ms s old new all"
  using assms
proof (induction fs)
  case (Cons f fs)
  obtain name fn where f: "f = (name, fn)" by (cases f)
  show ?case
  proof (cases "(all \<and> name \<in> set BROAD_MATCHERS) \<or> fn s old = Some []")
    case True
    then have "try_strategies cc fs s old new all = Some (Some r)" using Cons.prems f by (auto split: if_splits)
    from Cons.IH [OF this] show ?thesis by auto
  next
    case False
    then obtain m ms where "fn s old = Some (m # ms)" "r = apply_matches cc name (m # ms) s old new all"
      using Cons.prems f by (auto split: option.splits list.splits if_splits)
    then show ?thesis using f by (intro exI [of _ name] exI [of _ fn] exI [of _ "m # ms"]) simp
  qed
qed simp

lemma try_strategies_total:
  assumes "\<And>name fn. (name, fn) \<in> set fs \<Longrightarrow> fn s old \<noteq> None"
  shows "try_strategies cc fs s old new all \<noteq> None"
  using assms
proof (induction fs)
  case (Cons f fs)
  obtain name fn where f: "f = (name, fn)" by (cases f)
  have "fn s old \<noteq> None" using Cons.prems f by auto
  then obtain ms where "fn s old = Some ms" by blast
  moreover have "try_strategies cc fs s old new all \<noteq> None" 
    by (rule Cons.IH) (metis Cons.prems list.set_intros(2))
  ultimately show ?case by (cases ms; cases all) (simp_all add: f)
qed simp

lemma strategies_total: "old \<noteq> [] \<Longrightarrow> (name, fn) \<in> set (STRATEGIES cc) \<Longrightarrow> fn s old \<noteq> None"
  using strategies_find [of old name fn cc s] by (auto simp: finds_def)

lemma fuzzy_count_total: "old \<noteq> [] \<Longrightarrow> fuzzy_count cc s old \<noteq> None"
proof -
  assume "old \<noteq> []"
  let ?fs = "filter (\<lambda>(name, fn). name \<in> set BROAD_MATCHERS) (STRATEGIES cc)"
  have "\<exists>y. (\<lambda>(name, fn). fn s old) f = Some y \<and> True" if "f \<in> set ?fs" for f
    using strategies_total [OF \<open>old \<noteq> []\<close>, of "fst f" "snd f" cc s] that by auto
  then obtain mss where "those (map (\<lambda>(name, fn). fn s old) ?fs) = Some mss"
    using those_map [of ?fs "\<lambda>(name, fn). fn s old" "\<lambda>_. True"] by blast
  then show ?thesis by (simp add: fuzzy_count_def)
qed

lemma exact_tried_first:
  "old \<noteq> [] \<Longrightarrow> old \<noteq> new \<Longrightarrow> strategy_exact s old \<noteq> [] \<Longrightarrow>
   fuzzy_find_and_replace cc s old new all = Some (apply_matches cc ''exact'' (strategy_exact s old) s old new all)"
  by (cases "strategy_exact s old") (simp_all add: fuzzy_find_and_replace_def STRATEGIES_def BROAD_MATCHERS_def)

lemma exact_single:
  assumes "old \<noteq> []" and "old \<noteq> new" and "occurrences s old 0 = [i]"
  shows "fuzzy_find_and_replace cc s old new all = Some (take i s @ new @ drop (i + length old) s, 1, Some ''exact'', None)"
  using exact_tried_first [OF assms(1,2), of s cc all] assms(3)
  by (simp add: strategy_exact_spans apply_matches_def splice_def replacement_def)

lemma exact_none: "strategy_exact s old = [] \<longleftrightarrow> \<not> uhas old s"
proof -
  have "occurrences s old 0 = [] \<longleftrightarrow> (\<forall>i \<le> length s. \<not> occurs_at s old i)"
    using in_occurrences [of _ s old 0] by (metis empty_iff empty_set le0 list.set_intros(1) neq_Nil_conv)
  then show ?thesis by (simp add: strategy_exact_spans uhas_def ufind_None)
qed

lemma splice_single: "span_ok s m \<Longrightarrow> splice f [m] s = take (fst m) s @ f m @ drop (snd m) s \<and> s = take (fst m) s @ slice s m @ drop (snd m) s"
proof -
  assume "span_ok s m"
  then have "drop (snd m) s = drop (snd m - fst m) (drop (fst m) s)" by (simp add: span_ok_def)
  then have "slice s m @ drop (snd m) s = drop (fst m) s" by (simp only: slice_def append_take_drop_id)
  then show ?thesis by (simp add: splice_def)
qed

subsection \<open>Properties\<close>


text \<open>C25: Replacing all occurrences is Python's \<^verbatim>\<open>str.replace\<close>, as long as no two occurrences overlap.\<close>

theorem replace_all_is_replace:
  assumes "old \<noteq> []" and "old \<noteq> new" and "uhas old s" and "apart s old"
  shows "fuzzy_find_and_replace cc s old new True =
    Some (str_replace old new s, length (occurrences s old 0), Some ''exact'', None)"
proof -
  let ?ms = "map (\<lambda>i. (i, i + length old)) (occurrences s old 0)"
  have ms: "strategy_exact s old = ?ms" "?ms \<noteq> []"
    using assms(3) exact_none [of s old] by (simp_all add: strategy_exact_spans)
  have a: "assemble (\<lambda>_. new) s 0 ?ms = str_replace old new s" "in_line 0 s ?ms"
    using assemble_replace [OF assms(1,4), of 0 new] by simp_all
  have "inj_on fst (set ?ms)" by (auto simp: inj_on_def)
  then have "from_the_end ?ms = rev ?ms" using in_line_starts [OF a(2)] by (intro from_the_end_sorted) simp_all
  moreover have "replacement cc ''exact'' s old new = (\<lambda>_. new)" by (simp add: replacement_def fun_eq_iff)
  ultimately have "apply_matches cc ''exact'' ?ms s old new True = (str_replace old new s, length ?ms, Some ''exact'', None)"
    using splice_assemble [OF a(2)] a(1) by (simp add: apply_matches_def)
  then show ?thesis using exact_tried_first [OF assms(1,2), of s cc True] ms by simp
qed

text \<open>C26: An exact edit can be undone: replacing the new text, where it is unique, by the old one
  restores the file.\<close>

theorem exact_edit_undone:
  assumes "fuzzy_find_and_replace cc s old new False = Some (s', 1, Some ''exact'', None)"
    and "new \<noteq> []" and "length (occurrences s' new 0) = 1"
  shows "fuzzy_find_and_replace cc s' new old False = Some (s, 1, Some ''exact'', None)"
proof -
  have old: "old \<noteq> []" "old \<noteq> new" using assms(1) by (auto simp: fuzzy_find_and_replace_def split: if_splits)
  have ne: "strategy_exact s old \<noteq> []"
  proof
    assume none: "strategy_exact s old = []"
    have "try_strategies cc (STRATEGIES cc) s old new False = Some (Some (s', 1, Some ''exact'', None))"
      using assms(1) old by (auto simp: fuzzy_find_and_replace_def split: option.splits)
    from try_strategies_found [OF this] none show False
      by (auto simp: STRATEGIES_def apply_matches_def split: if_splits option.splits)
  qed
  then obtain i where i: "occurrences s old 0 = [i]"
    using exact_tried_first [OF old ne, of cc False] assms(1)
    by (cases "occurrences s old 0") (auto simp: strategy_exact_spans apply_matches_def split: if_splits)
  then have occ: "i \<le> length s" "occurs_at s old i" using in_occurrences [of i s old 0] by auto
  have s': "s' = take i s @ new @ drop (i + length old) s" using exact_single [OF old i, of cc False] assms(1) by simp
  have s: "s = take i s @ old @ drop (i + length old) s"
    using occ(2) append_take_drop_id [of i s] append_take_drop_id [of "length old" "drop i s"] by (simp add: occurs_at_def add.commute)
  have "occurs_at s' new i" "i \<le> length s'" using occ(1) by (auto simp: s' occurs_at_def)
  then have "i \<in> set (occurrences s' new 0)" by (simp add: in_occurrences)
  then have "occurrences s' new 0 = [i]" using assms(3) by (cases "occurrences s' new 0") auto
  from exact_single [OF assms(2) old(2) [symmetric] this, of cc False] show ?thesis using s' s occ(1) by simp
qed

text \<open>The search never raises, and a refusal, of whatever kind, leaves the content as it is and reports
  no replacement.\<close>

theorem refusal_changes_nothing:
  "\<exists>s' n name err. fuzzy_find_and_replace cc s old new all = Some (s', n, name, err) \<and>
     (case err of Some e \<Rightarrow> s' = s \<and> n = 0 \<and> name = None | None \<Rightarrow> 0 < n \<and> name \<noteq> None)"
proof (cases "old = [] \<or> old = new")
  case True
  then show ?thesis by (cases "old = []") (simp_all add: fuzzy_find_and_replace_def)
next
  case False
  then have old: "old \<noteq> []" "old \<noteq> new" by auto
  obtain r where r: "try_strategies cc (STRATEGIES cc) s old new all = Some r"
    using try_strategies_total [of "STRATEGIES cc" s old cc new all] strategies_total [OF old(1)] by blast
  show ?thesis
  proof (cases r)
    case None
    obtain k where "fuzzy_count cc s old = Some k" using fuzzy_count_total [OF old(1), of cc s] by blast
    then have "\<exists>e. fuzzy_find_and_replace cc s old new all = Some (s, 0, None, Some e)"
      using r None old by (auto simp: fuzzy_find_and_replace_def)
    then show ?thesis by auto
  next
    case (Some q)
    from try_strategies_found [OF r [unfolded Some]] obtain name ms where
      m: "ms \<noteq> []" "q = apply_matches cc name ms s old new all" by blast
    have f: "fuzzy_find_and_replace cc s old new all = Some q" using r Some old by (simp add: fuzzy_find_and_replace_def)
    obtain s' n nm err where q: "q = (s', n, nm, err)" by (cases q)
    have "case err of Some e \<Rightarrow> s' = s \<and> n = 0 \<and> nm = None | None \<Rightarrow> 0 < n \<and> nm \<noteq> None"
      using m q by (auto simp: apply_matches_def split: if_splits option.splits)
    then show ?thesis using f q by blast
  qed
qed

subsection \<open>Concrete edits\<close>

definition ascii_classes :: char_classes where
  "ascii_classes = \<lparr>cc_alpha = (\<lambda>c. 65 \<le> c \<and> c \<le> 90 \<or> 97 \<le> c \<and> c \<le> 122), cc_decimal = (\<lambda>c. 48 \<le> c \<and> c \<le> 57)\<rparr>"

definition cps :: "string \<Rightarrow> utext" where
  "cps s = map of_char s"


theorem replace_all_is_replace_witness:
  "fuzzy_find_and_replace ascii_classes (cps ''ab-ab'') (cps ''ab'') (cps ''c'') True =
     Some (str_replace (cps ''ab'') (cps ''c'') (cps ''ab-ab''), 2, Some ''exact'', None)"
proof -
  have occ: "occurrences (cps ''ab-ab'') (cps ''ab'') 0 = [0, 3]" by code_simp
  have "apart (cps ''ab-ab'') (cps ''ab'')"
    unfolding apart_def
  proof (intro allI impI)
    fix i j assume *: "occurs_at (cps ''ab-ab'') (cps ''ab'') i" "occurs_at (cps ''ab-ab'') (cps ''ab'') j" "i < j"
      "j \<le> length (cps ''ab-ab'')"
    have "k \<in> {0, 3}" if "occurs_at (cps ''ab-ab'') (cps ''ab'') k" "k \<le> length (cps ''ab-ab'')" for k
    proof -
      have "k \<in> set (occurrences (cps ''ab-ab'') (cps ''ab'') 0)" using that by (simp add: in_occurrences)
      then show ?thesis unfolding occ by simp
    qed
    from this [OF *(1)] this [OF *(2)] *(3,4) have "i \<in> {0, 3}" "j \<in> {0, 3}" by simp_all
    then show "i + length (cps ''ab'') \<le> j" using *(3) by (auto simp: cps_def)
  qed
  moreover have "cps ''ab'' \<noteq> []" "cps ''ab'' \<noteq> cps ''c''" "uhas (cps ''ab'') (cps ''ab-ab'')" by code_simp+
  ultimately show ?thesis using replace_all_is_replace [of "cps ''ab''" "cps ''c''" "cps ''ab-ab''" ascii_classes] occ by simp
qed

theorem exact_edit_undone_witness:
  "fuzzy_find_and_replace ascii_classes (cps ''a=20'') (cps ''20'') (cps ''1'') False = Some (cps ''a=1'', 1, Some ''exact'', None)"
  by (rule exact_edit_undone) code_simp+

text \<open>Three corners where the tool damages a file. Overlapping occurrences are replaced on top of each
  other, so that text outside of them is lost; a pattern that is an empty numbered line is read as the empty
  text, which \<open>replace_all\<close> inserts between all characters; and the strategy for typographic characters
  falls back to the comparison of trimmed lines, which \<open>replace_all\<close> is meant to exclude.\<close>

theorem replace_all_corners:
  "fuzzy_find_and_replace ascii_classes (cps ''aaa'') (cps ''aa'') (cps ''b'') True = Some (cps ''b'', 2, Some ''exact'', None) \<and>
   str_replace (cps ''aa'') (cps ''b'') (cps ''aaa'') = cps ''ba'' \<and>
   fuzzy_find_and_replace ascii_classes (cps ''abc'') (cps ''1|'') (cps ''-'') True =
     Some (cps ''-a-b-c-'', 4, Some ''line_number_prefix_stripped'', None) \<and>
   fuzzy_find_and_replace ascii_classes (cps ''a; b;'' @ [NL, 0x2026]) (cps '' a; b; '') (cps ''c'') True =
     Some (cps ''c'' @ [NL, 0x2026], 1, Some ''unicode_normalized'', None)"
  by code_simp

end
