(* ===== verification/Announce.thy ===== *)
theory Announce
  imports Run_Manager TaskFlow_Resume Effects Steering
begin

section \<open>Announcing the result of a run\<close>

text \<open>
  Models \<^verbatim>\<open>src/agent/tools/subagent/announce/\<close>: \<^verbatim>\<open>delivery.py\<close> with \<^verbatim>\<open>dispatch.py\<close>, \<^verbatim>\<open>idempotency.py\<close>,
  \<^verbatim>\<open>completion_message.py\<close> and the part of \<^verbatim>\<open>origin.py\<close> it reads, the busy test of
  \<^verbatim>\<open>registry/session_state.py\<close>, and the handler of completion notices in
  \<^verbatim>\<open>src/server/service/effects/handlers.py\<close>. A delivery meets the run registry, the task flows, the steering
  queue and the intent log. Parameters are the event bus (which attempts fail, and how), the target hook,
  the live signals of a session, the auto-turn trigger and the iteration order of a Python set.
\<close>

subsection \<open>Errors and delays\<close>

text \<open>\<^verbatim>\<open>re.search(r"a\s*b", s, re.IGNORECASE)\<close> for a list of words.\<close>

fun words_here :: "string list \<Rightarrow> string \<Rightarrow> bool" where
  "words_here [] s = True"
| "words_here [w] s = starts_with w s"
| "words_here (w # v # ws) s = (starts_with w s \<and> words_here (v # ws) (lstrip (drop (length w) s)))"

fun words_found :: "string list \<Rightarrow> string \<Rightarrow> bool" where
  "words_found ws [] = words_here ws []"
| "words_found ws (c # s) = (words_here ws (c # s) \<or> words_found ws s)"

definition TRANSIENT_PATTERNS :: "string list list" where
  "TRANSIENT_PATTERNS =
    [[''timeout''], [''connection'', ''reset''], [''connection'', ''refused''], [''connection'', ''aborted''],
     [''temporarily'', ''unavailable''], [''rate'', ''limit''], [''queue'', ''full''], [''retry''],
     [''econnreset''], [''econnrefused''], [''etimedout'']]"

definition PERMANENT_PATTERNS :: "string list list" where
  "PERMANENT_PATTERNS =
    [[''not'', ''found''], [''permission'', ''denied''], [''unauthorized''], [''forbidden''], [''invalid'', ''session''],
     [''session'', ''expired''], [''channel'', ''not'', ''found''], [''enoent'']]"

datatype error_class = Permanent | Transient | Unknown_Error

definition classify_delivery_error :: "string \<Rightarrow> error_class" where
  "classify_delivery_error error =
    (if list_ex (\<lambda>ws. words_found ws (lower error)) PERMANENT_PATTERNS then Permanent
     else if list_ex (\<lambda>ws. words_found ws (lower error)) TRANSIENT_PATTERNS then Transient else Unknown_Error)"

definition TRANSIENT_RETRY_DELAYS_MS :: "nat list" where
  "TRANSIENT_RETRY_DELAYS_MS = [5000, 10000, 20000]"

definition COMPACTION_RETRY_DELAYS_MS :: "nat list" where
  "COMPACTION_RETRY_DELAYS_MS = [1000, 2000, 4000, 8000]"

definition MIRROR_MAX :: nat where
  "MIRROR_MAX = 5000"

definition resolve_transient_retry_delay_ms :: "nat \<Rightarrow> rat" where
  "resolve_transient_retry_delay_ms attempt =
    of_nat (if attempt < length TRANSIENT_RETRY_DELAYS_MS then TRANSIENT_RETRY_DELAYS_MS ! attempt
            else last TRANSIENT_RETRY_DELAYS_MS) / 1000"

definition resolve_compaction_retry_delay_ms :: "nat \<Rightarrow> rat" where
  "resolve_compaction_retry_delay_ms attempt =
    of_nat (if attempt < length COMPACTION_RETRY_DELAYS_MS then COMPACTION_RETRY_DELAYS_MS ! attempt
            else last COMPACTION_RETRY_DELAYS_MS) / 1000"

subsection \<open>State\<close>

text \<open>A message on the bus; the generation is not part of the message, it identifies the announced run.\<close>

record inbound =
  in_sender :: string
  in_content :: string
  in_session :: text_id
  in_run :: text_id
  in_generation :: nat

record announce_result =
  ar_success :: bool
  ar_error :: "string option"
  ar_suspended :: bool
  ar_path :: "string list"
  ar_terminal :: bool

definition delivery_ok :: announce_result where
  "delivery_ok = \<lparr>ar_success = True, ar_error = None, ar_suspended = False, ar_path = [], ar_terminal = False\<rparr>"

definition delivery_error :: "string \<Rightarrow> announce_result" where
  "delivery_error e = \<lparr>ar_success = False, ar_error = Some e, ar_suspended = False, ar_path = [], ar_terminal = False\<rparr>"

record live_signals =
  ls_ws_task :: bool
  ls_answering :: bool
  ls_hitl_pending :: bool
  ls_auto_turn_inflight :: bool

record announcer =
  an_registry :: registry
  an_delivered :: "text_id list"
  an_mirror :: "(text_id \<times> text_id) list"
  an_bus :: "inbound list"
  an_tries :: nat
  an_slept :: "rat list"
  an_flows :: flow_table
  an_injections :: "injection list"
  an_steered :: "(text_id \<times> carrier) list"
  an_turns :: "(text_id \<times> carrier) list"
  an_intents :: intent_table

text \<open>The trigger answers whether a turn was started, \<^const>\<open>None\<close> when it raises.\<close>

record announce_env =
  ae_cfg :: subagent_config
  ae_retry_max :: nat
  ae_retry_base :: nat
  ae_bus :: "nat \<Rightarrow> string option"
  ae_redirect :: "run \<Rightarrow> text_id option"
  ae_resume :: resume_env
  ae_others :: "nat \<Rightarrow> flow_table \<Rightarrow> flow_table"
  ae_websocket :: "text_id \<Rightarrow> bool"
  ae_signals :: "text_id \<Rightarrow> live_signals"
  ae_trigger :: "text_id \<Rightarrow> carrier \<Rightarrow> bool option"
  ae_steer_fails :: "nat \<Rightarrow> bool"
  ae_set_order :: "text_id list \<Rightarrow> text_id list"
  ae_effects :: effect_config
  ae_intent_id :: nat

subsection \<open>Idempotency\<close>

definition build_idempotency_key :: "text_id \<Rightarrow> nat \<Rightarrow> string option \<Rightarrow> text_id" where
  "build_idempotency_key run_id generation suffix =
    ''subagent_announce:'' @ run_id @ '':gen:'' @ show_nat generation @
    (if truthy_text suffix then '':'' @ the suffix else [])"

definition run_key :: "run \<Rightarrow> text_id" where
  "run_key r = build_idempotency_key (r_run_id r) (r_generation r) None"

definition is_already_delivered :: "run \<Rightarrow> announcer \<Rightarrow> bool" where
  "is_already_delivered r st = (run_key r \<in> set (an_delivered st))"

definition mark_delivered :: "announce_env \<Rightarrow> run \<Rightarrow> announcer \<Rightarrow> announcer" where
  "mark_delivered env r st =
    (let keys = (if run_key r \<in> set (an_delivered st) then an_delivered st else an_delivered st @ [run_key r]);
         oldest = take 5000 (ae_set_order env keys)
     in st\<lparr>an_delivered := if 10000 < length keys then filter (\<lambda>k. k \<notin> set oldest) keys else keys\<rparr>)"

definition result_of_run :: "run \<Rightarrow> string" where
  "result_of_run r = (case cp_result_text (r_completion r) of None \<Rightarrow> [] | Some s \<Rightarrow> s)"

definition content_key :: "run \<Rightarrow> text_id" where
  "content_key r = r_child_session_key r @ '':'' @ show_nat (r_generation r) @ '':'' @ take 200 (result_of_run r)"

definition check_delivery_mirror :: "run \<Rightarrow> announcer \<Rightarrow> bool \<times> announcer" where
  "check_delivery_mirror r st =
    (if dict_get (an_mirror st) (content_key r) \<noteq> None then (True, st)
     else (let m = dict_set (content_key r) (r_run_id r) (an_mirror st)
           in (False, st\<lparr>an_mirror := if MIRROR_MAX < length m then drop (MIRROR_MAX div 2) m else m\<rparr>)))"

subsection \<open>Messages\<close>

definition outcome_of :: "run \<Rightarrow> run_outcome" where
  "outcome_of r = (case ex_outcome (r_execution r) of None \<Rightarrow> \<lparr>oc_status = OC_UNKNOWN, oc_error = None\<rparr> | Some c \<Rightarrow> c)"

fun outcome_value :: "outcome_status \<Rightarrow> string" where
  "outcome_value OC_OK = ''ok''"
| "outcome_value OC_ERROR = ''error''"
| "outcome_value OC_TIMEOUT = ''timeout''"
| "outcome_value OC_KILLED = ''killed''"
| "outcome_value OC_UNKNOWN = ''unknown''"

definition user_stopped :: "run_outcome \<Rightarrow> bool" where
  "user_stopped c = has_sub ''user_stop'' (lower (case oc_error c of None \<Rightarrow> [] | Some e \<Rightarrow> e))"

definition NEWLINE :: string where
  "NEWLINE = [CHR 0x0A]"

definition QUOTE :: string where
  "QUOTE = [CHR 0x22]"

text \<open>\<^verbatim>\<open>ctx.child_label or ctx.task[:30]\<close>.\<close>

definition shown_label :: "run \<Rightarrow> string" where
  "shown_label r = (if truthy_text (r_label r) then the (r_label r) else take 30 (r_task r))"

definition truncated :: "nat \<Rightarrow> string \<Rightarrow> string" where
  "truncated n s = (if n < length s then take n s @ NEWLINE @ ''... [truncated]'' else s)"

definition internal_injection :: "run \<Rightarrow> inbound" where
  "internal_injection r =
    \<lparr>in_sender = ''subagent_internal'',
     in_content = ''[Subagent Internal] '' @ shown_label r @ '': '' @ outcome_value (oc_status (outcome_of r)) @
       (if result_of_run r = [] then [] else NEWLINE @ take 500 (result_of_run r)),
     in_session = r_requester_session_key r, in_run = r_run_id r, in_generation = r_generation r\<rparr>"

definition status_text :: "run_outcome \<Rightarrow> string" where
  "status_text c =
    (case oc_status c of
       OC_KILLED \<Rightarrow> if user_stopped c then ''interrupted by the user'' else ''killed''
     | OC_ERROR \<Rightarrow> ''failed: '' @ or_else (oc_error c) ''unknown error''
     | OC_TIMEOUT \<Rightarrow> ''timed out''
     | _ \<Rightarrow> ''completed successfully'')"

text \<open>A dash of the source outside ASCII is written as a hyphen.\<close>

definition completion_parts :: "run \<Rightarrow> string list" where
  "completion_parts r =
    [''**[Subagent Task]** ['' @ shown_label r @ '']'', ''Status: '' @ status_text (outcome_of r), ''Task: '' @ r_task r] @
    (if result_of_run r \<noteq> []
     then [''Result:'' @ NEWLINE @
           truncated (oc_delivery_chars (resolve_subagent_output_caps (r_max_output_tokens r))) (result_of_run r)]
     else if oc_status (outcome_of r) = OC_TIMEOUT
     then [''Partial work may be available - use sessions_messages(target_session_key='' @ QUOTE @ r_child_session_key r @ QUOTE @
           '') to review what was accomplished before the timeout.'']
     else []) @
    [NEWLINE @ ''Please review the sub-agent execution results above. Provide further instructions if needed.'']"

definition completion_message :: "run \<Rightarrow> inbound" where
  "completion_message r =
    \<lparr>in_sender = ''subagent'', in_content = join (NEWLINE @ NEWLINE) (completion_parts r),
     in_session = r_requester_session_key r, in_run = r_run_id r, in_generation = r_generation r\<rparr>"

text \<open>A requester that is itself the child of a run gets the internal injection.\<close>

definition is_requester_subagent :: "run \<Rightarrow> registry \<Rightarrow> bool" where
  "is_requester_subagent r s = (find_by_child_session_key (r_requester_session_key r) s \<noteq> None)"

definition announcement :: "run \<Rightarrow> registry \<Rightarrow> inbound" where
  "announcement r s = (if is_requester_subagent r s then internal_injection r else completion_message r)"

subsection \<open>Delivery with retries\<close>

definition retry_delay_of :: "announce_env \<Rightarrow> error_class \<Rightarrow> nat \<Rightarrow> nat \<Rightarrow> run \<Rightarrow> rat" where
  "retry_delay_of env ec attempt compaction r =
    (case ec of
       Transient \<Rightarrow> resolve_transient_retry_delay_ms attempt
     | _ \<Rightarrow> if has_sub '':subagent:'' (r_requester_session_key r) then resolve_compaction_retry_delay_ms compaction
           else of_nat (resolve_announce_retry_delay_ms attempt (ae_retry_base env)) / 1000)"

definition uses_compaction :: "error_class \<Rightarrow> run \<Rightarrow> bool" where
  "uses_compaction ec r = (ec \<noteq> Transient \<and> has_sub '':subagent:'' (r_requester_session_key r))"

text \<open>\<open>left\<close> attempts remain; the attempt and the compaction attempt count from 0.\<close>

fun deliver_attempts ::
    "announce_env \<Rightarrow> time \<Rightarrow> nat \<Rightarrow> nat \<Rightarrow> nat \<Rightarrow> run \<Rightarrow> announcer \<Rightarrow> announce_result \<times> announcer" where
  "deliver_attempts env now 0 attempt compaction r st = (delivery_error ''Max retries exceeded'', st)"
| "deliver_attempts env now (Suc left) attempt compaction r st =
    (let st1 = st\<lparr>an_tries := an_tries st + 1\<rparr>
     in case ae_bus env (an_tries st) of
          None \<Rightarrow> (delivery_ok, st1\<lparr>an_bus := an_bus st @ [announcement r (an_registry st)]\<rparr>)
        | Some e \<Rightarrow>
            (let ec = classify_delivery_error e
             in if ec = Permanent then (delivery_error (''permanent: '' @ e), st1)
                else (let r1 = mark_delivery_failed now e r;
                          st2 = st1\<lparr>an_registry := set_run_durable r1 (an_registry st),
                                    an_slept := an_slept st @ [retry_delay_of env ec attempt compaction r]\<rparr>
                      in deliver_attempts env now left (attempt + 1)
                           (if uses_compaction ec r then compaction + 1 else compaction) r1 st2)))"

definition deliver_with_retry :: "announce_env \<Rightarrow> time \<Rightarrow> run \<Rightarrow> announcer \<Rightarrow> announce_result \<times> announcer" where
  "deliver_with_retry env now r st = deliver_attempts env now (ae_retry_max env) 0 0 r st"

text \<open>The only strategy is the direct one; its failure is reported as that of all strategies.\<close>

definition run_announce_dispatch :: "announce_env \<Rightarrow> time \<Rightarrow> run \<Rightarrow> announcer \<Rightarrow> announce_result \<times> announcer" where
  "run_announce_dispatch env now r st =
    (case deliver_with_retry env now r st of (res, st1) \<Rightarrow>
       if ar_success res \<or> ar_suspended res then (res\<lparr>ar_path := ar_path res @ [''direct-primary'']\<rparr>, st1)
       else (\<lparr>ar_success = False, ar_error = Some ''All dispatch strategies failed'', ar_suspended = False,
              ar_path = [''direct-primary''], ar_terminal = True\<rparr>, st1))"

subsection \<open>The third path\<close>

text \<open>Is the session processing a turn? The first live signal decides and gives the reason.\<close>

definition busy_reason :: "live_signals \<Rightarrow> string" where
  "busy_reason l =
    (if ls_ws_task l then ''ws_task'' else if ls_answering l then ''answering''
     else if ls_hitl_pending l then ''hitl_pending'' else if ls_auto_turn_inflight l then ''auto_turn_inflight'' else ''idle'')"

definition detect_state :: "(text_id \<Rightarrow> live_signals) \<Rightarrow> text_id \<Rightarrow> text_id \<times> bool \<times> string" where
  "detect_state signals session_key =
    (let i = normalize_session_key session_key; reason = busy_reason (signals i) in (i, reason \<noteq> ''idle'', reason))"

definition resolve_builder_status :: "run \<Rightarrow> string" where
  "resolve_builder_status r =
    (if oc_status (outcome_of r) = OC_OK then ''completed''
     else if oc_status (outcome_of r) = OC_KILLED \<and> user_stopped (outcome_of r) then ''interrupted'' else ''failed'')"

definition child_name :: "run \<Rightarrow> string" where
  "child_name r = or_else (or_text (r_label r) (r_task_name r)) ''unknown''"

definition build_completion_message :: "run \<Rightarrow> string \<Rightarrow> string \<Rightarrow> carrier" where
  "build_completion_message r content status =
    (let marker = ''[subagent:'' @ child_name r @ '' '' @ status @ '']''
     in \<lparr>ca_text = (if content = [] then marker else marker @ NEWLINE @ content),
         ca_run = Some (r_run_id r), ca_status = Some status\<rparr>)"

definition injection_of :: "run \<Rightarrow> carrier" where
  "injection_of r =
    build_completion_message r
      (truncated (oc_delivery_chars (resolve_subagent_output_caps (r_max_output_tokens r))) (result_of_run r))
      (resolve_builder_status r)"

definition already_consumed :: "run \<Rightarrow> announcer \<Rightarrow> bool" where
  "already_consumed r st =
    (case store_get (r_run_id r) (an_injections st) of None \<Rightarrow> False | Some q \<Rightarrow> inj_status q = Injection_Consumed)"

text \<open>A failed enqueue is tried once more behind the routing; the second failure is only logged.\<close>

definition steer :: "text_id \<Rightarrow> carrier \<Rightarrow> announcer \<Rightarrow> announcer" where
  "steer bare m st = st\<lparr>an_steered := an_steered st @ [(bare, m)]\<rparr>"

definition steer_fallback :: "announce_env \<Rightarrow> text_id \<Rightarrow> carrier \<Rightarrow> announcer \<Rightarrow> announcer" where
  "steer_fallback env bare m st = (if ae_steer_fails env 1 then st else steer bare m st)"

definition steer_or_fallback :: "announce_env \<Rightarrow> text_id \<Rightarrow> carrier \<Rightarrow> announcer \<Rightarrow> announcer" where
  "steer_or_fallback env bare m st = (if ae_steer_fails env 0 then steer_fallback env bare m st else steer bare m st)"

definition route_completion_injection :: "announce_env \<Rightarrow> run \<Rightarrow> announcer \<Rightarrow> announcer" where
  "route_completion_injection env r st =
    (let raw = strip (r_requester_session_key r); bare = normalize_session_key raw; m = injection_of r
     in if raw = [] \<or> bare = [] \<or> bare = raw \<or> already_consumed r st then st
        else if resolve_builder_status r = ''interrupted'' \<or> fst (snd (detect_state (ae_signals env) bare))
        then steer_or_fallback env bare m st
        else if \<not> ae_websocket env bare then st
        else (case ae_trigger env bare m of
                Some True \<Rightarrow> st\<lparr>an_turns := an_turns st @ [(bare, m)]\<rparr>
              | _ \<Rightarrow> steer_fallback env bare m st))"

definition maybe_route_third_path :: "announce_env \<Rightarrow> run \<Rightarrow> announce_result \<Rightarrow> announcer \<Rightarrow> announcer" where
  "maybe_route_third_path env r res st = (if ar_success res then route_completion_injection env r st else st)"

subsection \<open>The flow of a dispatched child\<close>

definition declared_of_run :: "run \<Rightarrow> string" where
  "declared_of_run r =
    (case ex_outcome (r_execution r) of
       None \<Rightarrow> []
     | Some c \<Rightarrow> if oc_status c = OC_TIMEOUT \<or> oc_status c = OC_KILLED then ''failure'' else [])"

definition resume_call_of :: "run \<Rightarrow> resume_call" where
  "resume_call_of r =
    \<lparr>rc_child = r_child_session_key r, rc_result = strip (result_of_run r), rc_expected = None, rc_usage = None,
     rc_criteria = [], rc_structured = JNull, rc_outcome = declared_of_run r, rc_auto = True\<rparr>"

definition try_auto_resume_taskflow :: "announce_env \<Rightarrow> time \<Rightarrow> run \<Rightarrow> announcer \<Rightarrow> bool \<times> announcer" where
  "try_auto_resume_taskflow env now r st =
    (case get_flow_for_child_session (r_child_session_key r) (an_flows st) of
       None \<Rightarrow> (False, st)
     | Some f \<Rightarrow>
         if fl_id f = [] \<or> strip (fl_session f) = [] then (False, st)
         else (case taskflow_resume (ae_resume env) (ae_others env) now (fl_id f) (resume_call_of r) (strip (fl_session f)) (an_flows st) of
                 (res, t) \<Rightarrow>
                   ((case res of Resumed _ \<Rightarrow> True | Resume_Skipped _ _ \<Rightarrow> True | _ \<Rightarrow> False), st\<lparr>an_flows := t\<rparr>)))"

subsection \<open>One delivery\<close>

definition settle_delivery :: "announce_env \<Rightarrow> time \<Rightarrow> nat \<Rightarrow> run \<Rightarrow> announce_result \<Rightarrow> announcer \<Rightarrow> announce_result \<times> announcer" where
  "settle_delivery env now pending r res st =
    (if ar_success res
     then (let st1 = mark_delivered env r (maybe_route_third_path env r res st)
           in (res, st1\<lparr>an_registry := set_run_durable (mark_delivery_delivered now r) (an_registry st1)\<rparr>))
     else if ar_suspended res then (res, st)
     else if should_discard_delivery (cf_max_announce_retry_count (ae_cfg env)) (cf_announce_hard_expiry_ms (ae_cfg env)) (Some now) now r
     then (res\<lparr>ar_terminal := True\<rparr>,
           st\<lparr>an_registry := set_run_durable (mark_delivery_discarded ''max_retries_or_expiry'' r) (an_registry st)\<rparr>)
     else if cf_suspend_soft_cap (ae_cfg env) \<le> pending
     then (res\<lparr>ar_suspended := True\<rparr>,
           st\<lparr>an_registry := set_run_durable (mark_delivery_suspended now r) (an_registry st)\<rparr>)
     else (res, st))"

definition redirected :: "announce_env \<Rightarrow> run \<Rightarrow> run" where
  "redirected env r = (case ae_redirect env r of None \<Rightarrow> r | Some k \<Rightarrow> r\<lparr>r_requester_session_key := k\<rparr>)"

definition start_delivery :: "announce_env \<Rightarrow> time \<Rightarrow> run \<Rightarrow> announcer \<Rightarrow> announcer" where
  "start_delivery env now r st =
    (let s1 = set_run_durable r (an_registry st);
         s2 = (if ae_redirect env r = None then s1 else set_run (redirected env r) s1)
     in st\<lparr>an_registry := s2\<rparr>)"

definition announce_body :: "announce_env \<Rightarrow> time \<Rightarrow> nat \<Rightarrow> run \<Rightarrow> announcer \<Rightarrow> announce_result \<times> announcer" where
  "announce_body env now pending r st =
    (let r1 = mark_delivery_in_progress now r; r2 = redirected env r1;
         st1 = start_delivery env now r1 st;
         st2 = snd (try_auto_resume_taskflow env now r2 st1)
     in case run_announce_dispatch env now r2 st2 of (res, st3) \<Rightarrow> settle_delivery env now pending r2 res st3)"

definition deliver_impl :: "announce_env \<Rightarrow> time \<Rightarrow> run \<Rightarrow> announcer \<Rightarrow> announce_result \<times> announcer" where
  "deliver_impl env now r st =
    (if is_already_delivered r st then (delivery_ok, st)
     else (case check_delivery_mirror r st of
             (True, st1) \<Rightarrow> (delivery_ok, st1)
           | (False, st1) \<Rightarrow>
               if \<not> cp_required (r_completion r)
               then (delivery_ok, st1\<lparr>an_registry := set_run_durable (mark_delivery_delivered now r) (an_registry st1)\<rparr>)
               else (let pending = count_pending_descendant_runs (r_requester_session_key r) (an_registry st1)
                     in if cf_suspend_hard_cap (ae_cfg env) \<le> pending
                        then ((delivery_error ''Hard cap exceeded'')\<lparr>ar_suspended := True\<rparr>,
                              st1\<lparr>an_registry := set_run_durable (mark_delivery_suspended now r) (an_registry st1)\<rparr>)
                        else announce_body env now pending r st1)))"

subsection \<open>The intent log around it\<close>

definition NOTICE_KIND :: string where
  "NOTICE_KIND = ''completion_notice''"

definition notice_payload :: "run \<Rightarrow> (string \<times> json) list" where
  "notice_payload r =
    [(''run_id'', JStr (r_run_id r)), (''session_key'', JStr (r_requester_session_key r)),
     (''result_text'', JStr (take 24000 (result_of_run r)))]"

definition enqueue_notice :: "announce_env \<Rightarrow> time \<Rightarrow> run \<Rightarrow> announcer \<Rightarrow> (nat \<times> nat) option \<times> announcer" where
  "enqueue_notice env now r st =
    (case enqueue_intent (ae_intent_id env) now NOTICE_KIND (''run:'' @ r_run_id r) (notice_payload r) None (an_intents st) of
       (i, t) \<Rightarrow> (i, st\<lparr>an_intents := t\<rparr>))"

definition settle_shadow :: "time \<Rightarrow> (nat \<times> nat) option \<Rightarrow> announce_result \<Rightarrow> announcer \<Rightarrow> announcer" where
  "settle_shadow now shadow res st =
    (case shadow of
       None \<Rightarrow> st
     | Some (i, g) \<Rightarrow>
         st\<lparr>an_intents :=
           (if ar_success res then snd (mark_done now i g (an_intents st))
            else if ar_terminal res then snd (mark_abandoned now i g (an_intents st))
            else snd (mark_retry now i g (now + 5) (an_intents st)))\<rparr>)"

definition deliver_subagent_announcement :: "announce_env \<Rightarrow> time \<Rightarrow> bool \<Rightarrow> run \<Rightarrow> announcer \<Rightarrow> announce_result \<times> announcer" where
  "deliver_subagent_announcement env now from_effects r st =
    (if \<not> from_effects \<and> effects_execution_enabled (ae_effects env) then (delivery_ok, snd (enqueue_notice env now r st))
     else (let (shadow, st1) = (if \<not> from_effects \<and> effects_shadow_enabled (ae_effects env) then enqueue_notice env now r st else (None, st))
           in case deliver_impl env now r st1 of (res, st2) \<Rightarrow> (res, settle_shadow now shadow res st2)))"

definition handle_completion_notice :: "announce_env \<Rightarrow> time \<Rightarrow> (string \<times> json) list \<Rightarrow> announcer \<Rightarrow> effect_result \<times> announcer" where
  "handle_completion_notice env now payload st =
    (let run_id = text_of (jget ''run_id'' payload);
         abandon = \<lparr>er_done = False, er_retry_after = None, er_abandon = True\<rparr>
     in if run_id = [] then (abandon, st)
        else (case mem_get run_id (an_registry st) of
                None \<Rightarrow> (abandon, st)
              | Some r \<Rightarrow>
                  (case deliver_subagent_announcement env now True r st of (res, st1) \<Rightarrow>
                     (if ar_success res then \<lparr>er_done = True, er_retry_after = None, er_abandon = False\<rparr>
                      else if ar_terminal res then abandon
                      else \<lparr>er_done = False, er_retry_after = Some 5, er_abandon = False\<rparr>, st1))))"

subsection \<open>What a delivery touches\<close>

lemma marked_ids [simp]:
  "r_run_id (mark_delivery_failed now e r) = r_run_id r" "r_generation (mark_delivery_failed now e r) = r_generation r"
  "r_run_id (mark_delivery_in_progress now r) = r_run_id r" "r_generation (mark_delivery_in_progress now r) = r_generation r"
  "r_run_id (redirected env r) = r_run_id r" "r_generation (redirected env r) = r_generation r"
  by (simp_all add: mark_delivery_failed_def mark_delivery_in_progress_def redirected_def split: option.split)

lemma announcement_ids [simp]: "in_run (announcement r s) = r_run_id r" "in_generation (announcement r s) = r_generation r"
  by (simp_all add: announcement_def internal_injection_def completion_message_def)

text \<open>The bookkeeping that a delivery must not disturb in passing.\<close>

definition books :: "announcer \<Rightarrow> text_id list \<times> (text_id \<times> text_id) list \<times> intent_table" where
  "books st = (an_delivered st, an_mirror st, an_intents st)"

definition sent :: "run \<Rightarrow> announce_result \<Rightarrow> announcer \<Rightarrow> announcer \<Rightarrow> bool" where
  "sent r res st st' \<longleftrightarrow>
    (if ar_success res then \<exists>m. in_run m = r_run_id r \<and> in_generation m = r_generation r \<and> an_bus st' = an_bus st @ [m]
     else an_bus st' = an_bus st)"

lemma attempts_frame:
  "deliver_attempts env now left attempt compaction r st = (res, st') \<Longrightarrow>
    books st' = books st \<and> sent r res st st' \<and> an_tries st' \<le> an_tries st + left \<and>
    length (an_slept st') + (if ar_success res then 1 else 0) \<le> length (an_slept st) + left \<and>
    \<not> ar_suspended res \<and> \<not> ar_terminal res"
proof (induction left arbitrary: attempt compaction r st)
  case (Suc left)
  show ?case
  proof (cases "ae_bus env (an_tries st)")
    case None
    then show ?thesis using Suc.prems by (auto simp: Let_def books_def sent_def delivery_ok_def)
  next
    case (Some e)
    show ?thesis
    proof (cases "classify_delivery_error e = Permanent")
      case True
      then show ?thesis using Suc.prems Some by (auto simp: Let_def books_def sent_def delivery_error_def)
    next
      case False
      let ?r1 = "mark_delivery_failed now e r"
      let ?st2 = "st\<lparr>an_tries := an_tries st + 1, an_registry := set_run_durable ?r1 (an_registry st),
        an_slept := an_slept st @ [retry_delay_of env (classify_delivery_error e) attempt compaction r]\<rparr>"
      have "\<exists>c. deliver_attempts env now left (attempt + 1) c ?r1 ?st2 = (res, st')"
        using Suc.prems Some False by (auto simp: Let_def)
      then obtain c where "deliver_attempts env now left (attempt + 1) c ?r1 ?st2 = (res, st')" by blast
      from Suc.IH [OF this] show ?thesis by (cases "ar_success res") (simp_all add: books_def sent_def)
    qed
  qed
qed (auto simp: books_def sent_def delivery_error_def)

lemma dispatch_frame:
  assumes "run_announce_dispatch env now r st = (res, st')"
  shows "books st' = books st \<and> sent r res st st' \<and> an_tries st' \<le> an_tries st + ae_retry_max env \<and>
    length (an_slept st') \<le> length (an_slept st) + ae_retry_max env \<and> \<not> ar_suspended res \<and> (ar_terminal res \<longleftrightarrow> \<not> ar_success res)"
proof -
  obtain res1 where d: "deliver_attempts env now (ae_retry_max env) 0 0 r st = (res1, st')"
    using assms by (auto simp: run_announce_dispatch_def deliver_with_retry_def split: prod.splits if_splits)
  note f = attempts_frame [OF d]
  then have "res = (if ar_success res1 then res1\<lparr>ar_path := ar_path res1 @ [''direct-primary'']\<rparr>
      else \<lparr>ar_success = False, ar_error = Some ''All dispatch strategies failed'', ar_suspended = False,
              ar_path = [''direct-primary''], ar_terminal = True\<rparr>)"
    using assms d by (auto simp: run_announce_dispatch_def deliver_with_retry_def)
  then show ?thesis using f by (auto simp: sent_def)
qed

lemma route_frame [simp]:
  "books (route_completion_injection env r st) = books st" "an_bus (route_completion_injection env r st) = an_bus st"
  "an_registry (route_completion_injection env r st) = an_registry st" "an_tries (route_completion_injection env r st) = an_tries st"
  "an_slept (route_completion_injection env r st) = an_slept st" "an_delivered (route_completion_injection env r st) = an_delivered st"
  by (simp_all add: route_completion_injection_def steer_or_fallback_def steer_fallback_def steer_def Let_def books_def
      split: option.split bool.split)

lemma route_books [simp]:
  "an_mirror (route_completion_injection env r st) = an_mirror st" "an_intents (route_completion_injection env r st) = an_intents st"
  using route_frame(1) [of env r st] by (simp_all add: books_def)

lemma auto_resume_frame [simp]:
  "books (snd (try_auto_resume_taskflow env now r st)) = books st" "an_bus (snd (try_auto_resume_taskflow env now r st)) = an_bus st"
  "an_tries (snd (try_auto_resume_taskflow env now r st)) = an_tries st" "an_slept (snd (try_auto_resume_taskflow env now r st)) = an_slept st"
  by (simp_all add: try_auto_resume_taskflow_def books_def split: option.split prod.split)

lemma start_frame [simp]:
  "books (start_delivery env now r st) = books st" "an_bus (start_delivery env now r st) = an_bus st"
  "an_tries (start_delivery env now r st) = an_tries st" "an_slept (start_delivery env now r st) = an_slept st"
  by (simp_all add: start_delivery_def books_def Let_def)

text \<open>The keys kept after a success.\<close>

definition keys_with :: "announce_env \<Rightarrow> run \<Rightarrow> text_id list \<Rightarrow> text_id list" where
  "keys_with env r ks = an_delivered (mark_delivered env r (undefined\<lparr>an_delivered := ks\<rparr>))"

lemma mark_delivered_frame [simp]:
  "an_bus (mark_delivered env r st) = an_bus st" "an_mirror (mark_delivered env r st) = an_mirror st"
  "an_intents (mark_delivered env r st) = an_intents st" "an_registry (mark_delivered env r st) = an_registry st"
  "an_tries (mark_delivered env r st) = an_tries st" "an_slept (mark_delivered env r st) = an_slept st"
  "an_delivered (mark_delivered env r st) = keys_with env r (an_delivered st)"
  by (simp_all add: mark_delivered_def Let_def keys_with_def run_key_def)

lemma body_frame:
  assumes "announce_body env now pending r st = (res, st')"
  shows "an_mirror st' = an_mirror st \<and> an_intents st' = an_intents st \<and> sent r res st st' \<and>
    an_delivered st' = (if ar_success res then keys_with env r (an_delivered st) else an_delivered st) \<and>
    an_tries st' \<le> an_tries st + ae_retry_max env \<and> length (an_slept st') \<le> length (an_slept st) + ae_retry_max env \<and>
    (ar_success res \<or> ar_terminal res)"
proof -
  let ?r = "redirected env (mark_delivery_in_progress now r)"
  let ?st2 = "snd (try_auto_resume_taskflow env now ?r (start_delivery env now (mark_delivery_in_progress now r) st))"
  obtain res1 st3 where d: "run_announce_dispatch env now ?r ?st2 = (res1, st3)" by fastforce
  then have s: "settle_delivery env now pending ?r res1 st3 = (res, st')" using assms by (simp add: announce_body_def Let_def)
  note f = dispatch_frame [OF d]
  have key: "keys_with env ?r ks = keys_with env r ks" for ks by (simp add: keys_with_def mark_delivered_def run_key_def)
  have b: "books st3 = books st" "an_bus ?st2 = an_bus st" "an_tries ?st2 = an_tries st" "an_slept ?st2 = an_slept st" using f by simp_all
  show ?thesis
  proof (cases "ar_success res1")
    case True
    then have "res = res1" "st' = (let st1 = mark_delivered env ?r (route_completion_injection env ?r st3)
        in st1\<lparr>an_registry := set_run_durable (mark_delivery_delivered now ?r) (an_registry st1)\<rparr>)"
      using s by (auto simp: settle_delivery_def maybe_route_third_path_def)
    then show ?thesis using True f b key by (auto simp: Let_def books_def sent_def)
  next
    case False
    then have "ar_success res = False \<and> ar_terminal res \<and> an_bus st' = an_bus st3 \<and> books st' = books st3 \<and>
        an_tries st' = an_tries st3 \<and> an_slept st' = an_slept st3"
      using s f by (auto simp: settle_delivery_def books_def split: if_splits)
    then show ?thesis using False f b by (auto simp: books_def sent_def)
  qed
qed

lemma dict_set_new: "dict_get d k = None \<Longrightarrow> dict_set k v d = d @ [(k, v)]"
  by (induction d) (auto split: if_splits)

text \<open>A run that passes the mirror is recorded there before anything is sent, and stays recorded.\<close>

lemma mirror_records:
  assumes "check_delivery_mirror r st = (False, st1)"
  shows "dict_get (an_mirror st1) (content_key r) \<noteq> None \<and> an_delivered st1 = an_delivered st \<and> an_bus st1 = an_bus st \<and>
    an_intents st1 = an_intents st \<and> an_tries st1 = an_tries st \<and> an_slept st1 = an_slept st \<and> an_registry st1 = an_registry st"
proof -
  let ?m = "dict_set (content_key r) (r_run_id r) (an_mirror st)"
  have new: "dict_get (an_mirror st) (content_key r) = None"
    and st1: "st1 = st\<lparr>an_mirror := if MIRROR_MAX < length ?m then drop (MIRROR_MAX div 2) ?m else ?m\<rparr>"
    using assms by (auto simp: check_delivery_mirror_def Let_def split: if_splits)
  have m: "?m = an_mirror st @ [(content_key r, r_run_id r)]" by (rule dict_set_new [OF new])
  have "(content_key r, r_run_id r) \<in> set (an_mirror st1)"
    unfolding st1 m by (auto simp: drop_append)
  then have "content_key r \<in> fst ` set (an_mirror st1)" by (metis fst_conv image_eqI)
  then have "dict_get (an_mirror st1) (content_key r) \<noteq> None" by (simp add: map_of_eq_None_iff)
  then show ?thesis by (simp add: st1)
qed

lemma impl_known:
  assumes "is_already_delivered r st \<or> dict_get (an_mirror st) (content_key r) \<noteq> None"
  shows "deliver_impl env now r st = (delivery_ok, st)"
  using assms by (auto simp: deliver_impl_def check_delivery_mirror_def)

text \<open>The ways a delivery ends.\<close>

lemma impl_cases:
  assumes "deliver_impl env now r st = (res, st')"
  obtains (known) "is_already_delivered r st \<or> dict_get (an_mirror st) (content_key r) \<noteq> None" "res = delivery_ok" "st' = st"
  | (not_required) st1 where "\<not> is_already_delivered r st" "check_delivery_mirror r st = (False, st1)" "\<not> cp_required (r_completion r)"
      "res = delivery_ok" "st' = st1\<lparr>an_registry := set_run_durable (mark_delivery_delivered now r) (an_registry st1)\<rparr>"
  | (suspended) st1 where "\<not> is_already_delivered r st" "check_delivery_mirror r st = (False, st1)"
      "res = (delivery_error ''Hard cap exceeded'')\<lparr>ar_suspended := True\<rparr>"
      "st' = st1\<lparr>an_registry := set_run_durable (mark_delivery_suspended now r) (an_registry st1)\<rparr>"
  | (tried) st1 pending where "\<not> is_already_delivered r st" "check_delivery_mirror r st = (False, st1)" "cp_required (r_completion r)"
      "announce_body env now pending r st1 = (res, st')"
proof (cases "is_already_delivered r st \<or> dict_get (an_mirror st) (content_key r) \<noteq> None")
  case True
  then show thesis using known impl_known [OF True] assms by simp
next
  case False
  then obtain st1 where m: "check_delivery_mirror r st = (False, st1)" by (auto simp: check_delivery_mirror_def Let_def)
  show thesis
  proof (cases "cp_required (r_completion r)")
    case False
    then show thesis using not_required [OF _ m] assms m \<open>\<not> (_ \<or> _)\<close> by (simp add: deliver_impl_def)
  next
    case True
    let ?p = "count_pending_descendant_runs (r_requester_session_key r) (an_registry st1)"
    show thesis
    proof (cases "cf_suspend_hard_cap (ae_cfg env) \<le> ?p")
      case hard: True
      then show thesis using suspended [OF _ m] assms m False True by (simp add: deliver_impl_def Let_def)
    next
      case hard: False
      then show thesis using tried [OF _ m True, of ?p] assms m False True by (simp add: deliver_impl_def Let_def)
    qed
  qed
qed

lemma impl_frame:
  assumes "deliver_impl env now r st = (res, st')"
  shows "an_intents st' = an_intents st \<and> an_tries st' \<le> an_tries st + ae_retry_max env \<and>
    length (an_slept st') \<le> length (an_slept st) + ae_retry_max env \<and>
    (an_bus st' = an_bus st \<and> an_delivered st' = an_delivered st \<or>
     run_key r \<notin> set (an_delivered st) \<and> an_delivered st' = keys_with env r (an_delivered st) \<and>
       (\<exists>m. in_run m = r_run_id r \<and> in_generation m = r_generation r \<and> an_bus st' = an_bus st @ [m])) \<and>
    (ar_success res \<or> an_bus st' = an_bus st \<and> dict_get (an_mirror st') (content_key r) \<noteq> None)"
  using assms
proof (cases rule: impl_cases)
  case (tried st1 pending)
  note m = mirror_records [OF tried(2)] and b = body_frame [OF tried(4)]
  have "run_key r \<notin> set (an_delivered st)" using tried(1) by (simp add: is_already_delivered_def)
  then show ?thesis using m b by (cases "ar_success res") (auto simp: sent_def)
qed (use mirror_records in \<open>auto simp: delivery_ok_def\<close>)

subsection \<open>Announcements as a system\<close>

text \<open>Deliveries of any runs, in any environment, between which others change the shared stores.\<close>

inductive announce_step :: "announcer \<Rightarrow> announcer \<Rightarrow> bool" where
  deliver: "announce_step st (snd (deliver_subagent_announcement env now from_effects r st))"
| others: "announce_step st (st\<lparr>an_registry := s, an_flows := t, an_injections := q, an_intents := it\<rparr>)"

definition message_key :: "inbound \<Rightarrow> text_id" where
  "message_key m = build_idempotency_key (in_run m) (in_generation m) None"

definition announced :: "inbound \<Rightarrow> text_id \<times> nat" where
  "announced m = (in_run m, in_generation m)"

definition announce_inv :: "announcer \<Rightarrow> bool" where
  "announce_inv st \<longleftrightarrow>
    (length (an_bus st) \<le> 10000 \<longrightarrow>
       message_key ` set (an_bus st) \<subseteq> set (an_delivered st) \<and> length (an_delivered st) \<le> length (an_bus st) \<and>
       distinct (map announced (an_bus st)))"

lemma keys_with_room: "k = run_key r \<Longrightarrow> k \<notin> set ks \<Longrightarrow> length ks < 10000 \<Longrightarrow> keys_with env r ks = ks @ [k]"
  by (simp add: keys_with_def mark_delivered_def Let_def)

lemma announce_inv_impl:
  assumes "announce_inv st" and "deliver_impl env now r st = (res, st')"
  shows "announce_inv st'"
proof -
  note f = impl_frame [OF assms(2)]
  show ?thesis
  proof (cases "an_bus st' = an_bus st \<and> an_delivered st' = an_delivered st")
    case True
    then show ?thesis using assms(1) by (simp add: announce_inv_def)
  next
    case False
    then obtain m where m: "run_key r \<notin> set (an_delivered st)" "an_delivered st' = keys_with env r (an_delivered st)"
      "in_run m = r_run_id r" "in_generation m = r_generation r" "an_bus st' = an_bus st @ [m]"
      using f by blast
    have key: "message_key m = run_key r" by (simp add: message_key_def run_key_def m)
    show ?thesis
      unfolding announce_inv_def
    proof
      assume "length (an_bus st') \<le> 10000"
      then have small: "length (an_bus st) < 10000" using m(5) by simp
      then have inv: "message_key ` set (an_bus st) \<subseteq> set (an_delivered st)" "length (an_delivered st) \<le> length (an_bus st)"
        "distinct (map announced (an_bus st))"
        using assms(1) by (simp_all add: announce_inv_def)
      have "announced m \<notin> announced ` set (an_bus st)"
      proof
        assume "announced m \<in> announced ` set (an_bus st)"
        then obtain q where "q \<in> set (an_bus st)" "announced q = announced m" by (metis imageE)
        then have "message_key m \<in> message_key ` set (an_bus st)" by (auto simp: announced_def message_key_def intro: rev_image_eqI)
        then show False using inv(1) m(1) key by auto
      qed
      moreover have "keys_with env r (an_delivered st) = an_delivered st @ [run_key r]"
        using keys_with_room [OF refl m(1)] inv(2) small by simp
      ultimately show "message_key ` set (an_bus st') \<subseteq> set (an_delivered st') \<and> length (an_delivered st') \<le> length (an_bus st') \<and>
          distinct (map announced (an_bus st'))"
        using inv key m(2,5) by auto
    qed
  qed
qed

lemma settle_shadow_frame [simp]:
  "an_bus (settle_shadow now shadow res st) = an_bus st" "an_delivered (settle_shadow now shadow res st) = an_delivered st"
  "an_mirror (settle_shadow now shadow res st) = an_mirror st"
  by (simp_all add: settle_shadow_def split: option.split prod.split)

lemma enqueue_notice_frame [simp]:
  "an_bus (snd (enqueue_notice env now r st)) = an_bus st" "an_delivered (snd (enqueue_notice env now r st)) = an_delivered st"
  by (simp_all add: enqueue_notice_def split: prod.split)

lemma announce_inv_frame: "an_bus st' = an_bus st \<Longrightarrow> an_delivered st' = an_delivered st \<Longrightarrow> announce_inv st \<Longrightarrow> announce_inv st'"
  by (simp add: announce_inv_def)

lemma announce_inv_deliver:
  assumes "announce_inv st"
  shows "announce_inv (snd (deliver_subagent_announcement env now from_effects r st))"
proof (cases "\<not> from_effects \<and> effects_execution_enabled (ae_effects env)")
  case True
  then show ?thesis using announce_inv_frame [OF _ _ assms] by (simp add: deliver_subagent_announcement_def)
next
  case False
  let ?start = "if \<not> from_effects \<and> effects_shadow_enabled (ae_effects env) then enqueue_notice env now r st else (None, st)"
  have "announce_inv (snd ?start)" using announce_inv_frame [OF _ _ assms] assms by simp
  then have "announce_inv (snd (deliver_impl env now r (snd ?start)))"
    using announce_inv_impl [of "snd ?start" env now r] by (metis prod.collapse)
  moreover have "snd (deliver_subagent_announcement env now from_effects r st) =
      settle_shadow now (fst ?start) (fst (deliver_impl env now r (snd ?start))) (snd (deliver_impl env now r (snd ?start)))"
    using False by (simp only: deliver_subagent_announcement_def if_False) (simp add: case_prod_unfold Let_def)
  ultimately show ?thesis using announce_inv_frame by simp
qed

definition idle_announcer :: "announcer \<Rightarrow> bool" where
  "idle_announcer st \<longleftrightarrow> an_delivered st = [] \<and> an_bus st = []"

lemma announce_step_inv:
  assumes "announce_step st st'" and "announce_inv st"
  shows "announce_inv st'"
  using assms(1)
proof cases
  case (deliver env now from_effects r)
  then show ?thesis using announce_inv_deliver [OF assms(2)] by simp
next
  case (others s t q it)
  then show ?thesis using announce_inv_frame [OF _ _ assms(2)] by simp
qed

lemma idle_announce_inv: "idle_announcer st \<Longrightarrow> announce_inv st"
  by (simp add: idle_announcer_def announce_inv_def)

interpretation announce_system: inv_system idle_announcer announce_step announce_inv
  by unfold_locales (blast intro: idle_announce_inv announce_step_inv)+

lemma handler_delivers: "deliver_subagent_announcement env now True r st = deliver_impl env now r st"
  by (simp add: deliver_subagent_announcement_def settle_shadow_def split: prod.split)

subsection \<open>Properties\<close>

definition demo_live :: live_signals where
  "demo_live = \<lparr>ls_ws_task = False, ls_answering = False, ls_hitl_pending = False, ls_auto_turn_inflight = False\<rparr>"

definition demo_announce_env :: "nat \<Rightarrow> announce_env" where
  "demo_announce_env cap =
    \<lparr>ae_cfg = default_config\<lparr>cf_suspend_hard_cap := cap\<rparr>, ae_retry_max = 3, ae_retry_base = 1000,
     ae_bus = (\<lambda>n. None), ae_redirect = (\<lambda>r. None),
     ae_resume = demo_judge V_PASS, ae_others = (\<lambda>k t. t), ae_websocket = (\<lambda>k. True), ae_signals = (\<lambda>k. demo_live),
     ae_trigger = (\<lambda>k m. Some True), ae_steer_fails = (\<lambda>k. False), ae_set_order = (\<lambda>ks. ks),
     ae_effects = default_effect_config, ae_intent_id = 1\<rparr>"

definition demo_done :: run where
  "demo_done = demo_run ''r1'' ''agent:main:s1'' ''c1'' EX_TERMINAL"

definition demo_announcer :: announcer where
  "demo_announcer =
    \<lparr>an_registry = (empty_registry 10)\<lparr>rg_runs := [(''r1'', demo_done)]\<rparr>, an_delivered = [], an_mirror = [], an_bus = [],
     an_tries = 0, an_slept = [], an_flows = [], an_injections = [], an_steered = [], an_turns = [], an_intents = []\<rparr>"

text \<open>A required completion under the caps whose first attempt passes is sent.\<close>

lemma body_sends:
  assumes "ae_retry_max env = Suc n" and "ae_bus env (an_tries st) = None"
  shows "ar_success (fst (announce_body env now pending r st))"
proof -
  let ?r = "redirected env (mark_delivery_in_progress now r)"
  let ?st2 = "snd (try_auto_resume_taskflow env now ?r (start_delivery env now (mark_delivery_in_progress now r) st))"
  have "an_tries ?st2 = an_tries st" by simp
  then have "ar_success (fst (run_announce_dispatch env now ?r ?st2))"
    using assms by (simp add: run_announce_dispatch_def deliver_with_retry_def Let_def delivery_ok_def)
  then show ?thesis
    by (cases "run_announce_dispatch env now ?r ?st2") (simp add: announce_body_def settle_delivery_def Let_def)
qed

lemma first_announcement:
  assumes "an_delivered st = []" and "an_mirror st = []" and "cp_required (r_completion r)"
    and "count_pending_descendant_runs (r_requester_session_key r) (an_registry st) < cf_suspend_hard_cap (ae_cfg env)"
    and "ae_retry_max env = Suc n" and "ae_bus env (an_tries st) = None"
  shows "length (an_bus (snd (deliver_impl env now r st))) = Suc (length (an_bus st))"
proof -
  let ?p = "count_pending_descendant_runs (r_requester_session_key r) (an_registry st)"
  obtain st1 where st1: "check_delivery_mirror r st = (False, st1)"
    using assms(2) by (auto simp: check_delivery_mirror_def Let_def)
  note m = mirror_records [OF st1]
  obtain res st' where b: "announce_body env now ?p r st1 = (res, st')" by fastforce
  have "ar_success res" using body_sends [of env n st1 now ?p r] assms(5,6) m b by simp
  then have "length (an_bus st') = Suc (length (an_bus st))"
    using body_frame [OF b] m by (auto simp: sent_def)
  moreover have "deliver_impl env now r st = (res, st')"
    using assms(1,3,4) st1 m b by (simp add: deliver_impl_def is_already_delivered_def Let_def)
  ultimately show ?thesis by simp
qed

lemma demo_pending: "count_pending_descendant_runs (r_requester_session_key demo_done) (an_registry demo_announcer) \<le> 1"
  by code_simp

lemma demo_stored: "mem_get ''r1'' (an_registry demo_announcer) = Some demo_done"
  by code_simp

lemma demo_suspended:
  "mem_get ''r1'' (set_run_durable (mark_delivery_suspended 5 demo_done) (an_registry demo_announcer)) =
    Some (mark_delivery_suspended 5 demo_done)"
  by code_simp

lemma demo_env_sel [simp]:
  "ae_retry_max (demo_announce_env cap) = Suc 2" "ae_bus (demo_announce_env cap) k = None"
  "cf_suspend_hard_cap (ae_cfg (demo_announce_env cap)) = cap"
  by (simp_all add: demo_announce_env_def)

lemma demo_announcer_sel [simp]: "an_delivered demo_announcer = []" "an_mirror demo_announcer = []" "an_bus demo_announcer = []"
  by (simp_all add: demo_announcer_def)

lemma demo_required: "cp_required (r_completion demo_done)"
  by code_simp

text \<open>C22: In one process, whatever the bus, the target hook, the other writers of the shared stores and
  the order of deliveries do, and however often the registry, the boot recovery and the effect worker ask
  for it, each generation of a run is announced on the bus at most once, as long as the process sent no
  more announcements than the idempotency set keeps.\<close>

theorem announce_at_most_once:
  assumes "idle_announcer st" and "announce_step\<^sup>*\<^sup>* st st'" and "length (an_bus st') \<le> 10000"
  shows "distinct (map announced (an_bus st'))"
  using announce_system.reachable_inv [OF assms(1,2)] assms(3) by (simp add: announce_inv_def)

theorem announce_at_most_once_witness:
  "\<exists>st. announce_step\<^sup>*\<^sup>* demo_announcer st \<and> length (an_bus st) = 1 \<and> distinct (map announced (an_bus st))"
proof -
  let ?env = "demo_announce_env 10"
  let ?st = "snd (deliver_subagent_announcement ?env 5 True demo_done demo_announcer)"
  have one: "length (an_bus ?st) = 1"
    using first_announcement [of demo_announcer demo_done ?env 2 5] demo_pending demo_required
    by (simp add: handler_delivers)
  have "idle_announcer demo_announcer" by (simp add: idle_announcer_def demo_announcer_def)
  moreover have "announce_step\<^sup>*\<^sup>* demo_announcer ?st" by (rule r_into_rtranclp, rule announce_step.deliver)
  ultimately show ?thesis using announce_at_most_once [of demo_announcer ?st] one by auto
qed


definition demo_notice :: "(string \<times> json) list" where
  "demo_notice = [(''run_id'', JStr ''r1'')]"

definition demo_held :: "effect_result \<times> announcer" where
  "demo_held = handle_completion_notice (demo_announce_env 0) 5 demo_notice demo_announcer"


end
