(* ===== verification/TaskFlow_Plan.thy ===== *)
theory TaskFlow_Plan
  imports TaskFlow_Finish
begin

section \<open>Creating and planning a flow\<close>

text \<open>
  Models the tools \<^verbatim>\<open>taskflow_create.py\<close>, \<^verbatim>\<open>taskflow_plan.py\<close> and \<^verbatim>\<open>taskflow_run_task.py\<close> of
  \<^verbatim>\<open>src/agent/tools/taskflow/tools/\<close>, the duplicate hint of \<^verbatim>\<open>_duplicates.py\<close>, and \<^verbatim>\<open>default_state\<close>,
  \<^verbatim>\<open>new_step\<close> and the compensation of \<^verbatim>\<open>_shared.py\<close>. The planner (a language model), JSON parsing, the
  printing of values that are no texts, the digest and whether the todo of a flow could be bound are
  parameters; \<open>others k\<close> is what other writers make of the table before the \<open>k\<close>-th access.
\<close>

record plan_env = task_env +
  pl_str :: "json \<Rightarrow> string"
  pl_loads :: "string \<Rightarrow> json option"
  pl_reply :: "string \<Rightarrow> string option"
  pl_digest :: "string \<Rightarrow> string"
  pl_bound :: bool

text \<open>\<^verbatim>\<open>str(v)\<close> and \<^verbatim>\<open>str(v or "")\<close>; iterating over a value, \<^const>\<open>None\<close> when it is not iterable.\<close>

definition str_of :: "(json \<Rightarrow> string) \<Rightarrow> json \<Rightarrow> string" where
  "str_of shw v = (case v of JStr s \<Rightarrow> s | _ \<Rightarrow> shw v)"

definition str_or :: "(json \<Rightarrow> string) \<Rightarrow> json \<Rightarrow> string" where
  "str_or shw v = (if truthy v then str_of shw v else [])"

definition items_of :: "json \<Rightarrow> json list option" where
  "items_of v =
    (if \<not> truthy v then Some []
     else (case v of
             JList xs \<Rightarrow> Some xs
           | JStr s \<Rightarrow> Some (map (\<lambda>c. JStr [c]) s)
           | JDict d \<Rightarrow> Some (map (JStr \<circ> fst) d)
           | _ \<Rightarrow> None))"

subsection \<open>New flows and steps\<close>

definition default_state :: "(json \<Rightarrow> string) \<Rightarrow> string \<Rightarrow> jdict \<Rightarrow> string \<Rightarrow> jdict" where
  "default_state shw description initial creator =
    (let s1 = dict_set ''description'' (JStr (if description = [] then str_or shw (jget ''description'' initial) else description)) initial;
         s2 = dict_set ''steps'' (JList (steps_of s1)) s1;
         s3 = dict_set ''results'' (JList (flow_results s2)) s2
     in if creator = [] then s3 else dict_set ''creator_session_key'' (JStr creator) s3)"

definition new_step :: "string \<Rightarrow> string \<Rightarrow> string list \<Rightarrow> string \<Rightarrow> jdict \<Rightarrow> jdict" where
  "new_step sid task deps status optional =
    [(''step_id'', JStr sid), (''task'', JStr task), (''depends_on'', JList (map JStr deps)),
     (''status'', JStr status), (''retry_count'', JInt 0)] @ filter (\<lambda>x. snd x \<noteq> JNull) optional"

definition MAX_STEPS_PER_FLOW :: nat where
  "MAX_STEPS_PER_FLOW = 20"

definition MAX_FLOWS_PER_SESSION :: nat where
  "MAX_FLOWS_PER_SESSION = 20"

text \<open>A flow whose todo could not be bound is failed; a failing write is only logged.\<close>

definition compensate_flow_without_todo :: "time \<Rightarrow> flow \<Rightarrow> flow_table \<Rightarrow> flow_table" where
  "compensate_flow_without_todo now f t = snd (finalize_gc_flow now ''todo_bind_failed'' f t)"

subsection \<open>The duplicate hint\<close>

text \<open>\<^verbatim>\<open>[\w]\<close> on Latin-1 texts.\<close>

definition word_char :: "char \<Rightarrow> bool" where
  "word_char c =
    (let n = (of_char c :: nat) in
     (48 \<le> n \<and> n \<le> 57) \<or> (65 \<le> n \<and> n \<le> 90) \<or> n = 95 \<or> (97 \<le> n \<and> n \<le> 122) \<or>
     n \<in> {170, 178, 179, 181, 185, 186, 188, 189, 190} \<or> (192 \<le> n \<and> n \<noteq> 215 \<and> n \<noteq> 247))"

text \<open>\<^verbatim>\<open>findall\<close> of maximal runs; \<open>run\<close> is the one being read.\<close>

fun tokens_from :: "string \<Rightarrow> string \<Rightarrow> string list" where
  "tokens_from run [] = (if run = [] then [] else [run])"
| "tokens_from run (c # s) =
    (if word_char c then tokens_from (run @ [c]) s
     else if run = [] then tokens_from [] s else run # tokens_from [] s)"

definition tokens :: "string \<Rightarrow> string list" where
  "tokens s = tokens_from [] s"

definition normalize_duplicate_text :: "string \<Rightarrow> string" where
  "normalize_duplicate_text s = join '' '' (tokens (lower (strip s)))"

definition token_overlap :: "string \<Rightarrow> string \<Rightarrow> rat" where
  "token_overlap l r =
    (let a = set (tokens l); b = set (tokens r)
     in if a = {} \<or> b = {} then 0 else of_nat (card (a \<inter> b)) / of_nat (card (a \<union> b)))"

definition flow_description :: "(json \<Rightarrow> string) \<Rightarrow> flow \<Rightarrow> string" where
  "flow_description shw f = str_or shw (jget ''description'' (fl_state f))"

definition looks_like :: "string \<Rightarrow> string \<Rightarrow> bool" where
  "looks_like target existing =
    (existing \<noteq> [] \<and> (has_sub target existing \<or> has_sub existing target \<or> 7 / 10 < token_overlap target existing))"

definition find_duplicate_flow :: "(json \<Rightarrow> string) \<Rightarrow> text_id \<Rightarrow> string \<Rightarrow> flow_table \<Rightarrow> flow option" where
  "find_duplicate_flow shw sess goal t =
    (let target = normalize_duplicate_text goal
     in if target = [] then None
        else find (\<lambda>f. looks_like target (normalize_duplicate_text (flow_description shw f))) (get_non_terminal_flows (Some sess) t))"

subsection \<open>Creating\<close>

record create_call =
  cc_flow :: string
  cc_description :: string
  cc_initial :: jdict
  cc_hours :: "rat option"
  cc_resumed :: string
  cc_todo :: string
  cc_ack :: bool

datatype create_result =
  Create_Needs_Flow
| Create_Needs_Session
| Create_Own_Successor text_id
| Create_No_Predecessor text_id
| Create_Duplicate flow
| Create_Too_Many_Steps nat
| Create_Too_Many_Flows nat
| Create_Taken text_id
| Create_Terminal flow
| Create_Exists flow
| Create_Unrooted flow
| Create_Raises flow_error
| Created flow string "text_id option" bool

definition create_deadline :: "time \<Rightarrow> create_call \<Rightarrow> time option" where
  "create_deadline now c =
    (case cc_hours c of None \<Rightarrow> None | Some h \<Rightarrow> if 0 < h then Some (now + h * 3600) else None)"

text \<open>What the tool answers when the id is taken.\<close>

definition create_taken :: "text_id \<Rightarrow> text_id \<Rightarrow> flow_table \<Rightarrow> create_result" where
  "create_taken i sess t =
    (case get_flow i sess t of
       None \<Rightarrow> Create_Taken i
     | Some f \<Rightarrow> if flow_terminal (fl_status f) then Create_Terminal f else Create_Exists f)"

definition root_text :: "create_call \<Rightarrow> text_id \<Rightarrow> string" where
  "root_text c i =
    strip (if cc_todo c \<noteq> [] then cc_todo c else if cc_description c \<noteq> [] then cc_description c else ''TaskFlow '' @ i)"

definition root_flow ::
    "plan_env \<Rightarrow> (nat \<Rightarrow> flow_table \<Rightarrow> flow_table) \<Rightarrow> time \<Rightarrow> create_call \<Rightarrow> text_id option \<Rightarrow> text_id \<Rightarrow> text_id \<Rightarrow> flow \<Rightarrow> flow_table
     \<Rightarrow> create_result \<times> flow_table" where
  "root_flow env others now c resumed i sess f t =
    (if \<not> pl_bound env then (Create_Unrooted f, compensate_flow_without_todo now f (others 4 t))
     else (case resumed of
             None \<Rightarrow> (Created f (root_text c i) None False, t)
           | Some p \<Rightarrow>
               (case mark_flow_superseded now p i sess (others 4 t) of (marked, t') \<Rightarrow>
                  (Created f (root_text c i) (Some p) marked, t'))))"

definition store_new_flow ::
    "plan_env \<Rightarrow> (nat \<Rightarrow> flow_table \<Rightarrow> flow_table) \<Rightarrow> time \<Rightarrow> create_call \<Rightarrow> text_id option \<Rightarrow> text_id \<Rightarrow> text_id \<Rightarrow> jdict \<Rightarrow> flow_table
     \<Rightarrow> create_result \<times> flow_table" where
  "store_new_flow env others now c resumed i sess state t =
    (case create_flow now i state sess ''running'' None (create_deadline now c) resumed (others 2 t) of
       (Inr f, t1) \<Rightarrow> root_flow env others now c resumed i sess f t1
     | (Inl (Flow_Exists _), t1) \<Rightarrow> (create_taken i sess (others 3 t1), others 3 t1)
     | (Inl e, t1) \<Rightarrow> (Create_Raises e, t1))"

definition new_flow_state :: "plan_env \<Rightarrow> create_call \<Rightarrow> text_id \<Rightarrow> jdict" where
  "new_flow_state env c sess = default_state (pl_str env) (cc_description c) (cc_initial c) (requester_session_key sess)"

definition taskflow_create ::
    "plan_env \<Rightarrow> (nat \<Rightarrow> flow_table \<Rightarrow> flow_table) \<Rightarrow> time \<Rightarrow> create_call \<Rightarrow> text_id \<Rightarrow> flow_table \<Rightarrow> create_result \<times> flow_table" where
  "taskflow_create env others now c session t =
    (let i = strip (cc_flow c); sess = strip session; p = strip (cc_resumed c); resumed = (if p = [] then None else Some p);
         state = new_flow_state env c sess; n = length (steps_of state);
         t1 = (if resumed = None then t else others 0 t);
         t2 = (if cc_ack c \<or> resumed \<noteq> None then t1 else others 1 t1);
         active = length (get_active_flows_sync sess t2)
     in if i = [] then (Create_Needs_Flow, t)
        else if sess = [] then (Create_Needs_Session, t)
        else if resumed = Some i then (Create_Own_Successor i, t)
        else if resumed \<noteq> None \<and> get_flow p sess t1 = None then (Create_No_Predecessor p, t1)
        else if \<not> cc_ack c \<and> resumed = None \<and> find_duplicate_flow (pl_str env) sess (cc_description c) t2 \<noteq> None
        then (Create_Duplicate (the (find_duplicate_flow (pl_str env) sess (cc_description c) t2)), t2)
        else if MAX_STEPS_PER_FLOW < n then (Create_Too_Many_Steps n, t2)
        else if MAX_FLOWS_PER_SESSION \<le> active then (Create_Too_Many_Flows active, t2)
        else store_new_flow env others now c resumed i sess state t2)"

subsection \<open>Reading the planner's reply\<close>

definition LINE_FEED :: char where
  "LINE_FEED = CHR 0x0A"

text \<open>A fenced block is unwrapped; the array goes from the first bracket to the last one.\<close>

definition unfenced :: "string \<Rightarrow> string" where
  "unfenced raw =
    (let text = strip raw
     in if \<not> starts_with (replicate 3 (CHR 0x60)) text then text
        else (let inner = rev (dropWhile (\<lambda>c. c = CHR 0x60) (rev (dropWhile (\<lambda>c. c = CHR 0x60) text)))
              in case find_sub [LINE_FEED] inner of None \<Rightarrow> inner | Some k \<Rightarrow> drop (k + 1) inner))"

definition reply_array :: "(string \<Rightarrow> json option) \<Rightarrow> string \<Rightarrow> json list option" where
  "reply_array loads raw =
    (let text = unfenced raw
     in case (find_sub ''['' text, last_pos (\<lambda>c. c = CHR '']'') text) of
          (Some a, Some b) \<Rightarrow>
            if b \<le> a then None
            else (case loads (drop a (take (b + 1) text)) of Some (JList xs) \<Rightarrow> Some xs | _ \<Rightarrow> None)
        | _ \<Rightarrow> None)"

record plan_entry =
  pn_id :: string
  pn_task :: string
  pn_deps :: "string list"
  pn_fields :: jdict

text \<open>\<^verbatim>\<open>[str(dep).strip() for dep in ... if str(dep).strip()]\<close>.\<close>

definition trimmed :: "string list \<Rightarrow> string list" where
  "trimmed xs = filter (\<lambda>x. x \<noteq> []) (map strip xs)"

definition plan_file_deps :: "jdict \<Rightarrow> json" where
  "plan_file_deps e =
    (case jget ''file_deps'' e of
       JList xs \<Rightarrow>
         (case trimmed (map text_of (filter is_jstr xs)) of [] \<Rightarrow> JNull | ds \<Rightarrow> JList (map JStr ds))
     | _ \<Rightarrow> JNull)"

definition plan_optional :: "jdict \<Rightarrow> jdict" where
  "plan_optional e =
    [(''response_schema'', jget ''response_schema'' e), (''judge_criteria'', jget ''judge_criteria'' e),
     (''skills'', jget ''skills'' e), (''file_deps'', plan_file_deps e)]"

text \<open>The loop; a dependency on a step that was not seen yet is dropped. \<^const>\<open>None\<close> is an exception.\<close>

fun parse_entries :: "(json \<Rightarrow> string) \<Rightarrow> string list \<Rightarrow> json list \<Rightarrow> plan_entry list option" where
  "parse_entries shw seen [] = Some []"
| "parse_entries shw seen (JDict e # es) =
    (let sid = strip (str_or shw (jget ''step_id'' e)); task = strip (str_or shw (jget ''task'' e))
     in if sid = [] \<or> task = [] \<or> sid \<in> set seen then parse_entries shw seen es
        else (case items_of (jget ''depends_on'' e) of
                None \<Rightarrow> None
              | Some ds \<Rightarrow>
                  map_option
                    (\<lambda>rest. \<lparr>pn_id = sid, pn_task = task,
                             pn_deps = filter (\<lambda>d. d \<in> set seen) (trimmed (map (str_of shw) ds)),
                             pn_fields = plan_optional e\<rparr> # rest)
                    (parse_entries shw (seen @ [sid]) es)))"
| "parse_entries shw seen (v # es) = parse_entries shw seen es"

definition parse_plan :: "(json \<Rightarrow> string) \<Rightarrow> (string \<Rightarrow> json option) \<Rightarrow> string \<Rightarrow> plan_entry list option" where
  "parse_plan shw loads raw =
    (case reply_array loads raw of
       None \<Rightarrow> None
     | Some vs \<Rightarrow> (case parse_entries shw [] vs of Some (e # es) \<Rightarrow> Some (e # es) | _ \<Rightarrow> None))"

definition planned_step :: "plan_entry \<Rightarrow> jdict" where
  "planned_step e =
    new_step (pn_id e) (pn_task e) (pn_deps e) (if pn_deps e = [] then ''ready'' else ''blocked'') (pn_fields e)"

subsection \<open>Planning\<close>

record plan_call =
  pc_goal :: string
  pc_flow :: string
  pc_context :: string
  pc_max_steps :: int
  pc_ack :: bool

datatype plan_result =
  Plan_Needs_Goal
| Plan_Terminal flow
| Plan_Exists flow
| Plan_Taken text_id
| Plan_Duplicate flow
| Plan_Too_Many_Flows nat
| Plan_Failed
| Plan_Unrooted flow
| Plan_Raises flow_error
| Planned flow "jdict list" "dispatch_result option"

definition PLAN_MAX_STEPS :: int where
  "PLAN_MAX_STEPS = 12"

definition plan_limit :: "plan_call \<Rightarrow> int" where
  "plan_limit c = max 1 (min (if pc_max_steps c = 0 then 8 else pc_max_steps c) PLAN_MAX_STEPS)"

definition build_plan_prompt :: "string \<Rightarrow> string \<Rightarrow> int \<Rightarrow> string" where
  "build_plan_prompt goal ctx limit =
    join [LINE_FEED]
      ([''Goal: '' @ goal] @ (if ctx = [] then [] else [[LINE_FEED] @ ''Context:'' @ [LINE_FEED] @ ctx]) @
       [[LINE_FEED] @ ''Return at most '' @ show_int limit @ '' steps.''])"

definition plan_id :: "plan_env \<Rightarrow> plan_call \<Rightarrow> text_id \<Rightarrow> text_id" where
  "plan_id env c session =
    (let i = strip (pc_flow c)
     in if i = [] then ''plan-'' @ take 10 (pl_digest env (session @ [CHR 0x1F] @ strip (pc_goal c))) else i)"

definition plan_taken :: "flow \<Rightarrow> plan_result" where
  "plan_taken f = (if flow_terminal (fl_status f) then Plan_Terminal f else Plan_Exists f)"

text \<open>The planner's steps, \<^const>\<open>None\<close> when the call or the parsing raises.\<close>

definition planned_steps :: "plan_env \<Rightarrow> plan_call \<Rightarrow> jdict list option" where
  "planned_steps env c =
    (case pl_reply env (build_plan_prompt (strip (pc_goal c)) (pc_context c) (plan_limit c)) of
       None \<Rightarrow> None
     | Some raw \<Rightarrow>
         map_option (\<lambda>plan. map planned_step (take (nat (plan_limit c)) plan)) (parse_plan (pl_str env) (pl_loads env) raw))"

definition plan_state :: "plan_env \<Rightarrow> plan_call \<Rightarrow> text_id \<Rightarrow> jdict list \<Rightarrow> jdict" where
  "plan_state env c session steps =
    with_steps steps (default_state (pl_str env) (strip (pc_goal c)) [] (requester_session_key session))"

definition initial_ready :: "jdict list \<Rightarrow> string list" where
  "initial_ready steps = map (text_of \<circ> step_id_of) (filter (\<lambda>s. step_status s = ''ready'') steps)"

text \<open>The first wave and the reading of the flow after it.\<close>

definition start_plan ::
    "plan_env \<Rightarrow> (nat \<Rightarrow> flow_table \<Rightarrow> flow_table) \<Rightarrow> time \<Rightarrow> text_id \<Rightarrow> text_id \<Rightarrow> jdict list \<Rightarrow> flow \<Rightarrow> flow_table
     \<Rightarrow> plan_result \<times> flow_table" where
  "start_plan env others now i session steps f t =
    (if initial_ready steps = [] then (Planned f steps None, t)
     else (case taskflow_dispatch (task_env.truncate env) (\<lambda>k. others (k + 6)) now i (initial_ready steps) None session (others 4 t) of
             (res, t1) \<Rightarrow>
               (let t2 = others 5 t1
                in case get_flow i session t2 of
                     None \<Rightarrow> (Planned f steps (Some res), t2)
                   | Some g \<Rightarrow> (Planned g (flow_steps (fl_state g)) (Some res), t2))))"

definition store_plan ::
    "plan_env \<Rightarrow> (nat \<Rightarrow> flow_table \<Rightarrow> flow_table) \<Rightarrow> time \<Rightarrow> plan_call \<Rightarrow> text_id \<Rightarrow> text_id \<Rightarrow> jdict list \<Rightarrow> flow_table
     \<Rightarrow> plan_result \<times> flow_table" where
  "store_plan env others now c i session steps t =
    (case create_flow now i (plan_state env c session steps) session ''running'' None None None (others 2 t) of
       (Inr f, t1) \<Rightarrow>
         if pl_bound env then start_plan env others now i session steps f t1
         else (Plan_Unrooted f, compensate_flow_without_todo now f (others 3 t1))
     | (Inl (Flow_Exists _), t1) \<Rightarrow>
         (case get_flow i session (others 3 t1) of
            None \<Rightarrow> (Plan_Taken i, others 3 t1) | Some f \<Rightarrow> (plan_taken f, others 3 t1))
     | (Inl e, t1) \<Rightarrow> (Plan_Raises e, t1))"

definition taskflow_plan ::
    "plan_env \<Rightarrow> (nat \<Rightarrow> flow_table \<Rightarrow> flow_table) \<Rightarrow> time \<Rightarrow> plan_call \<Rightarrow> text_id \<Rightarrow> flow_table \<Rightarrow> plan_result \<times> flow_table" where
  "taskflow_plan env others now c session t =
    (let goal = strip (pc_goal c); i = plan_id env c session; t1 = others 0 t; t2 = (if pc_ack c then t1 else others 1 t1);
         active = length (get_active_flows_sync session t2)
     in if goal = [] then (Plan_Needs_Goal, t)
        else case get_flow i session t1 of
          Some f \<Rightarrow> (plan_taken f, t1)
        | None \<Rightarrow>
            if \<not> pc_ack c \<and> find_duplicate_flow (pl_str env) session goal t2 \<noteq> None
            then (Plan_Duplicate (the (find_duplicate_flow (pl_str env) session goal t2)), t2)
            else if MAX_FLOWS_PER_SESSION \<le> active then (Plan_Too_Many_Flows active, t2)
            else (case planned_steps env c of
                    None \<Rightarrow> (Plan_Failed, t2)
                  | Some steps \<Rightarrow> store_plan env others now c i session steps t2))"

subsection \<open>Adding one step\<close>

record run_call =
  rn_flow :: string
  rn_task :: string
  rn_expected :: "int option"
  rn_deps :: "string list"
  rn_criteria :: string
  rn_policy :: json
  rn_aggregate :: bool
  rn_schema :: json
  rn_params :: json
  rn_bindings :: json
  rn_files :: json
  rn_judge :: string
  rn_judge_model :: string
  rn_role :: string
  rn_model :: string
  rn_timeout :: json
  rn_priority :: json

datatype run_result =
  Run_Needs_Flow
| Run_Needs_Task
| Run_Bad_Policy policy_error
| Run_Bad_Files
| Run_No_Flow text_id
| Run_Terminal text_id string
| Run_Unknown_Deps "string list"
| Run_Refused flow_error
| Run_Blocked flow string "string list"
| Run_Spawn_Raises string
| Run_Unrecorded string nat
| Run_Dispatched flow string string

definition text_or_none :: "string \<Rightarrow> json" where
  "text_or_none s = (if strip s = [] then JNull else JStr (strip s))"

definition run_fields :: "run_call \<Rightarrow> jdict" where
  "run_fields c =
    [(''validation_criteria'', text_or_none (rn_criteria c)), (''retry_policy'', rn_policy c),
     (''response_schema'', rn_schema c), (''expected_params'', rn_params c), (''input_bindings'', rn_bindings c),
     (''file_deps'', rn_files c), (''judge_criteria'', text_or_none (rn_judge c)),
     (''judge_model'', text_or_none (rn_judge_model c)), (''functional_role'', text_or_none (rn_role c)),
     (''step_model'', text_or_none (rn_model c)), (''step_timeout_seconds'', rn_timeout c), (''priority'', rn_priority c)]"

definition files_ok :: "json \<Rightarrow> bool" where
  "files_ok v = (case v of JNull \<Rightarrow> True | JList xs \<Rightarrow> list_all nonblank xs | _ \<Rightarrow> False)"

text \<open>The id counts the steps of the list it is appended to.\<close>

definition next_step_id :: "jdict list \<Rightarrow> string" where
  "next_step_id steps = ''step-'' @ show_nat (length steps + 1)"

definition run_step :: "run_call \<Rightarrow> jdict list \<Rightarrow> string \<Rightarrow> jdict" where
  "run_step c steps status =
    (let s = new_step (next_step_id steps) (strip (rn_task c)) (rn_deps c) status (run_fields c)
     in if rn_aggregate c then dict_set ''aggregate_deps'' (JBool True) s else s)"

definition run_dispatched :: "time \<Rightarrow> string \<Rightarrow> run_call \<Rightarrow> jdict list \<Rightarrow> jdict" where
  "run_dispatched now key c steps =
    dict_set ''dispatched_at'' (JFloat now) (dict_set ''child_session_key'' (JStr key) (run_step c steps ''dispatched''))"

definition append_step :: "(jdict list \<Rightarrow> jdict) \<Rightarrow> jdict \<Rightarrow> jdict" where
  "append_step new state = with_steps (flow_steps state @ [new (flow_steps state)]) state"

definition run_spawn :: "task_env \<Rightarrow> run_call \<Rightarrow> text_id \<Rightarrow> text_id \<Rightarrow> jdict list \<Rightarrow> json list \<Rightarrow> spawn_call" where
  "run_spawn te c i session steps results =
    (let candidate = run_step c steps ''ready''
     in \<lparr>sc_task = build_task_with_bindings (te_show te) (build_task_with_dep_results (te_skills te) candidate steps results)
                    candidate steps results,
         sc_requester = requester_session_key session, sc_schema = rn_schema c, sc_role = text_or_none (rn_role c),
         sc_model = text_or_none (rn_model c), sc_timeout = rn_timeout c, sc_flow = Some i,
         sc_step = JStr (next_step_id steps)\<rparr>)"

definition pending_deps :: "run_call \<Rightarrow> jdict list \<Rightarrow> string list" where
  "pending_deps c steps =
    filter (\<lambda>d. case by_id steps (JStr d) of None \<Rightarrow> True | Some q \<Rightarrow> step_status q \<noteq> ''done'') (rn_deps c)"

definition register_blocked ::
    "time \<Rightarrow> run_call \<Rightarrow> text_id \<Rightarrow> int \<Rightarrow> text_id \<Rightarrow> flow \<Rightarrow> flow_table \<Rightarrow> run_result \<times> flow_table" where
  "register_blocked now c i n session f t =
    (let state = append_step (\<lambda>steps. run_step c steps ''blocked'') (fl_state f)
     in case update_flow now i n session (no_update\<lparr>up_state := Some state\<rparr>) t of
          (Inl e, t') \<Rightarrow> (Run_Refused e, t')
        | (Inr g, t') \<Rightarrow>
            (Run_Blocked g (next_step_id (flow_steps (fl_state f))) (pending_deps c (flow_steps state)), t'))"

definition record_running ::
    "(nat \<Rightarrow> flow_table \<Rightarrow> flow_table) \<Rightarrow> time \<Rightarrow> run_call \<Rightarrow> text_id \<Rightarrow> int \<Rightarrow> text_id \<Rightarrow> flow \<Rightarrow> string \<Rightarrow> flow_table
     \<Rightarrow> run_result \<times> flow_table" where
  "record_running others now c i n session f key t =
    (case update_flow_with_conflict_retry others now i n f
            (\<lambda>g _. append_step (run_dispatched now key c) (fl_state g)) session PERSIST_MAX_ATTEMPTS
            (no_update\<lparr>up_child := Some (Some key)\<rparr>) t of
       (Inl attempts, t') \<Rightarrow> (Run_Unrecorded key attempts, t')
     | (Inr g, t') \<Rightarrow> (Run_Dispatched g (next_step_id (butlast (flow_steps (fl_state g)))) key, t'))"

definition run_flow ::
    "task_env \<Rightarrow> (nat \<Rightarrow> flow_table \<Rightarrow> flow_table) \<Rightarrow> time \<Rightarrow> run_call \<Rightarrow> text_id \<Rightarrow> text_id \<Rightarrow> flow \<Rightarrow> flow_table
     \<Rightarrow> run_result \<times> flow_table" where
  "run_flow te others now c i session f t =
    (let steps = flow_steps (fl_state f); unknown = filter (\<lambda>d. JStr d \<notin> step_id_of ` set steps) (rn_deps c);
         n = (case rn_expected c of Some n \<Rightarrow> n | None \<Rightarrow> fl_revision f)
     in if unknown \<noteq> [] then (Run_Unknown_Deps unknown, t)
        else if \<not> deps_satisfied (run_step c steps ''ready'') steps
        then register_blocked now c i n session f (others 1 t)
        else (case te_spawn te 0 (run_spawn te c i session steps (flow_results (fl_state f))) of
                Inl e \<Rightarrow> (Run_Spawn_Raises e, t)
              | Inr key \<Rightarrow> record_running others now c i n session f key t))"

definition taskflow_run_task ::
    "task_env \<Rightarrow> (nat \<Rightarrow> flow_table \<Rightarrow> flow_table) \<Rightarrow> time \<Rightarrow> run_call \<Rightarrow> text_id \<Rightarrow> flow_table \<Rightarrow> run_result \<times> flow_table" where
  "taskflow_run_task te others now c session t =
    (let i = strip (rn_flow c)
     in if i = [] then (Run_Needs_Flow, t)
        else if strip (rn_task c) = [] then (Run_Needs_Task, t)
        else if validate_policy (rn_policy c) \<noteq> None then (Run_Bad_Policy (the (validate_policy (rn_policy c))), t)
        else if \<not> files_ok (rn_files c) then (Run_Bad_Files, t)
        else (case get_flow i session t of
                None \<Rightarrow> (Run_No_Flow i, t)
              | Some f \<Rightarrow>
                  if flow_terminal (fl_status f) then (Run_Terminal i (fl_status f), t)
                  else run_flow te others now c i session f t))"

subsection \<open>The planner's steps\<close>

lemma new_step_get [simp]:
  "step_id_of (new_step sid task deps status opt) = JStr sid" "jget ''task'' (new_step sid task deps status opt) = JStr task"
  "jget ''status'' (new_step sid task deps status opt) = JStr status"
  "jget ''depends_on'' (new_step sid task deps status opt) = JList (map JStr deps)"
  by (simp_all add: new_step_def step_id_of_def jget_def)

definition clean :: "string \<Rightarrow> bool" where
  "clean s \<longleftrightarrow> strip s = s \<and> s \<noteq> []"

lemma clean_strip: "strip s \<noteq> [] \<Longrightarrow> clean (strip s)"
  by (simp add: clean_def)

lemma clean_trimmed: "d \<in> set (trimmed xs) \<Longrightarrow> clean d"
  by (auto simp: trimmed_def clean_def)

text \<open>Entries behind the ids in \<open>seen\<close>: dependencies only point to what comes before.\<close>

fun entries_ok :: "string list \<Rightarrow> plan_entry list \<Rightarrow> bool" where
  "entries_ok seen [] = True"
| "entries_ok seen (e # es) =
    (clean (pn_id e) \<and> clean (pn_task e) \<and> pn_id e \<notin> set seen \<and> (\<forall>d \<in> set (pn_deps e). clean d \<and> d \<in> set seen) \<and>
     (\<exists>d. pn_fields e = plan_optional d) \<and> entries_ok (seen @ [pn_id e]) es)"

lemma parse_entries_ok: "parse_entries shw seen vs = Some es \<Longrightarrow> entries_ok seen es"
proof (induction shw seen vs arbitrary: es rule: parse_entries.induct)
  case (2 shw seen e vs)
  let ?sid = "strip (str_or shw (jget ''step_id'' e))" and ?task = "strip (str_or shw (jget ''task'' e))"
  show ?case
  proof (cases "?sid = [] \<or> ?task = [] \<or> ?sid \<in> set seen")
    case True
    then have "parse_entries shw seen vs = Some es" using 2(3) by (auto simp: Let_def)
    then show ?thesis using 2(1) [OF refl refl True] by blast
  next
    case False
    then obtain ds rest where ds: "items_of (jget ''depends_on'' e) = Some ds"
      and rest: "parse_entries shw (seen @ [?sid]) vs = Some rest"
      and es: "es = \<lparr>pn_id = ?sid, pn_task = ?task, pn_deps = filter (\<lambda>d. d \<in> set seen) (trimmed (map (str_of shw) ds)),
                      pn_fields = plan_optional e\<rparr> # rest"
      using 2(3) by (auto simp: Let_def split: option.splits)
    have "entries_ok (seen @ [?sid]) rest" using 2(2) [OF refl refl False ds rest] .
    then show ?thesis using False by (auto simp: es clean_strip clean_trimmed)
  qed
qed auto

lemma entries_ok_take: "entries_ok seen es \<Longrightarrow> entries_ok seen (take n es)"
proof (induction seen es arbitrary: n rule: entries_ok.induct)
  case (2 seen e es)
  then show ?case by (cases n) auto
qed simp

lemma plan_file_deps_wf: "plan_file_deps d \<noteq> JNull \<Longrightarrow> \<exists>fs. plan_file_deps d = JList fs \<and> list_all nonblank fs"
proof -
  assume some: "plan_file_deps d \<noteq> JNull"
  then obtain xs where xs: "jget ''file_deps'' d = JList xs" by (auto simp: plan_file_deps_def split: json.splits)
  then have "plan_file_deps d = JList (map JStr (trimmed (map text_of (filter is_jstr xs))))"
    using some by (auto simp: plan_file_deps_def split: list.splits)
  moreover have "list_all nonblank (map JStr (trimmed ys))" for ys
    by (auto simp: list_all_iff nonblank_def trimmed_def)
  ultimately show ?thesis by blast
qed

lemma planned_file_deps: "pn_fields e = plan_optional d \<Longrightarrow> file_deps_wf (planned_step e)"
  using plan_file_deps_wf [of d]
  by (auto simp: file_deps_wf_def planned_step_def new_step_def plan_optional_def)

lemma planned_keys [simp]:
  "step_id_of (planned_step e) = JStr (pn_id e)" "step_key (planned_step e) = strip (pn_id e)"
  "dep_keys (planned_step e) = map strip (pn_deps e)" "deps_of (planned_step e) = map JStr (pn_deps e)"
  by (simp_all add: planned_step_def step_key_def dep_keys_def deps_of_def key_of_def text_of_def list_of_def)

lemma planned_status: "step_status (planned_step e) = (if pn_deps e = [] then ''ready'' else ''blocked'')"
  by (simp add: planned_step_def step_status_def text_of_def)

lemma planned_step_wf:
  assumes "clean (pn_id e)" and "clean (pn_task e)" and "pn_id e \<notin> set (pn_deps e)" and "\<forall>d \<in> set (pn_deps e). clean d"
    and "pn_fields e = plan_optional d"
  shows "step_wf (planned_step e)"
proof -
  have "jget ''status'' (planned_step e) \<in> JStr ` set STEP_STATUSES"
    by (auto simp: planned_step_def STEP_STATUSES_def)
  moreover have "jget ''task'' (planned_step e) = JStr (pn_task e)" "is_jlist (jget ''depends_on'' (planned_step e))"
    by (simp_all add: planned_step_def)
  ultimately show ?thesis
    using assms(1-4) planned_file_deps [OF assms(5)]
    by (auto simp: step_wf_def nonblank_def clean_def key_of_def text_of_def)
qed

lemma entries_wf:
  assumes "entries_ok seen es"
  shows "(\<forall>e \<in> set es. step_wf (planned_step e)) \<and> distinct (map pn_id es) \<and> set (map pn_id es) \<inter> set seen = {} \<and>
    (\<forall>e \<in> set es. clean (pn_id e)) \<and>
    (\<forall>k < length es. \<forall>d \<in> set (pn_deps (es ! k)). clean d \<and> d \<in> set seen \<union> set (map pn_id (take k es)))"
  using assms
proof (induction seen es rule: entries_ok.induct)
  case (2 seen e es)
  then have "pn_id e \<notin> set (pn_deps e)" by auto
  then have "step_wf (planned_step e)" using 2 planned_step_wf by auto
  then show ?case using 2 by (auto simp: nth_Cons split: nat.splits)
qed simp

text \<open>So what the planner proposes, cut to the limit, is a plan that the validation accepts.\<close>

lemma take_keys: "k < length es \<Longrightarrow> d \<in> set (map pn_id (take k es)) \<Longrightarrow> \<exists>j < k. d = pn_id (es ! j)"
  by (fastforce simp: in_set_conv_nth)

lemma entries_acyclic:
  assumes "entries_ok [] es"
  shows "acyclic (plan_edges (map planned_step es))"
proof -
  note w = entries_wf [OF assms]
  have pos: "length (takeWhile (\<lambda>x. x \<noteq> pn_id (es ! k)) (map pn_id es)) = k" if "k < length es" for k
  proof -
    have "map pn_id es ! k = pn_id (es ! k)" using that by simp
    then have "takeWhile (\<lambda>x. x \<noteq> pn_id (es ! k)) (map pn_id es) = take k (map pn_id es)"
      using w that by (intro takeWhile_eq_take_P_nth) (auto simp: nth_eq_iff_index_eq distinct_conv_nth)
    then show ?thesis using that by simp
  qed
  have "length (takeWhile (\<lambda>x. x \<noteq> y) (map pn_id es)) < length (takeWhile (\<lambda>x. x \<noteq> z) (map pn_id es))"
    if zy: "(z, y) \<in> plan_edges (map planned_step es)" for z y
  proof -
    obtain e d where e: "e \<in> set es" "z = strip (pn_id e)" "d \<in> set (pn_deps e)" "y = strip d"
    proof -
      obtain s where "s \<in> set (map planned_step es)" "z = step_key s" "y \<in> set (dep_keys s)"
        using zy unfolding plan_edges_def by blast
      then show thesis using that by auto
    qed
    then obtain k where k: "k < length es" "e = es ! k" by (auto simp: in_set_conv_nth)
    then have d: "clean d" "d \<in> set (map pn_id (take k es))" using w e(3) by auto
    then obtain j where j: "j < k" "d = pn_id (es ! j)" using take_keys [OF k(1)] by blast
    have "y = pn_id (es ! j)" "z = pn_id (es ! k)" using e d(1) j(2) k w by (auto simp: clean_def)
    then show ?thesis using pos [of j] pos [OF k(1)] j(1) k(1) by simp
  qed
  then show ?thesis by (rule acyclicI_order)
qed

lemma entries_plan_wf:
  assumes "entries_ok [] es"
  shows "plan_wf (map planned_step es)"
proof -
  note w = entries_wf [OF assms]
  have keys: "map step_key (map planned_step es) = map pn_id es" using w by (auto simp: clean_def)
  have deps: "d \<in> set (map pn_id es)" if e: "e \<in> set es" and d: "d \<in> set (map strip (pn_deps e))" for e d
  proof -
    obtain c where c: "c \<in> set (pn_deps e)" "d = strip c" using d by auto
    obtain k where k: "k < length es" "e = es ! k" using e by (auto simp: in_set_conv_nth)
    then have "clean c" "c \<in> set (map pn_id (take k es))" using w c(1) by auto
    then show ?thesis using c(2) set_take_subset [of k "map pn_id es"] by (auto simp: clean_def take_map)
  qed
  have "set (dep_keys s) \<subseteq> step_key ` set (map planned_step es)" if s: "s \<in> set (map planned_step es)" for s
  proof -
    obtain e where e: "e \<in> set es" "s = planned_step e" using s by auto
    have "set (dep_keys s) \<subseteq> set (map pn_id es)" using deps [OF e(1)] by (auto simp: e(2))
    then show ?thesis by (metis keys set_map)
  qed
  moreover have "distinct (map step_key (map planned_step es))" unfolding keys using w by blast
  moreover have "\<forall>s \<in> set (map planned_step es). step_wf s" using w by simp
  ultimately show ?thesis
    unfolding plan_wf_def using entries_acyclic [OF assms] by blast
qed

lemma parse_plan_entries: "parse_plan shw loads raw = Some es \<Longrightarrow> entries_ok [] es \<and> es \<noteq> []"
  by (auto simp: parse_plan_def split: option.splits list.splits dest: parse_entries_ok)

lemma planned_entries:
  assumes "planned_steps env c = Some steps"
  obtains e es where "entries_ok [] (e # es)" and "steps = map planned_step (e # es)" and "int (length steps) \<le> PLAN_MAX_STEPS"
proof -
  obtain raw plan where plan: "parse_plan (pl_str env) (pl_loads env) raw = Some plan"
    and steps: "steps = map planned_step (take (nat (plan_limit c)) plan)"
    using assms by (auto simp: planned_steps_def split: option.splits)
  have lim: "1 \<le> plan_limit c" "plan_limit c \<le> PLAN_MAX_STEPS" by (simp_all add: plan_limit_def PLAN_MAX_STEPS_def)
  obtain e es where es: "plan = e # es" using parse_plan_entries [OF plan] by (cases plan) auto
  have ok: "entries_ok [] (take (nat (plan_limit c)) plan)"
    using parse_plan_entries [OF plan] entries_ok_take by blast
  obtain n where n: "nat (plan_limit c) = Suc n" using lim(1) by (cases "nat (plan_limit c)") auto
  have "int (length steps) \<le> PLAN_MAX_STEPS" using lim by (simp add: steps)
  with that [of e "take n es"] ok show thesis by (simp add: steps es n)
qed

subsection \<open>The first wave of a plan\<close>

lemma quiet_retry:
  assumes "table_ok t" and "get_flow i sess t = Some f"
  obtains g t' where "update_flow_with_conflict_retry (\<lambda>_ t. t) now i (fl_revision f) f build sess PERSIST_MAX_ATTEMPTS u t = (Inr g, t')"
    and "table_ok t'" and "get_flow i sess t' = Some g" and "fl_state g = build f 1"
    and "fl_status g = (case up_status u of Some x \<Rightarrow> x | None \<Rightarrow> fl_status f)"
proof -
  obtain g t' where "update_flow now i (fl_revision f) sess (u\<lparr>up_state := Some (build f 1)\<rparr>) t = (Inr g, t')"
    "table_ok t'" "get_flow i sess t' = Some g" "fl_state g = build f 1"
    "fl_status g = (case up_status (u\<lparr>up_state := Some (build f 1)\<rparr>) of Some x \<Rightarrow> x | None \<Rightarrow> fl_status f)"
    by (rule update_current [OF assms, of "u\<lparr>up_state := Some (build f 1)\<rparr>" "build f 1" now]) simp_all
  then show thesis
    using that by (simp add: update_flow_with_conflict_retry_def PERSIST_MAX_ATTEMPTS_def numeral_3_eq_3)
qed

lemma entries_fields: "entries_ok seen es \<Longrightarrow> e \<in> set es \<Longrightarrow> \<exists>d. pn_fields e = plan_optional d"
  by (induction seen es rule: entries_ok.induct) auto

lemma initial_ready_planned: "initial_ready (map planned_step es) = map pn_id (filter (\<lambda>e. pn_deps e = []) es)"
  by (induction es) (auto simp: initial_ready_def planned_status text_of_def)

lemma planned_dispatchable:
  assumes "entries_ok [] es" and "sid \<in> set (initial_ready (map planned_step es))"
  shows "check_dispatch (map planned_step es) sid = None \<and> strip sid = sid"
proof -
  note w = entries_wf [OF assms(1)]
  obtain e where e: "e \<in> set es" "sid = pn_id e" "pn_deps e = []"
    using assms(2) by (auto simp: initial_ready_planned)
  have "distinct (map step_id_of (map planned_step es))"
    using w by (simp add: comp_def distinct_map inj_on_def)
  then have found: "by_id (map planned_step es) (JStr sid) = Some (planned_step e)"
    using e by (subst by_id_iff) auto
  obtain d where d: "pn_fields e = plan_optional d" using entries_fields [OF assms(1) e(1)] by blast
  have "normalize_policy (planned_step e) = None"
    by (simp add: normalize_policy_def planned_step_def new_step_def jget_def d plan_optional_def)
  then show ?thesis
    using found e w by (auto simp: check_dispatch_def dispatchable_def planned_status clean_def)
qed

lemma initial_ready_distinct: "entries_ok [] es \<Longrightarrow> distinct (initial_ready (map planned_step es))"
  using entries_wf [of "[]" es] by (simp add: initial_ready_planned distinct_map_filter)

lemma plan_batch:
  assumes "entries_ok [] (e # es)" and "fl_status f = ''running''" and "flow_steps (fl_state f) = map planned_step (e # es)"
  shows "initial_ready (map planned_step (e # es)) \<noteq> [] \<and>
    map strip (initial_ready (map planned_step (e # es))) = initial_ready (map planned_step (e # es)) \<and>
    batch_accepted f (initial_ready (map planned_step (e # es)))"
proof -
  let ?ids = "initial_ready (map planned_step (e # es))"
  note d = planned_dispatchable [OF assms(1)]
  have "pn_deps e = []" using assms(1) by (cases "pn_deps e") auto
  then have "?ids \<noteq> []" unfolding initial_ready_planned by simp
  moreover have "map strip ?ids = ?ids" using d by (simp add: map_idI)
  moreover have "check_batch (map planned_step (e # es)) ?ids = None" using d by (simp add: check_batch_None list_all_iff)
  ultimately show ?thesis
    using assms(2,3) initial_ready_distinct [OF assms(1)] by (simp add: batch_accepted_def flow_terminal_def TERMINAL_STATUSES_def)
qed

text \<open>The flow a plan stores before its first wave.\<close>

lemma plan_stored:
  assumes "table_ok t" and "clean (plan_id env c session)" and "clean session"
    and "taskflow_plan env (\<lambda>_ t. t) now c session t = (Planned g steps wave, t')"
  obtains plan f t1 where "planned_steps env c = Some plan" and "table_ok t1"
    and "get_flow (plan_id env c session) session t1 = Some f" and "fl_status f = ''running''"
    and "flow_steps (fl_state f) = plan"
    and "start_plan env (\<lambda>_ t. t) now (plan_id env c session) session plan f t1 = (Planned g steps wave, t')"
proof -
  let ?i = "plan_id env c session"
  obtain plan where plan: "planned_steps env c = Some plan"
    and st: "store_plan env (\<lambda>_ t. t) now c ?i session plan t = (Planned g steps wave, t')"
    using assms(4) by (auto simp: taskflow_plan_def Let_def plan_taken_def split: if_splits option.splits)
  show thesis
  proof (rule create_flow_cases [OF assms(1), of now ?i "plan_state env c session plan" session "''running''" None None None])
    fix err
    assume "create_flow now ?i (plan_state env c session plan) session ''running'' None None None t = (Inl err, t)"
    then show thesis using st by (cases err) (auto simp: store_plan_def plan_taken_def split: option.splits if_splits)
  next
    fix r
    assume res: "create_flow now ?i (plan_state env c session plan) session ''running'' None None None t = (Inr (row_to_flow r), t @ [r])"
      and r: "r = new_flow now (strip ?i) (plan_state env c session plan) (strip session) ''running'' None None None"
      and fresh: "\<forall>q \<in> set t. fl_id q \<noteq> strip ?i"
    have id: "fl_id r = ?i" "fl_session r = session" using assms(2,3) by (simp_all add: r new_flow_def clean_def)
    have ok: "table_ok (t @ [r])" using assms(1,2) fresh by (auto simp: table_ok_def keyed_snoc id clean_def)
    have "get_flow ?i session (t @ [r]) = Some (row_to_flow r)" using get_flow_row [OF ok, of r] by (simp add: id)
    moreover have "start_plan env (\<lambda>_ t. t) now ?i session plan (row_to_flow r) (t @ [r]) = (Planned g steps wave, t')"
      using st by (auto simp: store_plan_def res split: if_splits)
    moreover have "fl_status (row_to_flow r) = ''running''" "flow_steps (fl_state (row_to_flow r)) = plan"
      by (simp_all add: r new_flow_def plan_state_def)
    ultimately show thesis using that [OF plan ok] by blast
  qed
qed


subsection \<open>How many flows are open\<close>

definition open_row :: "text_id \<Rightarrow> flow \<Rightarrow> bool" where
  "open_row sess r \<longleftrightarrow> fl_session r = sess \<and> fl_status r \<in> {''running'', ''waiting''} \<and> fl_superseded_by r = None"

definition open_flows :: "text_id \<Rightarrow> flow_table \<Rightarrow> nat" where
  "open_flows sess t = length (get_active_flows_sync sess t)"

lemma open_flows_count: "open_flows sess t = count_where (open_row sess) t"
  by (simp add: open_flows_def get_active_flows_sync_def open_row_def [abs_def] count_where_def)

lemma open_apply:
  "up_status u = None \<or> (\<exists>x. up_status u = Some x \<and> flow_terminal x) \<Longrightarrow> open_row sess (apply_update now n u r) \<Longrightarrow> open_row sess r"
  by (auto simp: open_row_def apply_update_def or_keep_def flow_terminal_def TERMINAL_STATUSES_def split: option.splits)

lemma open_update_flow:
  assumes "up_status u = None \<or> (\<exists>x. up_status u = Some x \<and> flow_terminal x)"
  shows "open_flows s (snd (update_flow now i n sess u t)) \<le> open_flows s t"
proof -
  have "count_where (open_row s) (update_where P (apply_update now m u) t) \<le> count_where (open_row s) t" for P m
    using open_apply [OF assms] by (rule count_where_update_le)
  then show ?thesis
    using update_flow_table [of now i n sess u t] by (auto simp: open_flows_count)
qed

lemma open_retry:
  assumes "up_status u = None"
  shows "open_flows s (snd (retry_write (\<lambda>_ t. t) now i sess build u left attempt cur n t)) \<le> open_flows s t"
proof (induction left arbitrary: attempt cur n t)
  case (Suc left)
  let ?u = "u\<lparr>up_state := Some (build cur attempt)\<rparr>"
  obtain res t2 where u: "update_flow now i n sess ?u t = (res, t2)" by fastforce
  have le: "open_flows s t2 \<le> open_flows s t" using open_update_flow [of ?u s now i n sess t] assms u by simp
  have "open_flows s (snd (retry_write (\<lambda>_ t. t) now i sess build u left a c m t2)) \<le> open_flows s t" for a c m
    using Suc.IH le order_trans by blast
  then show ?case using le by (auto simp: u Let_def split: sum.splits flow_error.splits option.splits)
qed simp

lemma open_dispatch: "open_flows s (snd (taskflow_dispatch te (\<lambda>_ t. t) now i ids expected sess t)) \<le> open_flows s t"
proof -
  have "open_flows s (snd (update_flow_with_conflict_retry (\<lambda>_ t. t) now j n f build sess m no_update t)) \<le> open_flows s t" for j n f build m
    by (simp add: update_flow_with_conflict_retry_def open_retry no_update_def)
  then show ?thesis
    by (auto simp: taskflow_dispatch_def Let_def split: option.split prod.split sum.split) (metis snd_conv)+
qed

lemma open_collect: "open_flows s (compensate_flow_without_todo now f t) \<le> open_flows s t"
  by (simp add: compensate_flow_without_todo_def gc_table open_update_flow flow_terminal_def TERMINAL_STATUSES_def)

lemma open_supersede: "open_flows s (snd (mark_flow_superseded now i j sess t)) \<le> open_flows s t"
  unfolding open_flows_count mark_flow_superseded_def snd_conv by (rule count_where_update_le) (simp add: open_row_def)

lemma open_create: "open_flows s (snd (create_flow now i state sess st child d p t)) \<le> (if s = strip sess then Suc (open_flows s t) else open_flows s t)"
proof -
  let ?r = "new_flow now (strip i) state (strip sess) st child d p"
  have "open_flows s (t @ [?r]) \<le> (if s = strip sess then Suc (open_flows s t) else open_flows s t)"
    by (simp add: open_flows_count open_row_def new_flow_def)
  moreover have "snd (create_flow now i state sess st child d p t) = t \<or> snd (create_flow now i state sess st child d p t) = t @ [?r]"
    by (simp add: create_flow_def Let_def split: option.split)
  ultimately show ?thesis by auto
qed

lemma open_root: "open_flows s (snd (root_flow env (\<lambda>_ t. t) now c resumed i sess f t)) \<le> open_flows s t"
  using open_collect open_supersede
  by (auto simp: root_flow_def split: option.split prod.split) (metis snd_conv)

lemma open_store_new:
  "open_flows s (snd (store_new_flow env (\<lambda>_ t. t) now c resumed i sess state t))
    \<le> (if s = strip sess then Suc (open_flows s t) else open_flows s t)"
proof -
  obtain res t1 where res: "create_flow now i state sess ''running'' None (create_deadline now c) resumed t = (res, t1)" by fastforce
  have le: "open_flows s t1 \<le> (if s = strip sess then Suc (open_flows s t) else open_flows s t)"
    using open_create [of s now i state sess "''running''" None "create_deadline now c" resumed t] by (simp add: res)
  show ?thesis
  proof (cases res)
    case (Inl err)
    then have "snd (store_new_flow env (\<lambda>_ t. t) now c resumed i sess state t) = t1"
      by (simp add: store_new_flow_def res split: flow_error.split)
    then show ?thesis using le by simp
  next
    case (Inr f)
    then have "open_flows s (snd (store_new_flow env (\<lambda>_ t. t) now c resumed i sess state t)) \<le> open_flows s t1"
      using open_root by (simp add: store_new_flow_def res)
    then show ?thesis using le by linarith
  qed
qed

lemma open_start: "open_flows s (snd (start_plan env (\<lambda>_ t. t) now i session steps f t)) \<le> open_flows s t"
proof -
  obtain res t1 where d: "taskflow_dispatch (task_env.truncate env) (\<lambda>_ t. t) now i (initial_ready steps) None session t = (res, t1)"
    by fastforce
  then have "open_flows s t1 \<le> open_flows s t" by (metis open_dispatch snd_conv)
  then show ?thesis by (simp add: start_plan_def d Let_def split: option.split)
qed

lemma open_store_plan:
  "open_flows s (snd (store_plan env (\<lambda>_ t. t) now c i session steps t))
    \<le> (if s = strip session then Suc (open_flows s t) else open_flows s t)"
proof -
  obtain res t1 where res: "create_flow now i (plan_state env c session steps) session ''running'' None None None t = (res, t1)" by fastforce
  have le: "open_flows s t1 \<le> (if s = strip session then Suc (open_flows s t) else open_flows s t)"
    using open_create [of s now i "plan_state env c session steps" session "''running''" None None None t] by (simp add: res)
  show ?thesis
  proof (cases res)
    case (Inl err)
    then have "snd (store_plan env (\<lambda>_ t. t) now c i session steps t) = t1"
      by (simp add: store_plan_def res split: flow_error.split option.split)
    then show ?thesis using le by simp
  next
    case (Inr f)
    then have "open_flows s (snd (store_plan env (\<lambda>_ t. t) now c i session steps t)) \<le> open_flows s t1"
      using open_start open_collect by (simp add: store_plan_def res)
    then show ?thesis using le by linarith
  qed
qed

text \<open>The ceiling of a session holds: creating or planning a flow, with whatever arguments and whatever the
  planner and the todo list do, never takes any session above twenty open flows, and a session that is
  already above it (from before) gets none on top. No flow is opened for a session other than the caller's.\<close>

theorem open_flows_bounded:
  "open_flows s (snd (taskflow_create env (\<lambda>_ t. t) now c session t)) \<le> max (open_flows s t) MAX_FLOWS_PER_SESSION \<and>
   open_flows s (snd (taskflow_plan env (\<lambda>_ t. t) now p (strip session) t)) \<le> max (open_flows s t) MAX_FLOWS_PER_SESSION"
proof
  have room: "(if s = k then Suc (open_flows s t) else open_flows s t) \<le> max (open_flows s t) MAX_FLOWS_PER_SESSION"
    if "open_flows k t < MAX_FLOWS_PER_SESSION" for k
    using that by auto
  show "open_flows s (snd (taskflow_create env (\<lambda>_ t. t) now c session t)) \<le> max (open_flows s t) MAX_FLOWS_PER_SESSION"
    using order_trans [OF open_store_new room, of "strip session"]
    by (simp add: taskflow_create_def Let_def open_flows_def [symmetric] not_le)
  show "open_flows s (snd (taskflow_plan env (\<lambda>_ t. t) now p (strip session) t)) \<le> max (open_flows s t) MAX_FLOWS_PER_SESSION"
    using order_trans [OF open_store_plan room, of "strip session"]
    by (simp add: taskflow_plan_def Let_def open_flows_def [symmetric] not_le split: option.split)
qed


text \<open>Two independent steps and one that needs both, a repeated id and an unknown dependency.\<close>

definition demo_entry :: "string \<Rightarrow> string list \<Rightarrow> json" where
  "demo_entry sid deps =
    JDict [(''step_id'', JStr sid), (''task'', JStr ''do it''), (''depends_on'', JList (map JStr deps))]"

definition demo_plan_env :: plan_env where
  "demo_plan_env =
    \<lparr>te_skills = (\<lambda>s v. s), te_show = (\<lambda>v. []), te_spawn = (\<lambda>k c. if k = 0 then Inr ''c1'' else Inl ''no slot''),
     pl_str = (\<lambda>v. []),
     pl_loads = (\<lambda>s. Some (JList [demo_entry ''a'' [''z''], demo_entry ''b'' [], demo_entry ''a'' [], demo_entry ''c'' ['' b'', ''a'']])),
     pl_reply = (\<lambda>q. Some ''[1]''), pl_digest = (\<lambda>s. s), pl_bound = True\<rparr>"

definition demo_plan_call :: plan_call where
  "demo_plan_call = \<lparr>pc_goal = ''ship'', pc_flow = ''f1'', pc_context = [], pc_max_steps = 0, pc_ack = False\<rparr>"

definition demo_planned :: "plan_result \<times> flow_table" where
  "demo_planned = taskflow_plan demo_plan_env (\<lambda>_ t. t) 5 demo_plan_call ''s1'' []"

definition is_planned :: "plan_result \<Rightarrow> bool" where
  "is_planned r = (case r of Planned _ _ _ \<Rightarrow> True | _ \<Rightarrow> False)"

lemma is_planned_shape: "is_planned (fst p) \<Longrightarrow> \<exists>g steps wave t'. p = (Planned g steps wave, t')"
  by (cases p) (auto simp: is_planned_def split: plan_result.splits)


text \<open>Three steps, of which the second is dropped before a step is added.\<close>

definition demo_numbered :: "string \<Rightarrow> string \<Rightarrow> jdict" where
  "demo_numbered sid status = new_step sid ''do it'' [] status []"

definition demo_numbered_flow :: flow where
  "demo_numbered_flow = (demo_flow ''f1'' ''running'')\<lparr>fl_state :=
     with_steps [demo_numbered ''step-1'' ''ready'', demo_numbered ''step-2'' ''ready'', demo_numbered ''step-3'' ''ready''] []\<rparr>"

definition demo_dropped :: "(update_error + flow) \<times> flow_table" where
  "demo_dropped = taskflow_update_steps 4 ''f1''
     (JList [JDict (demo_numbered ''step-1'' ''ready''), JDict (demo_numbered ''step-3'' ''ready'')]) None ''s1'' [demo_numbered_flow]"

definition demo_run_call :: run_call where
  "demo_run_call =
    \<lparr>rn_flow = ''f1'', rn_task = ''write the report'', rn_expected = None, rn_deps = [], rn_criteria = [], rn_policy = JNull,
     rn_aggregate = False, rn_schema = JNull, rn_params = JNull, rn_bindings = JNull, rn_files = JNull, rn_judge = [],
     rn_judge_model = [], rn_role = [], rn_model = [], rn_timeout = JNull, rn_priority = JNull\<rparr>"

definition demo_rerun :: "run_result \<times> flow_table" where
  "demo_rerun = taskflow_run_task demo_tasks (\<lambda>_ t. t) 5 demo_run_call ''s1'' (snd demo_dropped)"

text \<open>The ids of added steps can collide. A step is named after the length of the list, so after the replacement
  tool dropped a step the next one gets the id of a step that is still there: its child is spawned and
  stored, the list no longer passes the validation, and the older step, still ready, is shadowed: a
  dispatch of its id is refused as already dispatched.\<close>

theorem run_task_reuses_id:
  "\<not> isl (fst demo_dropped) \<and>
   (case demo_rerun of
      (Run_Dispatched g sid key, t) \<Rightarrow>
        sid = ''step-3'' \<and> map (\<lambda>s. (step_id_of s, step_status s)) (flow_steps (fl_state g)) =
          [(JStr ''step-1'', ''ready''), (JStr ''step-3'', ''ready''), (JStr ''step-3'', ''dispatched'')] \<and>
        validate_steps_list (jget ''steps'' (fl_state g)) = Some (Duplicate_Step_Id ''step-3'') \<and>
        fst (taskflow_dispatch demo_tasks (\<lambda>_ t. t) 6 ''f1'' [''step-3''] None ''s1'' t) =
          Dispatch_Refused (Dispatch_Not_Ready ''step-3'' ''dispatched'')
    | _ \<Rightarrow> False)"
  by code_simp

end
