(* ===== verification/TaskFlow_Replan.thy ===== *)
theory TaskFlow_Replan
  imports TaskFlow_Plan
begin

section \<open>Replanning the rest of a flow\<close>

text \<open>
  Models \<^verbatim>\<open>src/agent/tools/taskflow/tools/taskflow_replan.py\<close>: the prompt, the reading of the planner's
  reply, the replacement of every step that is neither kept nor running, the search for the steps
  downstream of a changed one, and the write with conflict retries. The planner, JSON parsing and the
  printing of values are the parameters of \<open>TaskFlow_Plan\<close>; \<open>others k\<close> is what other writers do before
  the \<open>k\<close>-th statement of the write.
\<close>

definition REPLAN_MAX :: int where
  "REPLAN_MAX = 3"

definition RESULT_CLIP :: nat where
  "RESULT_CLIP = 1200"

subsection \<open>The prompt\<close>

text \<open>Stands for the ellipsis character.\<close>

definition ELLIPSIS :: char where
  "ELLIPSIS = CHR 0x85"

definition clip :: "string \<Rightarrow> string" where
  "clip s = (if length s \<le> RESULT_CLIP then s else take (RESULT_CLIP - 1) s @ [ELLIPSIS])"

definition replan_result_for :: "(json \<Rightarrow> string) \<Rightarrow> jdict \<Rightarrow> jdict \<Rightarrow> string" where
  "replan_result_for shw state step =
    (let key = str_or shw (jget ''child_session_key'' step)
     in case find (\<lambda>r. jget ''child_session_key'' r = JStr key \<or> jget ''step_id'' r = step_id_of step)
               (List.map_filter (\<lambda>v. case v of JDict r \<Rightarrow> Some r | _ \<Rightarrow> None) (flow_results state)) of
          Some r \<Rightarrow> str_or shw (jget ''result'' r)
        | None \<Rightarrow> str_or shw (jget ''last_result'' step))"

definition done_lines :: "(json \<Rightarrow> string) \<Rightarrow> jdict \<Rightarrow> jdict \<Rightarrow> string" where
  "done_lines shw state s =
    ''  ['' @ str_of shw (step_id_of s) @ ''] '' @ str_of shw (jget ''task'' s) @ [LINE_FEED] @
    ''    result: '' @ clip (replan_result_for shw state s)"

definition open_lines :: "(json \<Rightarrow> string) \<Rightarrow> jdict \<Rightarrow> jdict \<Rightarrow> string" where
  "open_lines shw state s =
    ''  ['' @ str_of shw (step_id_of s) @ ''] status='' @ step_status s @ '' task='' @ str_of shw (jget ''task'' s) @
    '' depends_on='' @ shw (if truthy (jget ''depends_on'' s) then jget ''depends_on'' s else JList []) @
    (if replan_result_for shw state s = [] then [] else [LINE_FEED] @ ''    last result: '' @ clip (replan_result_for shw state s))"

definition build_replan_prompt :: "(json \<Rightarrow> string) \<Rightarrow> flow \<Rightarrow> string \<Rightarrow> string \<Rightarrow> string" where
  "build_replan_prompt shw f reason blocked =
    (let state = fl_state f; steps = flow_steps state; finished = filter (\<lambda>s. step_status s = ''done'') steps;
         goal = str_or shw (jget ''description'' state)
     in join [LINE_FEED]
          ([''Goal: '' @ (if goal = [] then ''(none)'' else goal),
            [LINE_FEED] @ ''DONE steps (fixed; keep their meaning):''] @
           (if finished = [] then [''  (none)''] else map (done_lines shw state) finished) @
           [[LINE_FEED] @ ''Steps still needing work:''] @
           map (open_lines shw state) (filter (\<lambda>s. step_status s \<noteq> ''done'') steps) @
           [[LINE_FEED] @ ''Reason for replanning: '' @ (if reason = [] then ''(unspecified)'' else reason)] @
           (if blocked = [] then [] else [''Triggering step: '' @ blocked]) @
           [[LINE_FEED] @ ''Return the replacement JSON array for the non-done steps.'']))"

subsection \<open>The planner's steps\<close>

definition usable_entry :: "(json \<Rightarrow> string) \<Rightarrow> json \<Rightarrow> jdict option" where
  "usable_entry shw v =
    (case v of
       JDict e \<Rightarrow> if strip (str_or shw (jget ''step_id'' e)) = [] \<or> strip (str_or shw (jget ''task'' e)) = [] then None else Some e
     | _ \<Rightarrow> None)"

definition parse_steps :: "(json \<Rightarrow> string) \<Rightarrow> (string \<Rightarrow> json option) \<Rightarrow> string \<Rightarrow> jdict list option" where
  "parse_steps shw loads raw =
    (case reply_array loads raw of
       None \<Rightarrow> None
     | Some vs \<Rightarrow> (case List.map_filter (usable_entry shw) vs of [] \<Rightarrow> None | es \<Rightarrow> Some es))"

definition entry_id :: "(json \<Rightarrow> string) \<Rightarrow> jdict \<Rightarrow> string" where
  "entry_id shw e = strip (str_of shw (jget ''step_id'' e))"

text \<open>\<^verbatim>\<open>[str(dep) for dep in (entry.get("depends_on") or []) if str(dep).strip()]\<close>.\<close>

definition entry_deps :: "(json \<Rightarrow> string) \<Rightarrow> jdict \<Rightarrow> string list option" where
  "entry_deps shw e =
    map_option (\<lambda>ds. filter (\<lambda>d. strip d \<noteq> []) (map (str_of shw) ds)) (items_of (jget ''depends_on'' e))"

definition replanned_step :: "(json \<Rightarrow> string) \<Rightarrow> jdict \<Rightarrow> string list \<Rightarrow> jdict" where
  "replanned_step shw e deps =
    new_step (entry_id shw e) (strip (str_of shw (jget ''task'' e))) deps (if deps = [] then ''ready'' else ''blocked'')
      [(''response_schema'', jget ''response_schema'' e), (''judge_criteria'', jget ''judge_criteria'' e)]"

datatype replan_result =
  Replan_Needs_Flow
| Replan_No_Flow text_id
| Replan_Terminal text_id string
| Replan_Exhausted text_id int
| Replan_No_Steps text_id
| Replan_Failed
| Replan_Raises
| Replan_Unknown_Deps string "string list"
| Replan_Empty text_id
| Replan_Unrecorded nat
| Replanned flow int "string list" "string list" "string list"

text \<open>The loop over the planned entries; \<open>known\<close> are the kept ids and the planned ones.\<close>

fun build_steps :: "(json \<Rightarrow> string) \<Rightarrow> string list \<Rightarrow> string list \<Rightarrow> jdict list \<Rightarrow> replan_result + jdict list" where
  "build_steps shw kept_ids known [] = Inr []"
| "build_steps shw kept_ids known (e # es) =
    (if entry_id shw e \<in> set kept_ids then build_steps shw kept_ids known es
     else (case entry_deps shw e of
             None \<Rightarrow> Inl Replan_Raises
           | Some deps \<Rightarrow>
               (case filter (\<lambda>d. d \<notin> set known) deps of
                  d # ds \<Rightarrow> Inl (Replan_Unknown_Deps (entry_id shw e) (d # ds))
                | [] \<Rightarrow>
                    (case build_steps shw kept_ids known es of
                       Inl r \<Rightarrow> Inl r
                     | Inr rest \<Rightarrow> Inr (replanned_step shw e deps # rest)))))"

subsection \<open>Steps downstream of a change\<close>

definition dep_texts :: "(json \<Rightarrow> string) \<Rightarrow> jdict \<Rightarrow> string list" where
  "dep_texts shw s = map (str_of shw) (case items_of (jget ''depends_on'' s) of None \<Rightarrow> [] | Some ds \<Rightarrow> ds)"

text \<open>One level of the search.\<close>

definition next_level :: "(json \<Rightarrow> string) \<Rightarrow> jdict list \<Rightarrow> string list \<Rightarrow> string list \<Rightarrow> string list" where
  "next_level shw steps invalidated frontier =
    remdups (map (\<lambda>s. str_or shw (step_id_of s))
      (filter (\<lambda>s. str_or shw (step_id_of s) \<noteq> [] \<and> str_or shw (step_id_of s) \<notin> set invalidated \<and>
                   str_or shw (step_id_of s) \<notin> set frontier \<and> list_ex (\<lambda>d. d \<in> set frontier) (dep_texts shw s)) steps))"

function levels_from :: "(json \<Rightarrow> string) \<Rightarrow> jdict list \<Rightarrow> string list \<Rightarrow> string list \<Rightarrow> string list" where
  "levels_from shw steps invalidated frontier =
    (if next_level shw steps invalidated frontier = [] then invalidated
     else levels_from shw steps (invalidated @ next_level shw steps invalidated frontier) (next_level shw steps invalidated frontier))"
  by pat_completeness auto

lemma next_level_iff:
  "x \<in> set (next_level shw steps invalidated frontier) \<longleftrightarrow>
    x \<noteq> [] \<and> x \<notin> set invalidated \<and> x \<notin> set frontier \<and>
    (\<exists>s \<in> set steps. str_or shw (step_id_of s) = x \<and> (\<exists>d \<in> set frontier. d \<in> set (dep_texts shw s)))"
  by (auto simp: next_level_def list_ex_iff)

lemma next_level_Nil [simp]: "next_level shw steps invalidated [] = []"
  by (simp add: next_level_def list_ex_iff)

text \<open>Every level takes ids of the list that were not taken before.\<close>

definition ids_left :: "(json \<Rightarrow> string) \<Rightarrow> jdict list \<Rightarrow> string list \<Rightarrow> nat" where
  "ids_left shw steps invalidated = card (set (map (\<lambda>s. str_or shw (step_id_of s)) steps) - set invalidated)"

termination levels_from
proof (relation "measure (\<lambda>(shw, steps, invalidated, frontier). ids_left shw steps invalidated)", simp)
  fix shw :: "json \<Rightarrow> string" and steps invalidated frontier
  let ?ids = "set (map (\<lambda>s. str_or shw (step_id_of s)) steps)" and ?next = "next_level shw steps invalidated frontier"
  assume "?next \<noteq> []"
  then obtain x where x: "x \<in> set ?next" by (cases ?next) auto
  then have "x \<in> ?ids" "x \<notin> set invalidated" by (auto simp: next_level_iff)
  then have "?ids - set (invalidated @ ?next) \<subset> ?ids - set invalidated" using x by auto
  then show "((shw, steps, invalidated @ ?next, ?next), (shw, steps, invalidated, frontier)) \<in>
      measure (\<lambda>(shw, steps, invalidated, frontier). ids_left shw steps invalidated)"
    by (simp add: ids_left_def psubset_card_mono)
qed

declare levels_from.simps [simp del]

definition transitive_dependents :: "(json \<Rightarrow> string) \<Rightarrow> jdict list \<Rightarrow> string list \<Rightarrow> string list" where
  "transitive_dependents shw steps changed = levels_from shw steps [] changed"

subsection \<open>The tool\<close>

definition kept_steps :: "bool \<Rightarrow> jdict list \<Rightarrow> jdict list" where
  "kept_steps keep_done steps = filter (\<lambda>s. keep_done \<and> step_status s = ''done'') steps"

definition running_steps :: "jdict list \<Rightarrow> jdict list" where
  "running_steps steps = filter (\<lambda>s. step_status s = ''dispatched'') steps"

definition rejected_steps :: "jdict list \<Rightarrow> jdict list" where
  "rejected_steps steps = filter (\<lambda>s. step_status s \<noteq> ''done'' \<and> step_status s \<noteq> ''dispatched'') steps"

definition mark_invalidated :: "(json \<Rightarrow> string) \<Rightarrow> string list \<Rightarrow> jdict \<Rightarrow> jdict" where
  "mark_invalidated shw invalidated s =
    (if str_of shw (step_id_of s) \<in> set invalidated \<and> step_status s \<noteq> ''ready''
     then dict_set ''block_reason'' (JStr (''replan: an upstream step'' @ [CHR 0x27] @ ''s task changed'')) (set_status ''blocked'' s) else s)"

text \<open>The merged list, the ids of the new steps, of the kept ones and of the invalidated ones.\<close>

definition replan_merge ::
    "(json \<Rightarrow> string) \<Rightarrow> bool \<Rightarrow> jdict list \<Rightarrow> jdict list \<Rightarrow> (replan_result option + jdict list \<times> string list \<times> string list \<times> string list)" where
  "replan_merge shw keep_done steps planned =
    (let kept = kept_steps keep_done steps @ running_steps steps;
         kept_ids = map (\<lambda>s. str_of shw (step_id_of s)) kept;
         known = kept_ids @ map (entry_id shw) planned
     in case build_steps shw kept_ids known planned of
          Inl r \<Rightarrow> Inl (Some r)
        | Inr [] \<Rightarrow> Inl None
        | Inr new \<Rightarrow>
            (let new_ids = map (\<lambda>s. str_of shw (step_id_of s)) new;
                 changed = filter (\<lambda>i. i \<in> set new_ids) (map (\<lambda>s. str_of shw (step_id_of s)) (rejected_steps steps));
                 invalidated = transitive_dependents shw (new @ kept) changed
             in Inr (kept @ map (mark_invalidated shw invalidated) new, new_ids, remdups kept_ids, invalidated)))"

definition replan_state :: "jdict list \<Rightarrow> int \<Rightarrow> string \<Rightarrow> flow \<Rightarrow> nat \<Rightarrow> jdict" where
  "replan_state merged n reason g attempt =
    dict_set ''replan_reason'' (JStr reason) (dict_set ''replan_count'' (JInt (n + 1)) (with_steps merged (fl_state g)))"

definition replan_write ::
    "(nat \<Rightarrow> flow_table \<Rightarrow> flow_table) \<Rightarrow> time \<Rightarrow> text_id \<Rightarrow> text_id \<Rightarrow> flow \<Rightarrow> jdict list \<Rightarrow> int \<Rightarrow> string \<Rightarrow> flow_table
     \<Rightarrow> (nat + flow) \<times> flow_table" where
  "replan_write others now i sess f merged n reason t =
    update_flow_with_conflict_retry others now i (fl_revision f) f (replan_state merged n reason) sess
      PERSIST_MAX_ATTEMPTS (no_update\<lparr>up_status := Some ''running''\<rparr>) t"

definition replan_flow ::
    "plan_env \<Rightarrow> (nat \<Rightarrow> flow_table \<Rightarrow> flow_table) \<Rightarrow> time \<Rightarrow> text_id \<Rightarrow> string \<Rightarrow> string \<Rightarrow> bool \<Rightarrow> text_id \<Rightarrow> flow \<Rightarrow> int \<Rightarrow> flow_table
     \<Rightarrow> replan_result \<times> flow_table" where
  "replan_flow env others now i reason blocked keep_done sess f n t =
    (case (case pl_reply env (build_replan_prompt (pl_str env) f reason blocked) of
             None \<Rightarrow> None | Some raw \<Rightarrow> parse_steps (pl_str env) (pl_loads env) raw) of
       None \<Rightarrow> (Replan_Failed, t)
     | Some planned \<Rightarrow>
         (case replan_merge (pl_str env) keep_done (flow_steps (fl_state f)) planned of
            Inl (Some r) \<Rightarrow> (r, t)
          | Inl None \<Rightarrow> (Replan_Empty i, t)
          | Inr (merged, new_ids, kept_ids, invalidated) \<Rightarrow>
              (case replan_write others now i sess f merged n reason t of
                 (Inl attempts, t') \<Rightarrow> (Replan_Unrecorded attempts, t')
               | (Inr g, t') \<Rightarrow> (Replanned g (n + 1) new_ids kept_ids invalidated, t'))))"

definition taskflow_replan ::
    "plan_env \<Rightarrow> (nat \<Rightarrow> flow_table \<Rightarrow> flow_table) \<Rightarrow> time \<Rightarrow> text_id \<Rightarrow> string \<Rightarrow> string \<Rightarrow> bool \<Rightarrow> text_id \<Rightarrow> flow_table
     \<Rightarrow> replan_result \<times> flow_table" where
  "taskflow_replan env others now flow_id reason blocked keep_done sess t =
    (let i = strip flow_id
     in if i = [] then (Replan_Needs_Flow, t)
        else case get_flow i sess t of
          None \<Rightarrow> (Replan_No_Flow i, t)
        | Some f \<Rightarrow>
            if flow_terminal (fl_status f) then (Replan_Terminal i (fl_status f), t)
            else (case int_or_zero (dict_get (fl_state f) ''replan_count'') of
                    None \<Rightarrow> (Replan_Raises, t)
                  | Some n \<Rightarrow>
                      if REPLAN_MAX \<le> n then (Replan_Exhausted i n, t)
                      else if flow_steps (fl_state f) = [] then (Replan_No_Steps i, t)
                      else replan_flow env others now i reason blocked keep_done sess f n t))"

subsection \<open>The search is exact\<close>

text \<open>From a step to the steps that name it.\<close>

definition downstream :: "(json \<Rightarrow> string) \<Rightarrow> jdict list \<Rightarrow> (string \<times> string) set" where
  "downstream shw steps =
    {(d, str_or shw (step_id_of s)) | d s. s \<in> set steps \<and> str_or shw (step_id_of s) \<noteq> [] \<and> d \<in> set (dep_texts shw s)}"

lemma downstream_iff:
  "(d, x) \<in> downstream shw steps \<longleftrightarrow>
    x \<noteq> [] \<and> (\<exists>s \<in> set steps. str_or shw (step_id_of s) = x \<and> d \<in> set (dep_texts shw s))"
  unfolding downstream_def by auto

lemma next_level_downstream:
  "set (next_level shw steps invalidated frontier) = downstream shw steps `` set frontier - set invalidated - set frontier"
proof -
  have "x \<in> downstream shw steps `` set frontier \<longleftrightarrow>
      x \<noteq> [] \<and> (\<exists>s \<in> set steps. str_or shw (step_id_of s) = x \<and> (\<exists>d \<in> set frontier. d \<in> set (dep_texts shw s)))" for x
    unfolding Image_iff downstream_iff by blast
  then show ?thesis by (auto simp only: next_level_iff set_eq_iff Diff_iff)
qed

text \<open>What is found is downstream of a changed step.\<close>

lemma levels_sound:
  assumes "set invalidated \<subseteq> (downstream shw steps)\<^sup>+ `` C" and "set frontier \<subseteq> (downstream shw steps)\<^sup>* `` C"
  shows "set (levels_from shw steps invalidated frontier) \<subseteq> (downstream shw steps)\<^sup>+ `` C"
  using assms
proof (induction shw steps invalidated frontier rule: levels_from.induct)
  case (1 shw steps invalidated frontier)
  let ?next = "next_level shw steps invalidated frontier"
  show ?case
  proof (cases "?next = []")
    case True
    then show ?thesis using 1(2) by (subst levels_from.simps) simp
  next
    case False
    have "set ?next \<subseteq> downstream shw steps `` set frontier" by (auto simp: next_level_downstream)
    then have new: "set ?next \<subseteq> (downstream shw steps)\<^sup>+ `` C"
      using 1(3) by (fastforce intro: rtrancl_into_trancl1)
    then have "set (levels_from shw steps (invalidated @ ?next) ?next) \<subseteq> (downstream shw steps)\<^sup>+ `` C"
    proof (intro 1(1) [OF False])
      show "set (invalidated @ ?next) \<subseteq> (downstream shw steps)\<^sup>+ `` C" using new 1(2) by simp
      show "set ?next \<subseteq> (downstream shw steps)\<^sup>* `` C" using new by (blast intro: trancl_into_rtrancl)
    qed
    then show ?thesis using False by (subst levels_from.simps) simp
  qed
qed

text \<open>And nothing is missed: the search ends in a set that is closed.\<close>

lemma levels_closed:
  assumes "set frontier \<subseteq> C \<union> set invalidated"
    and "downstream shw steps `` (C \<union> set invalidated - set frontier) \<subseteq> C \<union> set invalidated"
  shows "downstream shw steps `` (C \<union> set (levels_from shw steps invalidated frontier))
      \<subseteq> C \<union> set (levels_from shw steps invalidated frontier)"
  using assms
proof (induction shw steps invalidated frontier rule: levels_from.induct)
  case (1 shw steps invalidated frontier)
  let ?next = "next_level shw steps invalidated frontier" and ?R = "downstream shw steps"
  have step: "?R `` (C \<union> set invalidated) \<subseteq> C \<union> set invalidated \<union> set ?next"
    using 1(2,3) by (auto simp: next_level_downstream)
  show ?case
  proof (cases "?next = []")
    case True
    then have "levels_from shw steps invalidated frontier = invalidated" by (subst levels_from.simps) simp
    then show ?thesis using step True by simp
  next
    case False
    have "?R `` (C \<union> set (invalidated @ ?next)  - set ?next) \<subseteq> C \<union> set (invalidated @ ?next)"
      using step by auto
    then have "?R `` (C \<union> set (levels_from shw steps (invalidated @ ?next) ?next)) \<subseteq> C \<union> set (levels_from shw steps (invalidated @ ?next) ?next)"
      using 1(1) [OF False] by auto
    moreover have "levels_from shw steps invalidated frontier = levels_from shw steps (invalidated @ ?next) ?next"
      using False by (subst levels_from.simps) simp
    ultimately show ?thesis by simp
  qed
qed

text \<open>C29: A step that is not itself replaced is reported as invalidated exactly when it depends on a replaced one,
  directly or through other steps, cycles included.\<close>

theorem invalidation_is_exact:
  "set (transitive_dependents shw steps changed) - set changed = (downstream shw steps)\<^sup>+ `` set changed - set changed"
proof
  have "set (transitive_dependents shw steps changed) \<subseteq> (downstream shw steps)\<^sup>+ `` set changed"
    unfolding transitive_dependents_def by (rule levels_sound) auto
  then show "set (transitive_dependents shw steps changed) - set changed \<subseteq> (downstream shw steps)\<^sup>+ `` set changed - set changed"
    by blast
  let ?V = "set changed \<union> set (transitive_dependents shw steps changed)"
  have "downstream shw steps `` ?V \<subseteq> ?V"
    unfolding transitive_dependents_def by (rule levels_closed) auto
  then have "(downstream shw steps)\<^sup>* `` ?V = ?V" by (rule Image_closed_trancl)
  then have "(downstream shw steps)\<^sup>+ `` ?V \<subseteq> ?V" by (blast intro: trancl_into_rtrancl)
  then show "(downstream shw steps)\<^sup>+ `` set changed - set changed \<subseteq> set (transitive_dependents shw steps changed) - set changed"
    by blast
qed

subsection \<open>What a replan keeps\<close>

lemma replanned_get [simp]:
  "step_status (replanned_step shw e deps) = (if deps = [] then ''ready'' else ''blocked'')"
  "deps_of (replanned_step shw e deps) = map JStr deps"
  by (simp_all add: replanned_step_def step_status_def deps_of_def text_of_def list_of_def)

lemma build_steps_new:
  "build_steps shw kept_ids known es = Inr new \<Longrightarrow> s \<in> set new \<Longrightarrow>
    \<exists>e deps. s = replanned_step shw e deps \<and> set deps \<subseteq> set known \<and> entry_id shw e \<notin> set kept_ids"
proof (induction shw kept_ids known es arbitrary: new rule: build_steps.induct)
  case (2 shw kept_ids known e es)
  show ?case
  proof (cases "entry_id shw e \<in> set kept_ids")
    case True
    then show ?thesis using 2(1) [OF True] 2(3,4) by simp
  next
    case False
    then obtain deps rest where d: "entry_deps shw e = Some deps" "filter (\<lambda>d. d \<notin> set known) deps = []"
      "build_steps shw kept_ids known es = Inr rest" "new = replanned_step shw e deps # rest"
      using 2(3) by (auto split: option.splits list.splits sum.splits)
    have "set deps \<subseteq> set known" using d(2) by (auto simp: filter_empty_conv)
    then show ?thesis using 2(2) [OF False d(1,2,3)] 2(4) d(4) False by auto
  qed
qed simp

definition fresh_step :: "jdict \<Rightarrow> bool" where
  "fresh_step s \<longleftrightarrow> step_status s = (if deps_of s = [] then ''ready'' else ''blocked'')"

lemma marked_fresh: "fresh_step (mark_invalidated shw lost (replanned_step shw e deps))"
proof (cases "str_of shw (step_id_of (replanned_step shw e deps)) \<in> set lost \<and> step_status (replanned_step shw e deps) \<noteq> ''ready''")
  case True
  then have "deps \<noteq> []" by (auto split: if_splits)
  moreover have "deps_of (mark_invalidated shw lost (replanned_step shw e deps)) = map JStr deps"
    using True by (simp add: mark_invalidated_def set_status_def deps_of_def) (simp add: replanned_step_def list_of_def)
  moreover have "step_status (mark_invalidated shw lost (replanned_step shw e deps)) = ''blocked''"
    using True by (simp add: mark_invalidated_def set_status_def step_status_def text_of_def)
  ultimately show ?thesis by (simp add: fresh_step_def)
next
  case False
  then have "mark_invalidated shw lost (replanned_step shw e deps) = replanned_step shw e deps"
    unfolding mark_invalidated_def by (rule if_not_P)
  then show ?thesis by (simp add: fresh_step_def)
qed

lemma fresh_not_settled: "fresh_step s \<Longrightarrow> step_status s \<noteq> ''done'' \<and> step_status s \<noteq> ''dispatched''"
  by (auto simp: fresh_step_def)

lemma replan_merge_parts:
  assumes "replan_merge shw keep_done steps planned = Inr (merged, new_ids, kept_ids, invalidated)"
  obtains new where "merged = kept_steps keep_done steps @ running_steps steps @ new" and "new \<noteq> []" and "\<forall>s \<in> set new. fresh_step s"
proof -
  let ?kept = "kept_steps keep_done steps @ running_steps steps"
  let ?ids = "map (\<lambda>s. str_of shw (step_id_of s)) ?kept"
  obtain x new where new: "build_steps shw ?ids (?ids @ map (entry_id shw) planned) planned = Inr (x # new)"
    "merged = ?kept @ map (mark_invalidated shw invalidated) (x # new)"
    using assms by (auto simp: replan_merge_def Let_def split: sum.splits list.splits)
  have "\<forall>s \<in> set (map (mark_invalidated shw invalidated) (x # new)). fresh_step s"
  proof
    fix s
    assume "s \<in> set (map (mark_invalidated shw invalidated) (x # new))"
    then obtain q where q: "q \<in> set (x # new)" "s = mark_invalidated shw invalidated q" unfolding set_map by blast
    obtain e deps where "q = replanned_step shw e deps" using build_steps_new [OF new(1) q(1)] by blast
    then show "fresh_step s" using marked_fresh q(2) by blast
  qed
  then show thesis using that [of "map (mark_invalidated shw invalidated) (x # new)"] new(2) by simp
qed

lemma replan_state_get:
  "flow_steps (replan_state merged n reason g a) = merged"
  "int_or_zero (dict_get (replan_state merged n reason g a) ''replan_count'') = Some (n + 1)"
proof -
  have "steps_of (replan_state merged n reason g a) = map JDict merged"
    by (simp add: replan_state_def steps_of_def with_steps_def list_of_def)
  then show "flow_steps (replan_state merged n reason g a) = merged" by (simp add: flow_steps_def)
  show "int_or_zero (dict_get (replan_state merged n reason g a) ''replan_count'') = Some (n + 1)"
    by (simp add: replan_state_def int_or_zero_def py_int_def)
qed

lemma build_steps_refused:
  "build_steps shw kept_ids known es = Inl r \<Longrightarrow> r = Replan_Raises \<or> (\<exists>i ds. r = Replan_Unknown_Deps i ds)"
  by (induction shw kept_ids known es rule: build_steps.induct) (auto split: if_splits option.splits list.splits sum.splits)

text \<open>A replan that nobody interferes with.\<close>

lemma replan_success:
  assumes "table_ok t"
    and "taskflow_replan env (\<lambda>_ t. t) now flow_id reason blocked keep_done sess t = (Replanned g n new kept lost, t')"
  obtains f merged planned k where "get_flow (strip flow_id) sess t = Some f" and "\<not> flow_terminal (fl_status f)"
    and "int_or_zero (dict_get (fl_state f) ''replan_count'') = Some k" and "k < REPLAN_MAX" and "n = k + 1"
    and "replan_merge (pl_str env) keep_done (flow_steps (fl_state f)) planned = Inr (merged, new, kept, lost)"
    and "get_flow (strip flow_id) sess t' = Some g" and "fl_status g = ''running''"
    and "fl_state g = replan_state merged k reason f 1"
proof -
  obtain f k where f: "get_flow (strip flow_id) sess t = Some f" "\<not> flow_terminal (fl_status f)"
    "int_or_zero (dict_get (fl_state f) ''replan_count'') = Some k" "k < REPLAN_MAX"
    and r: "replan_flow env (\<lambda>_ t. t) now (strip flow_id) reason blocked keep_done sess f k t = (Replanned g n new kept lost, t')"
    using assms(2) by (auto simp: taskflow_replan_def Let_def not_le split: if_splits option.splits)
  obtain planned merged where p: "replan_merge (pl_str env) keep_done (flow_steps (fl_state f)) planned = Inr (merged, new, kept, lost)"
    and w: "replan_write (\<lambda>_ t. t) now (strip flow_id) sess f merged k reason t = (Inr g, t')" and n: "n = k + 1"
  proof -
    obtain planned where pl: "(case pl_reply env (build_replan_prompt (pl_str env) f reason blocked) of
        None \<Rightarrow> None | Some raw \<Rightarrow> parse_steps (pl_str env) (pl_loads env) raw) = Some planned"
      using r unfolding replan_flow_def by (auto split: option.splits)
    show thesis
    proof (cases "replan_merge (pl_str env) keep_done (flow_steps (fl_state f)) planned")
      case (Inl x)
      show thesis
      proof (cases x)
        case None
        then show thesis using r unfolding replan_flow_def pl by (simp add: Inl)
      next
        case (Some y)
        then have "y = Replanned g n new kept lost" using r unfolding replan_flow_def pl by (simp add: Inl)
        then show thesis using Inl Some by (auto simp: replan_merge_def Let_def split: sum.splits list.splits dest!: build_steps_refused)
      qed
    next
      case (Inr q)
      obtain merged new' kept' lost' where q: "q = (merged, new', kept', lost')" by (cases q) auto
      have w: "replan_write (\<lambda>_ t. t) now (strip flow_id) sess f merged k reason t = (Inr g, t')" "n = k + 1"
        and "new' = new" "kept' = kept" "lost' = lost"
        using r unfolding replan_flow_def pl by (auto simp: Inr q split: prod.splits sum.splits)
      then show thesis using that [of planned merged] Inr q by simp
    qed
  qed
  obtain g' t'' where "replan_write (\<lambda>_ t. t) now (strip flow_id) sess f merged k reason t = (Inr g', t'')"
    "get_flow (strip flow_id) sess t'' = Some g'" "fl_state g' = replan_state merged k reason f 1" "fl_status g' = ''running''"
    unfolding replan_write_def
    by (rule quiet_retry [OF assms(1) f(1), of now "replan_state merged k reason" "no_update\<lparr>up_status := Some ''running''\<rparr>"]) simp
  then show thesis using that [OF f n p] w by auto
qed

lemma filter_kept:
  "filter (\<lambda>s. step_status s = ''done'') (kept_steps keep_done steps) = kept_steps keep_done steps"
  "filter (\<lambda>s. step_status s = ''dispatched'') (kept_steps keep_done steps) = []"
  "filter (\<lambda>s. step_status s = ''done'') (running_steps steps) = []"
  "filter (\<lambda>s. step_status s = ''dispatched'') (running_steps steps) = running_steps steps"
  by (auto simp: kept_steps_def running_steps_def filter_empty_conv)

lemma fresh_filters:
  "\<forall>s \<in> set new. fresh_step s \<Longrightarrow> filter (\<lambda>s. step_status s = ''done'') new = []"
  "\<forall>s \<in> set new. fresh_step s \<Longrightarrow> filter (\<lambda>s. step_status s = ''dispatched'') new = []"
  using fresh_not_settled by (auto simp: filter_empty_conv)

lemma kept_of_merged:
  assumes "\<forall>s \<in> set fresh. fresh_step s"
  shows "running_steps (kept_steps keep_done steps @ running_steps steps @ fresh) = running_steps steps"
    and "kept_steps True (kept_steps keep_done steps @ running_steps steps @ fresh) = kept_steps keep_done steps"
proof -
  have "running_steps (kept_steps keep_done steps @ running_steps steps @ fresh) =
      filter (\<lambda>s. step_status s = ''dispatched'') (kept_steps keep_done steps @ running_steps steps @ fresh)"
    by (simp only: running_steps_def)
  then show "running_steps (kept_steps keep_done steps @ running_steps steps @ fresh) = running_steps steps"
    by (simp add: filter_kept fresh_filters [OF assms])
  have "kept_steps True (kept_steps keep_done steps @ running_steps steps @ fresh) =
      filter (\<lambda>s. step_status s = ''done'') (kept_steps keep_done steps @ running_steps steps @ fresh)"
    by (simp only: kept_steps_def simp_thms)
  then show "kept_steps True (kept_steps keep_done steps @ running_steps steps @ fresh) = kept_steps keep_done steps"
    by (simp add: filter_kept fresh_filters [OF assms])
qed

text \<open>C28: A replan keeps the work. When no other writer interferes, the stored flow has exactly the running steps it
  had, with their children, and exactly its completed steps (none of them when they are not to be kept);
  everything else is replaced by new steps, at least one, that are blocked when they name a dependency
  and ready otherwise. The flow is running, and the replan was counted: at most three are ever accepted.\<close>

theorem replan_keeps_work:
  assumes "table_ok t"
    and "taskflow_replan env (\<lambda>_ t. t) now flow_id reason blocked keep_done sess t = (Replanned g n new kept lost, t')"
  shows "\<exists>f fresh. get_flow (strip flow_id) sess t = Some f \<and> get_flow (strip flow_id) sess t' = Some g \<and>
    flow_steps (fl_state g) = kept_steps keep_done (flow_steps (fl_state f)) @ running_steps (flow_steps (fl_state f)) @ fresh \<and>
    running_steps (flow_steps (fl_state g)) = running_steps (flow_steps (fl_state f)) \<and>
    kept_steps True (flow_steps (fl_state g)) = kept_steps keep_done (flow_steps (fl_state f)) \<and>
    fresh \<noteq> [] \<and> (\<forall>s \<in> set fresh. step_status s = (if deps_of s = [] then ''ready'' else ''blocked'')) \<and>
    fl_status g = ''running'' \<and> int_or_zero (dict_get (fl_state f) ''replan_count'') = Some (n - 1) \<and>
    int_or_zero (dict_get (fl_state g) ''replan_count'') = Some n \<and> n \<le> REPLAN_MAX"
proof -
  obtain f merged planned k where f: "get_flow (strip flow_id) sess t = Some f" "\<not> flow_terminal (fl_status f)"
    "int_or_zero (dict_get (fl_state f) ''replan_count'') = Some k" "k < REPLAN_MAX" "n = k + 1"
    and m: "replan_merge (pl_str env) keep_done (flow_steps (fl_state f)) planned = Inr (merged, new, kept, lost)"
    and g: "get_flow (strip flow_id) sess t' = Some g" "fl_status g = ''running''" "fl_state g = replan_state merged k reason f 1"
    by (rule replan_success [OF assms])
  obtain fresh where fresh: "merged = kept_steps keep_done (flow_steps (fl_state f)) @ running_steps (flow_steps (fl_state f)) @ fresh"
    "fresh \<noteq> []" "\<forall>s \<in> set fresh. fresh_step s"
    by (rule replan_merge_parts [OF m])
  have steps: "flow_steps (fl_state g) = kept_steps keep_done (flow_steps (fl_state f)) @ running_steps (flow_steps (fl_state f)) @ fresh"
    by (simp only: g(3) replan_state_get fresh(1))
  have count: "int_or_zero (dict_get (fl_state g) ''replan_count'') = Some n"
    by (simp only: g(3) replan_state_get f(5))
  have "running_steps (flow_steps (fl_state g)) = running_steps (flow_steps (fl_state f))"
    "kept_steps True (flow_steps (fl_state g)) = kept_steps keep_done (flow_steps (fl_state f))"
    unfolding steps using kept_of_merged [OF fresh(3)] by blast+
  moreover have "\<forall>s \<in> set fresh. step_status s = (if deps_of s = [] then ''ready'' else ''blocked'')"
    using fresh(3) by (simp add: fresh_step_def)
  moreover have "int_or_zero (dict_get (fl_state f) ''replan_count'') = Some (n - 1)" "n \<le> REPLAN_MAX"
    using f(3-5) by simp_all
  ultimately show ?thesis using f(1) g(1,2) steps fresh(2) count by blast
qed

text \<open>A completed, a running and a failed step; the planner proposes the entries it is given.\<close>

definition demo_kid :: "string \<Rightarrow> string \<Rightarrow> string \<Rightarrow> jdict" where
  "demo_kid sid status key = dict_set ''child_session_key'' (JStr key) (new_step sid ''do it'' [] status [])"

definition demo_stuck_flow :: flow where
  "demo_stuck_flow = (demo_flow ''f1'' ''running'')\<lparr>fl_state :=
     with_steps [demo_kid ''a'' ''done'' ''c1'', demo_kid ''b'' ''dispatched'' ''c2'', demo_kid ''c'' ''failed'' ''c3''] []\<rparr>"

definition demo_replan :: "(nat \<Rightarrow> flow_table \<Rightarrow> flow_table) \<Rightarrow> json list \<Rightarrow> replan_result \<times> flow_table" where
  "demo_replan others es = taskflow_replan (demo_plan_env\<lparr>pl_loads := (\<lambda>_. Some (JList es))\<rparr>) others 7 ''f1'' ''it failed'' [] True ''s1'' [demo_stuck_flow]"

definition is_replanned :: "replan_result \<Rightarrow> bool" where
  "is_replanned r = (case r of Replanned _ _ _ _ _ \<Rightarrow> True | _ \<Rightarrow> False)"

lemma is_replanned_shape: "is_replanned (fst p) \<Longrightarrow> \<exists>g n new kept lost t'. p = (Replanned g n new kept lost, t')"
  by (cases p) (auto simp: is_replanned_def split: replan_result.splits)

theorem replan_keeps_work_witness:
  "\<exists>g n new kept lost t'. demo_replan (\<lambda>_ t. t) [demo_entry ''c'' [''a'']] = (Replanned g n new kept lost, t') \<and>
     get_flow ''f1'' ''s1'' t' = Some g \<and> running_steps (flow_steps (fl_state g)) = [demo_kid ''b'' ''dispatched'' ''c2''] \<and>
     kept_steps True (flow_steps (fl_state g)) = [demo_kid ''a'' ''done'' ''c1''] \<and> n \<le> REPLAN_MAX"
proof -
  have "is_replanned (fst (demo_replan (\<lambda>_ t. t) [demo_entry ''c'' [''a'']]))" by code_simp
  then obtain g n new kept lost t' where res: "demo_replan (\<lambda>_ t. t) [demo_entry ''c'' [''a'']] = (Replanned g n new kept lost, t')"
    using is_replanned_shape by blast
  have "table_ok [demo_stuck_flow]" by (simp add: table_ok_def)
  note k = replan_keeps_work [OF this res [unfolded demo_replan_def]]
  have id: "strip ''f1'' = ''f1''" by code_simp
  have f: "get_flow ''f1'' ''s1'' [demo_stuck_flow] = Some demo_stuck_flow" by code_simp
  have "running_steps (flow_steps (fl_state demo_stuck_flow)) = [demo_kid ''b'' ''dispatched'' ''c2'']"
    "kept_steps True (flow_steps (fl_state demo_stuck_flow)) = [demo_kid ''a'' ''done'' ''c1'']"
    by code_simp+
  with k f id have "get_flow ''f1'' ''s1'' t' = Some g" "running_steps (flow_steps (fl_state g)) = [demo_kid ''b'' ''dispatched'' ''c2'']"
    "kept_steps True (flow_steps (fl_state g)) = [demo_kid ''a'' ''done'' ''c1'']" "n \<le> REPLAN_MAX"
    by auto
  then show ?thesis using res by blast
qed

text \<open>The child of \<open>b\<close> reports while the planner is thinking.\<close>

definition demo_report :: "nat \<Rightarrow> flow_table \<Rightarrow> flow_table" where
  "demo_report k t = (if k = 2 then snd (update_flow 6 ''f1'' 1 ''s1''
     (no_update\<lparr>up_state := Some (with_steps [demo_kid ''a'' ''done'' ''c1'', demo_kid ''b'' ''done'' ''c2'', demo_kid ''c'' ''failed'' ''c3''] [])\<rparr>) t) else t)"

definition replan_steps :: "replan_result \<times> flow_table \<Rightarrow> jdict list" where
  "replan_steps p = (case fst p of Replanned g _ _ _ _ \<Rightarrow> flow_steps (fl_state g) | _ \<Rightarrow> [])"

text \<open>Where a replan goes wrong. (1) The planner's dependencies are not checked for cycles: two steps that need each
  other are stored, and the flow can never finish. (2) A new step whose dependencies are all done is stored
  blocked, and nothing unlocks it: the unlocking pass, which would make it ready, is not run. (3) The merged
  list is computed before the write and repeated after a conflict: a step whose child reported meanwhile is
  stored as running again.\<close>

theorem replan_gaps:
  "validate_steps_list (JList (map JDict (replan_steps (demo_replan (\<lambda>_ t. t) [demo_entry ''c'' [''d''], demo_entry ''d'' [''c'']])))) =
     Some (Dependency_Cycle [''c'', ''d'', ''c'']) \<and>
   map_option step_status (by_id (replan_steps (demo_replan (\<lambda>_ t. t) [demo_entry ''c'' [''a'']])) (JStr ''c'')) = Some ''blocked'' \<and>
   fst (unlock_dependents (replan_steps (demo_replan (\<lambda>_ t. t) [demo_entry ''c'' [''a'']]))) = [JStr ''c''] \<and>
   map_option (\<lambda>f. map step_status (flow_steps (fl_state f))) (get_flow ''f1'' ''s1'' (demo_report 2 [demo_stuck_flow])) =
     Some [''done'', ''done'', ''failed''] \<and>
   map step_status (replan_steps (demo_replan demo_report [demo_entry ''c'' [''a'']])) = [''done'', ''dispatched'', ''blocked'']"
  by code_simp

end
