(* ===== verification/TaskFlow_Close.thy ===== *)
theory TaskFlow_Close
  imports TaskFlow_Replan TaskFlow_Resume
begin

section \<open>Parking and closing a flow\<close>

text \<open>
  Models the tools \<^verbatim>\<open>taskflow_set_waiting.py\<close>, \<^verbatim>\<open>taskflow_fail.py\<close>, \<^verbatim>\<open>taskflow_cancel.py\<close> and
  \<^verbatim>\<open>taskflow_budget.py\<close> of \<^verbatim>\<open>src/agent/tools/taskflow/tools/\<close>. Each tool that changes a flow reads the flow, refuses a terminal one and writes with the revision it read or was given; \<open>others\<close>
  is what other writers do in between.
\<close>

subsection \<open>The mutating tools\<close>

datatype close_result =
  Close_Needs_Flow
| Close_No_Flow text_id
| Close_Terminal text_id string
| Close_Conflict text_id int int
| Close_Raises flow_error
| Closed flow

definition close_error :: "flow_error \<Rightarrow> close_result" where
  "close_error e =
    (case e of Flow_Conflict i n m \<Rightarrow> Close_Conflict i n m | Flow_Not_Found i \<Rightarrow> Close_No_Flow i | _ \<Rightarrow> Close_Raises e)"

text \<open>What the four tools share; \<open>change\<close> is the update made from the flow that was read.\<close>

definition mutate_flow ::
    "(flow \<Rightarrow> flow_update) \<Rightarrow> (flow_table \<Rightarrow> flow_table) \<Rightarrow> time \<Rightarrow> string \<Rightarrow> int option \<Rightarrow> text_id \<Rightarrow> flow_table
     \<Rightarrow> close_result \<times> flow_table" where
  "mutate_flow change others now flow_id expected sess t =
    (let i = strip flow_id
     in if i = [] then (Close_Needs_Flow, t)
        else case get_flow i sess t of
          None \<Rightarrow> (Close_No_Flow i, t)
        | Some f \<Rightarrow>
            if flow_terminal (fl_status f) then (Close_Terminal i (fl_status f), t)
            else (case update_flow now i (case expected of Some n \<Rightarrow> n | None \<Rightarrow> fl_revision f) sess (change f) (others t) of
                    (Inl e, t') \<Rightarrow> (close_error e, t')
                  | (Inr g, t') \<Rightarrow> (Closed g, t')))"

definition waiting_update :: "time \<Rightarrow> string \<Rightarrow> flow \<Rightarrow> flow_update" where
  "waiting_update now why f =
    no_update\<lparr>up_wait := Some (Some [(''reason'', JStr why), (''set_at'', JFloat now)]), up_status := Some ''waiting''\<rparr>"

definition taskflow_set_waiting ::
    "(flow_table \<Rightarrow> flow_table) \<Rightarrow> time \<Rightarrow> string \<Rightarrow> string \<Rightarrow> int option \<Rightarrow> text_id \<Rightarrow> flow_table \<Rightarrow> close_result \<times> flow_table" where
  "taskflow_set_waiting others now flow_id why = mutate_flow (waiting_update now why) others now flow_id"

definition fail_update :: "string \<Rightarrow> flow \<Rightarrow> flow_update" where
  "fail_update reason f =
    no_update\<lparr>up_state := Some (if reason = [] then fl_state f else dict_set ''failure_reason'' (JStr reason) (fl_state f)),
      up_wait := Some None, up_status := Some ''failed'', up_terminal_reason := Some (Some ''failed'')\<rparr>"

definition taskflow_fail ::
    "(flow_table \<Rightarrow> flow_table) \<Rightarrow> time \<Rightarrow> string \<Rightarrow> string \<Rightarrow> int option \<Rightarrow> text_id \<Rightarrow> flow_table \<Rightarrow> close_result \<times> flow_table" where
  "taskflow_fail others now flow_id reason = mutate_flow (fail_update reason) others now flow_id"

text \<open>Steps that are no dictionaries are left alone, and so are done and cancelled ones.\<close>

definition cancel_step :: "string \<Rightarrow> json \<Rightarrow> json" where
  "cancel_step reason v =
    (case v of
       JDict s \<Rightarrow>
         if step_status s = ''done'' \<or> step_status s = ''cancelled'' then v
         else JDict (dict_set ''cancel_reason'' (JStr (if reason = [] then ''flow cancelled'' else reason)) (set_status ''cancelled'' s))
     | _ \<Rightarrow> v)"

definition cancel_state :: "string \<Rightarrow> jdict \<Rightarrow> jdict" where
  "cancel_state reason state =
    (let s1 = (if reason = [] then state else dict_set ''cancel_reason'' (JStr reason) state);
         steps = steps_of s1
     in if steps = [] then s1 else dict_set ''steps'' (JList (map (cancel_step reason) steps)) s1)"

definition cancel_update :: "string \<Rightarrow> flow \<Rightarrow> flow_update" where
  "cancel_update reason f =
    no_update\<lparr>up_state := Some (cancel_state reason (fl_state f)), up_wait := Some None,
      up_status := Some ''cancelled'', up_terminal_reason := Some (Some ''cancelled'')\<rparr>"

definition taskflow_cancel ::
    "(flow_table \<Rightarrow> flow_table) \<Rightarrow> time \<Rightarrow> string \<Rightarrow> string \<Rightarrow> int option \<Rightarrow> text_id \<Rightarrow> flow_table \<Rightarrow> close_result \<times> flow_table" where
  "taskflow_cancel others now flow_id reason = mutate_flow (cancel_update reason) others now flow_id"

subsection \<open>The budget\<close>

definition BUDGET_WARN_THRESHOLD :: rat where
  "BUDGET_WARN_THRESHOLD = 4 / 5"

datatype budget_status = Budget_Ok | Budget_Warning | Budget_Exceeded

definition budget_status_of :: "flow \<Rightarrow> budget_status" where
  "budget_status_of f =
    (if fl_token_budget f \<le> 0 then Budget_Ok
     else if fl_token_budget f \<le> fl_total_tokens f then Budget_Exceeded
     else if BUDGET_WARN_THRESHOLD \<le> of_int (fl_total_tokens f) / of_int (fl_token_budget f) then Budget_Warning
     else Budget_Ok)"

datatype budget_result =
  Budget_Needs_Flow
| Budget_No_Flow text_id
| Budget_Report int rat "(int \<times> int \<times> rat) option" budget_status
| Budget_Bad_Cap
| Budget_Unknown_Action string
| Budget_Refused close_result
| Budget_Set flow

text \<open>The numbers reported: tokens, cost, and with a budget the budget, what is left and the percentage.\<close>

definition budget_report :: "flow \<Rightarrow> budget_result" where
  "budget_report f =
    Budget_Report (fl_total_tokens f) (fl_total_cost f)
      (if 0 < fl_token_budget f
       then Some (fl_token_budget f, fl_token_budget f - fl_total_tokens f,
                  of_int (fl_total_tokens f) / of_int (fl_token_budget f) * 100)
       else None)
      (budget_status_of f)"

definition flow_budget_action :: "string \<Rightarrow> string" where
  "flow_budget_action action = lower (strip (if action = [] then ''query'' else action))"

definition taskflow_budget ::
    "(flow_table \<Rightarrow> flow_table) \<Rightarrow> time \<Rightarrow> string \<Rightarrow> string \<Rightarrow> int option \<Rightarrow> int option \<Rightarrow> text_id \<Rightarrow> flow_table
     \<Rightarrow> budget_result \<times> flow_table" where
  "taskflow_budget others now flow_id action cap expected sess t =
    (let i = strip flow_id; a = flow_budget_action action
     in if i = [] then (Budget_Needs_Flow, t)
        else case get_flow i sess t of
          None \<Rightarrow> (Budget_No_Flow i, t)
        | Some f \<Rightarrow>
            if a = ''query'' then (budget_report f, t)
            else if a \<noteq> ''set'' then (Budget_Unknown_Action a, t)
            else (case cap of
                    None \<Rightarrow> (Budget_Bad_Cap, t)
                  | Some n \<Rightarrow>
                      if n \<le> 0 then (Budget_Bad_Cap, t)
                      else (case mutate_flow (\<lambda>_. no_update\<lparr>up_token_budget := Some n\<rparr>) others now flow_id expected sess t of
                              (Closed g, t') \<Rightarrow> (Budget_Set g, t')
                            | (r, t') \<Rightarrow> (Budget_Refused r, t'))))"

subsection \<open>What the tools leave behind\<close>

lemma mutate_flow_closed:
  assumes "mutate_flow change others now flow_id expected sess t = (Closed g, t')"
  obtains f n where "get_flow (strip flow_id) sess t = Some f" and "\<not> flow_terminal (fl_status f)"
    and "update_flow now (strip flow_id) n sess (change f) (others t) = (Inr g, t')"
proof -
  let ?i = "strip flow_id"
  obtain f where f: "get_flow ?i sess t = Some f" "\<not> flow_terminal (fl_status f)"
    using assms by (auto simp: mutate_flow_def Let_def split: if_splits option.splits)
  let ?n = "case expected of Some n \<Rightarrow> n | None \<Rightarrow> fl_revision f"
  obtain res t2 where u: "update_flow now ?i ?n sess (change f) (others t) = (res, t2)" by fastforce
  have "?i \<noteq> []" using assms by (auto simp: mutate_flow_def Let_def split: if_splits)
  then have r: "(case res of Inl e \<Rightarrow> (close_error e, t2) | Inr h \<Rightarrow> (Closed h, t2)) = (Closed g, t')"
    using assms f u by (simp add: mutate_flow_def Let_def)
  have "close_error e \<noteq> Closed g" for e by (cases e) (simp_all add: close_error_def)
  then have "res = Inr g" "t2 = t'" using r by (auto split: sum.splits)
  then show thesis using that [OF f] u by simp
qed

lemma mutate_terminal:
  "get_flow (strip flow_id) sess t = Some f \<Longrightarrow> flow_terminal (fl_status f) \<Longrightarrow> snd (mutate_flow change others now flow_id expected sess t) = t"
  by (simp add: mutate_flow_def Let_def)

definition ended :: "json \<Rightarrow> bool" where
  "ended v \<longleftrightarrow> (case v of JDict s \<Rightarrow> step_status s = ''done'' \<or> step_status s = ''cancelled'' | _ \<Rightarrow> True)"

lemma cancelled_status: "step_status (dict_set ''cancel_reason'' x (set_status ''cancelled'' s)) = ''cancelled''"
  by (simp add: set_status_def step_status_def text_of_def)

lemma cancel_step_ends: "ended (cancel_step reason v)"
  by (cases v) (simp_all add: ended_def cancel_step_def cancelled_status)

lemma cancel_state_steps: "steps_of (cancel_state reason state) = map (cancel_step reason) (steps_of state)"
  by (auto simp: cancel_state_def Let_def steps_of_def list_of_def)

lemma cancel_keeps_done:
  "filter (\<lambda>v. case v of JDict s \<Rightarrow> step_status s = ''done'' | _ \<Rightarrow> False) (map (cancel_step reason) vs) =
   filter (\<lambda>v. case v of JDict s \<Rightarrow> step_status s = ''done'' | _ \<Rightarrow> False) vs"
proof (induction vs)
  case (Cons v vs)
  then show ?case by (cases v) (simp_all add: cancel_step_def cancelled_status)
qed simp

text \<open>The completed steps of a flow.\<close>

definition completed_steps :: "jdict \<Rightarrow> json list" where
  "completed_steps state = filter (\<lambda>v. case v of JDict s \<Rightarrow> step_status s = ''done'' | _ \<Rightarrow> False) (steps_of state)"

text \<open>C30: Cancelling settles everything. Whatever other writers do before the write, a successful cancel leaves the
  flow cancelled, waiting for nothing, with the reason of its end, every step done or cancelled, and the
  completed steps of the flow it read as they were.\<close>

theorem cancel_settles_all:
  assumes "table_ok (others t)" and "taskflow_cancel others now flow_id reason expected sess t = (Closed g, t')"
  shows "get_flow (strip flow_id) sess t' = Some g \<and> fl_status g = ''cancelled'' \<and> fl_wait g = None \<and>
    fl_terminal_reason g = Some ''cancelled'' \<and> list_all ended (steps_of (fl_state g)) \<and>
    (\<exists>f. get_flow (strip flow_id) sess t = Some f \<and> \<not> flow_terminal (fl_status f) \<and>
       completed_steps (fl_state g) = completed_steps (fl_state f))"
proof -
  obtain f n where f: "get_flow (strip flow_id) sess t = Some f" "\<not> flow_terminal (fl_status f)"
    and u: "update_flow now (strip flow_id) n sess (cancel_update reason f) (others t) = (Inr g, t')"
    using assms(2) unfolding taskflow_cancel_def by (rule mutate_flow_closed)
  have assigned: "assigns (cancel_update reason f)" by (simp add: cancel_update_def assigns_def)
  have state: "up_state (cancel_update reason f) = Some (cancel_state reason (fl_state f))" by (simp add: cancel_update_def)
  note s = update_stores [OF assms(1) assigned state u]
  obtain r where r: "g = row_to_flow (apply_update now (n + 1) (cancel_update reason f) r)"
    using update_flow_Inr [OF assms(1) assigned u] by blast
  have "fl_status g = ''cancelled''" "fl_wait g = None" "fl_terminal_reason g = Some ''cancelled''"
    by (simp_all add: r apply_update_def cancel_update_def or_keep_def row_to_flow_def or_text_def)
  moreover have "list_all ended (steps_of (fl_state g))"
    by (simp add: s(3) cancel_state_steps list_all_iff cancel_step_ends)
  moreover have "completed_steps (fl_state g) = completed_steps (fl_state f)"
    by (simp only: s(3) completed_steps_def cancel_state_steps cancel_keeps_done)
  ultimately show ?thesis using f s(2) by blast
qed

definition demo_cancel :: "close_result \<times> flow_table" where
  "demo_cancel = taskflow_cancel (\<lambda>t. t) 9 '' f1'' [] None ''s1'' [demo_stuck_flow]"

definition is_closed :: "close_result \<Rightarrow> bool" where
  "is_closed r = (case r of Closed _ \<Rightarrow> True | _ \<Rightarrow> False)"

lemma is_closed_shape: "is_closed (fst p) \<Longrightarrow> \<exists>g t'. p = (Closed g, t')"
  by (cases p) (auto simp: is_closed_def split: close_result.splits)

theorem cancel_settles_all_witness:
  "\<exists>g t'. demo_cancel = (Closed g, t') \<and> list_all ended (steps_of (fl_state g)) \<and> fl_status g = ''cancelled'' \<and>
     completed_steps (fl_state g) = [JDict (demo_kid ''a'' ''done'' ''c1'')]"
proof -
  have "is_closed (fst demo_cancel)" by code_simp
  then obtain g t' where res: "demo_cancel = (Closed g, t')" using is_closed_shape by blast
  have "table_ok [demo_stuck_flow]" by (simp add: table_ok_def)
  from cancel_settles_all [OF this res [unfolded demo_cancel_def]]
  obtain f where g: "fl_status g = ''cancelled''" "list_all ended (steps_of (fl_state g))"
    "get_flow (strip '' f1'') ''s1'' [demo_stuck_flow] = Some f" "completed_steps (fl_state g) = completed_steps (fl_state f)"
    by blast
  moreover have "map_option (completed_steps \<circ> fl_state) (get_flow (strip '' f1'') ''s1'' [demo_stuck_flow]) =
      Some [JDict (demo_kid ''a'' ''done'' ''c1'')]" by code_simp
  ultimately show ?thesis using res by auto
qed

text \<open>C31: A terminal flow is closed to the tools: whatever its terminal status, parking, failing, cancelling, setting a
  budget, replanning, replacing the steps, adding a step, dispatching, delivering a result and finishing
  leave every table as it is, with whatever arguments.\<close>

theorem terminal_flow_is_closed:
  assumes "get_flow (strip i) sess t = Some f" and "flow_terminal (fl_status f)"
  shows "snd (taskflow_set_waiting others now i why expected sess t) = t \<and> snd (taskflow_fail others now i why expected sess t) = t \<and>
    snd (taskflow_cancel others now i why expected sess t) = t \<and> snd (taskflow_budget others now i why cap expected sess t) = t \<and>
    snd (taskflow_replan penv env now i why blocked keep_done sess t) = t \<and> snd (taskflow_update_steps now i v expected sess t) = t \<and>
    snd (taskflow_run_task te env now (c\<lparr>rn_flow := i\<rparr>) sess t) = t \<and> snd (taskflow_dispatch te env now i ids expected sess t) = t \<and>
    snd (taskflow_resume renv env now i call sess t) = t \<and> snd (taskflow_finish fenv others now i summary expected sess t) = t"
proof (intro conjI)
  note m = mutate_terminal [OF assms]
  show "snd (taskflow_set_waiting others now i why expected sess t) = t" "snd (taskflow_fail others now i why expected sess t) = t"
    "snd (taskflow_cancel others now i why expected sess t) = t"
    by (simp_all add: m taskflow_set_waiting_def taskflow_fail_def taskflow_cancel_def)
  have "snd (case mutate_flow (\<lambda>_. no_update\<lparr>up_token_budget := Some n\<rparr>) others now i expected sess t of
      (Closed g, t') \<Rightarrow> (Budget_Set g, t') | (r, t') \<Rightarrow> (Budget_Refused r, t')) = t" for n
    using m [of "\<lambda>_. no_update\<lparr>up_token_budget := Some n\<rparr>" others now expected] by (auto split: prod.split close_result.split)
  then show "snd (taskflow_budget others now i why cap expected sess t) = t"
    using assms by (simp add: taskflow_budget_def Let_def split: option.split)
  show "snd (taskflow_replan penv env now i why blocked keep_done sess t) = t"
    using assms by (simp add: taskflow_replan_def Let_def)
  show "snd (taskflow_update_steps now i v expected sess t) = t"
    using assms by (simp add: taskflow_update_steps_def Let_def split: option.split)
  show "snd (taskflow_run_task te env now (c\<lparr>rn_flow := i\<rparr>) sess t) = t"
    using assms by (simp add: taskflow_run_task_def Let_def)
  show "snd (taskflow_dispatch te env now i ids expected sess t) = t"
    using assms by (simp add: taskflow_dispatch_def Let_def)
  show "snd (taskflow_resume renv env now i call sess t) = t"
    using assms by (simp add: taskflow_resume_def Let_def)
  show "snd (taskflow_finish fenv others now i summary expected sess t) = t"
    using assms by (simp add: taskflow_finish_def Let_def)
qed

theorem terminal_flow_is_closed_witness:
  "snd (taskflow_cancel (\<lambda>t. []) 9 ''f2'' ''why not'' None ''s1'' demo_flows) = demo_flows"
proof -
  have id: "strip ''f2'' = ''f2''" by code_simp
  have f: "get_flow (strip ''f2'') ''s1'' demo_flows = Some (demo_flow ''f2'' ''done'')" unfolding id by code_simp
  have "flow_terminal (fl_status (demo_flow ''f2'' ''done''))" by code_simp
  then show ?thesis using terminal_flow_is_closed [OF f] by blast
qed

text \<open>A flow is failed while its only child, which may be retried once, is running; then the child ends.\<close>

definition demo_failed :: "close_result \<times> flow_table" where
  "demo_failed = taskflow_fail (\<lambda>t. t) 9 ''f1'' ''no luck'' None ''s1'' [demo_child_flow]"

definition demo_waited :: "wait_all_result option \<times> flow_table" where
  "demo_waited = taskflow_wait_all (\<lambda>s _. s) (\<lambda>_. []) (@) (\<lambda>_ _. Some ''c9'') (\<lambda>_ t. t) (\<lambda>_ _. Some True) of_nat 0 2 1
     ''f1'' ''s1'' (snd demo_failed)"

definition child_view :: "flow \<Rightarrow> string \<times> int \<times> (string \<times> string \<times> json) list" where
  "child_view f = (fl_status f, fl_revision f,
     map (\<lambda>s. (step_status s, child_key_of s, jget ''retry_count'' s)) (flow_steps (fl_state f)))"

text \<open>One tool is left out of that. The waiting tool does not look at the status of the flow, and failing a flow,
  unlike cancelling it, leaves its running steps as they are: when the child of a failed flow ends, waiting
  for it starts a replacement and writes it into the terminal flow.\<close>

theorem failed_flow_lives_on:
  "map_option child_view (get_flow ''f1'' ''s1'' (snd demo_failed)) = Some (''failed'', 2, [(''dispatched'', ''c1'', JInt 0)]) \<and>
   map_option child_view (get_flow ''f1'' ''s1'' (snd demo_waited)) = Some (''failed'', 3, [(''dispatched'', ''c9'', JInt 1)])"
  by code_simp

end
