(* ===== verification/TaskFlow_Report.thy ===== *)
theory TaskFlow_Report
  imports TaskFlow_Plan
begin

section \<open>Reading flows back\<close>

text \<open>
  Models the readers of the flow table: the progress frame and the maintenance of
  \<^verbatim>\<open>src/agent/tools/taskflow/progress_push.py\<close>, the board of \<^verbatim>\<open>tools/taskflow_list.py\<close> and the report of
  \<^verbatim>\<open>tools/taskflow_progress.py\<close>. The formatting of a time, whether a socket is open and the printing of values
  that are no texts are parameters.
\<close>

subsection \<open>The progress frame\<close>

definition STATUS_ORDER :: "string list" where
  "STATUS_ORDER = [''done'', ''dispatched'', ''ready'', ''blocked'', ''failed'', ''skipped'', ''cancelled'']"

definition DESCRIPTION_WIDTH :: nat where
  "DESCRIPTION_WIDTH = 200"

definition TASK_WIDTH :: nat where
  "TASK_WIDTH = 200"

record wire_flow =
  wf_id :: string
  wf_status :: string
  wf_description :: string
  wf_total :: nat
  wf_done :: nat
  wf_by_status :: "(string \<times> nat) list"
  wf_steps :: "(string \<times> string \<times> string) list"

definition wire_dicts :: "jdict \<Rightarrow> jdict list" where
  "wire_dicts state = List.map_filter (\<lambda>v. case v of JDict s \<Rightarrow> Some s | _ \<Rightarrow> None) (steps_of state)"

definition wire_status :: "(json \<Rightarrow> string) \<Rightarrow> jdict \<Rightarrow> string" where
  "wire_status shw s = (if truthy (jget ''status'' s) then str_of shw (jget ''status'' s) else ''ready'')"

definition wire_step :: "(json \<Rightarrow> string) \<Rightarrow> jdict \<Rightarrow> string \<times> string \<times> string" where
  "wire_step shw s = (str_or shw (step_id_of s), take TASK_WIDTH (str_or shw (jget ''task'' s)), wire_status shw s)"

definition count_statuses :: "string list \<Rightarrow> (string \<times> nat) list" where
  "count_statuses xs = fold (\<lambda>x c. dict_set x (get_count c x + 1) c) xs (map (\<lambda>x. (x, 0)) STATUS_ORDER)"

definition flow_progress :: "(json \<Rightarrow> string) \<Rightarrow> flow \<Rightarrow> wire_flow" where
  "flow_progress shw f =
    (let steps = wire_dicts (fl_state f); counts = count_statuses (map (wire_status shw) steps)
     in \<lparr>wf_id = fl_id f, wf_status = fl_status f,
         wf_description = take DESCRIPTION_WIDTH (str_or shw (jget ''description'' (fl_state f))),
         wf_total = length steps, wf_done = get_count counts ''done'', wf_by_status = counts,
         wf_steps = map (wire_step shw) steps\<rparr>)"

record progress_frame =
  pf_flows :: "wire_flow list"
  pf_count :: nat
  pf_total :: nat
  pf_done :: nat

definition progress_payload :: "(json \<Rightarrow> string) \<Rightarrow> text_id \<Rightarrow> flow_table \<Rightarrow> progress_frame" where
  "progress_payload shw sess t =
    (let flows = map (flow_progress shw) (get_active_flows_sync sess t)
     in \<lparr>pf_flows = flows, pf_count = length flows, pf_total = sum_list (map wf_total flows), pf_done = sum_list (map wf_done flows)\<rparr>)"

subsection \<open>Maintenance before a push\<close>

definition MAX_TOTAL_FLOWS :: int where
  "MAX_TOTAL_FLOWS = 200"

definition PRUNE_DEBOUNCE :: time where
  "PRUNE_DEBOUNCE = 60"

text \<open>\<open>stamps\<close> is the time of the latest prune of each session.\<close>

definition maybe_prune_terminal_flows ::
    "time \<Rightarrow> text_id \<Rightarrow> (text_id \<times> time) list \<Rightarrow> flow_table \<Rightarrow> (text_id \<times> time) list \<times> flow_table" where
  "maybe_prune_terminal_flows now session stamps t =
    (let sess = strip session
     in if sess = [] \<or> MAX_TOTAL_FLOWS \<le> 0 then (stamps, t)
        else if (case dict_get stamps sess of None \<Rightarrow> False | Some x \<Rightarrow> now - x < PRUNE_DEBOUNCE) then (stamps, t)
        else (dict_set sess now stamps, snd (prune_session_flows MAX_TOTAL_FLOWS sess t)))"

definition push_taskflow_progress ::
    "(json \<Rightarrow> string) \<Rightarrow> (text_id \<Rightarrow> bool) \<Rightarrow> time \<Rightarrow> text_id \<Rightarrow> (text_id \<times> time) list \<Rightarrow> flow_table
     \<Rightarrow> progress_frame option \<times> (text_id \<times> time) list \<times> flow_table" where
  "push_taskflow_progress shw sockets now session stamps t =
    (let sess = strip session
     in if sess = [] then (None, stamps, t)
        else (case maybe_prune_terminal_flows now sess stamps t of (stamps', t') \<Rightarrow>
                (if sockets sess then Some (progress_payload shw sess t') else None, stamps', t')))"

subsection \<open>The board\<close>

definition numeric_ts :: "json \<Rightarrow> rat option" where
  "numeric_ts v = (case v of JInt n \<Rightarrow> Some (of_int n) | JFloat q \<Rightarrow> Some q | JBool b \<Rightarrow> Some (if b then 1 else 0) | _ \<Rightarrow> None)"

definition json_dicts :: "json list \<Rightarrow> jdict list" where
  "json_dicts vs = as_dicts vs"

definition activity_stamps :: "flow \<Rightarrow> rat list" where
  "activity_stamps f =
    List.map_filter id
      ([fl_updated_at f, numeric_ts (jget ''set_at'' (case fl_wait f of None \<Rightarrow> [] | Some w \<Rightarrow> w))] @
       map (\<lambda>s. numeric_ts (jget ''dispatched_at'' s)) (flow_steps (fl_state f)) @
       map (\<lambda>r. numeric_ts (jget ''injected_at'' r)) (json_dicts (flow_results (fl_state f))))"

definition last_activity_ts :: "flow \<Rightarrow> rat option" where
  "last_activity_ts f = (case activity_stamps f of [] \<Rightarrow> None | x # xs \<Rightarrow> Some (fold max xs x))"

definition board_row :: "(json \<Rightarrow> string) \<Rightarrow> (rat \<Rightarrow> string) \<Rightarrow> flow \<Rightarrow> string list" where
  "board_row shw stamp f =
    (let state = fl_state f; steps = flow_steps state
     in [fl_id f, fl_status f, take 40 (str_or shw (jget ''description'' state)),
         show_nat (get_count (steps_summary steps) ''done'') @ ''/'' @ show_nat (length steps),
         take 16 (str_or shw (jget ''creator_session_key'' state)),
         (case last_activity_ts f of None \<Rightarrow> ''-'' | Some x \<Rightarrow> stamp x)])"

definition BOARD_HEADERS :: "string list" where
  "BOARD_HEADERS = [''flow_id'', ''status'', ''description'', ''steps'', ''creator'', ''updated_at'']"

definition ljust :: "nat \<Rightarrow> string \<Rightarrow> string" where
  "ljust n s = s @ replicate (n - length s) (CHR '' '')"

definition widen :: "string list \<Rightarrow> nat list \<Rightarrow> nat list" where
  "widen row widths = map (\<lambda>(c, w). max w (length c)) (zip row widths)"

definition board_line :: "nat list \<Rightarrow> string list \<Rightarrow> string" where
  "board_line widths row = join '' | '' (map (\<lambda>(c, w). ljust w c) (zip row widths))"

definition render_table :: "string list list \<Rightarrow> string" where
  "render_table rows =
    (let widths = fold widen rows (map length BOARD_HEADERS)
     in join [LINE_FEED]
          ([board_line widths BOARD_HEADERS, join ''-+-'' (map (\<lambda>w. replicate w (CHR ''-'')) widths)] @ map (board_line widths) rows))"

definition taskflow_list :: "(json \<Rightarrow> string) \<Rightarrow> (rat \<Rightarrow> string) \<Rightarrow> string \<Rightarrow> text_id \<Rightarrow> flow_table \<Rightarrow> string" where
  "taskflow_list shw stamp status_filter sess t =
    (let normalized = lower (strip (if status_filter = [] then ''active'' else status_filter)); flows = get_all_flows_sync sess normalized t
     in if flows = [] then ''No task flows found''
        else ''TaskFlow board ('' @ normalized @ ''): '' @ show_nat (length flows) @ '' flow(s)'' @ [LINE_FEED] @
             render_table (map (board_row shw stamp) flows))"

subsection \<open>The report\<close>

definition DECISION_STATUSES :: "string list" where
  "DECISION_STATUSES = [''failed'', ''blocked'', ''skipped'', ''cancelled'']"

record progress_report =
  pr_status :: string
  pr_done :: nat
  pr_total :: nat
  pr_percent :: int
  pr_breakdown :: "(string \<times> nat) list"
  pr_next :: "(string \<times> json \<times> string) list"
  pr_decisions :: "(json \<times> string \<times> string) list"
  pr_seconds_left :: "(rat \<times> nat) option"
  pr_waiting :: "json option"
  pr_results :: nat

datatype progress_result =
  Progress_Needs_Flow
| Progress_No_Flow text_id
| Progress_No_Steps string
| Progress progress_report

definition decision_reason :: "(json \<Rightarrow> string) \<Rightarrow> jdict \<Rightarrow> string" where
  "decision_reason shw s =
    (case find truthy (map (\<lambda>k. jget k s) [''fail_reason'', ''block_reason'', ''skip_reason'', ''cancel_reason'']) of
       None \<Rightarrow> ''no reason recorded'' | Some v \<Rightarrow> str_of shw v)"

text \<open>The percentage is exact where the code rounds a float. The average distance between the dispatch times of the completed steps, times the steps left.\<close>

definition seconds_left :: "jdict list \<Rightarrow> nat \<Rightarrow> (rat \<times> nat) option" where
  "seconds_left steps remaining =
    (let stamps = sort (List.map_filter (\<lambda>s. if step_status s = ''done'' \<and> truthy (jget ''dispatched_at'' s)
                                             then numeric_ts (jget ''dispatched_at'' s) else None) steps);
         gaps = map (\<lambda>(x, y). y - x) (zip stamps (tl stamps))
     in if length stamps < 2 \<or> remaining = 0 then None
        else Some (sum_list gaps / of_nat (length gaps) * of_nat remaining, length stamps))"

definition progress_of :: "(json \<Rightarrow> string) \<Rightarrow> flow \<Rightarrow> progress_report" where
  "progress_of shw f =
    (let steps = flow_steps (fl_state f); counts = steps_summary steps; total = length steps; finished = get_count counts ''done'';
         actionable = filter (\<lambda>s. step_status s \<noteq> ''done'' \<and> step_status s \<notin> set DECISION_STATUSES) steps;
         decisions = filter (\<lambda>s. step_status s \<in> set DECISION_STATUSES) steps
     in \<lparr>pr_status = fl_status f, pr_done = finished, pr_total = total, pr_percent = int finished * 100 div int total,
         pr_breakdown = map (\<lambda>x. (x, get_count counts x)) STATUS_ORDER,
         pr_next = map (\<lambda>s. (step_status s, step_id_of s, take 60 (str_or shw (jget ''task'' s)))) (take 3 actionable),
         pr_decisions = map (\<lambda>s. (step_id_of s, step_status s, decision_reason shw s)) (take 5 decisions),
         pr_seconds_left = seconds_left steps (total - finished),
         pr_waiting = (case fl_wait f of None \<Rightarrow> None | Some w \<Rightarrow> if w = [] then None else Some (jget ''reason'' w)),
         pr_results = length (flow_results (fl_state f))\<rparr>)"

definition taskflow_progress :: "(json \<Rightarrow> string) \<Rightarrow> string \<Rightarrow> text_id \<Rightarrow> flow_table \<Rightarrow> progress_result" where
  "taskflow_progress shw flow_id sess t =
    (let i = strip flow_id
     in if i = [] then Progress_Needs_Flow
        else case get_flow i sess t of
          None \<Rightarrow> Progress_No_Flow i
        | Some f \<Rightarrow> if flow_steps (fl_state f) = [] then Progress_No_Steps (fl_status f) else Progress (progress_of shw f))"

subsection \<open>What the readers show\<close>

text \<open>A prune removes closed and superseded rows only.\<close>

lemma prune_keeps_open: "r \<in> set t \<Longrightarrow> open_row sess r \<Longrightarrow> table_ok t \<Longrightarrow> r \<in> set (snd (prune_session_flows keep sess' t))"
proof -
  assume r: "r \<in> set t" "open_row sess r" "table_ok t"
  have "fl_id r \<notin> fl_id ` set (take n (sort_key last_touch (filter (prunable sess') t)))" for n
  proof
    assume "fl_id r \<in> fl_id ` set (take n (sort_key last_touch (filter (prunable sess') t)))"
    then obtain q where q: "q \<in> set (take n (sort_key last_touch (filter (prunable sess') t)))" "fl_id q = fl_id r" by auto
    then have "q \<in> set (filter (prunable sess') t)" by (metis in_set_takeD set_sort)
    then have "q \<in> set t" "prunable sess' q" by auto
    then have "prunable sess' r" using q(2) r(1,3) keyed_inj [of fl_id t] unfolding table_ok_def by metis
    then show False using r(2) by (auto simp: prunable_def open_row_def flow_terminal_def TERMINAL_STATUSES_def)
  qed
  then show ?thesis using r(1) by (simp add: prune_session_flows_def Let_def)
qed

text \<open>The counts of a frame are those of its steps.\<close>

lemma count_statuses_get: "get_count (count_statuses xs) x = length (filter (\<lambda>y. y = x) xs)"
proof -
  have "get_count (fold (\<lambda>x c. dict_set x (get_count c x + 1) c) xs c) x = get_count c x + length (filter (\<lambda>y. y = x) xs)" for c
    by (induction xs arbitrary: c) auto
  moreover have "get_count (map (\<lambda>x. (x, 0)) STATUS_ORDER) x = 0"
    by (auto simp: get_count_def STATUS_ORDER_def)
  ultimately show ?thesis by (simp add: count_statuses_def)
qed

lemma frame_counts:
  "get_count (wf_by_status (flow_progress shw f)) x = length (filter (\<lambda>w. snd (snd w) = x) (wf_steps (flow_progress shw f)))"
  "wf_done (flow_progress shw f) \<le> wf_total (flow_progress shw f)"
proof -
  have "filter (\<lambda>y. y = x) (map (wire_status shw) ss) = map (snd \<circ> snd) (filter (\<lambda>w. snd (snd w) = x) (map (wire_step shw) ss))" for ss x
    by (induction ss) (simp_all add: wire_step_def)
  then show "get_count (wf_by_status (flow_progress shw f)) x = length (filter (\<lambda>w. snd (snd w) = x) (wf_steps (flow_progress shw f)))"
    by (simp add: flow_progress_def Let_def count_statuses_get)
  show "wf_done (flow_progress shw f) \<le> wf_total (flow_progress shw f)"
    using length_filter_le [of "\<lambda>y. y = ''done''" "map (wire_status shw) (wire_dicts (fl_state f))"]
    by (simp add: flow_progress_def Let_def count_statuses_get)
qed

text \<open>The progress frame of a session shows its open flows and nothing else, and its numbers are those of the steps
  it carries: per flow the count of every status, in sum the totals, never more done than there are. The
  maintenance that runs before a frame is sent removes no open flow of any session.\<close>

theorem progress_frame_exact:
  assumes "table_ok t"
  shows "set (map wf_id (pf_flows (progress_payload shw sess t))) = fl_id ` {r \<in> set t. open_row sess r} \<and>
    pf_count (progress_payload shw sess t) = open_flows sess t \<and>
    (\<forall>w \<in> set (pf_flows (progress_payload shw sess t)). wf_total w = length (wf_steps w) \<and>
       (\<forall>x. get_count (wf_by_status w) x = length (filter (\<lambda>s. snd (snd s) = x) (wf_steps w)))) \<and>
    pf_done (progress_payload shw sess t) \<le> pf_total (progress_payload shw sess t) \<and>
    {r \<in> set (snd (maybe_prune_terminal_flows now session stamps t)). open_row s r} = {r \<in> set t. open_row s r}"
proof -
  let ?flows = "get_active_flows_sync sess t"
  have ids: "set (map wf_id (map (flow_progress shw) ?flows)) = fl_id ` {r \<in> set t. open_row sess r}"
    by (auto simp: get_active_flows_sync_def open_row_def flow_progress_def Let_def image_iff)
  have le: "sum_list (map (wf_done \<circ> flow_progress shw) fs) \<le> sum_list (map (wf_total \<circ> flow_progress shw) fs)" for fs
    by (induction fs) (simp_all add: add_mono frame_counts(2))
  have "wf_total (flow_progress shw f) = length (wf_steps (flow_progress shw f))" for f
    by (simp add: flow_progress_def Let_def)
  moreover have "set (snd (prune_session_flows keep sess' t)) \<subseteq> set t" for keep sess'
    by (auto simp: prune_session_flows_def Let_def)
  then have "{r \<in> set (snd (prune_session_flows keep sess' t)). open_row s r} = {r \<in> set t. open_row s r}" for keep sess'
    using prune_keeps_open [OF _ _ assms] by blast
  then have "{r \<in> set (snd (maybe_prune_terminal_flows now session stamps t)). open_row s r} = {r \<in> set t. open_row s r}"
    by (simp add: maybe_prune_terminal_flows_def Let_def split: option.split)
  ultimately show ?thesis
    using ids le [of ?flows] frame_counts(1) by (simp add: progress_payload_def Let_def open_flows_def comp_def)
qed

end
