(* ===== verification/Todo_Store.thy ===== *)
theory Todo_Store
  imports Py_Text
begin

section \<open>The todo table\<close>

text \<open>
  Models \<^verbatim>\<open>src/agent/tools/todolist/registry/store_sqlite.py\<close> and the vocabularies of
  \<^verbatim>\<open>src/agent/tools/todolist/config.py\<close>. The table is the list of its rows. Two keys are unique: session and
  position (the display order), session and todo id (the identity that local changes name). An operation is
  one transaction; where a key would be taken twice SQLite raises and nothing is written. The values a caller
  puts into a row are texts or absent. The statements that move rows apart run row by row in the order of the
  positions, which is how SQLite walks the key.
\<close>

subsection \<open>Rows\<close>

definition TODO_CATEGORIES :: "string list" where
  "TODO_CATEGORIES = [''quick'', ''deep'', ''ultrabrain'', ''visual'', ''git'', ''writing'']"

definition TODO_DELEGATIONS :: "string list" where
  "TODO_DELEGATIONS = [''self'', ''subagent'']"

definition TODO_STATUS :: string where
  "TODO_STATUS = ''pending''"

definition TODO_PRIORITY :: string where
  "TODO_PRIORITY = ''medium''"

definition TODO_CATEGORY :: string where
  "TODO_CATEGORY = ''quick''"

definition TODO_DELEGATION :: string where
  "TODO_DELEGATION = ''self''"

definition POSITION_SHIFT_OFFSET :: int where
  "POSITION_SHIFT_OFFSET = 1000000"

text \<open>What a caller gives; an absent content is the empty text.\<close>

record todo_item =
  ti_content :: string
  ti_status :: "string option"
  ti_priority :: "string option"
  ti_position :: "int option"
  ti_category :: "string option"
  ti_delegation :: "string option"
  ti_subagent :: "string option"
  ti_flow :: "string option"
  ti_step :: "string option"
  ti_plan :: "string option"

record todo =
  td_session :: text_id
  td_content :: string
  td_status :: string
  td_priority :: string
  td_position :: int
  td_category :: string
  td_delegation :: string
  td_subagent :: "string option"
  td_flow :: "string option"
  td_step :: "string option"
  td_plan :: "string option"
  td_created :: time
  td_id :: int

type_synonym todo_table = "todo list"

datatype todo_error =
  Todo_Needs_Session
| Todo_Needs_Content
| Todo_Position_Taken
| Todo_Position_Too_Large

text \<open>\<^verbatim>\<open>value or DEFAULT\<close>\<close>

definition or_default :: "string option \<Rightarrow> string \<Rightarrow> string" where
  "or_default v d = (case v of None \<Rightarrow> d | Some x \<Rightarrow> if x = [] then d else x)"

definition todo_row :: "time \<Rightarrow> text_id \<Rightarrow> int \<Rightarrow> int \<Rightarrow> todo_item \<Rightarrow> todo" where
  "todo_row now sess index i x =
    \<lparr>td_session = sess, td_content = ti_content x, td_status = or_default (ti_status x) TODO_STATUS,
     td_priority = or_default (ti_priority x) TODO_PRIORITY,
     td_position = (case ti_position x of Some p \<Rightarrow> p | None \<Rightarrow> index),
     td_category = or_default (ti_category x) TODO_CATEGORY,
     td_delegation = or_default (ti_delegation x) TODO_DELEGATION,
     td_subagent = ti_subagent x, td_flow = ti_flow x, td_step = ti_step x, td_plan = ti_plan x,
     td_created = now, td_id = i\<rparr>"

text \<open>The rows of a list of items, with the ids from \<open>start\<close> on.\<close>

fun rows_from :: "time \<Rightarrow> text_id \<Rightarrow> int \<Rightarrow> int \<Rightarrow> todo_item list \<Rightarrow> todo list" where
  "rows_from now sess index start [] = []"
| "rows_from now sess index start (x # xs) =
    todo_row now sess index start x # rows_from now sess (index + 1) (start + 1) xs"

definition of_session :: "text_id \<Rightarrow> todo \<Rightarrow> bool" where
  "of_session sess r = (td_session r = sess)"

text \<open>\<^verbatim>\<open>COALESCE(MAX(column), default)\<close> over the rows of a session.\<close>

definition max_of :: "(todo \<Rightarrow> int) \<Rightarrow> int \<Rightarrow> text_id \<Rightarrow> todo_table \<Rightarrow> int" where
  "max_of col d sess t = (case map col (filter (of_session sess) t) of [] \<Rightarrow> d | x # xs \<Rightarrow> fold max xs x)"

definition next_todo_id :: "text_id \<Rightarrow> todo_table \<Rightarrow> int" where
  "next_todo_id sess t = max_of td_id 0 sess t + 1"

subsection \<open>The operations\<close>

definition get_todos :: "text_id \<Rightarrow> todo_table \<Rightarrow> todo list" where
  "get_todos sess t = sort_key td_position (filter (of_session sess) t)"

definition replace_todos :: "time \<Rightarrow> text_id \<Rightarrow> todo_item list \<Rightarrow> todo_table \<Rightarrow> todo_error option \<times> todo_table" where
  "replace_todos now session items t =
    (let sess = strip session; rows = rows_from now sess 0 (next_todo_id sess t) items
     in if sess = [] then (Some Todo_Needs_Session, t)
        else if list_ex (\<lambda>x. ti_content x = []) items then (Some Todo_Needs_Content, t)
        else if \<not> distinct (map td_position rows) then (Some Todo_Position_Taken, t)
        else (None, filter (\<lambda>r. \<not> of_session sess r) t @ rows))"

definition delete_todos_by_session :: "text_id \<Rightarrow> todo_table \<Rightarrow> (todo_error + nat) \<times> todo_table" where
  "delete_todos_by_session session t =
    (let sess = strip session
     in if sess = [] then (Inl Todo_Needs_Session, t)
        else (Inr (count_where (of_session sess) t), filter (\<lambda>r. \<not> of_session sess r) t))"

definition todo_open :: "todo \<Rightarrow> bool" where
  "todo_open r = (td_status r \<noteq> ''completed'' \<and> td_status r \<noteq> ''cancelled'')"

definition get_active_flow_ids :: "text_id \<Rightarrow> todo_table \<Rightarrow> text_id list" where
  "get_active_flow_ids sess t =
    remdups (List.map_filter (\<lambda>r. case td_flow r of None \<Rightarrow> None | Some i \<Rightarrow> if i = [] then None else Some i)
      (filter (\<lambda>r. of_session sess r \<and> todo_open r) t))"

definition get_todo_by_id :: "text_id \<Rightarrow> int \<Rightarrow> todo_table \<Rightarrow> todo option" where
  "get_todo_by_id sess i t = first_where (\<lambda>r. of_session sess r \<and> td_id r = i) t"

text \<open>Every row from \<open>target\<close> on moves up by one, over a gap that keeps the keys apart.\<close>

definition shift_up :: "text_id \<Rightarrow> int \<Rightarrow> todo_table \<Rightarrow> todo_table" where
  "shift_up sess target t =
    (let t1 = update_where (\<lambda>r. of_session sess r \<and> target \<le> td_position r)
                (\<lambda>r. r\<lparr>td_position := td_position r + POSITION_SHIFT_OFFSET\<rparr>) t
     in update_where (\<lambda>r. of_session sess r \<and> POSITION_SHIFT_OFFSET + target \<le> td_position r)
          (\<lambda>r. r\<lparr>td_position := td_position r - POSITION_SHIFT_OFFSET + 1\<rparr>) t1)"

definition shift_collides :: "text_id \<Rightarrow> int \<Rightarrow> todo_table \<Rightarrow> bool" where
  "shift_collides sess target t =
    list_ex (\<lambda>r. of_session sess r \<and> target \<le> td_position r \<and>
       list_ex (\<lambda>q. of_session sess q \<and> td_position q = td_position r + POSITION_SHIFT_OFFSET) t) t"

definition insert_todo :: "time \<Rightarrow> text_id \<Rightarrow> int \<Rightarrow> todo_item \<Rightarrow> todo_table \<Rightarrow> todo_table" where
  "insert_todo now sess target x t = t @ [todo_row now sess target (next_todo_id sess t) (x\<lparr>ti_position := Some target\<rparr>)]"

definition add_todo_row ::
    "time \<Rightarrow> text_id \<Rightarrow> todo_item \<Rightarrow> int option \<Rightarrow> todo_table \<Rightarrow> (todo_error + todo option) \<times> todo_table" where
  "add_todo_row now session x after t =
    (let sess = strip session; top = max_of td_position (-1) sess t
     in if sess = [] then (Inl Todo_Needs_Session, t)
        else if ti_content x = [] then (Inl Todo_Needs_Content, t)
        else if POSITION_SHIFT_OFFSET \<le> top then (Inl Todo_Position_Too_Large, t)
        else case after of
          None \<Rightarrow> (Inr (get_todo_by_id sess (next_todo_id sess t) (insert_todo now sess (top + 1) x t)),
                    insert_todo now sess (top + 1) x t)
        | Some a \<Rightarrow>
            (case get_todo_by_id sess a t of
               None \<Rightarrow> (Inr None, t)
             | Some r \<Rightarrow>
                 if shift_collides sess (td_position r + 1) t then (Inl Todo_Position_Taken, t)
                 else
                   (let t1 = insert_todo now sess (td_position r + 1) x (shift_up sess (td_position r + 1) t)
                    in (Inr (get_todo_by_id sess (next_todo_id sess t) t1), t1))))"

record todo_patch =
  tp_content :: "string option"
  tp_status :: "string option"
  tp_priority :: "string option"
  tp_category :: "string option"

definition or_same :: "'a option \<Rightarrow> 'a \<Rightarrow> 'a" where
  "or_same v x = (case v of None \<Rightarrow> x | Some y \<Rightarrow> y)"

definition patched :: "todo_patch \<Rightarrow> todo \<Rightarrow> todo" where
  "patched p r =
    r\<lparr>td_content := or_same (tp_content p) (td_content r), td_status := or_same (tp_status p) (td_status r),
      td_priority := or_same (tp_priority p) (td_priority r), td_category := or_same (tp_category p) (td_category r)\<rparr>"

text \<open>An update that names no field writes nothing and reads the row back, which is what the update below does as well.\<close>

definition change_todo :: "text_id \<Rightarrow> int \<Rightarrow> (todo \<Rightarrow> todo) \<Rightarrow> todo_table \<Rightarrow> todo option \<times> todo_table" where
  "change_todo sess i f t =
    (let t1 = update_where (\<lambda>r. of_session sess r \<and> td_id r = i) f t
     in if count_where (\<lambda>r. of_session sess r \<and> td_id r = i) t = 0 then (None, t1)
        else (get_todo_by_id sess i t1, t1))"

definition patch_todo_by_id :: "text_id \<Rightarrow> int \<Rightarrow> todo_patch \<Rightarrow> todo_table \<Rightarrow> todo option \<times> todo_table" where
  "patch_todo_by_id sess i p = change_todo sess i (patched p)"

definition set_todo_flow_id_by_id :: "text_id \<Rightarrow> int \<Rightarrow> text_id \<Rightarrow> todo_table \<Rightarrow> todo option \<times> todo_table" where
  "set_todo_flow_id_by_id sess i flow = change_todo sess i (\<lambda>r. r\<lparr>td_flow := Some flow\<rparr>)"

definition remove_todo_by_id :: "text_id \<Rightarrow> int \<Rightarrow> todo_table \<Rightarrow> todo option \<times> todo_table" where
  "remove_todo_by_id sess i t =
    (case get_todo_by_id sess i t of
       None \<Rightarrow> (None, t)
     | Some r \<Rightarrow> (Some r, filter (\<lambda>q. \<not> (of_session sess q \<and> td_id q = i)) t))"

text \<open>The open todos of some flows, settled at once.\<close>

definition refers_to :: "text_id list \<Rightarrow> todo \<Rightarrow> bool" where
  "refers_to ids r = (case td_flow r of None \<Rightarrow> False | Some i \<Rightarrow> i \<in> set (filter (\<lambda>j. j \<noteq> []) ids))"

definition settle_todos :: "string \<Rightarrow> text_id \<Rightarrow> text_id list \<Rightarrow> todo_table \<Rightarrow> nat \<times> todo_table" where
  "settle_todos x sess ids t =
    (count_where (\<lambda>r. of_session sess r \<and> todo_open r \<and> refers_to ids r) t,
     update_where (\<lambda>r. of_session sess r \<and> todo_open r \<and> refers_to ids r) (\<lambda>r. r\<lparr>td_status := x\<rparr>) t)"

definition cancel_todos_for_flows :: "text_id \<Rightarrow> text_id list \<Rightarrow> todo_table \<Rightarrow> nat \<times> todo_table" where
  "cancel_todos_for_flows = settle_todos ''cancelled''"

definition complete_todos_for_flows :: "text_id \<Rightarrow> text_id list \<Rightarrow> todo_table \<Rightarrow> nat \<times> todo_table" where
  "complete_todos_for_flows = settle_todos ''completed''"

definition get_todos_by_flow :: "text_id \<Rightarrow> text_id \<Rightarrow> todo_table \<Rightarrow> todo list" where
  "get_todos_by_flow sess i t = sort_key td_position (filter (\<lambda>r. of_session sess r \<and> td_flow r = Some i) t)"

subsection \<open>The keys stay unique\<close>

definition todo_ok :: "todo_table \<Rightarrow> bool" where
  "todo_ok t = (keyed (\<lambda>r. (td_session r, td_position r)) t \<and> keyed (\<lambda>r. (td_session r, td_id r)) t)"

lemma todo_okI:
  "keyed (\<lambda>r. (td_session r, td_position r)) t \<Longrightarrow> keyed (\<lambda>r. (td_session r, td_id r)) t \<Longrightarrow> todo_ok t"
  by (simp add: todo_ok_def)

lemma todo_ok_Nil [simp]: "todo_ok []"
  by (simp add: todo_ok_def)

lemma todo_ok_filter: "todo_ok t \<Longrightarrow> todo_ok (filter P t)"
  by (simp add: todo_ok_def keyed_filter)

lemma todo_ok_update:
  "todo_ok t \<Longrightarrow> (\<And>r. td_session (f r) = td_session r \<and> td_position (f r) = td_position r \<and> td_id (f r) = td_id r) \<Longrightarrow>
   todo_ok (update_where P f t)"
  by (simp add: todo_ok_def keyed_update_where)

lemma fold_max_ge: "(x::int) \<in> set xs \<or> x \<le> m \<Longrightarrow> x \<le> fold max xs m"
proof (induction xs arbitrary: m)
  case (Cons y xs)
  show ?case using Cons.IH [of "max y m"] Cons.prems by (simp add: le_max_iff_disj) blast
qed simp

lemma max_of_ge:
  assumes "r \<in> set t" and "td_session r = sess"
  shows "col r \<le> max_of col d sess t"
proof -
  have "col r \<in> set (map col (filter (of_session sess) t))" using assms by (auto simp: of_session_def)
  then show ?thesis
  proof (cases "map col (filter (of_session sess) t)")
    case (Cons x xs)
    then have "col r \<in> set xs \<or> col r \<le> x" using \<open>col r \<in> _\<close> by auto
    then show ?thesis unfolding max_of_def Cons by (simp add: fold_max_ge)
  qed simp
qed

lemma next_todo_id_fresh: "r \<in> set t \<Longrightarrow> td_session r = sess \<Longrightarrow> td_id r < next_todo_id sess t"
  using max_of_ge [of r t sess td_id 0] by (simp add: next_todo_id_def)

lemma rows_from_fields:
  "r \<in> set (rows_from now sess index start xs) \<Longrightarrow> td_session r = sess \<and> start \<le> td_id r \<and> td_id r < start + int (length xs)"
  by (induction xs arbitrary: index start) (force simp: todo_row_def)+

lemma rows_from_ids: "map td_id (rows_from now sess index start xs) = map (\<lambda>k. start + int k) [0..<length xs]"
proof (induction xs arbitrary: index start)
  case (Cons x xs)
  have "map (\<lambda>k. start + int k) [0..<length (x # xs)] = start # map (\<lambda>k. start + 1 + int k) [0..<length xs]"
    by (rule nth_equalityI) (auto simp: nth_Cons simp del: upt_Suc split: nat.split)
  then show ?case by (simp only: rows_from.simps list.map Cons.IH) (simp add: todo_row_def)
qed simp

lemma length_rows_from [simp]: "length (rows_from now sess index start xs) = length xs"
  by (induction xs arbitrary: index start) auto

lemma keyed_rows:
  assumes "distinct (map col rows)" and "\<And>r. r \<in> set rows \<Longrightarrow> td_session r = sess"
  shows "keyed (\<lambda>r. (td_session r, col r)) rows"
  using assms by (auto simp: keyed_def distinct_map inj_on_def)

lemma keyed_join:
  assumes "keyed k xs" and "keyed k ys" and "\<And>x y. x \<in> set xs \<Longrightarrow> y \<in> set ys \<Longrightarrow> k x \<noteq> k y"
  shows "keyed k (xs @ ys)"
proof -
  have "k ` set xs \<inter> k ` set ys = {}" using assms(3) by blast
  then show ?thesis using assms(1,2) by (simp add: keyed_def)
qed

lemma replace_todos_ok:
  assumes "todo_ok t"
  shows "todo_ok (snd (replace_todos now session items t))"
proof -
  let ?s = "strip session"
  let ?rows = "rows_from now ?s 0 (next_todo_id ?s t) items" and ?rest = "filter (\<lambda>r. \<not> of_session ?s r) t"
  have "todo_ok (?rest @ ?rows)" if d: "distinct (map td_position ?rows)"
  proof (rule todo_okI)
    have rest: "todo_ok ?rest" by (rule todo_ok_filter [OF assms])
    have "distinct (map td_id ?rows)" by (simp add: rows_from_ids distinct_map inj_on_def)
    then show "keyed (\<lambda>r. (td_session r, td_id r)) (?rest @ ?rows)"
      using rest keyed_rows [of td_id ?rows ?s]
      by (intro keyed_join) (auto simp: todo_ok_def of_session_def dest: rows_from_fields)
    show "keyed (\<lambda>r. (td_session r, td_position r)) (?rest @ ?rows)"
      using rest keyed_rows [OF d, of ?s]
      by (intro keyed_join) (auto simp: todo_ok_def of_session_def dest: rows_from_fields)
  qed
  then show ?thesis using assms by (simp add: replace_todos_def Let_def)
qed

text \<open>The two statements together move every row from \<open>target\<close> on up by one.\<close>

definition moved_up :: "text_id \<Rightarrow> int \<Rightarrow> todo \<Rightarrow> todo" where
  "moved_up sess target r =
    (if of_session sess r \<and> target \<le> td_position r then r\<lparr>td_position := td_position r + 1\<rparr> else r)"

lemma shift_up_eq: "shift_up sess target t = map (moved_up sess target) t"
  by (induction t) (auto simp: shift_up_def moved_up_def Let_def of_session_def POSITION_SHIFT_OFFSET_def)

lemma moved_up_frame [simp]:
  "td_session (moved_up sess target r) = td_session r" "td_id (moved_up sess target r) = td_id r"
  by (simp_all add: moved_up_def)

lemma moved_up_session: "{q \<in> moved_up sess p ` T. td_session q = s} = moved_up sess p ` {q \<in> T. td_session q = s}"
  by (rule set_eqI, simp add: image_iff) (metis moved_up_frame(1))

lemma moved_up_position:
  "td_position (moved_up sess target r) = (if of_session sess r \<and> target \<le> td_position r then td_position r + 1 else td_position r)"
  by (simp add: moved_up_def)

lemma moved_up_ok:
  assumes "todo_ok t"
  shows "todo_ok (map (moved_up sess target) t)"
proof (rule todo_okI)
  show "keyed (\<lambda>r. (td_session r, td_id r)) (map (moved_up sess target) t)"
    using assms by (simp add: todo_ok_def keyed_def comp_def)
  have "inj_on (\<lambda>r. (td_session r, td_position (moved_up sess target r))) (set t)" (is "inj_on ?k _")
  proof (rule inj_onI)
    fix q r assume qr: "q \<in> set t" "r \<in> set t" and "?k q = ?k r"
    then have "td_session q = td_session r" "td_position q = td_position r"
      by (auto simp: moved_up_position of_session_def split: if_splits)
    then show "q = r" using assms qr keyed_inj [of "\<lambda>r. (td_session r, td_position r)" t q r] by (simp add: todo_ok_def)
  qed
  moreover have "distinct t" using assms by (auto simp: todo_ok_def keyed_def distinct_map)
  ultimately show "keyed (\<lambda>r. (td_session r, td_position r)) (map (moved_up sess target) t)"
    by (simp add: keyed_def distinct_map comp_def inj_on_def)
qed

lemma insert_todo_ok:
  assumes "todo_ok t" and "\<And>r. r \<in> set t \<Longrightarrow> td_session r = sess \<Longrightarrow> td_position r \<noteq> target"
  shows "todo_ok (insert_todo now sess target x t)"
  using assms next_todo_id_fresh [of _ t sess]
  by (fastforce simp: todo_ok_def insert_todo_def keyed_snoc todo_row_def image_iff)

lemma next_id_moved [simp]: "next_todo_id sess (map (moved_up s target) t) = next_todo_id sess t"
proof -
  have "map td_id (filter (of_session sess) (map (moved_up s target) t)) = map td_id (filter (of_session sess) t)"
    by (induction t) (auto simp: of_session_def)
  then show ?thesis by (simp add: next_todo_id_def max_of_def)
qed

lemma moved_up_free: "r \<in> set (map (moved_up sess target) t) \<Longrightarrow> td_session r = sess \<Longrightarrow> td_position r \<noteq> target"
  by (simp add: image_iff, elim bexE) (simp add: moved_up_position of_session_def)

lemma add_todo_ok:
  assumes "todo_ok t"
  shows "todo_ok (snd (add_todo_row now session x after t))"
proof -
  let ?s = "strip session"
  have tail: "todo_ok (insert_todo now ?s (max_of td_position (-1) ?s t + 1) x t)"
    using max_of_ge [of _ t ?s td_position "-1"] by (intro insert_todo_ok [OF assms]) force
  have "todo_ok (insert_todo now ?s target x (shift_up ?s target t))" for target
    unfolding shift_up_eq
    by (intro insert_todo_ok moved_up_ok [OF assms] moved_up_free)
  then show ?thesis using assms tail by (simp add: add_todo_row_def Let_def split: option.split)
qed

text \<open>What any sequence of calls does to the table.\<close>

inductive todo_step :: "todo_table \<Rightarrow> todo_table \<Rightarrow> bool" where
  step_replace: "todo_step t (snd (replace_todos now sess items t))"
| step_delete: "todo_step t (snd (delete_todos_by_session sess t))"
| step_add: "todo_step t (snd (add_todo_row now sess x after t))"
| step_patch: "todo_step t (snd (patch_todo_by_id sess i p t))"
| step_bind: "todo_step t (snd (set_todo_flow_id_by_id sess i flow t))"
| step_remove: "todo_step t (snd (remove_todo_by_id sess i t))"
| step_cancel: "todo_step t (snd (cancel_todos_for_flows sess ids t))"
| step_complete: "todo_step t (snd (complete_todos_for_flows sess ids t))"

lemma change_todo_table: "snd (change_todo sess i f t) = update_where (\<lambda>r. of_session sess r \<and> td_id r = i) f t"
  by (simp add: change_todo_def Let_def)

lemma patched_frame [simp]:
  "td_session (patched p r) = td_session r" "td_position (patched p r) = td_position r" "td_id (patched p r) = td_id r"
  "td_flow (patched p r) = td_flow r" "td_step (patched p r) = td_step r" "td_subagent (patched p r) = td_subagent r"
  by (simp_all add: patched_def)

lemma remove_todo_table:
  "snd (remove_todo_by_id sess i t) = filter (\<lambda>q. \<not> (of_session sess q \<and> td_id q = i)) t"
proof (cases "get_todo_by_id sess i t")
  case None
  then have "\<forall>q \<in> set t. \<not> (of_session sess q \<and> td_id q = i)" by (auto simp: get_todo_by_id_def first_where_def find_None_iff)
  then show ?thesis using None by (simp add: remove_todo_by_id_def)
qed (simp add: remove_todo_by_id_def)

lemma todo_step_ok: "todo_ok t \<Longrightarrow> todo_step t t' \<Longrightarrow> todo_ok t'"
  by (erule todo_step.cases)
    (auto simp: replace_todos_ok add_todo_ok delete_todos_by_session_def Let_def patch_todo_by_id_def set_todo_flow_id_by_id_def
      change_todo_table remove_todo_table cancel_todos_for_flows_def complete_todos_for_flows_def settle_todos_def
      intro: todo_ok_filter todo_ok_update)

interpretation todos: inv_system "\<lambda>t. t = []" todo_step todo_ok
  by unfold_locales (auto intro: todo_step_ok)

subsection \<open>The list a session sees\<close>

lemma todo_ok_keys:
  assumes "todo_ok t"
  shows "inj_on td_position (set (filter (of_session sess) t))" "inj_on td_id (set (filter (of_session sess) t))"
    "distinct (filter (of_session sess) t)"
proof -
  show "inj_on td_position (set (filter (of_session sess) t))" "inj_on td_id (set (filter (of_session sess) t))"
    using assms keyed_inj [of "\<lambda>r. (td_session r, td_position r)" t] keyed_inj [of "\<lambda>r. (td_session r, td_id r)" t]
    by (auto simp: todo_ok_def inj_on_def of_session_def)
  show "distinct (filter (of_session sess) t)" using assms by (auto simp: todo_ok_def keyed_def distinct_map)
qed

lemma distinct_of_map: "distinct (map f xs) \<Longrightarrow> distinct xs"
  by (simp add: distinct_map)

text \<open>A list sorted by keys that tell its elements apart is the sorted list of its elements.\<close>

lemma sort_key_known:
  assumes "inj_on key (set xs)" and "distinct xs" and "distinct ys" and "set ys = set xs" and "sorted (map key ys)"
  shows "sort_key key xs = ys"
proof (rule map_sorted_distinct_set_unique [of key])
  show "distinct (map key (sort_key key xs))" "distinct (map key ys)" using assms by (simp_all add: distinct_map)
qed (use assms in simp_all)

lemma get_todos_known:
  assumes "todo_ok t" and "distinct ys" and "set ys = {r \<in> set t. td_session r = sess}" and "sorted (map td_position ys)"
  shows "get_todos sess t = ys"
  unfolding get_todos_def using todo_ok_keys [OF assms(1), of sess] assms(2-4)
  by (intro sort_key_known) (auto simp: of_session_def)

lemma get_todos_set: "set (get_todos sess t) = {r \<in> set t. td_session r = sess}"
  by (auto simp: get_todos_def of_session_def)

lemma get_todos_sorted: "sorted (map td_position (get_todos sess t))"
  by (simp add: get_todos_def)

lemma get_todos_distinct: "todo_ok t \<Longrightarrow> distinct (map td_position (get_todos sess t))"
  using todo_ok_keys [of t sess] by (simp add: get_todos_def distinct_map)

lemma get_todo_by_id_iff:
  assumes "todo_ok t"
  shows "get_todo_by_id sess i t = Some r \<longleftrightarrow> r \<in> set t \<and> td_session r = sess \<and> td_id r = i"
proof
  assume "get_todo_by_id sess i t = Some r"
  then show "r \<in> set t \<and> td_session r = sess \<and> td_id r = i"
    by (auto simp: get_todo_by_id_def first_where_def find_Some_iff of_session_def)
next
  assume r: "r \<in> set t \<and> td_session r = sess \<and> td_id r = i"
  then obtain q where q: "get_todo_by_id sess i t = Some q"
    by (cases "get_todo_by_id sess i t") (auto simp: get_todo_by_id_def first_where_def find_None_iff of_session_def)
  then have "q \<in> set t" "td_session q = sess" "td_id q = i"
    by (auto simp: get_todo_by_id_def first_where_def find_Some_iff of_session_def)
  then have "q = r" using assms r keyed_inj [of "\<lambda>r. (td_session r, td_id r)" t q r] by (simp add: todo_ok_def)
  then show "get_todo_by_id sess i t = Some r" using q by simp
qed

text \<open>A row without its place in the list.\<close>

definition unplaced :: "todo \<Rightarrow> todo" where
  "unplaced r = r\<lparr>td_position := 0\<rparr>"

lemma unplaced_moved [simp]: "unplaced (moved_up sess target r) = unplaced r"
  by (simp add: unplaced_def moved_up_def)

lemma todo_row_frame [simp]:
  "td_session (todo_row now sess p i x) = sess" "td_id (todo_row now sess p i x) = i" "td_content (todo_row now sess p i x) = ti_content x"
  "td_position (todo_row now sess p i (x\<lparr>ti_position := Some q\<rparr>)) = q"
  by (simp_all add: todo_row_def)

lemma insert_todo_set:
  "set (insert_todo now sess p x t) = insert (todo_row now sess p (next_todo_id sess t) (x\<lparr>ti_position := Some p\<rparr>)) (set t)"
  by (simp add: insert_todo_def)

text \<open>The row behind an anchor.\<close>

lemma insert_behind:
  assumes ok: "todo_ok t" and split: "get_todos sess t = xs @ a # ys" and p: "p = td_position a + 1"
    and r: "r = todo_row now sess p (next_todo_id sess t) (x\<lparr>ti_position := Some p\<rparr>)"
    and t': "t' = insert_todo now sess p x (shift_up sess p t)"
  shows "get_todos sess t' = xs @ a # r # map (moved_up sess p) ys"
proof (rule get_todos_known)
  let ?m = "moved_up sess p"
  have rows: "set (xs @ a # ys) = {q \<in> set t. td_session q = sess}" using get_todos_set [of sess t] split by simp
  have below: "td_position q < td_position a" if "q \<in> set xs" for q
    using get_todos_sorted [of sess t] get_todos_distinct [OF ok, of sess] that split
    by (force simp: sorted_append image_iff le_less)
  have above: "td_position a < td_position q" if "q \<in> set ys" for q
    using get_todos_sorted [of sess t] get_todos_distinct [OF ok, of sess] that split
    by (force simp: sorted_append image_iff le_less)
  have sess: "td_session q = sess" if "q \<in> set (xs @ a # ys)" for q using rows that by auto
  have xs: "map ?m xs = xs" "?m a = a"
    using below by (auto simp: moved_up_def p intro!: map_idI dest!: below)
  have up: "td_position (?m q) = td_position q + 1" if "q \<in> set ys" for q
    using above [OF that] sess [of q] that by (simp add: moved_up_position of_session_def p)
  show "todo_ok t'"
    unfolding t' shift_up_eq by (intro insert_todo_ok moved_up_ok [OF ok] moved_up_free)
  have "?m ` {q \<in> set t. td_session q = sess} = set xs \<union> {a} \<union> ?m ` set ys"
    unfolding rows [symmetric] using xs by (auto simp: image_Un simp flip: set_map)
  moreover have st: "set t' = insert r (?m ` set t)" and sr: "td_session r = sess"
    by (simp_all only: t' insert_todo_set shift_up_eq set_map next_id_moved r todo_row_frame)
  have "{q \<in> set t'. td_session q = sess} = insert r {q \<in> ?m ` set t. td_session q = sess}"
    unfolding st using sr by blast
  then have "{q \<in> set t'. td_session q = sess} = insert r (?m ` {q \<in> set t. td_session q = sess})"
    unfolding moved_up_session .
  ultimately show "set (xs @ a # r # map ?m ys) = {q \<in> set t'. td_session q = sess}" by auto
  have posr: "td_position r = td_position a + 1" by (simp add: r p)
  have "sorted (map td_position (xs @ a # ys))" using get_todos_sorted [of sess t] split by simp
  then have so: "sorted (map td_position xs)" "sorted (map td_position ys)" by (simp_all add: sorted_append)
  have "map td_position (map ?m ys) = map (\<lambda>q. q + 1) (map td_position ys)" using up by simp
  moreover have "sorted (map (\<lambda>q. q + 1) zs) = sorted zs" for zs :: "int list"
    by (simp add: sorted_map sorted_wrt_map)
  ultimately have "sorted (map td_position (map ?m ys))" using so(2) by (simp only:)
  then show sorted: "sorted (map td_position (xs @ a # r # map ?m ys))"
    using so(1) below above up by (auto simp: sorted_append posr dest!: below above)
  have "distinct (map td_position ys)" "distinct (map td_position xs)"
    using get_todos_distinct [OF ok, of sess] split by simp_all
  then have "distinct (map td_position (xs @ a # r # map ?m ys))"
    using below above up by (fastforce simp: posr distinct_map inj_on_def)
  then show "distinct (xs @ a # r # map ?m ys)" by (rule distinct_of_map)
qed

lemma insert_last:
  assumes "todo_ok t" and "p = max_of td_position d sess t + 1"
  shows "get_todos sess (insert_todo now sess p x t) =
    get_todos sess t @ [todo_row now sess p (next_todo_id sess t) (x\<lparr>ti_position := Some p\<rparr>)]"
proof (rule get_todos_known)
  have below: "td_position q < p" if "q \<in> set t" "td_session q = sess" for q
    using max_of_ge [OF that, of td_position d] assms(2) by simp
  then have below': "td_position q < p" if "q \<in> set (get_todos sess t)" for q using that by (simp add: get_todos_set)
  show "todo_ok (insert_todo now sess p x t)"
    using below by (intro insert_todo_ok assms(1)) force
  have "distinct (get_todos sess t)" using get_todos_distinct [OF assms(1), of sess] by (simp add: distinct_map)
  then show "distinct (get_todos sess t @ [todo_row now sess p (next_todo_id sess t) (x\<lparr>ti_position := Some p\<rparr>)])"
    using below' by (force dest: below')
  show "sorted (map td_position (get_todos sess t @ [todo_row now sess p (next_todo_id sess t) (x\<lparr>ti_position := Some p\<rparr>)]))"
    using get_todos_sorted [of sess t] below' by (auto simp: sorted_append less_imp_le)
qed (auto simp: insert_todo_set get_todos_set)

lemma get_todos_other:
  assumes "todo_ok t" and "todo_ok t'" and "{r \<in> set t'. td_session r = s} = {r \<in> set t. td_session r = s}"
  shows "get_todos s t' = get_todos s t"
  using get_todos_distinct [OF assms(1), of s]
  by (intro get_todos_known [OF assms(2)]) (auto simp: get_todos_set assms(3) get_todos_sorted distinct_map)

lemma inserted_other:
  "s \<noteq> sess \<Longrightarrow> {r \<in> set (insert_todo now sess p x (shift_up sess q t)). td_session r = s} = {r \<in> set t. td_session r = s}"
  "s \<noteq> sess \<Longrightarrow> {r \<in> set (insert_todo now sess p x t). td_session r = s} = {r \<in> set t. td_session r = s}"
  by (force simp: insert_todo_set shift_up_eq moved_up_def of_session_def image_iff)+

lemma changed_at:
  assumes ok: "todo_ok t" and split: "get_todos sess t = xs @ a # ys"
    and f: "\<And>r. td_session (f r) = td_session r \<and> td_position (f r) = td_position r \<and> td_id (f r) = td_id r"
  shows "get_todos sess (snd (change_todo sess (td_id a) f t)) = xs @ f a # ys"
    "get_todos sess (snd (remove_todo_by_id sess (td_id a) t)) = xs @ ys"
proof -
  have rows: "set (xs @ a # ys) = {q \<in> set t. td_session q = sess}" using get_todos_set [of sess t] split by simp
  then have a: "a \<in> set t" "td_session a = sess" by auto
  have d: "distinct (map td_position (xs @ a # ys))" using get_todos_distinct [OF ok, of sess] split by simp
  have only: "q = a" if "q \<in> set t" "td_session q = sess" "td_id q = td_id a" for q
    using that a ok keyed_inj [of "\<lambda>r. (td_session r, td_id r)" t q a] by (simp add: todo_ok_def)
  have other: "td_id q \<noteq> td_id a" if "q \<in> set xs \<union> set ys" for q
  proof
    assume "td_id q = td_id a"
    moreover have "q \<in> set t" "td_session q = sess" using rows that by auto
    ultimately have "q = a" using only by blast
    then show False using d that by auto
  qed
  let ?u = "\<lambda>r. if of_session sess r \<and> td_id r = td_id a then f r else r"
  have u: "map ?u (xs @ a # ys) = xs @ f a # ys" using other a by (auto simp: of_session_def intro!: map_idI)
  have pos: "map td_position (map ?u zs) = map td_position zs" for zs using f by simp
  show "get_todos sess (snd (change_todo sess (td_id a) f t)) = xs @ f a # ys"
  proof (rule get_todos_known)
    show "todo_ok (snd (change_todo sess (td_id a) f t))" using f by (simp add: change_todo_table todo_ok_update ok)
    show "sorted (map td_position (xs @ f a # ys))"
      unfolding u [symmetric] pos using get_todos_sorted [of sess t] split by simp
    have "distinct (map td_position (map ?u (xs @ a # ys)))" unfolding pos by (rule d)
    then show "distinct (xs @ f a # ys)" unfolding u by (rule distinct_of_map)
    have "set (xs @ f a # ys) = ?u ` {q \<in> set t. td_session q = sess}" unfolding u [symmetric] set_map rows ..
    also have "\<dots> = {q \<in> set (snd (change_todo sess (td_id a) f t)). td_session q = sess}"
      using f by (auto simp: change_todo_table set_update_where)
    finally show "set (xs @ f a # ys) = {q \<in> set (snd (change_todo sess (td_id a) f t)). td_session q = sess}" .
  qed
  show "get_todos sess (snd (remove_todo_by_id sess (td_id a) t)) = xs @ ys"
  proof (rule get_todos_known)
    show "todo_ok (snd (remove_todo_by_id sess (td_id a) t))" by (simp add: remove_todo_table todo_ok_filter ok)
    show "sorted (map td_position (xs @ ys))"
      using get_todos_sorted [of sess t] split by (simp add: sorted_append)
    show "distinct (xs @ ys)" using d by (auto simp: distinct_map)
    show "set (xs @ ys) = {q \<in> set (snd (remove_todo_by_id sess (td_id a) t)). td_session q = sess}"
    proof
      show "set (xs @ ys) \<subseteq> {q \<in> set (snd (remove_todo_by_id sess (td_id a) t)). td_session q = sess}"
        using rows other by (auto simp: remove_todo_table)
      show "{q \<in> set (snd (remove_todo_by_id sess (td_id a) t)). td_session q = sess} \<subseteq> set (xs @ ys)"
        using rows by (auto simp: remove_todo_table of_session_def)
    qed
  qed
qed

lemma add_todo_result:
  assumes "todo_ok t" and "add_todo_row now session x after t = (Inr (Some r), t')" and "sess = strip session"
  obtains (tail) p where "after = None" "p = max_of td_position (-1) sess t + 1" "t' = insert_todo now sess p x t"
      "r = todo_row now sess p (next_todo_id sess t) (x\<lparr>ti_position := Some p\<rparr>)"
  | (behind) a p where "after = Some (td_id a)" "a \<in> set t" "td_session a = sess" "p = td_position a + 1"
      "t' = insert_todo now sess p x (shift_up sess p t)" "r = todo_row now sess p (next_todo_id sess t) (x\<lparr>ti_position := Some p\<rparr>)"
proof -
  let ?new = "\<lambda>p. todo_row now sess p (next_todo_id sess t) (x\<lparr>ti_position := Some p\<rparr>)"
  have ok: "todo_ok t'" using add_todo_ok [OF assms(1), of now session x after] assms(2) by simp
  show ?thesis
  proof (cases "after")
    case None
    then have t': "t' = insert_todo now sess (max_of td_position (-1) sess t + 1) x t"
      and r: "get_todo_by_id sess (next_todo_id sess t) t' = Some r"
      using assms(2,3) by (auto simp: add_todo_row_def Let_def split: if_splits)
    have "?new (max_of td_position (-1) sess t + 1) \<in> set t'" by (simp add: t' insert_todo_set)
    then have "get_todo_by_id sess (next_todo_id sess t) t' = Some (?new (max_of td_position (-1) sess t + 1))"
      by (simp add: get_todo_by_id_iff [OF ok])
    then show ?thesis using tail None t' r by simp
  next
    case (Some i)
    then obtain a where a: "get_todo_by_id sess i t = Some a"
      and t': "t' = insert_todo now sess (td_position a + 1) x (shift_up sess (td_position a + 1) t)"
      and r: "get_todo_by_id sess (next_todo_id sess t) t' = Some r"
      using assms(2,3) by (auto simp: add_todo_row_def Let_def split: if_splits option.splits)
    have "?new (td_position a + 1) \<in> set t'" by (simp add: t' insert_todo_set shift_up_eq)
    then have "get_todo_by_id sess (next_todo_id sess t) t' = Some (?new (td_position a + 1))"
      by (simp add: get_todo_by_id_iff [OF ok])
    then show ?thesis using behind [of a "td_position a + 1"] a Some t' r by (simp add: get_todo_by_id_iff [OF assms(1)])
  qed
qed

text \<open>C36: The local actions are local. In a list that reads \<open>xs\<close>, \<open>a\<close>, \<open>ys\<close>, adding behind \<open>a\<close> puts the new row
  right behind it and changes no other row but for its place, adding at the end appends, a patch changes
  \<open>a\<close> alone and none of its links, a removal takes \<open>a\<close> out; a row added behind \<open>a\<close> has a larger
  id than every row of the session, and an addition leaves the lists of other sessions as they were.\<close>

theorem local_actions_are_local:
  assumes ok: "todo_ok t" and split: "get_todos sess t = xs @ a # ys" and sess: "sess = strip session"
  shows "(\<forall>now x r t'. add_todo_row now session x (Some (td_id a)) t = (Inr (Some r), t') \<longrightarrow>
      map unplaced (get_todos sess t') = map unplaced (xs @ [a, r] @ ys) \<and> td_content r = ti_content x \<and>
      (\<forall>q \<in> set (get_todos sess t). td_id q < td_id r) \<and> (\<forall>s. s \<noteq> sess \<longrightarrow> get_todos s t' = get_todos s t)) \<and>
    (\<forall>now x r t'. add_todo_row now session x None t = (Inr (Some r), t') \<longrightarrow>
      get_todos sess t' = xs @ [a] @ ys @ [r] \<and> (\<forall>s. s \<noteq> sess \<longrightarrow> get_todos s t' = get_todos s t)) \<and>
    get_todos sess (snd (patch_todo_by_id sess (td_id a) p t)) = xs @ [patched p a] @ ys \<and>
    get_todos sess (snd (remove_todo_by_id sess (td_id a) t)) = xs @ ys"
proof (intro conjI allI impI)
  have a: "a \<in> set t" "td_session a = sess" using get_todos_set [of sess t] split by auto
  fix now x r t'
  assume add: "add_todo_row now session x (Some (td_id a)) t = (Inr (Some r), t')"
  have ok': "todo_ok t'" using add_todo_ok [OF ok, of now session x "Some (td_id a)"] add by simp
  from add_todo_result [OF ok add sess] obtain b where b: "td_id a = td_id b" "b \<in> set t" "td_session b = sess"
    and t': "t' = insert_todo now sess (td_position b + 1) x (shift_up sess (td_position b + 1) t)"
    and r: "r = todo_row now sess (td_position b + 1) (next_todo_id sess t) (x\<lparr>ti_position := Some (td_position b + 1)\<rparr>)"
    by auto
  have ba: "b = a" using b a ok keyed_inj [of "\<lambda>r. (td_session r, td_id r)" t b a] by (simp add: todo_ok_def)
  show "map unplaced (get_todos sess t') = map unplaced (xs @ [a, r] @ ys)"
    unfolding insert_behind [OF ok split refl r [unfolded ba] t' [unfolded ba]] by simp
  show "td_content r = ti_content x" by (simp add: r)
  show "\<forall>q \<in> set (get_todos sess t). td_id q < td_id r" by (simp add: r get_todos_set next_todo_id_fresh)
  fix s
  show "s \<noteq> sess \<Longrightarrow> get_todos s t' = get_todos s t"
    unfolding t' by (rule get_todos_other [OF ok ok' [unfolded t'] inserted_other(1)])
next
  fix now x r t'
  assume add: "add_todo_row now session x None t = (Inr (Some r), t')"
  have ok': "todo_ok t'" using add_todo_ok [OF ok, of now session x None] add by simp
  from add_todo_result [OF ok add sess] obtain p where p: "p = max_of td_position (-1) sess t + 1"
    and t': "t' = insert_todo now sess p x t" and r: "r = todo_row now sess p (next_todo_id sess t) (x\<lparr>ti_position := Some p\<rparr>)"
    by auto
  show "get_todos sess t' = xs @ [a] @ ys @ [r]" unfolding t' r insert_last [OF ok p] split by simp
  fix s
  show "s \<noteq> sess \<Longrightarrow> get_todos s t' = get_todos s t"
    unfolding t' by (rule get_todos_other [OF ok ok' [unfolded t'] inserted_other(2)])
next
  show "get_todos sess (snd (patch_todo_by_id sess (td_id a) p t)) = xs @ [patched p a] @ ys"
    unfolding patch_todo_by_id_def by (subst changed_at(1) [OF ok split]) simp_all
  show "get_todos sess (snd (remove_todo_by_id sess (td_id a) t)) = xs @ ys"
    by (rule changed_at(2) [OF ok split, where f = "\<lambda>r. r"]) simp
qed

definition demo_item :: "string \<Rightarrow> todo_item" where
  "demo_item x = \<lparr>ti_content = x, ti_status = None, ti_priority = None, ti_position = None, ti_category = None,
     ti_delegation = None, ti_subagent = None, ti_flow = None, ti_step = None, ti_plan = None\<rparr>"

definition demo_todos :: todo_table where
  "demo_todos = snd (replace_todos 5 ''s1'' [demo_item ''a'', demo_item ''b''] [])"

definition is_added :: "(todo_error + todo option) \<Rightarrow> bool" where
  "is_added r = (case r of Inr (Some _) \<Rightarrow> True | _ \<Rightarrow> False)"

lemma is_added_shape: "is_added (fst p) \<Longrightarrow> \<exists>r t'. p = (Inr (Some r), t')"
  by (cases p) (auto simp: is_added_def split: sum.splits option.splits)

lemma demo_todos_ok: "todo_ok demo_todos"
  unfolding demo_todos_def by (rule replace_todos_ok) simp

theorem local_actions_are_local_witness:
  "\<exists>r t'. add_todo_row 6 '' s1'' (demo_item ''c'') (Some 1) demo_todos = (Inr (Some r), t') \<and>
     map td_content (get_todos ''s1'' t') = [''a'', ''c'', ''b'']"
proof -
  have "is_added (fst (add_todo_row 6 '' s1'' (demo_item ''c'') (Some 1) demo_todos))" by code_simp
  then obtain r t' where res: "add_todo_row 6 '' s1'' (demo_item ''c'') (Some 1) demo_todos = (Inr (Some r), t')"
    using is_added_shape by blast
  obtain a b where split: "get_todos ''s1'' demo_todos = [] @ a # [b]" and ab: "td_id a = 1" "td_content a = ''a''" "td_content b = ''b''"
  proof -
    have "map td_id (get_todos ''s1'' demo_todos) = [1, 2]" "map td_content (get_todos ''s1'' demo_todos) = [''a'', ''b'']"
      by code_simp+
    then show ?thesis using that by (auto simp: map_eq_Cons_conv)
  qed
  have sess: "''s1'' = strip '' s1''" by code_simp
  from local_actions_are_local [OF demo_todos_ok split sess] res ab(1)
  have "map unplaced (get_todos ''s1'' t') = map unplaced ([] @ [a, r] @ [b])" "td_content r = ti_content (demo_item ''c'')"
    by simp_all
  then have "map (td_content \<circ> unplaced) (get_todos ''s1'' t') = map (td_content \<circ> unplaced) [a, r, b]"
    by (simp flip: map_map)
  then have "map td_content (get_todos ''s1'' t') = [''a'', ''c'', ''b'']"
    using ab \<open>td_content r = _\<close> by (simp add: comp_def unplaced_def demo_item_def)
  with res show ?thesis by (intro exI conjI)
qed

text \<open>C38: Whatever sequence of calls is made on the table, it keeps both keys: in every session the positions are
  distinct and so are the ids, so an id names at most one todo.\<close>

theorem todo_keys_unique:
  assumes "todo_step\<^sup>*\<^sup>* [] t"
  shows "todo_ok t \<and> distinct (map td_position (get_todos sess t)) \<and> distinct (map td_id (get_todos sess t))"
proof -
  have ok: "todo_ok t" by (rule todos.reachable_inv [OF refl assms])
  have "distinct (map td_id (filter (of_session sess) t))" using todo_ok_keys [OF ok, of sess] by (simp add: distinct_map)
  moreover have "mset (map td_id (get_todos sess t)) = mset (map td_id (filter (of_session sess) t))" by (simp add: get_todos_def)
  ultimately show ?thesis using ok get_todos_distinct [OF ok] mset_eq_imp_distinct_iff by blast
qed

theorem todo_keys_unique_witness: "distinct (map td_id (get_todos ''s1'' demo_todos)) \<and> get_todos ''s1'' demo_todos \<noteq> []"
proof -
  have "todo_step\<^sup>*\<^sup>* [] demo_todos" unfolding demo_todos_def by (rule r_into_rtranclp) (rule todo_step.step_replace)
  then have "distinct (map td_id (get_todos ''s1'' demo_todos))"
    by (rule todo_keys_unique [THEN conjunct2, THEN conjunct2])
  moreover have "get_todos ''s1'' demo_todos \<noteq> []" by code_simp
  ultimately show ?thesis ..
qed

text \<open>An id comes back: after the list was emptied the numbering starts again, and after the last row was
  removed its number is given to the next one.\<close>

lemma todo_ids_come_back:
  "map (\<lambda>r. (td_id r, td_content r)) (get_todos ''s1'' demo_todos) = [(1, ''a''), (2, ''b'')]"
  "map (\<lambda>r. (td_id r, td_content r)) (get_todos ''s1''
     (snd (replace_todos 7 ''s1'' [demo_item ''c''] (snd (replace_todos 6 ''s1'' [] demo_todos))))) = [(1, ''c'')]"
  "map (\<lambda>r. (td_id r, td_content r)) (get_todos ''s1''
     (snd (add_todo_row 7 ''s1'' (demo_item ''c'') None (snd (remove_todo_by_id ''s1'' 2 demo_todos))))) = [(1, ''a''), (2, ''c'')]"
  by code_simp+

end
