(* ===== verification/TaskFlow_Sweep.thy ===== *)
theory TaskFlow_Sweep
  imports TaskFlow_Store Todo_Store
begin

section \<open>Collecting task flows\<close>

text \<open>
  Models the passes of \<^verbatim>\<open>src/agent/tools/subagent/registry/sweeper.py\<close> over task flows: the deadline pass, the
  mark-and-sweep pass whose roots are the open todos, the liveness pass with its zombie todos, and the marking
  of stale waits. \<open>live\<close> says whether a child session has a run that has not ended, \<open>present\<close> whether a session has a
  socket, a turn or a run, \<open>stamp\<close> formats a time. A pass runs over what it reads of the two tables; the write
  of every flow is the compare-and-swap of the store, so a flow that another writer moves meanwhile is
  skipped by its conflict.
\<close>

subsection \<open>What keeps a flow alive\<close>

definition UNREFERENCED_FLOW_GRACE :: time where
  "UNREFERENCED_FLOW_GRACE = 300"

definition STALE_ACTION_HOURS :: rat where
  "STALE_ACTION_HOURS = 12"

definition WAITING_TIMEOUT_HOURS :: rat where
  "WAITING_TIMEOUT_HOURS = 24"

definition dict_child_keys :: "jdict \<Rightarrow> string list" where
  "dict_child_keys state = List.map_filter (\<lambda>v. case v of JDict s \<Rightarrow> Some (child_key_of s) | _ \<Rightarrow> None) (steps_of state)"

definition child_session_keys :: "flow \<Rightarrow> string list" where
  "child_session_keys f =
    (let row_key = strip (case fl_child f of None \<Rightarrow> [] | Some k \<Rightarrow> k)
     in fold append_key (dict_child_keys (fl_state f)) (if row_key = [] then [] else [row_key]))"

definition has_live_child :: "(string \<Rightarrow> bool) \<Rightarrow> flow \<Rightarrow> bool" where
  "has_live_child live f = list_ex live (child_session_keys f)"

definition is_child_session :: "text_id \<Rightarrow> bool" where
  "is_child_session s = (starts_with ''agent:'' s \<and> (has_sub '':subagent:'' s \<or> has_sub '':swarm:'' s))"

text \<open>The loop of both passes: what is decided is failed, and its reason counted when the write was accepted.\<close>

fun gc_each :: "(flow \<Rightarrow> string option) \<Rightarrow> time \<Rightarrow> flow list \<Rightarrow> flow_table \<Rightarrow> string list \<times> flow_table" where
  "gc_each decide now [] t = ([], t)"
| "gc_each decide now (f # fs) t =
    (case decide f of
       None \<Rightarrow> gc_each decide now fs t
     | Some why \<Rightarrow>
         (case finalize_gc_flow now why f t of (ok, t1) \<Rightarrow>
            (case gc_each decide now fs t1 of (whys, t2) \<Rightarrow> ((if ok then why # whys else whys), t2))))"

subsection \<open>The mark-and-sweep pass\<close>

definition unreferenced :: "(string \<Rightarrow> bool) \<Rightarrow> time \<Rightarrow> text_id list \<Rightarrow> flow \<Rightarrow> string option" where
  "unreferenced live cutoff roots f =
    (if fl_id f \<in> set roots then None
     else if (case fl_updated_at f of None \<Rightarrow> False | Some u \<Rightarrow> cutoff \<le> u) then None
     else if has_live_child live f then None
     else Some ''orphan_unreferenced'')"

fun sweep_sessions ::
    "(string \<Rightarrow> bool) \<Rightarrow> time \<Rightarrow> time \<Rightarrow> todo_table \<Rightarrow> text_id list \<Rightarrow> flow_table \<Rightarrow> nat \<times> nat \<times> flow_table" where
  "sweep_sessions live now cutoff todos [] t = (0, 0, t)"
| "sweep_sessions live now cutoff todos (s # ss) t =
    (let roots = get_active_flow_ids s todos
     in case gc_each (unreferenced live cutoff roots) now (get_non_terminal_flows (Some s) t) t of (whys, t1) \<Rightarrow>
          (case sweep_sessions live now cutoff todos ss t1 of (roots_total, swept, t2) \<Rightarrow>
             (length roots + roots_total, length whys + swept, t2)))"

definition swept_sessions :: "text_id list option \<Rightarrow> flow_table \<Rightarrow> text_id list" where
  "swept_sessions session_ids t =
    (case session_ids of
       None \<Rightarrow> get_non_terminal_session_ids t
     | Some ids \<Rightarrow> sort (remdups (filter (\<lambda>s. strip s \<noteq> []) ids)))"

definition unreferenced_flow_sweep ::
    "(string \<Rightarrow> bool) \<Rightarrow> time \<Rightarrow> time option \<Rightarrow> text_id list option \<Rightarrow> todo_table \<Rightarrow> flow_table \<Rightarrow> (nat \<times> nat \<times> nat) \<times> flow_table" where
  "unreferenced_flow_sweep live now grace session_ids todos t =
    (let cutoff = now - (case grace of None \<Rightarrow> UNREFERENCED_FLOW_GRACE | Some g \<Rightarrow> g); sessions = swept_sessions session_ids t
     in case sweep_sessions live now cutoff todos sessions t of (roots, swept, t') \<Rightarrow> ((length sessions, roots, swept), t'))"

subsection \<open>The liveness pass\<close>

definition stale_reason :: "(string \<Rightarrow> bool) \<Rightarrow> (text_id \<Rightarrow> bool) \<Rightarrow> time \<Rightarrow> rat \<Rightarrow> flow \<Rightarrow> string option" where
  "stale_reason live present now hours f =
    (let s = fl_session f; age = now - (case fl_updated_at f of None \<Rightarrow> 0 | Some u \<Rightarrow> u)
     in if s = [] \<or> has_live_child live f then None
        else if is_child_session s then (if present s \<or> age < UNREFERENCED_FLOW_GRACE then None else Some ''session_dead'')
        else if age < hours * 3600 then None
        else Some (if present s then ''stale_swept'' else ''session_dead''))"

definition liveness_sessions :: "flow_table \<Rightarrow> text_id list" where
  "liveness_sessions t =
    filter (\<lambda>s. s \<noteq> []) (remdups (map fl_session (get_non_terminal_flows None t) @ get_failed_flow_session_ids t))"

text \<open>The zombie todos of the sessions, the order of which does not matter.\<close>

fun cancel_zombies :: "flow_table \<Rightarrow> text_id list \<Rightarrow> todo_table \<Rightarrow> nat \<times> todo_table" where
  "cancel_zombies t [] todos = (0, todos)"
| "cancel_zombies t (s # ss) todos =
    (let roots = get_active_flow_ids s todos;
         referenced = sort (remdups (filter (\<lambda>i. i \<in> set roots) (get_zombie_flow_ids s t)))
     in case (if referenced = [] then (0, todos) else cancel_todos_for_flows s referenced todos) of (n, todos1) \<Rightarrow>
          (case cancel_zombies t ss todos1 of (m, todos2) \<Rightarrow> (n + m, todos2)))"

record liveness_counts =
  lv_dead :: nat
  lv_stale :: nat
  lv_todos :: nat

definition liveness_sweep ::
    "(string \<Rightarrow> bool) \<Rightarrow> (text_id \<Rightarrow> bool) \<Rightarrow> time \<Rightarrow> rat option \<Rightarrow> todo_table \<times> flow_table \<Rightarrow> liveness_counts \<times> todo_table \<times> flow_table" where
  "liveness_sweep live present now hours w =
    (case w of (todos, t) \<Rightarrow>
       (case gc_each (stale_reason live present now (case hours of None \<Rightarrow> STALE_ACTION_HOURS | Some h \<Rightarrow> h)) now
               (get_non_terminal_flows None t) t of (whys, t1) \<Rightarrow>
          (case cancel_zombies t1 (liveness_sessions t) todos of (n, todos1) \<Rightarrow>
             (\<lparr>lv_dead = count_where (\<lambda>x. x = ''session_dead'') whys, lv_stale = count_where (\<lambda>x. x \<noteq> ''session_dead'') whys, lv_todos = n\<rparr>,
              todos1, t1))))"

subsection \<open>Deadlines and stale waits\<close>

definition overdue_update :: "(time \<Rightarrow> string) \<Rightarrow> flow \<Rightarrow> flow_update" where
  "overdue_update stamp f =
    no_update\<lparr>up_state := Some (dict_set ''failure_reason''
                (JStr (''Deadline exceeded: '' @ (case fl_deadline f of None \<Rightarrow> [] | Some d \<Rightarrow> stamp d))) (fl_state f)),
      up_wait := Some None, up_status := Some ''failed'', up_terminal_reason := Some (Some ''deadline_exceeded'')\<rparr>"

fun expire_each :: "(time \<Rightarrow> string) \<Rightarrow> time \<Rightarrow> flow list \<Rightarrow> flow_table \<Rightarrow> nat \<times> flow_table" where
  "expire_each stamp now [] t = (0, t)"
| "expire_each stamp now (f # fs) t =
    (case update_flow now (fl_id f) (fl_revision f) (fl_session f) (overdue_update stamp f) t of (res, t1) \<Rightarrow>
       (case expire_each stamp now fs t1 of (n, t2) \<Rightarrow> ((case res of Inl _ \<Rightarrow> n | Inr _ \<Rightarrow> n + 1), t2)))"

definition expire_overdue_taskflows :: "(time \<Rightarrow> string) \<Rightarrow> time \<Rightarrow> flow_table \<Rightarrow> nat \<times> flow_table" where
  "expire_overdue_taskflows stamp now t = expire_each stamp now (get_overdue_flows now t) t"

text \<open>A wait whose time is no number makes the pass give up with what it has written so far; infinity has not come
  yet, \<^verbatim>\<open>nan\<close> and minus infinity are not within the time.\<close>

definition wait_fresh :: "time \<Rightarrow> rat + bool \<Rightarrow> bool" where
  "wait_fresh now v = (case v of Inl since \<Rightarrow> now - since \<le> WAITING_TIMEOUT_HOURS * 3600 | Inr infinity \<Rightarrow> infinity)"

definition wait_stamp :: "flow \<Rightarrow> json" where
  "wait_stamp f = (case fl_wait f of None \<Rightarrow> JNull | Some w \<Rightarrow> jget ''set_at'' w)"

definition stale_mark :: "time \<Rightarrow> flow \<Rightarrow> flow_update" where
  "stale_mark now f =
    no_update\<lparr>up_wait := Some (Some (dict_set ''stale_child_session_key'' (case fl_child f of None \<Rightarrow> JNull | Some k \<Rightarrow> JStr k)
      (dict_set ''stale_detected_at'' (JFloat now) (case fl_wait f of None \<Rightarrow> [] | Some w \<Rightarrow> w)))), up_touch := False\<rparr>"

fun mark_stale_each :: "(string \<Rightarrow> bool) \<Rightarrow> time \<Rightarrow> flow list \<Rightarrow> flow_table \<Rightarrow> nat option \<times> flow_table" where
  "mark_stale_each live now [] t = (Some 0, t)"
| "mark_stale_each live now (f # fs) t =
    (if \<not> truthy (wait_stamp f) then mark_stale_each live now fs t
     else case py_float (wait_stamp f) of
       None \<Rightarrow> (None, t)
     | Some v \<Rightarrow>
         if wait_fresh now v then mark_stale_each live now fs t
         else if (case fl_child f of None \<Rightarrow> False | Some k \<Rightarrow> k \<noteq> [] \<and> live k) then mark_stale_each live now fs t
         else
           (case mark_stale_each live now fs
                   (snd (update_flow now (fl_id f) (fl_revision f) (fl_session f) (stale_mark now f) t)) of
              (n, t') \<Rightarrow> (map_option Suc n, t')))"

definition scan_stale_waiting_taskflows :: "(string \<Rightarrow> bool) \<Rightarrow> time \<Rightarrow> flow_table \<Rightarrow> nat \<times> flow_table" where
  "scan_stale_waiting_taskflows live now t =
    (case mark_stale_each live now (get_waiting_flows t) t of (n, t') \<Rightarrow> ((case n of None \<Rightarrow> 0 | Some k \<Rightarrow> k), t'))"

subsection \<open>What a pass collects\<close>

definition gc_update :: "string \<Rightarrow> flow \<Rightarrow> flow_update" where
  "gc_update why f =
    no_update\<lparr>up_state := Some (gc_state why (fl_state f)), up_wait := Some None, up_status := Some ''failed'',
      up_terminal_reason := Some (Some why)\<rparr>"

text \<open>A collected row.\<close>

definition gc_row :: "time \<Rightarrow> string \<Rightarrow> flow \<Rightarrow> flow" where
  "gc_row now why r = apply_update now (fl_revision r + 1) (gc_update why r) r"

definition gc_decided :: "(flow \<Rightarrow> string option) \<Rightarrow> time \<Rightarrow> flow \<Rightarrow> flow" where
  "gc_decided decide now r = (case decide r of None \<Rightarrow> r | Some why \<Rightarrow> gc_row now why r)"

lemma gc_row_frame [simp]:
  "fl_id (gc_row now why r) = fl_id r" "fl_session (gc_row now why r) = fl_session r"
  "fl_status (gc_row now why r) = ''failed''" "fl_revision (gc_row now why r) = fl_revision r + 1"
  by (simp_all add: gc_row_def gc_update_def apply_update_def or_keep_def)

lemma gc_decided_frame [simp]:
  "fl_id (gc_decided decide now r) = fl_id r" "fl_session (gc_decided decide now r) = fl_session r"
  by (simp_all add: gc_decided_def split: option.split)

lemma finalize_row:
  assumes "table_ok t" and "r \<in> set t" and "fl_id r \<noteq> []" and "fl_session r \<noteq> []"
  shows "finalize_gc_flow now why (row_to_flow r) t = (True, map (\<lambda>q. if fl_id q = fl_id r then gc_row now why q else q) t)"
proof -
  have u: "no_update\<lparr>up_state := Some (gc_state why (fl_state r)), up_wait := Some None, up_status := Some ''failed'',
      up_terminal_reason := Some (Some why)\<rparr> = gc_update why r" by (simp add: gc_update_def)
  have "assigns (gc_update why r)" by (simp add: assigns_def gc_update_def)
  note w = update_flow_wins [OF assms(1) this assms(2) refl refl refl, of now]
  have same: "q = r" if "q \<in> set t" "fl_id q = fl_id r" for q
    using that assms(1,2) keyed_inj [of fl_id t q r] by (simp add: table_ok_def)
  have "update_where (at_revision (fl_id r) (fl_revision r) (fl_session r)) (apply_update now (fl_revision r + 1) (gc_update why r)) t
      = map (\<lambda>q. if fl_id q = fl_id r then gc_row now why q else q) t"
    unfolding update_where_def using same by (intro map_cong) (auto simp: at_revision_def gc_row_def)
  then show ?thesis using w assms(3,4) by (simp add: finalize_gc_flow_def u)
qed

text \<open>Over rows of the table, each with its own id, the loop collects exactly what is decided.\<close>

lemma gc_each_rows:
  assumes "table_ok t" and "set rs \<subseteq> set t" and "distinct rs"
    and "\<And>r. r \<in> set rs \<Longrightarrow> decide (row_to_flow r) = decide r \<and> (decide r \<noteq> None \<longrightarrow> fl_id r \<noteq> [] \<and> fl_session r \<noteq> [])"
  shows "gc_each decide now (map row_to_flow rs) t =
    (List.map_filter decide rs, map (\<lambda>q. if q \<in> set rs then gc_decided decide now q else q) t)"
  using assms
proof (induction rs arbitrary: t)
  case (Cons r rs)
  have r: "r \<in> set t" "decide (row_to_flow r) = decide r" "decide r \<noteq> None \<longrightarrow> fl_id r \<noteq> [] \<and> fl_session r \<noteq> []"
    using Cons.prems by auto
  have inj: "p = q" if "p \<in> set t" "q \<in> set t" "fl_id p = fl_id q" for p q
    using that Cons.prems(1) keyed_inj [of fl_id t p q] by (simp add: table_ok_def)
  show ?case
  proof (cases "decide r")
    case None
    have "gc_each decide now (map row_to_flow rs) t =
        (List.map_filter decide rs, map (\<lambda>q. if q \<in> set rs then gc_decided decide now q else q) t)"
      using Cons.prems by (intro Cons.IH) auto
    moreover have same: "gc_decided decide now r = r" using None by (simp add: gc_decided_def)
    have "map (\<lambda>q. if q \<in> set rs then gc_decided decide now q else q) t =
        map (\<lambda>q. if q \<in> set (r # rs) then gc_decided decide now q else q) t"
      by (rule map_cong [OF refl]) (use same in \<open>simp; blast?\<close>)
    ultimately show ?thesis using None r(2) by (simp only: list.map gc_each.simps List.map_filter_simps option.case)
  next
    case (Some why)
    let ?m = "\<lambda>q. if fl_id q = fl_id r then gc_row now why q else q"
    have ids: "fl_id q \<noteq> fl_id r" if "q \<in> set rs" for q using that Cons.prems(2,3) inj [of q r] by auto
    have ok: "table_ok (map ?m t)"
    proof -
      have "map fl_id (map ?m t) = map fl_id t" by simp
      then show ?thesis using Cons.prems(1) by (simp add: table_ok_def keyed_def del: map_map)
    qed
    have sub: "set rs \<subseteq> set (map ?m t)"
    proof
      fix q assume "q \<in> set rs"
      then have "q = ?m q" "q \<in> set t" using ids Cons.prems(2) by auto
      then show "q \<in> set (map ?m t)" unfolding set_map by (rule image_eqI)
    qed
    have rest: "gc_each decide now (map row_to_flow rs) (map ?m t) =
        (List.map_filter decide rs, map (\<lambda>q. if q \<in> set rs then gc_decided decide now q else q) (map ?m t))"
      using Cons.prems ok sub by (intro Cons.IH) auto
    have "(if ?m q \<in> set rs then gc_decided decide now (?m q) else ?m q) =
        (if q \<in> set (r # rs) then gc_decided decide now q else q)" if q: "q \<in> set t" for q
    proof (cases "q = r")
      case True
      have "gc_row now why r \<notin> set rs" using ids [of "gc_row now why r"] by auto
      then show ?thesis using True Some by (simp add: gc_decided_def)
    next
      case False
      then have "fl_id q \<noteq> fl_id r" using inj [OF q r(1)] by auto
      then show ?thesis using False by simp
    qed
    then have "map (\<lambda>q. if q \<in> set rs then gc_decided decide now q else q) (map ?m t) =
        map (\<lambda>q. if q \<in> set (r # rs) then gc_decided decide now q else q) t"
      by simp
    moreover have "fl_id r \<noteq> []" "fl_session r \<noteq> []" using r(3) Some by simp_all
    ultimately show ?thesis
      using rest Some r(2) by (simp add: finalize_row [OF Cons.prems(1) r(1)] List.map_filter_simps)
  qed
qed (simp add: List.map_filter_simps)

subsection \<open>Mark and sweep\<close>

text \<open>What the pass is meant to collect: an open flow that no open todo of its session refers to, that nobody has
  touched since the cutoff and whose children have all ended.\<close>

definition collectable :: "(string \<Rightarrow> bool) \<Rightarrow> time \<Rightarrow> todo_table \<Rightarrow> flow \<Rightarrow> bool" where
  "collectable live cutoff todos r =
    (flow_active r \<and> strip (fl_session r) \<noteq> [] \<and> fl_id r \<notin> set (get_active_flow_ids (fl_session r) todos) \<and>
     (case fl_updated_at r of None \<Rightarrow> True | Some u \<Rightarrow> u < cutoff) \<and> \<not> has_live_child live r)"

lemma view_children [simp]:
  "fl_child (row_to_flow r) = fl_child r" "fl_updated_at (row_to_flow r) = fl_updated_at r"
  by (simp_all add: row_to_flow_def)

lemma has_live_child_view [simp]: "has_live_child live (row_to_flow r) = has_live_child live r"
  by (simp add: has_live_child_def child_session_keys_def)

lemma unreferenced_view: "unreferenced live cutoff roots (row_to_flow r) = unreferenced live cutoff roots r"
  by (simp add: unreferenced_def)

lemma unreferenced_iff:
  "strip (fl_session r) \<noteq> [] \<Longrightarrow> flow_active r \<Longrightarrow>
   unreferenced live cutoff (get_active_flow_ids (fl_session r) todos) r =
     (if collectable live cutoff todos r then Some ''orphan_unreferenced'' else None)"
  by (auto simp: unreferenced_def collectable_def not_le split: option.split)

lemma length_map_filter_if: "length (List.map_filter (\<lambda>r. if P r then Some (c r) else None) rs) = count_where P rs"
  by (induction rs) (simp_all add: List.map_filter_simps)

lemma map_filter_cong: "(\<And>r. r \<in> set rs \<Longrightarrow> f r = g r) \<Longrightarrow> List.map_filter f rs = List.map_filter g rs"
  by (induction rs) (simp_all add: List.map_filter_simps split: option.split)

lemma table_ok_map: "table_ok t \<Longrightarrow> (\<And>r. fl_id (f r) = fl_id r) \<Longrightarrow> table_ok (map f t)"
  by (simp add: table_ok_def keyed_def comp_def)

lemma sweep_one_session:
  assumes ok: "table_ok t" and named: "\<forall>r \<in> set t. fl_id r \<noteq> []" and s: "strip s \<noteq> []"
  shows "gc_each (unreferenced live cutoff (get_active_flow_ids s todos)) now (get_non_terminal_flows (Some s) t) t =
    (replicate (count_where (\<lambda>r. fl_session r = s \<and> collectable live cutoff todos r) t) ''orphan_unreferenced'',
     map (\<lambda>r. if fl_session r = s \<and> collectable live cutoff todos r then gc_row now ''orphan_unreferenced'' r else r) t)"
proof -
  let ?decide = "unreferenced live cutoff (get_active_flow_ids s todos)" and ?rs = "filter (\<lambda>r. flow_active r \<and> fl_session r = s) t"
  have ne: "s \<noteq> []" using s by auto
  have flows: "get_non_terminal_flows (Some s) t = map row_to_flow ?rs"
    using ne by (simp add: get_non_terminal_flows_def or_text_def)
  have each: "gc_each ?decide now (map row_to_flow ?rs) t =
      (List.map_filter ?decide ?rs, map (\<lambda>q. if q \<in> set ?rs then gc_decided ?decide now q else q) t)"
  proof (rule gc_each_rows [OF ok])
    show "distinct ?rs" using ok by (simp add: table_ok_def keyed_def distinct_map)
  qed (use named ne in \<open>auto simp: unreferenced_view\<close>)
  have dec: "?decide r = (if collectable live cutoff todos r then Some ''orphan_unreferenced'' else None)" if "r \<in> set ?rs" for r
    using that s unreferenced_iff [of r live cutoff todos] by auto
  have "List.map_filter ?decide ?rs = List.map_filter (\<lambda>r. if collectable live cutoff todos r then Some ''orphan_unreferenced'' else None) ?rs"
    by (rule map_filter_cong) (rule dec)
  also have "\<dots> = replicate (count_where (\<lambda>r. fl_session r = s \<and> collectable live cutoff todos r) t) ''orphan_unreferenced''"
    by (induction t) (auto simp: List.map_filter_simps collectable_def)
  finally have whys: "List.map_filter ?decide ?rs = replicate (count_where (\<lambda>r. fl_session r = s \<and> collectable live cutoff todos r) t) ''orphan_unreferenced''" .
  have "map (\<lambda>q. if q \<in> set ?rs then gc_decided ?decide now q else q) t =
      map (\<lambda>r. if fl_session r = s \<and> collectable live cutoff todos r then gc_row now ''orphan_unreferenced'' r else r) t"
  proof (rule map_cong [OF refl])
    fix r assume r: "r \<in> set t"
    show "(if r \<in> set ?rs then gc_decided ?decide now r else r) =
        (if fl_session r = s \<and> collectable live cutoff todos r then gc_row now ''orphan_unreferenced'' r else r)"
    proof (cases "r \<in> set ?rs")
      case True
      then show ?thesis using dec [OF True] by (simp add: gc_decided_def)
    next
      case False
      then show ?thesis using r by (auto simp: collectable_def)
    qed
  qed
  then show ?thesis using each whys flows by simp
qed

lemma sweep_sessions_exact:
  assumes "table_ok t" and "\<forall>r \<in> set t. fl_id r \<noteq> []" and "distinct ss" and "\<forall>s \<in> set ss. strip s \<noteq> []"
  shows "snd (sweep_sessions live now cutoff todos ss t) =
    (count_where (\<lambda>r. fl_session r \<in> set ss \<and> collectable live cutoff todos r) t,
     map (\<lambda>r. if fl_session r \<in> set ss \<and> collectable live cutoff todos r then gc_row now ''orphan_unreferenced'' r else r) t)"
  using assms
proof (induction ss arbitrary: t)
  case (Cons s ss)
  let ?C = "collectable live cutoff todos" and ?g = "gc_row now ''orphan_unreferenced''"
  let ?m = "\<lambda>r. if fl_session r = s \<and> ?C r then ?g r else r"
  have IH: "snd (sweep_sessions live now cutoff todos ss (map ?m t)) =
      (count_where (\<lambda>r. fl_session r \<in> set ss \<and> ?C r) (map ?m t), map (\<lambda>r. if fl_session r \<in> set ss \<and> ?C r then ?g r else r) (map ?m t))"
    using Cons.prems by (intro Cons.IH table_ok_map) auto
  have s: "s \<notin> set ss" using Cons.prems(3) by simp
  have c: "count_where (\<lambda>r. fl_session r \<in> set ss \<and> ?C r) (map ?m t) + count_where (\<lambda>r. fl_session r = s \<and> ?C r) t =
      count_where (\<lambda>r. fl_session r \<in> set (s # ss) \<and> ?C r) t"
    using s by (induction t) auto
  have "map (\<lambda>r. if fl_session r \<in> set ss \<and> ?C r then ?g r else r) (map ?m t) =
      map (\<lambda>r. if fl_session r \<in> set (s # ss) \<and> ?C r then ?g r else r) t"
    using s by auto
  then show ?case
    using IH c sweep_one_session [of t s live cutoff todos now] Cons.prems by (simp add: Let_def case_prod_unfold)
qed (simp add: count_where_def)

lemma distinct_values_set [simp]: "set (distinct_values xs) = set xs" "distinct (distinct_values xs)"
  by (simp_all add: distinct_values_def)

text \<open>The pass over its whole range.\<close>

lemma sweep_pass:
  assumes "table_ok t" and "\<forall>r \<in> set t. fl_id r \<noteq> []"
    and "cutoff = now - (case grace of None \<Rightarrow> UNREFERENCED_FLOW_GRACE | Some g \<Rightarrow> g)"
    and "C = (\<lambda>r. (case session_ids of None \<Rightarrow> True | Some ids \<Rightarrow> fl_session r \<in> set ids) \<and> collectable live cutoff todos r)"
  shows "snd (unreferenced_flow_sweep live now grace session_ids todos t) = map (\<lambda>r. if C r then gc_row now ''orphan_unreferenced'' r else r) t \<and>
    snd (snd (fst (unreferenced_flow_sweep live now grace session_ids todos t))) = count_where C t"
proof -
  let ?ss = "swept_sessions session_ids t" and ?g = "gc_row now ''orphan_unreferenced''"
  have ss: "distinct ?ss" "\<forall>s \<in> set ?ss. strip s \<noteq> []"
    by (auto simp: swept_sessions_def get_non_terminal_session_ids_def split: option.split)
  have range: "(fl_session r \<in> set ?ss \<and> collectable live cutoff todos r) = C r" if "r \<in> set t" for r
    using that by (auto simp: assms(4) swept_sessions_def get_non_terminal_session_ids_def collectable_def split: option.split)
  have "map (\<lambda>r. if fl_session r \<in> set ?ss \<and> collectable live cutoff todos r then ?g r else r) t = map (\<lambda>r. if C r then ?g r else r) t"
    using range by (intro map_cong) auto
  moreover have "count_where (\<lambda>r. fl_session r \<in> set ?ss \<and> collectable live cutoff todos r) t = count_where C t"
    by (rule count_where_cong [OF range])
  ultimately show ?thesis
    using sweep_sessions_exact [OF assms(1,2) ss, of live now cutoff todos]
    by (simp add: unreferenced_flow_sweep_def Let_def assms(3) case_prod_unfold)
qed

text \<open>C34: The mark-and-sweep pass is exact. It fails every open flow in its range that no open todo of the session
  refers to, that was not touched within the grace window and that has no live child, with all unsettled
  steps; it touches no other row, and the number it reports is the number of flows collected.\<close>

theorem sweep_collects_exactly:
  assumes "table_ok t" and "\<forall>r \<in> set t. fl_id r \<noteq> []"
    and "cutoff = now - (case grace of None \<Rightarrow> UNREFERENCED_FLOW_GRACE | Some g \<Rightarrow> g)"
    and "C = (\<lambda>r. (case session_ids of None \<Rightarrow> True | Some ids \<Rightarrow> fl_session r \<in> set ids) \<and> collectable live cutoff todos r)"
  shows "snd (unreferenced_flow_sweep live now grace session_ids todos t) = map (\<lambda>r. if C r then gc_row now ''orphan_unreferenced'' r else r) t \<and>
    snd (snd (fst (unreferenced_flow_sweep live now grace session_ids todos t))) = count_where C t"
  by (rule sweep_pass [OF assms])

subsection \<open>The liveness pass\<close>

lemma stale_reason_view: "stale_reason live present now hours (row_to_flow r) = stale_reason live present now hours r"
  by (simp add: stale_reason_def)

lemma liveness_table:
  assumes "table_ok t" and "\<forall>r \<in> set t. fl_id r \<noteq> []"
  shows "snd (gc_each (stale_reason live present now hours) now (get_non_terminal_flows None t) t) =
    map (\<lambda>r. if flow_active r then gc_decided (stale_reason live present now hours) now r else r) t"
proof -
  let ?rs = "filter flow_active t"
  have "get_non_terminal_flows None t = map row_to_flow ?rs" by (simp add: get_non_terminal_flows_def or_text_def)
  moreover have "snd (gc_each (stale_reason live present now hours) now (map row_to_flow ?rs) t) =
      map (\<lambda>q. if q \<in> set ?rs then gc_decided (stale_reason live present now hours) now q else q) t"
  proof (subst gc_each_rows [OF assms(1)])
    show "distinct ?rs" using assms(1) by (simp add: table_ok_def keyed_def distinct_map)
  qed (use assms(2) in \<open>auto simp: stale_reason_view stale_reason_def Let_def split: if_splits\<close>)
  ultimately show ?thesis by auto
qed

lemma map_filter_iff: "y \<in> set (List.map_filter f xs) \<longleftrightarrow> (\<exists>x \<in> set xs. f x = Some y)"
  by (induction xs) (auto simp: List.map_filter_simps split: option.split)

lemma active_flow_ids_iff:
  "i \<in> set (get_active_flow_ids s todos) \<longleftrightarrow> i \<noteq> [] \<and> (\<exists>q \<in> set todos. td_session q = s \<and> todo_open q \<and> td_flow q = Some i)"
  by (auto simp: get_active_flow_ids_def map_filter_iff of_session_def split: option.splits if_splits)

lemma settled_open:
  "q \<in> set (snd (settle_todos x s ids todos)) \<Longrightarrow> todo_open q \<Longrightarrow> x \<in> {''cancelled'', ''completed''} \<Longrightarrow>
   q \<in> set todos \<and> \<not> (td_session q = s \<and> refers_to ids q)"
  by (auto simp: settle_todos_def set_update_where todo_open_def of_session_def split: if_splits)

definition zombie_todo :: "flow_table \<Rightarrow> todo \<Rightarrow> bool" where
  "zombie_todo t q = (\<exists>r \<in> set t. flow_zombie r \<and> fl_session r = td_session q \<and> td_flow q = Some (fl_id r))"

lemma cancel_zombies_open:
  assumes "q \<in> set (snd (cancel_zombies t ss todos))" and "todo_open q" and named: "\<forall>r \<in> set t. fl_id r \<noteq> []"
  shows "q \<in> set todos \<and> (td_session q \<in> set ss \<longrightarrow> \<not> zombie_todo t q)"
  using assms(1,2)
proof (induction ss arbitrary: todos)
  case (Cons s ss)
  define refd where "refd = sort (remdups (filter (\<lambda>i. i \<in> set (get_active_flow_ids s todos)) (get_zombie_flow_ids s t)))"
  define todos1 where "todos1 = (if refd = [] then todos else snd (cancel_todos_for_flows s refd todos))"
  have "q \<in> set (snd (cancel_zombies t ss todos1))"
    using Cons.prems(1) by (auto simp: Let_def case_prod_unfold refd_def todos1_def split: if_splits)
  from Cons.IH [OF this Cons.prems(2)] have q: "q \<in> set todos1" "td_session q \<in> set ss \<longrightarrow> \<not> zombie_todo t q" by auto
  then have q1: "q \<in> set todos" and nr: "td_session q = s \<Longrightarrow> \<not> refers_to refd q"
    using settled_open [of q "''cancelled''" s refd todos] Cons.prems(2)
    by (auto simp: todos1_def cancel_todos_for_flows_def refers_to_def split: if_splits option.splits)
  have "\<not> zombie_todo t q" if s: "td_session q = s"
  proof
    assume "zombie_todo t q"
    then obtain r where r: "r \<in> set t" "flow_zombie r" "fl_session r = s" "td_flow q = Some (fl_id r)"
      using s by (auto simp: zombie_todo_def)
    then have "fl_id r \<in> set (get_active_flow_ids s todos)" "fl_id r \<in> set (get_zombie_flow_ids s t)"
      using q1 s Cons.prems(2) named by (auto simp: active_flow_ids_iff get_zombie_flow_ids_def)
    then have "fl_id r \<in> set refd" by (simp add: refd_def)
    then show False using nr [OF s] r named by (simp add: refers_to_def)
  qed
  then show ?case using q1 q(2) by auto
qed simp

text \<open>C35: The liveness pass takes only the dead and leaves no zombies. A flow with a live child, or one touched in the
  last five minutes, is not collected, nor is a flow of a session of a user that was touched in the last
  twelve hours; every other row is as it was or failed by this pass. Afterwards no open todo of a session
  refers to a flow of it that has failed or was cancelled.\<close>

theorem liveness_leaves_no_zombies:
  assumes ok: "table_ok t" and named: "\<forall>r \<in> set t. fl_id r \<noteq> []"
    and pass: "liveness_sweep live present now None (todos, t) = (n, todos', t')"
  shows "(\<forall>r \<in> set t. (has_live_child live r \<or> \<not> flow_active r \<or> (\<exists>u. fl_updated_at r = Some u \<and> now - u < UNREFERENCED_FLOW_GRACE) \<or>
        (\<not> is_child_session (fl_session r) \<and> (\<exists>u. fl_updated_at r = Some u \<and> now - u < STALE_ACTION_HOURS * 3600))) \<longrightarrow> r \<in> set t') \<and>
    (\<forall>r' \<in> set t'. \<exists>r \<in> set t. r' = r \<or> (\<exists>why. r' = gc_row now why r)) \<and>
    (\<forall>q \<in> set todos'. todo_open q \<and> strip (td_session q) \<noteq> [] \<longrightarrow> \<not> zombie_todo t' q)"
proof (intro conjI)
  let ?d = "stale_reason live present now STALE_ACTION_HOURS"
  have t': "t' = map (\<lambda>r. if flow_active r then gc_decided ?d now r else r) t"
    using pass liveness_table [OF ok named, of live present now STALE_ACTION_HOURS]
    by (simp add: liveness_sweep_def case_prod_unfold)
  have todos': "todos' = snd (cancel_zombies t' (liveness_sessions t) todos)"
    using pass t' liveness_table [OF ok named, of live present now STALE_ACTION_HOURS]
    by (simp add: liveness_sweep_def case_prod_unfold)
  show "\<forall>r \<in> set t. (has_live_child live r \<or> \<not> flow_active r \<or> (\<exists>u. fl_updated_at r = Some u \<and> now - u < UNREFERENCED_FLOW_GRACE) \<or>
      (\<not> is_child_session (fl_session r) \<and> (\<exists>u. fl_updated_at r = Some u \<and> now - u < STALE_ACTION_HOURS * 3600))) \<longrightarrow> r \<in> set t'"
  proof (intro ballI impI)
    fix r assume r: "r \<in> set t" and spared: "has_live_child live r \<or> \<not> flow_active r \<or>
      (\<exists>u. fl_updated_at r = Some u \<and> now - u < UNREFERENCED_FLOW_GRACE) \<or>
      (\<not> is_child_session (fl_session r) \<and> (\<exists>u. fl_updated_at r = Some u \<and> now - u < STALE_ACTION_HOURS * 3600))"
    have "?d r = None \<or> \<not> flow_active r"
      using spared by (auto simp: stale_reason_def Let_def UNREFERENCED_FLOW_GRACE_def STALE_ACTION_HOURS_def)
    then have "(if flow_active r then gc_decided ?d now r else r) = r" by (auto simp: gc_decided_def)
    with r show "r \<in> set t'" unfolding t' set_map by (intro image_eqI [of r _ r]) simp_all
  qed
  show "\<forall>r' \<in> set t'. \<exists>r \<in> set t. r' = r \<or> (\<exists>why. r' = gc_row now why r)"
  proof
    fix r' assume "r' \<in> set t'"
    then obtain r where "r \<in> set t" "r' = (if flow_active r then gc_decided ?d now r else r)" unfolding t' by auto
    then show "\<exists>r \<in> set t. r' = r \<or> (\<exists>why. r' = gc_row now why r)"
      by (intro bexI [of _ r]) (auto simp: gc_decided_def split: option.split)
  qed
  show "\<forall>q \<in> set todos'. todo_open q \<and> strip (td_session q) \<noteq> [] \<longrightarrow> \<not> zombie_todo t' q"
  proof (intro ballI impI notI)
    fix q assume q: "q \<in> set todos'" "todo_open q \<and> strip (td_session q) \<noteq> []" and z: "zombie_todo t' q"
    obtain r' where r': "r' \<in> set t'" "flow_zombie r'" "fl_session r' = td_session q"
      using z by (auto simp: zombie_todo_def)
    then obtain r where r: "r \<in> set t" "r' = (if flow_active r then gc_decided ?d now r else r)" unfolding t' by auto
    have "flow_active r \<or> flow_zombie r" using r(2) r'(2) by (cases "flow_active r") simp_all
    moreover have "fl_session r = td_session q" using r(2) r'(3) by (cases "flow_active r") simp_all
    ultimately have "td_session q \<in> set (liveness_sessions t)"
      using r(1) q(2) by (auto simp: liveness_sessions_def get_non_terminal_flows_def or_text_def get_failed_flow_session_ids_def image_iff)
    moreover have "\<forall>r \<in> set t'. fl_id r \<noteq> []" unfolding t' using named by auto
    ultimately show False using cancel_zombies_open [OF q(1) [unfolded todos']] q(2) z by blast
  qed
qed

text \<open>A session with three open flows: one with a todo, one whose child is running, one that was left behind.\<close>

definition demo_open :: "text_id \<Rightarrow> string option \<Rightarrow> time \<Rightarrow> flow" where
  "demo_open i child begun = (new_flow begun i [] ''s1'' ''running'' child None None)"

definition demo_field :: flow_table where
  "demo_field = [demo_open ''f1'' None 10, demo_open ''f2'' (Some ''c2'') 10, demo_open ''f3'' None 10]"

definition demo_roots :: todo_table where
  "demo_roots = snd (replace_todos 5 ''s1'' [(demo_item ''a'')\<lparr>ti_flow := Some ''f1''\<rparr>] [])"

theorem sweep_collects_exactly_witness:
  "map fl_status (snd (unreferenced_flow_sweep (\<lambda>k. k = ''c2'') 1000 None None demo_roots demo_field)) = [''running'', ''running'', ''failed'']"
proof -
  have ok: "table_ok demo_field" "\<forall>r \<in> set demo_field. fl_id r \<noteq> []"
    by (simp_all add: table_ok_def demo_field_def demo_open_def new_flow_def)
  have "snd (unreferenced_flow_sweep (\<lambda>k. k = ''c2'') 1000 None None demo_roots demo_field) =
      map (\<lambda>r. if (case None of None \<Rightarrow> True | Some ids \<Rightarrow> fl_session r \<in> set ids) \<and> collectable (\<lambda>k. k = ''c2'') 700 demo_roots r
                 then gc_row 1000 ''orphan_unreferenced'' r else r) demo_field"
    by (rule conjunct1 [OF sweep_collects_exactly [OF ok]]) (simp_all add: UNREFERENCED_FLOW_GRACE_def)
  moreover have "map (collectable (\<lambda>k. k = ''c2'') 700 demo_roots) demo_field = [False, False, True]" by code_simp
  ultimately show ?thesis by (simp add: demo_field_def) (simp add: demo_open_def new_flow_def)
qed

theorem liveness_leaves_no_zombies_witness:
  "\<exists>n todos' t'. liveness_sweep (\<lambda>k. k = ''c2'') (\<lambda>s. False) 50000 None (demo_roots, demo_field) = (n, todos', t') \<and>
     map fl_status t' = [''failed'', ''running'', ''failed''] \<and> list_all (\<lambda>q. \<not> todo_open q) todos'"
proof -
  obtain n todos' t' where pass: "liveness_sweep (\<lambda>k. k = ''c2'') (\<lambda>s. False) 50000 None (demo_roots, demo_field) = (n, todos', t')"
    by (cases "liveness_sweep (\<lambda>k. k = ''c2'') (\<lambda>s. False) 50000 None (demo_roots, demo_field)")
  have ok: "table_ok demo_field" "\<forall>r \<in> set demo_field. fl_id r \<noteq> []"
    by (simp_all add: table_ok_def demo_field_def demo_open_def new_flow_def)
  have "map fl_status (snd (snd (liveness_sweep (\<lambda>k. k = ''c2'') (\<lambda>s. False) 50000 None (demo_roots, demo_field)))) =
      [''failed'', ''running'', ''failed'']"
    "map fl_id (snd (snd (liveness_sweep (\<lambda>k. k = ''c2'') (\<lambda>s. False) 50000 None (demo_roots, demo_field)))) = [''f1'', ''f2'', ''f3'']"
    "map fl_session (snd (snd (liveness_sweep (\<lambda>k. k = ''c2'') (\<lambda>s. False) 50000 None (demo_roots, demo_field)))) = [''s1'', ''s1'', ''s1'']"
    by code_simp+
  then have t': "map fl_status t' = [''failed'', ''running'', ''failed'']" "map fl_id t' = [''f1'', ''f2'', ''f3'']" "map fl_session t' = [''s1'', ''s1'', ''s1'']"
    by (simp_all add: pass)
  have "map (\<lambda>q. (td_session q, td_flow q)) (fst (snd (liveness_sweep (\<lambda>k. k = ''c2'') (\<lambda>s. False) 50000 None (demo_roots, demo_field)))) =
      [(''s1'', Some ''f1'')]" by code_simp
  then have q: "map (\<lambda>q. (td_session q, td_flow q)) todos' = [(''s1'', Some ''f1'')]" by (simp add: pass)
  have "strip ''s1'' = ''s1''" by code_simp
  moreover have "\<forall>q \<in> set todos'. todo_open q \<and> strip (td_session q) \<noteq> [] \<longrightarrow> \<not> zombie_todo t' q"
    using liveness_leaves_no_zombies [OF ok pass] by (elim conjE)
  moreover have "zombie_todo t' q" if "q \<in> set todos'" for q
    using t' q that by (auto simp: zombie_todo_def flow_zombie_def map_eq_Cons_conv)
  ultimately have "list_all (\<lambda>q. \<not> todo_open q) todos'" using q by (auto simp: list_all_iff map_eq_Cons_conv)
  with pass t'(1) show ?thesis by (intro exI conjI)
qed

end
