(* ===== verification/Todo_Service.thy ===== *)
theory Todo_Service
  imports TaskFlow_Sweep TaskFlow_Dispatch
begin

section \<open>Todos and the flows they keep alive\<close>

text \<open>
  Models \<^verbatim>\<open>src/agent/tools/todolist/service.py\<close>, the tool \<^verbatim>\<open>tools/todowrite.py\<close> with \<^verbatim>\<open>tools/todoread.py\<close>, and the
  seams of \<^verbatim>\<open>src/agent/tools/taskflow/tools/_shared.py\<close> that tie a flow to its todo. The state is the todo
  table, the flow table and the session values the service writes. \<open>live\<close> says whether a child session has a run that has
  not ended. A call runs without other writers in between; what it pushes to sockets is left out.
\<close>

subsection \<open>State\<close>

record plan_world =
  pw_todos :: todo_table
  pw_flows :: flow_table
  pw_plan_refs :: "(text_id \<times> string) list"
  pw_warnings :: "(text_id \<times> text_id list) list"
  pw_reminded :: "text_id list"

definition ORPHAN_FLOW_ON_DROP :: string where
  "ORPHAN_FLOW_ON_DROP = ''cancel''"

definition TRIGGER_SWEEP_AFTER_REPLACE :: bool where
  "TRIGGER_SWEEP_AFTER_REPLACE = True"

datatype barrier =
  Subagent_Running string
| Flow_Missing text_id
| Step_Missing string text_id
| Step_Not_Done string text_id string
| Flow_Not_Over text_id string

datatype todo_refusal =
  Barred barrier
| Drops_Roots "text_id list"
| No_Such_Todo string int "todo list"
| Todo_Store_Raises todo_error
| Empty_Content
| Reattach_Missing text_id
| Reattach_Terminal text_id string
| Needs_Todos
| Bad_Items "nat list"
| Needs_Todo_Id
| Needs_A_Field
| Needs_Flow_Id

subsection \<open>Vocabularies and the transition barrier\<close>

definition validate_item :: "todo_item \<Rightarrow> todo_item" where
  "validate_item x =
    x\<lparr>ti_category := (case ti_category x of Some c \<Rightarrow> if c \<in> set TODO_CATEGORIES then Some c else Some TODO_CATEGORY
                      | None \<Rightarrow> Some TODO_CATEGORY),
      ti_delegation := (case ti_delegation x of Some c \<Rightarrow> if c \<in> set TODO_DELEGATIONS then Some c else Some TODO_DELEGATION
                      | None \<Rightarrow> Some TODO_DELEGATION)\<rparr>"

text \<open>\<^verbatim>\<open>v or ""\<close>\<close>

definition opt_text :: "string option \<Rightarrow> string" where
  "opt_text v = (case v of None \<Rightarrow> [] | Some x \<Rightarrow> x)"

definition read_taskflow_step_status :: "text_id \<Rightarrow> text_id \<Rightarrow> string \<Rightarrow> flow_table \<Rightarrow> barrier + string" where
  "read_taskflow_step_status sess flow step t =
    (case get_flow flow sess t of
       None \<Rightarrow> Inl (Flow_Missing flow)
     | Some f \<Rightarrow>
         (case find (\<lambda>s. step_id_of s = JStr step) (flow_steps (fl_state f)) of
            None \<Rightarrow> Inl (Step_Missing step flow)
          | Some s \<Rightarrow> Inr (step_status s)))"

definition transition_barrier :: "(string \<Rightarrow> bool) \<Rightarrow> text_id \<Rightarrow> flow_table \<Rightarrow> string \<Rightarrow> text_id \<Rightarrow> string \<Rightarrow> barrier option" where
  "transition_barrier live sess t sub flow step =
    (if sub \<noteq> [] \<and> live sub then Some (Subagent_Running sub)
     else if flow \<noteq> [] \<and> step \<noteq> [] then
       (case read_taskflow_step_status sess flow step t of
          Inl b \<Rightarrow> Some b
        | Inr st \<Rightarrow> if st \<noteq> ''done'' then Some (Step_Not_Done step flow st) else None)
     else if flow \<noteq> [] then
       (case get_flow flow sess t of
          None \<Rightarrow> None
        | Some f \<Rightarrow> if flow_terminal (fl_status f) then None else Some (Flow_Not_Over flow (fl_status f)))
     else None)"

definition item_barrier :: "(string \<Rightarrow> bool) \<Rightarrow> text_id \<Rightarrow> flow_table \<Rightarrow> todo_item \<Rightarrow> barrier option" where
  "item_barrier live sess t x =
    (if ti_status x = Some ''completed''
     then transition_barrier live sess t (opt_text (ti_subagent x)) (opt_text (ti_flow x)) (opt_text (ti_step x))
     else None)"

definition todo_barrier :: "(string \<Rightarrow> bool) \<Rightarrow> text_id \<Rightarrow> flow_table \<Rightarrow> todo \<Rightarrow> barrier option" where
  "todo_barrier live sess t r =
    transition_barrier live sess t (opt_text (td_subagent r)) (opt_text (td_flow r)) (opt_text (td_step r))"

fun first_some :: "'a option list \<Rightarrow> 'a option" where
  "first_some [] = None"
| "first_some (None # xs) = first_some xs"
| "first_some (Some x # xs) = Some x"

subsection \<open>Flows without a root\<close>

text \<open>Fails the flows of the list that are still open, in order, and gives those it failed; their children are
  killed.\<close>

fun compensate_each :: "time \<Rightarrow> text_id \<Rightarrow> string \<Rightarrow> text_id list \<Rightarrow> flow_table \<Rightarrow> flow list \<times> flow_table" where
  "compensate_each now sess why [] t = ([], t)"
| "compensate_each now sess why (i # is) t =
    (case get_flow i sess t of
       None \<Rightarrow> compensate_each now sess why is t
     | Some f \<Rightarrow>
         if flow_terminal (fl_status f) then compensate_each now sess why is t
         else
           (case finalize_gc_flow now why f t of (ok, t1) \<Rightarrow>
              (case compensate_each now sess why is t1 of (fs, t2) \<Rightarrow> ((if ok then f # fs else fs), t2))))"

definition compensate_orphaned_flows :: "time \<Rightarrow> text_id \<Rightarrow> text_id list \<Rightarrow> string \<Rightarrow> flow_table \<Rightarrow> flow list \<times> flow_table" where
  "compensate_orphaned_flows now sess ids why t =
    compensate_each now sess why (distinct_values (filter (\<lambda>i. strip i \<noteq> []) ids)) t"

text \<open>The child sessions of a collected flow that are to be killed.\<close>

definition orphaned_children :: "flow \<Rightarrow> string list" where
  "orphaned_children f = sort (remdups (filter (\<lambda>k. k \<noteq> []) (dict_child_keys (fl_state f))))"

definition compensate_removed_flow :: "time \<Rightarrow> text_id \<Rightarrow> text_id \<Rightarrow> plan_world \<Rightarrow> plan_world" where
  "compensate_removed_flow now sess i w =
    (if i \<in> set (get_active_flow_ids sess (pw_todos w)) then w
     else case get_flow i sess (pw_flows w) of
       None \<Rightarrow> w
     | Some f \<Rightarrow>
         if flow_terminal (fl_status f) then w
         else w\<lparr>pw_flows := snd (finalize_gc_flow now ''todo_removed_explicitly'' f (pw_flows w))\<rparr>)"

definition set_reference_warning :: "text_id \<Rightarrow> text_id list \<Rightarrow> plan_world \<Rightarrow> plan_world" where
  "set_reference_warning sess ids w =
    w\<lparr>pw_warnings := dict_set sess (distinct_values (filter (\<lambda>i. i \<noteq> []) ids)) (pw_warnings w)\<rparr>"

definition consume_reference_warning :: "text_id \<Rightarrow> plan_world \<Rightarrow> text_id list \<times> plan_world" where
  "consume_reference_warning sess w =
    (case dict_get (pw_warnings w) sess of
       None \<Rightarrow> ([], w)
     | Some ids \<Rightarrow> (filter (\<lambda>i. strip i \<noteq> []) ids, w\<lparr>pw_warnings := dict_pop sess (pw_warnings w)\<rparr>))"

definition remember_plan :: "text_id \<Rightarrow> string option \<Rightarrow> plan_world \<Rightarrow> plan_world" where
  "remember_plan sess plan w =
    (case plan of None \<Rightarrow> w | Some p \<Rightarrow> if p = [] then w else w\<lparr>pw_plan_refs := dict_set sess p (pw_plan_refs w)\<rparr>)"

subsection \<open>The service\<close>

definition flow_refs :: "string option list \<Rightarrow> text_id list" where
  "flow_refs xs = filter (\<lambda>i. i \<noteq> []) (map opt_text xs)"

definition orphaned_ids :: "text_id \<Rightarrow> todo_item list \<Rightarrow> todo_table \<Rightarrow> text_id list" where
  "orphaned_ids sess items todos =
    sort (remdups (filter (\<lambda>i. i \<notin> set (flow_refs (map ti_flow items))) (flow_refs (map td_flow (get_todos sess todos)))))"

definition orphan_mode :: "string \<Rightarrow> string" where
  "orphan_mode configured =
    (if lower configured \<in> {''cancel'', ''refuse'', ''sweep_only''} then lower configured else ''cancel'')"

definition drop_flows :: "time \<Rightarrow> text_id \<Rightarrow> string \<Rightarrow> text_id list \<Rightarrow> plan_world \<Rightarrow> plan_world" where
  "drop_flows now sess mode orphaned w =
    (if orphaned \<noteq> [] \<and> mode = ''cancel'' then
       (case compensate_orphaned_flows now sess orphaned ''todo_dropped_in_full_replace'' (pw_flows w) of
          (fs, t) \<Rightarrow> (if fs = [] then w\<lparr>pw_flows := t\<rparr> else set_reference_warning sess (map fl_id fs) (w\<lparr>pw_flows := t\<rparr>)))
     else w)"

definition trigger_session_sweep :: "(string \<Rightarrow> bool) \<Rightarrow> time \<Rightarrow> text_id \<Rightarrow> plan_world \<Rightarrow> plan_world" where
  "trigger_session_sweep live now sess w =
    w\<lparr>pw_flows := snd (unreferenced_flow_sweep live now None (Some [sess]) (pw_todos w) (pw_flows w))\<rparr>"

definition update_todos ::
    "(string \<Rightarrow> bool) \<Rightarrow> string \<Rightarrow> time \<Rightarrow> text_id \<Rightarrow> todo_item list \<Rightarrow> string option \<Rightarrow> plan_world
     \<Rightarrow> (todo_refusal + todo list) \<times> plan_world" where
  "update_todos live configured now sess items plan w =
    (let validated = map validate_item items; mode = orphan_mode configured;
         orphaned = orphaned_ids sess validated (pw_todos w); w1 = drop_flows now sess mode orphaned w
     in case first_some (map (item_barrier live sess (pw_flows w)) validated) of
          Some b \<Rightarrow> (Inl (Barred b), w)
        | None \<Rightarrow>
            if orphaned \<noteq> [] \<and> mode = ''refuse'' then (Inl (Drops_Roots orphaned), w)
            else (case replace_todos now sess validated (pw_todos w1) of
                    (Some e, _) \<Rightarrow> (Inl (Todo_Store_Raises e), w1)
                  | (None, todos) \<Rightarrow>
                      (let w2 = remember_plan sess plan (w1\<lparr>pw_todos := todos\<rparr>)
                       in (Inr (get_todos sess todos),
                           if TRIGGER_SWEEP_AFTER_REPLACE then trigger_session_sweep live now sess w2 else w2))))"

definition new_item :: "string \<Rightarrow> string option \<Rightarrow> string option \<Rightarrow> string option \<Rightarrow> string option \<Rightarrow> todo_item" where
  "new_item content flow step category plan =
    validate_item \<lparr>ti_content = content, ti_status = Some ''pending'', ti_priority = Some TODO_PRIORITY, ti_position = None,
      ti_category = Some (or_default category TODO_CATEGORY), ti_delegation = None, ti_subagent = None, ti_flow = flow,
      ti_step = step, ti_plan = plan\<rparr>"

definition add_todo ::
    "time \<Rightarrow> text_id \<Rightarrow> string \<Rightarrow> string option \<Rightarrow> string option \<Rightarrow> string option \<Rightarrow> int option \<Rightarrow> string option \<Rightarrow> plan_world
     \<Rightarrow> (todo_refusal + todo list) \<times> plan_world" where
  "add_todo now sess content flow step category after plan w =
    (case add_todo_row now sess (new_item content flow step category plan) after (pw_todos w) of
       (Inl e, _) \<Rightarrow> (Inl (Todo_Store_Raises e), w)
     | (Inr None, todos) \<Rightarrow>
         (Inl (No_Such_Todo ''after_todo_id'' (case after of None \<Rightarrow> 0 | Some a \<Rightarrow> a) (get_todos sess todos)), w\<lparr>pw_todos := todos\<rparr>)
     | (Inr (Some _), todos) \<Rightarrow> (Inr (get_todos sess todos), remember_plan sess plan (w\<lparr>pw_todos := todos\<rparr>)))"

definition normalized_patch :: "todo_patch \<Rightarrow> todo_patch" where
  "normalized_patch p =
    p\<lparr>tp_category := (case tp_category p of None \<Rightarrow> None
       | Some c \<Rightarrow> if c \<in> set TODO_CATEGORIES then Some c else Some TODO_CATEGORY)\<rparr>"

definition missing_todo :: "text_id \<Rightarrow> int \<Rightarrow> plan_world \<Rightarrow> todo_refusal" where
  "missing_todo sess i w = No_Such_Todo ''todo_id'' i (get_todos sess (pw_todos w))"

definition patch_todo ::
    "(string \<Rightarrow> bool) \<Rightarrow> text_id \<Rightarrow> int \<Rightarrow> todo_patch \<Rightarrow> plan_world \<Rightarrow> (todo_refusal + todo) \<times> plan_world" where
  "patch_todo live sess i p w =
    (let blocked =
           (if tp_status p = Some ''completed''
            then (case get_todo_by_id sess i (pw_todos w) of
                    None \<Rightarrow> Some (missing_todo sess i w)
                  | Some r \<Rightarrow> map_option Barred (todo_barrier live sess (pw_flows w) r))
            else None)
     in if (case tp_content p of None \<Rightarrow> False | Some c \<Rightarrow> strip c = []) then (Inl Empty_Content, w)
        else case blocked of
          Some e \<Rightarrow> (Inl e, w)
        | None \<Rightarrow>
            (case patch_todo_by_id sess i (normalized_patch p) (pw_todos w) of
               (None, _) \<Rightarrow> (Inl (missing_todo sess i w), w)
             | (Some r, todos) \<Rightarrow> (Inr r, w\<lparr>pw_todos := todos\<rparr>)))"

definition remove_todo :: "time \<Rightarrow> text_id \<Rightarrow> int \<Rightarrow> plan_world \<Rightarrow> (todo_refusal + todo) \<times> plan_world" where
  "remove_todo now sess i w =
    (case remove_todo_by_id sess i (pw_todos w) of
       (None, _) \<Rightarrow> (Inl (missing_todo sess i w), w)
     | (Some r, todos) \<Rightarrow>
         (Inr r, if opt_text (td_flow r) = [] then w\<lparr>pw_todos := todos\<rparr>
                 else compensate_removed_flow now sess (opt_text (td_flow r)) (w\<lparr>pw_todos := todos\<rparr>)))"

definition reattach_todo :: "text_id \<Rightarrow> int \<Rightarrow> text_id \<Rightarrow> plan_world \<Rightarrow> (todo_refusal + todo) \<times> plan_world" where
  "reattach_todo sess i flow w =
    (case get_flow flow sess (pw_flows w) of
       None \<Rightarrow> (Inl (Reattach_Missing flow), w)
     | Some f \<Rightarrow>
         if flow_terminal (fl_status f) then (Inl (Reattach_Terminal flow (fl_status f)), w)
         else (case set_todo_flow_id_by_id sess i flow (pw_todos w) of
                 (None, _) \<Rightarrow> (Inl (missing_todo sess i w), w)
               | (Some r, todos) \<Rightarrow> (Inr r, w\<lparr>pw_todos := todos\<rparr>)))"

definition list_orphan_flows :: "text_id \<Rightarrow> plan_world \<Rightarrow> flow list" where
  "list_orphan_flows sess w =
    filter (\<lambda>f. fl_id f \<noteq> [] \<and> fl_id f \<notin> set (get_active_flow_ids sess (pw_todos w))) (get_non_terminal_flows (Some sess) (pw_flows w))"

definition settle_flow_todos :: "bool \<Rightarrow> text_id \<Rightarrow> text_id \<Rightarrow> plan_world \<Rightarrow> nat \<times> plan_world" where
  "settle_flow_todos finished sess flow w =
    (case (if finished then complete_todos_for_flows else cancel_todos_for_flows) sess [flow] (pw_todos w) of
       (n, todos) \<Rightarrow> (n, w\<lparr>pw_todos := todos\<rparr>))"

definition notify_flow_todos_completed :: "text_id \<Rightarrow> text_id \<Rightarrow> plan_world \<Rightarrow> nat \<times> plan_world" where
  "notify_flow_todos_completed = settle_flow_todos True"

definition notify_flow_todos_cancelled :: "text_id \<Rightarrow> text_id \<Rightarrow> plan_world \<Rightarrow> nat \<times> plan_world" where
  "notify_flow_todos_cancelled = settle_flow_todos False"

definition bind_flow_todo ::
    "time \<Rightarrow> text_id \<Rightarrow> text_id \<Rightarrow> string \<Rightarrow> string \<Rightarrow> plan_world \<Rightarrow> (todo_refusal + todo list) \<times> plan_world" where
  "bind_flow_todo now sess flow content category = add_todo now sess content (Some flow) None (Some category) None None"

subsection \<open>The tools\<close>

datatype todo_action = Act_Replace | Act_Patch | Act_Add | Act_Remove | Act_Reattach | Act_List_Orphans

record todo_call =
  tc_action :: todo_action
  tc_todos :: "todo_item list option"
  tc_id :: "int option"
  tc_after :: "int option"
  tc_content :: "string option"
  tc_status :: "string option"
  tc_priority :: "string option"
  tc_category :: "string option"
  tc_plan :: "string option"
  tc_flow :: "string option"

datatype todo_answer =
  Todo_List "todo list"
| Todo_One todo
| Todo_Orphans "flow list"
| Todo_Refused todo_refusal

definition answer_of :: "('a \<Rightarrow> todo_answer) \<Rightarrow> (todo_refusal + 'a) \<times> plan_world \<Rightarrow> todo_answer \<times> plan_world" where
  "answer_of wrap res = (case res of (Inl e, w) \<Rightarrow> (Todo_Refused e, w) | (Inr x, w) \<Rightarrow> (wrap x, w))"

definition blank_items :: "todo_item list \<Rightarrow> nat list" where
  "blank_items items = filter (\<lambda>k. strip (ti_content (items ! k)) = []) [0..<length items]"

definition call_patch :: "todo_call \<Rightarrow> todo_patch" where
  "call_patch c = \<lparr>tp_content = tc_content c, tp_status = tc_status c, tp_priority = tc_priority c, tp_category = tc_category c\<rparr>"

definition run_replace :: "(string \<Rightarrow> bool) \<Rightarrow> time \<Rightarrow> todo_call \<Rightarrow> text_id \<Rightarrow> plan_world \<Rightarrow> todo_answer \<times> plan_world" where
  "run_replace live now c sess w =
    (case tc_todos c of
       None \<Rightarrow> (Todo_Refused Needs_Todos, w)
     | Some items \<Rightarrow>
         if blank_items items \<noteq> [] then (Todo_Refused (Bad_Items (blank_items items)), w)
         else answer_of Todo_List (update_todos live ORPHAN_FLOW_ON_DROP now sess items (tc_plan c) w))"

definition run_add :: "time \<Rightarrow> todo_call \<Rightarrow> text_id \<Rightarrow> plan_world \<Rightarrow> todo_answer \<times> plan_world" where
  "run_add now c sess w =
    (let content = opt_text (tc_content c)
     in if strip content = [] then (Todo_Refused Empty_Content, w)
        else answer_of Todo_List (add_todo now sess content None None (tc_category c) (tc_after c) (tc_plan c) w))"

definition run_on_todo :: "(string \<Rightarrow> bool) \<Rightarrow> time \<Rightarrow> todo_call \<Rightarrow> int \<Rightarrow> text_id \<Rightarrow> plan_world \<Rightarrow> todo_answer \<times> plan_world" where
  "run_on_todo live now c i sess w =
    (case tc_action c of
       Act_Patch \<Rightarrow>
         if tc_content c = None \<and> tc_status c = None \<and> tc_priority c = None \<and> tc_category c = None
         then (Todo_Refused Needs_A_Field, w)
         else answer_of Todo_One (patch_todo live sess i (call_patch c) w)
     | Act_Remove \<Rightarrow> answer_of Todo_One (remove_todo now sess i w)
     | _ \<Rightarrow>
         if opt_text (tc_flow c) = [] then (Todo_Refused Needs_Flow_Id, w)
         else answer_of Todo_One (reattach_todo sess i (opt_text (tc_flow c)) w))"

definition run_todo_action :: "(string \<Rightarrow> bool) \<Rightarrow> time \<Rightarrow> todo_call \<Rightarrow> text_id \<Rightarrow> plan_world \<Rightarrow> todo_answer \<times> plan_world" where
  "run_todo_action live now c sess w =
    (case tc_action c of
       Act_Replace \<Rightarrow> run_replace live now c sess w
     | Act_List_Orphans \<Rightarrow> (Todo_Orphans (list_orphan_flows sess w), w)
     | Act_Add \<Rightarrow> run_add now c sess w
     | _ \<Rightarrow> (case tc_id c of None \<Rightarrow> (Todo_Refused Needs_Todo_Id, w) | Some i \<Rightarrow> run_on_todo live now c i sess w))"

text \<open>An error of the barrier or of the store other than a missing id, a dropped root or a wrong value leaves the tool as an exception, before the two notes.\<close>

definition raised :: "todo_action \<Rightarrow> todo_answer \<Rightarrow> bool" where
  "raised a r =
    (case r of
       Todo_Refused (Barred _) \<Rightarrow> True
     | Todo_Refused (Todo_Store_Raises Todo_Position_Taken) \<Rightarrow> True
     | Todo_Refused Empty_Content \<Rightarrow> a = Act_Patch
     | _ \<Rightarrow> False)"

record todo_reply =
  ty_answer :: todo_answer
  ty_warning :: "text_id list"
  ty_reminder :: bool

definition todowrite :: "(string \<Rightarrow> bool) \<Rightarrow> time \<Rightarrow> todo_call \<Rightarrow> text_id \<Rightarrow> plan_world \<Rightarrow> todo_reply \<times> plan_world" where
  "todowrite live now c sess w =
    (case run_todo_action live now c sess w of (r, w1) \<Rightarrow>
       if raised (tc_action c) r then (\<lparr>ty_answer = r, ty_warning = [], ty_reminder = False\<rparr>, w1)
       else
         (case (if tc_action c = Act_Replace then consume_reference_warning sess w1 else ([], w1)) of (ids, w2) \<Rightarrow>
            (let first = (tc_action c \<noteq> Act_List_Orphans \<and> sess \<notin> set (pw_reminded w2))
             in (\<lparr>ty_answer = r, ty_warning = ids, ty_reminder = first\<rparr>,
                 if first then w2\<lparr>pw_reminded := pw_reminded w2 @ [sess]\<rparr> else w2))))"

definition todoread :: "text_id \<Rightarrow> plan_world \<Rightarrow> todo list" where
  "todoread sess w = get_todos sess (pw_todos w)"

subsection \<open>The barrier holds\<close>

text \<open>When a todo may be completed: its sub-agent has ended; its step, if it names one, is done; the flow it is the root of, if it still exists, is over.\<close>

definition may_complete :: "(string \<Rightarrow> bool) \<Rightarrow> text_id \<Rightarrow> flow_table \<Rightarrow> todo \<Rightarrow> bool" where
  "may_complete live sess t r =
    ((opt_text (td_subagent r) \<noteq> [] \<longrightarrow> \<not> live (opt_text (td_subagent r))) \<and>
     (opt_text (td_flow r) \<noteq> [] \<longrightarrow>
       (if opt_text (td_step r) = []
        then \<forall>f. get_flow (opt_text (td_flow r)) sess t = Some f \<longrightarrow> flow_terminal (fl_status f)
        else \<exists>f s. get_flow (opt_text (td_flow r)) sess t = Some f \<and>
               find (\<lambda>s. step_id_of s = JStr (opt_text (td_step r))) (flow_steps (fl_state f)) = Some s \<and> step_status s = ''done'')))"

lemma todo_barrier_iff: "todo_barrier live sess t r = None \<longleftrightarrow> may_complete live sess t r"
  by (auto simp: todo_barrier_def transition_barrier_def may_complete_def read_taskflow_step_status_def
      split: option.splits sum.splits if_splits)

lemma first_some_None: "first_some xs = None \<longleftrightarrow> (\<forall>x \<in> set xs. x = None)"
  by (induction xs rule: first_some.induct) auto

definition same_todo :: "todo \<Rightarrow> todo \<Rightarrow> bool" where
  "same_todo q r = (td_session q = td_session r \<and> td_id q = td_id r)"

text \<open>What a step may do to the completed rows.\<close>

definition completes_well :: "(string \<Rightarrow> bool) \<Rightarrow> text_id \<Rightarrow> flow_table \<Rightarrow> todo_table \<Rightarrow> todo_table \<Rightarrow> bool" where
  "completes_well live sess t todos todos' =
    (\<forall>r \<in> set todos'. td_status r = ''completed'' \<longrightarrow>
       (\<exists>q \<in> set todos. same_todo q r \<and> td_status q = ''completed'') \<or> may_complete live sess t r)"

lemma completes_refl: "completes_well live sess t todos todos"
  by (auto simp: completes_well_def same_todo_def)

lemma completes_image:
  "(\<And>r. r \<in> set todos \<Longrightarrow> same_todo r (f r) \<and> (td_status (f r) = ''completed'' \<longrightarrow> td_status r = ''completed'' \<or> may_complete live sess t (f r))) \<Longrightarrow>
   completes_well live sess t todos (map f todos)"
  by (fastforce simp: completes_well_def)

lemma row_of_item:
  assumes "r \<in> set (rows_from now s k i (map validate_item items))"
  obtains x where "x \<in> set items" "td_status r = or_default (ti_status x) TODO_STATUS" "td_subagent r = ti_subagent x"
    "td_flow r = ti_flow x" "td_step r = ti_step x"
  using assms
proof (induction items arbitrary: k i thesis)
  case (Cons x items)
  show ?case
  proof (cases "r = todo_row now s k i (validate_item x)")
    case True
    then show ?thesis by (intro Cons.prems(1) [of x]) (simp_all add: todo_row_def validate_item_def)
  next
    case False
    then have "r \<in> set (rows_from now s (k + 1) (i + 1) (map validate_item items))" using Cons.prems(2) by simp
    then obtain y where y: "y \<in> set items" "td_status r = or_default (ti_status y) TODO_STATUS" "td_subagent r = ti_subagent y"
      "td_flow r = ti_flow y" "td_step r = ti_step y" using Cons.IH by blast
    then show ?thesis by (intro Cons.prems(1) [of y]) simp_all
  qed
qed simp

lemma drop_flows_todos [simp]: "pw_todos (drop_flows now sess mode ids w) = pw_todos w"
  by (simp add: drop_flows_def set_reference_warning_def case_prod_unfold)

lemma remember_plan_frame [simp]: "pw_todos (remember_plan sess plan w) = pw_todos w" "pw_flows (remember_plan sess plan w) = pw_flows w"
  by (simp_all add: remember_plan_def split: option.split)

lemma sweep_frame [simp]: "pw_todos (trigger_session_sweep live now sess w) = pw_todos w"
  by (simp add: trigger_session_sweep_def)

lemma update_todos_completes:
  "completes_well live sess (pw_flows w) (pw_todos w) (pw_todos (snd (update_todos live configured now sess items plan w)))"
proof -
  let ?v = "map validate_item items"
  have "completes_well live sess (pw_flows w) (pw_todos w) (snd (replace_todos now sess ?v (pw_todos w)))"
    if none: "first_some (map (item_barrier live sess (pw_flows w)) ?v) = None"
  proof -
    let ?rows = "rows_from now (strip sess) 0 (next_todo_id (strip sess) (pw_todos w)) ?v"
    have new: "may_complete live sess (pw_flows w) r" if r: "r \<in> set ?rows" "td_status r = ''completed''" for r
    proof -
      obtain x where x: "x \<in> set items" "td_status r = or_default (ti_status x) TODO_STATUS" "td_subagent r = ti_subagent x"
        "td_flow r = ti_flow x" "td_step r = ti_step x" by (rule row_of_item [OF r(1)])
      have "ti_status x = Some ''completed''"
        using x(2) r(2) by (auto simp: or_default_def TODO_STATUS_def split: option.splits if_splits)
      moreover have "item_barrier live sess (pw_flows w) (validate_item x) = None" using none x(1) by (auto simp: first_some_None)
      ultimately have "todo_barrier live sess (pw_flows w) r = None"
        using x(3-5) by (simp add: item_barrier_def todo_barrier_def validate_item_def)
      then show ?thesis by (simp add: todo_barrier_iff)
    qed
    have "completes_well live sess (pw_flows w) (pw_todos w) (filter (\<lambda>r. \<not> of_session (strip sess) r) (pw_todos w) @ ?rows)"
      using new by (auto simp: completes_well_def same_todo_def)
    then show ?thesis by (simp add: replace_todos_def Let_def completes_refl)
  qed
  then show ?thesis
    by (simp add: update_todos_def Let_def completes_refl split: option.split prod.split) (metis snd_conv)
qed

lemma add_todo_completes:
  "completes_well live sess t todos (snd (add_todo_row now s (new_item content flow step category plan) after todos))"
proof -
  have ins: "completes_well live sess t todos (insert_todo now q p (new_item content flow step category plan) (map f todos))"
    if "\<And>r. same_todo r (f r) \<and> td_status (f r) = td_status r" for q p f
    using that
    by (auto simp: completes_well_def insert_todo_def todo_row_def new_item_def validate_item_def or_default_def)
  have "completes_well live sess t todos (insert_todo now q p (new_item content flow step category plan) todos)" for q p
    using ins [of "\<lambda>r. r"] by (simp add: same_todo_def)
  moreover have "completes_well live sess t todos (insert_todo now q p (new_item content flow step category plan) (shift_up q' p todos))" for q q' p
    unfolding shift_up_eq by (rule ins) (simp add: same_todo_def moved_up_def)
  ultimately show ?thesis
    by (simp add: add_todo_row_def Let_def completes_refl split: option.split)
qed

lemma update_where_map: "update_where P f rows = map (\<lambda>r. if P r then f r else r) rows"
  by (simp add: update_where_def)

lemma patch_todo_completes:
  assumes "todo_ok (pw_todos w)"
  shows "completes_well live sess (pw_flows w) (pw_todos w) (pw_todos (snd (patch_todo live sess i p w)))"
proof -
  have "completes_well live sess (pw_flows w) (pw_todos w) (snd (patch_todo_by_id sess i (normalized_patch p) (pw_todos w)))"
    if free: "tp_status p = Some ''completed'' \<Longrightarrow>
      \<exists>r. get_todo_by_id sess i (pw_todos w) = Some r \<and> todo_barrier live sess (pw_flows w) r = None"
    unfolding patch_todo_by_id_def change_todo_table update_where_map
  proof (rule completes_image)
    fix r assume r: "r \<in> set (pw_todos w)"
    let ?f = "\<lambda>r. if of_session sess r \<and> td_id r = i then patched (normalized_patch p) r else r"
    have "may_complete live sess (pw_flows w) (patched (normalized_patch p) r)"
      if at: "of_session sess r" "td_id r = i" and c: "tp_status p = Some ''completed''"
    proof -
      obtain q where q: "get_todo_by_id sess i (pw_todos w) = Some q" "todo_barrier live sess (pw_flows w) q = None" using free [OF c] by blast
      have "get_todo_by_id sess i (pw_todos w) = Some r" using r at by (simp add: get_todo_by_id_iff [OF assms] of_session_def)
      then have "may_complete live sess (pw_flows w) r" using q by (simp add: todo_barrier_iff)
      then show ?thesis by (simp only: may_complete_def patched_frame)
    qed
    moreover have "td_status (patched (normalized_patch p) r) = (case tp_status p of None \<Rightarrow> td_status r | Some x \<Rightarrow> x)"
      by (simp add: patched_def normalized_patch_def or_same_def)
    ultimately show "same_todo r (?f r) \<and> (td_status (?f r) = ''completed'' \<longrightarrow> td_status r = ''completed'' \<or> may_complete live sess (pw_flows w) (?f r))"
      by (auto simp: same_todo_def split: option.splits)
  qed
  moreover define b where "b = (if tp_status p = Some ''completed''
    then (case get_todo_by_id sess i (pw_todos w) of None \<Rightarrow> Some (missing_todo sess i w)
          | Some r \<Rightarrow> map_option Barred (todo_barrier live sess (pw_flows w) r))
    else None)"
  ultimately have main: "completes_well live sess (pw_flows w) (pw_todos w) (snd (patch_todo_by_id sess i (normalized_patch p) (pw_todos w)))"
    if "b = None" using that by (auto split: if_splits option.splits)
  show ?thesis
  proof (cases b)
    case None
    show ?thesis using main [OF None]
      unfolding patch_todo_def Let_def b_def [symmetric] None
      by (cases "patch_todo_by_id sess i (normalized_patch p) (pw_todos w)") (simp add: completes_refl split: option.split)
  next
    case (Some e)
    show ?thesis unfolding patch_todo_def Let_def b_def [symmetric] Some by (simp add: completes_refl)
  qed
qed

lemma answer_of_world [simp]: "snd (answer_of wrap res) = snd res"
  by (simp add: answer_of_def case_prod_unfold split: sum.split)

lemma todo_action_completes:
  assumes "todo_ok (pw_todos w)"
  shows "completes_well live sess (pw_flows w) (pw_todos w) (pw_todos (snd (run_todo_action live now c sess w)))"
proof -
  have replace: "completes_well live sess (pw_flows w) (pw_todos w) (pw_todos (snd (run_replace live now c sess w)))"
    by (simp add: run_replace_def update_todos_completes completes_refl split: option.split)
  have "completes_well live sess (pw_flows w) (pw_todos w) (pw_todos (snd (add_todo now sess x None None cat after plan w)))" for x cat "after" plan
    using add_todo_completes [of live sess "pw_flows w" "pw_todos w" now sess x None None cat plan "after"]
    by (auto simp: add_todo_def completes_refl case_prod_unfold split: sum.split option.split)
  then have add: "completes_well live sess (pw_flows w) (pw_todos w) (pw_todos (snd (run_add now c sess w)))"
    by (simp add: run_add_def Let_def completes_refl)
  have filtered: "completes_well live sess t todos (filter P todos)" for t todos P
    by (auto simp: completes_well_def same_todo_def)
  have kept: "pw_todos (compensate_removed_flow now sess i v) = pw_todos v" for i v
    by (simp add: compensate_removed_flow_def split: option.split)
  have removed: "completes_well live sess (pw_flows w) (pw_todos w) (pw_todos (snd (remove_todo now sess i w)))" for i
    using remove_todo_table [of sess i "pw_todos w"]
    by (simp add: remove_todo_def completes_refl kept filtered case_prod_unfold split: option.split)
  have "completes_well live sess (pw_flows w) (pw_todos w) (snd (set_todo_flow_id_by_id sess i flow (pw_todos w)))" for i flow
    unfolding set_todo_flow_id_by_id_def change_todo_table update_where_map by (rule completes_image) (simp add: same_todo_def)
  then have bound: "completes_well live sess (pw_flows w) (pw_todos w) (pw_todos (snd (reattach_todo sess i flow w)))" for i flow
    by (simp add: reattach_todo_def completes_refl case_prod_unfold split: option.split)
  have "completes_well live sess (pw_flows w) (pw_todos w) (pw_todos (snd (run_on_todo live now c i sess w)))" for i
    using patch_todo_completes [OF assms] removed bound
    by (simp add: run_on_todo_def completes_refl split: todo_action.split)
  then show ?thesis
    using replace add by (simp add: run_todo_action_def completes_refl split: todo_action.split option.split)
qed

lemma todowrite_tables:
  "pw_todos (snd (todowrite live now c sess w)) = pw_todos (snd (run_todo_action live now c sess w))"
  "pw_flows (snd (todowrite live now c sess w)) = pw_flows (snd (run_todo_action live now c sess w))"
proof -
  have "pw_todos (snd (consume_reference_warning sess v)) = pw_todos v" "pw_flows (snd (consume_reference_warning sess v)) = pw_flows v" for v
    by (simp_all add: consume_reference_warning_def split: option.split)
  then show "pw_todos (snd (todowrite live now c sess w)) = pw_todos (snd (run_todo_action live now c sess w))"
    "pw_flows (snd (todowrite live now c sess w)) = pw_flows (snd (run_todo_action live now c sess w))"
    by (simp_all add: todowrite_def case_prod_unfold Let_def)
qed

text \<open>C32: The transition barrier cannot be got around: whatever is written, by replacing the list or by a local action, a
  todo that is completed afterwards was completed before under the same id, or it may be: its sub-agent is
  not running, the step it names is done, the flow it is the root of is over or gone.\<close>

theorem completion_is_guarded:
  assumes "todo_ok (pw_todos w)" and "r \<in> set (pw_todos (snd (todowrite live now c sess w)))" and "td_status r = ''completed''"
  shows "(\<exists>q \<in> set (pw_todos w). td_session q = td_session r \<and> td_id q = td_id r \<and> td_status q = ''completed'') \<or>
    may_complete live sess (pw_flows w) r"
  using todo_action_completes [OF assms(1), of live sess now c] assms(2,3) unfolding todowrite_tables completes_well_def same_todo_def by blast

subsection \<open>The roots of a session\<close>

definition flows_named :: "flow_table \<Rightarrow> bool" where
  "flows_named t = (\<forall>r \<in> set t. strip (fl_id r) \<noteq> [] \<and> fl_session r \<noteq> [])"

lemma flows_namedD: "flows_named t \<Longrightarrow> r \<in> set t \<Longrightarrow> fl_id r \<noteq> [] \<and> fl_session r \<noteq> []"
  by (auto simp: flows_named_def)

lemma compensate_each_table:
  assumes "table_ok t" and "flows_named t" and "distinct is"
  shows "snd (compensate_each now sess why is t) =
    map (\<lambda>r. if fl_session r = sess \<and> fl_id r \<in> set is \<and> \<not> flow_terminal (fl_status r) then gc_row now why r else r) t"
  using assms
proof (induction "is" arbitrary: t)
  case (Cons i ids)
  let ?m = "\<lambda>js r. if fl_session r = sess \<and> fl_id r \<in> set js \<and> \<not> flow_terminal (fl_status r) then gc_row now why r else r"
  have rest: "snd (compensate_each now sess why ids (map (?m [i]) t)) = map (?m ids) (map (?m [i]) t)"
    using Cons.prems by (intro Cons.IH table_ok_map) (auto simp: flows_named_def)
  have both: "?m ids (?m [i] r) = ?m (i # ids) r" for r using Cons.prems(3) by auto
  have all: "map (?m ids) (map (?m [i]) t) = map (?m (i # ids)) t"
    unfolding map_map comp_def by (rule map_cong [OF refl]) (rule both)
  consider (none) "get_flow i sess t = None" | (over) f where "get_flow i sess t = Some f" "flow_terminal (fl_status f)"
    | (hit) f where "get_flow i sess t = Some f" "\<not> flow_terminal (fl_status f)" by (cases "get_flow i sess t") auto
  then show ?case
  proof cases
    case none
    then have "map (?m [i]) t = t"
      by (intro map_idI) (auto simp: get_flow_def first_owned_None)
    then show ?thesis using rest all none by simp
  next
    case over
    then obtain r where r: "r \<in> set t" "fl_id r = i" "fl_session r = sess" "flow_terminal (fl_status r)"
      by (auto simp: get_flow_Some [OF Cons.prems(1)])
    have "map (?m [i]) t = t"
    proof (rule map_idI)
      fix q assume "q \<in> set t"
      then show "?m [i] q = q" using r Cons.prems(1) keyed_inj [of fl_id t q r] by (auto simp: table_ok_def)
    qed
    then show ?thesis using rest all over by simp
  next
    case hit
    then obtain r where r: "r \<in> set t" "fl_id r = i" "fl_session r = sess" "f = row_to_flow r" "\<not> flow_terminal (fl_status r)"
      by (auto simp: get_flow_Some [OF Cons.prems(1)])
    have "finalize_gc_flow now why f t = (True, map (\<lambda>q. if fl_id q = fl_id r then gc_row now why q else q) t)"
      unfolding r(4) using flows_namedD [OF Cons.prems(2) r(1)] by (intro finalize_row Cons.prems(1) r(1)) auto
    moreover have "map (\<lambda>q. if fl_id q = fl_id r then gc_row now why q else q) t = map (?m [i]) t"
    proof (rule map_cong [OF refl])
      fix q assume "q \<in> set t"
      then show "(if fl_id q = fl_id r then gc_row now why q else q) = ?m [i] q"
        using r keyed_inj [of fl_id t q r] Cons.prems(1) by (auto simp: table_ok_def)
    qed
    ultimately show ?thesis using rest all hit by (simp add: case_prod_unfold)
  qed
qed simp

lemma drop_flows_table:
  assumes "table_ok (pw_flows w)" and "flows_named (pw_flows w)"
  shows "pw_flows (drop_flows now sess ''cancel'' ids w) =
    map (\<lambda>r. if fl_session r = sess \<and> fl_id r \<in> set ids \<and> \<not> flow_terminal (fl_status r)
             then gc_row now ''todo_dropped_in_full_replace'' r else r) (pw_flows w)"
proof (cases "ids = []")
  case False
  let ?js = "distinct_values (filter (\<lambda>i. strip i \<noteq> []) ids)"
  have "pw_flows (drop_flows now sess ''cancel'' ids w) = snd (compensate_each now sess ''todo_dropped_in_full_replace'' ?js (pw_flows w))"
    using False by (simp add: drop_flows_def compensate_orphaned_flows_def set_reference_warning_def case_prod_unfold)
  also have "\<dots> = map (\<lambda>r. if fl_session r = sess \<and> fl_id r \<in> set ?js \<and> \<not> flow_terminal (fl_status r)
             then gc_row now ''todo_dropped_in_full_replace'' r else r) (pw_flows w)"
    by (rule compensate_each_table [OF assms]) simp
  also have "\<dots> = map (\<lambda>r. if fl_session r = sess \<and> fl_id r \<in> set ids \<and> \<not> flow_terminal (fl_status r)
             then gc_row now ''todo_dropped_in_full_replace'' r else r) (pw_flows w)"
    using assms(2) by (intro map_cong) (auto simp: flows_named_def)
  finally show ?thesis .
qed (simp add: drop_flows_def)

lemma in_flow_refs: "i \<in> set (flow_refs xs) \<longleftrightarrow> i \<noteq> [] \<and> Some i \<in> set xs"
  by (auto simp: flow_refs_def opt_text_def image_iff split: option.splits)

text \<open>C33: Replacing the list keeps the flows and the todos in step. When it is accepted, every flow the old list was the root
  of and the new one is not is over or gone; every flow an open todo of the new list refers to, and every
  flow of another session, is exactly as it was.\<close>

theorem replacement_moves_the_roots:
  assumes ok: "table_ok (pw_flows w)" "flows_named (pw_flows w)" and sess: "strip sess = sess"
    and call: "update_todos live ORPHAN_FLOW_ON_DROP now sess items plan w = (Inr latest, w')"
  shows "(\<forall>q \<in> set (get_todos sess (pw_todos w)). \<forall>i. td_flow q = Some i \<and> i \<noteq> [] \<and> (\<forall>x \<in> set items. ti_flow x \<noteq> Some i) \<longrightarrow>
        (\<forall>f. get_flow i sess (pw_flows w') = Some f \<longrightarrow> flow_terminal (fl_status f))) \<and>
    (\<forall>r \<in> set (pw_flows w). fl_session r \<noteq> sess \<or> fl_id r \<in> set (get_active_flow_ids sess (pw_todos w')) \<longrightarrow> r \<in> set (pw_flows w'))"
proof -
  let ?v = "map validate_item items"
  let ?ids = "orphaned_ids sess ?v (pw_todos w)"
  let ?w1 = "drop_flows now sess ''cancel'' ?ids w"
  have mode: "orphan_mode ORPHAN_FLOW_ON_DROP = ''cancel''" by code_simp
  obtain todos where todos: "replace_todos now sess ?v (pw_todos w) = (None, todos)"
    and w': "w' = trigger_session_sweep live now sess (remember_plan sess plan (?w1\<lparr>pw_todos := todos\<rparr>))"
    using call by (auto simp: update_todos_def Let_def mode TRIGGER_SWEEP_AFTER_REPLACE_def split: prod.splits option.splits)
  define t1 where "t1 = pw_flows ?w1"
  have t1: "t1 = map (\<lambda>r. if fl_session r = sess \<and> fl_id r \<in> set ?ids \<and> \<not> flow_terminal (fl_status r)
      then gc_row now ''todo_dropped_in_full_replace'' r else r) (pw_flows w)"
    unfolding t1_def by (rule drop_flows_table [OF ok])
  have ok1: "table_ok t1" "\<forall>r \<in> set t1. fl_id r \<noteq> []"
    unfolding t1 using ok by (auto simp: flows_named_def intro!: table_ok_map)
  define C where "C = (\<lambda>r. fl_session r = sess \<and> collectable live (now - UNREFERENCED_FLOW_GRACE) todos r)"
  have t2: "pw_flows w' = map (\<lambda>r. if C r then gc_row now ''orphan_unreferenced'' r else r) t1"
  proof -
    have "snd (unreferenced_flow_sweep live now None (Some [sess]) todos t1) = map (\<lambda>r. if C r then gc_row now ''orphan_unreferenced'' r else r) t1"
      by (rule conjunct1 [OF sweep_pass [OF ok1]]) (simp_all add: C_def)
    then show ?thesis by (simp add: w' trigger_session_sweep_def t1_def)
  qed
  have todos': "pw_todos w' = todos" by (simp add: w')
  have new: "todos = filter (\<lambda>r. \<not> of_session sess r) (pw_todos w) @ rows_from now sess 0 (next_todo_id sess (pw_todos w)) ?v"
    using todos sess by (auto simp: replace_todos_def Let_def split: if_splits)
  show ?thesis
  proof (intro conjI ballI allI impI)
    fix q i f
    assume q: "q \<in> set (get_todos sess (pw_todos w))" and i: "td_flow q = Some i \<and> i \<noteq> [] \<and> (\<forall>x \<in> set items. ti_flow x \<noteq> Some i)"
      and f: "get_flow i sess (pw_flows w') = Some f"
    have "Some i \<in> td_flow ` set (get_todos sess (pw_todos w))" by (rule image_eqI [of _ _ q]) (use q i in simp_all)
    moreover have "Some i \<notin> ti_flow ` set ?v" using i by (auto simp: validate_item_def)
    ultimately have id: "i \<in> set ?ids" using i by (simp add: orphaned_ids_def in_flow_refs image_image)
    have ok2: "table_ok (pw_flows w')" unfolding t2 by (intro table_ok_map ok1) simp
    obtain r2 where r2: "r2 \<in> set (pw_flows w')" "fl_id r2 = i" "fl_session r2 = sess" "f = row_to_flow r2"
      using f by (auto simp: get_flow_Some [OF ok2])
    obtain r1 where r1: "r1 \<in> set t1" "r2 = (if C r1 then gc_row now ''orphan_unreferenced'' r1 else r1)" using r2(1) unfolding t2 by auto
    have at: "fl_id r1 = i" "fl_session r1 = sess" using r1(2) r2(2,3) by (cases "C r1"; simp)+
    have failed: "flow_terminal ''failed''" by (simp add: flow_terminal_def TERMINAL_STATUSES_def)
    obtain r0 where "r0 \<in> set (pw_flows w)" "r1 = (if fl_session r0 = sess \<and> fl_id r0 \<in> set ?ids \<and> \<not> flow_terminal (fl_status r0)
        then gc_row now ''todo_dropped_in_full_replace'' r0 else r0)" using r1(1) unfolding t1 by auto
    then have "flow_terminal (fl_status r1)" using at id failed
      by (cases "fl_session r0 = sess \<and> fl_id r0 \<in> set ?ids \<and> \<not> flow_terminal (fl_status r0)") auto
    then show "flow_terminal (fl_status f)" using r1(2) r2(4) failed by (cases "C r1") simp_all
  next
    fix r
    assume r: "r \<in> set (pw_flows w)" and spared: "fl_session r \<noteq> sess \<or> fl_id r \<in> set (get_active_flow_ids sess (pw_todos w'))"
    have "\<not> (fl_session r = sess \<and> fl_id r \<in> set ?ids)"
    proof
      assume bad: "fl_session r = sess \<and> fl_id r \<in> set ?ids"
      then obtain q where q: "q \<in> set todos" "td_session q = sess" "td_flow q = Some (fl_id r)"
        using spared todos' by (auto simp: active_flow_ids_iff)
      then have "q \<in> set (rows_from now sess 0 (next_todo_id sess (pw_todos w)) ?v)" by (auto simp: new of_session_def)
      then obtain x where "x \<in> set items" "td_flow q = ti_flow x" by (rule row_of_item)
      then have "Some (fl_id r) \<in> set (map ti_flow ?v)" using q(3) by (auto simp: validate_item_def image_iff)
      then show False using bad by (auto simp: orphaned_ids_def in_flow_refs)
    qed
    then have "r \<in> set t1" unfolding t1 set_map using r by (intro image_eqI [of r _ r]) auto
    moreover have "\<not> C r" using spared todos' by (auto simp: C_def collectable_def)
    ultimately show "r \<in> set (pw_flows w')" unfolding t2 set_map by (intro image_eqI [of r _ r]) auto
  qed
qed

definition demo_link :: "string \<Rightarrow> text_id \<Rightarrow> todo_item" where
  "demo_link x flow = (demo_item x)\<lparr>ti_flow := Some flow\<rparr>"

definition demo_plan_world :: plan_world where
  "demo_plan_world = \<lparr>pw_todos = snd (replace_todos 5 ''s1'' [demo_link ''a'' ''f1'', demo_link ''b'' ''f2''] []),
     pw_flows = demo_field, pw_plan_refs = [], pw_warnings = [], pw_reminded = []\<rparr>"

lemma demo_field_ok: "table_ok demo_field" "flows_named demo_field"
proof -
  have "map (\<lambda>r. (strip (fl_id r), fl_session r)) demo_field = [(''f1'', ''s1''), (''f2'', ''s1''), (''f3'', ''s1'')]" by code_simp
  then show "flows_named demo_field" by (auto simp: flows_named_def demo_field_def)
  show "table_ok demo_field" by (simp add: table_ok_def demo_field_def demo_open_def new_flow_def)
qed

theorem replacement_moves_the_roots_witness:
  "\<exists>latest w'. update_todos (\<lambda>k. k = ''c2'') ORPHAN_FLOW_ON_DROP 1000 ''s1'' [demo_link ''b'' ''f2''] None demo_plan_world = (Inr latest, w') \<and>
     (\<forall>f. get_flow ''f1'' ''s1'' (pw_flows w') = Some f \<longrightarrow> flow_terminal (fl_status f)) \<and> demo_open ''f2'' (Some ''c2'') 10 \<in> set (pw_flows w')"
proof -
  let ?r = "update_todos (\<lambda>k. k = ''c2'') ORPHAN_FLOW_ON_DROP 1000 ''s1'' [demo_link ''b'' ''f2''] None demo_plan_world"
  have "(case fst ?r of Inl _ \<Rightarrow> False | Inr _ \<Rightarrow> True)" "get_active_flow_ids ''s1'' (pw_todos (snd ?r)) = [''f2'']" by code_simp+
  then obtain latest w' where res: "?r = (Inr latest, w')" and roots: "get_active_flow_ids ''s1'' (pw_todos w') = [''f2'']"
    by (cases ?r) (auto split: sum.splits)
  have flows: "pw_flows demo_plan_world = demo_field" by (simp add: demo_plan_world_def)
  have sess: "strip ''s1'' = ''s1''" by code_simp
  note moves = replacement_moves_the_roots [OF _ _ sess res, unfolded flows, OF demo_field_ok]
  have "map td_flow (get_todos ''s1'' (pw_todos demo_plan_world)) = [Some ''f1'', Some ''f2'']" by code_simp
  then obtain q p where "get_todos ''s1'' (pw_todos demo_plan_world) = [q, p]" "td_flow q = Some ''f1''" by (auto simp: map_eq_Cons_conv)
  then have "q \<in> set (get_todos ''s1'' (pw_todos demo_plan_world))" "td_flow q = Some ''f1''" by simp_all
  then have "\<forall>f. get_flow ''f1'' ''s1'' (pw_flows w') = Some f \<longrightarrow> flow_terminal (fl_status f)"
    using conjunct1 [OF moves] by (auto simp: demo_link_def)
  moreover have "demo_open ''f2'' (Some ''c2'') 10 \<in> set (pw_flows w')"
  proof (rule conjunct2 [OF moves, THEN bspec, THEN mp])
    show "demo_open ''f2'' (Some ''c2'') 10 \<in> set demo_field" by (simp add: demo_field_def)
    show "fl_session (demo_open ''f2'' (Some ''c2'') 10) \<noteq> ''s1'' \<or>
      fl_id (demo_open ''f2'' (Some ''c2'') 10) \<in> set (get_active_flow_ids ''s1'' (pw_todos w'))"
      by (simp add: roots demo_open_def new_flow_def)
  qed
  ultimately show ?thesis using res by (intro exI conjI)
qed

text \<open>The flow of the first todo has finished; the todo is patched.\<close>

definition demo_finished_world :: plan_world where
  "demo_finished_world = demo_plan_world\<lparr>pw_flows := [(demo_open ''f1'' None 10)\<lparr>fl_status := ''done''\<rparr>]\<rparr>"

definition demo_complete :: todo_call where
  "demo_complete = \<lparr>tc_action = Act_Patch, tc_todos = None, tc_id = Some 1, tc_after = None, tc_content = None,
     tc_status = Some ''completed'', tc_priority = None, tc_category = None, tc_plan = None, tc_flow = None\<rparr>"

theorem completion_is_guarded_witness:
  "\<exists>r \<in> set (pw_todos (snd (todowrite (\<lambda>_. False) 20 demo_complete ''s1'' demo_finished_world))).
     td_status r = ''completed'' \<and> may_complete (\<lambda>_. False) ''s1'' (pw_flows demo_finished_world) r"
proof -
  let ?t' = "pw_todos (snd (todowrite (\<lambda>_. False) 20 demo_complete ''s1'' demo_finished_world))"
  have ok: "todo_ok (pw_todos demo_finished_world)"
    by (simp add: demo_finished_world_def demo_plan_world_def replace_todos_ok)
  have "map td_status ?t' = [''completed'', ''pending'']" by code_simp
  then have "\<exists>r p. ?t' = [r, p] \<and> td_status r = ''completed''" by (auto simp: map_eq_Cons_conv)
  then obtain r p where "?t' = [r, p]" "td_status r = ''completed''" by blast
  then have r: "r \<in> set ?t'" "td_status r = ''completed''" by simp_all
  have "map td_status (pw_todos demo_finished_world) = [''pending'', ''pending'']" by code_simp
  then have "\<forall>q \<in> set (pw_todos demo_finished_world). td_status q \<noteq> ''completed''" by (auto simp: map_eq_Cons_conv)
  then have "may_complete (\<lambda>_. False) ''s1'' (pw_flows demo_finished_world) r"
    using completion_is_guarded [OF ok r] by blast
  then show ?thesis using r by blast
qed

text \<open>Two ways to go wrong. A list whose positions collide is refused by the table after the flows it drops were failed: the
  todos stay and their flow is gone. And a status outside of the vocabulary is taken: a todo that was patched to
  \<^verbatim>\<open>done\<close> stays a root of its flow.\<close>

lemma todo_service_gaps:
  "fst (update_todos (\<lambda>_. False) ORPHAN_FLOW_ON_DROP 20 ''s1'' [(demo_item ''c'')\<lparr>ti_position := Some 1\<rparr>, demo_item ''d''] None demo_plan_world) =
     Inl (Todo_Store_Raises Todo_Position_Taken)"
  "map td_content (pw_todos (snd (update_todos (\<lambda>_. False) ORPHAN_FLOW_ON_DROP 20 ''s1''
     [(demo_item ''c'')\<lparr>ti_position := Some 1\<rparr>, demo_item ''d''] None demo_plan_world))) = [''a'', ''b'']"
  "map fl_status (pw_flows (snd (update_todos (\<lambda>_. False) ORPHAN_FLOW_ON_DROP 20 ''s1''
     [(demo_item ''c'')\<lparr>ti_position := Some 1\<rparr>, demo_item ''d''] None demo_plan_world))) = [''failed'', ''failed'', ''running'']"
  "get_active_flow_ids ''s1'' (pw_todos (snd (todowrite (\<lambda>_. False) 20 (demo_complete\<lparr>tc_status := Some ''done''\<rparr>) ''s1'' demo_finished_world))) =
     [''f1'', ''f2'']"
  by code_simp+

end
